(* ===== verification/Prelude.thy ===== *)
theory Prelude
  imports Main "HOL-Library.Word"
begin

unbundle bit_operations_syntax

text \<open>
  Shared ground of the development. MicroOS is compiled for 32-bit x86, so a C \<open>int\<close>,
  \<open>size_t\<close>, \<open>uintptr_t\<close> and every pointer is a 32-bit word and a \<open>char\<close> is a signed
  8-bit word. This theory names those types, gives the byte-addressed memory on which the
  string routines work, the abstraction of NUL-terminated strings and byte ranges in that
  memory, and the sum type of results that may fault. The collections \<open>mem_simps\<close> and
  \<open>res_simps\<close> carry the proofs of the component theories.
\<close>

named_theorems mem_simps \<open>rewriting of byte stores and loads\<close>
named_theorems res_simps \<open>rewriting of results that may fault\<close>

section \<open>Machine types\<close>

type_synonym u8 = "8 word"
type_synonym u16 = "16 word"
type_synonym u32 = "32 word"
type_synonym u64 = "64 word"

text \<open>A byte-addressed memory: the address space wraps at \<open>2 ^ 32\<close>.\<close>

type_synonym mem = "u32 \<Rightarrow> u8"

abbreviation NULL :: u32 where
  "NULL \<equiv> 0"

section \<open>Results that may fault\<close>

text \<open>
  How a C function can fail to return normally: a read or write through \<open>NULL\<close>, an access
  outside an array, \<open>abort()\<close> in user space, a failed \<open>assert\<close>, a kernel panic in which the
  operator halts the machine, and the CPU's divide error.
\<close>

datatype fault = NullDeref | OutOfBounds | Aborted | AssertFailed | Halted | DivideError | Uninitialised

type_synonym 'a res = "fault + 'a"

definition rbind :: "'a res \<Rightarrow> ('a \<Rightarrow> 'b res) \<Rightarrow> 'b res" where
  "rbind r f = (case r of Inl e \<Rightarrow> Inl e | Inr x \<Rightarrow> f x)"

lemma rbind_Inl [simp, res_simps]: "rbind (Inl e) f = Inl e"
  by (simp add: rbind_def)

lemma rbind_Inr [simp, res_simps]: "rbind (Inr x) f = f x"
  by (simp add: rbind_def)

lemma rbind_eq_Inr [res_simps]: "rbind r f = Inr y \<longleftrightarrow> (\<exists>x. r = Inr x \<and> f x = Inr y)"
  by (cases r) simp_all

lemma rbind_eq_Inl [res_simps]: "rbind r f = Inl e \<longleftrightarrow> r = Inl e \<or> (\<exists>x. r = Inr x \<and> f x = Inl e)"
  by (cases r) auto

lemma rbind_split: "P (rbind r f) \<longleftrightarrow> (\<forall>e. r = Inl e \<longrightarrow> P (Inl e)) \<and> (\<forall>x. r = Inr x \<longrightarrow> P (f x))"
  by (cases r) simp_all

text \<open>An ML-style \<open>case\<close> on a fault is avoided in termination proofs by this congruence.\<close>

lemma rbind_cong [fundef_cong]:
  "r = r' \<Longrightarrow> (\<And>x. r' = Inr x \<Longrightarrow> f x = g x) \<Longrightarrow> rbind r f = rbind r' g"
  by (cases r') simp_all

text \<open>Results of code that may also not return: \<open>None\<close>.\<close>

definition lbind :: "'a res option \<Rightarrow> ('a \<Rightarrow> 'b res option) \<Rightarrow> 'b res option" where
  "lbind x f = (case x of None \<Rightarrow> None | Some (Inl e) \<Rightarrow> Some (Inl e) | Some (Inr y) \<Rightarrow> f y)"

lemma lbind_simps [simp]: "lbind None f = None" "lbind (Some (Inl e)) f = Some (Inl e)" "lbind (Some (Inr x)) f = f x"
  by (simp_all add: lbind_def)

lemma lbind_eq_Inr [res_simps]: "lbind x f = Some (Inr y) \<longleftrightarrow> (\<exists>z. x = Some (Inr z) \<and> f z = Some (Inr y))"
  by (auto simp: lbind_def split: option.splits sum.splits)

section \<open>Words\<close>

lemma of_nat_u32_eq_iff:
  assumes "i < 2 ^ 32" "j < 2 ^ 32"
  shows "(of_nat i :: u32) = of_nat j \<longleftrightarrow> i = j"
proof
  assume "(of_nat i :: u32) = of_nat j"
  then have "unat (of_nat i :: u32) = unat (of_nat j :: u32)" by simp
  with assms show "i = j" by (simp add: unat_of_nat take_bit_nat_eq_self)
qed simp

lemma of_nat_u32_eq_0_iff:
  "i < 2 ^ 32 \<Longrightarrow> (of_nat i :: u32) = 0 \<longleftrightarrow> i = 0"
  using of_nat_u32_eq_iff [of i 0] by simp

lemma unat_of_nat_u32 [simp]: "i < 2 ^ 32 \<Longrightarrow> unat (of_nat i :: u32) = i"
  by (simp add: unat_of_nat take_bit_nat_eq_self)

lemma unat_add_u32: "unat a + unat b < 2 ^ 32 \<Longrightarrow> unat (a + b) = unat a + unat b" for a b :: u32
  by (simp add: unat_word_ariths)

section \<open>Byte ranges in memory\<close>

text \<open>\<open>range p n\<close> is the set of the \<open>n\<close> addresses from \<open>p\<close> on.\<close>

definition range_of :: "u32 \<Rightarrow> nat \<Rightarrow> u32 set" where
  "range_of p n = (\<lambda>i. p + of_nat i) ` {..<n}"

lemma range_of_0 [simp]: "range_of p 0 = {}"
  by (simp add: range_of_def)

lemma range_of_Suc: "range_of p (Suc n) = insert p (range_of (p + 1) n)"
proof -
  have "range_of p (Suc n) = (\<lambda>i. p + of_nat i) ` insert 0 (Suc ` {..<n})"
    by (simp add: range_of_def lessThan_Suc_eq_insert_0)
  also have "\<dots> = insert p (range_of (p + 1) n)"
    by (simp add: range_of_def image_image add.assoc)
  finally show ?thesis .
qed

lemma range_of_memI [intro]: "i < n \<Longrightarrow> p + of_nat i \<in> range_of p n"
  by (auto simp: range_of_def)

lemma range_of_memE:
  assumes "a \<in> range_of p n"
  obtains i where "i < n" "a = p + of_nat i"
  using assms by (auto simp: range_of_def)

lemma range_of_mono: "m \<le> n \<Longrightarrow> range_of p m \<subseteq> range_of p n"
  by (auto simp: range_of_def)

lemma range_of_part: "k + n \<le> l \<Longrightarrow> range_of (p + of_nat k) n \<subseteq> range_of p l"
proof
  fix a
  assume "k + n \<le> l" "a \<in> range_of (p + of_nat k) n"
  then obtain i where "i < n" "a = p + of_nat (k + i)" by (auto simp: range_of_def add.assoc)
  then show "a \<in> range_of p l" using \<open>k + n \<le> l\<close> range_of_memI [of "k + i" l p] by simp
qed

lemma range_of_head_notin_tail:
  assumes "n < 2 ^ 32"
  shows "p \<notin> range_of (p + 1) n"
proof
  assume "p \<in> range_of (p + 1) n"
  then obtain i where "i < n" and "p = p + 1 + of_nat i" by (rule range_of_memE)
  then have "(of_nat (Suc i) :: u32) = 0" by (simp add: add.assoc)
  moreover have "Suc i < 2 ^ 32" using \<open>i < n\<close> assms by simp
  ultimately show False using of_nat_u32_eq_0_iff [of "Suc i"] by simp
qed

primrec load_bytes :: "mem \<Rightarrow> u32 \<Rightarrow> nat \<Rightarrow> u8 list" where
  "load_bytes m p 0 = []"
| "load_bytes m p (Suc n) = m p # load_bytes m (p + 1) n"

primrec store_bytes :: "mem \<Rightarrow> u32 \<Rightarrow> u8 list \<Rightarrow> mem" where
  "store_bytes m p [] = m"
| "store_bytes m p (b # bs) = store_bytes (m(p := b)) (p + 1) bs"

lemma length_load_bytes [simp, mem_simps]: "length (load_bytes m p n) = n"
  by (induction n arbitrary: p) simp_all

lemma load_bytes_nth: "i < n \<Longrightarrow> load_bytes m p n ! i = m (p + of_nat i)"
  by (induction n arbitrary: p i) (auto simp: nth_Cons add.assoc split: nat.splits)

lemma load_bytes_cong:
  "(\<And>a. a \<in> range_of p n \<Longrightarrow> m a = m' a) \<Longrightarrow> load_bytes m p n = load_bytes m' p n"
  by (induction n arbitrary: p) (simp_all add: range_of_Suc)

lemma load_bytes_add:
  "load_bytes m p (a + b) = load_bytes m p a @ load_bytes m (p + of_nat a) b"
  by (induction a arbitrary: p) (simp_all add: add.assoc)

lemma store_bytes_append:
  "store_bytes m p (xs @ ys) = store_bytes (store_bytes m p xs) (p + of_nat (length xs)) ys"
  by (induction xs arbitrary: m p) (simp_all add: add.assoc)

lemma store_bytes_outside [mem_simps]:
  "a \<notin> range_of p (length bs) \<Longrightarrow> store_bytes m p bs a = m a"
  by (induction bs arbitrary: m p) (simp_all add: range_of_Suc)

lemma load_store_bytes:
  "length bs \<le> 2 ^ 32 \<Longrightarrow> load_bytes (store_bytes m p bs) p (length bs) = bs"
proof (induction bs arbitrary: m p)
  case (Cons b bs)
  have "p \<notin> range_of (p + 1) (length bs)"
    using Cons.prems by (intro range_of_head_notin_tail) simp
  then have "store_bytes (m(p := b)) (p + 1) bs p = b"
    by (simp add: store_bytes_outside)
  with Cons show ?case by simp
qed simp

lemma store_bytes_nth:
  assumes "length bs \<le> 2 ^ 32" "i < length bs"
  shows "store_bytes m p bs (p + of_nat i) = bs ! i"
proof -
  have "store_bytes m p bs (p + of_nat i) = load_bytes (store_bytes m p bs) p (length bs) ! i"
    using assms(2) by (simp add: load_bytes_nth)
  then show ?thesis using assms(1) by (simp add: load_store_bytes)
qed

section \<open>NUL-terminated strings in memory\<close>

text \<open>\<open>cstr m p s\<close>: the bytes from \<open>p\<close> on are \<open>s\<close>, none of them 0, followed by a 0.\<close>

fun cstr :: "mem \<Rightarrow> u32 \<Rightarrow> u8 list \<Rightarrow> bool" where
  "cstr m p [] \<longleftrightarrow> m p = 0"
| "cstr m p (c # s) \<longleftrightarrow> m p = c \<and> c \<noteq> 0 \<and> cstr m (p + 1) s"

lemma cstr_cong:
  "(\<And>a. a \<in> range_of p (Suc (length s)) \<Longrightarrow> m a = m' a) \<Longrightarrow> cstr m p s \<longleftrightarrow> cstr m' p s"
proof (induction s arbitrary: p)
  case (Cons c s)
  have "cstr m (p + 1) s \<longleftrightarrow> cstr m' (p + 1) s"
    by (rule Cons.IH) (use Cons.prems in \<open>simp add: range_of_Suc\<close>)
  then show ?case using Cons.prems [of p] by (simp add: range_of_Suc)
qed (simp add: range_of_Suc)

lemma cstr_nonzero: "cstr m p s \<Longrightarrow> 0 \<notin> set s"
  by (induction s arbitrary: p) auto

lemma cstr_iff_load:
  "cstr m p s \<longleftrightarrow> load_bytes m p (length s) = s \<and> 0 \<notin> set s \<and> m (p + of_nat (length s)) = 0"
  by (induction s arbitrary: p) (auto simp: add.assoc)

lemma cstr_unique: "cstr m p s \<Longrightarrow> cstr m p t \<Longrightarrow> s = t"
proof (induction s arbitrary: p t)
  case Nil
  then show ?case by (cases t) auto
next
  case (Cons c s)
  then show ?case by (cases t) auto
qed

lemma cstr_append: "cstr m p (s @ t) \<longleftrightarrow> load_bytes m p (length s) = s \<and> 0 \<notin> set s \<and>
    cstr m (p + of_nat (length s)) t"
  by (induction s arbitrary: p) (auto simp: add.assoc)

lemma cstr_store_bytes:
  assumes "0 \<notin> set s" "length s < 2 ^ 32"
  shows "cstr (store_bytes m p (s @ [0])) p s"
proof -
  let ?m = "store_bytes m p (s @ [0])"
  have "load_bytes ?m p (length (s @ [0])) = s @ [0]"
    by (rule load_store_bytes) (use assms in simp)
  then have "load_bytes ?m p (length s) @ [?m (p + of_nat (length s))] = s @ [0]"
    using load_bytes_add [of ?m p "length s" 1] by simp
  then show ?thesis using assms by (simp add: cstr_iff_load)
qed

end
