(* ===== verification/KString.thy ===== *)
theory KString
  imports Prelude
begin

text \<open>
  The kernel's string and memory routines, \<open>mckrnl/utils/string.c\<close>, as built with
  \<open>FAST_MEMORY\<close> (the macro is defined in \<open>config.h\<close>), on the byte memory of Prelude.
  A loop that runs until it sees a NUL byte need not stop, so it is a
  \<^theory_text>\<open>partial_function (option)\<close>: \<open>None\<close> is "does not return". Loops with a counter
  are recursions on it. A \<open>char\<close> is signed on i386: \<open>sint\<close> is its promotion to \<open>int\<close>.
\<close>

section \<open>Definitions\<close>

partial_function (option) strcpy_loop :: "mem \<Rightarrow> u32 \<Rightarrow> u32 \<Rightarrow> mem option" where
  "strcpy_loop m dest src =
     (let m' = m(dest := m src); dest' = dest + 1; src' = src + 1
      in if m' src' \<noteq> 0 then strcpy_loop m' dest' src' else Some m')"

text \<open>The \<open>do ... while\<close> loop of \<open>strcpy\<close>; the function returns \<open>0\<close>, not \<open>dest\<close>.\<close>

definition strcpy :: "mem \<Rightarrow> u32 \<Rightarrow> u32 \<Rightarrow> (mem \<times> u32) option" where
  "strcpy m dest src = map_option (\<lambda>m'. (m', NULL)) (strcpy_loop m dest src)"

partial_function (option) strlen_loop :: "mem \<Rightarrow> u32 \<Rightarrow> u32 \<Rightarrow> u32 option" where
  "strlen_loop m src i = (if m src \<noteq> 0 then strlen_loop m (src + 1) (i + 1) else Some i)"

definition strlen :: "mem \<Rightarrow> u32 \<Rightarrow> u32 option" where
  "strlen m src = strlen_loop m src 0"

text \<open>
  \<open>maxlen\<close> and \<open>i\<close> are \<open>int\<close>s, compared signed; the loop counts up from 0 to at most
  \<open>maxlen\<close>, so it is a recursion on the iterations left.
\<close>

primrec strnlen_loop :: "mem \<Rightarrow> u32 \<Rightarrow> nat \<Rightarrow> nat \<Rightarrow> nat" where
  "strnlen_loop m s i 0 = i"
| "strnlen_loop m s i (Suc n) = (if m (s + of_nat i) = 0 then i else strnlen_loop m s (Suc i) n)"

definition strnlen :: "mem \<Rightarrow> u32 \<Rightarrow> u32 \<Rightarrow> u32" where
  "strnlen m s maxlen = of_nat (strnlen_loop m s 0 (nat (sint maxlen)))"

partial_function (option) strchr_loop :: "mem \<Rightarrow> u32 \<Rightarrow> u8 \<Rightarrow> u32 option" where
  "strchr_loop m str c =
     (if m str \<noteq> 0 then (if m str = c then Some str else strchr_loop m (str + 1) c)
      else Some NULL)"

text \<open>The argument \<open>chr\<close> is an \<open>int\<close> and is cast to \<open>char\<close> for the comparison.\<close>

definition strchr :: "mem \<Rightarrow> u32 \<Rightarrow> u32 \<Rightarrow> u32 option" where
  "strchr m str chr = (if str = NULL then Some NULL else strchr_loop m str (ucast chr))"

partial_function (option) strcat_end :: "mem \<Rightarrow> u32 \<Rightarrow> u32 option" where
  "strcat_end m d = (if m d \<noteq> 0 then strcat_end m (d + 1) else Some d)"

partial_function (option) strcat_copy :: "mem \<Rightarrow> u32 \<Rightarrow> u32 \<Rightarrow> mem option" where
  "strcat_copy m d src =
     (if m src \<noteq> 0 then strcat_copy (m(d := m src)) (d + 1) (src + 1) else Some (m(d := 0)))"

definition strcat :: "mem \<Rightarrow> u32 \<Rightarrow> u32 \<Rightarrow> (mem \<times> u32) option" where
  "strcat m dest src =
     Option.bind (strcat_end m dest)
       (\<lambda>d. map_option (\<lambda>m'. (m', dest)) (strcat_copy m d src))"

text \<open>
  \<open>rep movsl\<close>: \<open>nn\<close> times, read the four bytes at \<open>esi\<close>, write them at \<open>edi\<close>, and advance
  both registers by 4. The C variables \<open>dest\<close> and \<open>src\<close> are the in/out operands
  \<open>"+D"\<close> and \<open>"+S"\<close>, so they hold the advanced pointers afterwards.
\<close>

primrec rep_movsl :: "nat \<Rightarrow> mem \<Rightarrow> u32 \<Rightarrow> u32 \<Rightarrow> mem \<times> u32 \<times> u32" where
  "rep_movsl 0 m dest src = (m, dest, src)"
| "rep_movsl (Suc nn) m dest src =
     rep_movsl nn (store_bytes m dest (load_bytes m src 4)) (dest + 4) (src + 4)"

primrec copy_fwd :: "nat \<Rightarrow> mem \<Rightarrow> u32 \<Rightarrow> u32 \<Rightarrow> mem" where
  "copy_fwd 0 m d s = m"
| "copy_fwd (Suc k) m d s = copy_fwd k (m(d := m s)) (d + 1) (s + 1)"

definition memcpy :: "mem \<Rightarrow> u32 \<Rightarrow> u32 \<Rightarrow> u32 \<Rightarrow> mem \<times> u32" where
  "memcpy m dest src n =
     (let nn = n div 4;
          (m', dest', src') = rep_movsl (unat nn) m dest src;
          remaining = n mod 4
      in (copy_fwd (unat remaining) m' dest' src', dest'))"

text \<open>A 32-bit value in memory, least significant byte first (x86 is little-endian).\<close>

definition bytes_of_u32 :: "u32 \<Rightarrow> u8 list" where
  "bytes_of_u32 w = [ucast w, ucast (drop_bit 8 w), ucast (drop_bit 16 w), ucast (drop_bit 24 w)]"

primrec rep_stosl :: "nat \<Rightarrow> mem \<Rightarrow> u32 \<Rightarrow> u32 \<Rightarrow> mem \<times> u32" where
  "rep_stosl 0 m start eax = (m, start)"
| "rep_stosl (Suc nn) m start eax =
     rep_stosl nn (store_bytes m start (bytes_of_u32 eax)) (start + 4) eax"

primrec fill_fwd :: "nat \<Rightarrow> mem \<Rightarrow> u32 \<Rightarrow> u8 \<Rightarrow> mem" where
  "fill_fwd 0 m s v = m"
| "fill_fwd (Suc k) m s v = fill_fwd k (m(s := v)) (s + 1) v"

definition memset :: "mem \<Rightarrow> u32 \<Rightarrow> u8 \<Rightarrow> u32 \<Rightarrow> mem \<times> u32" where
  "memset m start value num =
     (let nn = num div 4;
          v = (ucast value :: u32);
          long_value = push_bit 24 v OR push_bit 16 v OR push_bit 8 v OR v;
          (m', start') = rep_stosl (unat nn) m start long_value;
          remaining = num mod 4
      in (fill_fwd (unat remaining) m' start' value, start'))"

primrec memcmp_loop :: "nat \<Rightarrow> mem \<Rightarrow> u32 \<Rightarrow> u32 \<Rightarrow> int" where
  "memcmp_loop 0 m s1 s2 = 0"
| "memcmp_loop (Suc n) m s1 s2 =
     (if m s1 \<noteq> m s2 then uint (m s1) - uint (m s2) else memcmp_loop n m (s1 + 1) (s2 + 1))"

definition memcmp :: "mem \<Rightarrow> u32 \<Rightarrow> u32 \<Rightarrow> u32 \<Rightarrow> int" where
  "memcmp m s1 s2 n = memcmp_loop (unat n) m s1 s2"

partial_function (option) strcmp :: "mem \<Rightarrow> u32 \<Rightarrow> u32 \<Rightarrow> int option" where
  "strcmp m str1 str2 =
     (if m str1 \<noteq> 0 \<and> m str2 \<noteq> 0 then
        (if m str1 \<noteq> m str2 then Some (sint (m str1) - sint (m str2))
         else strcmp m (str1 + 1) (str2 + 1))
      else Some (sint (m str1) - sint (m str2)))"

partial_function (option) copy_until_loop :: "u8 \<Rightarrow> mem \<Rightarrow> u32 \<Rightarrow> u32 \<Rightarrow> u32 \<Rightarrow> (mem \<times> u32) option" where
  "copy_until_loop until m src dest i =
     (if m (src + i) \<noteq> 0 \<and> m (src + i) \<noteq> until
      then copy_until_loop until (m(dest + i := m (src + i))) src dest (i + 1)
      else Some (m, i))"

definition copy_until :: "u8 \<Rightarrow> mem \<Rightarrow> u32 \<Rightarrow> u32 \<Rightarrow> (mem \<times> u32) option" where
  "copy_until until m src dest =
     map_option (\<lambda>(m', i). let m'' = m'(dest + i := 0) in
       (m'', src + (i + (if m'' (src + i) = 0 then 0 else 1)))) (copy_until_loop until m src dest 0)"

text \<open>The macros \<open>isupper\<close> and \<open>tolower\<close>, on the promoted \<open>char\<close>.\<close>

definition isupper :: "int \<Rightarrow> bool" where
  "isupper c \<longleftrightarrow> c \<ge> 65 \<and> c \<le> 90"

definition tolower :: "int \<Rightarrow> int" where
  "tolower c = (if isupper c then c - (65 - 97) else c)"

partial_function (option) strcasecmp :: "mem \<Rightarrow> u32 \<Rightarrow> u32 \<Rightarrow> int option" where
  "strcasecmp m str1 str2 =
     (if m str1 \<noteq> 0 \<and> tolower (sint (m str1)) = tolower (sint (m str2))
      then strcasecmp m (str1 + 1) (str2 + 1)
      else Some (tolower (sint (m str1)) - tolower (sint (m str2))))"

section \<open>Scans for the terminating NUL\<close>

lemma strlen_loop_cstr: "cstr m p s \<Longrightarrow> strlen_loop m p i = Some (i + of_nat (length s))"
proof (induction s arbitrary: p i)
  case Nil
  then show ?case by (subst strlen_loop.simps) simp
next
  case (Cons c s)
  then show ?case by (subst strlen_loop.simps) (simp add: add.assoc)
qed

lemma strlen_cstr: "cstr m p s \<Longrightarrow> strlen m p = Some (of_nat (length s))"
  by (simp add: strlen_def strlen_loop_cstr)

lemma strcat_end_cstr: "cstr m p s \<Longrightarrow> strcat_end m p = Some (p + of_nat (length s))"
proof (induction s arbitrary: p)
  case Nil
  then show ?case by (subst strcat_end.simps) simp
next
  case (Cons c s)
  then show ?case by (subst strcat_end.simps) (simp add: add.assoc)
qed

text \<open>\<open>strchr\<close> finds the first occurrence: nothing before it is the character.\<close>

lemma strchr_loop_cstr:
  "cstr m p s \<Longrightarrow> c \<noteq> 0 \<Longrightarrow> strchr_loop m p c =
     Some (if c \<in> set s then p + of_nat (length (takeWhile (\<lambda>x. x \<noteq> c) s)) else NULL)"
proof (induction s arbitrary: p)
  case Nil
  then show ?case by (subst strchr_loop.simps) simp
next
  case (Cons a s)
  then show ?case by (subst strchr_loop.simps) (auto simp: add.assoc)
qed

lemma strnlen_loop_cstr:
  assumes "cstr m p s"
  shows "i \<le> length s \<Longrightarrow> strnlen_loop m p i n = min (length s) (i + n)"
proof (induction n arbitrary: i)
  case (Suc n)
  have "m (p + of_nat i) = 0 \<longleftrightarrow> i = length s"
  proof (cases "i < length s")
    case True
    with assms have "m (p + of_nat i) = s ! i" "0 \<notin> set s"
      by (auto simp: cstr_iff_load load_bytes_nth [symmetric])
    with True show ?thesis by (metis less_irrefl nth_mem)
  next
    case False
    with Suc.prems assms show ?thesis by (simp add: cstr_iff_load)
  qed
  with Suc show ?case by (auto simp: min_def)
qed simp

section \<open>Copying\<close>

lemma strcpy_loop_cstr:
  "cstr m src (c # s) \<Longrightarrow> range_of dest (Suc (length s)) \<inter> range_of src (Suc (Suc (length s))) = {} \<Longrightarrow>
   strcpy_loop m dest src = Some (store_bytes m dest (c # s))"
proof (induction s arbitrary: m src dest c)
  case Nil
  then have "src + 1 \<noteq> dest" by (auto simp: range_of_Suc)
  with Nil show ?case by (subst strcpy_loop.simps) simp
next
  case (Cons d s)
  let ?m = "m(dest := c)"
  have disj: "dest \<notin> range_of src (Suc (Suc (Suc (length s))))"
    using Cons.prems(2) by (auto simp: range_of_Suc)
  have "cstr m (src + 1) (d # s)" using Cons.prems(1) by simp
  moreover have "cstr m (src + 1) (d # s) \<longleftrightarrow> cstr ?m (src + 1) (d # s)"
    by (rule cstr_cong) (use disj in \<open>auto simp: range_of_Suc\<close>)
  ultimately have c: "cstr ?m (src + 1) (d # s)" by blast
  then have "strcpy_loop ?m (dest + 1) (src + 1) = Some (store_bytes ?m (dest + 1) (d # s))"
    by (rule Cons.IH) (use Cons.prems(2) in \<open>auto simp: range_of_Suc\<close>)
  moreover have "?m (src + 1) \<noteq> 0" using c by auto
  ultimately show ?case using Cons.prems(1) by (subst strcpy_loop.simps) (simp add: Let_def)
qed

lemma strcat_copy_cstr:
  "cstr m src s \<Longrightarrow> range_of d (length s) \<inter> range_of src (Suc (length s)) = {} \<Longrightarrow>
   strcat_copy m d src = Some (store_bytes m d (s @ [0]))"
proof (induction s arbitrary: m src d)
  case Nil
  then show ?case by (subst strcat_copy.simps) simp
next
  case (Cons c s)
  let ?m = "m(d := c)"
  have "cstr m (src + 1) s \<longleftrightarrow> cstr ?m (src + 1) s"
    by (rule cstr_cong) (use Cons.prems(2) in \<open>auto simp: range_of_Suc\<close>)
  then have "cstr ?m (src + 1) s" using Cons.prems(1) by simp
  then have "strcat_copy ?m (d + 1) (src + 1) = Some (store_bytes ?m (d + 1) (s @ [0]))"
    by (rule Cons.IH) (use Cons.prems(2) in \<open>auto simp: range_of_Suc\<close>)
  then show ?case using Cons.prems(1) by (subst strcat_copy.simps) simp
qed

text \<open>No byte that is written is read later: source and destination may overlap downwards.\<close>

definition noclobber :: "u32 \<Rightarrow> u32 \<Rightarrow> nat \<Rightarrow> bool" where
  "noclobber dest src n \<longleftrightarrow> (\<forall>i<n. \<forall>j<i. dest + of_nat j \<noteq> src + of_nat i)"

lemma noclobber_mono: "noclobber d s n \<Longrightarrow> k \<le> n \<Longrightarrow> noclobber d s k"
  by (auto simp: noclobber_def)

lemma noclobber_step:
  assumes "noclobber d s (a + n)"
  shows "noclobber (d + of_nat a) (s + of_nat a) n"
  unfolding noclobber_def
proof (intro allI impI)
  fix i j :: nat
  assume "i < n" "j < i"
  with assms have "d + of_nat (a + j) \<noteq> s + of_nat (a + i)"
    unfolding noclobber_def by (meson add_less_cancel_left)
  then show "d + of_nat a + of_nat j \<noteq> s + of_nat a + of_nat i" by (simp add: add.assoc)
qed

lemma noclobber_disjoint: "range_of d n \<inter> range_of s n = {} \<Longrightarrow> noclobber d s n"
  unfolding noclobber_def by (metis disjoint_iff less_trans range_of_memI)

lemma noclobber_head: "noclobber d s (Suc n) \<Longrightarrow> d \<notin> range_of (s + 1) n"
proof
  assume nc: "noclobber d s (Suc n)" and "d \<in> range_of (s + 1) n"
  then obtain i where "i < n" "d = s + 1 + of_nat i" by (elim range_of_memE)
  moreover have "d + of_nat 0 \<noteq> s + of_nat (Suc i)"
    using nc \<open>i < n\<close> unfolding noclobber_def by blast
  ultimately show False by (simp add: add.assoc)
qed

lemma copy_fwd_eq:
  "noclobber d s k \<Longrightarrow> copy_fwd k m d s = store_bytes m d (load_bytes m s k)"
proof (induction k arbitrary: m d s)
  case (Suc k)
  have "noclobber (d + 1) (s + 1) k" using noclobber_step [of d s 1 k] Suc.prems by simp
  moreover have "load_bytes (m(d := m s)) (s + 1) k = load_bytes m (s + 1) k"
    by (rule load_bytes_cong) (use noclobber_head [OF Suc.prems] in auto)
  ultimately show ?case by (simp only: copy_fwd.simps load_bytes.simps store_bytes.simps Suc.IH)
qed simp

lemma copy_fwd_add:
  "copy_fwd (a + b) m d s = copy_fwd b (copy_fwd a m d s) (d + of_nat a) (s + of_nat a)"
  by (induction a arbitrary: m d s) (simp_all add: add.assoc)

lemma rep_movsl_eq:
  "noclobber d s (4 * nn) \<Longrightarrow>
   rep_movsl nn m d s = (copy_fwd (4 * nn) m d s, d + of_nat (4 * nn), s + of_nat (4 * nn))"
proof (induction nn arbitrary: m d s)
  case (Suc nn)
  have nc: "noclobber d s (4 + 4 * nn)" using Suc.prems by (simp add: add.commute)
  have first: "store_bytes m d (load_bytes m s 4) = copy_fwd 4 m d s"
    using copy_fwd_eq [OF noclobber_mono [OF nc, of 4]] by simp
  have "noclobber (d + 4) (s + 4) (4 * nn)" using noclobber_step [OF nc] by simp
  from Suc.IH [OF this, of "copy_fwd 4 m d s"] show ?case
    using copy_fwd_add [of 4 "4 * nn" m d s] by (simp add: first add.assoc add.commute)
qed simp

lemma u32_div_mod_4:
  fixes n :: u32
  shows "4 * unat (n div 4) + unat (n mod 4) = unat n"
proof -
  have "unat (n div 4) = unat n div 4" "unat (n mod 4) = unat n mod 4"
    by (simp_all add: unat_div unat_mod)
  then show ?thesis by simp
qed

lemma memcpy_eq:
  assumes "noclobber dest src (unat n)"
  shows "memcpy m dest src n =
    (store_bytes m dest (load_bytes m src (unat n)), dest + of_nat (4 * unat (n div 4)))"
proof -
  let ?q = "4 * unat (n div 4)" and ?r = "unat (n mod 4)"
  have len: "?q + ?r = unat n" by (rule u32_div_mod_4)
  have nc: "noclobber dest src ?q" by (rule noclobber_mono [OF assms]) (use len in simp)
  have "memcpy m dest src n =
      (copy_fwd ?r (copy_fwd ?q m dest src) (dest + of_nat ?q) (src + of_nat ?q), dest + of_nat ?q)"
    unfolding memcpy_def Let_def rep_movsl_eq [OF nc] by simp
  also have "\<dots> = (copy_fwd (unat n) m dest src, dest + of_nat ?q)"
    by (simp only: copy_fwd_add [symmetric] len)
  finally show ?thesis by (simp only: copy_fwd_eq [OF assms])
qed

section \<open>Filling\<close>

lemma fill_fwd_eq: "fill_fwd k m s v = store_bytes m s (replicate k v)"
  by (induction k arbitrary: m s) simp_all

lemma splat_byte:
  fixes v :: u8
  assumes "k \<in> {0, 8, 16, 24 :: nat}"
  shows "ucast (drop_bit k (push_bit 24 (ucast v :: u32) OR push_bit 16 (ucast v) OR
    push_bit 8 (ucast v) OR ucast v)) = v"
proof (rule bit_word_eqI)
  fix n :: nat
  assume "n < LENGTH(8)"
  then have n: "n < 8" by simp
  have out: "\<not> bit v j" if "8 \<le> j" for j
    using bit_imp_le_length [of v j] that by auto
  from n assms show "bit (ucast (drop_bit k (push_bit 24 (ucast v :: u32) OR
      push_bit 16 (ucast v) OR push_bit 8 (ucast v) OR ucast v)) :: u8) n = bit v n"
    unfolding bit_unsigned_iff bit_drop_bit_eq comp_def bit_or_iff bit_push_bit_iff
    by (elim insertE emptyE) (simp_all add: out)
qed

lemma bytes_of_splat:
  fixes v :: u8
  shows "bytes_of_u32 (push_bit 24 (ucast v) OR push_bit 16 (ucast v) OR push_bit 8 (ucast v) OR ucast v)
    = replicate 4 v"
proof -
  have "replicate 4 v = [v, v, v, v]" by (simp add: numeral_eq_Suc)
  then show ?thesis
    unfolding bytes_of_u32_def
    using splat_byte [of 0 v] splat_byte [of 8 v] splat_byte [of 16 v] splat_byte [of 24 v]
    by (simp only: drop_bit_0 id_apply insert_iff simp_thms)
qed

lemma rep_stosl_eq:
  "bytes_of_u32 eax = replicate 4 v \<Longrightarrow>
   rep_stosl nn m s eax = (store_bytes m s (replicate (4 * nn) v), s + of_nat (4 * nn))"
proof (induction nn arbitrary: m s)
  case (Suc nn)
  have "replicate (4 * Suc nn) v = replicate 4 v @ replicate (4 * nn) v"
    by (simp add: replicate_add [symmetric])
  with Suc show ?case by (simp add: store_bytes_append add.assoc del: replicate.simps)
qed simp

lemma memset_eq:
  "memset m start v num =
    (store_bytes m start (replicate (unat num) v), start + of_nat (4 * unat (num div 4)))"
proof -
  let ?q = "4 * unat (num div 4)" and ?r = "unat (num mod 4)"
  have "memset m start v num =
      (store_bytes (store_bytes m start (replicate ?q v)) (start + of_nat ?q) (replicate ?r v),
       start + of_nat ?q)"
    unfolding memset_def Let_def rep_stosl_eq [OF bytes_of_splat] by (simp add: fill_fwd_eq)
  also have "\<dots> = (store_bytes m start (replicate ?q v @ replicate ?r v), start + of_nat ?q)"
    by (simp add: store_bytes_append)
  finally show ?thesis by (simp only: replicate_add [symmetric] u32_div_mod_4)
qed

section \<open>Comparing\<close>

lemma memcmp_loop_eq_0: "memcmp_loop n m p q = 0 \<longleftrightarrow> load_bytes m p n = load_bytes m q n"
  by (induction n arbitrary: p q) (auto simp: word_uint_eq_iff)

lemma sint_u8_eq_0: "sint (x :: u8) = 0 \<longleftrightarrow> x = 0"
  by (metis sint_0 signed_word_eqI)

lemma strcmp_cstr:
  "cstr m p s \<Longrightarrow> cstr m q t \<Longrightarrow> \<exists>r. strcmp m p q = Some r \<and> (r = 0 \<longleftrightarrow> s = t)"
proof (induction s arbitrary: p q t)
  case Nil
  then show ?case
    by (subst strcmp.simps) (cases t, auto simp: sint_u8_eq_0)
next
  case (Cons a s)
  then show ?case
    by (subst strcmp.simps) (cases t, auto simp: sint_u8_eq_0 dest: signed_word_eqI)
qed

lemma tolower_0 [simp]: "tolower 0 = 0"
  by (simp add: tolower_def isupper_def)

lemma tolower_sint_eq_0: "tolower (sint (x :: u8)) = 0 \<longleftrightarrow> x = 0"
  by (auto simp: tolower_def isupper_def sint_u8_eq_0 split: if_splits)

lemma strcasecmp_cstr:
  "cstr m p s \<Longrightarrow> cstr m q t \<Longrightarrow>
   \<exists>r. strcasecmp m p q = Some r \<and>
     (r = 0 \<longleftrightarrow> map (\<lambda>c. tolower (sint c)) s = map (\<lambda>c. tolower (sint c)) t)"
proof (induction s arbitrary: p q t)
  case Nil
  then show ?case
    by (subst strcasecmp.simps) (cases t, auto simp: tolower_sint_eq_0 tolower_def isupper_def sint_u8_eq_0)
next
  case (Cons a s)
  then show ?case
    by (subst strcasecmp.simps) (cases t, auto simp: tolower_sint_eq_0)
qed

section \<open>Cutting a string at a delimiter\<close>

lemma copy_until_loop_cstr:
  assumes "cstr m (src + i) s"
    and "range_of (dest + i) (length s) \<inter> range_of (src + i) (Suc (length s)) = {}"
  shows "copy_until_loop until m src dest i =
    Some (store_bytes m (dest + i) (takeWhile (\<lambda>c. c \<noteq> until) s),
          i + of_nat (length (takeWhile (\<lambda>c. c \<noteq> until) s)))"
  using assms
proof (induction s arbitrary: m i)
  case Nil
  then show ?case by (subst copy_until_loop.simps) simp
next
  case (Cons c s)
  let ?m = "m(dest + i := c)"
  have "cstr m (src + i + 1) s \<longleftrightarrow> cstr ?m (src + i + 1) s"
    by (rule cstr_cong) (use Cons.prems(2) in \<open>auto simp: range_of_Suc\<close>)
  then have "cstr ?m (src + (i + 1)) s" using Cons.prems(1) by (simp add: add.assoc)
  moreover have "range_of (dest + (i + 1)) (length s) \<inter> range_of (src + (i + 1)) (Suc (length s)) = {}"
    using Cons.prems(2) by (auto simp: range_of_Suc add.assoc)
  ultimately have "copy_until_loop until ?m src dest (i + 1) =
    Some (store_bytes ?m (dest + (i + 1)) (takeWhile (\<lambda>c. c \<noteq> until) s),
          i + 1 + of_nat (length (takeWhile (\<lambda>c. c \<noteq> until) s)))"
    by (rule Cons.IH)
  then show ?case using Cons.prems(1) by (subst copy_until_loop.simps) (auto simp: add.assoc)
qed

section \<open>Properties\<close>

text \<open>
  The kernel's \<open>memcpy\<close> (word copies by \<open>rep movsl\<close>, then single bytes) copies exactly
  \<open>n\<close> bytes, and leaves every other byte alone, whenever no byte is overwritten before it is
  read (disjoint buffers, or a destination below the source). The returned pointer is not \<open>dest\<close>
  but \<open>dest\<close> advanced past the copied words.
\<close>

lemma memcpy_copies:
  assumes "noclobber dest src (unat n)"
  shows "case memcpy m dest src n of (m', r) \<Rightarrow>
    load_bytes m' dest (unat n) = load_bytes m src (unat n) \<and>
    (\<forall>a. a \<notin> range_of dest (unat n) \<longrightarrow> m' a = m a) \<and> r = dest + (n - n mod 4)"
proof -
  have "unat n \<le> 2 ^ 32" using unsigned_less [of n, where 'a = nat] by simp
  then have "load_bytes (store_bytes m dest (load_bytes m src (unat n))) dest (unat n) = load_bytes m src (unat n)"
    using load_store_bytes [of "load_bytes m src (unat n)" m dest] by simp
  moreover have "of_nat (4 * unat (n div 4)) = n - n mod 4"
    by (simp add: minus_mod_eq_mult_div)
  ultimately show ?thesis by (auto simp: memcpy_eq [OF assms] store_bytes_outside)
qed

text \<open>
  The kernel's \<open>memset\<close> (the value is replicated into a 32-bit word for \<open>rep stosl\<close>, then
  single bytes) sets exactly the \<open>num\<close> bytes from \<open>start\<close> on to \<open>value\<close>, for every length,
  and also returns the pointer advanced past the words.
\<close>

lemma memset_fills:
  "case memset m start v num of (m', r) \<Rightarrow>
    (\<forall>a. m' a = (if a \<in> range_of start (unat num) then v else m a)) \<and> r = start + (num - num mod 4)"
proof -
  let ?m = "store_bytes m start (replicate (unat num) v)"
  have len: "unat num \<le> 2 ^ 32" using unsigned_less [of num, where 'a = nat] by simp
  have "?m a = v" if "a \<in> range_of start (unat num)" for a
  proof -
    from that obtain i where "i < unat num" "a = start + of_nat i" by (rule range_of_memE)
    then show ?thesis using store_bytes_nth [of "replicate (unat num) v" i m start] len by simp
  qed
  moreover have "of_nat (4 * unat (num div 4)) = num - num mod 4"
    by (simp add: minus_mod_eq_mult_div)
  ultimately show ?thesis by (auto simp: memset_eq store_bytes_outside)
qed

text \<open>
  \<open>strcat\<close> appends: when the string at \<open>src\<close> does not overlap the room it is copied to,
  the call returns \<open>dest\<close>, the string at \<open>dest\<close> is the concatenation, and no byte
  outside the appended part and its terminator changes.
\<close>

lemma strcat_appends:
  assumes "cstr m dest s" "cstr m src t"
    and "range_of (dest + of_nat (length s)) (length t) \<inter> range_of src (Suc (length t)) = {}"
    and "length s + length t < 2 ^ 32"
  shows "\<exists>m'. strcat m dest src = Some (m', dest) \<and> cstr m' dest (s @ t) \<and>
    (\<forall>a. a \<notin> range_of (dest + of_nat (length s)) (Suc (length t)) \<longrightarrow> m' a = m a)"
proof -
  let ?d = "dest + of_nat (length s)"
  let ?m = "store_bytes m ?d (t @ [0])"
  have t: "0 \<notin> set t" using assms(2) by (rule cstr_nonzero)
  have s: "load_bytes m dest (length s) = s" "0 \<notin> set s" using assms(1) by (auto simp: cstr_iff_load)
  have "range_of dest (length s) \<inter> range_of ?d (Suc (length t)) = {}"
  proof (rule ccontr)
    assume "range_of dest (length s) \<inter> range_of ?d (Suc (length t)) \<noteq> {}"
    then obtain i j where "i < length s" "j < Suc (length t)" "dest + of_nat i = ?d + of_nat j"
      by (auto simp: range_of_def)
    then have "(of_nat i :: u32) = of_nat (length s + j)" by (simp add: add.assoc)
    then show False using \<open>i < length s\<close> \<open>j < Suc (length t)\<close> assms(4)
      by (subst (asm) of_nat_u32_eq_iff) simp_all
  qed
  then have "load_bytes ?m dest (length s) = load_bytes m dest (length s)"
    by (intro load_bytes_cong store_bytes_outside) auto
  moreover have "cstr ?m ?d t" by (rule cstr_store_bytes) (use t assms(4) in auto)
  ultimately have "cstr ?m dest (s @ t)" using s by (simp add: cstr_append)
  moreover have "strcat m dest src = Some (?m, dest)"
    using strcat_copy_cstr [OF assms(2,3)] by (simp add: strcat_def strcat_end_cstr [OF assms(1)])
  ultimately show ?thesis by (auto simp: store_bytes_outside)
qed

definition two_strings :: mem where
  "two_strings = (\<lambda>_. 0)(0x100 := 0x68, 0x200 := 0x69, 0x201 := 0x21)"

text \<open>
  \<open>strcmp\<close> and \<open>strcasecmp\<close> return on every two terminated strings, and return 0 exactly
  for equal strings, up to the case of the letters A to Z for \<open>strcasecmp\<close>.
\<close>

lemma strcmp_decides:
  assumes "cstr m p s" "cstr m q t"
  shows "\<exists>r r'. strcmp m p q = Some r \<and> strcasecmp m p q = Some r' \<and> (r = 0 \<longleftrightarrow> s = t) \<and>
    (r' = 0 \<longleftrightarrow> map (\<lambda>c. tolower (sint c)) s = map (\<lambda>c. tolower (sint c)) t)"
  using strcmp_cstr [OF assms] strcasecmp_cstr [OF assms] by blast

text \<open>
  The copy loop of \<open>strcpy\<close> tests the source only after the first byte is copied, and stops before
  the terminator: a non-empty string is copied without its NUL, and on an empty source the loop runs
  on into the bytes behind the terminator. The function always returns \<open>0\<close>.
\<close>

lemma strcpy_copies_without_nul:
  assumes "cstr m src (c # s)" "range_of dest (Suc (length s)) \<inter> range_of src (Suc (Suc (length s))) = {}"
  shows "strcpy m dest src = Some (store_bytes m dest (c # s), NULL)"
  by (simp add: strcpy_def strcpy_loop_cstr [OF assms])

lemma strcpy_empty_overruns:
  assumes "m src = 0" "m (src + 1) \<noteq> 0" "src \<noteq> dest" "src + 1 \<noteq> dest"
  shows "strcpy m dest src = map_option (\<lambda>m'. (m', NULL)) (strcpy_loop (m(dest := 0)) (dest + 1) (src + 1))"
  unfolding strcpy_def by (subst strcpy_loop.simps) (use assms in \<open>simp add: Let_def\<close>)

lemma takeWhile_less_length: "\<exists>x \<in> set xs. \<not> P x \<Longrightarrow> length (takeWhile P xs) < length xs"
  by (induction xs) auto

lemma copy_until_cuts:
  assumes "cstr m src s" "until \<noteq> 0"
    and "range_of dest (Suc (length s)) \<inter> range_of src (Suc (length s)) = {}"
  shows "\<exists>m'. copy_until until m src dest =
      Some (m', src + of_nat (if until \<in> set s then Suc (length (takeWhile (\<lambda>c. c \<noteq> until) s)) else length s)) \<and>
    m' = store_bytes m dest (takeWhile (\<lambda>c. c \<noteq> until) s @ [0])"
proof -
  let ?t = "takeWhile (\<lambda>c. c \<noteq> until) s" and ?n = "length (takeWhile (\<lambda>c. c \<noteq> until) s)"
  have le: "?n \<le> length s" by (rule length_takeWhile_le)
  have "range_of dest (length s) \<subseteq> range_of dest (Suc (length s))" by (rule range_of_mono) simp
  then have "copy_until_loop until m src dest 0 = Some (store_bytes m dest ?t, of_nat ?n)"
    using copy_until_loop_cstr [of m src 0 s dest until] assms by auto
  moreover let ?m = "store_bytes m dest (?t @ [0])"
  have "?m (src + of_nat ?n) = m (src + of_nat ?n)"
  proof (rule store_bytes_outside)
    have "src + of_nat ?n \<in> range_of src (Suc (length s))" using le by (intro range_of_memI) simp
    moreover have "range_of dest (length (?t @ [0])) \<subseteq> range_of dest (Suc (length s))"
      using le by (intro range_of_mono) simp
    ultimately show "src + of_nat ?n \<notin> range_of dest (length (?t @ [0]))" using assms(3) by blast
  qed
  moreover have "m (src + of_nat ?n) = 0 \<longleftrightarrow> until \<notin> set s"
  proof (cases "until \<in> set s")
    case True
    then have lt: "?n < length s" using takeWhile_less_length [of s "\<lambda>c. c \<noteq> until"] by blast
    with assms(1) have "m (src + of_nat ?n) = s ! ?n"
      by (auto simp: cstr_iff_load load_bytes_nth [symmetric])
    then show ?thesis using True lt nth_length_takeWhile [OF lt] assms(2) by auto
  next
    case False
    then have "?n = length s" by (metis (mono_tags, lifting) takeWhile_eq_all_conv)
    with assms(1) False show ?thesis by (simp only: cstr_iff_load simp_thms)
  qed
  moreover have "until \<notin> set s \<Longrightarrow> ?n = length s"
    by (metis (mono_tags, lifting) takeWhile_eq_all_conv)
  ultimately show ?thesis
    by (auto simp: copy_until_def Let_def store_bytes_append)
qed

end
