(* ===== verification/UString.thy ===== *)
theory UString
  imports KString
begin

text \<open>
  The C library's string routines, \<open>user/libc/string.c\<close>, on the byte memory. The library has its
  own copies of the routines the kernel has too; the ones with the same code are shown equal to the kernel's
  so that their lemmas carry over. \<open>memcpy\<close> and \<open>memcmp\<close> count an \<open>int\<close> down to 0, so a
  negative count wraps through all \<open>2 ^ 32\<close> values. \<open>strndup\<close> and \<open>strdup\<close> call the heap
  and are in the theory of the heap.
\<close>

section \<open>Definitions\<close>

partial_function (option) strcpy_loop :: "mem \<Rightarrow> u32 \<Rightarrow> u32 \<Rightarrow> mem option" where
  "strcpy_loop m dest src =
     (let m' = m(dest := m src); dest' = dest + 1; src' = src + 1
      in if m' src' \<noteq> 0 then strcpy_loop m' dest' src' else Some m')"

definition strcpy :: "mem \<Rightarrow> u32 \<Rightarrow> u32 \<Rightarrow> (mem \<times> u32) option" where
  "strcpy m dest src = map_option (\<lambda>m'. (m', NULL)) (strcpy_loop m dest src)"

partial_function (option) strlen_loop :: "mem \<Rightarrow> u32 \<Rightarrow> u32 \<Rightarrow> u32 option" where
  "strlen_loop m src i = (if m src \<noteq> 0 then strlen_loop m (src + 1) (i + 1) else Some i)"

definition strlen :: "mem \<Rightarrow> u32 \<Rightarrow> u32 option" where
  "strlen m src = strlen_loop m src 0"

primrec strnlen_loop :: "mem \<Rightarrow> u32 \<Rightarrow> nat \<Rightarrow> nat \<Rightarrow> nat" where
  "strnlen_loop m s i 0 = i"
| "strnlen_loop m s i (Suc n) = (if m (s + of_nat i) = 0 then i else strnlen_loop m s (Suc i) n)"

definition strnlen :: "mem \<Rightarrow> u32 \<Rightarrow> u32 \<Rightarrow> u32" where
  "strnlen m s maxlen = of_nat (strnlen_loop m s 0 (nat (sint maxlen)))"

partial_function (option) strchr_loop :: "mem \<Rightarrow> u32 \<Rightarrow> u8 \<Rightarrow> u32 option" where
  "strchr_loop m str c =
     (if m str \<noteq> 0 then (if m str = c then Some str else strchr_loop m (str + 1) c) else Some NULL)"

text \<open>Unlike the kernel's, this \<open>strchr\<close> does not test for a null string.\<close>

definition strchr :: "mem \<Rightarrow> u32 \<Rightarrow> u32 \<Rightarrow> u32 option" where
  "strchr m str chr = strchr_loop m str (ucast chr)"

partial_function (option) strcat_end :: "mem \<Rightarrow> u32 \<Rightarrow> u32 option" where
  "strcat_end m d = (if m d \<noteq> 0 then strcat_end m (d + 1) else Some d)"

partial_function (option) strcat_copy :: "mem \<Rightarrow> u32 \<Rightarrow> u32 \<Rightarrow> mem option" where
  "strcat_copy m d src =
     (if m src \<noteq> 0 then strcat_copy (m(d := m src)) (d + 1) (src + 1) else Some (m(d := 0)))"

definition strcat :: "mem \<Rightarrow> u32 \<Rightarrow> u32 \<Rightarrow> (mem \<times> u32) option" where
  "strcat m dest src =
     Option.bind (strcat_end m dest) (\<lambda>d. map_option (\<lambda>m'. (m', dest)) (strcat_copy m d src))"

primrec copy_up :: "nat \<Rightarrow> mem \<Rightarrow> u32 \<Rightarrow> u32 \<Rightarrow> mem" where
  "copy_up 0 m d s = m"
| "copy_up (Suc n) m d s = copy_up n (m(d := m s)) (d + 1) (s + 1)"

primrec copy_down :: "nat \<Rightarrow> mem \<Rightarrow> u32 \<Rightarrow> u32 \<Rightarrow> mem" where
  "copy_down 0 m d s = m"
| "copy_down (Suc n) m d s = copy_down n (m(d - 1 := m (s - 1))) (d - 1) (s - 1)"

definition memcpy :: "mem \<Rightarrow> u32 \<Rightarrow> u32 \<Rightarrow> u32 \<Rightarrow> mem \<times> u32" where
  "memcpy m dest src n = (copy_up (unat n) m dest src, dest)"

primrec fill_up :: "nat \<Rightarrow> mem \<Rightarrow> u32 \<Rightarrow> u8 \<Rightarrow> mem" where
  "fill_up 0 m s v = m"
| "fill_up (Suc n) m s v = fill_up n (m(s := v)) (s + 1) v"

definition memset :: "mem \<Rightarrow> u32 \<Rightarrow> u8 \<Rightarrow> u32 \<Rightarrow> mem \<times> u32" where
  "memset m start value num = (fill_up (unat num) m start value, start)"

primrec memcmp_loop :: "nat \<Rightarrow> mem \<Rightarrow> u32 \<Rightarrow> u32 \<Rightarrow> int" where
  "memcmp_loop 0 m s1 s2 = 0"
| "memcmp_loop (Suc n) m s1 s2 =
     (if m s1 \<noteq> m s2 then uint (m s1) - uint (m s2) else memcmp_loop n m (s1 + 1) (s2 + 1))"

definition memcmp :: "mem \<Rightarrow> u32 \<Rightarrow> u32 \<Rightarrow> u32 \<Rightarrow> int" where
  "memcmp m s1 s2 n = memcmp_loop (unat n) m s1 s2"

definition memmove :: "mem \<Rightarrow> u32 \<Rightarrow> u32 \<Rightarrow> u32 \<Rightarrow> mem \<times> u32" where
  "memmove m dest src len =
     (if dest < src then (copy_up (unat len) m dest src, dest)
      else (copy_down (unat len) m (dest + len) (src + len), dest))"

partial_function (option) strcmp :: "mem \<Rightarrow> u32 \<Rightarrow> u32 \<Rightarrow> int option" where
  "strcmp m str1 str2 =
     (if m str1 \<noteq> 0 \<and> m str2 \<noteq> 0 then
        (if m str1 \<noteq> m str2 then Some (sint (m str1) - sint (m str2))
         else strcmp m (str1 + 1) (str2 + 1))
      else Some (sint (m str1) - sint (m str2)))"

partial_function (option) is_delim :: "mem \<Rightarrow> u8 \<Rightarrow> u32 \<Rightarrow> bool option" where
  "is_delim m c delim =
     (if m delim \<noteq> 0 then (if c = m delim then Some True else is_delim m c (delim + 1)) else Some False)"

text \<open>The two loops of \<open>strtok\<close>; the first yields \<open>None\<close> inside when only delimiters are left.\<close>

partial_function (option) strtok_skip :: "mem \<Rightarrow> u32 \<Rightarrow> u32 \<Rightarrow> u32 option option" where
  "strtok_skip m src delim =
     Option.bind (is_delim m (m src) delim) (\<lambda>b.
       if b then strtok_skip m (src + 1) delim
       else if m src = 0 then Some None else Some (Some src))"

partial_function (option) strtok_word :: "mem \<Rightarrow> u32 \<Rightarrow> u32 \<Rightarrow> (mem \<times> u32) option" where
  "strtok_word m src delim =
     (if m src = 0 then Some (m, src)
      else Option.bind (is_delim m (m src) delim) (\<lambda>b.
        if b then Some (m(src := 0), src + 1) else strtok_word m (src + 1) delim))"

text \<open>The static variable \<open>backup_string\<close> is an argument and part of the result.\<close>

definition strtok :: "mem \<Rightarrow> u32 \<Rightarrow> u32 \<Rightarrow> u32 \<Rightarrow> (mem \<times> u32 \<times> u32) option" where
  "strtok m backup_string src delim =
     (let src = (if src = NULL then backup_string else src)
      in if src = NULL then Some (m, backup_string, NULL)
         else Option.bind (strtok_skip m src delim) (\<lambda>r. case r of
             None \<Rightarrow> Some (m, backup_string, NULL)
           | Some ret \<Rightarrow> map_option (\<lambda>(m', b). (m', b, ret)) (strtok_word m ret delim)))"

text \<open>\<open>n\<close> is an \<open>int\<close> that is only tested against 0 and decremented.\<close>

partial_function (option) strncmp :: "mem \<Rightarrow> u32 \<Rightarrow> u32 \<Rightarrow> u32 \<Rightarrow> int option" where
  "strncmp m str1 str2 n =
     (if n \<noteq> 0 \<and> m str1 \<noteq> 0 \<and> m str1 = m str2 then strncmp m (str1 + 1) (str2 + 1) (n - 1)
      else if n = 0 then Some 0 else Some (sint (m str1) - sint (m str2)))"

partial_function (option) strstr_match :: "mem \<Rightarrow> u32 \<Rightarrow> u32 \<Rightarrow> u32 option" where
  "strstr_match m h n = (if m n \<noteq> 0 \<and> m h = m n then strstr_match m (h + 1) (n + 1) else Some n)"

partial_function (option) strstr_loop :: "mem \<Rightarrow> u32 \<Rightarrow> u32 \<Rightarrow> u32 option" where
  "strstr_loop m haystack needle =
     (if m haystack \<noteq> 0 then
        Option.bind (strstr_match m haystack needle) (\<lambda>n.
          if m n = 0 then Some haystack else strstr_loop m (haystack + 1) needle)
      else Some NULL)"

definition strstr :: "mem \<Rightarrow> u32 \<Rightarrow> u32 \<Rightarrow> u32 option" where
  "strstr m haystack needle = (if m needle = 0 then Some haystack else strstr_loop m haystack needle)"

section \<open>The routines shared with the kernel\<close>

lemma u_copy_up: "copy_up n m d s = copy_fwd n m d s"
  by (induction n arbitrary: m d s) simp_all

lemma u_fill_up: "fill_up n m s v = store_bytes m s (replicate n v)"
  by (induction n arbitrary: m s) simp_all

lemma u_memcmp: "memcmp = KString.memcmp"
proof -
  have "memcmp_loop n m p q = KString.memcmp_loop n m p q" for n m p q
    by (induction n arbitrary: p q) simp_all
  then show ?thesis by (intro ext) (simp add: memcmp_def KString.memcmp_def)
qed

lemma u_strlen_cstr: "cstr m p s \<Longrightarrow> strlen m p = Some (of_nat (length s))"
proof -
  have "cstr m p s \<Longrightarrow> strlen_loop m p i = Some (i + of_nat (length s))" for i
  proof (induction s arbitrary: p i)
    case Nil
    then show ?case by (subst strlen_loop.simps) simp
  next
    case (Cons c s)
    then show ?case by (subst strlen_loop.simps) (simp add: add.assoc)
  qed
  then show "cstr m p s \<Longrightarrow> strlen m p = Some (of_nat (length s))" by (simp add: strlen_def)
qed

section \<open>Moving memory\<close>

lemma u_memcpy_eq:
  "noclobber dest src (unat n) \<Longrightarrow> memcpy m dest src n = (store_bytes m dest (load_bytes m src (unat n)), dest)"
  by (simp add: memcpy_def u_copy_up copy_fwd_eq)

lemma store_bytes_snoc_upd:
  "store_bytes m p (bs @ [b]) = (store_bytes m p bs)(p + of_nat (length bs) := b)"
  by (simp add: store_bytes_append)

lemma store_bytes_upd_outside:
  "a \<notin> range_of p (length bs) \<Longrightarrow> store_bytes (m(a := v)) p bs = (store_bytes m p bs)(a := v)"
proof (induction bs arbitrary: m p)
  case (Cons b bs)
  then have "a \<noteq> p" "a \<notin> range_of (p + 1) (length bs)" by (auto simp: range_of_Suc)
  then have "store_bytes (m(a := v)) p (b # bs) = store_bytes ((m(p := b))(a := v)) (p + 1) bs"
    by (simp only: store_bytes.simps fun_upd_twist)
  also have "\<dots> = (store_bytes (m(p := b)) (p + 1) bs)(a := v)"
    by (rule Cons.IH) fact
  finally show ?case by (simp only: store_bytes.simps)
qed simp

lemma copy_down_eq:
  assumes "\<And>i j. i < n \<Longrightarrow> j < n \<Longrightarrow> i < j \<Longrightarrow> d + of_nat j \<noteq> s + of_nat i" "n \<le> 2 ^ 32"
  shows "copy_down n m (d + of_nat n) (s + of_nat n) = store_bytes m d (load_bytes m s n)"
  using assms
proof (induction n arbitrary: m)
  case (Suc n)
  let ?m = "m(d + of_nat n := m (s + of_nat n))"
  have "copy_down (Suc n) m (d + of_nat (Suc n)) (s + of_nat (Suc n)) = copy_down n ?m (d + of_nat n) (s + of_nat n)"
    by (simp add: algebra_simps)
  also have "\<dots> = store_bytes ?m d (load_bytes ?m s n)" by (rule Suc.IH) (use Suc.prems in auto)
  also have "load_bytes ?m s n = load_bytes m s n"
  proof (rule load_bytes_cong)
    fix a assume "a \<in> range_of s n"
    then obtain i where "i < n" "a = s + of_nat i" by (rule range_of_memE)
    then show "?m a = m a" using Suc.prems(1) [of i n] by auto
  qed
  also have "store_bytes ?m d (load_bytes m s n) = (store_bytes m d (load_bytes m s n))(d + of_nat n := m (s + of_nat n))"
  proof (rule store_bytes_upd_outside)
    show "d + of_nat n \<notin> range_of d (length (load_bytes m s n))"
    proof
      assume "d + of_nat n \<in> range_of d (length (load_bytes m s n))"
      then obtain i where "i < n" "(of_nat n :: u32) = of_nat i" by (auto elim: range_of_memE)
      then show False using Suc.prems(2) by (subst (asm) of_nat_u32_eq_iff) auto
    qed
  qed
  also have "\<dots> = store_bytes m d (load_bytes m s n @ [m (s + of_nat n)])"
    by (simp add: store_bytes_append)
  also have "load_bytes m s n @ [m (s + of_nat n)] = load_bytes m s (Suc n)"
    using load_bytes_add [of m s n 1] by simp
  finally show ?case .
qed simp

lemma same_range_order:
  fixes d s :: u32
  assumes "unat d + n \<le> 2 ^ 32" "unat s + n \<le> 2 ^ 32" "i < n" "j < n" "d + of_nat i = s + of_nat j"
  shows "unat d + i = unat s + j"
proof -
  have e: "unat (x + of_nat a) = unat x + a" if "unat x + n \<le> 2 ^ 32" "a < n" for x :: u32 and a
    using that by (simp add: unat_word_ariths unat_of_nat take_bit_nat_eq_self)
  show ?thesis using e [OF assms(1,3)] e [OF assms(2,4)] by (simp only: assms(5))
qed

lemma memmove_eq:
  assumes "unat dest + unat len \<le> 2 ^ 32" "unat src + unat len \<le> 2 ^ 32"
  shows "memmove m dest src len = (store_bytes m dest (load_bytes m src (unat len)), dest)"
proof (cases "dest < src")
  case True
  then have lt: "unat dest < unat src" by (simp add: word_less_nat_alt)
  have "noclobber dest src (unat len)"
    unfolding noclobber_def
  proof (intro allI impI notI)
    fix i j assume "i < unat len" "j < i" "dest + of_nat j = src + of_nat i"
    then show False using same_range_order [OF assms, of j i] lt by simp
  qed
  then show ?thesis using True by (simp add: memmove_def u_copy_up copy_fwd_eq)
next
  case False
  then have le: "unat src \<le> unat dest" by (simp add: word_less_nat_alt)
  have "copy_down (unat len) m (dest + of_nat (unat len)) (src + of_nat (unat len)) =
      store_bytes m dest (load_bytes m src (unat len))"
  proof (rule copy_down_eq)
    show "dest + of_nat j \<noteq> src + of_nat i" if "i < unat len" "j < unat len" "i < j" for i j
      using same_range_order [OF assms that(2,1)] le that(3) by fastforce
    show "unat len \<le> 2 ^ 32" using unsigned_less [of len, where 'a = nat] by simp
  qed
  then show ?thesis using False by (simp add: memmove_def)
qed

section \<open>Tokens\<close>

lemma is_delim_cstr: "cstr m q ds \<Longrightarrow> is_delim m c q = Some (c \<in> set ds)"
proof (induction ds arbitrary: q)
  case Nil
  then show ?case by (subst is_delim.simps) simp
next
  case (Cons d ds)
  then show ?case by (subst is_delim.simps) auto
qed

lemma strtok_skip_cstr:
  "cstr m p s \<Longrightarrow> cstr m q ds \<Longrightarrow> strtok_skip m p q =
     Some (if list_all (\<lambda>c. c \<in> set ds) s then None
           else Some (p + of_nat (length (takeWhile (\<lambda>c. c \<in> set ds) s))))"
proof (induction s arbitrary: p)
  case Nil
  then show ?case by (subst strtok_skip.simps) (auto simp: is_delim_cstr dest: cstr_nonzero)
next
  case (Cons c s)
  then show ?case by (subst strtok_skip.simps) (auto simp: is_delim_cstr add.assoc)
qed

lemma strtok_word_cstr:
  "cstr m p s \<Longrightarrow> cstr m q ds \<Longrightarrow> strtok_word m p q =
     (let w = takeWhile (\<lambda>c. c \<notin> set ds) s
      in Some (if length w = length s then (m, p + of_nat (length s))
               else (m(p + of_nat (length w) := 0), p + of_nat (length w) + 1)))"
proof (induction s arbitrary: p)
  case Nil
  then show ?case by (subst strtok_word.simps) simp
next
  case (Cons c s)
  then show ?case
    by (subst strtok_word.simps) (auto simp: is_delim_cstr add.assoc Let_def)
qed

section \<open>Searching\<close>

lemma strstr_match_cstr:
  "cstr m h hs \<Longrightarrow> cstr m n ns \<Longrightarrow>
   \<exists>n'. strstr_match m h n = Some n' \<and> (m n' = 0 \<longleftrightarrow> take (length ns) hs = ns)"
proof (induction ns arbitrary: h n hs)
  case Nil
  then show ?case by (subst strstr_match.simps) auto
next
  case (Cons c ns)
  show ?case
  proof (cases hs)
    case Nil
    with Cons.prems show ?thesis by (subst strstr_match.simps) auto
  next
    case (Cons a hs')
    show ?thesis
    proof (cases "a = c")
      case True
      then have "\<exists>n'. strstr_match m (h + 1) (n + 1) = Some n' \<and> (m n' = 0 \<longleftrightarrow> take (length ns) hs' = ns)"
        using Cons Cons.prems by (intro Cons.IH) auto
      then show ?thesis using True Cons Cons.prems by (subst strstr_match.simps) auto
    next
      case False
      then show ?thesis using Cons Cons.prems by (subst strstr_match.simps) auto
    qed
  qed
qed

text \<open>The first position at which \<open>ns\<close> occurs in \<open>hs\<close>.\<close>

fun find_sub :: "u8 list \<Rightarrow> u8 list \<Rightarrow> nat option" where
  "find_sub ns [] = (if ns = [] then Some 0 else None)"
| "find_sub ns (c # hs) = (if take (length ns) (c # hs) = ns then Some 0 else map_option Suc (find_sub ns hs))"

lemma strstr_loop_cstr:
  "cstr m h hs \<Longrightarrow> cstr m n ns \<Longrightarrow> ns \<noteq> [] \<Longrightarrow> strstr_loop m h n =
     Some (case find_sub ns hs of None \<Rightarrow> NULL | Some i \<Rightarrow> h + of_nat i)"
proof (induction hs arbitrary: h)
  case Nil
  then show ?case by (subst strstr_loop.simps) simp
next
  case (Cons c hs)
  obtain n' where n': "strstr_match m h n = Some n'" "m n' = 0 \<longleftrightarrow> take (length ns) (c # hs) = ns"
    using strstr_match_cstr [OF Cons.prems(1,2)] by blast
  have "strstr_loop m (h + 1) n = Some (case find_sub ns hs of None \<Rightarrow> NULL | Some i \<Rightarrow> h + 1 + of_nat i)"
    by (rule Cons.IH) (use Cons.prems in auto)
  then show ?case using n' Cons.prems(1)
    by (subst strstr_loop.simps) (auto simp: add.assoc split: option.splits)
qed

lemma find_sub_Some: "find_sub ns hs = Some i \<longleftrightarrow>
    take (length ns) (drop i hs) = ns \<and> i \<le> length hs \<and> (\<forall>j<i. take (length ns) (drop j hs) \<noteq> ns)"
proof (induction hs arbitrary: i)
  case (Cons c hs)
  show ?case
  proof (cases i)
    case (Suc k)
    have "(\<forall>j<Suc k. take (length ns) (drop j (c # hs)) \<noteq> ns) \<longleftrightarrow>
      take (length ns) (c # hs) \<noteq> ns \<and> (\<forall>j<k. take (length ns) (drop j hs) \<noteq> ns)"
      by (auto simp: less_Suc_eq_0_disj)
    then show ?thesis using Suc Cons.IH [of k] by auto
  qed auto
qed auto

section \<open>Properties\<close>

text \<open>
  \<open>memmove\<close> moves \<open>len\<close> bytes correctly for every overlap of the two buffers, changes no other
  byte and returns \<open>dest\<close>, as long as neither buffer wraps around the end of the address space.
\<close>

lemma memmove_moves:
  assumes "unat dest + unat len \<le> 2 ^ 32" "unat src + unat len \<le> 2 ^ 32"
  shows "case memmove m dest src len of (m', r) \<Rightarrow> r = dest \<and>
    load_bytes m' dest (unat len) = load_bytes m src (unat len) \<and>
    (\<forall>a. a \<notin> range_of dest (unat len) \<longrightarrow> m' a = m a)"
proof -
  have "unat len \<le> 2 ^ 32" using assms(1) by simp
  then show ?thesis
    using load_store_bytes [of "load_bytes m src (unat len)" m dest]
    by (auto simp: memmove_eq [OF assms] store_bytes_outside)
qed

lemma cstr_drop: "cstr m p s \<Longrightarrow> k \<le> length s \<Longrightarrow> cstr m (p + of_nat k) (drop k s)"
  using cstr_append [of m p "take k s" "drop k s"] by simp

lemma range_of_shift_notin:
  assumes "j < i" "i < 2 ^ 32"
  shows "(p :: u32) + of_nat i \<noteq> p + of_nat j"
  using of_nat_u32_eq_iff [of i j] assms by auto

text \<open>
  One call of \<open>strtok\<close> on a string that does not overlap the delimiters returns. If only
  delimiters are left it returns \<open>NULL\<close>. Otherwise it returns the address of the first
  character that is no delimiter, where afterwards the string up to the next delimiter stands,
  saves the address of what follows it, and changes at most the byte of that delimiter.
\<close>

lemma strtok_next_token:
  assumes str: "cstr m p s" and delim: "cstr m q ds" and p0: "p \<noteq> NULL" and len: "length s < 2 ^ 32"
  defines "k \<equiv> length (takeWhile (\<lambda>c. c \<in> set ds) s)"
  defines "w \<equiv> takeWhile (\<lambda>c. c \<notin> set ds) (drop k s)"
  shows "if list_all (\<lambda>c. c \<in> set ds) s then strtok m b p q = Some (m, b, NULL)
    else \<exists>m' b'. strtok m b p q = Some (m', b', p + of_nat k) \<and> cstr m' (p + of_nat k) w \<and>
      cstr m' b' (drop (Suc (k + length w)) s) \<and> (\<forall>a. a \<noteq> p + of_nat (k + length w) \<longrightarrow> m' a = m a)"
proof (cases "list_all (\<lambda>c. c \<in> set ds) s")
  case True
  then show ?thesis using p0 by (simp add: strtok_def strtok_skip_cstr [OF str delim])
next
  case False
  have k: "k \<le> length s" unfolding k_def by (rule length_takeWhile_le)
  have w: "length w \<le> length s - k" unfolding w_def using length_takeWhile_le [of _ "drop k s"] by simp
  let ?r = "p + of_nat k"
  have dr: "cstr m ?r (drop k s)" by (rule cstr_drop [OF str k])
  have tok: "strtok m b p q = map_option (\<lambda>(m', b). (m', b, ?r)) (strtok_word m ?r q)"
    using False p0 by (simp add: strtok_def strtok_skip_cstr [OF str delim] k_def)
  show ?thesis
  proof (cases "length w = length (drop k s)")
    case True
    then have "w = drop k s" unfolding w_def by (metis takeWhile_eq_take take_all_iff order_refl)
    moreover have "strtok_word m ?r q = Some (m, ?r + of_nat (length (drop k s)))"
      using strtok_word_cstr [OF dr delim] True by (simp add: w_def Let_def)
    moreover have "cstr m (?r + of_nat (length (drop k s))) []"
      using dr by (simp add: cstr_iff_load)
    ultimately show ?thesis using False tok dr k True by (auto simp: add.assoc)
  next
    case ne: False
    with w have lt: "k + length w < length s" by simp
    let ?z = "?r + of_nat (length w)" let ?m = "m(?z := 0)"
    have "strtok_word m ?r q = Some (?m, ?z + 1)"
      using strtok_word_cstr [OF dr delim] ne by (simp add: w_def Let_def)
    moreover have "cstr ?m ?r w"
    proof -
      have "drop k s = w @ drop (length w) (drop k s)" by (metis append_take_drop_id takeWhile_eq_take w_def)
      then have "cstr m ?r (w @ drop (length w) (drop k s))" using dr by simp
      then have wm: "load_bytes m ?r (length w) = w" "0 \<notin> set w" unfolding cstr_append by blast+
      have "?z \<notin> range_of ?r (length w)"
        using range_of_shift_notin [of _ "length w" ?r] lt len by (auto elim!: range_of_memE)
      then have "load_bytes ?m ?r (length w) = load_bytes m ?r (length w)"
        by (intro load_bytes_cong) auto
      then show ?thesis using wm by (simp add: cstr_iff_load)
    qed
    moreover have "cstr ?m (?z + 1) (drop (Suc (k + length w)) s)"
    proof -
      let ?n = "Suc (k + length w)"
      have z: "?z = p + of_nat (k + length w)" "?z + 1 = p + of_nat ?n" by (simp_all add: add.assoc add.commute)
      have "cstr m (?z + 1) (drop ?n s)" unfolding z(2) by (rule cstr_drop [OF str]) (use lt in simp)
      moreover have "?z \<notin> range_of (?z + 1) (Suc (length (drop ?n s)))"
        by (rule range_of_head_notin_tail) (use lt len in simp)
      ultimately show ?thesis
        using cstr_cong [of "?z + 1" "drop ?n s" m ?m] by (metis fun_upd_other)
    qed
    ultimately show ?thesis using False tok by (auto simp: add.assoc)
  qed
qed

text \<open>
  \<open>strstr\<close> returns on terminated strings: the address of the first occurrence of the needle, or
  \<open>NULL\<close> exactly when there is none.
\<close>

lemma strstr_first_occurrence:
  assumes "cstr m h hs" "cstr m n ns"
  shows "\<exists>r. strstr m h n = Some r \<and>
    (case find_sub ns hs of None \<Rightarrow> r = NULL \<and> (\<forall>i \<le> length hs. take (length ns) (drop i hs) \<noteq> ns)
     | Some i \<Rightarrow> r = h + of_nat i \<and> take (length ns) (drop i hs) = ns \<and>
         (\<forall>j<i. take (length ns) (drop j hs) \<noteq> ns))"
proof (cases "ns = []")
  case True
  then have "find_sub ns hs = Some 0" by (cases hs) auto
  then show ?thesis using True assms by (simp add: strstr_def)
next
  case False
  then have "m n \<noteq> 0" using assms(2) by (cases ns) auto
  moreover have "find_sub ns hs = None \<Longrightarrow> i \<le> length hs \<Longrightarrow> take (length ns) (drop i hs) \<noteq> ns" for i
  proof
    assume none: "find_sub ns hs = None" and i: "i \<le> length hs" "take (length ns) (drop i hs) = ns"
    let ?P = "\<lambda>i. i \<le> length hs \<and> take (length ns) (drop i hs) = ns"
    have "?P (LEAST i. ?P i)" by (rule LeastI [of ?P i]) (use i in simp)
    moreover have "\<forall>j < (LEAST i. ?P i). take (length ns) (drop j hs) \<noteq> ns"
      using not_less_Least [of _ ?P] calculation by fastforce
    ultimately have "find_sub ns hs = Some (LEAST i. ?P i)" by (simp add: find_sub_Some)
    with none show False by simp
  qed
  ultimately show ?thesis
    using strstr_loop_cstr [OF assms False] find_sub_Some [of ns hs]
    by (cases "find_sub ns hs") (auto simp: strstr_def)
qed

end
