(* ===== verification/Heap.thy ===== *)
theory Heap
  imports UString
begin

text \<open>
  The C library's heap, \<open>user/libc/stdlib/heap.c\<close>. Segment headers are objects of a typed store:
  a map from addresses to headers. Headers that were merged away stay in the map, as they stay in memory in C.
  Reading an address that never held a header faults. The system call \<open>mmap\<close> only backs an
  address with memory and does not change this state. User data is in the byte memory.
  Loops and the recursion of \<open>malloc\<close> follow pointers and are
  \<^theory_text>\<open>partial_function (option)\<close>; that they return is part of the properties.
\<close>

section \<open>Definitions\<close>

record hdr =
  h_length :: u32
  h_next :: u32
  h_last :: u32
  h_free :: bool

record heap =
  hdrs :: "u32 \<Rightarrow> hdr option"
  heap_start :: u32
  heap_end :: u32
  last_hdr :: u32
  heap_mem :: mem

text \<open>\<open>sizeof(heap_segment_header_t)\<close>.\<close>

abbreviation HDR :: u32 where
  "HDR \<equiv> 0x10"

definition rd :: "heap \<Rightarrow> u32 \<Rightarrow> hdr res" where
  "rd h a = (if a = NULL then Inl NullDeref
             else case hdrs h a of None \<Rightarrow> Inl Uninitialised | Some x \<Rightarrow> Inr x)"

definition wr :: "heap \<Rightarrow> u32 \<Rightarrow> hdr \<Rightarrow> heap" where
  "wr h a x = h\<lparr>hdrs := (hdrs h)(a \<mapsto> x)\<rparr>"

definition hsh_combine_forward :: "u32 \<Rightarrow> heap \<Rightarrow> heap res" where
  "hsh_combine_forward this h =
     rbind (rd h this) (\<lambda>t.
     if h_next t = NULL then Inr h
     else rbind (rd h (h_next t)) (\<lambda>n.
       if \<not> h_free n then Inr h
       else let h1 = (if h_next t = last_hdr h then h\<lparr>last_hdr := this\<rparr> else h) in
         rbind (if h_next n \<noteq> NULL
                then rbind (rd h1 (h_next n)) (\<lambda>nn. Inr (wr h1 (h_next n) (nn\<lparr>h_last := this\<rparr>)))
                else Inr h1) (\<lambda>h2.
         rbind (rd h2 this) (\<lambda>t2.
         rbind (rd h2 (h_next t2)) (\<lambda>n2.
         Inr (wr h2 this (t2\<lparr>h_length := h_length t2 + h_length n2 + HDR, h_next := h_next n2\<rparr>)))))))"

definition hsh_combine_backward :: "u32 \<Rightarrow> heap \<Rightarrow> heap res" where
  "hsh_combine_backward this h =
     rbind (rd h this) (\<lambda>t.
     if h_last t \<noteq> NULL then
       rbind (rd h (h_last t)) (\<lambda>l. if h_free l then hsh_combine_forward (h_last t) h else Inr h)
     else Inr h)"

text \<open>
  The 32-bit difference is stored into an \<open>int64_t\<close>: it is never negative, and a wrapped-around
  difference is a large length.
\<close>

definition hsh_split :: "u32 \<Rightarrow> u32 \<Rightarrow> heap \<Rightarrow> (u32 \<times> heap) res" where
  "hsh_split this split_length h =
     (if split_length < 0x10 then Inr (NULL, h)
      else rbind (rd h this) (\<lambda>t.
        let split_seg_length = h_length t - (split_length + HDR) in
        if split_seg_length < 0x10 then Inr (NULL, h)
        else let new = this + split_length + HDR in
          rbind (if h_next t \<noteq> NULL
                 then rbind (rd h (h_next t)) (\<lambda>n. Inr (wr h (h_next t) (n\<lparr>h_last := new\<rparr>)))
                 else Inr h) (\<lambda>h1.
          rbind (rd h1 this) (\<lambda>t1.
          let h2 = wr h1 new \<lparr>h_length = split_seg_length, h_next = h_next t1, h_last = this, h_free = h_free t1\<rparr>;
              h3 = wr h2 this (t1\<lparr>h_next := new, h_length := split_length\<rparr>);
              h4 = (if last_hdr h3 = this then h3\<lparr>last_hdr := new\<rparr> else h3)
          in Inr (new, h4)))))"

definition initialize_heap :: "u32 \<Rightarrow> u32 \<Rightarrow> heap \<Rightarrow> heap" where
  "initialize_heap heap_address page_count h =
     (let heap_length = page_count * 0x1000 in
      wr (h\<lparr>heap_start := heap_address, heap_end := heap_address + heap_length, last_hdr := heap_address\<rparr>)
        heap_address \<lparr>h_length = heap_length - HDR, h_next = NULL, h_last = NULL, h_free = True\<rparr>)"

definition expand_heap :: "u32 \<Rightarrow> heap \<Rightarrow> heap res" where
  "expand_heap len h =
     (let len = (if len mod 0x1000 \<noteq> 0 then len - len mod 0x1000 + 0x1000 else len);
          page_count = len div 0x1000;
          new = heap_end h;
          h1 = h\<lparr>heap_end := heap_end h + page_count * 0x1000\<rparr>;
          h2 = wr h1 new \<lparr>h_length = len - HDR, h_next = NULL, h_last = last_hdr h1, h_free = True\<rparr>
      in rbind (rd h2 (last_hdr h2)) (\<lambda>l.
         hsh_combine_backward new ((wr h2 (last_hdr h2) (l\<lparr>h_next := new\<rparr>))\<lparr>last_hdr := new\<rparr>)))"

text \<open>The loop of \<open>malloc\<close>: \<open>None\<close> inside when the last segment has been passed.\<close>

partial_function (option) malloc_scan :: "u32 \<Rightarrow> u32 \<Rightarrow> heap \<Rightarrow> (u32 \<times> heap) option res option" where
  "malloc_scan sz cur h =
     (case rd h cur of
        Inl e \<Rightarrow> Some (Inl e)
      | Inr c \<Rightarrow>
          if h_free c \<and> h_length c > sz then
            Some (rbind (hsh_split cur sz h) (\<lambda>(_, h1).
                  rbind (rd h1 cur) (\<lambda>c1. Inr (Some (cur + HDR, wr h1 cur (c1\<lparr>h_free := False\<rparr>))))))
          else if h_free c \<and> h_length c = sz then
            Some (Inr (Some (cur + HDR, wr h cur (c\<lparr>h_free := False\<rparr>))))
          else if h_next c = NULL then Some (Inr None)
          else malloc_scan sz (h_next c) h)"

definition round_size :: "u32 \<Rightarrow> u32" where
  "round_size sz = (if sz mod 0x10 > 0 then sz - sz mod 0x10 + 0x10 else sz)"

partial_function (option) malloc :: "u32 \<Rightarrow> heap \<Rightarrow> (u32 \<times> heap) res option" where
  "malloc sz h =
     (let sz = round_size sz in
      if sz = 0 then Some (Inr (NULL, h))
      else Option.bind (malloc_scan sz (heap_start h) h) (\<lambda>r.
        case r of
          Inl e \<Rightarrow> Some (Inl e)
        | Inr (Some p) \<Rightarrow> Some (Inr p)
        | Inr None \<Rightarrow> (case expand_heap sz h of Inl e \<Rightarrow> Some (Inl e) | Inr h1 \<Rightarrow> malloc sz h1)))"

definition free :: "u32 \<Rightarrow> heap \<Rightarrow> heap res" where
  "free address h =
     (let segment = address - HDR in
      rbind (rd h segment) (\<lambda>s.
      rbind (hsh_combine_forward segment (wr h segment (s\<lparr>h_free := True\<rparr>))) (\<lambda>h1.
      hsh_combine_backward segment h1)))"

definition realloc :: "u32 \<Rightarrow> u32 \<Rightarrow> heap \<Rightarrow> (u32 \<times> heap) res option" where
  "realloc ptr sz h =
     (let segment = ptr - HDR in
      if sz = 0 then Some (rbind (free ptr h) (\<lambda>h1. Inr (NULL, h1)))
      else if ptr = NULL then malloc sz h
      else (case rd h segment of
          Inl e \<Rightarrow> Some (Inl e)
        | Inr s \<Rightarrow>
            if sz \<le> h_length s then Some (Inr (ptr, h))
            else Option.bind (malloc sz h) (\<lambda>r. case r of
                Inl e \<Rightarrow> Some (Inl e)
              | Inr (new_ptr, h1) \<Rightarrow>
                  if new_ptr \<noteq> NULL then
                    Some (rbind (rd h1 segment) (\<lambda>s1.
                      rbind (free ptr (h1\<lparr>heap_mem := fst (memcpy (heap_mem h1) new_ptr ptr (h_length s1))\<rparr>))
                        (\<lambda>h2. Inr (new_ptr, h2))))
                  else Some (Inr (new_ptr, h1)))))"

definition calloc :: "u32 \<Rightarrow> u32 \<Rightarrow> heap \<Rightarrow> (u32 \<times> heap) res option" where
  "calloc count sz h =
     Option.bind (malloc (count * sz) h) (\<lambda>r. case r of
         Inl e \<Rightarrow> Some (Inl e)
       | Inr (addr, h1) \<Rightarrow>
           Some (Inr (addr, h1\<lparr>heap_mem := fst (memset (heap_mem h1) addr 0 (count * sz))\<rparr>)))"

text \<open>\<open>strndup\<close> and \<open>strdup\<close> of \<open>user/libc/string.c\<close>.\<close>

definition strndup :: "u32 \<Rightarrow> u32 \<Rightarrow> heap \<Rightarrow> (u32 \<times> heap) res option" where
  "strndup str n h =
     Option.bind (strlen (heap_mem h) str) (\<lambda>len.
     let copy_len = (if sint len < sint n then len else n) in
     Option.bind (malloc (copy_len + 1) h) (\<lambda>r. case r of
         Inl e \<Rightarrow> Some (Inl e)
       | Inr (new_str, h1) \<Rightarrow>
           if new_str \<noteq> NULL then
             Some (Inr (new_str, h1\<lparr>heap_mem := (fst (memcpy (heap_mem h1) new_str str copy_len))
                                          (new_str + copy_len := 0)\<rparr>))
           else Some (Inr (new_str, h1))))"

definition strdup :: "u32 \<Rightarrow> heap \<Rightarrow> (u32 \<times> heap) res option" where
  "strdup src h =
     Option.bind (strlen (heap_mem h) src) (\<lambda>len.
     Option.bind (malloc (len + 1) h) (\<lambda>r. case r of
         Inl e \<Rightarrow> Some (Inl e)
       | Inr (dup, h1) \<Rightarrow> map_option (\<lambda>(m, _). Inr (dup, h1\<lparr>heap_mem := m\<rparr>)) (strcpy (heap_mem h1) dup src)))"

section \<open>The heap as a list of segments\<close>

text \<open>
  A segment: address of its header, length of its data, and whether it is free. The headers
  form a doubly linked list, in the order of their addresses and without gaps, from \<open>heap_start\<close>
  to \<open>heap_end\<close>; lengths are multiples of 16, and no two neighbours are both free.
\<close>

record seg =
  s_addr :: u32
  s_len :: u32
  s_free :: bool

fun chain :: "(u32 \<Rightarrow> hdr option) \<Rightarrow> u32 \<Rightarrow> u32 \<Rightarrow> seg list \<Rightarrow> u32 \<Rightarrow> bool" where
  "chain H prev a [] z \<longleftrightarrow> a = z"
| "chain H prev a (s # ss) z \<longleftrightarrow> a \<noteq> NULL \<and> s_addr s = a \<and>
     (\<exists>x. H a = Some x \<and> h_length x = s_len s \<and> h_last x = prev \<and> h_free x = s_free s \<and>
          chain H a (h_next x) ss z)"

text \<open>The address after \<open>xs\<close> in the list, and the one before.\<close>

definition lst :: "u32 \<Rightarrow> seg list \<Rightarrow> u32" where
  "lst prev xs = (if xs = [] then prev else s_addr (last xs))"

lemma lst_simps [simp]: "lst p [] = p" "lst p (x # xs) = lst (s_addr x) xs" "lst p (xs @ [y]) = s_addr y"
  by (simp_all add: lst_def)

lemma chain_append: "chain H prev a (xs @ ys) z \<longleftrightarrow> (\<exists>b. chain H prev a xs b \<and> chain H (lst prev xs) b ys z)"
  by (induction xs arbitrary: prev a) auto

lemma chain_frame: "chain H prev a xs z \<Longrightarrow> b \<notin> s_addr ` set xs \<Longrightarrow> chain (H(b := v)) prev a xs z"
  by (induction xs arbitrary: prev a) auto

text \<open>The last header of a piece of the list can be redirected.\<close>

lemma chain_snoc: "chain H prev a (xs @ [s]) z \<longleftrightarrow> chain H prev a xs (s_addr s) \<and> s_addr s \<noteq> NULL \<and>
    (\<exists>x. H (s_addr s) = Some x \<and> h_length x = s_len s \<and> h_last x = lst prev xs \<and> h_free x = s_free s \<and> h_next x = z)"
  by (auto simp: chain_append)

fun contig :: "nat \<Rightarrow> seg list \<Rightarrow> nat \<Rightarrow> bool" where
  "contig a [] e \<longleftrightarrow> a = e"
| "contig a (s # ss) e \<longleftrightarrow> unat (s_addr s) = a \<and> 16 dvd unat (s_len s) \<and> contig (a + 16 + unat (s_len s)) ss e"

lemma contig_append: "contig a (xs @ ys) e \<longleftrightarrow> (\<exists>b. contig a xs b \<and> contig b ys e)"
  by (induction xs arbitrary: a) auto

lemma contig_le: "contig a xs e \<Longrightarrow> a \<le> e"
  by (induction xs arbitrary: a) fastforce+

lemma contig_addr:
  "contig a xs e \<Longrightarrow> s \<in> set xs \<Longrightarrow> a \<le> unat (s_addr s) \<and> unat (s_addr s) + 16 + unat (s_len s) \<le> e"
proof (induction xs arbitrary: a)
  case (Cons x xs)
  show ?case
  proof (cases "s = x")
    case True
    with Cons.prems show ?thesis using contig_le by auto
  next
    case False
    with Cons show ?thesis by fastforce
  qed
qed simp

lemma contig_before: "contig a xs b \<Longrightarrow> b \<le> unat c \<Longrightarrow> c \<notin> s_addr ` set xs"
  using contig_addr by fastforce

lemma contig_after: "contig b xs e \<Longrightarrow> unat c < b \<Longrightarrow> c \<notin> s_addr ` set xs"
  using contig_addr by fastforce

fun no_adj_free :: "seg list \<Rightarrow> bool" where
  "no_adj_free (x # y # zs) \<longleftrightarrow> \<not> (s_free x \<and> s_free y) \<and> no_adj_free (y # zs)"
| "no_adj_free _ \<longleftrightarrow> True"

lemma no_adj_free_append:
  "no_adj_free (xs @ ys) \<longleftrightarrow> no_adj_free xs \<and> no_adj_free ys \<and>
     (xs \<noteq> [] \<and> ys \<noteq> [] \<longrightarrow> \<not> (s_free (last xs) \<and> s_free (hd ys)))"
proof (induction xs)
  case (Cons x xs)
  then show ?case by (cases xs; cases ys) auto
qed simp

definition heap_ok :: "heap \<Rightarrow> seg list \<Rightarrow> bool" where
  "heap_ok h segs \<longleftrightarrow> segs \<noteq> [] \<and> chain (hdrs h) NULL (heap_start h) segs NULL \<and>
     contig (unat (heap_start h)) segs (unat (heap_end h)) \<and> last_hdr h = s_addr (last segs) \<and>
     16 dvd unat (heap_start h) \<and> no_adj_free segs"

text \<open>The blocks handed out: address and length of the data of the segments in use.\<close>

definition blocks :: "seg list \<Rightarrow> (u32 \<times> u32) set" where
  "blocks segs = (\<lambda>s. (s_addr s + HDR, s_len s)) ` {s \<in> set segs. \<not> s_free s}"

lemma blocks_simps [simp]:
  "blocks [] = {}" "blocks (xs @ ys) = blocks xs \<union> blocks ys"
  "blocks (s # ss) = (if s_free s then blocks ss else insert (s_addr s + HDR, s_len s) (blocks ss))"
  by (auto simp: blocks_def)

text \<open>Free segments only.\<close>

lemma seg_eq_iff: "(s :: seg) = t \<longleftrightarrow> s_addr s = s_addr t \<and> s_len s = s_len t \<and> s_free s = s_free t"
  by (cases s; cases t) simp

lemma rd_Some [simp]: "a \<noteq> NULL \<Longrightarrow> hdrs h a = Some x \<Longrightarrow> rd h a = Inr x"
  by (simp add: rd_def)

lemma wr_fields [simp]: "heap_start (wr h a x) = heap_start h" "heap_end (wr h a x) = heap_end h"
  "last_hdr (wr h a x) = last_hdr h" "heap_mem (wr h a x) = heap_mem h" "hdrs (wr h a x) = (hdrs h)(a \<mapsto> x)"
  by (simp_all add: wr_def)

definition heap_wf :: "heap \<Rightarrow> seg list \<Rightarrow> bool" where
  "heap_wf h segs \<longleftrightarrow> segs \<noteq> [] \<and> chain (hdrs h) NULL (heap_start h) segs NULL \<and>
     contig (unat (heap_start h)) segs (unat (heap_end h)) \<and> last_hdr h = s_addr (last segs) \<and>
     16 dvd unat (heap_start h)"

lemma heap_ok_wf: "heap_ok h segs \<longleftrightarrow> heap_wf h segs \<and> no_adj_free segs"
  by (auto simp: heap_ok_def heap_wf_def)

definition same_frame :: "heap \<Rightarrow> heap \<Rightarrow> bool" where
  "same_frame h h' \<longleftrightarrow> heap_start h' = heap_start h \<and> heap_end h' = heap_end h \<and> heap_mem h' = heap_mem h"

text \<open>What is known around one segment of the list.\<close>

lemma heap_wf_at:
  assumes "heap_wf h (xs @ s # ys)"
  obtains x where "s_addr s \<noteq> NULL" "hdrs h (s_addr s) = Some x" "h_length x = s_len s"
    "h_last x = lst NULL xs" "h_free x = s_free s" "chain (hdrs h) NULL (heap_start h) xs (s_addr s)"
    "chain (hdrs h) (s_addr s) (h_next x) ys NULL"
    "contig (unat (heap_start h)) xs (unat (s_addr s))" "16 dvd unat (s_len s)"
    "contig (unat (s_addr s) + 16 + unat (s_len s)) ys (unat (heap_end h))"
    "s_addr s \<notin> s_addr ` set xs" "s_addr s \<notin> s_addr ` set ys"
proof -
  obtain x where x: "s_addr s \<noteq> NULL" "hdrs h (s_addr s) = Some x" "h_length x = s_len s"
    "h_last x = lst NULL xs" "h_free x = s_free s" "chain (hdrs h) NULL (heap_start h) xs (s_addr s)"
    "chain (hdrs h) (s_addr s) (h_next x) ys NULL"
    using assms by (auto simp: heap_wf_def chain_append)
  have c: "contig (unat (heap_start h)) xs (unat (s_addr s))" "16 dvd unat (s_len s)"
    "contig (unat (s_addr s) + 16 + unat (s_len s)) ys (unat (heap_end h))"
    using assms by (auto simp: heap_wf_def contig_append)
  then show ?thesis using that x contig_before [OF c(1)] contig_after [OF c(3)] by simp
qed

lemma chain_head_next: "chain H p a ys NULL \<Longrightarrow> a = (if ys = [] then NULL else s_addr (hd ys))"
  by (cases ys) auto

lemma combine_forward_skip:
  assumes "heap_wf h (xs @ s # ys)" "ys = [] \<or> \<not> s_free (hd ys)"
  shows "hsh_combine_forward (s_addr s) h = Inr h"
  using assms(1)
proof (rule heap_wf_at)
  fix x
  assume x: "s_addr s \<noteq> NULL" "hdrs h (s_addr s) = Some x" "chain (hdrs h) (s_addr s) (h_next x) ys NULL"
  show ?thesis
  proof (cases ys)
    case Nil
    then show ?thesis using x by (simp add: hsh_combine_forward_def)
  next
    case (Cons n zs)
    then show ?thesis using x assms(2) by (auto simp: hsh_combine_forward_def)
  qed
qed

lemma u32_sum_bound:
  assumes "a + 16 + b + 16 + c \<le> unat (e :: u32)" "unat x = b" "unat y = c"
  shows "unat (x + y + (0x10 :: u32)) = b + c + 16"
proof -
  have "unat e < 2 ^ 32" using unsigned_less [of e, where 'a = nat] by simp
  then have "b + c + 16 < 2 ^ 32" using assms(1) by simp
  then show ?thesis using assms(2,3) by (simp add: unat_word_ariths)
qed

lemma combine_forward_merges:
  assumes wf: "heap_wf h (xs @ s # n # ys)" and free: "s_free n"
  shows "\<exists>h'. hsh_combine_forward (s_addr s) h = Inr h' \<and> same_frame h h' \<and>
    heap_wf h' (xs @ s\<lparr>s_len := s_len s + s_len n + HDR\<rparr> # ys)"
  using wf
proof (rule heap_wf_at)
  let ?a = "s_addr s" and ?b = "s_addr n" and ?s = "s\<lparr>s_len := s_len s + s_len n + HDR\<rparr>"
  fix x
  assume x: "?a \<noteq> NULL" "hdrs h ?a = Some x" "h_length x = s_len s" "h_last x = lst NULL xs" "h_free x = s_free s"
    "chain (hdrs h) NULL (heap_start h) xs ?a" "chain (hdrs h) ?a (h_next x) (n # ys) NULL"
    and cx: "contig (unat (heap_start h)) xs (unat ?a)" "16 dvd unat (s_len s)"
    "contig (unat ?a + 16 + unat (s_len s)) (n # ys) (unat (heap_end h))"
    and ax: "?a \<notin> s_addr ` set xs" "?a \<notin> s_addr ` set (n # ys)"
  from x(7) obtain y where y: "?b \<noteq> NULL" "h_next x = ?b" "hdrs h ?b = Some y" "h_length y = s_len n" "h_free y"
    "chain (hdrs h) ?b (h_next y) ys NULL" using free unfolding chain.simps by metis
  have cy: "unat ?b = unat ?a + 16 + unat (s_len s)" "16 dvd unat (s_len n)"
    "contig (unat ?b + 16 + unat (s_len n)) ys (unat (heap_end h))" using cx(3) by auto
  have len: "unat (s_len ?s) = unat (s_len s) + unat (s_len n) + 16"
    using u32_sum_bound [of "unat ?a" "unat (s_len s)" "unat (s_len n)" "heap_end h"] contig_le [OF cy(3)] cy(1) by simp
  have ab: "?a \<noteq> ?b" using ax(2) by auto
  have b_ys: "?b \<notin> s_addr ` set ys" by (rule contig_after [OF cy(3)]) simp
  have contig': "contig (unat (heap_start h)) (xs @ ?s # ys) (unat (heap_end h))"
    using cx(1,2) cy len by (auto simp: contig_append algebra_simps)
  have dv: "16 dvd unat (heap_start h)" and lasth: "last_hdr h = s_addr (last (n # ys))"
    using wf by (simp_all add: heap_wf_def)
  show ?thesis
  proof (cases ys)
    case Nil
    have "h_next y = NULL" using y(6) Nil by simp
    then have "hsh_combine_forward ?a h =
        Inr (wr (h\<lparr>last_hdr := ?a\<rparr>) ?a (x\<lparr>h_length := h_length x + h_length y + HDR, h_next := NULL\<rparr>))"
      using x y lasth Nil by (simp add: hsh_combine_forward_def Let_def)
    then show ?thesis
      using contig' dv x y Nil ax(1) by (auto simp: heap_wf_def same_frame_def chain_snoc intro: chain_frame)
  next
    case (Cons w zs)
    let ?c = "s_addr w"
    from y(6) [unfolded Cons] obtain v where v: "?c \<noteq> NULL" "h_next y = ?c" "hdrs h ?c = Some v" "h_length v = s_len w"
      "h_free v = s_free w" "chain (hdrs h) ?c (h_next v) zs NULL" unfolding chain.simps by metis
    have cz: "contig (unat ?c + 16 + unat (s_len w)) zs (unat (heap_end h))" using cy(3) Cons by auto
    have nc: "?c \<notin> s_addr ` set zs" "?c \<noteq> ?b" "?c \<noteq> ?a" "?a \<notin> s_addr ` set zs" "?c \<notin> s_addr ` set xs"
      using contig_after [OF cz, of ?c] b_ys ax Cons contig_before [OF cx(1), of ?c] cy(1,3) by auto
    have "?b \<noteq> last_hdr h" using lasth Cons b_ys by auto
    let ?H = "(hdrs h)(?c \<mapsto> v\<lparr>h_last := ?a\<rparr>, ?a \<mapsto> x\<lparr>h_length := h_length x + h_length y + HDR, h_next := ?c\<rparr>)"
    have "hsh_combine_forward ?a h = Inr (wr (wr h ?c (v\<lparr>h_last := ?a\<rparr>)) ?a
        (x\<lparr>h_length := h_length x + h_length y + HDR, h_next := ?c\<rparr>))"
      using x y v ab nc \<open>?b \<noteq> last_hdr h\<close> by (simp add: hsh_combine_forward_def Let_def)
    moreover have "chain ?H NULL (heap_start h) xs ?a"
      using x(6) ax(1) nc(5) by (intro chain_frame) auto
    moreover have "chain ?H ?c (h_next v) zs NULL" using v(6) nc by (intro chain_frame) auto
    ultimately show ?thesis
      using contig' dv x y v Cons nc lasth by (auto simp: heap_wf_def same_frame_def chain_append)
  qed
qed

lemma heap_wf_set_free:
  assumes wf: "heap_wf h (xs @ s # ys)" and x: "hdrs h (s_addr s) = Some x"
  shows "heap_wf (wr h (s_addr s) (x\<lparr>h_free := f\<rparr>)) (xs @ s\<lparr>s_free := f\<rparr> # ys)"
  using wf
proof (rule heap_wf_at)
  let ?H = "(hdrs h)(s_addr s \<mapsto> x\<lparr>h_free := f\<rparr>)"
  fix y
  assume y: "s_addr s \<noteq> NULL" "hdrs h (s_addr s) = Some y" "h_length y = s_len s" "h_last y = lst NULL xs"
    "chain (hdrs h) NULL (heap_start h) xs (s_addr s)" "chain (hdrs h) (s_addr s) (h_next y) ys NULL"
    "s_addr s \<notin> s_addr ` set xs" "s_addr s \<notin> s_addr ` set ys"
  have "chain ?H NULL (heap_start h) xs (s_addr s)" "chain ?H (s_addr s) (h_next y) ys NULL"
    using y by (auto intro: chain_frame)
  then show ?thesis using wf x y by (auto simp: heap_wf_def chain_append contig_append)
qed

lemma hsh_split_small:
  assumes "heap_wf h (xs @ s # ys)" "16 dvd unat n" "unat n < unat (s_len s)" "\<not> unat n + 32 \<le> unat (s_len s)"
    "16 \<le> unat n"
  shows "hsh_split (s_addr s) n h = Inr (NULL, h)"
  using assms(1)
proof (rule heap_wf_at)
  fix x
  assume x: "s_addr s \<noteq> NULL" "hdrs h (s_addr s) = Some x" "h_length x = s_len s" "16 dvd unat (s_len s)"
  obtain i j where "unat n = 16 * i" "unat (s_len s) = 16 * j" using assms(2) x(4) by (auto elim!: dvdE)
  then have "unat (s_len s) = unat n + 16" using assms(3,4) by presburger
  then have "(of_nat (unat (s_len s)) :: u32) = of_nat (unat n + 16)" by (simp only:)
  then have "s_len s = n + 0x10" by simp
  then show ?thesis using x assms(5) by (simp add: hsh_split_def Let_def word_less_nat_alt)
qed

lemma hsh_split_splits:
  assumes wf: "heap_wf h (xs @ s # ys)" and n: "16 dvd unat n" "16 \<le> unat n" "unat n + 32 \<le> unat (s_len s)"
  defines "new \<equiv> s_addr s + n + HDR"
  shows "\<exists>h'. hsh_split (s_addr s) n h = Inr (new, h') \<and> same_frame h h' \<and>
    heap_wf h' (xs @ s\<lparr>s_len := n\<rparr> # \<lparr>s_addr = new, s_len = s_len s - (n + HDR), s_free = s_free s\<rparr> # ys)"
  using wf
proof (rule heap_wf_at)
  let ?a = "s_addr s" and ?t = "\<lparr>s_addr = new, s_len = s_len s - (n + HDR), s_free = s_free s\<rparr>"
  fix x
  assume x: "?a \<noteq> NULL" "hdrs h ?a = Some x" "h_length x = s_len s" "h_last x = lst NULL xs" "h_free x = s_free s"
    "chain (hdrs h) NULL (heap_start h) xs ?a" "chain (hdrs h) ?a (h_next x) ys NULL"
    and cx: "contig (unat (heap_start h)) xs (unat ?a)" "16 dvd unat (s_len s)"
    "contig (unat ?a + 16 + unat (s_len s)) ys (unat (heap_end h))"
    and ax: "?a \<notin> s_addr ` set xs" "?a \<notin> s_addr ` set ys"
  have e: "unat (heap_end h) < 2 ^ 32" using unsigned_less [of "heap_end h", where 'a = nat] by simp
  have le: "unat ?a + 16 + unat (s_len s) \<le> unat (heap_end h)" by (rule contig_le [OF cx(3)])
  have n16: "unat (n + 0x10) = unat n + 16" using n(3) le e by (simp add: unat_word_ariths)
  have un: "unat new = unat ?a + 16 + unat n" using n(3) le e by (simp add: new_def unat_word_ariths)
  have "n + 0x10 \<le> s_len s" using n16 n(3) by (simp add: word_le_nat_alt)
  then have ul: "unat (s_len s - (n + 0x10)) = unat (s_len s) - (unat n + 16)"
    using n16 by (simp add: unat_sub)
  have "16 dvd unat (s_len s) - (unat n + 16)" using cx(2) n(1) by (simp add: dvd_diff_nat)
  then have contig': "contig (unat (heap_start h)) (xs @ s\<lparr>s_len := n\<rparr> # ?t # ys) (unat (heap_end h))"
    using cx un ul n(1,3) by (auto simp: contig_append add_ac)
  have new: "new \<noteq> NULL" "new \<noteq> ?a" "new \<notin> s_addr ` set ys" "new \<notin> s_addr ` set xs"
  proof -
    show "new \<noteq> NULL" using un by (auto simp: unat_eq_0 [symmetric])
    show "new \<noteq> ?a" using un by auto
    show "new \<notin> s_addr ` set ys" by (rule contig_after [OF cx(3)]) (use un n(3) in simp)
    show "new \<notin> s_addr ` set xs" by (rule contig_before [OF cx(1)]) (use un in simp)
  qed
  have big: "\<not> n < 0x10" "\<not> s_len s - (n + 0x10) < 0x10" using n ul by (simp_all add: word_less_nat_alt)
  have dv: "16 dvd unat (heap_start h)" and lasth: "last_hdr h = s_addr (last (s # ys))"
    using wf by (simp_all add: heap_wf_def)
  let ?nh = "\<lparr>h_length = s_len s - (n + HDR), h_next = h_next x, h_last = ?a, h_free = h_free x\<rparr>"
  let ?x = "x\<lparr>h_next := new, h_length := n\<rparr>"
  show ?thesis
  proof (cases ys)
    case Nil
    then have "h_next x = NULL" using x(7) by simp
    then have "hsh_split ?a n h = Inr (new, (wr (wr h new ?nh) ?a ?x)\<lparr>last_hdr := new\<rparr>)"
      using x big new lasth Nil by (simp add: hsh_split_def Let_def new_def)
    moreover have "chain ((hdrs h)(new \<mapsto> ?nh, ?a \<mapsto> ?x)) NULL (heap_start h) xs ?a"
      using x(6) ax(1) new(4) by (intro chain_frame) auto
    ultimately show ?thesis using contig' dv x new Nil by (auto simp: heap_wf_def same_frame_def chain_append)
  next
    case (Cons w zs)
    let ?c = "s_addr w"
    from x(7) [unfolded Cons] obtain v where v: "?c \<noteq> NULL" "h_next x = ?c" "hdrs h ?c = Some v" "h_length v = s_len w"
      "h_last v = ?a" "h_free v = s_free w" "chain (hdrs h) ?c (h_next v) zs NULL" unfolding chain.simps by metis
    have cz: "contig (unat ?c + 16 + unat (s_len w)) zs (unat (heap_end h))" using cx(3) Cons by auto
    have nc: "?c \<notin> s_addr ` set zs" "?c \<noteq> new" "?c \<noteq> ?a" "?a \<notin> s_addr ` set zs" "new \<notin> s_addr ` set zs"
      "?c \<notin> s_addr ` set xs"
      using contig_after [OF cz, of ?c] new ax Cons contig_before [OF cx(1), of ?c] cx(3) by auto
    have "s_addr (last ys) \<in> s_addr ` set ys" using Cons by simp
    then have "last_hdr h \<noteq> ?a" using lasth Cons ax(2) by auto
    let ?H = "(hdrs h)(?c \<mapsto> v\<lparr>h_last := new\<rparr>, new \<mapsto> ?nh, ?a \<mapsto> ?x)"
    have "hsh_split ?a n h = Inr (new, wr (wr (wr h ?c (v\<lparr>h_last := new\<rparr>)) new ?nh) ?a ?x)"
      using x v big new nc \<open>last_hdr h \<noteq> ?a\<close> by (simp add: hsh_split_def Let_def new_def)
    moreover have "chain ?H NULL (heap_start h) xs ?a" using x(6) ax(1) new(4) nc(6) by (intro chain_frame) auto
    moreover have "chain ?H ?c (h_next v) zs NULL" using v(7) nc by (intro chain_frame) auto
    ultimately show ?thesis
      using contig' dv x v Cons nc new lasth by (auto simp: heap_wf_def same_frame_def chain_append)
  qed
qed

section \<open>The search of malloc\<close>

definition fits :: "u32 \<Rightarrow> seg \<Rightarrow> bool" where
  "fits n s \<longleftrightarrow> s_free s \<and> n \<le> s_len s"

definition alloc_segs :: "u32 \<Rightarrow> seg \<Rightarrow> seg list" where
  "alloc_segs n s = (if unat n + 32 \<le> unat (s_len s)
     then [s\<lparr>s_len := n, s_free := False\<rparr>,
           \<lparr>s_addr = s_addr s + n + HDR, s_len = s_len s - (n + HDR), s_free = True\<rparr>]
     else [s\<lparr>s_free := False\<rparr>])"

lemma same_frame_trans: "same_frame h h1 \<Longrightarrow> same_frame h1 h2 \<Longrightarrow> same_frame h h2"
  by (simp add: same_frame_def)

lemma same_frame_wr [simp]: "same_frame h (wr h' a x) \<longleftrightarrow> same_frame h h'"
  by (simp add: same_frame_def)

lemma malloc_scan_hit:
  assumes wf: "heap_wf h (xs @ s # ys)" and n: "16 dvd unat n" "16 \<le> unat n" and fit: "fits n s"
  shows "\<exists>h'. malloc_scan n (s_addr s) h = Some (Inr (Some (s_addr s + HDR, h'))) \<and> same_frame h h' \<and>
    heap_wf h' (xs @ alloc_segs n s @ ys)"
  using wf
proof (rule heap_wf_at)
  fix x
  assume x: "s_addr s \<noteq> NULL" "hdrs h (s_addr s) = Some x" "h_length x = s_len s" "h_free x = s_free s"
  have fr: "s_free s" "n \<le> s_len s" using fit by (simp_all add: fits_def)
  consider (split) "unat n + 32 \<le> unat (s_len s)" | (whole) "n < s_len s" "\<not> unat n + 32 \<le> unat (s_len s)" | (eq) "s_len s = n"
    using fr(2) by fastforce
  then show ?thesis
  proof cases
    case split
    obtain h1 where h1: "hsh_split (s_addr s) n h = Inr (s_addr s + n + HDR, h1)" "same_frame h h1"
      "heap_wf h1 (xs @ s\<lparr>s_len := n\<rparr> # \<lparr>s_addr = s_addr s + n + HDR, s_len = s_len s - (n + HDR), s_free = s_free s\<rparr> # ys)"
      using hsh_split_splits [OF wf n split] by blast
    from h1(3) obtain y where "hdrs h1 (s_addr s) = Some y" by (rule heap_wf_at) auto
    moreover note heap_wf_set_free [OF h1(3), of y False]
    moreover have "n < s_len s" using split by (simp add: word_less_nat_alt)
    ultimately show ?thesis using x fr h1(1,2) split
      by (subst malloc_scan.simps) (auto simp: alloc_segs_def)
  next
    case whole
    then have "hsh_split (s_addr s) n h = Inr (NULL, h)"
      using hsh_split_small [OF wf n(1) _ _ n(2)] by (simp add: word_less_nat_alt)
    with x fr whole heap_wf_set_free [OF wf x(2), of False] show ?thesis
      by (subst malloc_scan.simps) (auto simp: alloc_segs_def same_frame_def)
  next
    case eq
    with x fr heap_wf_set_free [OF wf x(2), of False] show ?thesis
      by (subst malloc_scan.simps) (auto simp: alloc_segs_def same_frame_def)
  qed
qed

lemma malloc_scan_next:
  assumes "heap_wf h (xs @ s # ys)" "\<not> fits n s"
  shows "malloc_scan n (s_addr s) h =
    (if ys = [] then Some (Inr None) else malloc_scan n (s_addr (hd ys)) h)"
  using assms(1)
proof (rule heap_wf_at)
  fix x
  assume x: "s_addr s \<noteq> NULL" "hdrs h (s_addr s) = Some x" "h_length x = s_len s" "h_free x = s_free s"
    "chain (hdrs h) (s_addr s) (h_next x) ys NULL"
  have "h_next x = (if ys = [] then NULL else s_addr (hd ys))" by (rule chain_head_next [OF x(5)])
  moreover have "ys \<noteq> [] \<Longrightarrow> s_addr (hd ys) \<noteq> NULL" using x(5) by (cases ys) auto
  ultimately show ?thesis using x assms(2)
    by (subst malloc_scan.simps) (auto simp: fits_def not_le)
qed

lemma malloc_scan_skip:
  "heap_wf h (xs @ us @ vs) \<Longrightarrow> \<forall>u \<in> set us. \<not> fits n u \<Longrightarrow> us @ vs \<noteq> [] \<Longrightarrow>
   malloc_scan n (s_addr (hd (us @ vs))) h = (if vs = [] then Some (Inr None) else malloc_scan n (s_addr (hd vs)) h)"
proof (induction us arbitrary: xs)
  case (Cons u us)
  have "malloc_scan n (s_addr u) h =
      (if us @ vs = [] then Some (Inr None) else malloc_scan n (s_addr (hd (us @ vs))) h)"
    using Cons.prems by (intro malloc_scan_next [of h xs]) auto
  moreover have "heap_wf h ((xs @ [u]) @ us @ vs)" using Cons.prems by simp
  ultimately show ?case using Cons.IH [of "xs @ [u]"] Cons.prems(2) by auto
qed simp

lemma heap_wf_start: "heap_wf h segs \<Longrightarrow> heap_start h = s_addr (hd segs)"
  by (cases segs) (auto simp: heap_wf_def)

section \<open>Growing the heap\<close>

definition round_page :: "u32 \<Rightarrow> u32" where
  "round_page n = (if n mod 0x1000 \<noteq> 0 then n - n mod 0x1000 + 0x1000 else n)"

lemma round_page_props:
  assumes "unat n + 0x1000 \<le> 2 ^ 32"
  shows "unat (round_page n) = (unat n + 0xfff) div 0x1000 * 0x1000"
    and "round_page n div 0x1000 * 0x1000 = round_page n"
proof -
  have sub: "unat (n - n mod 0x1000) = unat n - unat n mod 0x1000"
    by (subst unat_sub) (simp_all add: word_le_nat_alt unat_mod)
  have u: "unat (round_page n) = (if unat n mod 0x1000 = 0 then unat n else unat n - unat n mod 0x1000 + 0x1000)"
  proof (cases "unat n mod 0x1000 = 0")
    case True
    then show ?thesis by (simp add: round_page_def word_unat_eq_iff unat_mod)
  next
    case False
    have "unat n - unat n mod 0x1000 + 0x1000 < 2 ^ 32" using assms False by simp
    then have "unat (n - n mod 0x1000 + 0x1000) = unat n - unat n mod 0x1000 + 0x1000"
      using sub by (simp add: unat_word_ariths)
    then show ?thesis using False by (simp add: round_page_def word_unat_eq_iff unat_mod)
  qed
  obtain q r where qr: "unat n = q * 0x1000 + r" "r < 0x1000" "unat n mod 0x1000 = r"
    using div_mult_mod_eq [of "unat n" "0x1000"] by (metis mod_less_divisor zero_less_numeral)
  show e: "unat (round_page n) = (unat n + 0xfff) div 0x1000 * 0x1000"
  proof (cases "r = 0")
    case True
    then show ?thesis using u qr by simp
  next
    case False
    then have "(q * 0x1000 + r + 0xfff) div 0x1000 = q + 1"
      using qr(2) by (intro div_nat_eqI) simp_all
    then show ?thesis using u qr False by simp
  qed
  show "round_page n div 0x1000 * 0x1000 = round_page n"
  proof -
    have "unat (round_page n) < 2 ^ 32" using unsigned_less [of "round_page n", where 'a = nat] by simp
    then show ?thesis using e by (simp add: word_unat_eq_iff unat_word_ariths unat_div)
  qed
qed

lemma hsh_combine_backward_skip:
  assumes "heap_wf h (xs @ s # ys)" "xs = [] \<or> \<not> s_free (last xs)"
  shows "hsh_combine_backward (s_addr s) h = Inr h"
  using assms(1)
proof (rule heap_wf_at)
  fix x
  assume x: "s_addr s \<noteq> NULL" "hdrs h (s_addr s) = Some x" "h_last x = lst NULL xs"
  show ?thesis
  proof (cases xs rule: rev_cases)
    case Nil
    then show ?thesis using x by (simp add: hsh_combine_backward_def)
  next
    case (snoc zs p)
    from assms(1) have "heap_wf h (zs @ p # s # ys)" using snoc by simp
    then obtain y where "s_addr p \<noteq> NULL" "hdrs h (s_addr p) = Some y" "h_free y = s_free p" by (rule heap_wf_at)
    then show ?thesis using x snoc assms(2) by (simp add: hsh_combine_backward_def)
  qed
qed

lemma hsh_combine_backward_merges:
  assumes wf: "heap_wf h (xs @ p # s # ys)" and free: "s_free p"
  shows "hsh_combine_backward (s_addr s) h = hsh_combine_forward (s_addr p) h"
proof -
  have "heap_wf h ((xs @ [p]) @ s # ys)" using wf by simp
  then obtain x where x: "s_addr s \<noteq> NULL" "hdrs h (s_addr s) = Some x" "h_last x = s_addr p"
    by (rule heap_wf_at) simp
  from wf obtain y where "s_addr p \<noteq> NULL" "hdrs h (s_addr p) = Some y" "h_free y = s_free p" by (rule heap_wf_at)
  then show ?thesis using x free by (simp add: hsh_combine_backward_def)
qed

definition grown :: "seg list \<Rightarrow> seg \<Rightarrow> u32 \<Rightarrow> u32 \<Rightarrow> seg list" where
  "grown xs s e len = (if s_free s then xs @ [s\<lparr>s_len := s_len s + len\<rparr>]
     else xs @ [s, \<lparr>s_addr = e, s_len = len - HDR, s_free = True\<rparr>])"

lemma expand_heap_grows:
  assumes wf: "heap_wf h (xs @ [s])" and n: "unat (heap_end h) + unat (round_page n) < 2 ^ 32" "0x1000 \<le> unat (round_page n)"
    "unat n + 0x1000 \<le> 2 ^ 32"
  shows "\<exists>h'. expand_heap n h = Inr h' \<and> heap_start h' = heap_start h \<and> heap_mem h' = heap_mem h \<and>
    heap_end h' = heap_end h + round_page n \<and> heap_wf h' (grown xs s (heap_end h) (round_page n))"
  using wf
proof (rule heap_wf_at)
  let ?a = "s_addr s" and ?L = "round_page n" and ?e = "heap_end h"
  let ?t = "\<lparr>s_addr = ?e, s_len = ?L - HDR, s_free = True\<rparr>"
  fix x
  assume x: "?a \<noteq> NULL" "hdrs h ?a = Some x" "h_length x = s_len s" "h_last x = lst NULL xs" "h_free x = s_free s"
    "chain (hdrs h) NULL (heap_start h) xs ?a"
    and cx: "contig (unat (heap_start h)) xs (unat ?a)" "16 dvd unat (s_len s)"
    "contig (unat ?a + 16 + unat (s_len s)) [] (unat ?e)" and ax: "?a \<notin> s_addr ` set xs"
  have ea: "unat ?e = unat ?a + 16 + unat (s_len s)" using cx(3) by simp
  have new: "?e \<noteq> NULL" "?e \<noteq> ?a" "?e \<notin> s_addr ` set xs"
  proof -
    show "?e \<noteq> NULL" "?e \<noteq> ?a" using ea by (auto simp: unat_eq_0 [symmetric])
    show "?e \<notin> s_addr ` set xs" by (rule contig_before [OF cx(1)]) (use ea in simp)
  qed
  have dvd: "16 dvd unat ?L" unfolding round_page_props(1) [OF n(3)] by (rule dvd_mult) simp
  have L16: "unat (?L - 0x10) = unat ?L - 16" using n(2) by (subst unat_sub) (simp_all add: word_le_nat_alt)
  have eL: "unat (?e + ?L) = unat ?e + unat ?L" using n(1) by (simp add: unat_word_ariths)
  have lasth: "last_hdr h = ?a" and dv: "16 dvd unat (heap_start h)" using wf by (simp_all add: heap_wf_def)
  define h1 where "h1 = (wr (wr (h\<lparr>heap_end := ?e + ?L\<rparr>) ?e
      \<lparr>h_length = ?L - HDR, h_next = NULL, h_last = ?a, h_free = True\<rparr>) ?a (x\<lparr>h_next := ?e\<rparr>))\<lparr>last_hdr := ?e\<rparr>"
  have ex: "expand_heap n h = hsh_combine_backward ?e h1"
    using x new lasth round_page_props(2) [OF n(3)]
    by (simp add: expand_heap_def Let_def round_page_def [symmetric] h1_def)
  have "chain (hdrs h1) NULL (heap_start h) xs ?a"
    using x(6) ax new(3) unfolding h1_def by (auto intro!: chain_frame)
  then have wf1: "heap_wf h1 (xs @ [s, ?t])"
    using cx ea eL L16 n(2) dvd dv x new
    by (auto simp: heap_wf_def chain_append contig_append h1_def dvd_diff_nat)
  show ?thesis
  proof (cases "s_free s")
    case True
    obtain h2 where "hsh_combine_forward ?a h1 = Inr h2" "same_frame h1 h2"
      "heap_wf h2 (xs @ s\<lparr>s_len := s_len s + s_len ?t + HDR\<rparr> # [])"
      using combine_forward_merges [of h1 xs s ?t "[]"] wf1 by auto
    then show ?thesis using ex hsh_combine_backward_merges [of h1 xs s ?t "[]"] wf1 True
      by (auto simp: grown_def same_frame_def h1_def)
  next
    case False
    then show ?thesis using ex hsh_combine_backward_skip [of h1 "xs @ [s]" ?t "[]"] wf1
      by (auto simp: grown_def h1_def)
  qed
qed

section \<open>Allocation\<close>

lemma round_size_props:
  assumes "unat n + 0x10 \<le> 2 ^ 32"
  shows "16 dvd unat (round_size n)" "unat n \<le> unat (round_size n)" "unat (round_size n) < unat n + 16"
proof -
  have sub: "unat (n - n mod 0x10) = unat n - unat n mod 0x10"
    by (subst unat_sub) (simp_all add: word_le_nat_alt unat_mod)
  have m: "unat n mod 16 < 16" "unat n mod 16 \<le> unat n" by simp_all
  have u: "unat (round_size n) = (if unat n mod 0x10 = 0 then unat n else unat n - unat n mod 0x10 + 0x10)"
  proof (cases "unat n mod 0x10 = 0")
    case True
    then show ?thesis by (simp add: round_size_def word_less_nat_alt unat_mod)
  next
    case False
    have "unat n - unat n mod 0x10 + 0x10 < 2 ^ 32" using assms False by simp
    then have "unat (n - n mod 0x10 + 0x10) = unat n - unat n mod 0x10 + 0x10"
      using sub by (simp add: unat_word_ariths)
    then show ?thesis using False by (simp add: round_size_def word_less_nat_alt unat_mod)
  qed
  show "unat n \<le> unat (round_size n)" "unat (round_size n) < unat n + 16" using u m by auto
  have "16 dvd unat n - unat n mod 16" by (simp add: minus_mod_eq_mult_div)
  then show "16 dvd unat (round_size n)" using u by (auto simp: dvd_eq_mod_eq_0)
qed

lemma round_size_id: "16 dvd unat n \<Longrightarrow> round_size n = n"
  by (simp add: round_size_def word_less_nat_alt unat_mod dvd_eq_mod_eq_0)

text \<open>What a successful request for \<open>n\<close> bytes establishes.\<close>

definition allocated :: "u32 \<Rightarrow> heap \<Rightarrow> seg list \<Rightarrow> u32 \<Rightarrow> heap \<Rightarrow> bool" where
  "allocated n h segs p h' \<longleftrightarrow> (\<exists>segs' len. heap_ok h' segs' \<and> n \<le> len \<and> p \<notin> fst ` blocks segs \<and>
     blocks segs' = insert (p, len) (blocks segs) \<and> heap_mem h' = heap_mem h)"

lemma fst_blocks: "fst ` blocks segs = (\<lambda>s. s_addr s + HDR) ` {s \<in> set segs. \<not> s_free s}"
  by (auto simp: blocks_def image_image)

lemma no_adj_alloc: "no_adj_free (xs @ s # ys) \<Longrightarrow> s_free s \<Longrightarrow> no_adj_free (xs @ alloc_segs n s @ ys)"
  by (cases ys) (auto simp: no_adj_free_append alloc_segs_def)

lemma alloc_segs_blocks:
  "n \<le> s_len s \<Longrightarrow> \<exists>len. n \<le> len \<and> blocks (alloc_segs n s) = {(s_addr s + HDR, len)}"
  by (auto simp: alloc_segs_def)

lemma malloc_found:
  assumes ok: "heap_ok h segs" and n: "16 dvd unat n" "16 \<le> unat n" and fit: "\<exists>s \<in> set segs. fits n s"
    and sz: "round_size sz = n"
  shows "\<exists>p h'. malloc sz h = Some (Inr (p, h')) \<and> allocated n h segs p h'"
proof -
  from split_list_first_prop [OF fit] obtain us s vs where segs: "segs = us @ s # vs" and s: "fits n s"
    and us: "\<forall>u \<in> set us. \<not> fits n u" by blast
  have wf: "heap_wf h (us @ s # vs)" and adj: "no_adj_free (us @ s # vs)" using ok segs by (simp_all add: heap_ok_wf)
  have fr: "s_free s" "n \<le> s_len s" using s by (simp_all add: fits_def)
  obtain h' where hit: "malloc_scan n (s_addr s) h = Some (Inr (Some (s_addr s + HDR, h')))" "same_frame h h'"
    "heap_wf h' (us @ alloc_segs n s @ vs)" using malloc_scan_hit [OF wf n s] by blast
  have "malloc_scan n (heap_start h) h = malloc_scan n (s_addr s) h"
    using malloc_scan_skip [of h "[]" us "s # vs" n] wf us heap_wf_start [OF wf] by simp
  moreover have "n \<noteq> 0" using n(2) by auto
  ultimately have m: "malloc sz h = Some (Inr (s_addr s + HDR, h'))"
    using hit(1) sz by (subst malloc.simps) (simp add: Let_def)
  obtain len where len: "n \<le> len" "blocks (alloc_segs n s) = {(s_addr s + HDR, len)}"
    using alloc_segs_blocks [OF fr(2)] by blast
  have "s_addr s + HDR \<notin> fst ` blocks segs"
  proof -
    have "s_addr s \<notin> s_addr ` set us" "s_addr s \<notin> s_addr ` set vs" using wf by (auto elim: heap_wf_at)
    then show ?thesis using fr(1) by (auto simp: blocks_def segs)
  qed
  moreover have "blocks (us @ alloc_segs n s @ vs) = insert (s_addr s + HDR, len) (blocks segs)"
    using fr(1) len(2) by (auto simp: segs)
  ultimately have "allocated n h segs (s_addr s + HDR) h'"
    unfolding allocated_def
    using hit(2,3) no_adj_alloc [OF adj fr(1)] len(1)
    by (intro exI [of _ "us @ alloc_segs n s @ vs"] exI [of _ len]) (simp add: heap_ok_wf same_frame_def)
  with m show ?thesis by blast
qed

lemma malloc_grow:
  assumes ok: "heap_ok h (xs @ [s])" and n: "16 dvd unat n" "16 \<le> unat n"
    and none: "\<forall>u \<in> set (xs @ [s]). \<not> fits n u" and sz: "round_size sz = n"
    and room: "unat (heap_end h) + unat (round_page n) < 2 ^ 32" "unat n + 0x1000 \<le> 2 ^ 32"
  shows "\<exists>h'. malloc sz h = malloc n h' \<and> heap_ok h' (grown xs s (heap_end h) (round_page n)) \<and>
    heap_end h' = heap_end h + round_page n \<and> heap_mem h' = heap_mem h"
proof -
  have wf: "heap_wf h (xs @ [s])" and adj: "no_adj_free (xs @ [s])" using ok by (simp_all add: heap_ok_wf)
  have big: "0x1000 \<le> unat (round_page n)" unfolding round_page_props(1) [OF room(2)] using n(2) by simp
  obtain h' where h': "expand_heap n h = Inr h'" "heap_mem h' = heap_mem h" "heap_end h' = heap_end h + round_page n"
    "heap_wf h' (grown xs s (heap_end h) (round_page n))"
    using expand_heap_grows [OF wf room(1) big room(2)] by blast
  have "malloc_scan n (heap_start h) h = Some (Inr None)"
    using malloc_scan_skip [of h "[]" "xs @ [s]" "[]" n] wf none heap_wf_start [OF wf] by simp
  moreover have "n \<noteq> 0" using n(2) by auto
  ultimately have "malloc sz h = malloc n h'" using h'(1) sz by (subst malloc.simps) (simp add: Let_def)
  moreover have "no_adj_free (grown xs s (heap_end h) (round_page n))"
    using adj by (auto simp: grown_def no_adj_free_append)
  ultimately show ?thesis using h' by (auto simp: heap_ok_wf)
qed

lemma blocks_grown: "blocks (grown xs s e len) = blocks (xs @ [s])"
  by (auto simp: grown_def)

lemma allocated_mono:
  "allocated n h' segs' p h'' \<Longrightarrow> blocks segs' = blocks segs \<Longrightarrow> heap_mem h' = heap_mem h \<Longrightarrow> allocated n h segs p h''"
  by (simp add: allocated_def)

lemma malloc_ok:
  assumes ok: "heap_ok h segs" and sz: "sz \<noteq> 0" "unat sz + 0x2000 \<le> 2 ^ 32"
    and room: "unat (heap_end h) + 2 * unat (round_page (round_size sz)) < 2 ^ 32"
  shows "\<exists>p h'. malloc sz h = Some (Inr (p, h')) \<and> allocated (round_size sz) h segs p h'"
proof -
  let ?n = "round_size sz" let ?L = "round_page ?n"
  have r: "16 dvd unat ?n" "unat sz \<le> unat ?n" "unat ?n < unat sz + 16"
    using round_size_props [of sz] sz(2) by simp_all
  have "unat sz \<noteq> 0" using sz(1) by (simp add: unat_eq_0)
  then have n16: "16 \<le> unat ?n" using r(1,2) by (intro dvd_imp_le) auto
  have n2: "unat ?n + 0x1000 \<le> 2 ^ 32" using r(3) sz(2) by simp
  have nL: "unat ?n \<le> unat ?L" unfolding round_page_props(1) [OF n2]
    using dividend_less_div_times [of "0x1000" "unat ?n + 0xfff"] by simp
  have L16: "16 dvd unat ?L" unfolding round_page_props(1) [OF n2] by (rule dvd_mult) simp
  show ?thesis
  proof (cases "\<exists>s \<in> set segs. fits ?n s")
    case True
    then show ?thesis by (rule malloc_found [OF ok r(1) n16 _ refl])
  next
    case False
    obtain xs s where segs: "segs = xs @ [s]" using ok by (cases segs rule: rev_cases) (auto simp: heap_ok_def)
    let ?g = "grown xs s (heap_end h) ?L"
    obtain h1 where h1: "malloc sz h = malloc ?n h1" "heap_ok h1 ?g" "heap_end h1 = heap_end h + ?L" "heap_mem h1 = heap_mem h"
      using malloc_grow [of h xs s ?n sz] ok segs r(1) n16 n2 False room by auto
    have e1: "unat (heap_end h1) = unat (heap_end h) + unat ?L" using h1(3) room by (simp add: unat_word_ariths)
    have b: "blocks ?g = blocks segs" by (simp add: blocks_grown segs)
    show ?thesis
    proof (cases "\<exists>s \<in> set ?g. fits ?n s")
      case True
      from malloc_found [OF h1(2) r(1) n16 this round_size_id [OF r(1)]] h1 b show ?thesis
        using allocated_mono by metis
    next
      case none: False
      have "\<not> s_free s"
      proof
        assume fr: "s_free s"
        have "heap_wf h (xs @ [s])" using ok segs by (simp add: heap_ok_wf)
        then have "unat (s_len s) \<le> unat (heap_end h)" by (rule heap_wf_at) simp
        then have "unat (s_len s + ?L) = unat (s_len s) + unat ?L" using room by (simp add: unat_word_ariths)
        then have "?n \<le> s_len s + ?L" using nL by (simp add: word_le_nat_alt)
        then show False using none fr by (auto simp: grown_def fits_def)
      qed
      then have g: "?g = (xs @ [s]) @ [\<lparr>s_addr = heap_end h, s_len = ?L - HDR, s_free = True\<rparr>]"
        by (simp add: grown_def)
      let ?t = "\<lparr>s_addr = heap_end h, s_len = ?L - HDR, s_free = True\<rparr>"
      let ?g2 = "grown (xs @ [s]) ?t (heap_end h1) ?L"
      obtain h2 where h2: "malloc ?n h1 = malloc ?n h2" "heap_ok h2 ?g2" "heap_mem h2 = heap_mem h1"
        using malloc_grow [of h1 "xs @ [s]" ?t ?n ?n] h1(2) g r(1) n16 n2 none room e1 round_size_id [OF r(1)] by auto
      have "unat (?L - 0x10) = unat ?L - 16" using nL n16 by (subst unat_sub) (simp_all add: word_le_nat_alt)
      then have "unat (?L - 0x10 + ?L) = unat ?L - 16 + unat ?L" using room nL n16 by (subst unat_add_u32) simp_all
      then have "?n \<le> ?L - 0x10 + ?L" using nL n16 by (simp add: word_le_nat_alt)
      then have "\<exists>s \<in> set ?g2. fits ?n s" by (auto simp: grown_def fits_def)
      from malloc_found [OF h2(2) r(1) n16 this round_size_id [OF r(1)]] obtain p h'
        where "malloc ?n h2 = Some (Inr (p, h'))" "allocated ?n h2 ?g2 p h'" by blast
      moreover have "blocks ?g2 = blocks segs" using b g by (simp only: blocks_grown)
      ultimately show ?thesis using h1 h2 allocated_mono by metis
    qed
  qed
qed

section \<open>Release\<close>

lemma blocks_split:
  assumes "heap_ok h segs" "(p, len) \<in> blocks segs"
  obtains xs s ys where "segs = xs @ s # ys" "p = s_addr s + HDR" "len = s_len s" "\<not> s_free s"
    "blocks segs - {(p, len)} = blocks xs \<union> blocks ys"
proof -
  from assms(2) obtain s where s: "s \<in> set segs" "p = s_addr s + HDR" "len = s_len s" "\<not> s_free s"
    by (auto simp: blocks_def)
  then obtain xs ys where segs: "segs = xs @ s # ys" by (meson split_list)
  have "heap_wf h (xs @ s # ys)" using assms(1) segs by (simp add: heap_ok_wf)
  then have "s_addr s \<notin> s_addr ` set xs" "s_addr s \<notin> s_addr ` set ys" by (auto elim: heap_wf_at)
  then have "(p, len) \<notin> blocks xs \<union> blocks ys" using s(2) by (auto simp: blocks_def)
  then have "blocks segs - {(p, len)} = blocks xs \<union> blocks ys" using s by (auto simp: segs)
  then show ?thesis using that segs s by blast
qed

lemma free_ok:
  assumes ok: "heap_ok h segs" and p: "(p, len) \<in> blocks segs"
  shows "\<exists>h' segs'. free p h = Inr h' \<and> heap_ok h' segs' \<and> blocks segs' = blocks segs - {(p, len)} \<and>
    same_frame h h'"
  using ok p
proof (rule blocks_split)
  fix xs s ys
  assume segs: "segs = xs @ s # ys" and s: "p = s_addr s + HDR" "\<not> s_free s"
    and bl: "blocks segs - {(p, len)} = blocks xs \<union> blocks ys"
  let ?s = "s\<lparr>s_free := True\<rparr>"
  have wf: "heap_wf h (xs @ s # ys)" and adj: "no_adj_free (xs @ s # ys)" using ok segs by (simp_all add: heap_ok_wf)
  from wf obtain x where x: "s_addr s \<noteq> NULL" "hdrs h (s_addr s) = Some x" by (rule heap_wf_at)
  let ?h0 = "wr h (s_addr s) (x\<lparr>h_free := True\<rparr>)"
  have wf0: "heap_wf ?h0 (xs @ ?s # ys)" by (rule heap_wf_set_free [OF wf x(2)])
  have adjx: "no_adj_free xs" "no_adj_free ys"
    using adj by (simp_all add: no_adj_free_append) (cases ys; simp)
  obtain h1 t zs where h1: "hsh_combine_forward (s_addr s) ?h0 = Inr h1" "same_frame ?h0 h1"
    and wf1: "heap_wf h1 (xs @ t # zs)" and t: "s_addr t = s_addr s" "s_free t" "blocks zs = blocks ys"
    and zs: "no_adj_free zs" "zs = [] \<or> \<not> s_free (hd zs)"
  proof (cases "ys = [] \<or> \<not> s_free (hd ys)")
    case True
    then show ?thesis
      using that [of ?h0 ?s ys] combine_forward_skip [OF wf0] wf0 adjx by (auto simp: same_frame_def)
  next
    case False
    then obtain n zs where ys: "ys = n # zs" "s_free n" by (cases ys) auto
    then have "no_adj_free zs" "zs = [] \<or> \<not> s_free (hd zs)" using adjx(2) by (cases zs; auto)+
    then show ?thesis
      using that [of _ "?s\<lparr>s_len := s_len ?s + s_len n + HDR\<rparr>" zs] combine_forward_merges [of ?h0 xs ?s n zs] wf0 ys
      by auto
  qed
  have fr: "free p h = hsh_combine_backward (s_addr s) h1"
    using x h1(1) by (simp add: free_def Let_def s(1))
  show ?thesis
  proof (cases "xs = [] \<or> \<not> s_free (last xs)")
    case True
    have "no_adj_free (xs @ t # zs)"
      using adjx(1) zs t(2) True by (cases zs) (auto simp: no_adj_free_append)
    then have "heap_ok h1 (xs @ t # zs)" using wf1 by (simp add: heap_ok_wf)
    moreover have "free p h = Inr h1" using fr hsh_combine_backward_skip [OF wf1 True] t(1) by simp
    moreover have "blocks (xs @ t # zs) = blocks segs - {(p, len)}" using bl t by simp
    ultimately show ?thesis using h1(2) by (auto simp: same_frame_def)
  next
    case False
    then obtain us q where xs: "xs = us @ [q]" "s_free q" by (cases xs rule: rev_cases) auto
    have wf1': "heap_wf h1 (us @ q # t # zs)" using wf1 xs by simp
    from combine_forward_merges [OF wf1' t(2)] obtain h2 where
      h2: "hsh_combine_forward (s_addr q) h1 = Inr h2" "same_frame h1 h2"
      "heap_wf h2 (us @ q\<lparr>s_len := s_len q + s_len t + HDR\<rparr> # zs)" by blast
    have "no_adj_free (us @ q\<lparr>s_len := s_len q + s_len t + HDR\<rparr> # zs)"
      using adjx(1) zs xs by (cases zs) (auto simp: no_adj_free_append)
    then have "heap_ok h2 (us @ q\<lparr>s_len := s_len q + s_len t + HDR\<rparr> # zs)" using h2(3) by (simp add: heap_ok_wf)
    moreover have "free p h = Inr h2"
      using fr hsh_combine_backward_merges [OF wf1' xs(2)] h2(1) t(1) by simp
    moreover have "blocks (us @ q\<lparr>s_len := s_len q + s_len t + HDR\<rparr> # zs) = blocks segs - {(p, len)}"
      using bl t xs by simp
    ultimately show ?thesis using h1(2) h2(2) by (auto simp: same_frame_def)
  qed
qed

section \<open>Live blocks\<close>

lemma chain_unique: "chain H p a xs NULL \<Longrightarrow> chain H p a ys NULL \<Longrightarrow> xs = ys"
proof (induction xs arbitrary: p a ys)
  case Nil
  then show ?case by (cases ys) auto
next
  case (Cons x xs)
  then obtain y zs where ys: "ys = y # zs" by (cases ys) auto
  from Cons.prems(1) obtain h where h: "H a = Some h" "chain H a (h_next h) xs NULL" "s_addr x = a"
    "s_len x = h_length h" "s_free x = h_free h" unfolding chain.simps by metis
  from Cons.prems(2) [unfolded ys] obtain g where g: "H a = Some g" "chain H a (h_next g) zs NULL" "s_addr y = a"
    "s_len y = h_length g" "s_free y = h_free g" unfolding chain.simps by metis
  have gh: "g = h" using h(1) g(1) by (simp only: option.inject)
  have "xs = zs" by (rule Cons.IH [OF h(2)]) (use g(2) gh in \<open>simp only:\<close>)
  moreover have "x = y" unfolding seg_eq_iff using g(3-5) h(3-5) by (simp only: gh simp_thms)
  ultimately show ?case by (simp only: ys)
qed

text \<open>The invariant of the heap and its live blocks, without naming the list of segments.\<close>

definition heap_inv :: "heap \<Rightarrow> bool" where
  "heap_inv h \<longleftrightarrow> (\<exists>segs. heap_ok h segs)"

definition live :: "heap \<Rightarrow> (u32 \<times> u32) set" where
  "live h = (\<Union>segs \<in> {segs. heap_ok h segs}. blocks segs)"

lemma live_eq: "heap_ok h segs \<Longrightarrow> live h = blocks segs"
proof -
  assume ok: "heap_ok h segs"
  have "segs' = segs" if "heap_ok h segs'" for segs'
    using chain_unique [of "hdrs h" NULL "heap_start h" segs' segs] ok that unfolding heap_ok_def by blast
  with ok show ?thesis unfolding live_def by blast
qed

text \<open>Enough address space is left for the request, also when the heap has to grow.\<close>

definition malloc_room :: "u32 \<Rightarrow> heap \<Rightarrow> bool" where
  "malloc_room sz h \<longleftrightarrow> sz \<noteq> 0 \<and> unat sz + 0x2000 \<le> 2 ^ 32 \<and>
     unat (heap_end h) + 2 * unat (round_page (round_size sz)) < 2 ^ 32"

lemma malloc_live:
  assumes "heap_inv h" "malloc_room sz h"
  shows "\<exists>p h' len. malloc sz h = Some (Inr (p, h')) \<and> heap_inv h' \<and> sz \<le> len \<and> p \<notin> fst ` live h \<and>
    live h' = insert (p, len) (live h) \<and> heap_mem h' = heap_mem h"
proof -
  obtain segs where ok: "heap_ok h segs" using assms(1) by (auto simp: heap_inv_def)
  have sz: "sz \<noteq> 0" "unat sz + 0x2000 \<le> 2 ^ 32" "unat (heap_end h) + 2 * unat (round_page (round_size sz)) < 2 ^ 32"
    using assms(2) by (simp_all add: malloc_room_def)
  obtain p h' where m: "malloc sz h = Some (Inr (p, h'))" and a: "allocated (round_size sz) h segs p h'"
    using malloc_ok [OF ok sz] by blast
  from a obtain segs' len where s: "heap_ok h' segs'" "round_size sz \<le> len" "p \<notin> fst ` blocks segs"
    "blocks segs' = insert (p, len) (blocks segs)" "heap_mem h' = heap_mem h" by (auto simp: allocated_def)
  have "sz \<le> round_size sz" using round_size_props(2) [of sz] sz(2) by (simp add: word_le_nat_alt)
  then have "sz \<le> len" using s(2) by simp
  then show ?thesis using m s live_eq [OF ok] live_eq [OF s(1)] by (auto simp: heap_inv_def)
qed

lemma free_live:
  assumes "heap_inv h" "(p, len) \<in> live h"
  shows "\<exists>h'. free p h = Inr h' \<and> heap_inv h' \<and> live h' = live h - {(p, len)} \<and> heap_mem h' = heap_mem h"
proof -
  obtain segs where ok: "heap_ok h segs" using assms(1) by (auto simp: heap_inv_def)
  have "(p, len) \<in> blocks segs" using assms(2) live_eq [OF ok] by simp
  from free_ok [OF ok this] obtain h' segs' where h': "free p h = Inr h'" "heap_ok h' segs'"
    "blocks segs' = blocks segs - {(p, len)}" "same_frame h h'" by blast
  then have "live h' = live h - {(p, len)}" using live_eq [OF ok] live_eq [OF h'(2)] by (simp only:)
  then show ?thesis using h' by (auto simp: heap_inv_def same_frame_def)
qed

lemma contig_disjoint:
  "contig a xs e \<Longrightarrow> s \<in> set xs \<Longrightarrow> t \<in> set xs \<Longrightarrow> s_addr s \<noteq> s_addr t \<Longrightarrow>
   unat (s_addr s) + 16 + unat (s_len s) \<le> unat (s_addr t) \<or> unat (s_addr t) + 16 + unat (s_len t) \<le> unat (s_addr s)"
proof (induction xs arbitrary: a)
  case (Cons x xs)
  have later: "unat (s_addr x) + 16 + unat (s_len x) \<le> unat (s_addr u)" if "u \<in> set xs" for u
    using contig_addr [of "a + 16 + unat (s_len x)" xs e u] Cons.prems(1) that by auto
  show ?case
  proof (cases "s = x \<or> t = x")
    case True
    then show ?thesis using later Cons.prems by auto
  next
    case False
    then show ?thesis using Cons by auto
  qed
qed simp

lemma seg_data_addr:
  assumes "contig a segs (unat (e :: u32))" "s \<in> set segs"
  shows "unat (s_addr s + HDR) = unat (s_addr s) + 16"
proof -
  have "unat e < 2 ^ 32" using unsigned_less [of e, where 'a = nat] by simp
  then show ?thesis using contig_addr [OF assms] by (subst unat_add_u32) simp_all
qed

lemma live_inside:
  assumes "heap_inv h" "(p, l) \<in> live h"
  shows "unat (heap_start h) + 16 \<le> unat p \<and> unat p + unat l \<le> unat (heap_end h)"
proof -
  obtain segs where ok: "heap_ok h segs" using assms(1) by (auto simp: heap_inv_def)
  then obtain s where s: "s \<in> set segs" "p = s_addr s + HDR" "l = s_len s" using assms(2) live_eq [OF ok]
    by (auto simp: blocks_def)
  have c: "contig (unat (heap_start h)) segs (unat (heap_end h))" using ok by (simp add: heap_ok_def)
  show ?thesis using contig_addr [OF c s(1)] s(3) unfolding s(2) seg_data_addr [OF c s(1)] by simp
qed

lemma live_disjoint:
  assumes "heap_inv h" "(p, l) \<in> live h" "(q, k) \<in> live h" "p \<noteq> q"
  shows "unat p + unat l < unat q \<or> unat q + unat k < unat p"
proof -
  obtain segs where ok: "heap_ok h segs" using assms(1) by (auto simp: heap_inv_def)
  then obtain s t where s: "s \<in> set segs" "p = s_addr s + HDR" "l = s_len s"
    and t: "t \<in> set segs" "q = s_addr t + HDR" "k = s_len t" using assms(2,3) live_eq [OF ok]
    by (auto simp: blocks_def)
  have c: "contig (unat (heap_start h)) segs (unat (heap_end h))" using ok by (simp add: heap_ok_def)
  have "s_addr s \<noteq> s_addr t" using assms(4) s t by auto
  from contig_disjoint [OF c s(1) t(1) this]
  have d: "unat (s_addr s) + 16 + unat l \<le> unat (s_addr t) \<or> unat (s_addr t) + 16 + unat k \<le> unat (s_addr s)"
    using s(3) t(3) by simp
  then show ?thesis unfolding s(2) t(2) seg_data_addr [OF c s(1)] seg_data_addr [OF c t(1)] by auto
qed

section \<open>Allocators\<close>

text \<open>
  What a client of an allocator relies on, as an interface: from an initial state, requests for which
  there is room and releases of live blocks keep an invariant, and live blocks never overlap.
\<close>

datatype heap_op = Malloc u32 | Free u32

text \<open>The client's bookkeeping: the blocks it owns, with the sizes it asked for.\<close>

fun client :: "(u32 \<Rightarrow> 's \<Rightarrow> bool) \<Rightarrow> (u32 \<Rightarrow> 's \<Rightarrow> (u32 \<times> 's) option) \<Rightarrow> (u32 \<Rightarrow> 's \<Rightarrow> 's option) \<Rightarrow>
    heap_op list \<Rightarrow> (u32 \<times> u32) list \<Rightarrow> 's \<Rightarrow> ((u32 \<times> u32) list \<times> 's) option" where
  "client room get put [] own s = Some (own, s)"
| "client room get put (Malloc n # ops) own s =
     (if room n s then (case get n s of None \<Rightarrow> None | Some (p, s') \<Rightarrow> client room get put ops ((p, n) # own) s') else None)"
| "client room get put (Free p # ops) own s =
     (if p \<in> fst ` set own then (case put p s of None \<Rightarrow> None | Some s' \<Rightarrow>
        client room get put ops (filter (\<lambda>b. fst b \<noteq> p) own) s') else None)"

locale block_allocator =
  fixes inv :: "'s \<Rightarrow> bool" and live_blocks :: "'s \<Rightarrow> (u32 \<times> u32) set" and room :: "u32 \<Rightarrow> 's \<Rightarrow> bool"
    and acquire :: "u32 \<Rightarrow> 's \<Rightarrow> (u32 \<times> 's) option" and release :: "u32 \<Rightarrow> 's \<Rightarrow> 's option"
  assumes acquire_law: "inv s \<Longrightarrow> room n s \<Longrightarrow> \<exists>p s' len. acquire n s = Some (p, s') \<and> inv s' \<and> n \<le> len \<and>
      p \<notin> fst ` live_blocks s \<and> live_blocks s' = insert (p, len) (live_blocks s)"
    and release_law: "inv s \<Longrightarrow> (p, len) \<in> live_blocks s \<Longrightarrow>
      \<exists>s'. release p s = Some s' \<and> inv s' \<and> live_blocks s' = live_blocks s - {(p, len)}"
    and disjoint_law: "inv s \<Longrightarrow> (p, l) \<in> live_blocks s \<Longrightarrow> (q, k) \<in> live_blocks s \<Longrightarrow> p \<noteq> q \<Longrightarrow>
      unat p + unat l < unat q \<or> unat q + unat k < unat p"
begin

definition owns :: "(u32 \<times> u32) list \<Rightarrow> 's \<Rightarrow> bool" where
  "owns own s \<longleftrightarrow> distinct (map fst own) \<and> (\<forall>(p, n) \<in> set own. \<exists>len. n \<le> len \<and> (p, len) \<in> live_blocks s)"

lemma client_owns:
  "client room acquire release ops own s = Some (own', s') \<Longrightarrow> inv s \<Longrightarrow> owns own s \<Longrightarrow> inv s' \<and> owns own' s'"
proof (induction ops arbitrary: own s)
  case (Cons op ops)
  show ?case
  proof (cases op)
    case (Malloc n)
    with Cons.prems(1) have room: "room n s" by (auto split: if_splits)
    obtain p t len where a: "acquire n s = Some (p, t)" "inv t" "n \<le> len" "p \<notin> fst ` live_blocks s"
      "live_blocks t = insert (p, len) (live_blocks s)" using acquire_law [OF Cons.prems(2) room] by blast
    have "p \<notin> fst ` set own" using Cons.prems(3) a(4) unfolding owns_def by force
    then have "owns ((p, n) # own) t" using Cons.prems(3) a(3,5) unfolding owns_def by fastforce
    moreover have "client room acquire release ops ((p, n) # own) t = Some (own', s')"
      using Cons.prems(1) a(1) room Malloc by simp
    ultimately show ?thesis using Cons.IH a(2) by blast
  next
    case (Free p)
    with Cons.prems(1) have p: "p \<in> fst ` set own" by (auto split: if_splits)
    then obtain n where n: "(p, n) \<in> set own" by auto
    then obtain len where len: "(p, len) \<in> live_blocks s" using Cons.prems(3) unfolding owns_def by fastforce
    obtain t where t: "release p s = Some t" "inv t" "live_blocks t = live_blocks s - {(p, len)}"
      using release_law [OF Cons.prems(2) len] by blast
    have "owns (filter (\<lambda>b. fst b \<noteq> p) own) t"
      using Cons.prems(3) t(3) unfolding owns_def by (fastforce simp: distinct_map_filter)
    moreover have "client room acquire release ops (filter (\<lambda>b. fst b \<noteq> p) own) t = Some (own', s')"
      using Cons.prems(1) t(1) p Free by simp
    ultimately show ?thesis using Cons.IH t(2) by blast
  qed
qed simp

lemma client_disjoint:
  assumes "client room acquire release ops [] s = Some (own, s')" "inv s" "(p, n) \<in> set own" "(q, k) \<in> set own" "p \<noteq> q"
  shows "unat p + unat n < unat q \<or> unat q + unat k < unat p"
proof -
  have "inv s'" "owns own s'" using client_owns [OF assms(1,2)] by (auto simp: owns_def)
  moreover obtain l where "n \<le> l" "(p, l) \<in> live_blocks s'" using \<open>owns own s'\<close> assms(3) unfolding owns_def by fastforce
  moreover obtain m where "k \<le> m" "(q, m) \<in> live_blocks s'" using \<open>owns own s'\<close> assms(4) unfolding owns_def by fastforce
  ultimately show ?thesis using disjoint_law [of s' p l q m] assms(5) by (auto simp: word_le_nat_alt)
qed

end

definition heap_acquire :: "u32 \<Rightarrow> heap \<Rightarrow> (u32 \<times> heap) option" where
  "heap_acquire n h = (case malloc n h of Some (Inr r) \<Rightarrow> Some r | _ \<Rightarrow> None)"

definition heap_release :: "u32 \<Rightarrow> heap \<Rightarrow> heap option" where
  "heap_release p h = (case free p h of Inr h' \<Rightarrow> Some h' | Inl e \<Rightarrow> None)"

interpretation user_heap: block_allocator heap_inv live malloc_room heap_acquire heap_release
proof unfold_locales
  fix h :: heap and n p len l q k
  show "\<exists>p s' len. heap_acquire n h = Some (p, s') \<and> heap_inv s' \<and> n \<le> len \<and> p \<notin> fst ` live h \<and>
      live s' = insert (p, len) (live h)" if "heap_inv h" "malloc_room n h"
    using malloc_live [OF that] by (auto simp: heap_acquire_def)
  show "\<exists>s'. heap_release p h = Some s' \<and> heap_inv s' \<and> live s' = live h - {(p, len)}"
    if "heap_inv h" "(p, len) \<in> live h"
    using free_live [OF that] by (auto simp: heap_release_def)
  show "unat p + unat l < unat q \<or> unat q + unat k < unat p"
    if "heap_inv h" "(p, l) \<in> live h" "(q, k) \<in> live h" "p \<noteq> q"
    using that by (rule live_disjoint)
qed

section \<open>Properties\<close>

text \<open>
  C10. \<open>malloc\<close> returns. In a heap that satisfies the invariant and for a size for which address
  space is left, the call returns after at most two enlargements of the heap; the result is a new
  live block of at least the requested size inside the heap, no other block appears or disappears,
  user data is untouched, and the invariant holds again (segments without gaps, doubly linked, no two
  free neighbours).
\<close>

theorem malloc_allocates:
  assumes "heap_inv h" "malloc_room sz h"
  shows "\<exists>p h' len. malloc sz h = Some (Inr (p, h')) \<and> heap_inv h' \<and> sz \<le> len \<and> p \<notin> fst ` live h \<and>
    live h' = insert (p, len) (live h) \<and> heap_mem h' = heap_mem h \<and>
    unat (heap_start h') + 16 \<le> unat p \<and> unat p + unat len \<le> unat (heap_end h')"
  using malloc_live [OF assms] live_inside by fastforce

lemma initialize_heap_ok:
  assumes "heap_address \<noteq> NULL" "16 dvd unat heap_address" "0 < unat page_count"
    "unat heap_address + unat page_count * 0x1000 < 2 ^ 32"
  shows "heap_inv (initialize_heap heap_address page_count h) \<and>
    live (initialize_heap heap_address page_count h) = {} \<and>
    heap_end (initialize_heap heap_address page_count h) = heap_address + page_count * 0x1000"
proof -
  let ?h = "initialize_heap heap_address page_count h" and ?L = "page_count * 0x1000"
  let ?s = "\<lparr>s_addr = heap_address, s_len = ?L - HDR, s_free = True\<rparr>"
  have L: "unat ?L = unat page_count * 0x1000" using assms(4) by (simp add: unat_word_ariths)
  then have L16: "unat (?L - 0x10) = unat ?L - 16" using assms(3) by (subst unat_sub) (simp_all add: word_le_nat_alt)
  have e: "unat (heap_address + ?L) = unat heap_address + unat ?L" using assms(4) L by (subst unat_add_u32) simp_all
  have "16 dvd unat ?L - 16" using L by (simp add: dvd_diff_nat)
  then have ok: "heap_ok ?h [?s]"
    using assms(1-3) L L16 e by (simp add: heap_ok_def initialize_heap_def Let_def)
  then show ?thesis using live_eq [OF ok] by (auto simp: heap_inv_def initialize_heap_def Let_def)
qed

text \<open>The heap of a new process: \<open>HEAP_PAGES\<close> pages at \<open>HEAP_ADDRESS\<close>.\<close>

definition new_heap :: heap where
  "new_heap = initialize_heap 0xD0000000 0x10 \<lparr>hdrs = Map.empty, heap_start = 0, heap_end = 0, last_hdr = 0, heap_mem = (\<lambda>_. 0)\<rparr>"

lemma new_heap_ok: "heap_inv new_heap" "live new_heap = {}" "heap_end new_heap = 0xD0010000"
  unfolding new_heap_def by (subst initialize_heap_ok | simp)+

theorem malloc_allocates_witness:
  "\<exists>p h' len. malloc 100 new_heap = Some (Inr (p, h')) \<and> 100 \<le> len \<and> live h' = {(p, len)}"
proof -
  have "malloc_room 100 new_heap"
    by (simp add: malloc_room_def new_heap_ok round_size_def round_page_def)
  from malloc_allocates [OF new_heap_ok(1) this] show ?thesis by (auto simp: new_heap_ok)
qed

text \<open>
  C12. \<open>free\<close> of a live block returns and removes exactly that block from the live blocks,
  coalescing its segment with free neighbours so that the invariant holds again.
\<close>

theorem free_releases:
  assumes "heap_inv h" "(p, len) \<in> live h"
  shows "\<exists>h'. free p h = Inr h' \<and> heap_inv h' \<and> live h' = live h - {(p, len)} \<and> heap_mem h' = heap_mem h"
  using assms by (rule free_live)

theorem free_releases_witness:
  "\<exists>p h1 h2. malloc 100 new_heap = Some (Inr (p, h1)) \<and> free p h1 = Inr h2 \<and> live h2 = {}"
proof -
  have "malloc_room 100 new_heap"
    by (simp add: malloc_room_def new_heap_ok round_size_def round_page_def)
  from malloc_live [OF new_heap_ok(1) this] obtain p h1 len where
    h1: "malloc 100 new_heap = Some (Inr (p, h1))" "heap_inv h1" "live h1 = {(p, len)}" by (auto simp: new_heap_ok)
  from free_releases [OF h1(2), of p len] h1 show ?thesis by auto
qed

text \<open>
  C14. Memory safety of a client. Start from any heap that satisfies the invariant and run any sequence of
  \<open>malloc\<close> requests (for which there is room) and of \<open>free\<close>s of blocks the client owns:
  two different blocks the client owns at the end never overlap, for the full requested sizes.
\<close>

theorem heap_client_disjoint:
  assumes "client malloc_room heap_acquire heap_release ops [] h = Some (own, h')" "heap_inv h"
    and "(p, n) \<in> set own" "(q, k) \<in> set own" "p \<noteq> q"
  shows "unat p + unat n < unat q \<or> unat q + unat k < unat p"
  using assms by (rule user_heap.client_disjoint)

lemmas heap_eval = initialize_heap_def rd_def wr_def hsh_split_def Let_def round_size_def

lemma two_mallocs:
  "\<exists>h2. client malloc_room heap_acquire heap_release [Malloc 16, Malloc 32] [] new_heap =
     Some ([(0xD0000030, 32), (0xD0000010, 16)], h2)"
proof -
  let ?h0 = "\<lparr>hdrs = Map.empty, heap_start = 0, heap_end = 0, last_hdr = 0, heap_mem = (\<lambda>_. 0)\<rparr>"
  define h1 where "h1 = ?h0\<lparr>heap_start := 0xD0000000, heap_end := 0xD0010000, last_hdr := 0xD0000020,
     hdrs := [0xD0000020 \<mapsto> \<lparr>h_length = 0xFFD0, h_next = NULL, h_last = 0xD0000000, h_free = True\<rparr>,
              0xD0000000 \<mapsto> \<lparr>h_length = 0x10, h_next = 0xD0000020, h_last = NULL, h_free = False\<rparr>]\<rparr>"
  have "malloc_scan 16 (heap_start new_heap) new_heap = Some (Inr (Some (0xD0000010, h1)))"
    unfolding new_heap_def by (subst malloc_scan.simps) (simp add: heap_eval h1_def fun_upd_twist)
  then have m1: "heap_acquire 16 new_heap = Some (0xD0000010, h1)"
    by (simp add: heap_acquire_def malloc.simps [of 16 new_heap] round_size_def Let_def)
  have r1: "malloc_room 16 new_heap" by (simp add: malloc_room_def new_heap_ok round_size_def round_page_def)
  have "malloc_scan 32 0xD0000000 h1 = malloc_scan 32 0xD0000020 h1"
    unfolding h1_def by (subst malloc_scan.simps) (simp add: rd_def)
  moreover have "\<exists>h2. malloc_scan 32 0xD0000020 h1 = Some (Inr (Some (0xD0000030, h2)))"
    unfolding h1_def by (subst malloc_scan.simps) (simp add: heap_eval)
  ultimately obtain h2 where "malloc_scan 32 (heap_start h1) h1 = Some (Inr (Some (0xD0000030, h2)))"
    by (auto simp: h1_def)
  then have m2: "heap_acquire 32 h1 = Some (0xD0000030, h2)"
    by (simp add: heap_acquire_def malloc.simps [of 32 h1] round_size_def Let_def)
  have r2: "malloc_room 32 h1" by (simp add: malloc_room_def h1_def round_size_def round_page_def)
  show ?thesis using m1 r1 m2 r2 by simp
qed

theorem heap_client_disjoint_witness:
  "\<exists>h2. client malloc_room heap_acquire heap_release [Malloc 16, Malloc 32] [] new_heap =
     Some ([(0xD0000030, 32), (0xD0000010, 16)], h2) \<and>
   (unat (0xD0000030 :: u32) + unat (32 :: u32) < unat (0xD0000010 :: u32) \<or>
    unat (0xD0000010 :: u32) + unat (16 :: u32) < unat (0xD0000030 :: u32))"
proof -
  obtain h2 where c: "client malloc_room heap_acquire heap_release [Malloc 16, Malloc 32] [] new_heap =
     Some ([(0xD0000030, 32), (0xD0000010, 16)], h2)" using two_mallocs by blast
  from heap_client_disjoint [OF c new_heap_ok(1), of "0xD0000030" 32 "0xD0000010" 16] c show ?thesis by auto
qed

end
