(* ===== verification/NetBytes.thy ===== *)
theory NetBytes
  imports Prelude
begin

text \<open>
  Bytes on the wire: the macros \<open>BSWAP16\<close> and \<open>BSWAP32\<close> of \<open>mckrnl/include/net/stack.h\<close>,
  little-endian fields of packed structures read from and written to a packet (a list of bytes), and
  the checksum of \<open>mckrnl/net/ipv4.c\<close>.
\<close>

section \<open>Definitions\<close>

definition BSWAP16 :: "u16 \<Rightarrow> u16" where
  "BSWAP16 n = push_bit 8 (n AND 0x00FF) OR drop_bit 8 (n AND 0xFF00)"

definition BSWAP32 :: "u32 \<Rightarrow> u32" where
  "BSWAP32 n = drop_bit 24 (n AND 0xFF000000) OR drop_bit 8 (n AND 0x00FF0000) OR
     push_bit 8 (n AND 0x0000FF00) OR push_bit 24 (n AND 0x000000FF)"

text \<open>Fields of packed structures at a byte offset, least significant byte first.\<close>

definition get16 :: "u8 list \<Rightarrow> nat \<Rightarrow> u16" where
  "get16 bs i = ucast (bs ! i) OR push_bit 8 (ucast (bs ! (i + 1)))"

definition get32 :: "u8 list \<Rightarrow> nat \<Rightarrow> u32" where
  "get32 bs i = ucast (bs ! i) OR push_bit 8 (ucast (bs ! (i + 1))) OR
     push_bit 16 (ucast (bs ! (i + 2))) OR push_bit 24 (ucast (bs ! (i + 3)))"

definition get48 :: "u8 list \<Rightarrow> nat \<Rightarrow> u64" where
  "get48 bs i = ucast (get32 bs i) OR push_bit 32 (ucast (get16 bs (i + 4)))"

definition put16 :: "u16 \<Rightarrow> u8 list" where
  "put16 v = [ucast v, ucast (drop_bit 8 v)]"

definition put32 :: "u32 \<Rightarrow> u8 list" where
  "put32 v = [ucast v, ucast (drop_bit 8 v), ucast (drop_bit 16 v), ucast (drop_bit 24 v)]"

definition put48 :: "u64 \<Rightarrow> u8 list" where
  "put48 v = put32 (ucast v) @ put16 (ucast (drop_bit 32 v))"

text \<open>
  \<open>ipv4_checksum\<close>. The words are read little-endian and swapped; an odd last byte is read as a
  (signed) \<open>char\<close>, converted to \<open>uint16_t\<close> and shifted as an \<open>int\<close>. The sum and the folding loop
  are 32-bit.
\<close>

primrec checksum_loop :: "u8 list \<Rightarrow> nat \<Rightarrow> nat \<Rightarrow> u32 \<Rightarrow> u32" where
  "checksum_loop data i 0 temp = temp"
| "checksum_loop data i (Suc n) temp =
     (let d = (ucast (get16 data (2 * i)) :: u32)
      in checksum_loop data (Suc i) n
           (temp + (drop_bit 8 (d AND 0xFF00) OR push_bit 8 (d AND 0x00FF))))"

function checksum_fold :: "u32 \<Rightarrow> u32" where
  "checksum_fold temp =
     (if temp AND 0xFFFF0000 \<noteq> 0 then checksum_fold ((temp AND 0xFFFF) + drop_bit 16 temp) else temp)"
  by pat_completeness auto

lemma low16: "(w :: u32) AND 0xFFFF = take_bit 16 w"
  using take_bit_eq_mask [of 16 w] by (simp add: mask_eq_exp_minus_1)

lemma unat_low16: "unat ((w :: u32) AND 0xFFFF) = unat w mod 65536"
  unfolding low16 by (simp add: take_bit_eq_mod unat_mod)

lemma unat_drop16: "unat (drop_bit 16 (w :: u32)) = unat w div 65536"
  by (simp add: drop_bit_eq_div unat_div)

lemma split16: "(w :: u32) = (w AND 0xFFFF) OR (w AND 0xFFFF0000)"
proof -
  have "(0xFFFF0000 :: u32) = NOT 0xFFFF" by simp
  moreover have "w = (w AND 0xFFFF) OR (w AND NOT 0xFFFF)"
    by (rule bit_word_eqI) (auto simp only: bit_or_iff bit_and_iff bit_not_iff possible_bit_word)
  ultimately show ?thesis by (simp only:)
qed

lemma high16: "(w :: u32) AND 0xFFFF0000 \<noteq> 0 \<longleftrightarrow> 65536 \<le> unat w"
proof
  assume ne: "w AND 0xFFFF0000 \<noteq> 0"
  show "65536 \<le> unat w"
  proof (rule ccontr)
    assume "\<not> 65536 \<le> unat w"
    then have "unat (w AND 0xFFFF) = unat w" by (simp add: unat_low16)
    then have "w AND 0xFFFF = w" by (simp only: word_unat_eq_iff)
    then have "w AND 0xFFFF0000 = (w AND 0xFFFF) AND 0xFFFF0000" by simp
    also have "\<dots> = 0" by (simp add: and.assoc)
    finally show False using ne by simp
  qed
next
  assume le: "65536 \<le> unat w"
  show "w AND 0xFFFF0000 \<noteq> 0"
  proof
    assume "w AND 0xFFFF0000 = 0"
    then have "w = w AND 0xFFFF" using split16 [of w] by simp
    then have "unat w = unat w mod 65536" by (metis unat_low16)
    then show False using le by (metis mod_less_divisor not_less zero_less_numeral)
  qed
qed
termination checksum_fold
proof (relation "measure unat")
  fix t :: u32
  assume "t AND 0xFFFF0000 \<noteq> 0"
  then have "65536 \<le> unat t" by (simp only: high16)
  moreover have "unat ((t AND 0xFFFF) + drop_bit 16 t) \<le> unat t mod 65536 + unat t div 65536"
    by (simp only: unat_word_ariths unat_low16 unat_drop16 mod_less_eq_dividend)
  moreover have "unat t mod 65536 + unat t div 65536 < unat t"
    using div_mult_mod_eq [of "unat t" 65536] \<open>65536 \<le> unat t\<close> by (cases "unat t div 65536") simp_all
  ultimately show "((t AND 0xFFFF) + drop_bit 16 t, t) \<in> measure unat" by simp
qed simp


declare checksum_fold.simps [simp del]

definition ipv4_checksum :: "u8 list \<Rightarrow> u32 \<Rightarrow> u16" where
  "ipv4_checksum data sz =
     (let temp = checksum_loop data 0 (unat (sz div 2)) 0;
          temp = (if sz mod 2 \<noteq> 0
                  then temp + push_bit 8 (ucast (scast (data ! (unat sz - 1)) :: u16) :: u32) else temp);
          temp = checksum_fold temp
      in ucast (drop_bit 8 (NOT temp AND 0xFF00) OR push_bit 8 (NOT temp AND 0x00FF)))"

section \<open>The checksum\<close>

text \<open>The sum of the big-endian 16-bit words of a packet; an odd last byte is padded with 0.\<close>

fun be_sum :: "u8 list \<Rightarrow> nat" where
  "be_sum (a # b # xs) = 256 * unat a + unat b + be_sum xs"
| "be_sum [a] = 256 * unat a"
| "be_sum [] = 0"

lemma be_sum_append: "even (length xs) \<Longrightarrow> be_sum (xs @ ys) = be_sum xs + be_sum ys"
  by (induction xs rule: be_sum.induct) auto

lemma u8_less: "unat (b :: u8) < 256"
  using unsigned_less [of b, where 'a = nat] by simp

lemma be_sum_le: "be_sum xs \<le> 65535 * ((length xs + 1) div 2)"
proof (induction xs rule: be_sum.induct)
  case (1 a b xs)
  then show ?case using u8_less [of a] u8_less [of b] by simp
next
  case (2 a)
  then show ?case using u8_less [of a] by simp
qed simp

lemma bswap_word:
  fixes a b :: u8
  defines "d \<equiv> (ucast (ucast a OR push_bit 8 (ucast b) :: u16) :: u32)"
  shows "unat (drop_bit 8 (d AND 0xFF00) OR push_bit 8 (d AND 0x00FF)) = 256 * unat a + unat b"
proof -
  have "drop_bit 8 (d AND 0xFF00) OR push_bit 8 (d AND 0x00FF) = ucast b OR push_bit 8 (ucast a)"
  proof (rule bit_word_eqI)
    fix n :: nat assume "n < LENGTH(32)"
    have m: "(0xFF00 :: u32) = push_bit 8 (mask 8)" "(0x00FF :: u32) = mask 8"
      by (simp_all add: mask_eq_exp_minus_1 push_bit_eq_mult)
    have out: "\<not> bit x j" if "8 \<le> j" for j and x :: u8
      using bit_imp_le_length [of x j] that by auto
    show "bit (drop_bit 8 (d AND 0xFF00) OR push_bit 8 (d AND 0x00FF)) n =
        bit (ucast b OR push_bit 8 (ucast a) :: u32) n"
      unfolding d_def m bit_or_iff bit_and_iff bit_drop_bit_eq bit_push_bit_iff bit_unsigned_iff bit_mask_iff comp_def
      using \<open>n < LENGTH(32)\<close> by (cases "n < 8"; cases "n < 16") (auto simp: out)
  qed
  also have "\<dots> = ucast b + push_bit 8 (ucast a)"
  proof (rule disjunctive_add [symmetric])
    fix n
    show "\<not> bit (ucast b :: u32) n \<or> \<not> bit (push_bit 8 (ucast a) :: u32) n"
      using bit_imp_le_length [of b n] by (auto simp: bit_unsigned_iff bit_push_bit_iff)
  qed
  also have "unat \<dots> = unat b + 256 * unat a"
    using u8_less [of a] u8_less [of b]
    by (simp add: push_bit_eq_mult unat_word_ariths unsigned_ucast_eq take_bit_nat_eq_self)
  finally show ?thesis by simp
qed

lemma be_sum_pairs: "even (length xs) \<Longrightarrow> xs \<noteq> [] \<Longrightarrow>
    be_sum xs = 256 * unat (xs ! 0) + unat (xs ! 1) + be_sum (drop 2 xs)"
  by (cases xs rule: be_sum.cases) auto

lemma checksum_loop_sum:
  "2 * (i + n) \<le> length data \<Longrightarrow> unat temp + 65535 * n < 2 ^ 32 \<Longrightarrow>
   unat (checksum_loop data i n temp) = unat temp + be_sum (take (2 * n) (drop (2 * i) data))"
proof (induction n arbitrary: i temp)
  case (Suc n)
  let ?a = "data ! (2 * i)" and ?b = "data ! (2 * i + 1)"
  define w where "w = drop_bit 8 ((ucast (get16 data (2 * i)) :: u32) AND 0xFF00) OR
    push_bit 8 ((ucast (get16 data (2 * i)) :: u32) AND 0x00FF)"
  have w: "unat w = 256 * unat ?a + unat ?b"
    using bswap_word [of ?a ?b] by (simp only: w_def get16_def)
  have "unat w \<le> 65535" using w u8_less [of ?a] u8_less [of ?b] by simp
  then have t: "unat (temp + w) = unat temp + unat w" using Suc.prems(2) by (intro unat_add_u32) simp
  have "unat (checksum_loop data (Suc i) n (temp + w)) =
      unat (temp + w) + be_sum (take (2 * n) (drop (2 * Suc i) data))"
    by (rule Suc.IH) (use Suc.prems t \<open>unat w \<le> 65535\<close> in simp_all)
  moreover have "take (2 * Suc n) (drop (2 * i) data) = ?a # ?b # take (2 * n) (drop (2 * Suc i) data)"
    using Suc.prems(1) by (simp add: Cons_nth_drop_Suc [symmetric] numeral_2_eq_2)
  moreover have "checksum_loop data i (Suc n) temp = checksum_loop data (Suc i) n (temp + w)"
    by (simp only: checksum_loop.simps Let_def w_def)
  ultimately show ?case using t w by simp
qed simp

text \<open>The folding loop keeps the sum modulo 65535, and only yields 0 for 0.\<close>

lemma checksum_fold_mod:
  "unat (checksum_fold t) < 65536 \<and> unat (checksum_fold t) mod 65535 = unat t mod 65535 \<and>
   (checksum_fold t = 0 \<longleftrightarrow> t = 0)"
proof (induction t rule: checksum_fold.induct)
  case (1 t)
  show ?case
  proof (cases "t AND 0xFFFF0000 = 0")
    case True
    then have "checksum_fold t = t" "unat t < 65536" using high16 [of t] by (subst checksum_fold.simps, auto)
    then show ?thesis by simp
  next
    case False
    let ?u = "(t AND 0xFFFF) + drop_bit 16 t"
    have u: "unat ?u = unat t mod 65536 + unat t div 65536"
    proof -
      have "unat t < 2 ^ 32" using unsigned_less [of t, where 'a = nat] by simp
      then have "unat t div 65536 < 65536" by (simp add: less_mult_imp_div_less)
      then have "unat t mod 65536 + unat t div 65536 < 2 ^ 32"
        using mod_less_divisor [of 65536 "unat t"] by simp
      then show ?thesis by (simp only: unat_add_u32 unat_low16 unat_drop16)
    qed
    have "unat t = unat ?u + 65535 * (unat t div 65536)"
      using div_mult_mod_eq [of "unat t" 65536] u by simp
    then have "unat ?u mod 65535 = unat t mod 65535" by (metis mod_mult_self2)
    moreover have "?u = 0 \<longleftrightarrow> t = 0"
    proof
      assume "?u = 0"
      then have "unat t div 65536 = 0" using u by (simp add: word_unat_eq_iff [of ?u])
      then show "t = 0" using high16 [of t] False by (simp add: div_eq_0_iff)
    qed simp
    moreover have "checksum_fold t = checksum_fold ?u" using False by (subst checksum_fold.simps) simp
    ultimately show ?thesis using 1 [OF False] by simp
  qed
qed

lemma u16_bytes: "256 * unat (ucast (drop_bit 8 h) :: u8) + unat (ucast h :: u8) = unat (h :: u16)"
proof -
  have "unat h < 65536" using unsigned_less [of h, where 'a = nat] by simp
  then have d: "unat h div 256 < 256" by (simp add: less_mult_imp_div_less)
  have "unat (ucast (drop_bit 8 h) :: u8) = unat h div 256"
    using d by (simp add: unsigned_ucast_eq unat_drop_bit_eq drop_bit_eq_div unat_div take_bit_nat_eq_self)
  moreover have "unat (ucast h :: u8) = unat h mod 256" by (simp add: unsigned_ucast_eq take_bit_eq_mod)
  ultimately show ?thesis by simp
qed

lemma swap_not_bytes:
  fixes f :: u32
  assumes "unat f < 65536"
  defines "c \<equiv> (ucast (drop_bit 8 (NOT f AND 0xFF00) OR push_bit 8 (NOT f AND 0x00FF)) :: u16)"
  shows "256 * unat (ucast c :: u8) + unat (ucast (drop_bit 8 c) :: u8) = 65535 - unat f"
proof -
  define g where "g = (ucast f :: u16)"
  have m: "(0xFF00 :: u32) = push_bit 8 (mask 8)" "(0x00FF :: u32) = mask 8"
    by (simp_all add: mask_eq_exp_minus_1 push_bit_eq_mult)
  have g: "unat g = unat f" using assms(1) by (simp add: g_def unsigned_ucast_eq take_bit_nat_eq_self)
  have ng: "unat (NOT g) = 65535 - unat g"
  proof -
    have "NOT g = - 1 - g" by (simp add: not_eq_complement)
    moreover have "g \<le> - 1" by simp
    ultimately show ?thesis by (simp only: unat_sub) (simp add: unsigned_minus_1_eq_mask mask_eq_exp_minus_1)
  qed
  have "(ucast c :: u8) = ucast (drop_bit 8 (NOT g))"
  proof (rule bit_word_eqI)
    fix n :: nat assume "n < LENGTH(8)"
    then show "bit (ucast c :: u8) n = bit (ucast (drop_bit 8 (NOT g)) :: u8) n"
      unfolding c_def g_def m by (simp add: bit_simps)
  qed
  moreover have "(ucast (drop_bit 8 c) :: u8) = ucast (NOT g)"
  proof (rule bit_word_eqI)
    fix n :: nat assume "n < LENGTH(8)"
    then show "bit (ucast (drop_bit 8 c) :: u8) n = bit (ucast (NOT g) :: u8) n"
      unfolding c_def g_def m by (simp add: bit_simps)
  qed
  ultimately show ?thesis using u16_bytes [of "NOT g"] ng g by simp
qed

text \<open>The checksum of an even number of bytes, as two bytes in transmission order.\<close>

lemma ipv4_checksum_even:
  assumes "even (length data)" "length data < 131072" and n: "n = of_nat (length data)"
  obtains f :: u32 where "unat f < 65536" "unat f mod 65535 = be_sum data mod 65535"
    "f = 0 \<longleftrightarrow> be_sum data = 0" "be_sum (put16 (ipv4_checksum data n)) = 65535 - unat f"
proof -
  let ?n = "of_nat (length data) :: u32"
  have un: "unat ?n = length data" using assms(2) by simp
  have half: "unat (?n div 2) = length data div 2" by (simp only: unat_div un) simp
  have "even (unat ?n)" using un assms(1) by simp
  then have "unat (?n mod 2) = 0" by (simp only: unat_mod) (simp add: mod_0_imp_dvd even_iff_mod_2_eq_zero)
  then have ev: "?n mod 2 = 0" by (simp add: unat_eq_0)
  define S where "S = checksum_loop data 0 (length data div 2) 0"
  have S: "unat S = be_sum data"
    using checksum_loop_sum [of 0 "length data div 2" data 0] assms by (simp add: S_def)
  define f where "f = checksum_fold S"
  have f: "unat f < 65536" "unat f mod 65535 = be_sum data mod 65535" "f = 0 \<longleftrightarrow> be_sum data = 0"
    using checksum_fold_mod [of S] S by (simp_all add: f_def word_unat_eq_iff)
  have "ipv4_checksum data ?n = ucast (drop_bit 8 (NOT f AND 0xFF00) OR push_bit 8 (NOT f AND 0x00FF))"
    by (simp only: ipv4_checksum_def Let_def half ev S_def f_def if_False simp_thms)
  then have "be_sum (put16 (ipv4_checksum data ?n)) = 65535 - unat f"
    using swap_not_bytes [OF f(1)] by (simp only: put16_def be_sum.simps add_0_right)
  then show ?thesis by (intro that [OF f]) (simp only: n)
qed

lemma mod_65535_top: "unat (f :: u32) < 65536 \<Longrightarrow> unat f mod 65535 = 0 \<Longrightarrow> f \<noteq> 0 \<Longrightarrow> unat f = 65535"
proof -
  assume a: "unat f < 65536" "unat f mod 65535 = 0" "f \<noteq> 0"
  then obtain q where q: "unat f = 65535 * q" by (metis mod_0_imp_dvd dvdE)
  moreover have "q \<noteq> 0" using a(3) q unat_eq_0 [of f] by (cases q) auto
  ultimately show ?thesis using a(1) by (cases q) auto
qed

lemma checksum_selfcheck:
  assumes "even (length pre)" "even (length post)" "length pre + length post + 2 < 131072"
  shows "let n = of_nat (length pre + length post + 2);
             c = ipv4_checksum (pre @ [0, 0] @ post) n
         in ipv4_checksum (pre @ put16 c @ post) n = 0"
proof -
  let ?d = "pre @ [0, 0] @ post" and ?n = "of_nat (length pre + length post + 2) :: u32"
  define c where "c = ipv4_checksum ?d ?n"
  let ?e = "pre @ put16 c @ post"
  have len: "of_nat (length ?d) = ?n" "of_nat (length ?e) = ?n" by (simp_all add: put16_def)
  have ev: "even (length ?d)" "even (length ?e)" "length ?d < 131072" "length ?e < 131072"
    using assms by (simp_all add: put16_def)
  obtain f :: u32 where f: "unat f < 65536" "unat f mod 65535 = be_sum ?d mod 65535" "f = 0 \<longleftrightarrow> be_sum ?d = 0"
    "be_sum (put16 c) = 65535 - unat f" unfolding c_def by (rule ipv4_checksum_even [OF ev(1,3) len(1) [symmetric]])
  obtain g :: u32 where g: "unat g < 65536" "unat g mod 65535 = be_sum ?e mod 65535" "g = 0 \<longleftrightarrow> be_sum ?e = 0"
    "be_sum (put16 (ipv4_checksum ?e ?n)) = 65535 - unat g" by (rule ipv4_checksum_even [OF ev(2,4) len(2) [symmetric]])
  have sums: "be_sum ?d = be_sum pre + be_sum post" "be_sum ?e = be_sum pre + be_sum (put16 c) + be_sum post"
    using assms by (simp_all add: be_sum_append put16_def)
  have e: "be_sum ?e + unat f = be_sum ?d + 65535" using sums f(1,4) by simp
  have "be_sum ?e mod 65535 = 0"
  proof -
    have "(be_sum ?e + unat f) mod 65535 = unat f mod 65535" unfolding e f(2) by simp
    then have "65535 dvd be_sum ?e + unat f - unat f" by (subst mod_eq_dvd_iff_nat [symmetric]) simp_all
    then show ?thesis by simp
  qed
  moreover have "be_sum ?e \<noteq> 0"
    using e f by (cases "be_sum ?d = 0") auto
  ultimately have "unat g = 65535" using g(1,2,3) by (intro mod_65535_top) auto
  then have "be_sum (put16 (ipv4_checksum ?e ?n)) = 0" using g(4) by simp
  then have "ucast (ipv4_checksum ?e ?n) = (0 :: u8)" "ucast (drop_bit 8 (ipv4_checksum ?e ?n)) = (0 :: u8)"
    by (simp_all add: put16_def unat_eq_0)
  then have "unat (ipv4_checksum ?e ?n) = 0" using u16_bytes [of "ipv4_checksum ?e ?n"] by simp
  then show ?thesis by (simp add: Let_def c_def unat_eq_0)
qed

section \<open>Properties\<close>

text \<open>
  C15. The internet checksum verifies. Take any packet of even length whose 16-bit checksum field, at an even
  offset, is zero, and store into the field what \<open>ipv4_checksum\<close> computes: computing the checksum of
  the result gives 0, the test of every receiver. The folding loop terminates on every sum.
\<close>

theorem ipv4_checksum_verifies:
  assumes "even (length pre)" "even (length post)" "length pre + length post + 2 < 131072"
  shows "let n = of_nat (length pre + length post + 2);
             c = ipv4_checksum (pre @ [0, 0] @ post) n
         in ipv4_checksum (pre @ put16 c @ post) n = 0"
  using assms by (rule checksum_selfcheck)

theorem ipv4_checksum_verifies_witness:
  "ipv4_checksum ([0x45, 0, 0, 28] @ put16 (ipv4_checksum ([0x45, 0, 0, 28] @ [0, 0] @ [0xc0, 0xa8]) 8) @ [0xc0, 0xa8]) 8 = 0"
  using ipv4_checksum_verifies [of "[0x45, 0, 0, 28]" "[0xc0, 0xa8]"] by (simp add: Let_def)

text \<open>
  The odd last byte is sign-extended before it is added, so a packet of odd length whose last byte is
  \<open>0x80\<close> or more gets a wrong checksum. For the single byte \<open>0x80\<close> the value sent is
  \<open>0x7F00\<close>; the complement of the padded sum is \<open>0x7FFF\<close>.
\<close>

lemma ipv4_checksum_odd_wrong:
  "be_sum (put16 (ipv4_checksum [0x80] 1)) = 0x7F00" "65535 - be_sum [0x80] = 0x7FFF"
proof -
  have "checksum_fold 0xFF8000 = 0x80FF"
    by (subst checksum_fold.simps, subst checksum_fold.simps) simp
  then have "ipv4_checksum [0x80] 1 = 0x007F"
    by (simp add: ipv4_checksum_def Let_def)
  then show "be_sum (put16 (ipv4_checksum [0x80] 1)) = 0x7F00" by (simp add: put16_def)
qed simp

section \<open>Fields and byte order\<close>

lemma put_lengths [simp]: "length (put16 v) = 2" "length (put32 w) = 4" "length (put48 x) = 6"
  by (simp_all add: put16_def put32_def put48_def)

lemma get16_put16 [simp]: "i = length xs \<Longrightarrow> get16 (xs @ put16 v @ ys) i = v"
proof -
  have "(ucast (ucast v :: u8) OR push_bit 8 (ucast (ucast (drop_bit 8 v) :: u8)) :: u16) = v"
    by (rule bit_word_eqI) (auto simp: bit_simps)
  then show "i = length xs \<Longrightarrow> get16 (xs @ put16 v @ ys) i = v"
    by (simp add: get16_def put16_def nth_append)
qed

lemma get32_put32 [simp]: "i = length xs \<Longrightarrow> get32 (xs @ put32 v @ ys) i = v"
proof -
  have "(ucast (ucast v :: u8) OR push_bit 8 (ucast (ucast (drop_bit 8 v) :: u8)) OR
    push_bit 16 (ucast (ucast (drop_bit 16 v) :: u8)) OR push_bit 24 (ucast (ucast (drop_bit 24 v) :: u8)) :: u32) = v"
  proof (rule bit_word_eqI)
    fix n :: nat assume "n < LENGTH(32)"
    then have "n < 32" by simp
    then show "bit (ucast (ucast v :: u8) OR push_bit 8 (ucast (ucast (drop_bit 8 v) :: u8)) OR
      push_bit 16 (ucast (ucast (drop_bit 16 v) :: u8)) OR
      push_bit 24 (ucast (ucast (drop_bit 24 v) :: u8)) :: u32) n = bit v n"
      unfolding bit_or_iff bit_push_bit_iff bit_unsigned_iff bit_drop_bit_eq comp_def
      by (cases "n < 24"; cases "n < 16"; cases "n < 8") auto
  qed
  then show "i = length xs \<Longrightarrow> get32 (xs @ put32 v @ ys) i = v"
    by (simp add: get32_def put32_def nth_append)
qed

lemma BSWAP16_BSWAP16 [simp]: "BSWAP16 (BSWAP16 n) = n"
proof (rule bit_word_eqI)
  have m: "(0xFF00 :: u16) = push_bit 8 (mask 8)" "(0x00FF :: u16) = mask 8"
    by (simp_all add: mask_eq_exp_minus_1 push_bit_eq_mult)
  fix k :: nat assume "k < LENGTH(16)"
  then show "bit (BSWAP16 (BSWAP16 n)) k = bit n k"
    unfolding BSWAP16_def m by (cases "k < 8") (auto simp: bit_simps)
qed

lemma put16_BSWAP16: "put16 (BSWAP16 n) = rev (put16 n)"
proof -
  have m: "(0xFF00 :: u16) = push_bit 8 (mask 8)" "(0x00FF :: u16) = mask 8"
    by (simp_all add: mask_eq_exp_minus_1 push_bit_eq_mult)
  have "(ucast (BSWAP16 n) :: u8) = ucast (drop_bit 8 n)"
    unfolding BSWAP16_def m by (rule bit_word_eqI) (auto simp: bit_simps)
  moreover have "(ucast (drop_bit 8 (BSWAP16 n)) :: u8) = ucast n"
    unfolding BSWAP16_def m by (rule bit_word_eqI) (auto simp: bit_simps)
  ultimately show ?thesis by (simp add: put16_def)
qed

end
