(* ===== verification/Panic.thy ===== *)
theory Panic
  imports Prelude
begin

text \<open>
  The kernel panic, \<open>abortf_intrnl\<close> of \<open>mckrnl/utils/stdio.c\<close>, as built with
  \<open>ALLOW_PANIC_CONTINUE\<close>: after printing the message the kernel reads the serial line until
  the operator sends \<open>x\<close> (the call returns 0 and execution goes on) or \<open>h\<close> (the machine
  halts). Every operation that can panic takes the operator's answer as an argument, so both
  continuations are part of the model.
\<close>

datatype panic_key = KeyX | KeyH

text \<open>The loop over the bytes of the serial line; \<open>None\<close>: neither key was sent so far.\<close>

fun abortf_wait :: "u8 list \<Rightarrow> panic_key option" where
  "abortf_wait [] = None"
| "abortf_wait (c # cs) =
     (if c = 0x78 then Some KeyX else if c = 0x68 then Some KeyH else abortf_wait cs)"

definition abortf :: "panic_key \<Rightarrow> u32 res" where
  "abortf k = (case k of KeyX \<Rightarrow> Inr 0 | KeyH \<Rightarrow> Inl Halted)"

lemma abortf_simps [simp, res_simps]: "abortf KeyX = Inr 0" "abortf KeyH = Inl Halted"
  by (simp_all add: abortf_def)

lemma abortf_wait_Some:
  "abortf_wait cs = Some k \<Longrightarrow>
   \<exists>pre c post. cs = pre @ c # post \<and> set pre \<inter> {0x78, 0x68} = {} \<and> c = (if k = KeyX then 0x78 else 0x68)"
proof (induction cs)
  case (Cons a cs)
  show ?case
  proof (cases "a = 0x78 \<or> a = 0x68")
    case True
    with Cons.prems show ?thesis by (intro exI [of _ "[]"]) (auto split: if_splits)
  next
    case False
    with Cons obtain pre c post where "cs = pre @ c # post" "set pre \<inter> {0x78, 0x68} = {}"
      "c = (if k = KeyX then 0x78 else 0x68)" by auto
    with False show ?thesis by (intro exI [of _ "a # pre"] exI [of _ c] exI [of _ post]) auto
  qed
qed simp

end
