(* ===== verification/Net.thy ===== *)
theory Net
  imports NetBytes Panic
begin

text \<open>
  The lower layers of the network stack: \<open>mckrnl/net/etherframe.c\<close>, \<open>arp.c\<close>, \<open>ipv4.c\<close> and
  \<open>icmp.c\<close>. \<open>net\<close> is the stack's state. A packet is a list of bytes; \<open>nic_sent\<close> is the log of
  the frames handed to the network card's \<open>send\<close>. The buffers the code allocates for a packet and frees again
  are not part of the state. Handlers are registered as values of the types \<open>eth_recv\<close> and
  \<open>ip_recv\<close>, one constructor per receive function of the stack. While the code sleeps in
  \<open>NET_TIMEOUT\<close>, interrupts may receive packets: the argument \<open>env\<close> lists what happens to
  the stack during each of the sleeps.
\<close>

section \<open>State\<close>

datatype eth_recv = ArpRecv | Ipv4Recv
datatype ip_recv = IcmpRecv | UdpRecv | TcpRecv

text \<open>The receive callbacks of sockets: none, the socket layer's, and those of DHCP and DNS.\<close>

datatype udp_cb = UdpNone | SocketUdpRecv nat | DhcpRecv | DnsRecv
datatype tcp_cb = TcpNone | SocketTcpRecv nat

record udp_socket =
  u_remote_port :: u16
  u_local_port :: u16
  u_remote_ip :: u32
  u_local_ip :: u32
  u_listening :: bool
  u_recv :: udp_cb

datatype tcp_state = CLOSED | LISTEN | SYN_SENT | SYN_RECEIVED | ESTABLISHED | FIN_WAIT1 | FIN_WAIT2 | CLOSING
  | TIME_WAIT | CLOSE_WAIT

record tcp_socket =
  t_remote_port :: u16
  t_local_port :: u16
  t_remote_ip :: u32
  t_local_ip :: u32
  t_listening :: bool
  t_sequence_number :: u32
  t_ack_number :: u32
  t_state :: tcp_state
  t_recv :: tcp_cb

text \<open>
  A socket of the socket layer: its type, the number of its UDP or TCP socket (the union in the
  source), its id, and the bytes received and not yet read.
\<close>

datatype socket_type = SOCKET_UDP | SOCKET_TCP

record socket =
  socket_type :: socket_type
  sk_conn :: nat
  socket_id :: u32
  received :: "u8 list"

record dns_result =
  r_ipv4 :: u32
  r_cname :: "u8 list"
  r_name :: "u8 list"

text \<open>
  The stack. \<open>sk_heap\<close> holds the socket objects by number, \<open>None\<close> for one that is freed;
  \<open>sockets\<close> is the manager's table of pointers to them.
\<close>

record net =
  nic_mac :: u64
  nic_ip :: u32
  nic_sent :: "u8 list list"
  eth_handlers :: "(u16 \<times> eth_recv) list"
  arp_cache :: "(u32 \<times> u64) list"
  ip_handlers :: "(u8 \<times> ip_recv) list"
  gateway_ip :: u32
  subnet_mask :: u32
  last_echo_reply_ip :: u32
  udp_binds :: "(u16 \<times> nat option) list"
  udp_socks :: "nat \<Rightarrow> udp_socket"
  udp_next :: nat
  udp_free_port :: u32
  tcp_binds :: "(u16 \<times> nat option) list"
  tcp_socks :: "nat \<Rightarrow> tcp_socket"
  tcp_next :: nat
  tcp_free_port :: u32
  sk_heap :: "nat \<Rightarrow> socket option"
  sk_next :: nat
  sockets :: "nat option list"
  curr_socket :: u32
  dhcp_sock :: nat
  dhcp_ip :: u32
  dhcp_gateway :: u32
  dhcp_subnet :: u32
  dhcp_dns :: u32
  dhcp_completed :: bool
  dns_sock :: nat
  dns_results :: "dns_result list"
  dns_loop :: u32
  dns_wait :: bool

section \<open>Ethernet frames\<close>

definition etherframe_register :: "u16 \<times> eth_recv \<Rightarrow> net \<Rightarrow> net" where
  "etherframe_register h s = s\<lparr>eth_handlers := eth_handlers s @ [h]\<rparr>"

definition eth_frame :: "u64 \<Rightarrow> u64 \<Rightarrow> u16 \<Rightarrow> u8 list \<Rightarrow> u8 list" where
  "eth_frame dest_mac_be src_mac_be ether_type_be payload =
     put48 dest_mac_be @ put48 src_mac_be @ put16 ether_type_be @ payload"

definition etherframe_send :: "u16 \<Rightarrow> u64 \<Rightarrow> u8 list \<Rightarrow> net \<Rightarrow> net" where
  "etherframe_send ether_type_be dest_mac_be payload s =
     s\<lparr>nic_sent := nic_sent s @ [eth_frame dest_mac_be (nic_mac s) ether_type_be payload]\<rparr>"

text \<open>
  The loop over the handlers. The header is read without a test of the length of the frame: a frame
  of less than 14 bytes is an access outside the buffer.
\<close>

primrec eth_dispatch :: "(eth_recv \<Rightarrow> u8 list \<Rightarrow> net \<Rightarrow> net res) \<Rightarrow> (u16 \<times> eth_recv) list \<Rightarrow> u16 \<Rightarrow> u8 list \<Rightarrow>
    net \<Rightarrow> net res" where
  "eth_dispatch recv [] ty payload s = Inr s"
| "eth_dispatch recv (h # hs) ty payload s =
     rbind (if fst h = ty then recv (snd h) payload s else Inr s) (eth_dispatch recv hs ty payload)"

definition etherframe_nic_recv :: "(eth_recv \<Rightarrow> u8 list \<Rightarrow> net \<Rightarrow> net res) \<Rightarrow> u8 list \<Rightarrow> net \<Rightarrow> net res" where
  "etherframe_nic_recv recv data s =
     (if length data < 14 then Inl OutOfBounds
      else if get48 data 0 = 0xFFFFFFFFFFFF \<or> get48 data 0 = nic_mac s
      then eth_dispatch recv (eth_handlers s) (get16 data 12) (drop 14 data) s
      else Inr s)"

definition etherframe_init :: "net \<Rightarrow> net" where
  "etherframe_init s = s\<lparr>eth_handlers := []\<rparr>"

section \<open>ARP\<close>

record arp_message =
  hardware_type :: u16
  arp_protocol :: u16
  hardware_address_size :: u8
  protocol_address_size :: u8
  arp_command :: u16
  src_mac :: u64
  src_ip :: u32
  dest_mac :: u64
  dest_ip :: u32

definition arp_bytes :: "arp_message \<Rightarrow> u8 list" where
  "arp_bytes a = put16 (hardware_type a) @ put16 (arp_protocol a) @ [hardware_address_size a] @
     [protocol_address_size a] @ put16 (arp_command a) @ put48 (src_mac a) @ put32 (src_ip a) @
     put48 (dest_mac a) @ put32 (dest_ip a)"

definition arp_of :: "u8 list \<Rightarrow> arp_message" where
  "arp_of bs = \<lparr>hardware_type = get16 bs 0, arp_protocol = get16 bs 2, hardware_address_size = bs ! 4,
     protocol_address_size = bs ! 5, arp_command = get16 bs 6, src_mac = get48 bs 8, src_ip = get32 bs 14,
     dest_mac = get48 bs 18, dest_ip = get32 bs 24\<rparr>"

abbreviation ARP_TYPE :: u16 where
  "ARP_TYPE \<equiv> 0x0608"

definition arp_etherframe_recv :: "u8 list \<Rightarrow> net \<Rightarrow> net" where
  "arp_etherframe_recv payload s =
     (if length payload < 28 then s
      else let arp = arp_of payload in
        if hardware_type arp = 0x0100 \<and> arp_protocol arp = 0x0008 \<and> hardware_address_size arp = 6 \<and>
           protocol_address_size arp = 4 \<and> dest_ip arp = nic_ip s
        then if arp_command arp = 0x0100 then
               etherframe_send ARP_TYPE (src_mac arp)
                 (arp_bytes (arp\<lparr>arp_command := 0x0200, dest_ip := src_ip arp, dest_mac := src_mac arp,
                    src_ip := nic_ip s, src_mac := nic_mac s\<rparr>)) s
             else if arp_command arp = 0x0200 then
               (if length (arp_cache s) < 128
                then s\<lparr>arp_cache := arp_cache s @ [(src_ip arp, src_mac arp)]\<rparr> else s)
             else s
        else s)"

definition arp_request_mac :: "u32 \<Rightarrow> net \<Rightarrow> net" where
  "arp_request_mac ip s =
     etherframe_send ARP_TYPE 0xFFFFFFFFFFFF
       (arp_bytes \<lparr>hardware_type = 0x0100, arp_protocol = 0x0008, hardware_address_size = 6,
          protocol_address_size = 4, arp_command = 0x0100, src_mac = nic_mac s, src_ip = nic_ip s,
          dest_mac = 0xFFFFFFFFFFFF, dest_ip = ip\<rparr>) s"

fun arp_get_mac_from_cache :: "(u32 \<times> u64) list \<Rightarrow> u32 \<Rightarrow> u64" where
  "arp_get_mac_from_cache [] ip = 0xFFFFFFFFFFFF"
| "arp_get_mac_from_cache (e # es) ip = (if fst e = ip then snd e else arp_get_mac_from_cache es ip)"

text \<open>
  \<open>NET_TIMEOUT\<close> counts from 2000 down to 0 and runs its body 1999 times, each time after a sleep.
  \<open>sleep\<close> takes what happens during the next sleep from \<open>env\<close>; nothing when the list is used up.
\<close>

definition sleep :: "(net \<Rightarrow> net) list \<Rightarrow> net \<Rightarrow> net \<times> (net \<Rightarrow> net) list" where
  "sleep env s = (case env of [] \<Rightarrow> (s, []) | f # fs \<Rightarrow> (f s, fs))"

primrec arp_wait :: "nat \<Rightarrow> u32 \<Rightarrow> u64 \<Rightarrow> (net \<Rightarrow> net) list \<Rightarrow> net \<Rightarrow> u64 \<times> net" where
  "arp_wait 0 ip result env s = (result, s)"
| "arp_wait (Suc n) ip result env s =
     (let (s1, env1) = sleep env s in
      if result \<noteq> 0xFFFFFFFFFFFF then (result, s1)
      else arp_wait n ip (arp_get_mac_from_cache (arp_cache s1) ip) env1 s1)"

definition arp_resolve :: "u32 \<Rightarrow> (net \<Rightarrow> net) list \<Rightarrow> net \<Rightarrow> u64 \<times> net" where
  "arp_resolve ip env s =
     (if ip = 0xffffffff then (0xFFFFFFFFFFFF, s)
      else let result = arp_get_mac_from_cache (arp_cache s) ip;
               s1 = (if result = 0xFFFFFFFFFFFF then arp_request_mac ip s else s)
           in arp_wait 1999 ip result env s1)"

definition arp_broadcast_mac :: "u32 \<Rightarrow> (net \<Rightarrow> net) list \<Rightarrow> net \<Rightarrow> net" where
  "arp_broadcast_mac ip env s =
     (let mac = nic_mac s; my_ip = nic_ip s; (dm, s1) = arp_resolve ip env s
      in etherframe_send ARP_TYPE dm
           (arp_bytes \<lparr>hardware_type = 0x0100, arp_protocol = 0x0008, hardware_address_size = 6,
              protocol_address_size = 4, arp_command = 0x0200, src_mac = mac, src_ip = my_ip,
              dest_mac = dm, dest_ip = ip\<rparr>) s1)"

definition arp_init :: "net \<Rightarrow> net" where
  "arp_init s = etherframe_register (BSWAP16 0x806, ArpRecv) (s\<lparr>arp_cache := []\<rparr>)"

section \<open>IPv4\<close>

definition ipv4_register :: "u8 \<times> ip_recv \<Rightarrow> net \<Rightarrow> net" where
  "ipv4_register h s = s\<lparr>ip_handlers := ip_handlers s @ [h]\<rparr>"

text \<open>
  The 20-byte header that \<open>ipv4_send\<close> builds, with the given checksum field. \<open>total_length\<close> is
  assigned as a 16-bit value and its bytes are swapped.
\<close>

definition ipv4_header :: "u16 \<Rightarrow> u8 \<Rightarrow> u32 \<Rightarrow> u32 \<Rightarrow> u32 \<Rightarrow> u8 list" where
  "ipv4_header checksum protocol source dest sz =
     [0x45, 0] @ put16 (BSWAP16 (ucast (sz + 20))) @ put16 0x0000 @ put16 0x0000 @ [0x40, protocol] @
     put16 checksum @ put32 source @ put32 dest"

definition ipv4_packet :: "u8 \<Rightarrow> u32 \<Rightarrow> u32 \<Rightarrow> u8 list \<Rightarrow> u8 list" where
  "ipv4_packet protocol source dest payload =
     (let sz = of_nat (length payload) in
      ipv4_header (ipv4_checksum (ipv4_header 0 protocol source dest sz) 20) protocol source dest sz @ payload)"

definition ipv4_route :: "u32 \<Rightarrow> net \<Rightarrow> u32" where
  "ipv4_route dest s =
     (if dest AND subnet_mask s \<noteq> nic_ip s AND subnet_mask s then gateway_ip s else dest)"

abbreviation IPV4_TYPE :: u16 where
  "IPV4_TYPE \<equiv> 0x0008"

definition ipv4_send :: "u8 \<Rightarrow> u32 \<Rightarrow> u8 list \<Rightarrow> (net \<Rightarrow> net) list \<Rightarrow> net \<Rightarrow> net" where
  "ipv4_send protocol dest payload env s =
     (let packet = ipv4_packet protocol (nic_ip s) dest payload;
          (mac, s1) = arp_resolve (ipv4_route dest s) env s
      in etherframe_send IPV4_TYPE mac packet s1)"

text \<open>
  \<open>ipv4_etherframe_recv\<close>: the field \<open>total_length\<close> is used without swapping its bytes, \<open>length\<close> is an
  \<open>int\<close> compared with the unsigned \<open>size\<close>, and the size passed on may wrap around.
\<close>

primrec ip_dispatch :: "(ip_recv \<Rightarrow> u32 \<Rightarrow> u32 \<Rightarrow> u8 list \<Rightarrow> u32 \<Rightarrow> net \<Rightarrow> net res) \<Rightarrow> (u8 \<times> ip_recv) list \<Rightarrow> u8 \<Rightarrow>
    u32 \<Rightarrow> u32 \<Rightarrow> u8 list \<Rightarrow> u32 \<Rightarrow> net \<Rightarrow> net res" where
  "ip_dispatch recv [] p src dst payload sz s = Inr s"
| "ip_dispatch recv (h # hs) p src dst payload sz s =
     rbind (if fst h = p then recv (snd h) src dst payload sz s else Inr s)
       (ip_dispatch recv hs p src dst payload sz)"

definition ipv4_etherframe_recv :: "(ip_recv \<Rightarrow> u32 \<Rightarrow> u32 \<Rightarrow> u8 list \<Rightarrow> u32 \<Rightarrow> net \<Rightarrow> net res) \<Rightarrow> u8 list \<Rightarrow> net \<Rightarrow> net res" where
  "ipv4_etherframe_recv recv payload s =
     (let sz = of_nat (length payload) :: u32 in
      if sz < 20 then Inr s
      else let header_length = (ucast (payload ! 0 AND 0x0F) :: u32);
               source = get32 payload 12; dest = get32 payload 16 in
        if dest = nic_ip s \<or> dest = 0xFFFFFFFF \<or> nic_ip s = 0 then
          (let len = (ucast (get16 payload 2) :: u32);
               len = (if len > sz then sz else len)
           in ip_dispatch recv (ip_handlers s) (payload ! 9) source dest
                (drop (unat (4 * header_length)) payload) (len - 4 * header_length) s)
        else Inr s)"

definition ipv4_init :: "u32 \<Rightarrow> u32 \<Rightarrow> net \<Rightarrow> net" where
  "ipv4_init gateway smask s =
     (etherframe_register (BSWAP16 0x0800, Ipv4Recv) (s\<lparr>ip_handlers := []\<rparr>))
       \<lparr>gateway_ip := gateway, subnet_mask := smask\<rparr>"

section \<open>ICMP\<close>

definition icmp_bytes :: "u8 \<Rightarrow> u8 \<Rightarrow> u16 \<Rightarrow> u32 \<Rightarrow> u8 list" where
  "icmp_bytes type code checksum data = [type, code] @ put16 checksum @ put32 data"

definition icmp_send_echo_request :: "u32 \<Rightarrow> (net \<Rightarrow> net) list \<Rightarrow> net \<Rightarrow> net" where
  "icmp_send_echo_request ip env s =
     ipv4_send 0x01 ip (icmp_bytes 8 0 (ipv4_checksum (icmp_bytes 8 0 0 0x3713) 8) 0x3713) env s"

primrec icmp_wait :: "nat \<Rightarrow> u32 \<Rightarrow> (net \<Rightarrow> net) list \<Rightarrow> net \<Rightarrow> bool \<times> net" where
  "icmp_wait 0 ip env s = (False, s)"
| "icmp_wait (Suc n) ip env s =
     (let (s1, env1) = sleep env s in
      if last_echo_reply_ip s1 = ip then (True, s1) else icmp_wait n ip env1 s1)"

definition icmp_send_echo_reqest_and_wait :: "u32 \<Rightarrow> (net \<Rightarrow> net) list \<Rightarrow> (net \<Rightarrow> net) list \<Rightarrow> net \<Rightarrow> bool \<times> net" where
  "icmp_send_echo_reqest_and_wait ip env_arp env s =
     icmp_wait 1999 ip env (icmp_send_echo_request ip env_arp (s\<lparr>last_echo_reply_ip := 0\<rparr>))"

text \<open>
  \<open>sz\<close> is the size claimed by the IP layer. The three cases are told apart by the type byte; the reply
  reuses the request's code and data.
\<close>

definition icmp_ipv4_recv :: "panic_key \<Rightarrow> (net \<Rightarrow> net) list \<Rightarrow> u32 \<Rightarrow> u8 list \<Rightarrow> u32 \<Rightarrow> net \<Rightarrow> net res" where
  "icmp_ipv4_recv k env src payload sz s =
     (if sz < 8 then Inr s
      else if length payload < 8 then Inl OutOfBounds
      else if payload ! 0 = 0 then Inr (s\<lparr>last_echo_reply_ip := src\<rparr>)
      else if payload ! 0 = 8 then
        Inr (ipv4_send 0x01 src
          (icmp_bytes 0 (payload ! 1) (ipv4_checksum (icmp_bytes 0 (payload ! 1) 0 (get32 payload 4)) 8) (get32 payload 4))
          env s)
      else if payload ! 0 = 3 then Inr s
      else rbind (abortf k) (\<lambda>_. Inr s))"

text \<open>The text of the warning for a destination that is not reachable.\<close>

definition icmp_destination_unreachable_to_str :: "u8 \<Rightarrow> string" where
  "icmp_destination_unreachable_to_str code =
     (if code = 0 then ''Network unreachable error.''
      else if code = 1 then ''Host unreachable error.''
      else if code = 2 then ''Protocol unreachable error (the designated transport protocol is not supported).''
      else if code = 3 then ''Port unreachable error (the designated protocol is unable to inform the host of the incoming message).''
      else if code = 4 then ''The datagram is too big. Packet fragmentation is required but the 'don't fragment' (DF) flag is on.''
      else if code = 5 then ''Source route failed error.''
      else if code = 6 then ''Destination network unknown error.''
      else if code = 7 then ''Destination host unknown error.''
      else if code = 8 then ''Source host isolated error.''
      else if code = 9 then ''The destination network is administratively prohibited.''
      else if code = 10 then ''The destination host is administratively prohibited.''
      else if code = 11 then ''The network is unreachable for Type Of Service.''
      else if code = 12 then ''The host is unreachable for Type Of Service.''
      else if code = 13 then ''Communication administratively prohibited (administrative filtering prevents packet from being forwarded).''
      else if code = 14 then ''Host precedence violation (indicates the requested precedence is not permitted for the combination of host or network and port).''
      else if code = 15 then ''Precedence cutoff in effect (precedence of datagram is below the level set by the network administrators).''
      else ''unk'')"

definition icmp_init :: "net \<Rightarrow> net" where
  "icmp_init s = ipv4_register (0x01, IcmpRecv) (s\<lparr>last_echo_reply_ip := 0\<rparr>)"

section \<open>Headers on the wire\<close>

lemma get48_put48:
  assumes "i = length xs"
  shows "get48 (xs @ put48 v @ ys) i = take_bit 48 v"
proof -
  have "get32 (xs @ put48 v @ ys) i = ucast v"
    using get32_put32 [of i xs "ucast v" "put16 (ucast (drop_bit 32 v)) @ ys"] assms by (simp add: put48_def)
  moreover have "get16 (xs @ put48 v @ ys) (i + 4) = ucast (drop_bit 32 v)"
    using get16_put16 [of "i + 4" "xs @ put32 (ucast v)" "ucast (drop_bit 32 v)" ys] assms by (simp add: put48_def)
  moreover have "(ucast (ucast v :: u32) OR push_bit 32 (ucast (ucast (drop_bit 32 v) :: u16)) :: u64) = take_bit 48 v"
  proof (rule bit_word_eqI)
    fix n :: nat assume "n < LENGTH(64)"
    then show "bit (ucast (ucast v :: u32) OR push_bit 32 (ucast (ucast (drop_bit 32 v) :: u16)) :: u64) n =
        bit (take_bit 48 v) n"
      by (cases "n < 32"; cases "n < 48") (auto simp: bit_simps)
  qed
  ultimately show ?thesis by (simp add: get48_def)
qed

lemma eth_frame_fields:
  "get48 (eth_frame d m t p) 0 = take_bit 48 d" "get16 (eth_frame d m t p) 12 = t" "drop 14 (eth_frame d m t p) = p"
  "14 \<le> length (eth_frame d m t p)"
proof -
  show "get48 (eth_frame d m t p) 0 = take_bit 48 d"
    using get48_put48 [of 0 "[]" d] by (simp add: eth_frame_def)
  show "get16 (eth_frame d m t p) 12 = t"
    using get16_put16 [of 12 "put48 d @ put48 m" t p] by (simp add: eth_frame_def)
qed (simp_all add: eth_frame_def)

lemma arp_roundtrip:
  assumes "take_bit 48 (src_mac a) = src_mac a" "take_bit 48 (dest_mac a) = dest_mac a"
  shows "arp_of (arp_bytes a) = a" "length (arp_bytes a) = 28"
proof -
  let ?h = "put16 (hardware_type a)" and ?p = "put16 (arp_protocol a)" and ?c = "put16 (arp_command a)"
  let ?s = "put48 (src_mac a)" and ?i = "put32 (src_ip a)" and ?d = "put48 (dest_mac a)" and ?j = "put32 (dest_ip a)"
  let ?hs = "[hardware_address_size a]" and ?ps = "[protocol_address_size a]"
  have "get16 (arp_bytes a) 0 = hardware_type a"
    using get16_put16 [of 0 "[]" "hardware_type a"] by (simp add: arp_bytes_def)
  moreover have "get16 (arp_bytes a) 2 = arp_protocol a"
    using get16_put16 [of 2 ?h "arp_protocol a"] by (simp add: arp_bytes_def)
  moreover have "get16 (arp_bytes a) 6 = arp_command a"
    using get16_put16 [of 6 "?h @ ?p @ ?hs @ ?ps" "arp_command a"] by (simp add: arp_bytes_def)
  moreover have "get48 (arp_bytes a) 8 = src_mac a"
    using get48_put48 [of 8 "?h @ ?p @ ?hs @ ?ps @ ?c" "src_mac a"] assms(1) by (simp add: arp_bytes_def)
  moreover have "get32 (arp_bytes a) 14 = src_ip a"
    using get32_put32 [of 14 "?h @ ?p @ ?hs @ ?ps @ ?c @ ?s" "src_ip a"] by (simp add: arp_bytes_def)
  moreover have "get48 (arp_bytes a) 18 = dest_mac a"
    using get48_put48 [of 18 "?h @ ?p @ ?hs @ ?ps @ ?c @ ?s @ ?i" "dest_mac a"] assms(2) by (simp add: arp_bytes_def)
  moreover have "get32 (arp_bytes a) 24 = dest_ip a"
    using get32_put32 [of 24 "?h @ ?p @ ?hs @ ?ps @ ?c @ ?s @ ?i @ ?d" "dest_ip a" "[]"] by (simp add: arp_bytes_def)
  moreover have "arp_bytes a ! 4 = hardware_address_size a" "arp_bytes a ! 5 = protocol_address_size a"
    by (simp_all add: arp_bytes_def put16_def)
  ultimately show "arp_of (arp_bytes a) = a" by (simp add: arp_of_def)
qed (simp add: arp_bytes_def)

text \<open>The fields of a sent IPv4 packet.\<close>

lemma ipv4_header_fields:
  "length (ipv4_header c p a b n) = 20" "ipv4_header c p a b n ! 0 = 0x45" "ipv4_header c p a b n ! 9 = p"
  "get16 (ipv4_header c p a b n @ xs) 2 = BSWAP16 (ucast (n + 20))"
  "get32 (ipv4_header c p a b n @ xs) 12 = a" "get32 (ipv4_header c p a b n @ xs) 16 = b"
proof -
  show "get16 (ipv4_header c p a b n @ xs) 2 = BSWAP16 (ucast (n + 20))"
    using get16_put16 [of 2 "[0x45, 0]" "BSWAP16 (ucast (n + 20))"] by (simp add: ipv4_header_def)
  let ?pre = "[0x45, 0] @ put16 (BSWAP16 (ucast (n + 20))) @ put16 0x0000 @ put16 0x0000 @ [0x40, p] @ put16 c"
  have len: "length ?pre = 12" by simp
  show "get32 (ipv4_header c p a b n @ xs) 12 = a"
    using get32_put32 [of 12 ?pre a "put32 b @ xs"] len by (simp add: ipv4_header_def)
  show "get32 (ipv4_header c p a b n @ xs) 16 = b"
    using get32_put32 [of 16 "?pre @ put32 a" b xs] len by (simp add: ipv4_header_def)
  show "ipv4_header c p a b n ! 9 = p" by (simp add: ipv4_header_def put16_def)
qed (simp_all add: ipv4_header_def)

definition stack_recv :: "(ip_recv \<Rightarrow> u32 \<Rightarrow> u32 \<Rightarrow> u8 list \<Rightarrow> u32 \<Rightarrow> net \<Rightarrow> net res) \<Rightarrow> eth_recv \<Rightarrow> u8 list \<Rightarrow> net \<Rightarrow> net res" where
  "stack_recv recv h payload s =
     (case h of ArpRecv \<Rightarrow> Inr (arp_etherframe_recv payload s) | Ipv4Recv \<Rightarrow> ipv4_etherframe_recv recv payload s)"

lemma rbind_Inr_right [simp]: "rbind r Inr = r"
  by (cases r) simp_all

lemma eth_dispatch_one:
  "eth_dispatch recv [(ARP_TYPE, ArpRecv), (IPV4_TYPE, Ipv4Recv)] IPV4_TYPE payload s = recv Ipv4Recv payload s"
proof -
  have "(\<lambda>s. Inr s) = (Inr :: net \<Rightarrow> net res)" by simp
  then show ?thesis by (cases "recv Ipv4Recv payload s") simp_all
qed

lemma u16_bswap_less:
  assumes "n < 256"
  shows "unat (BSWAP16 (of_nat n)) = n * 256"
proof -
  have "(of_nat n :: u16) AND 0xFF00 = 0" "(of_nat n :: u16) AND 0x00FF = of_nat n"
  proof -
    have u: "unat (of_nat n :: u16) = n" using assms by (simp add: unat_of_nat take_bit_nat_eq_self)
    have m: "(of_nat n :: u16) AND 0x00FF = take_bit 8 (of_nat n)"
      using take_bit_eq_mask [of 8 "of_nat n :: u16"] by (simp add: mask_eq_exp_minus_1)
    have "unat (take_bit 8 (of_nat n :: u16)) = n" using assms by (simp add: take_bit_eq_mod unat_mod u)
    then show low: "(of_nat n :: u16) AND 0x00FF = of_nat n" using u m by (simp only: word_unat_eq_iff)
    have "(of_nat n :: u16) AND 0xFF00 = ((of_nat n :: u16) AND 0x00FF) AND 0xFF00" by (simp only: low)
    then show "(of_nat n :: u16) AND 0xFF00 = 0" by (simp add: and.assoc)
  qed
  then have "BSWAP16 (of_nat n) = push_bit 8 (of_nat n)" by (simp only: BSWAP16_def drop_bit_of_0 or.right_neutral)
  then show ?thesis using assms by (simp add: push_bit_eq_mult unat_word_ariths unat_of_nat take_bit_nat_eq_self)
qed

lemma ipv4_recv_packet:
  assumes "length payload < 236" "dest = nic_ip r \<or> dest = 0xFFFFFFFF \<or> nic_ip r = 0"
  shows "ipv4_etherframe_recv recv (ipv4_packet p src dest payload) r =
    ip_dispatch recv (ip_handlers r) p src dest payload (of_nat (length payload)) r"
proof -
  let ?n = "length payload"
  obtain c where pk: "ipv4_packet p src dest payload = ipv4_header c p src dest (of_nat ?n) @ payload"
    by (simp add: ipv4_packet_def Let_def)
  let ?pk = "ipv4_header c p src dest (of_nat ?n) @ payload"
  note f = ipv4_header_fields [of c p src dest "of_nat ?n"]
  have len: "length ?pk = ?n + 20" using f(1) by simp
  have sz: "unat (of_nat (?n + 20) :: u32) = ?n + 20" using assms(1) by (intro unat_of_nat_u32) simp
  have nth: "?pk ! 0 = 0x45" "?pk ! 9 = p" using f(1-3) by (simp_all add: nth_append)
  have hl: "(ucast (0x45 AND 0x0F :: u8) :: u32) = 5" by simp
  have "(ucast (of_nat ?n + 20 :: u32) :: u16) = of_nat (?n + 20)"
  proof -
    have "(of_nat ?n + 20 :: u32) = of_nat (?n + 20)" by simp
    moreover have "take_bit 32 (?n + 20) = ?n + 20" using assms(1) by (intro take_bit_nat_eq_self) simp
    ultimately show ?thesis by (simp only: unsigned_of_nat) simp
  qed
  then have tl: "unat (ucast (get16 ?pk 2) :: u32) = (?n + 20) * 256"
    using u16_bswap_less [of "?n + 20"] assms(1) f(4) [of payload]
    by (simp add: unsigned_ucast_eq take_bit_nat_eq_self)
  have "(ucast (get16 ?pk 2) :: u32) > of_nat (?n + 20)" using tl sz by (simp add: word_less_nat_alt)
  then have l: "(if (ucast (get16 ?pk 2) :: u32) > of_nat (length ?pk) then of_nat (length ?pk)
      else ucast (get16 ?pk 2)) - 4 * 5 = (of_nat ?n :: u32)"
    unfolding len by simp
  have "\<not> (of_nat (length ?pk) :: u32) < 20" unfolding len using sz by (simp add: word_less_nat_alt)
  moreover have "drop (unat (4 * 5 :: u32)) ?pk = payload" using f(1) by simp
  ultimately show ?thesis
    unfolding pk ipv4_etherframe_recv_def Let_def nth f(5,6) hl l using assms(2) by simp
qed

section \<open>Properties\<close>


text \<open>A host with the given hardware and IP addresses and ARP cache, on one subnet.\<close>

definition host :: "u64 \<Rightarrow> u32 \<Rightarrow> (u32 \<times> u64) list \<Rightarrow> net" where
  "host mac ip cache = \<lparr>nic_mac = mac, nic_ip = ip, nic_sent = [], eth_handlers = [(ARP_TYPE, ArpRecv), (IPV4_TYPE, Ipv4Recv)],
     arp_cache = cache, ip_handlers = [], gateway_ip = 0, subnet_mask = 0, last_echo_reply_ip = 0,
     udp_binds = [], udp_socks = (\<lambda>_. \<lparr>u_remote_port = 0, u_local_port = 0, u_remote_ip = 0, u_local_ip = 0,
       u_listening = False, u_recv = UdpNone\<rparr>), udp_next = 0, udp_free_port = 1024,
     tcp_binds = [], tcp_socks = (\<lambda>_. \<lparr>t_remote_port = 0, t_local_port = 0, t_remote_ip = 0, t_local_ip = 0,
       t_listening = False, t_sequence_number = 0, t_ack_number = 0, t_state = CLOSED, t_recv = TcpNone\<rparr>),
     tcp_next = 0, tcp_free_port = 1024, sk_heap = (\<lambda>_. None), sk_next = 0, sockets = [], curr_socket = 5,
     dhcp_sock = 0, dhcp_ip = 0, dhcp_gateway = 0, dhcp_subnet = 0, dhcp_dns = 0, dhcp_completed = False,
     dns_sock = 0, dns_results = [], dns_loop = 0, dns_wait = False\<rparr>"


text \<open>
  The receiver reads \<open>total_length\<close> in the wrong byte order. For a packet of 256 bytes it reads 1,
  subtracts the header's 20 bytes and passes \<open>2 ^ 32 - 19\<close> as the size of the payload.
\<close>

lemma ipv4_recv_length_wraps:
  assumes "length payload = 236" "dest = nic_ip r"
  shows "ipv4_etherframe_recv recv (ipv4_packet p src dest payload) r =
    ip_dispatch recv (ip_handlers r) p src dest payload 0xFFFFFFED r"
proof -
  obtain c where pk: "ipv4_packet p src dest payload = ipv4_header c p src dest 236 @ payload"
    by (simp add: ipv4_packet_def Let_def assms(1))
  let ?pk = "ipv4_header c p src dest 236 @ payload"
  note f = ipv4_header_fields [of c p src dest 236]
  have len: "(of_nat (length ?pk) :: u32) = 256" using f(1) assms(1) by simp
  have nth: "?pk ! 0 = 0x45" "?pk ! 9 = p" using f(1-3) by (simp_all add: nth_append)
  have hl: "(ucast (0x45 AND 0x0F :: u8) :: u32) = 5" by simp
  have tl: "(ucast (get16 ?pk 2) :: u32) = 1" using f(4) [of payload] by (simp add: BSWAP16_def)
  have d: "drop (unat (4 * 5 :: u32)) ?pk = payload" using f(1) by simp
  have w: "(- 19 :: u32) = 0xFFFFFFED" by (subst word_uint_eq_iff) simp
  show ?thesis
    unfolding pk ipv4_etherframe_recv_def Let_def len nth f(5,6) hl tl d using assms(2) by (simp add: w)
qed

lemma arp_cache_append:
  "ip \<notin> fst ` set c \<Longrightarrow> arp_get_mac_from_cache (c @ [(ip, m)]) ip = m"
  by (induction c) auto

lemma arp_cache_other:
  "ip \<noteq> ip' \<Longrightarrow> arp_get_mac_from_cache (c @ [(ip', m)]) ip = arp_get_mac_from_cache c ip"
  by (induction c) auto

text \<open>
  The ARP exchange. When host \<open>a\<close> asks for the hardware address of an IP address that is not in
  its cache, host \<open>b\<close>, which has that address, answers to \<open>a\<close>, and after the answer
  \<open>a\<close>'s cache resolves the address to the hardware address of \<open>b\<close>; its other entries resolve as before.
\<close>

lemma arp_exchange:
  assumes "nic_ip b \<notin> fst ` set (arp_cache a)" "length (arp_cache a) < 128"
    and "take_bit 48 (nic_mac a) = nic_mac a" "take_bit 48 (nic_mac b) = nic_mac b"
  shows "let a1 = arp_request_mac (nic_ip b) a;
             b1 = arp_etherframe_recv (drop 14 (last (nic_sent a1))) b;
             a2 = arp_etherframe_recv (drop 14 (last (nic_sent b1))) a1
         in get48 (last (nic_sent b1)) 0 = nic_mac a \<and>
            arp_get_mac_from_cache (arp_cache a2) (nic_ip b) = nic_mac b \<and>
            (\<forall>ip. ip \<noteq> nic_ip b \<longrightarrow>
               arp_get_mac_from_cache (arp_cache a2) ip = arp_get_mac_from_cache (arp_cache a) ip)"
proof -
  let ?q = "\<lparr>hardware_type = 0x0100, arp_protocol = 0x0008, hardware_address_size = 6, protocol_address_size = 4,
    arp_command = 0x0100, src_mac = nic_mac a, src_ip = nic_ip a, dest_mac = 0xFFFFFFFFFFFF, dest_ip = nic_ip b\<rparr>"
  let ?r = "?q\<lparr>arp_command := 0x0200, dest_ip := nic_ip a, dest_mac := nic_mac a, src_ip := nic_ip b, src_mac := nic_mac b\<rparr>"
  define a1 where "a1 = arp_request_mac (nic_ip b) a"
  define b1 where "b1 = arp_etherframe_recv (drop 14 (last (nic_sent a1))) b"
  have "arp_of (arp_bytes ?q) = ?q" "length (arp_bytes ?q) = 28"
    by (rule arp_roundtrip, simp_all add: assms(3))+
  note q = this
  have "arp_of (arp_bytes ?r) = ?r" "length (arp_bytes ?r) = 28"
    by (rule arp_roundtrip, simp_all add: assms(3,4))+
  note r = this
  have a1: "drop 14 (last (nic_sent a1)) = arp_bytes ?q" "arp_cache a1 = arp_cache a" "nic_ip a1 = nic_ip a"
    by (simp_all add: a1_def arp_request_mac_def etherframe_send_def eth_frame_fields)
  have b1: "last (nic_sent b1) = eth_frame (nic_mac a) (nic_mac b) ARP_TYPE (arp_bytes ?r)"
    unfolding b1_def a1(1) arp_etherframe_recv_def Let_def q by (simp add: etherframe_send_def)
  have "arp_etherframe_recv (arp_bytes ?r) a1 = a1\<lparr>arp_cache := arp_cache a @ [(nic_ip b, nic_mac b)]\<rparr>"
    unfolding arp_etherframe_recv_def Let_def r using assms(2) a1(2,3) by simp
  then show ?thesis
    unfolding Let_def a1_def [symmetric] b1_def [symmetric] b1 eth_frame_fields
    using assms(1,3) by (simp add: arp_cache_append arp_cache_other)
qed

end
