(* ===== verification/Udp.thy ===== *)
theory Udp
  imports Net
begin

text \<open>
  UDP, \<open>mckrnl/net/udp.c\<close>. A socket is named by a number that stands for the address of its page;
  the number of a new socket is always fresh. The binds are the array of
  pairs of a port and a socket or \<open>NULL\<close>. What a socket's \<open>recv\<close> callback does is the argument \<open>cb\<close>.
\<close>

section \<open>Definitions\<close>

text \<open>The loops over the binds of UDP and TCP: set the first entry without a socket, or append.\<close>

primrec bind_put :: "u16 \<times> nat option \<Rightarrow> (u16 \<times> nat option) list \<Rightarrow> (u16 \<times> nat option) list" where
  "bind_put b [] = [b]"
| "bind_put b (x # xs) = (if snd x = None then b # xs else x # bind_put b xs)"

primrec bind_del :: "nat \<Rightarrow> (u16 \<times> nat option) list \<Rightarrow> (u16 \<times> nat option) list" where
  "bind_del i [] = []"
| "bind_del i (x # xs) = (if snd x = Some i then (fst x, None) # xs else x # bind_del i xs)"

definition udp_socket_disconnect :: "nat \<Rightarrow> net \<Rightarrow> net" where
  "udp_socket_disconnect sock s = s\<lparr>udp_binds := bind_del sock (udp_binds s)\<rparr>"

definition udp_packet :: "u16 \<Rightarrow> u16 \<Rightarrow> u8 list \<Rightarrow> u8 list" where
  "udp_packet src_port dst_port data =
     put16 src_port @ put16 dst_port @ put16 (BSWAP16 (of_nat (length data + 8))) @ put16 0 @ data"

text \<open>\<open>total_size\<close> has 16 bits: a larger packet overruns the buffer allocated for it.\<close>

definition udp_socket_send :: "nat \<Rightarrow> u8 list \<Rightarrow> (net \<Rightarrow> net) list \<Rightarrow> net \<Rightarrow> net res" where
  "udp_socket_send sock data env s =
     (let u = udp_socks s sock in
      if length data + 8 \<ge> 65536 then Inl OutOfBounds
      else Inr (ipv4_send 0x11 (u_remote_ip u) (udp_packet (u_local_port u) (u_remote_port u) data) env s))"

definition new_udp_socket :: "udp_socket \<Rightarrow> net \<Rightarrow> nat \<times> net" where
  "new_udp_socket u s =
     (let i = udp_next s in
      (i, s\<lparr>udp_next := Suc i, udp_socks := (udp_socks s)(i := u),
            udp_binds := bind_put (u_local_port u, Some i) (udp_binds s)\<rparr>))"

definition udp_connect :: "u32 \<Rightarrow> u16 \<Rightarrow> net \<Rightarrow> nat \<times> net" where
  "udp_connect ip port s =
     new_udp_socket \<lparr>u_remote_port = BSWAP16 port, u_local_port = BSWAP16 (ucast (udp_free_port s)),
       u_remote_ip = ip, u_local_ip = nic_ip s, u_listening = False, u_recv = UdpNone\<rparr>
       (s\<lparr>udp_free_port := udp_free_port s + 1\<rparr>)"

definition udp_listen :: "u16 \<Rightarrow> net \<Rightarrow> nat \<times> net" where
  "udp_listen port s =
     new_udp_socket \<lparr>u_remote_port = 0, u_local_port = BSWAP16 port, u_remote_ip = 0, u_local_ip = nic_ip s,
       u_listening = True, u_recv = UdpNone\<rparr> s"

text \<open>The search for the socket of a datagram, with its effect on a listening socket.\<close>

primrec udp_route :: "(u16 \<times> nat option) list \<Rightarrow> u16 \<Rightarrow> u16 \<Rightarrow> u32 \<Rightarrow> u32 \<Rightarrow> net \<Rightarrow> nat option \<times> net" where
  "udp_route [] src_port dst_port src dst s = (None, s)"
| "udp_route (b # bs) src_port dst_port src dst s =
     (case snd b of
        None \<Rightarrow> udp_route bs src_port dst_port src dst s
      | Some i \<Rightarrow>
          let u = udp_socks s i in
          if u_local_port u = dst_port \<and> u_local_ip u = dst \<and> u_listening u then
            (Some i, s\<lparr>udp_socks := (udp_socks s)(i := u\<lparr>u_listening := False, u_remote_port := src_port, u_remote_ip := src\<rparr>)\<rparr>)
          else if u_remote_port u = src_port \<and>
                  (u_remote_ip u = src \<or> dst = 0xFFFFFFFF \<or> src = 0xFFFFFFFF \<or> u_remote_ip u = 0xFFFFFFFF)
          then (Some i, s)
          else udp_route bs src_port dst_port src dst s)"

definition udp_ipv4_recv :: "(udp_cb \<Rightarrow> nat \<Rightarrow> u8 list \<Rightarrow> u32 \<Rightarrow> net \<Rightarrow> net res) \<Rightarrow> u32 \<Rightarrow> u32 \<Rightarrow> u8 list \<Rightarrow> u32 \<Rightarrow> net \<Rightarrow> net res" where
  "udp_ipv4_recv cb src dst payload sz s =
     (if sz < 8 then Inr s
      else if length payload < 8 then Inl OutOfBounds
      else case udp_route (udp_binds s) (get16 payload 0) (get16 payload 2) src dst s of
             (None, s1) \<Rightarrow> Inr s1
           | (Some i, s1) \<Rightarrow> cb (u_recv (udp_socks s1 i)) i (drop 8 payload) (sz - 8) s1)"

definition udp_init :: "net \<Rightarrow> net" where
  "udp_init s = ipv4_register (0x11, UdpRecv) (s\<lparr>udp_binds := [], udp_free_port := 1024\<rparr>)"

section \<open>Binds\<close>

definition bound :: "(u16 \<times> nat option) list \<Rightarrow> nat set" where
  "bound bs = {i. Some i \<in> snd ` set bs}"

lemma bound_simps [simp]:
  "bound [] = {}" "bound ((p, None) # bs) = bound bs" "bound ((p, Some i) # bs) = insert i (bound bs)"
  by (auto simp: bound_def)

lemma bound_put: "bound (bind_put (p, Some i) bs) = insert i (bound bs)"
proof (induction bs)
  case (Cons b bs)
  then show ?case by (cases b; cases "snd b") (auto simp: bound_def)
qed simp

text \<open>Every socket is bound at most once.\<close>

definition binds_distinct :: "(u16 \<times> nat option) list \<Rightarrow> bool" where
  "binds_distinct bs \<longleftrightarrow> distinct (List.map_filter snd bs)"

lemma binds_distinct_simps [simp]:
  "binds_distinct []" "binds_distinct ((p, None) # bs) \<longleftrightarrow> binds_distinct bs"
  "binds_distinct ((p, Some i) # bs) \<longleftrightarrow> i \<notin> bound bs \<and> binds_distinct bs"
  by (auto simp: binds_distinct_def map_filter_simps bound_def) (force simp: List.map_filter_def)+

lemma bound_del: "binds_distinct bs \<Longrightarrow> bound (bind_del i bs) = bound bs - {i}"
proof (induction bs)
  case (Cons b bs)
  then show ?case by (cases b; cases "snd b") auto
qed simp

lemma distinct_put: "binds_distinct bs \<Longrightarrow> i \<notin> bound bs \<Longrightarrow> binds_distinct (bind_put (p, Some i) bs)"
proof (induction bs)
  case (Cons b bs)
  then show ?case by (cases b; cases "snd b") (auto simp: bound_put)
qed simp

lemma distinct_del: "binds_distinct bs \<Longrightarrow> binds_distinct (bind_del i bs)"
proof (induction bs)
  case (Cons b bs)
  then show ?case by (cases b; cases "snd b") (auto simp: bound_del)
qed simp

section \<open>Routing of datagrams\<close>

definition udp_listens :: "u16 \<Rightarrow> u32 \<Rightarrow> udp_socket \<Rightarrow> bool" where
  "udp_listens dst_port dst u \<longleftrightarrow> u_local_port u = dst_port \<and> u_local_ip u = dst \<and> u_listening u"

definition udp_matches :: "u16 \<Rightarrow> u16 \<Rightarrow> u32 \<Rightarrow> u32 \<Rightarrow> udp_socket \<Rightarrow> bool" where
  "udp_matches src_port dst_port src dst u \<longleftrightarrow> udp_listens dst_port dst u \<or>
     u_remote_port u = src_port \<and> (u_remote_ip u = src \<or> dst = 0xFFFFFFFF \<or> src = 0xFFFFFFFF \<or> u_remote_ip u = 0xFFFFFFFF)"

text \<open>A listening socket that gets a datagram becomes connected to its sender.\<close>

definition udp_claim :: "u16 \<Rightarrow> u16 \<Rightarrow> u32 \<Rightarrow> u32 \<Rightarrow> udp_socket \<Rightarrow> udp_socket" where
  "udp_claim src_port dst_port src dst u =
     (if udp_listens dst_port dst u then u\<lparr>u_listening := False, u_remote_port := src_port, u_remote_ip := src\<rparr> else u)"

lemma udp_route_find:
  "udp_route bs sp dp src dst s =
     (case find (\<lambda>i. udp_matches sp dp src dst (udp_socks s i)) (List.map_filter snd bs) of
        None \<Rightarrow> (None, s)
      | Some i \<Rightarrow> (Some i, s\<lparr>udp_socks := (udp_socks s)(i := udp_claim sp dp src dst (udp_socks s i))\<rparr>))"
proof (induction bs)
  case (Cons b bs)
  then show ?case
    by (cases "snd b") (auto simp: map_filter_simps Let_def udp_matches_def udp_claim_def udp_listens_def)
qed (simp add: map_filter_simps)

lemma udp_packet_fields:
  "get16 (udp_packet sp dp data) 0 = sp" "get16 (udp_packet sp dp data) 2 = dp"
  "drop 8 (udp_packet sp dp data) = data" "length (udp_packet sp dp data) = length data + 8"
proof -
  show "get16 (udp_packet sp dp data) 0 = sp" using get16_put16 [of 0 "[]" sp] by (simp add: udp_packet_def)
  show "get16 (udp_packet sp dp data) 2 = dp" using get16_put16 [of 2 "put16 sp" dp] by (simp add: udp_packet_def)
qed (simp_all add: udp_packet_def)

text \<open>The invariant of the binds: no socket is bound twice, and none is bound that does not exist.\<close>

definition udp_ok :: "net \<Rightarrow> bool" where
  "udp_ok s \<longleftrightarrow> binds_distinct (udp_binds s) \<and> (\<forall>i \<in> bound (udp_binds s). i < udp_next s)"

section \<open>Properties\<close>

text \<open>
  UDP demultiplexing. A datagram as \<open>udp_socket_send\<close> builds it is delivered with exactly the
  bytes that were sent to the callback of the first bound socket that matches (a listening socket
  on the destination port and address, or one connected to the sender, or broadcast), and to no
  other; a listening socket becomes connected to the sender; without a match nothing changes.
\<close>

lemma udp_datagram_routed:
  assumes "length data + 8 < 2 ^ 32"
  shows "udp_ipv4_recv cb src dst (udp_packet sp dp data) (of_nat (length data + 8)) s =
    (case find (\<lambda>i. udp_matches sp dp src dst (udp_socks s i)) (List.map_filter snd (udp_binds s)) of
       None \<Rightarrow> Inr s
     | Some i \<Rightarrow> cb (u_recv (udp_socks s i)) i data (of_nat (length data))
         (s\<lparr>udp_socks := (udp_socks s)(i := udp_claim sp dp src dst (udp_socks s i))\<rparr>))"
proof -
  have "unat (of_nat (length data + 8) :: u32) = length data + 8" by (rule unat_of_nat_u32) (use assms in simp)
  then have "\<not> (of_nat (length data + 8) :: u32) < 8" by (simp add: word_less_nat_alt)
  moreover have "(of_nat (length data + 8) :: u32) - 8 = of_nat (length data)" by simp
  moreover have "u_recv (udp_claim sp dp src dst u) = u_recv u" for u by (simp add: udp_claim_def)
  ultimately show ?thesis
    unfolding udp_ipv4_recv_def udp_packet_fields udp_route_find by (simp split: option.split)
qed

text \<open>
  Opening and closing UDP sockets keeps the binds consistent: \<open>udp_connect\<close> and \<open>udp_listen\<close> bind
  exactly one new socket, \<open>udp_socket_disconnect\<close> removes exactly its socket, and every other
  socket keeps its bind and its state.
\<close>

lemma udp_binds_invariant:
  assumes "udp_ok s"
  shows "(case udp_connect ip port s of (i, s') \<Rightarrow> udp_ok s' \<and> i \<notin> bound (udp_binds s) \<and>
      bound (udp_binds s') = insert i (bound (udp_binds s)) \<and> (\<forall>j. j \<noteq> i \<longrightarrow> udp_socks s' j = udp_socks s j)) \<and>
    (case udp_listen port s of (i, s') \<Rightarrow> udp_ok s' \<and> i \<notin> bound (udp_binds s) \<and>
      bound (udp_binds s') = insert i (bound (udp_binds s)) \<and> (\<forall>j. j \<noteq> i \<longrightarrow> udp_socks s' j = udp_socks s j)) \<and>
    udp_ok (udp_socket_disconnect sock s) \<and>
    bound (udp_binds (udp_socket_disconnect sock s)) = bound (udp_binds s) - {sock} \<and>
    udp_socks (udp_socket_disconnect sock s) = udp_socks s"
proof -
  have fresh: "udp_next s \<notin> bound (udp_binds s)" using assms by (auto simp: udp_ok_def)
  have new: "case new_udp_socket u t of (i, s') \<Rightarrow> udp_ok s' \<and> i \<notin> bound (udp_binds s) \<and>
      bound (udp_binds s') = insert i (bound (udp_binds s)) \<and> (\<forall>j. j \<noteq> i \<longrightarrow> udp_socks s' j = udp_socks s j)"
    if "udp_binds t = udp_binds s" "udp_next t = udp_next s" "udp_socks t = udp_socks s" for u t
    using assms fresh that
    by (auto simp: new_udp_socket_def Let_def udp_ok_def bound_put distinct_put)
  have del: "udp_ok (udp_socket_disconnect sock s)"
    "bound (udp_binds (udp_socket_disconnect sock s)) = bound (udp_binds s) - {sock}"
    using assms by (simp_all add: udp_socket_disconnect_def udp_ok_def bound_del distinct_del)
  show ?thesis
    unfolding udp_connect_def udp_listen_def
    by (intro conjI new del) (simp_all add: udp_socket_disconnect_def)
qed

end
