(* ===== verification/Dhcp.thy ===== *)
theory Dhcp
  imports Udp
begin

text \<open>
  The DHCP client, \<open>mckrnl/net/dhcp.c\<close>. A packet is its 300 bytes; \<open>env\<close> is what happens while the
  call waits for ARP or for the answer. The received packet is the data of the datagram: reading past its
  end is an access outside the buffer, reading an option that is not there goes through \<open>NULL\<close>.
\<close>

section \<open>Definitions\<close>

definition HOSTNAME :: "u8 list" where
  "HOSTNAME = [0x4D, 0x69, 0x63, 0x72, 0x6F, 0x4F, 0x53]"

text \<open>
  The options are written one after the other; the two bytes of the client identifier's 8-byte copy that
  do not belong to the hardware address are overwritten by the next option.
\<close>

definition dhcp_make_options :: "u64 \<Rightarrow> u8 \<Rightarrow> u32 \<Rightarrow> u8 list" where
  "dhcp_make_options mac msg_type request_ip =
     put32 (BSWAP32 0x63825363) @ [53, 1, msg_type] @ [61, 0x07, 0x01] @ put48 mac @
     [50, 0x04] @ put32 request_ip @ [12, 1 + of_nat (length HOSTNAME)] @ HOSTNAME @ [0x00] @
     [55, 8, 0x1, 0x3, 0x6, 0xf, 0x2c, 0x2e, 0x2f, 0x39] @ [0xff]"

definition dhcp_make_packet :: "u64 \<Rightarrow> u8 \<Rightarrow> u32 \<Rightarrow> u8 list" where
  "dhcp_make_packet mac msg_type request_ip =
     [1, 1, 6, 0] @ put32 (BSWAP32 0x55555555) @ put16 0 @ put16 (BSWAP16 0) @
     put32 0 @ put32 0 @ put32 0 @ put32 0 @
     (put32 (ucast mac) @ put32 (ucast (drop_bit 32 mac)) @ replicate 8 0) @ replicate 64 0 @ replicate 128 0 @
     dhcp_make_options mac msg_type request_ip @ replicate 21 0"

definition dhcp_request_ip :: "u32 \<Rightarrow> (net \<Rightarrow> net) list \<Rightarrow> net \<Rightarrow> net res" where
  "dhcp_request_ip ip env s = udp_socket_send (dhcp_sock s) (dhcp_make_packet (nic_mac s) 3 ip) env s"

primrec dhcp_wait :: "nat \<Rightarrow> (net \<Rightarrow> net) list \<Rightarrow> net \<Rightarrow> net" where
  "dhcp_wait 0 env s = s"
| "dhcp_wait (Suc n) env s = (let (s1, env1) = sleep env s in if dhcp_completed s1 then s1 else dhcp_wait n env1 s1)"

definition dhcp_request :: "(net \<Rightarrow> net) list \<Rightarrow> (net \<Rightarrow> net) list \<Rightarrow> net \<Rightarrow> net res" where
  "dhcp_request env_arp env s =
     rbind (udp_socket_send (dhcp_sock s) (dhcp_make_packet (nic_mac s) 1 0x00000000) env_arp s)
       (\<lambda>s1. Inr (dhcp_wait 1999 env s1))"

text \<open>
  \<open>dhcp_get_options\<close>: the position of the value of the first option of the given type. The loop has no
  bound of its own; it ends at the end marker, or runs out of the packet.
\<close>

function dhcp_options :: "u8 list \<Rightarrow> nat \<Rightarrow> u8 \<Rightarrow> nat option res" where
  "dhcp_options packet i type =
     (if i \<ge> length packet then Inl OutOfBounds
      else if packet ! i = 0xff then Inr None
      else if i + 1 \<ge> length packet then Inl OutOfBounds
      else if packet ! i = type then Inr (Some (i + 2))
      else dhcp_options packet (i + (2 + unat (packet ! (i + 1)))) type)"
  by auto
termination by (relation "measure (\<lambda>(p, i, t). length p - i)") auto

declare dhcp_options.simps [simp del]

definition dhcp_get_options :: "u8 list \<Rightarrow> u8 \<Rightarrow> nat option res" where
  "dhcp_get_options packet type = dhcp_options packet 240 type"

text \<open>The reads \<open>*(uint8_t*)\<close> and \<open>*(uint32_t*)\<close> through the pointer that \<open>dhcp_get_options\<close> returns.\<close>

definition dhcp_opt8 :: "u8 list \<Rightarrow> u8 \<Rightarrow> u8 res" where
  "dhcp_opt8 packet type = rbind (dhcp_get_options packet type) (\<lambda>p. case p of None \<Rightarrow> Inl NullDeref
     | Some i \<Rightarrow> if i < length packet then Inr (packet ! i) else Inl OutOfBounds)"

definition dhcp_opt32 :: "u8 list \<Rightarrow> u8 \<Rightarrow> u32 res" where
  "dhcp_opt32 packet type = rbind (dhcp_get_options packet type) (\<lambda>p. case p of None \<Rightarrow> Inl NullDeref
     | Some i \<Rightarrow> if i + 4 \<le> length packet then Inr (get32 packet i) else Inl OutOfBounds)"

definition dhcp_udp_recv :: "(net \<Rightarrow> net) list \<Rightarrow> u8 list \<Rightarrow> net \<Rightarrow> net res" where
  "dhcp_udp_recv env packet s =
     rbind (dhcp_opt8 packet 53) (\<lambda>type.
       if type = 2 then dhcp_request_ip (get32 packet 16) env s
       else if type = 5 then
         rbind (dhcp_opt32 packet 3) (\<lambda>gateway.
         rbind (dhcp_opt32 packet 6) (\<lambda>dns.
         rbind (dhcp_opt32 packet 1) (\<lambda>subnet.
         Inr (s\<lparr>dhcp_ip := get32 packet 16, dhcp_gateway := gateway, dhcp_dns := dns, dhcp_completed := True,
                dhcp_subnet := subnet\<rparr>))))
       else Inr s)"

definition dhcp_init :: "net \<Rightarrow> net" where
  "dhcp_init s =
     (let (i, s1) = udp_connect 0xffffffff 67 (s\<lparr>dhcp_ip := 0, dhcp_gateway := 0, dhcp_subnet := 0, dhcp_dns := 0, dhcp_completed := False\<rparr>)
      in s1\<lparr>dhcp_sock := i,
            udp_socks := (udp_socks s1)(i := (udp_socks s1 i)\<lparr>u_local_port := BSWAP16 68, u_recv := DhcpRecv\<rparr>)\<rparr>)"

section \<open>Options\<close>

text \<open>The encoding of a list of options: type, length, value.\<close>

fun dhcp_encode :: "(u8 \<times> u8 list) list \<Rightarrow> u8 list" where
  "dhcp_encode [] = []"
| "dhcp_encode ((t, v) # es) = t # of_nat (length v) # v @ dhcp_encode es"

definition dhcp_wf :: "(u8 \<times> u8 list) list \<Rightarrow> bool" where
  "dhcp_wf es \<longleftrightarrow> (\<forall>(t, v) \<in> set es. t \<noteq> 0xff \<and> length v < 256)"

lemma dhcp_options_find:
  "dhcp_wf es \<Longrightarrow> i = length pre \<Longrightarrow>
   (case find (\<lambda>e. fst e = type) es of
      None \<Rightarrow> dhcp_options (pre @ dhcp_encode es @ 0xff # post) i type = Inr None
    | Some (t, v) \<Rightarrow> \<exists>j. dhcp_options (pre @ dhcp_encode es @ 0xff # post) i type = Inr (Some j) \<and>
        j + length v \<le> length (pre @ dhcp_encode es @ 0xff # post) \<and>
        take (length v) (drop j (pre @ dhcp_encode es @ 0xff # post)) = v)"
proof (induction es arbitrary: pre i)
  case Nil
  then show ?case by (simp add: dhcp_options.simps nth_append)
next
  case (Cons e es)
  obtain t v where e: "e = (t, v)" by fastforce
  let ?l = "of_nat (length v) :: u8"
  let ?p = "pre @ dhcp_encode (e # es) @ 0xff # post"
  have t: "t \<noteq> 0xff" "length v < 256" "dhcp_wf es" using Cons.prems(1) by (auto simp: dhcp_wf_def e)
  have u: "unat ?l = length v" using t(2) by (simp add: unat_of_nat take_bit_nat_eq_self)
  have p: "?p = (pre @ [t, ?l] @ v) @ dhcp_encode es @ 0xff # post" by (simp add: e)
  have nth: "?p ! i = t" "?p ! (i + 1) = ?l" "i + 1 < length ?p"
    using Cons.prems(2) by (simp_all add: e nth_append)
  show ?case
  proof (cases "t = type")
    case True
    have "dhcp_options ?p i type = Inr (Some (i + 2))"
      using nth t(1) True by (subst dhcp_options.simps) simp
    moreover have "take (length v) (drop (i + 2) ?p) = v" using Cons.prems(2) by (simp add: e)
    moreover have "i + 2 + length v \<le> length ?p" using Cons.prems(2) by (simp add: e)
    ultimately show ?thesis using True by (auto simp: e)
  next
    case False
    have step: "dhcp_options ?p i type = dhcp_options ?p (i + (2 + length v)) type"
      using nth t(1) False u by (subst dhcp_options.simps) simp
    have f: "find (\<lambda>e. fst e = type) (e # es) = find (\<lambda>e. fst e = type) es" using False by (simp add: e)
    have "i + (2 + length v) = length (pre @ [t, ?l] @ v)" using Cons.prems(2) by simp
    from Cons.IH [OF t(3) this, folded p] show ?thesis unfolding f step .
  qed
qed

lemma dhcp_read32:
  assumes "j + 4 \<le> length p" "take 4 (drop j p) = put32 x"
  shows "get32 p j = x"
proof -
  have "p = take j p @ put32 x @ drop (j + 4) p"
    using assms(2) by (metis append_take_drop_id drop_drop add.commute)
  moreover have "j = length (take j p)" using assms(1) by simp
  ultimately show ?thesis using get32_put32 by metis
qed

lemma put64_split:
  "put32 (ucast m) @ put32 (ucast (drop_bit 32 m)) @ z = put48 m @ [ucast (drop_bit 48 m), ucast (drop_bit 56 m)] @ z" for m :: u64
proof -
  have "(ucast (ucast (drop_bit 32 m) :: u32) :: u8) = ucast (ucast (drop_bit 32 m) :: u16)"
    "(ucast (drop_bit 8 (ucast (drop_bit 32 m) :: u32)) :: u8) = ucast (drop_bit 8 (ucast (drop_bit 32 m) :: u16))"
    "(ucast (drop_bit 16 (ucast (drop_bit 32 m) :: u32)) :: u8) = ucast (drop_bit 48 m)"
    "(ucast (drop_bit 24 (ucast (drop_bit 32 m) :: u32)) :: u8) = ucast (drop_bit 56 m)"
    by (rule bit_word_eqI; auto simp: bit_simps)+
  then show ?thesis by (simp add: put32_def put48_def put16_def)
qed

definition dhcp_reply :: "u8 list \<Rightarrow> (u8 \<times> u8 list) list \<Rightarrow> u8 list \<Rightarrow> u8 list" where
  "dhcp_reply hdr es post = hdr @ dhcp_encode es @ 0xff # post"

lemma dhcp_opt32_find:
  assumes "dhcp_wf es" "length hdr = 240" "find (\<lambda>e. fst e = type) es = Some (type, put32 x)"
  shows "dhcp_opt32 (dhcp_reply hdr es post) type = Inr x"
  using dhcp_options_find [OF assms(1), where i = 240 and pre = hdr and type = type and post = post] assms(2,3) dhcp_read32
  by (auto simp: dhcp_opt32_def dhcp_get_options_def dhcp_reply_def)

lemma dhcp_opt8_find:
  assumes "dhcp_wf es" "length hdr = 240" "find (\<lambda>e. fst e = type) es = Some (type, [x])"
  shows "dhcp_opt8 (dhcp_reply hdr es post) type = Inr x"
proof -
  let ?p = "dhcp_reply hdr es post"
  obtain j where "dhcp_get_options ?p type = Inr (Some j)" "j + 1 \<le> length ?p" "take 1 (drop j ?p) = [x]"
    using dhcp_options_find [OF assms(1), where i = 240 and pre = hdr and type = type and post = post] assms(2,3)
    by (auto simp: dhcp_get_options_def dhcp_reply_def)
  moreover from this have "?p ! j = x" by (cases "drop j ?p") (auto simp: nth_via_drop)
  ultimately show ?thesis by (simp add: dhcp_opt8_def)
qed

text \<open>
  The client's messages. The packet it builds has 300 bytes, carries the client's hardware
  address, and its message type and requested address are found by the same option parser.
\<close>

lemma dhcp_make_packet_roundtrip:
  "length (dhcp_make_packet mac msg_type ip) = 300 \<and> get48 (dhcp_make_packet mac msg_type ip) 28 = take_bit 48 mac \<and>
   dhcp_opt8 (dhcp_make_packet mac msg_type ip) 53 = Inr msg_type \<and> dhcp_opt32 (dhcp_make_packet mac msg_type ip) 50 = Inr ip \<and>
   dhcp_get_options (dhcp_make_packet mac msg_type ip) 51 = Inr None"
proof -
  let ?h = "[1, 1, 6, 0] @ put32 (BSWAP32 0x55555555) @ put16 0 @ put16 (BSWAP16 0) @ put32 0 @ put32 0 @ put32 0 @ put32 0 @
     (put32 (ucast mac) @ put32 (ucast (drop_bit 32 mac)) @ replicate 8 0) @ replicate 64 0 @ replicate 128 0 @
     put32 (BSWAP32 0x63825363)"
  let ?es = "[(53, [msg_type]), (61, 0x01 # put48 mac), (50, put32 ip), (12, HOSTNAME @ [0x00]),
     (55, [0x1, 0x3, 0x6, 0xf, 0x2c, 0x2e, 0x2f, 0x39])]"
  have p: "dhcp_make_packet mac msg_type ip = dhcp_reply ?h ?es (replicate 21 0)"
    by (simp add: dhcp_make_packet_def dhcp_make_options_def dhcp_reply_def HOSTNAME_def)
  have w: "dhcp_wf ?es" "length ?h = 240" by (simp_all add: dhcp_wf_def HOSTNAME_def)
  have "dhcp_get_options (dhcp_reply ?h ?es (replicate 21 0)) 51 = Inr None"
    using dhcp_options_find [OF w(1), where i = 240 and pre = ?h and type = 51 and post = "replicate 21 0"] w(2)
    by (simp add: dhcp_get_options_def dhcp_reply_def)
  moreover have "length (dhcp_reply ?h ?es (replicate 21 0)) = 300" by (simp add: dhcp_reply_def HOSTNAME_def)
  moreover have "get48 (dhcp_reply ?h ?es (replicate 21 0)) 28 = take_bit 48 mac"
    using get48_put48 [of 28 "[1, 1, 6, 0] @ put32 (BSWAP32 0x55555555) @ put16 0 @ put16 (BSWAP16 0) @ put32 0 @ put32 0 @ put32 0 @ put32 0" mac]
    by (simp add: dhcp_reply_def put64_split)
  ultimately show ?thesis
    unfolding p using dhcp_opt8_find [OF w, of 53 msg_type] dhcp_opt32_find [OF w, of 50 ip] by simp
qed

text \<open>
  The answer to an address request. On an acknowledgement whose options carry the
  gateway, the name server and the subnet mask, in any order, the client takes over these and the address given to
  it, and marks the exchange complete; an offer is answered by a request for the offered address;
  a message of any other type changes nothing.
\<close>

lemma dhcp_udp_recv_message:
  assumes "dhcp_wf es" "length hdr = 240" "find (\<lambda>e. fst e = 53) es = Some (53, [ty])"
    and "find (\<lambda>e. fst e = 3) es = Some (3, put32 gateway)" "find (\<lambda>e. fst e = 6) es = Some (6, put32 dns)"
    and "find (\<lambda>e. fst e = 1) es = Some (1, put32 subnet)"
  shows "dhcp_udp_recv env (dhcp_reply hdr es post) s =
    (if ty = 2 then Inr (ipv4_send 0x11 (u_remote_ip (udp_socks s (dhcp_sock s)))
       (udp_packet (u_local_port (udp_socks s (dhcp_sock s))) (u_remote_port (udp_socks s (dhcp_sock s)))
         (dhcp_make_packet (nic_mac s) 3 (get32 hdr 16))) env s)
     else if ty = 5 then Inr (s\<lparr>dhcp_ip := get32 hdr 16, dhcp_gateway := gateway, dhcp_dns := dns, dhcp_completed := True,
       dhcp_subnet := subnet\<rparr>)
     else Inr s)"
proof -
  have g: "get32 (dhcp_reply hdr es post) 16 = get32 hdr 16"
    using assms(2) by (simp add: get32_def dhcp_reply_def nth_append)
  have l: "length (dhcp_make_packet m t i) = 300" for m t i
    by (simp add: dhcp_make_packet_def dhcp_make_options_def HOSTNAME_def)
  show ?thesis
    unfolding dhcp_udp_recv_def dhcp_opt8_find [OF assms(1-3)] dhcp_opt32_find [OF assms(1,2,4)]
      dhcp_opt32_find [OF assms(1,2,5)] dhcp_opt32_find [OF assms(1,2,6)] g
    by (simp add: dhcp_request_ip_def udp_socket_send_def Let_def l)
qed

end
