(* ===== verification/Tcp.thy ===== *)
theory Tcp
  imports Udp
begin

text \<open>
  TCP, \<open>mckrnl/net/tcp.c\<close>. Sockets are named as in UDP. The argument \<open>cb\<close> is what a socket's
  \<open>recv\<close> callback does, \<open>env\<close> gives for each of the sends of one call what happens to the stack
  while it waits for ARP, and \<open>k\<close> is the operator's answer to a panic. \<open>tcp_listen\<close> is declared in the
  source and never defined. A socket is freed when it is unbound, so a call with a socket that is
  not bound is an access to freed memory.
\<close>

section \<open>Definitions\<close>

abbreviation FIN :: u8 where "FIN \<equiv> 1"
abbreviation SYN :: u8 where "SYN \<equiv> 2"
abbreviation RST :: u8 where "RST \<equiv> 4"
abbreviation PSH :: u8 where "PSH \<equiv> 8"
abbreviation ACK :: u8 where "ACK \<equiv> 16"

text \<open>The 24-byte header with the given checksum field; the second value is the pseudo header.\<close>

definition tcp_header :: "u16 \<Rightarrow> tcp_socket \<Rightarrow> u8 \<Rightarrow> u8 list" where
  "tcp_header checksum t flags =
     put16 (t_local_port t) @ put16 (t_remote_port t) @ put32 (BSWAP32 (t_sequence_number t)) @
     put32 (BSWAP32 (t_ack_number t)) @ [0x60, flags] @ put16 0xFFFF @ put16 checksum @ put16 0 @
     put32 (if flags AND SYN \<noteq> 0 then 0xB4050402 else 0)"

definition tcp_pseudo_header :: "tcp_socket \<Rightarrow> u16 \<Rightarrow> u8 list" where
  "tcp_pseudo_header t total_length =
     put32 (t_local_ip t) @ put32 (t_remote_ip t) @ put16 0x0600 @ put16 (BSWAP16 total_length)"

definition tcp_packet :: "tcp_socket \<Rightarrow> u8 \<Rightarrow> u8 list \<Rightarrow> u8 list" where
  "tcp_packet t flags data =
     (let total_length = (of_nat (length data + 24) :: u16);
          length_phdr = (ucast total_length + 12 :: u32)
      in tcp_header (ipv4_checksum (tcp_pseudo_header t total_length @ tcp_header 0 t flags @ data) length_phdr) t flags
           @ data)"

text \<open>
  \<open>tcp_socket_send_internal\<close>. The lengths have 16 bits, and a larger packet overruns its buffer. The
  sequence number is advanced after it is put into the header.
\<close>

definition tcp_socket_send_internal :: "nat \<Rightarrow> u8 list \<Rightarrow> u8 \<Rightarrow> (net \<Rightarrow> net) list \<Rightarrow> net \<Rightarrow> net res" where
  "tcp_socket_send_internal sock data flags env s =
     (let t = tcp_socks s sock in
      if length data + 36 \<ge> 65536 then Inl OutOfBounds
      else Inr (ipv4_send 0x06 (t_remote_ip t) (tcp_packet t flags data) env
        (s\<lparr>tcp_socks := (tcp_socks s)(sock := t\<lparr>t_sequence_number := t_sequence_number t + of_nat (length data)\<rparr>)\<rparr>)))"

definition upd_tcp :: "nat \<Rightarrow> (tcp_socket \<Rightarrow> tcp_socket) \<Rightarrow> net \<Rightarrow> net" where
  "upd_tcp sock f s = s\<lparr>tcp_socks := (tcp_socks s)(sock := f (tcp_socks s sock))\<rparr>"

definition tcp_exists :: "nat \<Rightarrow> net \<Rightarrow> bool" where
  "tcp_exists sock s \<longleftrightarrow> Some sock \<in> snd ` set (tcp_binds s)"

definition tcp_socket_disconnect :: "nat \<Rightarrow> (net \<Rightarrow> net) list \<Rightarrow> net \<Rightarrow> net res" where
  "tcp_socket_disconnect sock env s =
     (if \<not> tcp_exists sock s then Inl OutOfBounds else
      rbind (tcp_socket_send_internal sock [] (FIN OR ACK) env (upd_tcp sock (\<lambda>t. t\<lparr>t_state := FIN_WAIT1\<rparr>) s))
       (\<lambda>s1. Inr (upd_tcp sock (\<lambda>t. t\<lparr>t_sequence_number := t_sequence_number t + 1\<rparr>) s1)))"

definition tcp_socket_send :: "nat \<Rightarrow> u8 list \<Rightarrow> (net \<Rightarrow> net) list \<Rightarrow> net \<Rightarrow> net res" where
  "tcp_socket_send sock data env s =
     (if \<not> tcp_exists sock s then Inl OutOfBounds else tcp_socket_send_internal sock data (PSH OR ACK) env s)"

primrec tcp_wait :: "nat \<Rightarrow> nat \<Rightarrow> (net \<Rightarrow> net) list \<Rightarrow> net \<Rightarrow> net res" where
  "tcp_wait 0 sock env s = Inr s"
| "tcp_wait (Suc n) sock env s =
     (let (s1, env1) = sleep env s in
      if \<not> tcp_exists sock s1 then Inl OutOfBounds
      else if t_state (tcp_socks s1 sock) = ESTABLISHED then Inr s1 else tcp_wait n sock env1 s1)"

definition tcp_wait_established :: "nat \<Rightarrow> (net \<Rightarrow> net) list \<Rightarrow> net \<Rightarrow> net res" where
  "tcp_wait_established sock env s = tcp_wait 1999 sock env s"

definition tcp_connect :: "u32 \<Rightarrow> u16 \<Rightarrow> u32 \<Rightarrow> (net \<Rightarrow> net) list \<Rightarrow> (net \<Rightarrow> net) list \<Rightarrow> net \<Rightarrow> (nat \<times> net) res" where
  "tcp_connect ip port time_ms env_arp env s =
     (let i = tcp_next s;
          t = \<lparr>t_remote_port = BSWAP16 port, t_local_port = BSWAP16 (ucast (tcp_free_port s)), t_remote_ip = ip,
               t_local_ip = nic_ip s, t_listening = False, t_sequence_number = time_ms, t_ack_number = 0,
               t_state = SYN_SENT, t_recv = TcpNone\<rparr>;
          s1 = s\<lparr>tcp_free_port := tcp_free_port s + 1, tcp_next := Suc i, tcp_socks := (tcp_socks s)(i := t),
                 tcp_binds := bind_put (t_local_port t, Some i) (tcp_binds s)\<rparr>
      in rbind (tcp_socket_send_internal i [] SYN env_arp s1) (\<lambda>s2.
         rbind (tcp_wait_established i env s2) (\<lambda>s3. Inr (i, s3))))"

primrec tcp_route :: "(u16 \<times> nat option) list \<Rightarrow> u16 \<Rightarrow> u16 \<Rightarrow> u32 \<Rightarrow> u32 \<Rightarrow> net \<Rightarrow> nat option \<times> net" where
  "tcp_route [] src_port dst_port src dst s = (None, s)"
| "tcp_route (b # bs) src_port dst_port src dst s =
     (case snd b of
        None \<Rightarrow> tcp_route bs src_port dst_port src dst s
      | Some i \<Rightarrow>
          let t = tcp_socks s i in
          if t_local_port t = dst_port \<and> t_local_ip t = dst \<and> t_listening t then
            (Some i, upd_tcp i (\<lambda>t. t\<lparr>t_listening := False, t_remote_port := src_port, t_remote_ip := src\<rparr>) s)
          else if t_remote_port t = src_port \<and> t_remote_ip t = src then (Some i, s)
          else tcp_route bs src_port dst_port src dst s)"

text \<open>
  The \<open>switch\<close> of \<open>tcp_ipv4_recv\<close>. The result says how it is left: by the \<open>return\<close>s of the case
  \<open>ACK\<close>, or at the end, with the flag \<open>reset\<close>. \<open>flags\<close> is the whole flags byte.
\<close>

datatype tcp_exit = TcpReturn net | TcpEnd bool net

definition tcp_data :: "(tcp_cb \<Rightarrow> nat \<Rightarrow> u8 list \<Rightarrow> u32 \<Rightarrow> net \<Rightarrow> net res) \<Rightarrow> (net \<Rightarrow> net) list \<Rightarrow> nat \<Rightarrow> u8 list \<Rightarrow> u32 \<Rightarrow>
    net \<Rightarrow> tcp_exit res" where
  "tcp_data cb env sock payload sz s =
     (let hs = (ucast (drop_bit 4 (payload ! 12)) :: u32) * 4 in
      if BSWAP32 (get32 payload 4) = t_ack_number (tcp_socks s sock) then
        rbind (cb (t_recv (tcp_socks s sock)) sock (drop (unat hs) payload) (sz - hs) s) (\<lambda>s1.
        rbind (tcp_socket_send_internal sock [] ACK env
                (upd_tcp sock (\<lambda>t. t\<lparr>t_ack_number := t_ack_number t + (sz - hs)\<rparr>) s1)) (\<lambda>s2.
        Inr (TcpEnd False s2)))
      else Inr (TcpEnd True s))"

definition tcp_switch :: "panic_key \<Rightarrow> (tcp_cb \<Rightarrow> nat \<Rightarrow> u8 list \<Rightarrow> u32 \<Rightarrow> net \<Rightarrow> net res) \<Rightarrow> (nat \<Rightarrow> (net \<Rightarrow> net) list) \<Rightarrow> nat \<Rightarrow>
    u8 list \<Rightarrow> u32 \<Rightarrow> net \<Rightarrow> tcp_exit res" where
  "tcp_switch k cb env sock payload sz s =
     (let flags = payload ! 13; c = flags AND (SYN OR ACK OR FIN); st = t_state (tcp_socks s sock) in
      if c = SYN then
        (if st = LISTEN then rbind (abortf k) (\<lambda>_. Inr (TcpEnd False s)) else Inr (TcpEnd True s))
      else if c = SYN OR ACK then
        (if st = SYN_SENT then
           rbind (tcp_socket_send_internal sock [] ACK (env 0)
             (upd_tcp sock (\<lambda>t. t\<lparr>t_state := ESTABLISHED, t_ack_number := BSWAP32 (get32 payload 4) + 1,
                                t_sequence_number := t_sequence_number t + 1\<rparr>) s)) (\<lambda>s1. Inr (TcpEnd False s1))
         else Inr (TcpEnd True s))
      else if c = SYN OR FIN \<or> c = SYN OR FIN OR ACK then Inr (TcpEnd True s)
      else if c = FIN \<or> c = FIN OR ACK then
        (if st = ESTABLISHED then
           rbind (tcp_socket_send_internal sock [] ACK (env 0)
             (upd_tcp sock (\<lambda>t. t\<lparr>t_state := CLOSE_WAIT, t_ack_number := t_ack_number t + 1\<rparr>) s)) (\<lambda>s1.
           rbind (tcp_socket_send_internal sock [] (FIN OR ACK) (env 1) s1) (\<lambda>s2. Inr (TcpEnd False s2)))
         else if st = CLOSE_WAIT then Inr (TcpEnd False (upd_tcp sock (\<lambda>t. t\<lparr>t_state := CLOSED\<rparr>) s))
         else if st = FIN_WAIT1 \<or> st = FIN_WAIT2 then
           rbind (tcp_socket_send_internal sock [] ACK (env 0)
             (upd_tcp sock (\<lambda>t. t\<lparr>t_state := CLOSED, t_ack_number := t_ack_number t + 1\<rparr>) s)) (\<lambda>s1. Inr (TcpEnd False s1))
         else Inr (TcpEnd True s))
      else if c = ACK \<and> st = SYN_RECEIVED then
        Inr (TcpReturn (upd_tcp sock (\<lambda>t. t\<lparr>t_state := ESTABLISHED\<rparr>) s))
      else if c = ACK \<and> st = FIN_WAIT1 then
        Inr (TcpReturn (upd_tcp sock (\<lambda>t. t\<lparr>t_state := FIN_WAIT2\<rparr>) s))
      else if c = ACK \<and> st = CLOSE_WAIT then
        Inr (TcpEnd False (upd_tcp sock (\<lambda>t. t\<lparr>t_state := CLOSED\<rparr>) s))
      else if c = ACK \<and> flags = ACK then Inr (TcpEnd False s)
      else tcp_data cb (env 0) sock payload sz s)"

definition tcp_finish :: "(net \<Rightarrow> net) list \<Rightarrow> nat \<Rightarrow> bool \<Rightarrow> net \<Rightarrow> net res" where
  "tcp_finish env sock reset s =
     rbind (if reset then rbind (tcp_socket_send_internal sock [] RST env s)
                           (\<lambda>s1. Inr (upd_tcp sock (\<lambda>t. t\<lparr>t_state := CLOSED\<rparr>) s1))
            else Inr s) (\<lambda>s1.
     Inr (if t_state (tcp_socks s1 sock) = CLOSED
          then s1\<lparr>tcp_binds := bind_del sock (tcp_binds s1)\<rparr> else s1))"

definition tcp_ipv4_recv :: "panic_key \<Rightarrow> (tcp_cb \<Rightarrow> nat \<Rightarrow> u8 list \<Rightarrow> u32 \<Rightarrow> net \<Rightarrow> net res) \<Rightarrow> (nat \<Rightarrow> (net \<Rightarrow> net) list) \<Rightarrow>
    u32 \<Rightarrow> u32 \<Rightarrow> u8 list \<Rightarrow> u32 \<Rightarrow> net \<Rightarrow> net res" where
  "tcp_ipv4_recv k cb env src dst payload sz s =
     (if sz < 24 then Inr s
      else if length payload < 24 then Inl OutOfBounds
      else case tcp_route (tcp_binds s) (get16 payload 0) (get16 payload 2) src dst s of
             (None, s1) \<Rightarrow> Inr s1
           | (Some sock, s1) \<Rightarrow>
               rbind (if t_state (tcp_socks s1 sock) \<noteq> CLOSED then tcp_switch k cb env sock payload sz s1
                      else Inr (TcpEnd False s1)) (\<lambda>x.
               case x of TcpReturn s2 \<Rightarrow> Inr s2 | TcpEnd reset s2 \<Rightarrow> tcp_finish (env 2) sock reset s2))"

definition tcp_init :: "net \<Rightarrow> net" where
  "tcp_init s = ipv4_register (0x06, TcpRecv) (s\<lparr>tcp_binds := [], tcp_free_port := 1024\<rparr>)"

section \<open>Sends without interrupts\<close>

text \<open>When nothing happens during the sleeps, a send only appends frames to the log.\<close>

lemma arp_wait_quiet: "snd (arp_wait n ip r [] s) = s"
  by (induction n arbitrary: r) (simp_all add: sleep_def)

lemma arp_request_sent: "\<exists>fs. arp_request_mac ip s = s\<lparr>nic_sent := nic_sent s @ fs\<rparr>"
  unfolding arp_request_mac_def etherframe_send_def by blast

lemma no_frames: "s = s\<lparr>nic_sent := nic_sent s @ []\<rparr>"
  by simp

lemma arp_resolve_quiet: "\<exists>fs. snd (arp_resolve ip [] s) = s\<lparr>nic_sent := nic_sent s @ fs\<rparr>"
proof (cases "ip \<noteq> 0xffffffff \<and> arp_get_mac_from_cache (arp_cache s) ip = 0xFFFFFFFFFFFF")
  case True
  then have "snd (arp_resolve ip [] s) = arp_request_mac ip s"
    unfolding arp_resolve_def Let_def by (simp only: arp_wait_quiet if_False if_True simp_thms)
  then show ?thesis using arp_request_sent by metis
next
  case False
  then have "snd (arp_resolve ip [] s) = s"
    unfolding arp_resolve_def Let_def using arp_wait_quiet by (auto simp del: arp_wait.simps)
  then show ?thesis using no_frames by metis
qed

lemma ipv4_send_quiet: "\<exists>fs. ipv4_send p d x [] s = s\<lparr>nic_sent := nic_sent s @ fs\<rparr>"
proof -
  obtain fs where fs: "snd (arp_resolve (ipv4_route d s) [] s) = s\<lparr>nic_sent := nic_sent s @ fs\<rparr>"
    using arp_resolve_quiet by blast
  obtain g where "ipv4_send p d x [] s = (snd (arp_resolve (ipv4_route d s) [] s))
      \<lparr>nic_sent := nic_sent (snd (arp_resolve (ipv4_route d s) [] s)) @ [g]\<rparr>"
    by (simp add: ipv4_send_def case_prod_beta etherframe_send_def)
  then have "ipv4_send p d x [] s = s\<lparr>nic_sent := nic_sent s @ (fs @ [g])\<rparr>"
    unfolding fs by simp
  then show ?thesis by blast
qed

lemma tcp_send_quiet:
  assumes "length data < 60000"
  obtains fs where "tcp_socket_send_internal sock data flags [] s =
    Inr ((upd_tcp sock (\<lambda>t. t\<lparr>t_sequence_number := t_sequence_number t + of_nat (length data)\<rparr>) s)
      \<lparr>nic_sent := nic_sent s @ fs\<rparr>)"
proof -
  define s1 where "s1 = upd_tcp sock (\<lambda>t. t\<lparr>t_sequence_number := t_sequence_number t + of_nat (length data)\<rparr>) s"
  obtain fs where fs: "ipv4_send 0x06 (t_remote_ip (tcp_socks s sock)) (tcp_packet (tcp_socks s sock) flags data) [] s1 =
    s1\<lparr>nic_sent := nic_sent s1 @ fs\<rparr>"
    using ipv4_send_quiet by blast
  have "tcp_socket_send_internal sock data flags [] s =
      Inr (ipv4_send 0x06 (t_remote_ip (tcp_socks s sock)) (tcp_packet (tcp_socks s sock) flags data) [] s1)"
    using assms by (simp add: tcp_socket_send_internal_def Let_def s1_def upd_tcp_def)
  moreover have "nic_sent s1 = nic_sent s" by (simp add: s1_def upd_tcp_def)
  ultimately show ?thesis using that [of fs] fs unfolding s1_def by simp
qed

section \<open>The protocol's state machine\<close>

text \<open>
  What a segment does to the state of the connection it belongs to. \<open>ordered\<close> says whether its
  sequence number is the next one expected.
\<close>

definition tcp_next_state :: "u8 \<Rightarrow> bool \<Rightarrow> tcp_state \<Rightarrow> tcp_state" where
  "tcp_next_state flags ordered st =
     (let fin = bit flags 0; syn = bit flags 1; ack = bit flags 4; data = (if ordered then st else CLOSED) in
      if st = CLOSED \<or> syn \<and> fin then CLOSED
      else if syn \<and> ack then (if st = SYN_SENT then ESTABLISHED else CLOSED)
      else if syn then (if st = LISTEN then LISTEN else CLOSED)
      else if fin then (if st = ESTABLISHED then CLOSE_WAIT else CLOSED)
      else if ack then (if st = SYN_RECEIVED then ESTABLISHED else if st = FIN_WAIT1 then FIN_WAIT2
        else if st = CLOSE_WAIT then CLOSED else if flags = ACK then st else data)
      else data)"

lemma tcp_flags:
  fixes flags :: u8
  shows "flags AND (SYN OR ACK OR FIN) =
    (if bit flags 0 then 1 else 0) OR (if bit flags 1 then 2 else 0) OR (if bit flags 4 then 16 else 0)"
proof (rule bit_word_eqI)
  fix n
  assume "n < LENGTH(8)"
  then have "n < 8" by simp
  then consider "n = 0" | "n = 1" | "n = 2" | "n = 3" | "n = 4" | "n = 5" | "n = 6" | "n = 7" by linarith
  then show "bit (flags AND (SYN OR ACK OR FIN)) n =
    bit ((if bit flags 0 then 1 else 0) OR (if bit flags 1 then 2 else 0) OR (if bit flags 4 then 16 else 0) :: u8) n"
    by cases (simp_all add: bit_simps)
qed

text \<open>What a receive callback may do: it always returns and leaves TCP's own state alone.\<close>

definition tcp_callback :: "(tcp_cb \<Rightarrow> nat \<Rightarrow> u8 list \<Rightarrow> u32 \<Rightarrow> net \<Rightarrow> net res) \<Rightarrow> bool" where
  "tcp_callback cb \<longleftrightarrow> (\<forall>c i d n s. \<exists>s'. cb c i d n s = Inr s' \<and> tcp_socks s' = tcp_socks s \<and> tcp_binds s' = tcp_binds s \<and>
     tcp_next s' = tcp_next s)"

text \<open>The part of a socket that a segment does not change once the socket is connected.\<close>

definition tcp_addr :: "tcp_socket \<Rightarrow> u16 \<times> u16 \<times> u32 \<times> u32 \<times> bool \<times> tcp_cb" where
  "tcp_addr t = (t_remote_port t, t_local_port t, t_remote_ip t, t_local_ip t, t_listening t, t_recv t)"

text \<open>\<open>s'\<close> is \<open>s\<close> with socket \<open>sock\<close> in state \<open>st\<close>; its sequence numbers may have changed.\<close>

definition tcp_moved :: "nat \<Rightarrow> tcp_state \<Rightarrow> net \<Rightarrow> net \<Rightarrow> bool" where
  "tcp_moved sock st s s' \<longleftrightarrow> t_state (tcp_socks s' sock) = st \<and> tcp_addr (tcp_socks s' sock) = tcp_addr (tcp_socks s sock) \<and>
     (\<forall>j. j \<noteq> sock \<longrightarrow> tcp_socks s' j = tcp_socks s j) \<and>
     tcp_binds s' = tcp_binds s \<and> tcp_next s' = tcp_next s"

lemma tcp_moved_refl: "tcp_moved sock (t_state (tcp_socks s sock)) s s"
  by (simp add: tcp_moved_def)

lemma tcp_moved_upd: "tcp_moved sock st s s' \<Longrightarrow> tcp_addr (f (tcp_socks s' sock)) = tcp_addr (tcp_socks s' sock) \<Longrightarrow>
   tcp_moved sock (t_state (f (tcp_socks s' sock))) s (upd_tcp sock f s')"
  by (simp add: tcp_moved_def upd_tcp_def)

lemma tcp_moved_send:
  assumes "tcp_moved sock st s s'"
  obtains s'' where "tcp_socket_send_internal sock [] flags [] s' = Inr s''" "tcp_moved sock st s s''"
proof -
  obtain fs where "tcp_socket_send_internal sock [] flags [] s' =
      Inr ((upd_tcp sock (\<lambda>t. t\<lparr>t_sequence_number := t_sequence_number t + of_nat (length ([] :: u8 list))\<rparr>) s')
        \<lparr>nic_sent := nic_sent s' @ fs\<rparr>)"
    by (rule tcp_send_quiet [of "[]" sock flags s']) simp
  then show ?thesis by (rule that) (use assms in \<open>auto simp: tcp_moved_def upd_tcp_def tcp_addr_def\<close>)
qed

lemma tcp_upd_send:
  assumes "tcp_addr (f (tcp_socks s sock)) = tcp_addr (tcp_socks s sock)"
  obtains s1 where "tcp_socket_send_internal sock [] flags [] (upd_tcp sock f s) = Inr s1"
    "tcp_moved sock (t_state (f (tcp_socks s sock))) s s1"
  using tcp_moved_send [OF tcp_moved_upd [where f = f, OF tcp_moved_refl [of sock s] assms]] by metis

lemma tcp_upd_send2:
  assumes "tcp_addr (f (tcp_socks s sock)) = tcp_addr (tcp_socks s sock)"
  obtains s1 s2 where "tcp_socket_send_internal sock [] flags [] (upd_tcp sock f s) = Inr s1"
    "tcp_socket_send_internal sock [] flags' [] s1 = Inr s2"
    "tcp_moved sock (t_state (f (tcp_socks s sock))) s s2"
proof -
  obtain s1 where 1: "tcp_socket_send_internal sock [] flags [] (upd_tcp sock f s) = Inr s1"
    "tcp_moved sock (t_state (f (tcp_socks s sock))) s s1"
    by (rule tcp_upd_send [of f s sock flags, OF assms])
  obtain s2 where "tcp_socket_send_internal sock [] flags' [] s1 = Inr s2"
    "tcp_moved sock (t_state (f (tcp_socks s sock))) s s2"
    by (rule tcp_moved_send [OF 1(2)])
  with 1 show ?thesis by (intro that)
qed

text \<open>How the \<open>switch\<close> may end when the state is to become \<open>st\<close>.\<close>

definition tcp_ends :: "nat \<Rightarrow> tcp_state \<Rightarrow> net \<Rightarrow> tcp_exit res \<Rightarrow> bool" where
  "tcp_ends sock st s r \<longleftrightarrow> (\<exists>s'. tcp_moved sock st s s' \<and> (r = Inr (TcpEnd False s') \<or> r = Inr (TcpReturn s') \<and> st \<noteq> CLOSED)) \<or>
     st = CLOSED \<and> r = Inr (TcpEnd True s)"

lemma tcp_ends_send:
  "t_state (f (tcp_socks s sock)) = st \<Longrightarrow> tcp_addr (f (tcp_socks s sock)) = tcp_addr (tcp_socks s sock) \<Longrightarrow>
   tcp_ends sock st s (rbind (tcp_socket_send_internal sock [] flags [] (upd_tcp sock f s)) (\<lambda>s1. Inr (TcpEnd False s1)))"
  by (rule tcp_upd_send [of f s sock flags]) (auto simp: tcp_ends_def)

lemma tcp_ends_send2:
  "t_state (f (tcp_socks s sock)) = st \<Longrightarrow> tcp_addr (f (tcp_socks s sock)) = tcp_addr (tcp_socks s sock) \<Longrightarrow>
   tcp_ends sock st s (rbind (tcp_socket_send_internal sock [] flags [] (upd_tcp sock f s)) (\<lambda>s1.
     rbind (tcp_socket_send_internal sock [] flags' [] s1) (\<lambda>s2. Inr (TcpEnd False s2))))"
  by (rule tcp_upd_send2 [of f s sock flags flags']) (auto simp: tcp_ends_def)

lemma tcp_ends_upd:
  "t_state (f (tcp_socks s sock)) = st \<Longrightarrow> tcp_addr (f (tcp_socks s sock)) = tcp_addr (tcp_socks s sock) \<Longrightarrow>
   tcp_ends sock st s (Inr (TcpEnd False (upd_tcp sock f s)))"
  "t_state (f (tcp_socks s sock)) = st \<Longrightarrow> tcp_addr (f (tcp_socks s sock)) = tcp_addr (tcp_socks s sock) \<Longrightarrow> st \<noteq> CLOSED \<Longrightarrow> tcp_ends sock st s (Inr (TcpReturn (upd_tcp sock f s)))"
  "t_state (tcp_socks s sock) = st \<Longrightarrow> tcp_ends sock st s (Inr (TcpEnd False s))"
  "tcp_ends sock CLOSED s (Inr (TcpEnd True s))"
  unfolding tcp_ends_def using tcp_moved_upd [OF tcp_moved_refl [of sock s], of f] tcp_moved_refl [of sock s] by auto

lemma tcp_ends_data:
  assumes "tcp_callback cb"
  shows "tcp_ends sock (if BSWAP32 (get32 payload 4) = t_ack_number (tcp_socks s sock)
    then t_state (tcp_socks s sock) else CLOSED) s (tcp_data cb [] sock payload sz s)"
proof -
  let ?hs = "ucast (drop_bit 4 (payload ! 12)) * 4 :: u32"
  obtain s0 where s0: "cb (t_recv (tcp_socks s sock)) sock (drop (unat ?hs) payload) (sz - ?hs) s = Inr s0"
    "tcp_socks s0 = tcp_socks s" "tcp_binds s0 = tcp_binds s" "tcp_next s0 = tcp_next s"
    using assms unfolding tcp_callback_def by metis
  have "tcp_ends sock (t_state (tcp_socks s0 sock)) s0 (rbind (tcp_socket_send_internal sock [] ACK []
      (upd_tcp sock (\<lambda>t. t\<lparr>t_ack_number := t_ack_number t + (sz - ?hs)\<rparr>) s0)) (\<lambda>s2. Inr (TcpEnd False s2)))"
    by (rule tcp_ends_send) (simp_all add: tcp_addr_def)
  then have "tcp_ends sock (t_state (tcp_socks s sock)) s (rbind (tcp_socket_send_internal sock [] ACK []
      (upd_tcp sock (\<lambda>t. t\<lparr>t_ack_number := t_ack_number t + (sz - ?hs)\<rparr>) s0)) (\<lambda>s2. Inr (TcpEnd False s2)))"
    unfolding tcp_ends_def tcp_moved_def using s0(2-4)
    by (cases "tcp_socket_send_internal sock [] ACK []
      (upd_tcp sock (\<lambda>t. t\<lparr>t_ack_number := t_ack_number t + (sz - ?hs)\<rparr>) s0)") auto
  then show ?thesis unfolding tcp_data_def Let_def s0(1) by (simp add: tcp_ends_upd s0(1))
qed

lemma tcp_switch_ends:
  assumes "tcp_callback cb" "t_state (tcp_socks s sock) \<noteq> LISTEN" "t_state (tcp_socks s sock) \<noteq> CLOSED"
  shows "tcp_ends sock (tcp_next_state (payload ! 13) (BSWAP32 (get32 payload 4) = t_ack_number (tcp_socks s sock))
    (t_state (tcp_socks s sock))) s (tcp_switch k cb (\<lambda>_. []) sock payload sz s)"
  using assms(2,3) tcp_ends_data [OF assms(1), of sock payload s sz]
  unfolding tcp_switch_def Let_def tcp_flags tcp_next_state_def
  by (cases "bit (payload ! 13) 0"; cases "bit (payload ! 13) 1"; cases "bit (payload ! 13) 4")
    (simp_all add: tcp_ends_send tcp_ends_send2 tcp_ends_upd tcp_addr_def)

lemma tcp_finish_moves:
  assumes "tcp_ends sock st s r" "binds_distinct (tcp_binds s)"
  obtains s' where "rbind r (\<lambda>x. case x of TcpReturn s2 \<Rightarrow> Inr s2 | TcpEnd reset s2 \<Rightarrow> tcp_finish [] sock reset s2) = Inr s'"
    "t_state (tcp_socks s' sock) = st" "tcp_addr (tcp_socks s' sock) = tcp_addr (tcp_socks s sock)" "\<forall>j. j \<noteq> sock \<longrightarrow> tcp_socks s' j = tcp_socks s j" "tcp_next s' = tcp_next s"
    "tcp_binds s' = (if st = CLOSED then bind_del sock (tcp_binds s) else tcp_binds s)"
proof -
  consider s' where "tcp_moved sock st s s'" "r = Inr (TcpEnd False s')"
    | s' where "tcp_moved sock st s s'" "r = Inr (TcpReturn s')" "st \<noteq> CLOSED"
    | "st = CLOSED" "r = Inr (TcpEnd True s)"
    using assms(1) unfolding tcp_ends_def by blast
  then show ?thesis
  proof cases
    case (1 s')
    then show ?thesis
      by (intro that [of "if st = CLOSED then s'\<lparr>tcp_binds := bind_del sock (tcp_binds s)\<rparr> else s'"])
        (auto simp: tcp_finish_def tcp_moved_def)
  next
    case (2 s')
    then show ?thesis by (intro that [of s']) (auto simp: tcp_moved_def)
  next
    case 3
    obtain s1 where s1: "tcp_socket_send_internal sock [] RST [] s = Inr s1"
      "tcp_moved sock (t_state (tcp_socks s sock)) s s1"
      by (rule tcp_moved_send [OF tcp_moved_refl])
    let ?s2 = "upd_tcp sock (\<lambda>t. t\<lparr>t_state := CLOSED\<rparr>) s1"
    have "tcp_moved sock CLOSED s ?s2"
      using tcp_moved_upd [OF s1(2), of "\<lambda>t. t\<lparr>t_state := CLOSED\<rparr>"] by (simp add: tcp_addr_def)
    then show ?thesis using 3 s1(1)
      by (intro that [of "?s2\<lparr>tcp_binds := bind_del sock (tcp_binds s)\<rparr>"]) (auto simp: tcp_finish_def tcp_moved_def)
  qed
qed

text \<open>
  The invariant of the TCP layer: a socket is bound once, only sockets that exist are bound, and none
  of them listens or is closed.
\<close>

definition tcp_inv :: "net \<Rightarrow> bool" where
  "tcp_inv s \<longleftrightarrow> binds_distinct (tcp_binds s) \<and>
     (\<forall>i \<in> bound (tcp_binds s). i < tcp_next s \<and> \<not> t_listening (tcp_socks s i) \<and> t_state (tcp_socks s i) \<notin> {LISTEN, CLOSED})"

text \<open>The connection of a segment: the first bound socket whose remote end is its sender.\<close>

definition tcp_connection :: "u16 \<Rightarrow> u32 \<Rightarrow> net \<Rightarrow> nat option" where
  "tcp_connection src_port src s =
     find (\<lambda>i. t_remote_port (tcp_socks s i) = src_port \<and> t_remote_ip (tcp_socks s i) = src) (List.map_filter snd (tcp_binds s))"

lemma tcp_route_find:
  "\<forall>i \<in> bound bs. \<not> t_listening (tcp_socks s i) \<Longrightarrow>
   tcp_route bs sp dp src dst s =
     (find (\<lambda>i. t_remote_port (tcp_socks s i) = sp \<and> t_remote_ip (tcp_socks s i) = src) (List.map_filter snd bs), s)"
proof (induction bs)
  case (Cons b bs)
  then show ?case by (cases b; cases "snd b") (auto simp: Let_def map_filter_simps)
qed (simp add: map_filter_simps)

lemma tcp_connection_bound:
  assumes "tcp_connection sp src s = Some i"
  shows "i \<in> bound (tcp_binds s)" "t_remote_port (tcp_socks s i) = sp" "t_remote_ip (tcp_socks s i) = src"
proof -
  have f: "i \<in> set (List.map_filter snd (tcp_binds s)) \<and> t_remote_port (tcp_socks s i) = sp \<and> t_remote_ip (tcp_socks s i) = src"
    using assms unfolding tcp_connection_def by (auto simp: find_Some_iff in_set_conv_nth)
  then show "i \<in> bound (tcp_binds s)" "t_remote_port (tcp_socks s i) = sp" "t_remote_ip (tcp_socks s i) = src"
    by (force simp: bound_def List.map_filter_def)+
qed


lemma tcp_recv_segment:
  assumes "tcp_inv s" "tcp_callback cb" "24 \<le> sz" "24 \<le> length payload"
  shows "\<exists>s'. tcp_ipv4_recv k cb (\<lambda>_. []) src dst payload sz s = Inr s' \<and> tcp_inv s' \<and>
    (case tcp_connection (get16 payload 0) src s of
       None \<Rightarrow> s' = s
     | Some i \<Rightarrow>
         t_state (tcp_socks s' i) = tcp_next_state (payload ! 13)
           (BSWAP32 (get32 payload 4) = t_ack_number (tcp_socks s i)) (t_state (tcp_socks s i)) \<and>
         tcp_addr (tcp_socks s' i) = tcp_addr (tcp_socks s i) \<and>
         (\<forall>j. j \<noteq> i \<longrightarrow> tcp_socks s' j = tcp_socks s j) \<and>
         bound (tcp_binds s') = bound (tcp_binds s) - (if t_state (tcp_socks s' i) = CLOSED then {i} else {}))"
proof -
  have l: "\<forall>i \<in> bound (tcp_binds s). \<not> t_listening (tcp_socks s i)" and d: "binds_distinct (tcp_binds s)"
    using assms(1) by (simp_all add: tcp_inv_def)
  have r: "tcp_route (tcp_binds s) (get16 payload 0) (get16 payload 2) src dst s = (tcp_connection (get16 payload 0) src s, s)"
    unfolding tcp_connection_def by (rule tcp_route_find [OF l])
  show ?thesis
  proof (cases "tcp_connection (get16 payload 0) src s")
    case None
    then show ?thesis using assms r by (simp add: tcp_ipv4_recv_def)
  next
    case (Some i)
    let ?st = "tcp_next_state (payload ! 13) (BSWAP32 (get32 payload 4) = t_ack_number (tcp_socks s i)) (t_state (tcp_socks s i))"
    have i: "i \<in> bound (tcp_binds s)" by (rule tcp_connection_bound [OF Some])
    then have st: "t_state (tcp_socks s i) \<noteq> LISTEN" "t_state (tcp_socks s i) \<noteq> CLOSED"
      using assms(1) by (auto simp: tcp_inv_def)
    obtain s' where s': "rbind (tcp_switch k cb (\<lambda>_. []) i payload sz s)
        (\<lambda>x. case x of TcpReturn s2 \<Rightarrow> Inr s2 | TcpEnd reset s2 \<Rightarrow> tcp_finish [] i reset s2) = Inr s'"
      "t_state (tcp_socks s' i) = ?st" "tcp_addr (tcp_socks s' i) = tcp_addr (tcp_socks s i)" "\<forall>j. j \<noteq> i \<longrightarrow> tcp_socks s' j = tcp_socks s j" "tcp_next s' = tcp_next s"
      "tcp_binds s' = (if ?st = CLOSED then bind_del i (tcp_binds s) else tcp_binds s)"
      by (rule tcp_finish_moves [OF tcp_switch_ends [OF assms(2) st] d])
    have ret: "tcp_ipv4_recv k cb (\<lambda>_. []) src dst payload sz s = Inr s'"
      using assms(3,4) st(2) s'(1) by (simp add: tcp_ipv4_recv_def r Some)
    have b: "bound (tcp_binds s') = bound (tcp_binds s) - (if t_state (tcp_socks s' i) = CLOSED then {i} else {})"
      using s'(2,6) bound_del [OF d] by simp
    have nl: "?st \<noteq> LISTEN" using st unfolding tcp_next_state_def Let_def by simp
    have "binds_distinct (tcp_binds s')" using s'(6) d distinct_del by simp
    moreover have "j < tcp_next s' \<and> \<not> t_listening (tcp_socks s' j) \<and> t_state (tcp_socks s' j) \<notin> {LISTEN, CLOSED}"
      if j: "j \<in> bound (tcp_binds s')" for j
    proof (cases "j = i")
      case True
      then show ?thesis using j b nl s'(2-5) i assms(1) by (auto simp: tcp_inv_def tcp_addr_def split: if_splits)
    next
      case False
      then show ?thesis using j b s'(4,5) assms(1) by (auto simp: tcp_inv_def split: if_splits)
    qed
    ultimately have "tcp_inv s'" by (simp add: tcp_inv_def)
    then show ?thesis using ret s' b Some by auto
  qed
qed

lemma tcp_recv_inv:
  assumes "tcp_inv s" "tcp_callback cb" "tcp_ipv4_recv k cb (\<lambda>_. []) src dst payload sz s = Inr s'"
  shows "tcp_inv s'"
proof (cases "sz < 24 \<or> length payload < 24")
  case True
  then show ?thesis using assms(1,3) by (auto simp: tcp_ipv4_recv_def split: if_splits)
next
  case False
  then have "24 \<le> sz" "24 \<le> length payload" by (auto simp: not_less)
  from tcp_recv_segment [OF assms(1,2) this, of k src dst] assms(3) show ?thesis by auto
qed

section \<open>Reachable states\<close>

text \<open>What happens during a sleep: nothing, or a segment is received.\<close>

definition tcp_deliver :: "panic_key \<Rightarrow> (tcp_cb \<Rightarrow> nat \<Rightarrow> u8 list \<Rightarrow> u32 \<Rightarrow> net \<Rightarrow> net res) \<Rightarrow> u32 \<times> u32 \<times> u8 list \<times> u32 \<Rightarrow> net \<Rightarrow> net" where
  "tcp_deliver k cb seg s = (case seg of (src, dst, payload, sz) \<Rightarrow>
     (case tcp_ipv4_recv k cb (\<lambda>_. []) src dst payload sz s of Inl _ \<Rightarrow> s | Inr s' \<Rightarrow> s'))"

text \<open>
  The states of the TCP layer: after \<open>tcp_init\<close>, any sequence of connects, disconnects, sends and received
  segments. While a connect waits, segments arrive.
\<close>

inductive tcp_reachable :: "(tcp_cb \<Rightarrow> nat \<Rightarrow> u8 list \<Rightarrow> u32 \<Rightarrow> net \<Rightarrow> net res) \<Rightarrow> net \<Rightarrow> bool" for cb where
  init: "tcp_reachable cb (tcp_init s)"
| connect: "tcp_reachable cb s \<Longrightarrow> tcp_connect ip port t [] (map (tcp_deliver k cb) segs) s = Inr (i, s') \<Longrightarrow> tcp_reachable cb s'"
| disconnect: "tcp_reachable cb s \<Longrightarrow> tcp_socket_disconnect i [] s = Inr s' \<Longrightarrow> tcp_reachable cb s'"
| send: "tcp_reachable cb s \<Longrightarrow> tcp_socket_send i data [] s = Inr s' \<Longrightarrow> tcp_reachable cb s'"
| recv: "tcp_reachable cb s \<Longrightarrow> tcp_ipv4_recv k cb (\<lambda>_. []) src dst payload sz s = Inr s' \<Longrightarrow> tcp_reachable cb s'"

lemma tcp_inv_frames: "tcp_inv (s\<lparr>nic_sent := fs\<rparr>) = tcp_inv s"
  by (simp add: tcp_inv_def)

lemma tcp_inv_upd:
  assumes "tcp_inv s" "\<And>t. t_listening (f t) = t_listening t"
    and "\<And>t. t_state t \<notin> {LISTEN, CLOSED} \<Longrightarrow> t_state (f t) \<notin> {LISTEN, CLOSED}"
  shows "tcp_inv (upd_tcp i f s)"
  using assms by (auto simp: tcp_inv_def upd_tcp_def)

lemma tcp_send_internal_inv:
  assumes "tcp_inv s" "tcp_socket_send_internal i data flags [] s = Inr s'"
  shows "tcp_inv s'"
proof -
  define s1 where "s1 = upd_tcp i (\<lambda>t. t\<lparr>t_sequence_number := t_sequence_number t + of_nat (length data)\<rparr>) s"
  have "tcp_inv s1" unfolding s1_def by (rule tcp_inv_upd [OF assms(1)]) simp_all
  moreover have "s' = ipv4_send 0x06 (t_remote_ip (tcp_socks s i)) (tcp_packet (tcp_socks s i) flags data) [] s1"
    using assms(2) by (simp add: tcp_socket_send_internal_def Let_def s1_def upd_tcp_def split: if_splits)
  then obtain fs where "s' = s1\<lparr>nic_sent := fs\<rparr>" using ipv4_send_quiet by metis
  ultimately show ?thesis by (simp add: tcp_inv_frames)
qed

lemma tcp_wait_inv:
  "tcp_wait n i (map (tcp_deliver k cb) segs) s = Inr s' \<Longrightarrow> tcp_inv s \<Longrightarrow> tcp_callback cb \<Longrightarrow> tcp_inv s'"
proof (induction n arbitrary: s segs)
  case (Suc n)
  show ?case
  proof (cases segs)
    case Nil
    then show ?thesis using Suc.prems Suc.IH [of "[]" s] by (auto simp: sleep_def split: if_splits)
  next
    case (Cons g gs)
    have "tcp_inv (tcp_deliver k cb g s)"
      using Suc.prems tcp_recv_inv by (auto simp: tcp_deliver_def split: prod.split sum.split)
    with Cons Suc.prems Suc.IH [of gs "tcp_deliver k cb g s"] show ?thesis
      by (auto simp: sleep_def split: if_splits)
  qed
qed simp

lemma tcp_connect_inv:
  assumes "tcp_inv s" "tcp_callback cb" "tcp_connect ip port t [] (map (tcp_deliver k cb) segs) s = Inr (i, s')"
  shows "tcp_inv s'"
proof -
  define t0 where "t0 = \<lparr>t_remote_port = BSWAP16 port, t_local_port = BSWAP16 (ucast (tcp_free_port s)), t_remote_ip = ip,
               t_local_ip = nic_ip s, t_listening = False, t_sequence_number = t, t_ack_number = 0,
               t_state = SYN_SENT, t_recv = TcpNone\<rparr>"
  define s1 where "s1 = s\<lparr>tcp_free_port := tcp_free_port s + 1, tcp_next := Suc (tcp_next s),
      tcp_socks := (tcp_socks s)(tcp_next s := t0), tcp_binds := bind_put (t_local_port t0, Some (tcp_next s)) (tcp_binds s)\<rparr>"
  obtain s2 where s2: "tcp_socket_send_internal (tcp_next s) [] SYN [] s1 = Inr s2"
    "tcp_wait 1999 (tcp_next s) (map (tcp_deliver k cb) segs) s2 = Inr s'"
    using assms(3) unfolding tcp_connect_def Let_def t0_def [symmetric] s1_def [symmetric] tcp_wait_established_def
    by (auto simp: rbind_eq_Inr simp del: tcp_wait.simps)
  have new: "tcp_next s \<notin> bound (tcp_binds s)" using assms(1) by (auto simp: tcp_inv_def)
  have "t_listening t0 = False" "t_state t0 = SYN_SENT" by (simp_all add: t0_def)
  then have "tcp_inv s1"
    using assms(1) new unfolding tcp_inv_def s1_def by (auto simp: bound_put distinct_put less_Suc_eq)
  then have "tcp_inv s2" by (rule tcp_send_internal_inv [OF _ s2(1)])
  then show ?thesis by (rule tcp_wait_inv [OF s2(2) _ assms(2)])
qed

lemma tcp_disconnect_inv:
  assumes "tcp_inv s" "tcp_socket_disconnect i [] s = Inr s'"
  shows "tcp_inv s'"
proof -
  obtain s1 where s1: "tcp_socket_send_internal i [] (FIN OR ACK) [] (upd_tcp i (\<lambda>t. t\<lparr>t_state := FIN_WAIT1\<rparr>) s) = Inr s1"
    "s' = upd_tcp i (\<lambda>t. t\<lparr>t_sequence_number := t_sequence_number t + 1\<rparr>) s1"
    using assms(2) by (auto simp: tcp_socket_disconnect_def rbind_eq_Inr split: if_splits)
  have "tcp_inv (upd_tcp i (\<lambda>t. t\<lparr>t_state := FIN_WAIT1\<rparr>) s)" by (rule tcp_inv_upd [OF assms(1)]) simp_all
  then have "tcp_inv s1" by (rule tcp_send_internal_inv [OF _ s1(1)])
  then show ?thesis unfolding s1(2) by (rule tcp_inv_upd) simp_all
qed

lemma tcp_reachable_inv: "tcp_reachable cb s \<Longrightarrow> tcp_callback cb \<Longrightarrow> tcp_inv s"
proof (induction rule: tcp_reachable.induct)
  case (init s)
  show ?case by (simp add: tcp_inv_def tcp_init_def ipv4_register_def)
next
  case (send s i data s')
  then show ?case using tcp_send_internal_inv by (auto simp: tcp_socket_send_def split: if_splits)
qed (blast intro: tcp_connect_inv tcp_disconnect_inv tcp_recv_inv)+


text \<open>
  A host that connects to port 80 of host 2, and the answer to its \<open>SYN\<close>.
\<close>

definition syn_ack :: "u8 list" where
  "syn_ack = [0, 0x50, 4, 0, 0, 0, 0, 9, 0, 0, 0, 8, 0x60, 0x12, 0xFF, 0xFF, 0, 0, 0, 0, 0, 0, 0, 0]"

lemma tcp_wait_quiet: "tcp_exists i s \<Longrightarrow> tcp_wait n i [] s = Inr s"
  by (induction n) (simp_all add: sleep_def)

lemma tcp_connect_quiet:
  assumes "tcp_binds s = []"
  obtains s' where "tcp_connect ip port t [] [] s = Inr (tcp_next s, s')"
    "tcp_binds s' = [(BSWAP16 (ucast (tcp_free_port s)), Some (tcp_next s))]"
    "t_remote_port (tcp_socks s' (tcp_next s)) = BSWAP16 port" "t_remote_ip (tcp_socks s' (tcp_next s)) = ip"
    "t_state (tcp_socks s' (tcp_next s)) = SYN_SENT"
proof -
  define t0 where "t0 = \<lparr>t_remote_port = BSWAP16 port, t_local_port = BSWAP16 (ucast (tcp_free_port s)), t_remote_ip = ip,
               t_local_ip = nic_ip s, t_listening = False, t_sequence_number = t, t_ack_number = 0,
               t_state = SYN_SENT, t_recv = TcpNone\<rparr>"
  define s1 where "s1 = s\<lparr>tcp_free_port := tcp_free_port s + 1, tcp_next := Suc (tcp_next s),
      tcp_socks := (tcp_socks s)(tcp_next s := t0), tcp_binds := bind_put (t_local_port t0, Some (tcp_next s)) (tcp_binds s)\<rparr>"
  obtain s2 where s2: "tcp_socket_send_internal (tcp_next s) [] SYN [] s1 = Inr s2"
    "tcp_moved (tcp_next s) (t_state (tcp_socks s1 (tcp_next s))) s1 s2"
    by (rule tcp_moved_send [OF tcp_moved_refl])
  have "tcp_exists (tcp_next s) s2"
    using s2(2) assms by (simp add: tcp_exists_def tcp_moved_def s1_def)
  then have "tcp_connect ip port t [] [] s = Inr (tcp_next s, s2)"
    unfolding tcp_connect_def Let_def t0_def [symmetric] s1_def [symmetric] tcp_wait_established_def s2(1)
    by (simp only: rbind_Inr tcp_wait_quiet)
  then show ?thesis using s2(2) assms
    by (intro that) (auto simp: tcp_moved_def s1_def t0_def tcp_addr_def)
qed


text \<open>
  When the peer has closed the connection, the socket is freed while the socket layer still has a pointer to
  it: the disconnect that follows is an access to freed memory.
\<close>

lemma tcp_disconnect_after_close:
  assumes "tcp_inv s" "tcp_callback cb" "24 \<le> sz" "24 \<le> length payload" "tcp_connection (get16 payload 0) src s = Some i"
    and "t_state (tcp_socks s i) = CLOSE_WAIT" "payload ! 13 = ACK"
  shows "\<exists>s'. tcp_ipv4_recv k cb (\<lambda>_. []) src dst payload sz s = Inr s' \<and> tcp_socket_disconnect i env s' = Inl OutOfBounds"
proof -
  obtain s' where s': "tcp_ipv4_recv k cb (\<lambda>_. []) src dst payload sz s = Inr s'"
    "t_state (tcp_socks s' i) = tcp_next_state ACK (BSWAP32 (get32 payload 4) = t_ack_number (tcp_socks s i)) CLOSE_WAIT"
    "bound (tcp_binds s') = bound (tcp_binds s) - (if t_state (tcp_socks s' i) = CLOSED then {i} else {})"
    using tcp_recv_segment [OF assms(1-4), of k src dst] assms(5-7) by auto
  have "tcp_next_state ACK b CLOSE_WAIT = CLOSED" for b by (simp add: tcp_next_state_def Let_def)
  then have "i \<notin> bound (tcp_binds s')" using s'(2,3) by simp
  then have "\<not> tcp_exists i s'" unfolding tcp_exists_def bound_def by simp
  with s'(1) show ?thesis by (simp add: tcp_socket_disconnect_def)
qed

section \<open>Segments on the wire\<close>

lemma BSWAP32_BSWAP32 [simp]: "BSWAP32 (BSWAP32 n) = n"
proof -
  have m: "(0xFF000000 :: u32) = push_bit 24 (mask 8)" "(0x00FF0000 :: u32) = push_bit 16 (mask 8)"
    "(0x0000FF00 :: u32) = push_bit 8 (mask 8)" "(0x000000FF :: u32) = mask 8"
    by (simp_all add: mask_numeral push_bit_eq_mult)
  show ?thesis
  proof (rule bit_word_eqI)
    fix k
    assume "k < LENGTH(32)"
    then show "bit (BSWAP32 (BSWAP32 n)) k = bit n k"
      unfolding BSWAP32_def m
      by (cases "k < 8"; cases "k < 16"; cases "k < 24") (auto simp: bit_simps)
  qed
qed

lemma tcp_packet_fields:
  "length (tcp_packet t flags data) = 24 + length data"
  "get16 (tcp_packet t flags data) 0 = t_local_port t"
  "get32 (tcp_packet t flags data) 4 = BSWAP32 (t_sequence_number t)"
  "tcp_packet t flags data ! 12 = 0x60" "tcp_packet t flags data ! 13 = flags"
  "drop 24 (tcp_packet t flags data) = data"
proof -
  obtain c where p: "tcp_packet t flags data = tcp_header c t flags @ data" by (simp add: tcp_packet_def Let_def)
  let ?a = "put16 (t_local_port t)" and ?b = "put16 (t_remote_port t)" and ?s = "put32 (BSWAP32 (t_sequence_number t))"
    and ?k = "put32 (BSWAP32 (t_ack_number t))"
  let ?z = "put16 0xFFFF @ put16 c @ put16 0 @ put32 (if flags AND SYN \<noteq> 0 then 0xB4050402 else 0)"
  have h: "tcp_header c t flags = ?a @ ?b @ ?s @ ?k @ [0x60, flags] @ ?z" by (simp add: tcp_header_def)
  have l: "length (tcp_header c t flags) = 24" by (simp add: h)
  then show "length (tcp_packet t flags data) = 24 + length data" "drop 24 (tcp_packet t flags data) = data"
    by (simp_all add: p)
  show "get16 (tcp_packet t flags data) 0 = t_local_port t"
    using get16_put16 [of 0 "[]" "t_local_port t" "?b @ ?s @ ?k @ [0x60, flags] @ ?z @ data"] by (simp add: p h)
  show "get32 (tcp_packet t flags data) 4 = BSWAP32 (t_sequence_number t)"
    using get32_put32 [of 4 "?a @ ?b" "BSWAP32 (t_sequence_number t)" "?k @ [0x60, flags] @ ?z @ data"] by (simp add: p h)
  show "tcp_packet t flags data ! 12 = 0x60" "tcp_packet t flags data ! 13 = flags"
    by (simp_all add: p h nth_append)
qed

text \<open>The connection's next data segment is handed to its callback whole, and acknowledged.\<close>

lemma tcp_recv_data:
  assumes "tcp_inv s" "tcp_connection (t_local_port p) src s = Some i" "t_state (tcp_socks s i) = ESTABLISHED"
    and "t_ack_number (tcp_socks s i) = t_sequence_number p" "length data < 60000"
    and "cb (t_recv (tcp_socks s i)) i data (of_nat (length data)) s = Inr s0" "tcp_socks s0 = tcp_socks s"
  obtains fs where "tcp_ipv4_recv k cb (\<lambda>_. []) src dst (tcp_packet p (PSH OR ACK) data) (of_nat (24 + length data)) s =
    Inr ((upd_tcp i (\<lambda>t. t\<lparr>t_ack_number := t_ack_number t + of_nat (length data)\<rparr>) s0)\<lparr>nic_sent := nic_sent s0 @ fs\<rparr>)"
proof -
  let ?p = "tcp_packet p (PSH OR ACK) data" and ?sz = "of_nat (24 + length data) :: u32"
  let ?f = "\<lambda>t. t\<lparr>t_ack_number := t_ack_number t + of_nat (length data)\<rparr>"
  note f = tcp_packet_fields
  have r: "tcp_route (tcp_binds s) (get16 ?p 0) (get16 ?p 2) src dst s = (Some i, s)"
    using tcp_route_find [of "tcp_binds s" s "get16 ?p 0" "get16 ?p 2" src dst] assms(1,2)
    by (simp add: tcp_connection_def tcp_inv_def f(2))
  have hs: "(ucast (drop_bit 4 (?p ! 12)) :: u32) * 4 = 24" unfolding f by (simp add: drop_bit_eq_div)
  have u: "unat ?sz = 24 + length data" using assms(5) unat_of_nat_u32 [of "24 + length data"] by simp
  then have big: "\<not> ?sz < 24" by (simp add: word_less_nat_alt)
  have diff: "?sz - 24 = of_nat (length data)" by simp
  obtain fs where fs: "tcp_socket_send_internal i [] ACK [] (upd_tcp i ?f s0) =
      Inr ((upd_tcp i (\<lambda>t. t\<lparr>t_sequence_number := t_sequence_number t + of_nat (length ([] :: u8 list))\<rparr>) (upd_tcp i ?f s0))
        \<lparr>nic_sent := nic_sent (upd_tcp i ?f s0) @ fs\<rparr>)"
    by (rule tcp_send_quiet [of "[]" i ACK "upd_tcp i ?f s0"]) simp
  then have fs: "tcp_socket_send_internal i [] ACK [] (upd_tcp i ?f s0) = Inr ((upd_tcp i ?f s0)\<lparr>nic_sent := nic_sent s0 @ fs\<rparr>)"
    by (simp add: upd_tcp_def)
  have "tcp_data cb [] i ?p ?sz s = Inr (TcpEnd False ((upd_tcp i ?f s0)\<lparr>nic_sent := nic_sent s0 @ fs\<rparr>))"
    unfolding tcp_data_def Let_def hs diff using f(3,6) assms(4,6) fs by simp
  moreover have "tcp_switch k cb (\<lambda>_. []) i ?p ?sz s = tcp_data cb [] i ?p ?sz s"
    unfolding tcp_switch_def Let_def f(5) assms(3) by simp
  ultimately have "tcp_switch k cb (\<lambda>_. []) i ?p ?sz s = Inr (TcpEnd False ((upd_tcp i ?f s0)\<lparr>nic_sent := nic_sent s0 @ fs\<rparr>))"
    by simp
  then show ?thesis
    using big f(1) assms(3,7) r by (intro that [of fs]) (simp add: tcp_ipv4_recv_def tcp_finish_def upd_tcp_def)
qed

end
