(* ===== verification/Dns.thy ===== *)
theory Dns
  imports Dhcp Tcp
begin

text \<open>
  The DNS client, \<open>mckrnl/net/dns.c\<close>. A message is the data of a datagram; reading past its end is an access outside
  the buffer. Names in a message may contain compression pointers, which the code follows without a bound: the
  loops over names, and the search of an address through aliases, are partial functions, whose value \<open>None\<close> is not
  returning. \<open>page\<close> is the old content of the page that \<open>dns_resolv_hostname_to_domain\<close> allocates.
\<close>

section \<open>Definitions\<close>

abbreviation DOT :: u8 where "DOT \<equiv> 0x2E"

definition c_string :: "u8 list \<Rightarrow> u8 list" where
  "c_string b = takeWhile (\<lambda>c. c \<noteq> 0) b"

definition put_at :: "u8 list \<Rightarrow> nat \<Rightarrow> u8 \<Rightarrow> u8 list res" where
  "put_at buf i x = (if i < length buf then Inr (buf[i := x]) else Inl OutOfBounds)"

text \<open>The loop of \<open>dns_resolv_domain_to_hostname\<close> over the characters of the domain and its NUL.\<close>

primrec hostname_loop :: "u8 list \<Rightarrow> u8 list \<Rightarrow> nat \<Rightarrow> nat \<Rightarrow> u8 \<Rightarrow> u8 list res" where
  "hostname_loop [] buf lbl dst_pos curr_len = put_at buf dst_pos 0"
| "hostname_loop (c # cs) buf lbl dst_pos curr_len =
     (if c = DOT \<or> c = 0 then rbind (put_at buf lbl curr_len) (\<lambda>b. hostname_loop cs b dst_pos (dst_pos + 1) 0)
      else rbind (put_at buf dst_pos c) (\<lambda>b. hostname_loop cs b lbl (dst_pos + 1) (curr_len + 1)))"

definition dns_resolv_domain_to_hostname :: "u8 list \<Rightarrow> u8 list \<Rightarrow> u8 list res" where
  "dns_resolv_domain_to_hostname dst_hostname src_domain = hostname_loop (src_domain @ [0]) dst_hostname 0 1 0"

text \<open>The first loop of \<open>dns_resolv_hostname_to_domain\<close>: the bytes of the name, whether it jumped, and the count.\<close>

definition dns_pointer :: "u8 list \<Rightarrow> nat \<Rightarrow> nat" where
  "dns_pointer msg i = unat (msg ! i) * 256 + unat (msg ! (i + 1)) - 49152"

partial_function (option) read_name :: "u8 list \<Rightarrow> nat \<Rightarrow> bool \<Rightarrow> nat \<Rightarrow> u8 list \<Rightarrow> (u8 list \<times> bool \<times> nat) res option" where
  "read_name msg i jumped count name =
     (if i \<ge> length msg then Some (Inl OutOfBounds)
      else if msg ! i = 0 then Some (Inr (name, jumped, count))
      else if msg ! i \<ge> 192 then
        (if i + 1 \<ge> length msg then Some (Inl OutOfBounds) else read_name msg (dns_pointer msg i) True count name)
      else if length name \<ge> 4095 then Some (Inl OutOfBounds)
      else read_name msg (i + 1) jumped (if jumped then count else count + 1) (name @ [msg ! i]))"

text \<open>The second loop: every label moves one byte down, over its length, and is closed by a dot.\<close>

primrec shift_label :: "nat \<Rightarrow> nat \<Rightarrow> u8 list \<Rightarrow> (nat \<times> u8 list) res" where
  "shift_label 0 i name = Inr (i, name)"
| "shift_label (Suc n) i name =
     (if i + 1 \<ge> length name then Inl OutOfBounds else shift_label n (i + 1) (name[i := name ! (i + 1)]))"

lemma shift_label_grows: "shift_label n i name = Inr (i', name') \<Longrightarrow> i' = i + n \<and> length name' = length name"
proof (induction n arbitrary: i name)
  case (Suc n)
  then have "shift_label n (i + 1) (name[i := name ! (i + 1)]) = Inr (i', name')" by (simp split: if_splits)
  from Suc.IH [OF this] show ?case by simp
qed simp

text \<open>\<open>name[i]\<close> is a signed \<open>char\<close> that is converted to an unsigned count: a byte above 127 leaves the page.\<close>

function dots_loop :: "nat \<Rightarrow> nat \<Rightarrow> u8 list \<Rightarrow> (nat \<times> u8 list) res" where
  "dots_loop len i name =
     (if i < len then
        if i \<ge> length name \<or> name ! i \<ge> 128 then Inl OutOfBounds
        else (case shift_label (unat (name ! i)) i name of
                Inl e \<Rightarrow> Inl e
              | Inr (i1, name1) \<Rightarrow> dots_loop len (i1 + 1) (name1[i1 := DOT]))
      else Inr (i, name))"
  by auto
termination
  by (relation "measure (\<lambda>(len, i, name). len - i)") (auto dest: shift_label_grows)

declare dots_loop.simps [simp del]

text \<open>
  The returned page, whose C string is the domain, and the number of bytes of the name in the message. For an empty
  name the last store is in front of the page.
\<close>

definition dns_resolv_hostname_to_domain :: "u8 list \<Rightarrow> u8 list \<Rightarrow> nat \<Rightarrow> (u8 list \<times> nat) res option" where
  "dns_resolv_hostname_to_domain page msg reader =
     map_option (\<lambda>r. rbind r (\<lambda>(name, jumped, count).
       rbind (dots_loop (length name) 0 (name @ 0 # drop (length name + 1) page)) (\<lambda>(i, name1).
         if i = 0 then Inl OutOfBounds
         else Inr (name1[i - 1 := 0], if jumped then count + 1 else count))))
       (read_name msg reader False 1 [])"

partial_function (option) skip_loop :: "u8 list \<Rightarrow> nat \<Rightarrow> bool \<Rightarrow> nat \<Rightarrow> nat res option" where
  "skip_loop msg i jumped count =
     (if i \<ge> length msg then Some (Inl OutOfBounds)
      else if msg ! i = 0 then Some (Inr (if jumped then count + 1 else count))
      else if msg ! i \<ge> 192 then
        (if i + 1 \<ge> length msg then Some (Inl OutOfBounds) else skip_loop msg (dns_pointer msg i) True count)
      else skip_loop msg (i + 1) jumped (if jumped then count else count + 1))"

definition dns_resolv_skip_name :: "u8 list \<Rightarrow> nat \<Rightarrow> nat res option" where
  "dns_resolv_skip_name msg reader = skip_loop msg reader False 1"

primrec find_result :: "u8 list \<Rightarrow> dns_result list \<Rightarrow> dns_result option" where
  "find_result qname [] = None"
| "find_result qname (r # rs) = (if c_string (r_name r) = qname then Some r else find_result qname rs)"

definition dns_find_result :: "u8 list \<Rightarrow> net \<Rightarrow> dns_result option" where
  "dns_find_result qname s = find_result qname (dns_results s)"

text \<open>A question: the message has room for it in its page of 4096 bytes.\<close>

definition dns_question :: "u8 list \<Rightarrow> u8 list" where
  "dns_question qname = put16 0xf00f @ put16 (BSWAP16 0x100) @ put16 (BSWAP16 1) @ put16 0 @ put16 0 @ put16 0 @
     qname @ [0] @ put16 (BSWAP16 1) @ put16 (BSWAP16 1)"

definition dns_request :: "u8 list \<Rightarrow> (net \<Rightarrow> net) list \<Rightarrow> net \<Rightarrow> net res" where
  "dns_request name env s =
     rbind (dns_resolv_domain_to_hostname (replicate 4084 0) name) (\<lambda>buf.
       if length (c_string buf) + 17 > 4096 then Inl OutOfBounds
       else udp_socket_send (dns_sock s) (dns_question (c_string buf)) env s)"

text \<open>The wait for the response.\<close>

primrec dns_poll :: "nat \<Rightarrow> u8 list \<Rightarrow> (net \<Rightarrow> net) list \<Rightarrow> net \<Rightarrow> dns_result option \<times> net" where
  "dns_poll 0 qname env s = (None, s)"
| "dns_poll (Suc n) qname env s =
     (let (s1, env1) = sleep env s in
      case (if \<not> dns_wait s1 then dns_find_result qname s1 else None) of
        Some r \<Rightarrow> (Some r, s1)
      | None \<Rightarrow> dns_poll n qname env1 s1)"

definition MAX_LOOP_COUNT :: int where "MAX_LOOP_COUNT = 10"

text \<open>
  What a call does before it calls itself: the result, or the alias to follow. \<open>env_arp\<close> is what happens while the
  request waits for ARP, \<open>env\<close> while it waits for the response.
\<close>

datatype dns_step = DnsDone u32 net | DnsFollow "u8 list" net

definition dns_use :: "dns_result \<Rightarrow> net \<Rightarrow> dns_step" where
  "dns_use r s =
     (if r_ipv4 r \<noteq> 0 then DnsDone (r_ipv4 r) (s\<lparr>dns_loop := 0\<rparr>)
      else if sint (dns_loop s) \<ge> MAX_LOOP_COUNT then DnsDone 0 s
      else DnsFollow (c_string (r_cname r)) s)"

definition dns_lookup :: "u8 list \<Rightarrow> (net \<Rightarrow> net) list \<Rightarrow> (net \<Rightarrow> net) list \<Rightarrow> net \<Rightarrow> dns_step res" where
  "dns_lookup domain env_arp env s =
     rbind (dns_resolv_domain_to_hostname (replicate 128 0) domain) (\<lambda>buf.
       let qname = c_string buf in
       case dns_find_result qname s of
         Some r \<Rightarrow> Inr (dns_use r s)
       | None \<Rightarrow>
           rbind (dns_request domain env_arp (s\<lparr>dns_wait := True\<rparr>)) (\<lambda>s1.
             case dns_poll 1999 qname env s1 of
               (Some r, s2) \<Rightarrow> Inr (dns_use r s2)
             | (None, s2) \<Rightarrow> Inr (DnsDone 0 s2)))"

partial_function (option) dns_resolve_A ::
  "(nat \<Rightarrow> (net \<Rightarrow> net) list \<times> (net \<Rightarrow> net) list) \<Rightarrow> nat \<Rightarrow> u8 list \<Rightarrow> net \<Rightarrow> (u32 \<times> net) res option" where
  "dns_resolve_A envs n domain s =
     (case dns_lookup domain (fst (envs n)) (snd (envs n)) s of
        Inl e \<Rightarrow> Some (Inl e)
      | Inr (DnsDone ip s1) \<Rightarrow> Some (Inr (ip, s1))
      | Inr (DnsFollow cname s1) \<Rightarrow> dns_resolve_A envs (Suc n) cname s1)"

text \<open>
  \<open>strcpy\<close> into a field of 256 bytes: it copies the first byte and then up to the NUL, and not the NUL.
\<close>

definition copy_field :: "u8 list \<Rightarrow> u8 list \<Rightarrow> u8 list res" where
  "copy_field src field =
     (case src of [] \<Rightarrow> Inl OutOfBounds
      | c # cs \<Rightarrow> let b = c # c_string cs in if length b > 256 then Inl OutOfBounds else Inr (b @ drop (length b) field))"

text \<open>One answer record: the new position and result, and whether there was one.\<close>

definition dns_answer :: "u8 list \<Rightarrow> u8 list \<Rightarrow> nat \<Rightarrow> dns_result \<times> bool \<Rightarrow> (nat \<times> dns_result \<times> bool) res option" where
  "dns_answer page msg pos rg =
     lbind (dns_resolv_skip_name msg pos) (\<lambda>stop.
       let resource = pos + stop; name = resource + 10; (result, got) = rg in
       if name > length msg then Some (Inl OutOfBounds)
       else if get16 msg resource = BSWAP16 1 \<and> get16 msg (resource + 2) = BSWAP16 1 then
         let data_len = unat (BSWAP16 (get16 msg (resource + 8))) in
         if data_len = 4 then
           if name + 4 > length msg then Some (Inl OutOfBounds)
           else Some (Inr (name + 4, result\<lparr>r_ipv4 := get32 msg name\<rparr>, True))
         else Some (Inr (name + data_len, result, got))
       else if get16 msg resource = BSWAP16 5 \<and> get16 msg (resource + 2) = BSWAP16 1 then
         lbind (dns_resolv_hostname_to_domain page msg name) (\<lambda>(out, stop1).
         lbind (Some (copy_field out (r_cname result))) (\<lambda>cname.
           Some (Inr (name + stop1, result\<lparr>r_cname := cname\<rparr>, True))))
       else lbind (dns_resolv_skip_name msg name) (\<lambda>stop1. Some (Inr (name + stop1, result, got))))"

primrec dns_answers :: "nat \<Rightarrow> (nat \<Rightarrow> u8 list) \<Rightarrow> u8 list \<Rightarrow> nat \<Rightarrow> dns_result \<times> bool \<Rightarrow> (dns_result \<times> bool) res option" where
  "dns_answers 0 pages msg pos rg = Some (Inr rg)"
| "dns_answers (Suc n) pages msg pos rg = lbind (dns_answer (pages n) msg pos rg) (\<lambda>(pos1, rg1). dns_answers n pages msg pos1 rg1)"

definition dns_udp_recv :: "(nat \<Rightarrow> u8 list) \<Rightarrow> u8 list \<Rightarrow> net \<Rightarrow> net res option" where
  "dns_udp_recv pages msg s =
     (if length msg \<le> 12 \<or> 0 \<notin> set (drop 12 msg) then Some (Inl OutOfBounds)
      else let qname = c_string (drop 12 msg); question = 12 + length qname + 1 in
        lbind (Some (copy_field (drop 12 msg) (replicate 256 0))) (\<lambda>name.
        lbind (dns_answers (unat (BSWAP16 (get16 msg 6))) pages msg (question + 4)
                 (\<lparr>r_ipv4 = 0, r_cname = replicate 256 0, r_name = name\<rparr>, False)) (\<lambda>(result, did_get_result).
          Some (Inr (let s1 = (if did_get_result
                       then s\<lparr>dns_loop := dns_loop s + 1, dns_results := dns_results s @ [result]\<rparr> else s)
                     in s1\<lparr>dns_wait := False\<rparr>)))))"

definition dns_init :: "u32 \<Rightarrow> net \<Rightarrow> net" where
  "dns_init dns_server s =
     (let (i, s1) = udp_connect dns_server 53 (s\<lparr>dns_sock := 0, dns_results := [], dns_loop := 0, dns_wait := False\<rparr>)
      in s1\<lparr>dns_sock := i, udp_socks := (udp_socks s1)(i := (udp_socks s1 i)\<lparr>u_recv := DnsRecv\<rparr>)\<rparr>)"

section \<open>Names\<close>

text \<open>A domain is a list of labels, written with dots; in a message every label follows its length.\<close>

definition label :: "u8 list \<Rightarrow> bool" where
  "label l \<longleftrightarrow> l \<noteq> [] \<and> length l < 64 \<and> (\<forall>c \<in> set l. c \<noteq> 0 \<and> c \<noteq> DOT \<and> c < 128)"

fun domain :: "u8 list list \<Rightarrow> u8 list" where
  "domain [] = []"
| "domain [l] = l"
| "domain (l # ls) = l @ DOT # domain ls"

definition enc :: "u8 list list \<Rightarrow> u8 list" where
  "enc ls = concat (map (\<lambda>l. of_nat (length l) # l) ls)"

lemma enc_simps [simp]: "enc [] = []" "enc (l # ls) = of_nat (length l) # l @ enc ls" "enc (ks @ ls) = enc ks @ enc ls"
  by (simp_all add: enc_def)

lemma label_length: "label l \<Longrightarrow> 0 < (of_nat (length l) :: u8) \<and> (of_nat (length l) :: u8) < 64"
proof -
  assume "label l"
  then have l: "0 < length l" "length l < 64" by (auto simp: label_def)
  then have "unat (of_nat (length l) :: u8) = length l" by (simp add: unat_of_nat take_bit_nat_eq_self)
  then show ?thesis using l by (simp add: word_less_nat_alt)
qed

lemma enc_bytes: "\<forall>l \<in> set ls. label l \<Longrightarrow> c \<in> set (enc ls) \<Longrightarrow> c \<noteq> 0 \<and> c < 128"
proof (induction ls)
  case (Cons l ls)
  have "of_nat (length l) \<noteq> (0 :: u8)" "(of_nat (length l) :: u8) < 128"
    using label_length [of l] Cons.prems(1) by (auto simp: word_less_nat_alt)
  then show ?case using Cons by (auto simp: label_def)
qed simp

lemma enc_length: "ls \<noteq> [] \<Longrightarrow> length (enc ls) = length (domain ls) + 1"
  by (induction ls rule: domain.induct) auto

lemma c_string_append: "\<forall>c \<in> set b. c \<noteq> 0 \<Longrightarrow> c_string (b @ 0 # r) = b" "\<forall>c \<in> set b. c \<noteq> 0 \<Longrightarrow> c_string b = b"
  by (auto simp: c_string_def takeWhile_append2 takeWhile_eq_all_conv)

lemma hostname_loop_chars:
  "\<forall>c \<in> set l. c \<noteq> 0 \<and> c \<noteq> DOT \<Longrightarrow> length l \<le> length rest \<Longrightarrow>
   hostname_loop (l @ cs) (out @ x # cur @ rest) (length out) (length out + 1 + length cur) (of_nat (length cur)) =
   hostname_loop cs (out @ x # cur @ l @ drop (length l) rest) (length out) (length out + 1 + length cur + length l)
     (of_nat (length cur + length l))"
proof (induction l arbitrary: cur rest)
  case (Cons c l)
  obtain r rest' where r: "rest = r # rest'" using Cons.prems(2) by (cases rest) auto
  have "hostname_loop ((c # l) @ cs) (out @ x # cur @ rest) (length out) (length out + 1 + length cur) (of_nat (length cur)) =
    hostname_loop (l @ cs) (out @ x # (cur @ [c]) @ rest') (length out) (length out + 1 + length (cur @ [c])) (of_nat (length (cur @ [c])))"
    using Cons.prems by (simp add: put_at_def r list_update_append add.commute)
  also have "\<dots> = hostname_loop cs (out @ x # (cur @ [c]) @ l @ drop (length l) rest') (length out)
    (length out + 1 + length (cur @ [c]) + length l) (of_nat (length (cur @ [c]) + length l))"
    using Cons by (intro Cons.IH) (auto simp: r)
  finally show ?case by (simp add: r)
qed simp

lemma hostname_loop_label:
  assumes "label l" "c = DOT \<or> c = 0" "length l + 2 \<le> n"
  shows "hostname_loop (l @ c # cs) (out @ replicate n 0) (length out) (Suc (length out)) 0 =
    hostname_loop cs ((out @ of_nat (length l) # l) @ replicate (n - Suc (length l)) 0)
      (length (out @ of_nat (length l) # l)) (Suc (length (out @ of_nat (length l) # l))) 0"
proof -
  obtain k where k: "n = Suc (length l + k)" "0 < k" using assms(3) by (metis add_Suc add_2_eq_Suc' le_Suc_ex add_gr_0 zero_less_Suc add.assoc add_Suc_right)
  have r: "replicate n (0::u8) = 0 # replicate (length l + k) 0" by (simp add: k)
  have "\<forall>c \<in> set l. c \<noteq> 0 \<and> c \<noteq> DOT" using assms(1) by (auto simp: label_def)
  from hostname_loop_chars [OF this, of "replicate (length l + k) 0" "c # cs" out 0 "[]"]
  have "hostname_loop (l @ c # cs) (out @ replicate n 0) (length out) (Suc (length out)) 0 =
    hostname_loop (c # cs) (out @ 0 # l @ replicate k 0) (length out) (Suc (length out + length l)) (of_nat (length l))"
    by (simp add: r)
  also have "\<dots> = hostname_loop cs (out @ of_nat (length l) # l @ replicate k 0) (Suc (length out + length l)) (Suc (Suc (length out + length l))) 0"
    using assms(2) by (auto simp: put_at_def list_update_append)
  finally show ?thesis by (simp add: k)
qed

lemma hostname_loop_labels:
  "ls \<noteq> [] \<Longrightarrow> \<forall>l \<in> set ls. label l \<Longrightarrow> length (enc ls) + 2 \<le> n \<Longrightarrow>
   hostname_loop (domain ls @ [0]) (out @ replicate n 0) (length out) (Suc (length out)) 0 =
   Inr (out @ enc ls @ replicate (n - length (enc ls)) 0)"
proof (induction ls arbitrary: out n rule: domain.induct)
  case (2 l)
  have "hostname_loop [] ((out @ of_nat (length l) # l) @ replicate (n - Suc (length l)) 0) i (Suc (length (out @ of_nat (length l) # l))) 0 =
    Inr (out @ enc [l] @ replicate (n - length (enc [l])) 0)" for i
    using 2 by (auto simp: put_at_def list_update_append list_update_same_conv)
  then show ?case using hostname_loop_label [of l 0 n "[]" out] 2 by simp
next
  case (3 l k ls)
  have "hostname_loop (domain (l # k # ls) @ [0]) (out @ replicate n 0) (length out) (Suc (length out)) 0 =
    hostname_loop (domain (k # ls) @ [0]) ((out @ of_nat (length l) # l) @ replicate (n - Suc (length l)) 0)
      (length (out @ of_nat (length l) # l)) (Suc (length (out @ of_nat (length l) # l))) 0"
    using hostname_loop_label [of l DOT n "domain (k # ls) @ [0]" out] 3 by simp
  also have "\<dots> = Inr ((out @ of_nat (length l) # l) @ enc (k # ls) @ replicate (n - Suc (length l) - length (enc (k # ls))) 0)"
    using 3 by (intro "3.IH") auto
  finally show ?case by simp
qed simp

lemma domain_to_hostname_labels:
  assumes "ls \<noteq> []" "\<forall>l \<in> set ls. label l" "length (domain ls) + 3 \<le> n"
  shows "dns_resolv_domain_to_hostname (replicate n 0) (domain ls) = Inr (enc ls @ replicate (n - length (enc ls)) 0)"
    "c_string (enc ls @ replicate (n - length (enc ls)) 0) = enc ls"
proof -
  have l: "length (enc ls) + 2 \<le> n" using enc_length [OF assms(1)] assms(3) by simp
  show "dns_resolv_domain_to_hostname (replicate n 0) (domain ls) = Inr (enc ls @ replicate (n - length (enc ls)) 0)"
    using hostname_loop_labels [OF assms(1,2) l, of "[]"] by (simp add: dns_resolv_domain_to_hostname_def)
  have "replicate (n - length (enc ls)) (0::u8) = 0 # replicate (n - length (enc ls) - 1) 0"
    using l by (cases "n - length (enc ls)") auto
  then show "c_string (enc ls @ replicate (n - length (enc ls)) 0) = enc ls"
    using c_string_append(1) [of "enc ls"] enc_bytes [OF assms(2)] by simp
qed

text \<open>The loops over a name, on a block of length and label bytes and on a compression pointer.\<close>

lemma skip_loop_block:
  "\<forall>c \<in> set b. c \<noteq> 0 \<and> c < 192 \<Longrightarrow> msg = pre @ b @ post \<Longrightarrow>
   skip_loop msg (length pre) j n = skip_loop msg (length pre + length b) j (if j then n else n + length b)"
proof (induction b arbitrary: pre n)
  case (Cons c b)
  have "skip_loop msg (length pre) j n = skip_loop msg (length (pre @ [c])) j (if j then n else n + 1)"
    using Cons.prems by (subst skip_loop.simps) (auto simp: nth_append not_le)
  also have "\<dots> = skip_loop msg (length (pre @ [c]) + length b) j (if j then (if j then n else n + 1) else (if j then n else n + 1) + length b)"
    using Cons.prems by (intro Cons.IH) auto
  finally show ?case by simp
qed simp

lemma read_name_block:
  "\<forall>c \<in> set b. c \<noteq> 0 \<and> c < 192 \<Longrightarrow> msg = pre @ b @ post \<Longrightarrow> length nm + length b \<le> 4095 \<Longrightarrow>
   read_name msg (length pre) j n nm = read_name msg (length pre + length b) j (if j then n else n + length b) (nm @ b)"
proof (induction b arbitrary: pre n nm)
  case (Cons c b)
  have "read_name msg (length pre) j n nm = read_name msg (length (pre @ [c])) j (if j then n else n + 1) (nm @ [c])"
    using Cons.prems by (subst read_name.simps) (auto simp: nth_append not_le)
  also have "\<dots> = read_name msg (length (pre @ [c]) + length b) j
    (if j then (if j then n else n + 1) else (if j then n else n + 1) + length b) ((nm @ [c]) @ b)"
    using Cons.prems by (intro Cons.IH) auto
  finally show ?case by simp
qed simp

lemma skip_loop_end: "skip_loop (pre @ 0 # post) (length pre) j n = Some (Inr (if j then n + 1 else n))"
  by (subst skip_loop.simps) (simp add: nth_append)

lemma read_name_end: "read_name (pre @ 0 # post) (length pre) j n nm = Some (Inr (nm, j, n))"
  by (subst read_name.simps) (simp add: nth_append)

text \<open>A pointer to a position: two bytes, of which the first has its two highest bits set.\<close>

definition ptr :: "nat \<Rightarrow> u8 list" where
  "ptr k = [of_nat (192 + k div 256), of_nat (k mod 256)]"

lemma dns_pointer_ptr:
  assumes "k < 2 ^ 14" "msg = pre @ ptr k @ post"
  shows "msg ! length pre \<ge> 192" "dns_pointer msg (length pre) = k" "length pre + 1 < length msg"
proof -
  have "k div 256 < 64" using assms(1) by simp
  then have "unat (of_nat (192 + k div 256) :: u8) = 192 + k div 256" "unat (of_nat (k mod 256) :: u8) = k mod 256"
    by (simp_all only: unat_of_nat) (simp_all add: take_bit_nat_eq_self)
  then show "msg ! length pre \<ge> 192" "dns_pointer msg (length pre) = k" "length pre + 1 < length msg"
    using assms(2) unfolding ptr_def word_le_nat_alt dns_pointer_def by (simp_all add: nth_append)
qed

lemma skip_loop_ptr:
  assumes "k < 2 ^ 14" "msg = pre @ ptr k @ post"
  shows "skip_loop msg (length pre) j n = skip_loop msg k True n"
  using dns_pointer_ptr [OF assms] by (subst skip_loop.simps) auto

lemma read_name_ptr:
  assumes "k < 2 ^ 14" "msg = pre @ ptr k @ post"
  shows "read_name msg (length pre) j n nm = read_name msg k True n nm"
  using dns_pointer_ptr [OF assms] by (subst read_name.simps) auto

lemma shift_label_block:
  "shift_label (length l) (length pre) (pre @ x # l @ t) = Inr (length pre + length l, pre @ l @ last (x # l) # t)"
proof (induction l arbitrary: pre x)
  case (Cons a l)
  have "shift_label (length (a # l)) (length pre) (pre @ x # (a # l) @ t) =
    shift_label (length l) (length (pre @ [a])) ((pre @ [a]) @ a # l @ t)"
    by (simp add: nth_append list_update_append)
  also have "\<dots> = Inr (length (pre @ [a]) + length l, (pre @ [a]) @ l @ last (a # l) # t)" by (rule Cons.IH)
  finally show ?case by simp
qed simp

lemma dots_loop_enc:
  "\<forall>l \<in> set ls. label l \<Longrightarrow>
   dots_loop (length pre + length (enc ls)) (length pre) (pre @ enc ls @ t) =
   Inr (length pre + length (enc ls), pre @ concat (map (\<lambda>l. l @ [DOT]) ls) @ t)"
proof (induction ls arbitrary: pre)
  case Nil
  then show ?case by (simp add: dots_loop.simps)
next
  case (Cons l ls)
  let ?x = "of_nat (length l) :: u8"
  have "length l < 64" using Cons.prems by (simp add: label_def)
  then have u: "unat ?x = length l" by (simp add: unat_of_nat take_bit_nat_eq_self)
  have x: "\<not> ?x \<ge> 128" using label_length [of l] Cons.prems by (auto simp: word_less_nat_alt word_le_nat_alt)
  have "dots_loop (length pre + length (enc (l # ls))) (length pre) (pre @ enc (l # ls) @ t) =
    dots_loop (length (pre @ l @ [DOT]) + length (enc ls)) (length (pre @ l @ [DOT])) ((pre @ l @ [DOT]) @ enc ls @ t)"
    using shift_label_block [of l pre ?x "enc ls @ t"] u x
    by (subst dots_loop.simps) (simp add: nth_append list_update_append add.assoc)
  also have "\<dots> = Inr (length (pre @ l @ [DOT]) + length (enc ls), (pre @ l @ [DOT]) @ concat (map (\<lambda>l. l @ [DOT]) ls) @ t)"
    using Cons by (intro Cons.IH) simp
  finally show ?case by simp
qed

lemma domain_dots: "ls \<noteq> [] \<Longrightarrow> concat (map (\<lambda>l. l @ [DOT]) ls) = domain ls @ [DOT]"
  by (induction ls rule: domain.induct) auto

lemma domain_bytes: "\<forall>l \<in> set ls. label l \<Longrightarrow> c \<in> set (domain ls) \<Longrightarrow> c \<noteq> 0"
  by (induction ls rule: domain.induct) (auto simp: label_def)

text \<open>The domain of a name that was read.\<close>

lemma name_to_domain:
  assumes "read_name msg i False 1 [] = Some (Inr (enc ls, j, n))" "ls \<noteq> []" "\<forall>l \<in> set ls. label l"
  shows "\<exists>out. dns_resolv_hostname_to_domain page msg i = Some (Inr (out, if j then n + 1 else n)) \<and> c_string out = domain ls \<and>
    out = domain ls @ 0 # 0 # drop (length (enc ls) + 1) page"
proof -
  let ?t = "0 # drop (length (enc ls) + 1) page"
  have d: "dots_loop (length (enc ls)) 0 (enc ls @ ?t) = Inr (length (enc ls), domain ls @ DOT # ?t)"
    using dots_loop_enc [OF assms(3), of "[]" ?t] domain_dots [OF assms(2)] by simp
  have u: "(domain ls @ DOT # ?t)[length (enc ls) - 1 := 0] = domain ls @ 0 # ?t"
    using enc_length [OF assms(2)] by (simp add: list_update_append)
  have "dns_resolv_hostname_to_domain page msg i = Some (Inr (domain ls @ 0 # ?t, if j then n + 1 else n))"
    unfolding dns_resolv_hostname_to_domain_def assms(1) using d u enc_length [OF assms(2)] by simp
  then show ?thesis using c_string_append(1) domain_bytes [OF assms(3)] by auto
qed

text \<open>
  Names of the DNS. The encoding of a domain as a question name and the decoding of a name in a message are
  inverse: a domain of labels that fits the buffer is encoded, the encoded name, wherever it is placed in a message, decodes to
  the domain, and a name whose rest is replaced by a compression pointer to an earlier name decodes to the joined
  domain. The number of bytes that the decoder reports is that of the name in the message.
\<close>

lemma dns_name_roundtrip:
  assumes "ls \<noteq> []" "\<forall>l \<in> set ls. label l" "length (domain ls) + 3 \<le> n"
    and "\<forall>l \<in> set ks. label l" "length (domain ls) + length (enc ks) < 4095" "length pre < 2 ^ 14"
  shows "\<exists>buf. dns_resolv_domain_to_hostname (replicate n 0) (domain ls) = Inr buf \<and>
    (\<exists>out. dns_resolv_hostname_to_domain page (pre @ c_string buf @ 0 # post) (length pre) = Some (Inr (out, length (c_string buf) + 1)) \<and>
       c_string out = domain ls) \<and>
    (\<exists>out. dns_resolv_hostname_to_domain page (pre @ c_string buf @ 0 # mid @ enc ks @ ptr (length pre) @ post)
         (length (pre @ c_string buf @ 0 # mid)) = Some (Inr (out, length (enc ks) + 2)) \<and> c_string out = domain (ks @ ls))"
proof -
  note e = domain_to_hostname_labels [OF assms(1-3)]
  have b: "\<forall>c \<in> set (enc xs). c \<noteq> 0 \<and> c < 192" if "\<forall>l \<in> set xs. label l" for xs
    using enc_bytes [OF that] by (fastforce simp: word_less_nat_alt)
  have len: "length (enc ls) + length (enc ks) \<le> 4095" using enc_length [OF assms(1)] assms(5) by simp
  have "read_name (pre @ enc ls @ 0 # post) (length pre) False 1 [] = Some (Inr (enc ls, False, length (enc ls) + 1))"
    using read_name_block [OF b [OF assms(2)] refl, where pre = pre and post = "0 # post" and j = False and n = 1 and nm = "[]"]
      read_name_end [of "pre @ enc ls" post] len by simp
  from name_to_domain [OF this assms(1,2), of page] have p: "\<exists>out. dns_resolv_hostname_to_domain page (pre @ enc ls @ 0 # post) (length pre) =
    Some (Inr (out, length (enc ls) + 1)) \<and> c_string out = domain ls" by auto
  let ?m = "pre @ enc ls @ 0 # mid @ enc ks @ ptr (length pre) @ post" and ?q = "pre @ enc ls @ 0 # mid"
  have "read_name ?m (length ?q) False 1 [] = read_name ?m (length (?q @ enc ks)) False (length (enc ks) + 1) (enc ks)"
    using read_name_block [OF b [OF assms(4)], where msg = ?m and pre = ?q and post = "ptr (length pre) @ post" and j = False and n = 1 and nm = "[]"] len
    by (simp add: add.assoc)
  also have "\<dots> = read_name ?m (length pre) True (length (enc ks) + 1) (enc ks)"
    using read_name_ptr [OF assms(6), where msg = ?m and pre = "?q @ enc ks" and post = post] by (simp add: add.assoc)
  also have "\<dots> = Some (Inr (enc (ks @ ls), True, length (enc ks) + 1))"
    using read_name_block [OF b [OF assms(2)], where msg = ?m and pre = pre and post = "0 # mid @ enc ks @ ptr (length pre) @ post" and j = True and n = "length (enc ks) + 1" and nm = "enc ks"]
      read_name_end [of "pre @ enc ls"] len by simp
  finally have "\<exists>out. dns_resolv_hostname_to_domain page ?m (length ?q) = Some (Inr (out, length (enc ks) + 2)) \<and> c_string out = domain (ks @ ls)"
    using name_to_domain [of ?m "length ?q" "ks @ ls" True "length (enc ks) + 1" page] assms(1,2,4) by auto
  with p e show ?thesis by simp
qed

section \<open>Resolution\<close>

text \<open>A response with one address record for the name of its question, as a name server sends it.\<close>

definition dns_header :: "u16 \<Rightarrow> u16 \<Rightarrow> u8 list" where
  "dns_header ident opts = put16 ident @ put16 opts @ put16 (BSWAP16 1) @ put16 (BSWAP16 1) @ put16 0 @ put16 0"

definition dns_response :: "u16 \<Rightarrow> u16 \<Rightarrow> u8 list list \<Rightarrow> u32 \<Rightarrow> u32 \<Rightarrow> u8 list" where
  "dns_response ident opts ls ttl ip = dns_header ident opts @ enc ls @ 0 # put16 (BSWAP16 1) @ put16 (BSWAP16 1) @
     ptr 12 @ put16 (BSWAP16 1) @ put16 (BSWAP16 1) @ put32 ttl @ put16 (BSWAP16 4) @ put32 ip"

lemma dns_header_length [simp]: "length (dns_header i p) = 12" "length (ptr k) = 2"
  by (simp_all add: dns_header_def ptr_def)

text \<open>The answer record of such a response.\<close>

lemma dns_response_answer:
  assumes "\<forall>l \<in> set ls. label l"
  shows "dns_answer page (dns_response ident opts ls ttl ip) (12 + length (enc ls) + 1 + 4) (r, g) =
    Some (Inr (length (dns_response ident opts ls ttl ip), r\<lparr>r_ipv4 := ip\<rparr>, True))"
proof -
  let ?m = "dns_response ident opts ls ttl ip" and ?q = "put16 (BSWAP16 1) @ put16 (BSWAP16 1)"
  let ?pre = "dns_header ident opts @ enc ls @ 0 # ?q" and ?rr = "?q @ put32 ttl @ put16 (BSWAP16 4) @ put32 ip"
  have m: "?m = ?pre @ ptr 12 @ ?rr" "?m = dns_header ident opts @ enc ls @ 0 # ?q @ ptr 12 @ ?rr"
    by (simp_all add: dns_response_def)
  have pos: "12 + length (enc ls) + 1 + 4 = length ?pre" by simp
  have b: "\<forall>c \<in> set (enc ls). c \<noteq> 0 \<and> c < 192" using enc_bytes [OF assms] by (fastforce simp: word_less_nat_alt)
  have "skip_loop ?m (length ?pre) False 1 = skip_loop ?m 12 True 1" by (rule skip_loop_ptr [OF _ m(1)]) simp
  also have "\<dots> = skip_loop ?m (length (dns_header ident opts) + length (enc ls)) True 1"
    using skip_loop_block [OF b m(2), of True 1] by simp
  also have "\<dots> = Some (Inr 2)"
    using skip_loop_end [of "dns_header ident opts @ enc ls" "?q @ ptr 12 @ ?rr" True 1] m(2) by (simp add: add.assoc)
  finally have sk: "dns_resolv_skip_name ?m (length ?pre) = Some (Inr 2)"
    unfolding dns_resolv_skip_name_def .
  let ?p = "?pre @ ptr 12"
  have g: "get16 ?m (length ?pre + 2) = BSWAP16 1" "get16 ?m (length ?pre + 2 + 2) = BSWAP16 1"
    "get16 ?m (length ?pre + 2 + 8) = BSWAP16 4" "get32 ?m (length ?pre + 2 + 10) = ip"
    using get16_put16 [of "length ?pre + 2" ?p "BSWAP16 1"] get16_put16 [of "length ?pre + 2 + 2" "?p @ put16 (BSWAP16 1)" "BSWAP16 1"]
      get16_put16 [of "length ?pre + 2 + 8" "?p @ ?q @ put32 ttl" "BSWAP16 4"]
      get32_put32 [of "length ?pre + 2 + 10" "?p @ ?q @ put32 ttl @ put16 (BSWAP16 4)" ip "[]"]
    by (simp_all add: m(1))
  have "length ?m = length ?pre + 2 + 10 + 4" by (simp add: m(1))
  then show ?thesis unfolding pos unfolding dns_answer_def sk lbind_simps Let_def g by simp
qed

lemma dns_response_received:
  assumes "ls \<noteq> []" "\<forall>l \<in> set ls. label l" "length (domain ls) < 256"
  shows "dns_udp_recv pages (dns_response ident opts ls ttl ip) s =
    Some (Inr (s\<lparr>dns_loop := dns_loop s + 1, dns_wait := False, dns_results := dns_results s @
      [\<lparr>r_ipv4 = ip, r_cname = replicate 256 0, r_name = enc ls @ replicate (256 - length (enc ls)) 0\<rparr>]\<rparr>))"
proof -
  let ?m = "dns_response ident opts ls ttl ip" and ?res = "\<lparr>r_ipv4 = 0, r_cname = replicate 256 0, r_name = enc ls @ replicate (256 - length (enc ls)) 0\<rparr>"
  obtain t where t: "drop 12 ?m = enc ls @ 0 # t" by (simp add: dns_response_def)
  have nz: "\<forall>c \<in> set (enc ls). c \<noteq> 0" using enc_bytes [OF assms(2)] by blast
  have q: "c_string (drop 12 ?m) = enc ls" unfolding t by (rule c_string_append(1) [OF nz])
  have l: "length (enc ls) \<le> 256" using enc_length [OF assms(1)] assms(3) by simp
  obtain c cs where c: "enc ls = c # cs" using enc_length [OF assms(1)] by (cases "enc ls") auto
  have "c # c_string (cs @ 0 # t) = enc ls" using c_string_append(1) [of cs t] nz by (simp add: c)
  then have cf: "copy_field (drop 12 ?m) (replicate 256 0) = Inr (enc ls @ replicate (256 - length (enc ls)) 0)"
    unfolding t using l by (simp add: copy_field_def c Let_def)
  have n: "unat (BSWAP16 (get16 ?m 6)) = 1"
    using get16_put16 [of 6 "put16 ident @ put16 opts @ put16 (BSWAP16 1)" "BSWAP16 1"] by (simp add: dns_response_def dns_header_def)
  have ok: "\<not> (length ?m \<le> 12 \<or> 0 \<notin> set (drop 12 ?m))" unfolding t by (simp add: dns_response_def)
  have a: "dns_answers 1 pages ?m (12 + length (enc ls) + 1 + 4) (?res, False) = Some (Inr (?res\<lparr>r_ipv4 := ip\<rparr>, True))"
    using dns_response_answer [OF assms(2), where r = ?res and g = False] unfolding One_nat_def dns_answers.simps by simp
  show ?thesis unfolding dns_udp_recv_def Let_def q cf n lbind_simps a using ok by simp
qed

lemma find_result_append: "find_result q (rs @ [r]) = (case find_result q rs of None \<Rightarrow> if c_string (r_name r) = q then Some r else None | Some x \<Rightarrow> Some x)"
  by (induction rs) auto

text \<open>The wait, when the response arrives during a later sleep.\<close>

lemma dns_poll_idle: "dns_wait s \<Longrightarrow> dns_poll (k + n) q (replicate k (\<lambda>s. s) @ env) s = dns_poll n q env s"
  by (induction k) (simp_all add: sleep_def)

lemma dns_resolve_cached:
  assumes "ls \<noteq> []" "\<forall>l \<in> set ls. label l" "length (domain ls) + 3 \<le> 128" "find_result (enc ls) (dns_results s) = Some r" "r_ipv4 r \<noteq> 0"
  shows "dns_resolve_A envs n (domain ls) s = Some (Inr (r_ipv4 r, s\<lparr>dns_loop := 0\<rparr>))"
proof -
  have "dns_lookup (domain ls) ea e s = Inr (DnsDone (r_ipv4 r) (s\<lparr>dns_loop := 0\<rparr>))" for ea e
    unfolding dns_lookup_def domain_to_hostname_labels [OF assms(1-3)]
    using assms(4,5) by (simp add: domain_to_hostname_labels(2) [OF assms(1-3)] dns_find_result_def dns_use_def)
  then show ?thesis by (subst dns_resolve_A.simps) simp
qed

lemma dns_request_quiet:
  assumes "ls \<noteq> []" "\<forall>l \<in> set ls. label l" "length (domain ls) + 3 \<le> 128"
  shows "\<exists>fs. dns_request (domain ls) [] s = Inr (s\<lparr>nic_sent := nic_sent s @ fs\<rparr>)"
proof -
  have n: "length (domain ls) + 3 \<le> 4084" using assms(3) by simp
  have l: "length (enc ls) \<le> 126" using enc_length [OF assms(1)] assms(3) by simp
  have q: "length (dns_question (enc ls)) \<le> 143" using l by (simp add: dns_question_def)
  obtain fs where "ipv4_send 0x11 (u_remote_ip (udp_socks s (dns_sock s))) (udp_packet (u_local_port (udp_socks s (dns_sock s)))
    (u_remote_port (udp_socks s (dns_sock s))) (dns_question (enc ls))) [] s = s\<lparr>nic_sent := nic_sent s @ fs\<rparr>"
    using ipv4_send_quiet by blast
  then have "dns_request (domain ls) [] s = Inr (s\<lparr>nic_sent := nic_sent s @ fs\<rparr>)"
    unfolding dns_request_def domain_to_hostname_labels(1) [OF assms(1,2) n] rbind_Inr domain_to_hostname_labels(2) [OF assms(1,2) n]
    using l q by (simp add: udp_socket_send_def Let_def)
  then show ?thesis by blast
qed



text \<open>
  An alias in the cache that leads to itself: the counter that bounds the number of aliases is only
  increased when a response arrives, and the call never returns.
\<close>

lemma dns_cname_loop_diverges:
  assumes "ls \<noteq> []" "\<forall>l \<in> set ls. label l" "length (domain ls) + 3 \<le> 128"
    and "find_result (enc ls) (dns_results s) = Some r" "r_ipv4 r = 0" "c_string (r_cname r) = domain ls" "sint (dns_loop s) < 10"
  shows "dns_resolve_A envs n (domain ls) s = None"
proof -
  have step: "dns_lookup (domain ls) ea e s = Inr (DnsFollow (domain ls) s)" for ea e
    unfolding dns_lookup_def domain_to_hostname_labels(1) [OF assms(1-3)] rbind_Inr domain_to_hostname_labels(2) [OF assms(1-3)] Let_def
    using assms(4-7) by (simp add: dns_find_result_def dns_use_def MAX_LOOP_COUNT_def)
  have "dns_resolve_A envs n d t = Some y \<Longrightarrow> \<not> (d = domain ls \<and> t = s)" for d t y
    by (erule dns_resolve_A.raw_induct [rotated]) (clarsimp simp: step, blast)
  then show ?thesis by (cases "dns_resolve_A envs n (domain ls) s") auto
qed

text \<open>A compression pointer to itself: the loops over names never return.\<close>

lemma dns_pointer_loop_diverges: "dns_resolv_skip_name (replicate 12 0 @ ptr 12) 12 = None"
proof -
  let ?m = "replicate 12 0 @ ptr 12 :: u8 list"
  have step: "?m ! 12 \<ge> 192" "dns_pointer ?m 12 = 12" "12 + 1 < length ?m"
    using dns_pointer_ptr [of 12 ?m "replicate 12 0" "[]"] by simp_all
  have nz: "?m ! 12 \<noteq> 0" by (simp add: ptr_def nth_append)
  have "skip_loop m i j c = Some y \<Longrightarrow> \<not> (m = ?m \<and> i = 12)" for m i j c y
    by (erule skip_loop.raw_induct [rotated]) (clarsimp simp only: step nz if_False if_True simp_thms not_le, use step nz in \<open>auto split: if_splits\<close>, blast)
  then show ?thesis unfolding dns_resolv_skip_name_def by (metis option.exhaust)
qed

end
