(* ===== verification/Stack.thy ===== *)
theory Stack
  imports Dns
begin

text \<open>
  Loading the network stack of a network card, \<open>mckrnl/net/stack.c\<close> and \<open>mckrnl/driver/nic_driver.c\<close>: the layers are
  initialised from the bottom, the address is requested by DHCP, announced, and the DNS client gets its socket.
\<close>

text \<open>\<open>memset\<close> of the new stack; the card's addresses and log, and the global table of sockets, are not part of it.\<close>

definition stack_zero :: "net \<Rightarrow> net" where
  "stack_zero s = s\<lparr>eth_handlers := [], arp_cache := [], ip_handlers := [], gateway_ip := 0, subnet_mask := 0,
     last_echo_reply_ip := 0, udp_binds := [], udp_next := 0, udp_free_port := 0, tcp_binds := [], tcp_next := 0,
     tcp_free_port := 0, dhcp_sock := 0, dhcp_ip := 0, dhcp_gateway := 0, dhcp_subnet := 0, dhcp_dns := 0,
     dhcp_completed := False, dns_sock := 0, dns_results := [], dns_loop := 0, dns_wait := False\<rparr>"

definition load_network_stack :: "(net \<Rightarrow> net) list \<Rightarrow> (net \<Rightarrow> net) list \<Rightarrow> (net \<Rightarrow> net) list \<Rightarrow> net \<Rightarrow> net res" where
  "load_network_stack env_arp env_dhcp env_gateway nic =
     rbind (dhcp_request env_arp env_dhcp
       (dhcp_init (tcp_init (udp_init (icmp_init (ipv4_init 0xffffffff 0xffffffff (arp_init (etherframe_init (stack_zero nic)))))))))
     (\<lambda>s. let s1 = s\<lparr>nic_ip := dhcp_ip s, gateway_ip := dhcp_gateway s, subnet_mask := dhcp_subnet s\<rparr>
           in Inr (dns_init (dhcp_dns s1) (arp_broadcast_mac (dhcp_gateway s1) env_gateway s1)))"

text \<open>The table of the network cards; the stack of every card is loaded in turn.\<close>

definition register_nic_driver :: "net \<Rightarrow> net list \<Rightarrow> net list" where
  "register_nic_driver nic nics = nics @ [nic]"

primrec load_network_stacks :: "((net \<Rightarrow> net) list \<times> (net \<Rightarrow> net) list \<times> (net \<Rightarrow> net) list) list \<Rightarrow> net list \<Rightarrow> net list res" where
  "load_network_stacks envs [] = Inr []"
| "load_network_stacks envs (nic # nics) =
     (case envs of
        [] \<Rightarrow> rbind (load_network_stack [] [] [] nic) (\<lambda>n. rbind (load_network_stacks [] nics) (\<lambda>ns. Inr (n # ns)))
      | (ea, ed, eg) # es \<Rightarrow>
          rbind (load_network_stack ea ed eg nic) (\<lambda>n. rbind (load_network_stacks es nics) (\<lambda>ns. Inr (n # ns))))"

lemma arp_resolve_broadcast: "arp_resolve 0xffffffff env s = (0xFFFFFFFFFFFF, s)"
  by (simp add: arp_resolve_def)

lemma arp_broadcast_quiet: "\<exists>fs. arp_broadcast_mac ip [] s = s\<lparr>nic_sent := nic_sent s @ fs\<rparr>"
proof -
  obtain fs where fs: "snd (arp_resolve ip [] s) = s\<lparr>nic_sent := nic_sent s @ fs\<rparr>" using arp_resolve_quiet by blast
  obtain g where "arp_broadcast_mac ip [] s = (snd (arp_resolve ip [] s))\<lparr>nic_sent := nic_sent (snd (arp_resolve ip [] s)) @ [g]\<rparr>"
    by (simp add: arp_broadcast_mac_def case_prod_beta Let_def etherframe_send_def)
  then have "arp_broadcast_mac ip [] s = s\<lparr>nic_sent := nic_sent s @ (fs @ [g])\<rparr>" unfolding fs by simp
  then show ?thesis by blast
qed

lemma dhcp_wait_idle: "\<not> dhcp_completed s \<Longrightarrow> dhcp_wait (k + n) (replicate k (\<lambda>s. s) @ env) s = dhcp_wait n env s"
  by (induction k) (simp_all add: sleep_def)

text \<open>The state before the DHCP request: every layer is registered, and the request's socket broadcasts.\<close>

definition stack_ready :: "net \<Rightarrow> net" where
  "stack_ready nic =
     dhcp_init (tcp_init (udp_init (icmp_init (ipv4_init 0xffffffff 0xffffffff (arp_init (etherframe_init (stack_zero nic)))))))"

lemma BSWAP16_types: "BSWAP16 0x806 = ARP_TYPE" "BSWAP16 0x0800 = IPV4_TYPE"
  by (simp_all add: BSWAP16_def)

lemma stack_ready_fields:
  "nic_mac (stack_ready nic) = nic_mac nic" "gateway_ip (stack_ready nic) = 0xffffffff" "dhcp_sock (stack_ready nic) = 0"
  "eth_handlers (stack_ready nic) = [(ARP_TYPE, ArpRecv), (IPV4_TYPE, Ipv4Recv)]"
  "ip_handlers (stack_ready nic) = [(0x01, IcmpRecv), (0x11, UdpRecv), (0x06, TcpRecv)]"
  "u_remote_ip (udp_socks (stack_ready nic) 0) = 0xffffffff" "udp_next (stack_ready nic) = 1" "udp_free_port (stack_ready nic) = 1025"
  "udp_binds (stack_ready nic) = [(BSWAP16 1024, Some 0)]" "\<not> dhcp_completed (stack_ready nic)"
  by (simp_all add: stack_ready_def dhcp_init_def tcp_init_def udp_init_def icmp_init_def ipv4_init_def arp_init_def
      etherframe_init_def stack_zero_def etherframe_register_def ipv4_register_def udp_connect_def new_udp_socket_def Let_def
      BSWAP16_types)

lemma dhcp_request_sent:
  "\<exists>f. dhcp_request env_arp env (stack_ready nic) = Inr (dhcp_wait 1999 env (stack_ready nic\<lparr>nic_sent := nic_sent (stack_ready nic) @ [f]\<rparr>))"
proof -
  let ?s = "stack_ready nic"
  have l: "length (dhcp_make_packet m t i) = 300" for m t i
    by (simp add: dhcp_make_packet_def dhcp_make_options_def HOSTNAME_def)
  have r: "ipv4_route 0xffffffff ?s = 0xffffffff" by (simp add: ipv4_route_def stack_ready_fields)
  have "\<exists>f. ipv4_send 0x11 0xffffffff x env_arp ?s = ?s\<lparr>nic_sent := nic_sent ?s @ [f]\<rparr>" for x
    unfolding ipv4_send_def r arp_resolve_broadcast Let_def etherframe_send_def prod.case by blast
  then obtain f where "ipv4_send 0x11 0xffffffff (udp_packet (u_local_port (udp_socks ?s 0)) (u_remote_port (udp_socks ?s 0))
      (dhcp_make_packet (nic_mac nic) 1 0)) env_arp ?s = ?s\<lparr>nic_sent := nic_sent ?s @ [f]\<rparr>" by blast
  then have "dhcp_request env_arp env ?s = Inr (dhcp_wait 1999 env (?s\<lparr>nic_sent := nic_sent ?s @ [f]\<rparr>))"
    by (simp add: dhcp_request_def udp_socket_send_def l stack_ready_fields Let_def)
  then show ?thesis by blast
qed



end
