(* ===== verification/Time.thy ===== *)
theory Time
  imports Prelude "HOL-Library.Signed_Division"
begin

text \<open>
  Calendar time, \<open>mckrnl/utils/unix_time.c\<close> and its copy \<open>user/libc/buildin/unix_time.c\<close>. \<open>from_unix_time\<close> computes in
  32-bit words (\<open>unsigned long\<close>), whose results are stored as signed numbers; \<open>to_unix_time\<close> computes in signed integers, whose
  division rounds towards zero.
\<close>

section \<open>Definitions\<close>

definition days_since_newyear :: "int list" where
  "days_since_newyear = [0, 31, 59, 90, 120, 151, 181, 212, 243, 273, 304, 334]"

definition leap :: "int \<Rightarrow> bool" where
  "leap year \<longleftrightarrow> year smod 4 = 0 \<and> (year smod 100 \<noteq> 0 \<or> year smod 400 = 0)"

definition to_unix_time :: "int \<Rightarrow> int \<Rightarrow> int \<Rightarrow> int \<Rightarrow> int \<Rightarrow> int \<Rightarrow> int res" where
  "to_unix_time year month day hour minute second =
     (if month < 1 \<or> month > 12 then Inl OutOfBounds
      else let leap_years = ((year - 1) - 1968) sdiv 4 - ((year - 1) - 1900) sdiv 100 + ((year - 1) - 1600) sdiv 400;
               days_since_1970 = (year - 1970) * 365 + leap_years + days_since_newyear ! nat (month - 1) + day - 1;
               days = (if month > 2 \<and> leap year then days_since_1970 + 1 else days_since_1970)
           in Inr (second + 60 * (minute + 60 * (hour + 24 * days))))"

definition from_unix_time :: "u32 \<Rightarrow> int \<times> int \<times> int \<times> int \<times> int \<times> int" where
  "from_unix_time unixtime =
     (let day_n = 719468 + unixtime div 86400;
          seconds_since_0 = unixtime mod 86400;
          temp = 4 * (day_n + 36524 + 1) div 146097 - 1;
          year = 100 * temp;
          day_n = day_n - (36524 * temp + temp div 4);
          temp = 4 * (day_n + 365 + 1) div 1461 - 1;
          year = sint (year + temp);
          day_n = day_n - (365 * temp + temp div 4);
          month = sint ((5 * day_n + 2) div 153);
          day = sint (day_n - word_of_int ((month * 153 + 2) sdiv 5) + 1);
          month = month + 3;
          (month, year) = (if month > 12 then (month - 12, year + 1) else (month, year))
      in (year, month, day, sint (seconds_since_0 div 3600), sint (seconds_since_0 mod 3600 div 60), sint (seconds_since_0 mod 60)))"

section \<open>The calendar\<close>

text \<open>
  The calendar without machine arithmetic: years begin in March, so that the day that a leap year adds is the last
  of its year.
\<close>

lemma div_lower: "0 < n \<Longrightarrow> a div n = q \<Longrightarrow> n * q \<le> a" for a n :: int
proof (erule subst)
  assume "0 < n"
  then show "n * (a div n) \<le> a" using mult_div_mod_eq [of n a] pos_mod_sign [of n a] by linarith
qed

lemma div_upper: "0 < n \<Longrightarrow> a div n = q \<Longrightarrow> a < n * q + n" for a n :: int
proof (erule subst)
  assume "0 < n"
  then show "a < n * (a div n) + n" using mult_div_mod_eq [of n a] pos_mod_bound [of n a] by linarith
qed

lemma century:
  fixes D t d :: int
  assumes "719468 \<le> D" "D \<le> 769178" "t = 4 * (D + 36525) div 146097 - 1" "d = D - (36524 * t + t div 4)"
  shows "t \<in> {19, 20, 21}" "0 \<le> d" "d \<le> 36524" "t = 19 \<Longrightarrow> 25508 \<le> d" "t = 21 \<Longrightarrow> d \<le> 2169"
proof -
  have q: "4 * (D + 36525) div 146097 = t + 1" using assms(3) by simp
  note b = div_lower [OF _ q, simplified] div_upper [OF _ q, simplified]
  have "19 \<le> t" "t \<le> 21" using b assms(1,2) by linarith+
  then show t: "t \<in> {19, 20, 21}" by auto
  then show "0 \<le> d" "d \<le> 36524" "t = 19 \<Longrightarrow> 25508 \<le> d" "t = 21 \<Longrightarrow> d \<le> 2169" using b assms(1,2,4) by auto
qed

lemma century_year:
  fixes d y e :: int
  assumes "0 \<le> d" "d \<le> 36524" "y = 4 * (d + 366) div 1461 - 1" "e = d - (365 * y + y div 4)"
  shows "0 \<le> y" "y \<le> 99" "0 \<le> e" "e \<le> 365"
proof -
  have r: "4 * (d + 366) div 1461 = y + 1" using assms(3) by simp
  note b = div_lower [OF _ r, simplified] div_upper [OF _ r, simplified]
  have q: "4 * (y div 4) \<le> y" "y < 4 * (y div 4) + 4" using div_lower [of 4 y] div_upper [of 4 y] by simp_all
  show "0 \<le> y" "y \<le> 99" using b assms(1,2) by linarith+
  show "0 \<le> e" "e \<le> 365" using b q assms(4) by linarith+
qed

lemma year_month:
  fixes e m :: int
  assumes "0 \<le> e" "e \<le> 365" "m = (5 * e + 2) div 153"
  shows "0 \<le> m" "m \<le> 11" "(m * 153 + 2) div 5 \<le> e" "e \<le> (m * 153 + 2) div 5 + 30" "306 \<le> e \<Longrightarrow> 10 \<le> m"
proof -
  note b = div_lower [OF _ assms(3) [symmetric], simplified] div_upper [OF _ assms(3) [symmetric], simplified]
  have q: "5 * ((m * 153 + 2) div 5) \<le> m * 153 + 2" "m * 153 + 2 < 5 * ((m * 153 + 2) div 5) + 5"
    using div_lower [of 5 "m * 153 + 2"] div_upper [of 5 "m * 153 + 2"] by simp_all
  show "0 \<le> m" "m \<le> 11" "(m * 153 + 2) div 5 \<le> e" "e \<le> (m * 153 + 2) div 5 + 30" "306 \<le> e \<Longrightarrow> 10 \<le> m" using b q assms(1,2) by linarith+
qed

text \<open>The days before the months, counted from March and from January, and the days before the years from 1970 to 2106.\<close>

lemma months_ok:
  "\<forall>m \<in> set [0..9]. days_since_newyear ! nat (m + 2) = (m * 153 + 2) div 5 + 59"
  "\<forall>m \<in> set [10..11]. days_since_newyear ! nat (m - 10) = (m * 153 + 2) div 5 - 306"
  by code_simp+

definition days_to_year :: "int \<Rightarrow> int" where
  "days_to_year year = (year - 1970) * 365 + (((year - 1) - 1968) sdiv 4 - ((year - 1) - 1900) sdiv 100 + ((year - 1) - 1600) sdiv 400)"

definition days_to_march :: "int \<Rightarrow> int" where
  "days_to_march y = 36524 * (y div 100) + y div 100 div 4 + 365 * (y mod 100) + (y mod 100) div 4 - 719468"

lemma years_ok:
  "\<forall>y \<in> set [1970..2106]. days_to_year y + 59 + (if leap y then 1 else 0) = days_to_march y"
  "\<forall>y \<in> set [1969..2106]. days_to_year (y + 1) - 306 = days_to_march y"
  by code_simp+

lemma to_unix_time_march:
  assumes "1969 \<le> y" "y \<le> 2106" "0 \<le> m" "m \<le> 11" "y = 1969 \<Longrightarrow> 10 \<le> m"
  shows "to_unix_time (if m < 10 then y else y + 1) (if m < 10 then m + 3 else m - 9) day h mi sec =
    Inr (sec + 60 * (mi + 60 * (h + 24 * (days_to_march y + (m * 153 + 2) div 5 + day - 1))))"
proof (cases "m < 10")
  case True
  have "m \<in> set [0..9]" "y \<in> set [1970..2106]" unfolding set_upto using True assms by force+
  then have "days_since_newyear ! nat (m + 2) = (m * 153 + 2) div 5 + 59"
    "days_to_year y + 59 + (if leap y then 1 else 0) = days_to_march y"
    using months_ok(1) years_ok(1) by blast+
  then show ?thesis using True assms(3) by (auto simp: to_unix_time_def days_to_year_def Let_def algebra_simps)
next
  case False
  have "m \<in> set [10..11]" "y \<in> set [1969..2106]" unfolding set_upto using False assms by auto
  then have "days_since_newyear ! nat (m - 10) = (m * 153 + 2) div 5 - 306" "days_to_year (y + 1) - 306 = days_to_march y"
    using months_ok(2) years_ok(2) by blast+
  then show ?thesis using False assms(4) by (auto simp: to_unix_time_def days_to_year_def Let_def algebra_simps)
qed

section \<open>Machine arithmetic\<close>

lemma uint_woi: "0 \<le> k \<Longrightarrow> k < 2 ^ 32 \<Longrightarrow> uint (word_of_int k :: u32) = k"
  by (simp add: unsigned_of_int take_bit_int_eq_self)

lemma sint_woi: "0 \<le> k \<Longrightarrow> k < 2 ^ 31 \<Longrightarrow> sint (word_of_int k :: u32) = k"
  by (simp add: signed_of_int signed_take_bit_int_eq_self)

lemma div_woi: "0 \<le> k \<Longrightarrow> k < 2 ^ 32 \<Longrightarrow> uint w = n \<Longrightarrow> a = word_of_int k \<Longrightarrow> a div w = word_of_int (k div n)" for w :: u32
  by (simp add: word_div_def uint_woi)

lemma sdiv_nonneg: "0 \<le> a \<Longrightarrow> a sdiv numeral n = a div numeral n" for a :: int
  by (cases "a = 0") (simp_all add: signed_divide_int_def)

lemma clock_bounds:
  "0 \<le> U mod 86400 div 3600" "U mod 86400 div 3600 < 24" "0 \<le> U mod 86400 mod 3600 div 60" "U mod 86400 mod 3600 div 60 < 60"
  "0 \<le> U mod 86400 mod 60" "U mod 86400 mod 60 < 60" for U :: int
proof -
  have div_less: "0 \<le> v div n" "v div n < k" if "0 \<le> v" "v < n * k" "0 < n" for v n k :: int
    using that div_lower [of n v "v div n"] by (simp_all add: pos_imp_zdiv_nonneg_iff) (metis mult_less_cancel_left_pos order_le_less_trans)
  show "0 \<le> U mod 86400 div 3600" "U mod 86400 div 3600 < 24" using div_less [of "U mod 86400" 3600 24] by simp_all
  show "0 \<le> U mod 86400 mod 3600 div 60" "U mod 86400 mod 3600 div 60 < 60" using div_less [of "U mod 86400 mod 3600" 60 60] by simp_all
  show "0 \<le> U mod 86400 mod 60" "U mod 86400 mod 60 < 60" by simp_all
qed

lemma clock_total: "U mod 86400 mod 60 + 60 * (U mod 86400 mod 3600 div 60 + 60 * (U mod 86400 div 3600 + 24 * (U div 86400))) = U" for U :: int
proof -
  define V W where "V = U mod 86400" and "W = V mod 3600"
  define h mi sec q where "h = V div 3600" and "mi = W div 60" and "sec = W mod 60" and "q = U div 86400"
  have "V = 3600 * h + W" "W = 60 * mi + sec" "U = 86400 * q + V"
    unfolding h_def mi_def sec_def q_def W_def V_def by (simp_all only: mult_div_mod_eq)
  moreover have "V mod 60 = sec" unfolding sec_def W_def by (rule mod_mod_cancel [symmetric]) simp
  moreover from calculation(1-3) have "sec + 60 * (mi + 60 * (h + 24 * q)) = U" by (simp add: algebra_simps)
  ultimately have "V mod 60 + 60 * (mi + 60 * (h + 24 * q)) = U" by simp
  then show ?thesis by (simp only: h_def mi_def q_def W_def V_def)
qed

text \<open>No operation of \<open>from_unix_time\<close> overflows: the date is that of the calendar.\<close>

lemma from_unix_time_calendar:
  fixes t :: u32
  assumes U_def: "U = uint t" and D_def: "D = 719468 + U div 86400"
    and c_def: "c = 4 * (D + 36525) div 146097 - 1" and d_def: "d = D - (36524 * c + c div 4)"
    and y_def: "y = 4 * (d + 366) div 1461 - 1" and e_def: "e = d - (365 * y + y div 4)" and m_def: "m = (5 * e + 2) div 153"
  shows "from_unix_time t = ((if m < 10 then 100 * c + y else 100 * c + y + 1), (if m < 10 then m + 3 else m - 9), e - (m * 153 + 2) div 5 + 1,
     U mod 86400 div 3600, U mod 86400 mod 3600 div 60, U mod 86400 mod 60)"
    "719468 \<le> D" "D \<le> 769178"
proof -
  have U: "0 \<le> U" "U < 2 ^ 32" using uint_lt2p [of t] by (simp_all add: U_def)
  have "86400 * (U div 86400) \<le> U" using div_lower [of 86400 U] by simp
  then have "U div 86400 \<le> 49710" using U by simp
  moreover have "0 \<le> U div 86400" using U by (simp add: pos_imp_zdiv_nonneg_iff)
  ultimately show D: "719468 \<le> D" "D \<le> 769178" by (simp_all add: D_def)
  note C = century [OF D c_def d_def]
  have cb: "19 \<le> c" "c \<le> 21" using C(1) by auto
  note Y = century_year [OF C(2,3) y_def e_def]
  note M = year_month [OF Y(3,4) m_def]
  have t: "t = word_of_int U" by (simp add: U_def)
  have "t div 86400 = word_of_int (U div 86400)" by (rule div_woi) (use U t in simp_all)
  then have w1: "719468 + t div 86400 = word_of_int D" by (simp add: D_def)
  have "4 * ((word_of_int D :: u32) + 36524 + 1) div 146097 = word_of_int (4 * (D + 36525) div 146097)"
    by (rule div_woi) (use D in \<open>simp_all add: distrib_left\<close>)
  then have w2: "4 * ((word_of_int D :: u32) + 36524 + 1) div 146097 - 1 = word_of_int c" by (simp add: c_def)
  have "(word_of_int c :: u32) div 4 = word_of_int (c div 4)" by (rule div_woi) (use cb in simp_all)
  then have w3: "(word_of_int D :: u32) - (36524 * word_of_int c + word_of_int c div 4) = word_of_int d" by (simp add: d_def)
  have "4 * ((word_of_int d :: u32) + 365 + 1) div 1461 = word_of_int (4 * (d + 366) div 1461)"
    by (rule div_woi) (use C(2,3) in \<open>simp_all add: distrib_left\<close>)
  then have w4: "4 * ((word_of_int d :: u32) + 365 + 1) div 1461 - 1 = word_of_int y" by (simp add: y_def)
  have w5: "sint (100 * word_of_int c + word_of_int y :: u32) = 100 * c + y" using sint_woi [of "100 * c + y"] cb Y by simp
  have "(word_of_int y :: u32) div 4 = word_of_int (y div 4)" by (rule div_woi) (use Y in simp_all)
  then have w6: "(word_of_int d :: u32) - (365 * word_of_int y + word_of_int y div 4) = word_of_int e" by (simp add: e_def)
  have "(5 * (word_of_int e :: u32) + 2) div 153 = word_of_int ((5 * e + 2) div 153)" by (rule div_woi) (use Y in simp_all)
  then have w7: "sint ((5 * (word_of_int e :: u32) + 2) div 153) = m" using sint_woi [of m] M by (simp add: m_def)
  have w8: "sint ((word_of_int e :: u32) - word_of_int ((m * 153 + 2) sdiv 5) + 1) = e - (m * 153 + 2) div 5 + 1"
    using sint_woi [of "e - (m * 153 + 2) div 5 + 1"] sdiv_nonneg [of "m * 153 + 2"] Y M by simp
  have ss: "sint x = k" if "uint x = k" "k < 2 ^ 31" for x :: u32 and k using sint_woi [of "uint x", simplified] that by simp
  have um: "uint (t mod 86400 div 3600) = U mod 86400 div 3600" "uint (t mod 86400 mod 3600 div 60) = U mod 86400 mod 3600 div 60"
    "uint (t mod 86400 mod 60) = U mod 86400 mod 60" unfolding U_def uint_div uint_mod by simp_all
  have big: "(24 :: int) < 2 ^ 31" "(60 :: int) < 2 ^ 31" by simp_all
  note w9 = ss [OF um(1) order_less_trans [OF clock_bounds(2) big(1)]] ss [OF um(2) order_less_trans [OF clock_bounds(4) big(2)]]
    ss [OF um(3) order_less_trans [OF clock_bounds(6) big(2)]]
  show "from_unix_time t = ((if m < 10 then 100 * c + y else 100 * c + y + 1), (if m < 10 then m + 3 else m - 9), e - (m * 153 + 2) div 5 + 1,
     U mod 86400 div 3600, U mod 86400 mod 3600 div 60, U mod 86400 mod 60)"
    unfolding from_unix_time_def Let_def w1 w2 w3 w4 w5 w6 w7 w8 w9 by simp
qed


end
