(* ===== verification/Printf.thy ===== *)
theory Printf
  imports Time
begin

text \<open>
  Formatted output and the reading of numbers: \<open>mckrnl/utils/vsprintf.c\<close>, \<open>user/libc/stdio/vsprintf.c\<close>, \<open>printf\<close> of both,
  and \<open>atoi\<close> and \<open>strtol\<close> of the C library. Strings are the bytes before their NUL. The variable arguments are a list;
  reading one that was not passed, or one of the wrong kind, is the use of an uninitialised value. Bases are not
  negative.
\<close>

section \<open>Definitions\<close>

datatype va = VaStr "u8 list" | VaNum u32

definition digits36 :: "u8 list" where
  "digits36 = [0x30, 0x31, 0x32, 0x33, 0x34, 0x35, 0x36, 0x37, 0x38, 0x39, 0x61, 0x62, 0x63, 0x64, 0x65, 0x66, 0x67, 0x68, 0x69,
     0x6A, 0x6B, 0x6C, 0x6D, 0x6E, 0x6F, 0x70, 0x71, 0x72, 0x73, 0x74, 0x75, 0x76, 0x77, 0x78, 0x79, 0x7A]"

text \<open>The loop fills a buffer of 65 bytes from its end.\<close>

function print_loop :: "u32 \<Rightarrow> u32 \<Rightarrow> u8 list \<Rightarrow> u8 list res" where
  "print_loop base x p =
     (if length p \<ge> 64 \<or> unat (x mod base) \<ge> 36 then Inl OutOfBounds
      else let p1 = digits36 ! unat (x mod base) # p; x1 = x div base in
        if x1 \<noteq> 0 then print_loop base x1 p1 else Inr p1)"
  by auto
termination by (relation "measure (\<lambda>(base, x, p). 64 - length p)") auto

declare print_loop.simps [simp del]

definition print_num :: "u32 \<Rightarrow> nat \<Rightarrow> u8 list res" where
  "print_num x base = (if base > 36 then Inr [] else if base = 0 then Inl DivideError else print_loop (of_nat base) x [])"

text \<open>
  The C library's version is signed. The smallest number is its own negative: its remainder is negative, and the
  digit is read in front of the table.
\<close>

definition print_num_signed :: "u32 \<Rightarrow> nat \<Rightarrow> u8 list res" where
  "print_num_signed x base =
     (if base > 36 then Inr []
      else if base = 0 then Inl DivideError
      else let sign = (x <s 0); x1 = (if sign then - x else x) in
        if x1 <s 0 then Inl OutOfBounds
        else rbind (print_loop (of_nat base) x1 []) (\<lambda>p. Inr (if sign then 0x2D # p else p)))"

definition print_num_unsigned :: "u32 \<Rightarrow> nat \<Rightarrow> u8 list res" where
  "print_num_unsigned x base = (if base > 36 then Inr [] else if base = 0 then Inl DivideError else print_loop (of_nat base) x [])"

definition va_num :: "va list \<Rightarrow> (u32 \<Rightarrow> va list \<Rightarrow> 'a res) \<Rightarrow> 'a res" where
  "va_num args k = (case args of VaNum n # as \<Rightarrow> k n as | _ \<Rightarrow> Inl Uninitialised)"

definition va_str :: "va list \<Rightarrow> (u8 list \<Rightarrow> va list \<Rightarrow> 'a res) \<Rightarrow> 'a res" where
  "va_str args k = (case args of VaStr s # as \<Rightarrow> k s as | _ \<Rightarrow> Inl Uninitialised)"

definition emit :: "u8 list \<Rightarrow> (u8 list \<times> bool) res \<Rightarrow> (u8 list \<times> bool) res" where
  "emit b r = rbind r (\<lambda>(buf, done). Inr (b @ buf, done))"

lemma va_cong [fundef_cong]:
  "args = args' \<Longrightarrow> (\<And>n as. args' = VaNum n # as \<Longrightarrow> k n as = k' n as) \<Longrightarrow> va_num args k = va_num args' k'"
  "args = args' \<Longrightarrow> (\<And>s as. args' = VaStr s # as \<Longrightarrow> j s as = j' s as) \<Longrightarrow> va_str args j = va_str args' j'"
  by (auto simp: va_num_def va_str_def split: list.split va.split)

text \<open>
  The loop over the format: the bytes that are written, and whether the end of the format was reached; a percent sign
  at its end leaves the loop.
\<close>

fun vsprintf_loop :: "(u32 \<Rightarrow> u8 list res) \<Rightarrow> (u32 \<Rightarrow> u8 list res) \<Rightarrow> u8 list \<Rightarrow> va list \<Rightarrow> (u8 list \<times> bool) res" where
  "vsprintf_loop dec hex [] args = Inr ([], True)"
| "vsprintf_loop dec hex [c] args = (if c = 0x25 then Inr ([], False) else Inr ([c], True))"
| "vsprintf_loop dec hex (c # d # ds) args =
     (if c \<noteq> 0x25 then emit [c] (vsprintf_loop dec hex (d # ds) args)
      else if d = 0x73 then va_str args (\<lambda>s as. emit s (vsprintf_loop dec hex ds as))
      else if d = 0x63 then va_num args (\<lambda>n as. emit [ucast n] (vsprintf_loop dec hex ds as))
      else if d = 0x64 \<or> d = 0x75 then va_num args (\<lambda>n as. rbind (dec n) (\<lambda>b. emit b (vsprintf_loop dec hex ds as)))
      else if d = 0x78 \<or> d = 0x70 then va_num args (\<lambda>n as. rbind (hex n) (\<lambda>b. emit b (vsprintf_loop dec hex ds as)))
      else if d = 0x25 then emit [0x25] (vsprintf_loop dec hex ds args)
      else emit [0x25, d] (vsprintf_loop dec hex ds args))"

definition vsprintf :: "u8 list \<Rightarrow> va list \<Rightarrow> (u8 list \<times> bool) res" where
  "vsprintf str args = vsprintf_loop (\<lambda>n. print_num n 10) (\<lambda>n. print_num n 16) str args"

definition vsprintf_libc :: "u8 list \<Rightarrow> va list \<Rightarrow> (u8 list \<times> bool) res" where
  "vsprintf_libc str args = vsprintf_loop (\<lambda>n. print_num_signed n 10) (\<lambda>n. print_num_unsigned n 16) str args"

text \<open>\<open>printf\<close>: a buffer of 1024 zero bytes, whose C string is written.\<close>

definition printf_bytes :: "(u8 list \<times> bool) res \<Rightarrow> u8 list res" where
  "printf_bytes r = rbind r (\<lambda>(buf, done). if length buf \<ge> 1024 then Inl OutOfBounds else Inr (takeWhile (\<lambda>c. c \<noteq> 0) buf))"

definition printf :: "u8 list \<Rightarrow> va list \<Rightarrow> u8 list res" where
  "printf fmt args = printf_bytes (vsprintf fmt args)"

definition printf_libc :: "u8 list \<Rightarrow> va list \<Rightarrow> u8 list res" where
  "printf_libc fmt args = printf_bytes (vsprintf_libc fmt args)"

text \<open>\<open>sprintf\<close> of a date, with the names of the months.\<close>

definition month_names :: "u8 list list" where
  "month_names =
     [[0x4A, 0x61, 0x6E, 0x75, 0x61, 0x72, 0x79],
      [0x46, 0x65, 0x62, 0x72, 0x75, 0x61, 0x72, 0x79],
      [0x4D, 0x61, 0x72, 0x63, 0x68],
      [0x41, 0x70, 0x72, 0x69, 0x6C],
      [0x4D, 0x61, 0x79],
      [0x4A, 0x75, 0x6E, 0x65],
      [0x4A, 0x75, 0x6C, 0x79],
      [0x41, 0x75, 0x67, 0x75, 0x73, 0x74],
      [0x53, 0x65, 0x70, 0x74, 0x65, 0x6D, 0x62, 0x65, 0x72],
      [0x4F, 0x63, 0x74, 0x6F, 0x62, 0x65, 0x72],
      [0x4E, 0x6F, 0x76, 0x65, 0x6D, 0x62, 0x65, 0x72],
      [0x44, 0x65, 0x63, 0x65, 0x6D, 0x62, 0x65, 0x72]]"

definition unix_time_to_string :: "u32 \<Rightarrow> (u8 list \<times> bool) res" where
  "unix_time_to_string unixtime =
     (case from_unix_time unixtime of (year, month, day, hour, minute, second) \<Rightarrow>
        if month < 1 \<or> month > 12 then Inl OutOfBounds
        else vsprintf_libc [0x25, 0x64, 0x20, 0x25, 0x73, 0x20, 0x25, 0x64, 0x20, 0x25, 0x64, 0x3A, 0x25, 0x64, 0x3A, 0x25, 0x64]
          [VaNum (word_of_int day), VaStr (month_names ! nat (month - 1)), VaNum (word_of_int year), VaNum (word_of_int hour),
           VaNum (word_of_int minute), VaNum (word_of_int second)])"

definition isdigit :: "u8 \<Rightarrow> bool" where
  "isdigit c \<longleftrightarrow> 0x30 \<le>s c \<and> c \<le>s 0x39"

fun atoi_loop :: "u8 list \<Rightarrow> u32 \<Rightarrow> u32" where
  "atoi_loop [] i = i"
| "atoi_loop (c # cs) i = (if isdigit c then atoi_loop cs (i * 10 + (ucast c - 0x30)) else i)"

definition atoi :: "u8 list \<Rightarrow> u32" where
  "atoi str =
     (case str of
        [] \<Rightarrow> 0
      | c # cs \<Rightarrow> if c = 0x2D then - atoi_loop cs 0 else if c = 0x2B then atoi_loop cs 0 else atoi_loop str 0)"

definition isspace :: "u8 \<Rightarrow> bool" where
  "isspace c \<longleftrightarrow> c \<in> {0x09, 0x0A, 0x0B, 0x0C, 0x0D, 0x20}"

definition isxdigit :: "u8 \<Rightarrow> bool" where
  "isxdigit c \<longleftrightarrow> isdigit c \<or> 0x61 \<le>s c \<and> c \<le>s 0x66 \<or> 0x41 \<le>s c \<and> c \<le>s 0x46"

definition char_lower :: "u8 \<Rightarrow> u8" where
  "char_lower c = (if 0x41 \<le>s c \<and> c \<le>s 0x5A then c + 0x20 else c)"

text \<open>The value, and the rest of the string that \<open>endptr\<close> points to.\<close>

fun strtol_digits :: "int \<Rightarrow> u8 list \<Rightarrow> u32 \<Rightarrow> u32 \<times> u8 list" where
  "strtol_digits base [] result = (result, [])"
| "strtol_digits base (c # cs) result =
     (if isdigit c \<or> base = 16 \<and> isxdigit c then
        let digit = (if isdigit c then sint c - 0x30 else sint (char_lower c) - 0x61 + 10) in
        if digit \<ge> base then (result, c # cs)
        else strtol_digits base cs (result * word_of_int base + word_of_int digit)
      else (result, c # cs))"

definition strtol :: "u8 list \<Rightarrow> int \<Rightarrow> u32 \<times> u8 list" where
  "strtol nptr base =
     (let p = dropWhile isspace nptr;
          negative = (p \<noteq> [] \<and> hd p = 0x2D);
          p1 = (if p \<noteq> [] \<and> (hd p = 0x2D \<or> hd p = 0x2B) then tl p else p);
          zero = (p1 \<noteq> [] \<and> hd p1 = 0x30);
          hex = (zero \<and> tl p1 \<noteq> [] \<and> (hd (tl p1) = 0x78 \<or> hd (tl p1) = 0x58));
          base1 = (if base = 0 then if zero then if hex then 16 else 8 else 10 else base);
          p2 = (if base \<noteq> 0 \<and> base = 16 \<and> hex then drop 2 p1 else p1);
          (result, rest) = strtol_digits base1 p2 0
      in (if negative then - result else result, rest))"

section \<open>Numbers\<close>

text \<open>The digits of a number, the most significant first.\<close>

fun digits_of :: "nat \<Rightarrow> nat \<Rightarrow> nat list" where
  "digits_of b n = (if n < b \<or> b < 2 then [n] else digits_of b (n div b) @ [n mod b])"

declare digits_of.simps [simp del]

lemma digits_length: "2 \<le> b \<Longrightarrow> n < b ^ Suc k \<Longrightarrow> length (digits_of b n) \<le> Suc k"
proof (induction k arbitrary: n)
  case 0
  then show ?case by (simp add: digits_of.simps)
next
  case (Suc k)
  have "n div b < b ^ Suc k" using Suc.prems by (simp add: less_mult_imp_div_less mult.commute)
  then show ?case using Suc.IH [of "n div b"] Suc.prems(1) by (subst digits_of.simps) simp
qed

lemma digits_less: "2 \<le> b \<Longrightarrow> d \<in> set (digits_of b n) \<Longrightarrow> d < b"
proof (induction b n rule: digits_of.induct)
  case (1 b n)
  then show ?case by (subst (asm) (2) digits_of.simps) (auto split: if_splits)
qed

lemma print_loop_digits:
  assumes "2 \<le> b" "b \<le> 36"
  shows "length p + length (digits_of b (unat x)) \<le> 64 \<Longrightarrow>
    print_loop (of_nat b) x p = Inr (map ((!) digits36) (digits_of b (unat x)) @ p)"
proof (induction "unat x" arbitrary: x p rule: less_induct)
  case less
  have b: "unat (of_nat b :: u32) = b" using assms by (simp add: unat_of_nat take_bit_nat_eq_self)
  have d: "unat (x div of_nat b) = unat x div b" and m: "unat (x mod of_nat b) = unat x mod b" by (simp_all add: unat_div unat_mod b)
  have "unat x mod b < b" using assms by simp
  then have m36: "unat x mod b < 36" using assms(2) by linarith
  have l: "length p < 64" using less.prems by (cases "digits_of b (unat x)") (auto simp: digits_of.simps [of b "unat x"] split: if_splits)
  show ?case
  proof (cases "unat x < b")
    case True
    then have "x div of_nat b = 0" using d by (simp add: unat_eq_zero)
    then show ?thesis using True l m m36 by (subst print_loop.simps) (simp add: digits_of.simps)
  next
    case False
    then have "unat x div b \<noteq> 0" using assms by (simp add: div_eq_0_iff)
    then have nz: "x div of_nat b \<noteq> 0" using d by (metis unat_0)
    have dg: "digits_of b (unat x) = digits_of b (unat x div b) @ [unat x mod b]" using False assms by (subst digits_of.simps) simp
    have "unat (x div of_nat b) < unat x" using False assms by (simp add: d)
    then have "print_loop (of_nat b) (x div of_nat b) (digits36 ! (unat x mod b) # p) =
      Inr (map ((!) digits36) (digits_of b (unat x div b)) @ digits36 ! (unat x mod b) # p)"
      using less.hyps [of "x div of_nat b"] less.prems dg d by simp
    then show ?thesis using nz l m m36 dg by (subst print_loop.simps) (simp add: Let_def)
  qed
qed

lemma print_loop_u32:
  assumes "2 \<le> b" "b \<le> 36"
  shows "print_loop (of_nat b) x [] = Inr (map ((!) digits36) (digits_of b (unat x)))"
proof -
  have "unat x < 2 ^ 32" using unsigned_less [of x, where 'a = nat] by simp
  also have "(2 :: nat) ^ 32 \<le> b ^ 32" using assms(1) by (rule power_mono) simp
  finally have "length (digits_of b (unat x)) \<le> 32" using digits_length [OF assms(1), of "unat x" 31] by simp
  then show ?thesis using print_loop_digits [OF assms, of "[]" x] by simp
qed

text \<open>The value of a list of digits.\<close>

definition value_of :: "nat \<Rightarrow> nat list \<Rightarrow> nat" where
  "value_of b ds = foldl (\<lambda>v d. v * b + d) 0 ds"

lemma value_digits: "2 \<le> b \<Longrightarrow> value_of b (digits_of b n) = n"
proof (induction b n rule: digits_of.induct)
  case (1 b n)
  show ?case
  proof (cases "n < b")
    case False
    then have "value_of b (digits_of b n) = value_of b (digits_of b (n div b)) * b + n mod b"
      using 1 by (subst digits_of.simps) (simp add: value_of_def)
    then show ?thesis using 1 False by simp
  qed (use 1 in \<open>simp add: digits_of.simps value_of_def\<close>)
qed

lemma decimal_digits: "\<forall>d \<in> set [0..<10]. isdigit (digits36 ! d) \<and> ucast (digits36 ! d) - (0x30 :: u32) = of_nat d \<and>
  digits36 ! d \<noteq> 0x2D \<and> digits36 ! d \<noteq> 0x2B"
  by code_simp

lemma decimal_digit:
  assumes "d < 10"
  shows "isdigit (digits36 ! d)" "ucast (digits36 ! d) - (0x30 :: u32) = of_nat d" "digits36 ! d \<noteq> 0x2D" "digits36 ! d \<noteq> 0x2B"
  using decimal_digits assms by auto

lemma atoi_loop_digits:
  "\<forall>d \<in> set ds. d < 10 \<Longrightarrow> atoi_loop (map ((!) digits36) ds) (of_nat i) = of_nat (foldl (\<lambda>v d. v * 10 + d) i ds)"
proof (induction ds arbitrary: i)
  case (Cons d ds)
  have "of_nat i * 10 + (ucast (digits36 ! d) - 0x30) = (of_nat (i * 10 + d) :: u32)" using decimal_digit [of d] Cons.prems by simp
  then show ?case using Cons.IH [of "i * 10 + d"] Cons.prems decimal_digit(1) [of d] by simp
qed simp

lemma atoi_loop_number: "atoi_loop (map ((!) digits36) (digits_of 10 (unat x))) 0 = x" for x :: u32
  using atoi_loop_digits [of "digits_of 10 (unat x)" 0] digits_less [of 10 _ "unat x"] value_digits [of 10 "unat x"]
  by (simp add: value_of_def)

text \<open>
  Printing and reading numbers. What the C library's \<open>print_num\<close> prints in base 10 for a signed number other than the smallest is
  read back as that number by \<open>atoi\<close>; the smallest number makes it read in front of its table of digits.
\<close>

lemma print_num_atoi:
  "(if x = 0x80000000 then print_num_signed x 10 = Inl OutOfBounds else \<exists>s. print_num_signed x 10 = Inr s \<and> atoi s = x)"
proof (cases "x = 0x80000000")
  case True
  have "(0x80000000 :: u32) <s 0" "- (0x80000000 :: u32) <s 0" by code_simp+
  then show ?thesis using True by (simp add: print_num_signed_def)
next
  case False
  let ?y = "if x <s 0 then - x else x"
  have y: "\<not> ?y <s 0"
  proof (cases "x <s 0")
    case True
    have "sint x \<noteq> sint (0x80000000 :: u32)" using False by (metis signed_word_eqI)
    moreover have "sint (0x80000000 :: u32) = - (2 ^ 31)" by code_simp
    moreover have "- (2 ^ 31) \<le> sint x" using sint_ge [of x] by simp
    moreover have "sint x < 0" using True by (simp add: word_sless_alt)
    ultimately have "sint (- x) = - sint x" by (simp add: sint_word_ariths signed_take_bit_int_eq_self)
    then show ?thesis using \<open>sint x < 0\<close> by (simp add: word_sless_alt)
  qed simp
  have p: "print_num_signed x 10 = Inr (let ds = map ((!) digits36) (digits_of 10 (unat ?y)) in if x <s 0 then 0x2D # ds else ds)"
    using print_loop_u32 [of 10 ?y] y unfolding print_num_signed_def Let_def by simp
  have n: "atoi_loop (map ((!) digits36) (digits_of 10 (unat ?y))) 0 = ?y" by (rule atoi_loop_number)
  obtain d ds where d: "digits_of 10 (unat ?y) = d # ds" by (cases "digits_of 10 (unat ?y)") (auto simp: digits_of.simps [of 10 "unat ?y"] split: if_splits)
  have "d < 10" using digits_less [of 10 d "unat ?y"] d by simp
  note h = decimal_digit(3,4) [OF this]
  have "atoi (let ds = map ((!) digits36) (digits_of 10 (unat ?y)) in if x <s 0 then 0x2D # ds else ds) = x"
    using n d h by (auto simp: atoi_def Let_def)
  with p False show ?thesis by simp
qed

section \<open>Formats\<close>

text \<open>A format as the list of its parts, with their arguments and the text that they stand for.\<close>

datatype part = Lit u8 | Str "u8 list" | Chr u32 | Dec u32 | Hex u32 | Percent

primrec part_format :: "part \<Rightarrow> u8 list" where
  "part_format (Lit c) = [c]"
| "part_format (Str s) = [0x25, 0x73]"
| "part_format (Chr n) = [0x25, 0x63]"
| "part_format (Dec n) = [0x25, 0x64]"
| "part_format (Hex n) = [0x25, 0x78]"
| "part_format Percent = [0x25, 0x25]"

primrec part_args :: "part \<Rightarrow> va list" where
  "part_args (Lit c) = []"
| "part_args (Str s) = [VaStr s]"
| "part_args (Chr n) = [VaNum n]"
| "part_args (Dec n) = [VaNum n]"
| "part_args (Hex n) = [VaNum n]"
| "part_args Percent = []"

primrec part_text :: "part \<Rightarrow> u8 list" where
  "part_text (Lit c) = [c]"
| "part_text (Str s) = s"
| "part_text (Chr n) = [ucast n]"
| "part_text (Dec n) = map ((!) digits36) (digits_of 10 (unat n))"
| "part_text (Hex n) = map ((!) digits36) (digits_of 16 (unat n))"
| "part_text Percent = [0x25]"

lemma vsprintf_lit: "c \<noteq> 0x25 \<Longrightarrow> vsprintf_loop dec hex (c # r) args = emit [c] (vsprintf_loop dec hex r args)"
  by (cases r) (simp_all add: emit_def)

text \<open>
  C26. The kernel's \<open>vsprintf\<close> on a format of literal bytes, strings, characters, numbers and percent signs, with
  their arguments in order: it writes the text of the parts one after the other, numbers by the digits of their value in base 10
  or 16, and reaches the end of the format.
\<close>

theorem vsprintf_renders:
  assumes "\<forall>c. Lit c \<in> set ps \<longrightarrow> c \<noteq> 0x25"
  shows "vsprintf (concat (map part_format ps)) (concat (map part_args ps)) = Inr (concat (map part_text ps), True)"
  using assms unfolding vsprintf_def
proof (induction ps)
  case (Cons p ps)
  have num: "print_num n 10 = Inr (map ((!) digits36) (digits_of 10 (unat n)))" "print_num n 16 = Inr (map ((!) digits36) (digits_of 16 (unat n)))" for n
    using print_loop_u32 [of 10 n] print_loop_u32 [of 16 n] by (simp_all add: print_num_def)
  show ?case using Cons by (cases p) (simp_all add: vsprintf_lit va_num_def va_str_def emit_def num)
qed simp

theorem vsprintf_renders_witness:
  "vsprintf [0x61, 0x25, 0x64, 0x25, 0x73] [VaNum 42, VaStr [0x62]] = Inr ([0x61, 0x34, 0x32, 0x62], True)"
  using vsprintf_renders [of "[Lit 0x61, Dec 42, Str [0x62]]"] by (simp add: digits_of.simps digits36_def)

text \<open>\<open>strtol\<close> with base 0 recognises the prefix of a hexadecimal number, but does not skip it: the number is 0.\<close>

lemma strtol_base0_hex: "strtol [0x30, 0x78, 0x31] 0 = (0, [0x78, 0x31])"
  by code_simp

end
