(* ===== verification/Calc.thy ===== *)
theory Calc
  imports Printf
begin

text \<open>
  The calculator, \<open>user/calc\<close>: a lexer, a recursive descent parser with one token of lookahead over an iterator, and an
  evaluator. A dynamic array is the list of its elements, an iterator the array with an index; \<open>None\<close> is the null pointer. The text is
  a list of characters without the terminating zero. The parser is total: it ends because every call of \<open>__parser_factor\<close> moves the iterator.
\<close>

section \<open>Dynamic arrays\<close>

definition dynamic_array_append :: "'a list \<Rightarrow> 'a \<Rightarrow> 'a list" where
  "dynamic_array_append array element = array @ [element]"

definition dynamic_array_iterator_next :: "'a list \<Rightarrow> nat \<Rightarrow> 'a option \<times> nat" where
  "dynamic_array_iterator_next array idx = (if idx \<ge> length array then (None, idx) else (Some (array ! idx), Suc idx))"

definition dynamic_array_iterator_get_next :: "'a list \<Rightarrow> nat \<Rightarrow> 'a option" where
  "dynamic_array_iterator_get_next array idx = (if idx \<ge> length array then None else Some (array ! idx))"

definition dynamic_array_iterator_get_over_next :: "'a list \<Rightarrow> nat \<Rightarrow> 'a option" where
  "dynamic_array_iterator_get_over_next array idx = (if idx + 1 \<ge> length array then None else Some (array ! (idx + 1)))"

definition dynamic_array_iterator_has_next :: "'a list \<Rightarrow> nat \<Rightarrow> bool" where
  "dynamic_array_iterator_has_next array idx \<longleftrightarrow> idx < length array"

lemmas iterator_defs = dynamic_array_iterator_next_def dynamic_array_iterator_get_next_def dynamic_array_iterator_has_next_def

section \<open>Lexer\<close>

datatype lexer_token = TNumber u32 | TPlus | TMinus | TMultiply | TDivide | TModulo | TLparen | TRparen | TComma | TId "u8 list"

definition is_digit :: "u8 \<Rightarrow> bool" where
  "is_digit c \<longleftrightarrow> 0x30 \<le> c \<and> c \<le> 0x39"

definition is_letter :: "u8 \<Rightarrow> bool" where
  "is_letter c \<longleftrightarrow> 0x61 \<le> c \<and> c \<le> 0x7A \<or> 0x41 \<le> c \<and> c \<le> 0x5A"

text \<open>The value of a character in a number: letters up to \<open>f\<close> count in every base.\<close>

definition digit_value :: "u8 \<Rightarrow> u32 option" where
  "digit_value c =
     (if 0x30 \<le> c \<and> c \<le> 0x39 then Some (ucast c - 0x30)
      else if 0x61 \<le> c \<and> c \<le> 0x66 then Some (ucast c - 0x61 + 10)
      else if 0x41 \<le> c \<and> c \<le> 0x46 then Some (ucast c - 0x41 + 10)
      else None)"

fun number_loop :: "u32 \<Rightarrow> u32 \<Rightarrow> u8 list \<Rightarrow> u32 \<times> u8 list" where
  "number_loop base number [] = (number, [])"
| "number_loop base number (c # cs) =
     (case digit_value c of None \<Rightarrow> (number, c # cs) | Some d \<Rightarrow> number_loop base (number * base + d) cs)"

text \<open>\<open>_lexer_parse_number\<close> returns the number and what is left of the text.\<close>

definition lexer_parse_number :: "u8 list \<Rightarrow> u32 \<times> u8 list" where
  "lexer_parse_number input =
     (if take 2 input = [0x30, 0x78] then number_loop 16 0 (drop 2 input)
      else if take 2 input = [0x30, 0x62] then number_loop 2 0 (drop 2 input)
      else number_loop 10 0 input)"

lemma number_loop_length: "length (snd (number_loop base n cs)) \<le> length cs"
  by (induction base n cs rule: number_loop.induct) (auto split: option.splits)

lemma parse_number_shorter: "is_digit c \<Longrightarrow> length (snd (lexer_parse_number (c # cs))) \<le> length cs"
proof -
  assume "is_digit c"
  then have d: "digit_value c = Some (ucast c - 0x30)" by (simp add: is_digit_def digit_value_def)
  have "length (snd (number_loop base n (c # cs))) \<le> length cs" for base n using number_loop_length d by simp
  moreover have "length (snd (number_loop base n (drop 2 (c # cs)))) \<le> length cs" for base n
    using number_loop_length [of base n "drop 2 (c # cs)"] by simp
  ultimately show ?thesis by (simp add: lexer_parse_number_def)
qed

text \<open>The body of the loop, for one character or word; \<open>None\<close>: white space.\<close>

definition punctuation :: "u8 \<Rightarrow> lexer_token option" where
  "punctuation c =
     (if c = 0x2B then Some TPlus else if c = 0x2D then Some TMinus else if c = 0x2A then Some TMultiply
      else if c = 0x2F then Some TDivide else if c = 0x25 then Some TModulo else if c = 0x28 then Some TLparen
      else if c = 0x29 then Some TRparen else if c = 0x2C then Some TComma else None)"

function lexer_loop :: "lexer_token list \<Rightarrow> u8 list \<Rightarrow> lexer_token list res" where
  "lexer_loop token [] = Inr token"
| "lexer_loop token (c # cs) =
     (if c \<in> {0x20, 0x09, 0x0A} then lexer_loop token cs
      else if is_digit c then
        (let (n, rest) = lexer_parse_number (c # cs) in lexer_loop (dynamic_array_append token (TNumber n)) rest)
      else if is_letter c then
        lexer_loop (dynamic_array_append token (TId (c # takeWhile is_letter cs))) (dropWhile is_letter cs)
      else case punctuation c of
        Some t \<Rightarrow> lexer_loop (dynamic_array_append token t) cs
      | None \<Rightarrow> Inl Aborted)"
  by pat_completeness auto
termination
proof (relation "measure (length \<circ> snd)")
  fix token c cs x n rest
  assume "is_digit c" "x = lexer_parse_number (c # cs)" "(n, rest) = x"
  then show "((dynamic_array_append token (TNumber n), rest), (token, c # cs)) \<in> measure (length \<circ> snd)"
    using parse_number_shorter [of c cs] by (metis comp_apply in_measure le_imp_less_Suc length_Cons snd_conv)
qed (auto simp: length_dropWhile_le le_imp_less_Suc)

text \<open>The loop tests its condition at the end: an empty text is an unknown token.\<close>

definition lexer_tokenize :: "u8 list \<Rightarrow> lexer_token list res" where
  "lexer_tokenize input = (if input = [] then Inl Aborted else lexer_loop [] input)"

section \<open>Parser\<close>

datatype parser_node = NumberNode u32 | AddNode parser_node parser_node | SubstractNode parser_node parser_node |
  MultiplyNode parser_node parser_node | DivideNode parser_node parser_node | ModuloNode parser_node parser_node |
  PlusNode parser_node | MinusNode parser_node

definition parser_constants :: "(u8 list \<times> u32) list" where
  "parser_constants = [([0x74, 0x65, 0x73, 0x74], 3)]"

definition parser_constant :: "u8 list \<Rightarrow> u32 res" where
  "parser_constant name = (case map_of parser_constants name of Some v \<Rightarrow> Inr v | None \<Rightarrow> Inl Aborted)"

text \<open>
  A factor may start with a closing parenthesis: the code compares the type of the token with \<open>minus_node\<close>, the number of
  \<open>rparen\<close>, and with \<open>plus_node\<close>, the number of \<open>lparen\<close>, which was handled before.
\<close>

function parser_factor :: "lexer_token list \<Rightarrow> nat \<Rightarrow> (parser_node \<times> nat) res"
  and parser_term :: "lexer_token list \<Rightarrow> nat \<Rightarrow> (parser_node \<times> nat) res"
  and term_loop :: "lexer_token list \<Rightarrow> parser_node \<Rightarrow> nat \<Rightarrow> (parser_node \<times> nat) res"
  and parser_expr :: "lexer_token list \<Rightarrow> nat \<Rightarrow> (parser_node \<times> nat) res"
  and expr_loop :: "lexer_token list \<Rightarrow> parser_node \<Rightarrow> lexer_token option \<Rightarrow> nat \<Rightarrow> (parser_node \<times> nat) res" where
  "parser_factor ts i =
     (case dynamic_array_iterator_get_next ts i of
        None \<Rightarrow> Inl NullDeref
      | Some TLparen \<Rightarrow>
          rbind (parser_expr ts (Suc i)) (\<lambda>(node, j).
            case dynamic_array_iterator_get_next ts (j - 1) of
              None \<Rightarrow> Inl NullDeref
            | Some t \<Rightarrow> if t \<noteq> TRparen then Inl Aborted else Inr (node, Suc (j - 1)))
      | Some (TNumber v) \<Rightarrow> Inr (NumberNode v, Suc i)
      | Some TRparen \<Rightarrow> rbind (parser_factor ts (Suc i)) (\<lambda>(node, j). Inr (MinusNode node, j))
      | Some (TId name) \<Rightarrow> rbind (parser_constant name) (\<lambda>c. Inr (NumberNode c, Suc i))
      | Some _ \<Rightarrow> Inl Aborted)"
| "parser_term ts i = rbind (parser_factor ts i) (\<lambda>(node, j). term_loop ts node j)"
| "term_loop ts node i =
     (case dynamic_array_iterator_get_next ts i of
        Some TMultiply \<Rightarrow> rbind (parser_factor ts (Suc i)) (\<lambda>(b, j). term_loop ts (MultiplyNode node b) j)
      | Some TDivide \<Rightarrow> rbind (parser_factor ts (Suc i)) (\<lambda>(b, j). term_loop ts (DivideNode node b) j)
      | Some TModulo \<Rightarrow> rbind (parser_factor ts (Suc i)) (\<lambda>(b, j). term_loop ts (ModuloNode node b) j)
      | _ \<Rightarrow> Inr (node, i))"
| "parser_expr ts i =
     rbind (parser_term ts i) (\<lambda>(node, j). expr_loop ts node (dynamic_array_iterator_get_next ts j) j)"
| "expr_loop ts node current i =
     (if dynamic_array_iterator_has_next ts i then
        (case current of
           Some TPlus \<Rightarrow> rbind (parser_term ts (Suc i)) (\<lambda>(b, j).
             case dynamic_array_iterator_next ts j of (c, k) \<Rightarrow> expr_loop ts (AddNode node b) c k)
         | Some TMinus \<Rightarrow> rbind (parser_term ts (Suc i)) (\<lambda>(b, j).
             case dynamic_array_iterator_next ts j of (c, k) \<Rightarrow> expr_loop ts (SubstractNode node b) c k)
         | _ \<Rightarrow> Inr (node, i))
      else Inr (node, i))"
  by pat_completeness auto

text \<open>Where a call succeeds it has moved the iterator; this is proved before termination, which rests on it.\<close>

lemma parser_moves:
  "parser_factor_parser_term_term_loop_parser_expr_expr_loop_dom (Inl (Inl (ts, i))) \<Longrightarrow>
     parser_factor ts i = Inr (n, j) \<Longrightarrow> i < length ts \<and> i < j"
  "parser_factor_parser_term_term_loop_parser_expr_expr_loop_dom (Inl (Inr (ts, i))) \<Longrightarrow>
     parser_term ts i = Inr (n, j) \<Longrightarrow> i < length ts \<and> i < j"
  "parser_factor_parser_term_term_loop_parser_expr_expr_loop_dom (Inr (Inl (ts, node, i))) \<Longrightarrow>
     term_loop ts node i = Inr (n, j) \<Longrightarrow> i \<le> j"
  "parser_factor_parser_term_term_loop_parser_expr_expr_loop_dom (Inr (Inr (Inl (ts, i)))) \<Longrightarrow>
     parser_expr ts i = Inr (n, j) \<Longrightarrow> i < length ts \<and> i < j"
  "parser_factor_parser_term_term_loop_parser_expr_expr_loop_dom (Inr (Inr (Inr (ts, node, current, i)))) \<Longrightarrow>
     expr_loop ts node current i = Inr (n, j) \<Longrightarrow> i \<le> j"
proof (induction arbitrary: n j and n j and n j and n j and n j
    rule: parser_factor_parser_term_term_loop_parser_expr_expr_loop.pinduct)
  case (1 ts i)
  then show ?case
    by (fastforce simp: parser_factor.psimps rbind_eq_Inr dynamic_array_iterator_get_next_def split: if_splits option.splits lexer_token.splits)
next
  case (2 ts i)
  from 2(1,4) obtain m k where "parser_factor ts i = Inr (m, k)" "term_loop ts m k = Inr (n, j)"
    by (auto simp: parser_term.psimps rbind_eq_Inr)
  then show ?case using 2(2,3) by fastforce
next
  case (3 ts node i)
  then show ?case
    by (fastforce simp: term_loop.psimps rbind_eq_Inr split: option.splits lexer_token.splits)
next
  case (4 ts i)
  from 4(1,4) obtain m k where "parser_term ts i = Inr (m, k)" "expr_loop ts m (dynamic_array_iterator_get_next ts k) k = Inr (n, j)"
    by (auto simp: parser_expr.psimps rbind_eq_Inr)
  then show ?case using 4(2,3) by fastforce
next
  case (5 ts node current i)
  have e: "expr_loop ts node current i = (if dynamic_array_iterator_has_next ts i then
        (case current of
           Some TPlus \<Rightarrow> rbind (parser_term ts (Suc i)) (\<lambda>(b, j).
             case dynamic_array_iterator_next ts j of (c, k) \<Rightarrow> expr_loop ts (AddNode node b) c k)
         | Some TMinus \<Rightarrow> rbind (parser_term ts (Suc i)) (\<lambda>(b, j).
             case dynamic_array_iterator_next ts j of (c, k) \<Rightarrow> expr_loop ts (SubstractNode node b) c k)
         | _ \<Rightarrow> Inr (node, i))
      else Inr (node, i))"
    by (rule expr_loop.psimps [OF 5(1)])
  have nx: "k \<le> k'" if "dynamic_array_iterator_next ts k = (c, k')" for k c k'
    using that by (auto simp: dynamic_array_iterator_next_def split: if_splits)
  show ?case
  proof (cases "dynamic_array_iterator_has_next ts i \<and> (current = Some TPlus \<or> current = Some TMinus)")
    case False
    then have "expr_loop ts node current i = Inr (node, i)" unfolding e by (auto split: option.split lexer_token.split)
    then show ?thesis using 5(6) by simp
  next
    case True
    define op where "op = (if current = Some TPlus then AddNode else SubstractNode)"
    from True obtain b k where r: "parser_term ts (Suc i) = Inr (b, k)"
        "expr_loop ts (op node b) (fst (dynamic_array_iterator_next ts k)) (snd (dynamic_array_iterator_next ts k)) = Inr (n, j)"
      using 5(6) unfolding e op_def by (auto simp: rbind_eq_Inr case_prod_beta)
    obtain c k' where nk: "(c, k') = dynamic_array_iterator_next ts k" by (metis prod.collapse)
    have "Suc i < k" using True 5(2) [OF _ _ refl r(1)] 5(4) [OF _ _ refl r(1)] by auto
    moreover have "k' \<le> j"
      using True 5(3) [OF _ _ refl r(1) refl nk] 5(5) [OF _ _ refl r(1) refl nk] r(2) unfolding op_def nk [symmetric] by (auto split: if_splits)
    ultimately show ?thesis using nx [OF nk [symmetric]] by simp
  qed
qed

termination parser_factor
proof (relation "measure (case_sum (case_sum (\<lambda>(ts, i). 4 * (length ts - i)) (\<lambda>(ts, i). 4 * (length ts - i) + 1))
    (case_sum (\<lambda>(ts, node, i). 4 * (length ts - i)) (case_sum (\<lambda>(ts, i). 4 * (length ts - i) + 2) (\<lambda>(ts, node, c, i). 4 * (length ts - i)))))")
qed (auto simp: iterator_defs split: if_splits dest: parser_moves)

declare parser_factor.simps [simp del] term_loop.simps [simp del] expr_loop.simps [simp del]

definition parser_parse :: "lexer_token list \<Rightarrow> parser_node res" where
  "parser_parse tokens = rbind (parser_expr tokens 0) (\<lambda>(node, _). Inr node)"

section \<open>Evaluation\<close>

text \<open>The processor's signed division: it faults on zero and where the quotient does not fit.\<close>

definition idiv_with :: "(int \<Rightarrow> int \<Rightarrow> int) \<Rightarrow> u32 \<Rightarrow> u32 \<Rightarrow> u32 res" where
  "idiv_with f x y =
     (if y = 0 \<or> x = 0x80000000 \<and> y = - 1 then Inl DivideError else Inr (word_of_int (f (sint x) (sint y))))"

primrec eval :: "parser_node \<Rightarrow> u32 res" where
  "eval (NumberNode v) = Inr v"
| "eval (AddNode a b) = rbind (eval a) (\<lambda>x. rbind (eval b) (\<lambda>y. Inr (x + y)))"
| "eval (SubstractNode a b) = rbind (eval a) (\<lambda>x. rbind (eval b) (\<lambda>y. Inr (x - y)))"
| "eval (MultiplyNode a b) = rbind (eval a) (\<lambda>x. rbind (eval b) (\<lambda>y. Inr (x * y)))"
| "eval (DivideNode a b) = rbind (eval a) (\<lambda>x. rbind (eval b) (\<lambda>y. idiv_with (sdiv) x y))"
| "eval (ModuloNode a b) = rbind (eval a) (\<lambda>x. rbind (eval b) (\<lambda>y. idiv_with (smod) x y))"
| "eval (PlusNode a) = Inl Aborted"
| "eval (MinusNode a) = Inl Aborted"

definition calc :: "u8 list \<Rightarrow> u32 res" where
  "calc input = rbind (lexer_tokenize input) (\<lambda>token. rbind (parser_parse token) eval)"

text \<open>The tests of the program: \<open>1 + 2\<close>, \<open>1 - 2\<close>, \<open>2 * 5 + 3\<close>, \<open>10 * (10 + 20) + 1\<close> and \<open>test * 2\<close>.\<close>

definition calc_tests :: "(u8 list \<times> u32) list" where
  "calc_tests =
     [([0x31, 0x20, 0x2B, 0x20, 0x32], 3),
      ([0x31, 0x20, 0x2D, 0x20, 0x32], - 1),
      ([0x32, 0x20, 0x2A, 0x20, 0x35, 0x20, 0x2B, 0x20, 0x33], 13),
      ([0x31, 0x30, 0x20, 0x2A, 0x20, 0x28, 0x31, 0x30, 0x20, 0x2B, 0x20, 0x32, 0x30, 0x29, 0x20, 0x2B, 0x20, 0x31], 301),
      ([0x74, 0x65, 0x73, 0x74, 0x20, 0x2A, 0x20, 0x32], 6)]"

primrec run_tests :: "(u8 list \<times> u32) list \<Rightarrow> unit res" where
  "run_tests [] = Inr ()"
| "run_tests (t # ts) = rbind (calc (fst t)) (\<lambda>r. if r = snd t then run_tests ts else Inl AssertFailed)"

text \<open>
  \<open>main\<close>: the arguments but \<open>-t\<close> and \<open>-v\<close> are joined in a buffer of 1024 bytes. The result is the number that is
  printed, \<open>None\<close> in the mode that runs the tests.
\<close>

definition calc_main :: "u8 list list \<Rightarrow> u32 option res" where
  "calc_main args =
     (let input = concat (filter (\<lambda>a. a \<noteq> [0x2D, 0x74] \<and> a \<noteq> [0x2D, 0x76]) args) in
      if length input \<ge> 1024 then Inl OutOfBounds
      else if [0x2D, 0x74] \<in> set args then rbind (run_tests calc_tests) (\<lambda>_. Inr None)
      else rbind (calc input) (\<lambda>v. Inr (Some v)))"

lemma calc_tests_pass: "calc_main [[0x2D, 0x74]] = Inr None"
  by code_simp

section \<open>The expressions that are parsed\<close>

text \<open>
  The parser handles one addition or subtraction at a level: \<open>parser_expr\<close> moves on with \<open>next\<close> instead of \<open>get_next\<close>, and the handling of
  parentheses steps back for it. So a parenthesis must contain exactly one.
\<close>

datatype mul_op = Mul | Div | Mod

datatype calc_factor = Num u32 | Test | Paren calc_term bool calc_term
  and calc_term = Term calc_factor "(mul_op \<times> calc_factor) list"

datatype calc_expr = Single calc_term | Sum calc_term bool calc_term

fun op_token :: "mul_op \<Rightarrow> lexer_token" where
  "op_token Mul = TMultiply" | "op_token Div = TDivide" | "op_token Mod = TModulo"

fun op_node :: "mul_op \<Rightarrow> parser_node \<Rightarrow> parser_node \<Rightarrow> parser_node" where
  "op_node Mul = MultiplyNode" | "op_node Div = DivideNode" | "op_node Mod = ModuloNode"

definition sum_token :: "bool \<Rightarrow> lexer_token" where
  "sum_token s = (if s then TPlus else TMinus)"

definition sum_node :: "bool \<Rightarrow> parser_node \<Rightarrow> parser_node \<Rightarrow> parser_node" where
  "sum_node s = (if s then AddNode else SubstractNode)"

fun factor_tokens :: "calc_factor \<Rightarrow> lexer_token list" and term_tokens :: "calc_term \<Rightarrow> lexer_token list" where
  "factor_tokens (Num v) = [TNumber v]"
| "factor_tokens Test = [TId [0x74, 0x65, 0x73, 0x74]]"
| "factor_tokens (Paren a s b) = TLparen # term_tokens a @ sum_token s # term_tokens b @ [TRparen]"
| "term_tokens (Term f fs) = factor_tokens f @ concat (map (\<lambda>(x, g). op_token x # factor_tokens g) fs)"

fun factor_node :: "calc_factor \<Rightarrow> parser_node" and term_node :: "calc_term \<Rightarrow> parser_node" where
  "factor_node (Num v) = NumberNode v"
| "factor_node Test = NumberNode 3"
| "factor_node (Paren a s b) = sum_node s (term_node a) (term_node b)"
| "term_node (Term f fs) = foldl (\<lambda>n (x, m). op_node x n m) (factor_node f) (map (\<lambda>(x, g). (x, factor_node g)) fs)"

fun expr_tokens :: "calc_expr \<Rightarrow> lexer_token list" where
  "expr_tokens (Single a) = term_tokens a"
| "expr_tokens (Sum a s b) = term_tokens a @ sum_token s # term_tokens b"

fun expr_node :: "calc_expr \<Rightarrow> parser_node" where
  "expr_node (Single a) = term_node a"
| "expr_node (Sum a s b) = sum_node s (term_node a) (term_node b)"

section \<open>Parsing what was printed\<close>

text \<open>What the iterator is in front of.\<close>

lemma get_next_drop:
  assumes "drop i ts = xs"
  shows "dynamic_array_iterator_get_next ts i = (case xs of [] \<Rightarrow> None | x # _ \<Rightarrow> Some x)"
    "dynamic_array_iterator_has_next ts i \<longleftrightarrow> xs \<noteq> []"
    "dynamic_array_iterator_next ts i = (case xs of [] \<Rightarrow> (None, i) | x # _ \<Rightarrow> (Some x, Suc i))"
proof -
  have "xs = ts ! i # drop (Suc i) ts" if "i < length ts" using assms that by (simp add: Cons_nth_drop_Suc)
  then show "dynamic_array_iterator_get_next ts i = (case xs of [] \<Rightarrow> None | x # _ \<Rightarrow> Some x)"
    "dynamic_array_iterator_has_next ts i \<longleftrightarrow> xs \<noteq> []"
    "dynamic_array_iterator_next ts i = (case xs of [] \<Rightarrow> (None, i) | x # _ \<Rightarrow> (Some x, Suc i))"
    using assms by (cases "i < length ts"; auto simp: iterator_defs)+
qed

lemma drop_app: "drop i ts = xs @ ys \<Longrightarrow> drop (i + length xs) ts = ys"
  by (metis append_eq_conv_conj drop_drop add.commute)

lemma drop_Cons': "drop i ts = x # ys \<Longrightarrow> drop (Suc i) ts = ys"
  by (metis drop_Suc drop_tl list.sel(3))

definition starts :: "lexer_token set \<Rightarrow> lexer_token list \<Rightarrow> bool" where
  "starts S ys \<longleftrightarrow> (\<exists>y zs. ys = y # zs \<and> y \<in> S)"

abbreviation MULS :: "lexer_token set" where
  "MULS \<equiv> {TMultiply, TDivide, TModulo}"

abbreviation SUMS :: "lexer_token set" where
  "SUMS \<equiv> {TPlus, TMinus}"

lemma term_loop_stops: "drop i ts = ys \<Longrightarrow> \<not> starts MULS ys \<Longrightarrow> term_loop ts n i = Inr (n, i)"
  by (subst term_loop.simps) (auto simp: get_next_drop starts_def split: list.splits lexer_token.splits)

lemma term_loop_step:
  assumes "drop i ts = op_token x # zs" "parser_factor ts (Suc i) = Inr (m, j)"
  shows "term_loop ts n i = term_loop ts (op_node x n m) j"
  using assms by (subst term_loop.simps) (cases x; simp add: get_next_drop)

lemma term_loop_parses:
  assumes "\<forall>(x, g) \<in> set fs. \<forall>i ys. drop i ts = factor_tokens g @ ys \<longrightarrow> parser_factor ts i = Inr (factor_node g, i + length (factor_tokens g))"
    and "drop i ts = concat (map (\<lambda>(x, g). op_token x # factor_tokens g) fs) @ ys" "\<not> starts MULS ys"
  shows "term_loop ts n i = Inr (foldl (\<lambda>n (x, m). op_node x n m) n (map (\<lambda>(x, g). (x, factor_node g)) fs),
    i + length (concat (map (\<lambda>(x, g). op_token x # factor_tokens g) fs)))"
  using assms
proof (induction fs arbitrary: i n)
  case Nil
  then show ?case using term_loop_stops by simp
next
  case (Cons xg fs)
  obtain x g where xg: "xg = (x, g)" by fastforce
  let ?r = "concat (map (\<lambda>(x, g). op_token x # factor_tokens g) fs) @ ys"
  have d: "drop i ts = op_token x # factor_tokens g @ ?r" using Cons.prems(2) xg by simp
  have f: "parser_factor ts (Suc i) = Inr (factor_node g, Suc i + length (factor_tokens g))"
    using Cons.prems(1) drop_Cons' [OF d] by (simp add: xg)
  have "drop (Suc i + length (factor_tokens g)) ts = ?r" using drop_app drop_Cons' [OF d] by blast
  then show ?case
    unfolding term_loop_step [OF d f] using Cons.IH [OF _ _ Cons.prems(3), of "Suc i + length (factor_tokens g)"] Cons.prems(1) by (simp add: xg)
qed

lemma expr_loop_stops: "\<not> (\<exists>t \<in> SUMS. c = Some t) \<Longrightarrow> expr_loop ts n c i = Inr (n, i)"
  by (subst expr_loop.simps) (auto split: option.splits lexer_token.splits)

text \<open>A sum between two terms: the parser has read one token more, if there is one.\<close>

lemma parser_expr_sum:
  assumes "parser_term ts i = Inr (a, j)" "drop j ts = sum_token s # zs" "parser_term ts (Suc j) = Inr (b, k)" "drop k ts = ys" "\<not> starts SUMS ys"
  shows "parser_expr ts i = Inr (sum_node s a b, if ys = [] then k else Suc k)"
proof -
  have "parser_expr ts i = expr_loop ts a (Some (sum_token s)) j" using assms(1,2) by (simp add: get_next_drop)
  also have "\<dots> = expr_loop ts (sum_node s a b) (case ys of [] \<Rightarrow> None | y # _ \<Rightarrow> Some y) (if ys = [] then k else Suc k)"
    by (subst expr_loop.simps)
      (use assms(3) in \<open>auto simp: sum_token_def sum_node_def get_next_drop [OF assms(2)] get_next_drop [OF assms(4)] split: list.split\<close>)
  also have "\<dots> = Inr (sum_node s a b, if ys = [] then k else Suc k)"
    by (rule expr_loop_stops) (use assms(5) in \<open>auto simp: starts_def split: list.splits\<close>)
  finally show ?thesis .
qed

lemma parser_parses:
  "drop i ts = factor_tokens f @ ys \<Longrightarrow> parser_factor ts i = Inr (factor_node f, i + length (factor_tokens f))"
  "drop i ts = term_tokens t @ ys \<Longrightarrow> \<not> starts MULS ys \<Longrightarrow> parser_term ts i = Inr (term_node t, i + length (term_tokens t))"
proof (induction f and t arbitrary: i ys and i ys rule: factor_tokens_term_tokens.induct)
  case (1 v)
  then show ?case by (subst parser_factor.simps) (simp add: get_next_drop)
next
  case 2
  then show ?case by (subst parser_factor.simps) (simp add: get_next_drop parser_constant_def parser_constants_def)
next
  case (3 a s b)
  let ?j = "Suc i + length (term_tokens a)" and ?k = "Suc (Suc i + length (term_tokens a)) + length (term_tokens b)"
  have d: "drop i ts = TLparen # term_tokens a @ sum_token s # term_tokens b @ TRparen # ys" using "3.prems" by simp
  note d1 = drop_Cons' [OF d]
  note d2 = drop_app [OF d1]
  note d3 = drop_Cons' [OF d2]
  note d4 = drop_app [OF d3]
  have a: "parser_term ts (Suc i) = Inr (term_node a, ?j)"
    by (rule "3.IH"(1) [OF d1]) (simp add: starts_def sum_token_def)
  have b: "parser_term ts (Suc ?j) = Inr (term_node b, ?k)"
    by (rule "3.IH"(2) [OF d3]) (simp add: starts_def)
  have "parser_expr ts (Suc i) = Inr (sum_node s (term_node a) (term_node b), Suc ?k)"
    using parser_expr_sum [OF a d2 b d4] by (simp add: starts_def)
  then show ?case using get_next_drop(1) [OF d4] by (subst parser_factor.simps) (simp add: get_next_drop [OF d])
next
  case (4 f fs)
  have d: "drop i ts = factor_tokens f @ concat (map (\<lambda>(x, g). op_token x # factor_tokens g) fs) @ ys" using "4.prems"(1) by simp
  have fs: "\<forall>(x, g) \<in> set fs. \<forall>i ys. drop i ts = factor_tokens g @ ys \<longrightarrow> parser_factor ts i = Inr (factor_node g, i + length (factor_tokens g))"
    using "4.IH"(2) by auto
  have "parser_term ts i = term_loop ts (factor_node f) (i + length (factor_tokens f))"
    using "4.IH"(1) [OF d] by simp
  also have "\<dots> = Inr (term_node (Term f fs), i + length (term_tokens (Term f fs)))"
    using term_loop_parses [OF fs drop_app [OF d] "4.prems"(2)] by simp
  finally show ?case .
qed

lemma parser_parse_expr: "parser_parse (expr_tokens e) = Inr (expr_node e)"
proof (cases e)
  case (Single t)
  have "drop 0 (term_tokens t) = term_tokens t @ []" by simp
  from parser_parses(2) [OF this] drop_app [OF this] show ?thesis
    by (simp add: Single parser_parse_def starts_def get_next_drop [of "length (term_tokens t)"] expr_loop_stops)
next
  case (Sum a s b)
  let ?ts = "expr_tokens e"
  have d: "drop 0 ?ts = term_tokens a @ sum_token s # term_tokens b @ []" by (simp add: Sum)
  note d2 = drop_app [OF d]
  note d3 = drop_Cons' [OF d2]
  have a: "parser_term ?ts 0 = Inr (term_node a, 0 + length (term_tokens a))"
    by (rule parser_parses(2) [OF d]) (simp add: starts_def sum_token_def)
  have b: "parser_term ?ts (Suc (0 + length (term_tokens a))) = Inr (term_node b, Suc (0 + length (term_tokens a)) + length (term_tokens b))"
    by (rule parser_parses(2) [OF d3]) (simp add: starts_def)
  from parser_expr_sum [OF a d2 b drop_app [OF d3]] show ?thesis by (simp add: parser_parse_def starts_def Sum)
qed

section \<open>Text\<close>

fun token_text :: "lexer_token \<Rightarrow> u8 list" where
  "token_text (TNumber v) = map ((!) digits36) (digits_of 10 (unat v))"
| "token_text TPlus = [0x2B]"
| "token_text TMinus = [0x2D]"
| "token_text TMultiply = [0x2A]"
| "token_text TDivide = [0x2F]"
| "token_text TModulo = [0x25]"
| "token_text TLparen = [0x28]"
| "token_text TRparen = [0x29]"
| "token_text TComma = [0x2C]"
| "token_text (TId name) = name"

definition tokens_text :: "lexer_token list \<Rightarrow> u8 list" where
  "tokens_text ts = concat (map (\<lambda>t. token_text t @ [0x20]) ts)"

fun token_ok :: "lexer_token \<Rightarrow> bool" where
  "token_ok (TId name) \<longleftrightarrow> name \<noteq> [] \<and> (\<forall>c \<in> set name. is_letter c)"
| "token_ok _ \<longleftrightarrow> True"

lemma calc_digits: "\<forall>d \<in> set [0..<10]. digit_value (digits36 ! d) = Some (of_nat d) \<and> is_digit (digits36 ! d) \<and>
  digits36 ! d \<noteq> 0x78 \<and> digits36 ! d \<noteq> 0x62"
  by code_simp

lemma calc_digit:
  "d < 10 \<Longrightarrow> digit_value (digits36 ! d) = Some (of_nat d) \<and> is_digit (digits36 ! d) \<and> digits36 ! d \<noteq> 0x78 \<and> digits36 ! d \<noteq> 0x62"
  using calc_digits by auto

lemma space_ends: "digit_value 0x20 = None" "\<not> is_letter 0x20" "\<not> is_digit 0x20"
  by (simp_all add: digit_value_def is_letter_def is_digit_def)

lemma letter_plain: "is_letter c \<Longrightarrow> c \<notin> {0x20, 0x09, 0x0A} \<and> \<not> is_digit c"
  by (auto simp: is_letter_def is_digit_def word_le_nat_alt)

lemma digit_plain: "is_digit c \<Longrightarrow> c \<notin> {0x20, 0x09, 0x0A}"
  by (auto simp: is_digit_def)

lemma number_loop_digits:
  "\<forall>d \<in> set ds. d < 10 \<Longrightarrow>
   number_loop 10 (of_nat i) (map ((!) digits36) ds @ 0x20 # cs) = (of_nat (foldl (\<lambda>v d. v * 10 + d) i ds), 0x20 # cs)"
proof (induction ds arbitrary: i)
  case (Cons d ds)
  have "of_nat i * 10 + of_nat d = (of_nat (i * 10 + d) :: u32)" by simp
  then show ?case using Cons.IH [of "i * 10 + d"] Cons.prems calc_digit [of d] by simp
qed (simp add: space_ends)

lemma parse_number_text:
  "lexer_parse_number (token_text (TNumber v) @ 0x20 # cs) = (v, 0x20 # cs)" "\<exists>c ds. token_text (TNumber v) = c # ds \<and> is_digit c"
proof -
  obtain d ds where d: "digits_of 10 (unat v) = d # ds"
    by (cases "digits_of 10 (unat v)") (auto simp: digits_of.simps [of 10 "unat v"] split: if_splits)
  have l: "\<forall>d \<in> set (digits_of 10 (unat v)). d < 10" using digits_less [of 10] by simp
  obtain y where y: "take 2 (token_text (TNumber v) @ 0x20 # cs) = [digits36 ! d, y]" "y \<noteq> 0x78" "y \<noteq> 0x62"
  proof (cases ds)
    case Nil
    then show ?thesis using d by (intro that [of "0x20"]) simp_all
  next
    case (Cons e es)
    then have "e < 10" using l d by simp
    then show ?thesis using d Cons calc_digit [of e] by (intro that [of "digits36 ! e"]) simp_all
  qed
  then have "take 2 (token_text (TNumber v) @ 0x20 # cs) \<noteq> [0x30, 0x78]" "take 2 (token_text (TNumber v) @ 0x20 # cs) \<noteq> [0x30, 0x62]"
    by simp_all
  moreover have "number_loop 10 0 (token_text (TNumber v) @ 0x20 # cs) = (v, 0x20 # cs)"
    using number_loop_digits [OF l, of 0 cs] value_digits [of 10 "unat v"] by (simp add: value_of_def)
  ultimately show "lexer_parse_number (token_text (TNumber v) @ 0x20 # cs) = (v, 0x20 # cs)" by (simp add: lexer_parse_number_def)
  show "\<exists>c ds. token_text (TNumber v) = c # ds \<and> is_digit c" using l d calc_digit by auto
qed

lemma lexer_loop_token:
  assumes "token_ok t"
  shows "lexer_loop acc (token_text t @ 0x20 # cs) = lexer_loop (acc @ [t]) (0x20 # cs)"
proof (cases t)
  case (TNumber v)
  obtain c ds where c: "token_text t = c # ds" "is_digit c" using parse_number_text(2) TNumber by blast
  then show ?thesis
    using parse_number_text(1) [of v cs] TNumber digit_plain [OF c(2)] by (simp add: dynamic_array_append_def del: token_text.simps)
next
  case (TId name)
  then obtain c ds where n: "name = c # ds" "is_letter c" "\<forall>x \<in> set ds. is_letter x" using assms by (cases name) auto
  have "takeWhile is_letter (ds @ 0x20 # cs) = ds" "dropWhile is_letter (ds @ 0x20 # cs) = 0x20 # cs"
    using n(3) space_ends(2) by (simp_all add: takeWhile_append2 dropWhile_append2)
  then show ?thesis using TId n(1,2) letter_plain [OF n(2)] by (simp add: dynamic_array_append_def)
qed (simp_all add: is_digit_def is_letter_def punctuation_def dynamic_array_append_def)

lemma lexer_loop_tokens: "\<forall>t \<in> set ts. token_ok t \<Longrightarrow> lexer_loop acc (tokens_text ts) = Inr (acc @ ts)"
proof (induction ts arbitrary: acc)
  case (Cons t ts)
  have "lexer_loop acc (token_text t @ 0x20 # tokens_text ts) = lexer_loop (acc @ [t]) (0x20 # tokens_text ts)"
    using lexer_loop_token Cons.prems by simp
  also have "\<dots> = lexer_loop (acc @ [t]) (tokens_text ts)" by simp
  finally show ?case using Cons by (simp add: tokens_text_def)
qed (simp add: tokens_text_def)

lemma tokens_ok:
  "\<forall>t \<in> set (factor_tokens f). token_ok t" "\<forall>t \<in> set (term_tokens u). token_ok t"
proof (induction f and u rule: factor_tokens_term_tokens.induct)
  case (4 f fs)
  have "token_ok (op_token x)" for x by (cases x) simp_all
  then show ?case using 4 by fastforce
qed (auto simp: is_letter_def sum_token_def)

lemma expr_tokens_ok: "\<forall>t \<in> set (expr_tokens e). token_ok t" "expr_tokens e \<noteq> []"
proof -
  have ne: "factor_tokens f \<noteq> []" for f by (cases f) simp_all
  then have "term_tokens u \<noteq> []" for u by (cases u) simp
  then show "expr_tokens e \<noteq> []" by (cases e) simp_all
  show "\<forall>t \<in> set (expr_tokens e). token_ok t" using tokens_ok(2) by (cases e) (auto simp: sum_token_def)
qed

text \<open>
  C23. What the calculator computes. The text of any expression of numbers, the constant, products, quotients and
  remainders, with one addition or subtraction on the outside and one in every pair of parentheses, is read as exactly its tokens, parsed as
  exactly its tree, products from the left, and evaluated as that tree.
\<close>

theorem calc_roundtrip:
  "lexer_tokenize (tokens_text (expr_tokens e)) = Inr (expr_tokens e) \<and> parser_parse (expr_tokens e) = Inr (expr_node e) \<and>
   calc (tokens_text (expr_tokens e)) = eval (expr_node e)"
proof -
  have "lexer_tokenize (tokens_text (expr_tokens e)) = Inr (expr_tokens e)"
    using lexer_loop_tokens [OF expr_tokens_ok(1), of "[]" e] expr_tokens_ok(2) [of e]
    by (cases "expr_tokens e") (auto simp: lexer_tokenize_def tokens_text_def)
  then show ?thesis using parser_parse_expr [of e] by (simp add: calc_def)
qed

text \<open>
  What it does not compute: \<open>1+2+3\<close> reads through the null pointer, \<open>(1)\<close>, \<open>-1\<close> and an empty text abort, \<open>)5\<close> is a negation that
  cannot be evaluated, and \<open>1a\<close> is twenty.
\<close>

lemma calc_failures:
  "calc [0x31, 0x2B, 0x32, 0x2B, 0x33] = Inl NullDeref" "calc [0x28, 0x31, 0x29] = Inl Aborted" "calc [0x2D, 0x31] = Inl Aborted"
  "calc [] = Inl Aborted" "parser_parse [TRparen, TNumber 5] = Inr (MinusNode (NumberNode 5))" "calc [0x31, 0x61] = Inr 20"
  by code_simp+

end
