(* ===== verification/Mem32.thy ===== *)
theory Mem32
  imports KString
begin

text \<open>
  Aligned 32-bit accesses to the byte memory: what \<open>uint32_t* p; p[i]\<close> reads and writes, least
  significant byte first. Two different aligned words never overlap, so on aligned addresses a
  store is a function update of the words, which is how the page-table code is reasoned about.
\<close>

definition ld32 :: "mem \<Rightarrow> u32 \<Rightarrow> u32" where
  "ld32 m a = ucast (m a) OR push_bit 8 (ucast (m (a + 1))) OR push_bit 16 (ucast (m (a + 2))) OR
     push_bit 24 (ucast (m (a + 3)))"

definition st32 :: "mem \<Rightarrow> u32 \<Rightarrow> u32 \<Rightarrow> mem" where
  "st32 m a v = store_bytes m a (bytes_of_u32 v)"

abbreviation aligned4 :: "u32 \<Rightarrow> bool" where
  "aligned4 a \<equiv> a AND 3 = 0"

lemma length_bytes_of_u32 [simp]: "length (bytes_of_u32 v) = 4"
  by (simp add: bytes_of_u32_def)

text \<open>The four bytes of a word put together again.\<close>

lemma join_bytes:
  fixes v :: u32
  shows "ucast (ucast v :: u8) OR push_bit 8 (ucast (ucast (drop_bit 8 v) :: u8)) OR
    push_bit 16 (ucast (ucast (drop_bit 16 v) :: u8)) OR push_bit 24 (ucast (ucast (drop_bit 24 v) :: u8)) = v"
proof (rule bit_word_eqI)
  fix n :: nat
  assume "n < LENGTH(32)"
  then have "n < 32" by simp
  then show "bit (ucast (ucast v :: u8) OR push_bit 8 (ucast (ucast (drop_bit 8 v) :: u8)) OR
    push_bit 16 (ucast (ucast (drop_bit 16 v) :: u8)) OR
    push_bit 24 (ucast (ucast (drop_bit 24 v) :: u8)) :: u32) n = bit v n"
    unfolding bit_or_iff bit_push_bit_iff bit_unsigned_iff bit_drop_bit_eq comp_def
    by (cases "n < 24"; cases "n < 16"; cases "n < 8") auto
qed

lemma aligned4_unat: "aligned4 a \<longleftrightarrow> unat a mod 4 = 0"
proof -
  have "a AND 3 = take_bit 2 a" using take_bit_eq_mask [of 2 a] by (simp add: mask_eq_exp_minus_1)
  then show ?thesis
    by (simp add: word_unat_eq_iff take_bit_eq_mod unat_mod)
qed

lemma aligned4_add: "aligned4 a \<Longrightarrow> i < 4 \<Longrightarrow> unat (a + of_nat i) = unat a + i"
proof -
  assume a: "aligned4 a" and i: "i < 4"
  have "unat a < 2 ^ 32" using unsigned_less [of a, where 'a = nat] by simp
  moreover have "unat a mod 4 = 0" using a by (simp only: aligned4_unat)
  ultimately have "unat a + i < 2 ^ 32" using i by (simp, presburger)
  then show ?thesis by (simp add: unat_word_ariths unat_of_nat take_bit_nat_eq_self)
qed

lemma aligned4_distinct:
  assumes "aligned4 a" "aligned4 b" "i < 4" "j < 4" "a + of_nat i = b + of_nat j"
  shows "a = b \<and> i = j"
proof -
  have e: "unat a + i = unat b + j"
    using assms aligned4_add [of a i] aligned4_add [of b j] by simp
  moreover have "unat a mod 4 = 0" "unat b mod 4 = 0" using assms by (simp_all only: aligned4_unat)
  ultimately have "unat a = unat b" using assms(3,4) by presburger
  then show ?thesis using e by (simp add: word_unat_eq_iff)
qed

lemma aligned4_range_disjoint:
  assumes "aligned4 a" "aligned4 b" "a \<noteq> b"
  shows "range_of a 4 \<inter> range_of b 4 = {}"
proof (rule ccontr)
  assume "range_of a 4 \<inter> range_of b 4 \<noteq> {}"
  then obtain i j where "i < 4" "j < 4" "a + of_nat i = b + of_nat j" by (auto simp: range_of_def)
  with aligned4_distinct [OF assms(1,2)] assms(3) show False by blast
qed

lemma ld32_bytes: "ld32 m a = (case load_bytes m a 4 of [b0, b1, b2, b3] \<Rightarrow>
    ucast b0 OR push_bit 8 (ucast b1) OR push_bit 16 (ucast b2) OR push_bit 24 (ucast b3))"
proof -
  have "load_bytes m a 4 = [m a, m (a + 1), m (a + 2), m (a + 3)]"
    by (simp add: numeral_eq_Suc add.assoc)
  then show ?thesis by (simp add: ld32_def)
qed

lemma bytes_of_ld32: "bytes_of_u32 (ld32 m a) = load_bytes m a 4"
proof -
  have "load_bytes m a 4 = [m a, m (a + 1), m (a + 2), m (a + 3)]" by (simp add: numeral_eq_Suc add.assoc)
  moreover have "ucast (ld32 m a) = m a" "ucast (drop_bit 8 (ld32 m a)) = m (a + 1)" "ucast (drop_bit 16 (ld32 m a)) = m (a + 2)"
    "ucast (drop_bit 24 (ld32 m a)) = m (a + 3)"
    by (rule bit_word_eqI, auto simp: ld32_def bit_simps dest: bit_imp_le_length)+
  ultimately show ?thesis by (simp add: bytes_of_u32_def)
qed

lemma ld32_st32_same [simp, mem_simps]: "ld32 (st32 m a v) a = v"
proof -
  have "load_bytes (st32 m a v) a 4 = bytes_of_u32 v"
    using load_store_bytes [of "bytes_of_u32 v" m a] by (simp add: st32_def)
  then show ?thesis by (simp add: ld32_bytes bytes_of_u32_def join_bytes)
qed

lemma ld32_store_bytes_outside:
  "range_of a 4 \<inter> range_of p (length bs) = {} \<Longrightarrow> ld32 (store_bytes m p bs) a = ld32 m a"
  unfolding ld32_bytes by (subst load_bytes_cong [of a 4 _ m]) (auto intro: store_bytes_outside)

lemma ld32_st32 [mem_simps]:
  "aligned4 a \<Longrightarrow> aligned4 b \<Longrightarrow> ld32 (st32 m a v) b = (if b = a then v else ld32 m b)"
  using ld32_store_bytes_outside [of b a "bytes_of_u32 v" m] aligned4_range_disjoint [of b a]
  by (auto simp: st32_def [symmetric])

section \<open>64-bit accesses and runs of words\<close>

text \<open>A \<open>uint64_t\<close> as its two halves, and consecutive words.\<close>

definition ld64 :: "mem \<Rightarrow> u32 \<Rightarrow> u64" where
  "ld64 m a = ucast (ld32 m a) OR push_bit 32 (ucast (ld32 m (a + 4)))"

definition st64 :: "mem \<Rightarrow> u32 \<Rightarrow> u64 \<Rightarrow> mem" where
  "st64 m a v = st32 (st32 m a (ucast v)) (a + 4) (ucast (drop_bit 32 v))"

primrec store_words :: "mem \<Rightarrow> u32 \<Rightarrow> u32 list \<Rightarrow> mem" where
  "store_words m a [] = m"
| "store_words m a (w # ws) = store_words (st32 m a w) (a + 4) ws"

lemma join_words: "ucast (ucast x :: u32) OR push_bit 32 (ucast (ucast (drop_bit 32 x) :: u32)) = (x :: u64)"
  by (rule bit_word_eqI) (auto simp: bit_simps not_less)

lemma store_words_bytes: "store_words m a ws = store_bytes m a (concat (map bytes_of_u32 ws))"
  by (induction ws arbitrary: m a) (simp_all add: st32_def store_bytes_append)

lemma length_words_bytes [simp]: "length (concat (map bytes_of_u32 ws)) = 4 * length ws"
  by (induction ws) simp_all

lemma store_words_outside [mem_simps]: "x \<notin> range_of a (4 * length ws) \<Longrightarrow> store_words m a ws x = m x"
  by (simp add: store_words_bytes store_bytes_outside)

lemma st32_outside [mem_simps]: "x \<notin> range_of a 4 \<Longrightarrow> st32 m a v x = m x"
  by (simp add: st32_def store_bytes_outside)

lemma ld32_cong: "(\<And>x. x \<in> range_of a 4 \<Longrightarrow> m x = m' x) \<Longrightarrow> ld32 m a = ld32 m' a"
  unfolding ld32_bytes by (subst load_bytes_cong [of a 4 m m']) simp_all

lemma ld64_cong:
  assumes "\<And>x. x \<in> range_of a 8 \<Longrightarrow> m x = m' x"
  shows "ld64 m a = ld64 m' a"
proof -
  have "ld32 m a = ld32 m' a" by (rule ld32_cong) (use assms range_of_mono [of 4 8 a] in auto)
  moreover have "ld32 m (a + 4) = ld32 m' (a + 4)" by (rule ld32_cong) (use assms range_of_part [of 4 4 8 a] in auto)
  ultimately show ?thesis by (simp add: ld64_def)
qed

lemma range_of_apart:
  assumes "i + n \<le> j" "j + k \<le> 2 ^ 32"
  shows "range_of (a + of_nat i) n \<inter> range_of (a + of_nat j) k = {}"
proof (rule ccontr)
  assume "range_of (a + of_nat i) n \<inter> range_of (a + of_nat j) k \<noteq> {}"
  then obtain x y where xy: "x < n" "y < k" "(of_nat (i + x) :: u32) = of_nat (j + y)" by (auto simp: range_of_def add.assoc)
  then have "i + x = j + y" using assms of_nat_u32_eq_iff [of "i + x" "j + y"] by simp
  then show False using xy assms by simp
qed

lemma ld64_st64 [simp, mem_simps]: "ld64 (st64 m a v) a = v"
proof -
  have "range_of a 4 \<inter> range_of (a + 4) 4 = {}" using range_of_apart [of 0 4 4 4 a] by simp
  then have "ld32 (st64 m a v) a = ucast v" unfolding st64_def
    using ld32_store_bytes_outside [of a "a + 4" "bytes_of_u32 (ucast (drop_bit 32 v))" "st32 m a (ucast v)"] by (simp add: st32_def [symmetric])
  then show ?thesis by (simp add: ld64_def st64_def join_words)
qed

lemma ld32_store_words:
  "i < length ws \<Longrightarrow> 4 * length ws \<le> 2 ^ 32 \<Longrightarrow> ld32 (store_words m a ws) (a + 4 * of_nat i) = ws ! i"
proof (induction ws arbitrary: m a i)
  case (Cons w ws)
  show ?case
  proof (cases i)
    case 0
    have "range_of a 4 \<inter> range_of (a + 4) (4 * length ws) = {}"
      using range_of_apart [of 0 4 4 "4 * length ws" a] Cons.prems by simp
    then have "ld32 (store_words (st32 m a w) (a + 4) ws) a = ld32 (st32 m a w) a"
      by (intro ld32_cong store_words_outside) auto
    with 0 show ?thesis by simp
  next
    case (Suc j)
    have "a + 4 * of_nat i = a + 4 + 4 * of_nat j" by (simp add: Suc algebra_simps)
    then show ?thesis using Cons.IH [of j "st32 m a w" "a + 4"] Cons.prems by (simp add: Suc add.assoc)
  qed
qed simp

text \<open>\<open>for (i = 0; i < n; i++) p[i] = 0;\<close>\<close>

primrec zero_words :: "mem \<Rightarrow> u32 \<Rightarrow> nat \<Rightarrow> nat \<Rightarrow> mem" where
  "zero_words m p i 0 = m"
| "zero_words m p i (Suc n) = zero_words (st32 m (p + 4 * of_nat i) 0) p (Suc i) n"

end
