(* ===== verification/Pmm.thy ===== *)
theory Pmm
  imports Panic
begin

text \<open>
  The physical page allocator, \<open>mckrnl/memory/pmm.c\<close>. A bit of \<open>bitmap\<close> is 1 for a free
  page; \<open>bitmap_set\<close> clears it ("used") and \<open>bitmap_clear\<close> sets it. The second bitmap marks
  the pages of the kernel's paging area, which are kept for page tables. Both arrays have
  \<open>BITMAP_SIZE\<close> words; they are total functions here and the operations whose index can
  leave the arrays (\<open>pmm_alloc_range\<close>) check it and fault.
\<close>

section \<open>Definitions\<close>

abbreviation BITMAP_SIZE :: nat where
  "BITMAP_SIZE \<equiv> 32768"

text \<open>\<open>BITMAP_SIZE * 32\<close>, the number of bits of a bitmap.\<close>

abbreviation NUM_PAGES :: nat where
  "NUM_PAGES \<equiv> 1048576"

type_synonym bitmap = "u32 \<Rightarrow> u32"

definition bitmap_set :: "bitmap \<Rightarrow> u32 \<Rightarrow> bitmap" where
  "bitmap_set m b =
     m(b div 32 := m (b div 32) AND NOT (drop_bit (unat (b mod 32)) 0x80000000))"

definition bitmap_clear :: "bitmap \<Rightarrow> u32 \<Rightarrow> bitmap" where
  "bitmap_clear m b =
     m(b div 32 := m (b div 32) OR drop_bit (unat (b mod 32)) 0x80000000)"

definition bitmap_test :: "bitmap \<Rightarrow> u32 \<Rightarrow> bool" where
  "bitmap_test m b \<longleftrightarrow> m (b div 32) AND drop_bit (unat (b mod 32)) 0x80000000 = 0"

record pmm =
  bitmap :: bitmap
  bitmap_pagetable_mask :: bitmap
  free_memory :: u32
  used_memory :: u32

definition pmm_usage_use :: "u32 \<Rightarrow> pmm \<Rightarrow> pmm" where
  "pmm_usage_use ammount s =
     s\<lparr>free_memory := free_memory s - ammount * 0x1000,
       used_memory := used_memory s + ammount * 0x1000\<rparr>"

definition pmm_usage_unuse :: "u32 \<Rightarrow> pmm \<Rightarrow> pmm" where
  "pmm_usage_unuse ammount s =
     s\<lparr>free_memory := free_memory s + ammount * 0x1000,
       used_memory := used_memory s - ammount * 0x1000\<rparr>"

definition pmm_mark_used :: "u32 \<Rightarrow> pmm \<Rightarrow> pmm" where
  "pmm_mark_used page s =
     pmm_usage_use 1 (s\<lparr>bitmap := bitmap_set (bitmap s) (page div 4096)\<rparr>)"

definition pmm_free :: "u32 \<Rightarrow> pmm \<Rightarrow> pmm" where
  "pmm_free page s =
     pmm_usage_unuse 1 (s\<lparr>bitmap := bitmap_clear (bitmap s) (page div 4096)\<rparr>)"

text \<open>
  The first-fit scans. \<open>want_pt\<close> selects the pool: ordinary pages for \<open>pmm_alloc\<close>, pages of
  the paging area for \<open>pmm_alloc_pagetable\<close> (the two functions differ in that test only).
\<close>

function pmm_scan :: "bool \<Rightarrow> nat \<Rightarrow> pmm \<Rightarrow> (u32 \<times> pmm) option" where
  "pmm_scan want_pt i s =
     (if i < NUM_PAGES then
        (if \<not> bitmap_test (bitmap s) (of_nat i) \<and>
            bitmap_test (bitmap_pagetable_mask s) (of_nat i) = want_pt
         then Some (of_nat i * 0x1000,
                    pmm_usage_use 1 (s\<lparr>bitmap := bitmap_set (bitmap s) (of_nat i)\<rparr>))
         else pmm_scan want_pt (Suc i) s)
      else None)"
  by pat_completeness auto
termination
  by (relation "measure (\<lambda>(w, i, s). NUM_PAGES - i)") auto

declare pmm_scan.simps [simp del]

text \<open>When nothing is found the kernel panics, and if the operator lets it go on returns \<open>NULL\<close>.\<close>

definition pmm_alloc :: "panic_key \<Rightarrow> pmm \<Rightarrow> (u32 \<times> pmm) res" where
  "pmm_alloc k s =
     (case pmm_scan False 0 s of
        Some r \<Rightarrow> Inr r
      | None \<Rightarrow> rbind (abortf k) (\<lambda>_. Inr (NULL, s)))"

definition pmm_alloc_pagetable :: "panic_key \<Rightarrow> pmm \<Rightarrow> (u32 \<times> pmm) res" where
  "pmm_alloc_pagetable k s =
     (case pmm_scan True 0 s of
        Some r \<Rightarrow> Inr r
      | None \<Rightarrow> rbind (abortf k) (\<lambda>_. Inr (NULL, s)))"

text \<open>
  \<open>pmm_alloc_range\<close>. The inner loop looks for a \<open>j\<close> whose page is used and not in the paging
  area (\<open>Some j\<close>: the \<open>goto retry\<close>); an index outside the arrays faults.
\<close>

primrec range_blocked :: "pmm \<Rightarrow> nat \<Rightarrow> nat \<Rightarrow> nat \<Rightarrow> nat option res" where
  "range_blocked s i j 0 = Inr None"
| "range_blocked s i j (Suc n) =
     (if i + j \<ge> NUM_PAGES then Inl OutOfBounds
      else if bitmap_test (bitmap s) (of_nat (i + j)) \<and>
              \<not> bitmap_test (bitmap_pagetable_mask s) (of_nat (i + j))
      then Inr (Some j)
      else range_blocked s i (Suc j) n)"

primrec range_set :: "bitmap \<Rightarrow> nat \<Rightarrow> nat \<Rightarrow> bitmap" where
  "range_set b i 0 = b"
| "range_set b i (Suc n) = range_set (bitmap_set b (of_nat i)) (Suc i) n"

lemma range_blocked_Some:
  "range_blocked s i j n = Inr (Some k) \<Longrightarrow> j \<le> k \<and> k < j + n \<and> i + k < NUM_PAGES \<and>
     bitmap_test (bitmap s) (of_nat (i + k)) \<and>
     \<not> bitmap_test (bitmap_pagetable_mask s) (of_nat (i + k))"
  by (induction n arbitrary: j) (fastforce split: if_splits)+

text \<open>
  At the label \<open>retry\<close> the bound of the outer loop is not tested again, but there \<open>i\<close> is
  the index of a page just tested, so it is below the bound.
\<close>

function pmm_range_scan :: "u32 \<Rightarrow> nat \<Rightarrow> pmm \<Rightarrow> (u32 \<times> pmm) option res" where
  "pmm_range_scan count i s =
     (if i < NUM_PAGES then
        (if \<not> bitmap_test (bitmap s) (of_nat i) \<and>
            \<not> bitmap_test (bitmap_pagetable_mask s) (of_nat i)
         then rbind (range_blocked s i 0 (nat (sint count))) (\<lambda>b.
           case b of
             Some j \<Rightarrow> pmm_range_scan count (i + j) s
           | None \<Rightarrow> Inr (Some (of_nat i * 0x1000,
               pmm_usage_use count (s\<lparr>bitmap := range_set (bitmap s) i (nat (sint count))\<rparr>))))
         else pmm_range_scan count (Suc i) s)
      else Inr None)"
  by pat_completeness auto
termination
proof (relation "measure (\<lambda>(c, i, s). NUM_PAGES - i)", goal_cases)
  case (2 count i s b j)
  from range_blocked_Some [OF \<open>range_blocked s i 0 (nat (sint count)) = Inr b\<close> [unfolded \<open>b = Some j\<close>]]
  have "j \<noteq> 0" using \<open>\<not> bitmap_test (bitmap s) (of_nat i) \<and> _\<close> by (auto intro: gr0I)
  then show ?case using \<open>i < NUM_PAGES\<close> by simp
qed auto

declare pmm_range_scan.simps [simp del]

definition pmm_alloc_range :: "u32 \<Rightarrow> pmm \<Rightarrow> (u32 \<times> pmm) res" where
  "pmm_alloc_range count s =
     rbind (pmm_range_scan count 0 s) (\<lambda>r. case r of Some p \<Rightarrow> Inr p | None \<Rightarrow> Inr (NULL, s))"

primrec range_clear :: "bitmap \<Rightarrow> u32 \<Rightarrow> nat \<Rightarrow> bitmap" where
  "range_clear b i 0 = b"
| "range_clear b i (Suc n) = range_clear (bitmap_clear b i) (i + 1) n"

definition pmm_free_range :: "u32 \<Rightarrow> u32 \<Rightarrow> pmm \<Rightarrow> pmm res" where
  "pmm_free_range page count s =
     (let index = page div 4096; n = nat (sint count) in
      if unat index + n > NUM_PAGES then Inl OutOfBounds
      else Inr (pmm_usage_unuse count (s\<lparr>bitmap := range_clear (bitmap s) index n\<rparr>)))"

text \<open>
  \<open>pmm_init\<close>. The boot information it reads: the multiboot memory map, the linker's symbols,
  the addresses of the multiboot structure and of the module list, and the modules.
\<close>

record mmap_entry =
  mm_base :: u64
  mm_length :: u64
  mm_type :: u32

record boot_info =
  bi_mmap :: "mmap_entry list"
  kernel_start :: u32
  kernel_end :: u32
  paging_start :: u32
  paging_end :: u32
  bi_addr :: u32
  bi_mods_addr :: u32
  bi_modules :: "(u32 \<times> u32) list"

partial_function (option) page_loop :: "(u32 \<Rightarrow> pmm \<Rightarrow> pmm) \<Rightarrow> u32 \<Rightarrow> u32 \<Rightarrow> pmm \<Rightarrow> pmm option" where
  "page_loop f addr end_addr s =
     (if addr < end_addr then page_loop f (addr + 0x1000) end_addr (f addr s) else Some s)"

definition mmap_step :: "mmap_entry \<Rightarrow> pmm \<Rightarrow> pmm option" where
  "mmap_step e s =
     (if mm_type e = 1 then
        (let addr = ucast (mm_base e);
             end_addr = addr + ucast (mm_length e)
         in if mm_base e > 0xfffff000 then Some s
            else let end_addr = (if mm_base e + mm_length e > 0xffffffff then 0xfffff000 else end_addr)
                 in page_loop pmm_free addr end_addr s)
      else Some s)"

primrec mmap_loop :: "mmap_entry list \<Rightarrow> pmm \<Rightarrow> pmm option" where
  "mmap_loop [] s = Some s"
| "mmap_loop (e # es) s = Option.bind (mmap_step e s) (mmap_loop es)"

primrec modules_loop :: "(u32 \<times> u32) list \<Rightarrow> pmm \<Rightarrow> pmm option" where
  "modules_loop [] s = Some s"
| "modules_loop (md # mds) s =
     Option.bind (page_loop pmm_mark_used (fst md) (snd md) s) (modules_loop mds)"

definition mark_paging :: "u32 \<Rightarrow> pmm \<Rightarrow> pmm" where
  "mark_paging addr s =
     s\<lparr>bitmap_pagetable_mask := bitmap_set (bitmap_pagetable_mask s) (addr div 0x1000)\<rparr>"

definition pmm_init :: "boot_info \<Rightarrow> pmm \<Rightarrow> pmm option" where
  "pmm_init bi s =
     Option.bind (mmap_loop (bi_mmap bi)
        (s\<lparr>bitmap := (\<lambda>_. 0), bitmap_pagetable_mask := (\<lambda>_. 0xffffffff)\<rparr>)) (\<lambda>s1.
     Option.bind (page_loop pmm_mark_used (kernel_start bi) (kernel_end bi)
        (s1\<lparr>used_memory := 0\<rparr>)) (\<lambda>s2.
     Option.bind (page_loop mark_paging (paging_start bi) (paging_end bi) s2) (\<lambda>s3.
     Option.bind (modules_loop (bi_modules bi)
        (pmm_mark_used (bi_mods_addr bi) (pmm_mark_used (bi_addr bi) s3))) (\<lambda>s4.
     Some (pmm_mark_used NULL s4)))))"

section \<open>The bitmap as a set of pages\<close>

lemma bitmap_mask_exp:
  "drop_bit (unat (b mod 32)) (0x80000000 :: u32) = 2 ^ (31 - unat (b mod 32))" for b :: u32
proof -
  have "unat (b mod 32) \<le> 31"
    using mod_less_divisor [of 32 "unat b"] by (simp add: unat_mod)
  then have "drop_bit (unat (b mod 32)) (2 ^ 31 :: u32) = 2 ^ (31 - unat (b mod 32))"
    unfolding drop_bit_exp_eq by simp
  then show ?thesis by simp
qed

lemma bitmap_test_bit: "bitmap_test m b \<longleftrightarrow> \<not> bit (m (b div 32)) (31 - unat (b mod 32))"
  by (simp only: bitmap_test_def bitmap_mask_exp and_exp_eq_0_iff_not_bit)

lemma u32_same_slot:
  fixes b c :: u32
  shows "b div 32 = c div 32 \<Longrightarrow> 31 - unat (b mod 32) = 31 - unat (c mod 32) \<longleftrightarrow> b = c"
proof -
  assume q: "b div 32 = c div 32"
  have lt: "unat (b mod 32) < 32" "unat (c mod 32) < 32" by (simp_all add: unat_mod)
  have "31 - unat (b mod 32) = 31 - unat (c mod 32) \<longleftrightarrow> b mod 32 = c mod 32"
    using lt by (auto simp: word_unat_eq_iff)
  also have "\<dots> \<longleftrightarrow> b = c" using q by (metis div_mult_mod_eq)
  finally show ?thesis .
qed

lemma bitmap_test_set [simp]: "bitmap_test (bitmap_set m b) c \<longleftrightarrow> c = b \<or> bitmap_test m c"
  unfolding bitmap_test_bit bitmap_set_def bitmap_mask_exp
  using u32_same_slot [of c b] by (auto simp: bit_and_iff bit_not_iff bit_exp_iff)

lemma bitmap_test_clear [simp]: "bitmap_test (bitmap_clear m b) c \<longleftrightarrow> c \<noteq> b \<and> bitmap_test m c"
  unfolding bitmap_test_bit bitmap_clear_def bitmap_mask_exp
  using u32_same_slot [of c b] by (auto simp: bit_or_iff bit_exp_iff)

text \<open>The abstract state: which pages are used, and which belong to the paging area.\<close>

definition used_pages :: "pmm \<Rightarrow> nat set" where
  "used_pages s = {i. i < NUM_PAGES \<and> bitmap_test (bitmap s) (of_nat i)}"

definition pt_pages :: "pmm \<Rightarrow> nat set" where
  "pt_pages s = {i. i < NUM_PAGES \<and> bitmap_test (bitmap_pagetable_mask s) (of_nat i)}"

definition page_no :: "u32 \<Rightarrow> nat" where
  "page_no p = unat p div 4096"

lemma page_no_less: "page_no p < NUM_PAGES"
  using unsigned_less [of p, where 'a = nat] by (simp add: page_no_def less_mult_imp_div_less)

lemma unat_page_addr: "i < NUM_PAGES \<Longrightarrow> unat (of_nat i * 0x1000 :: u32) = i * 4096"
  by (simp add: unat_word_ariths unat_of_nat take_bit_nat_eq_self)

lemma page_no_page_addr [simp]: "i < NUM_PAGES \<Longrightarrow> page_no (of_nat i * 0x1000) = i"
  by (simp add: page_no_def unat_page_addr)

lemma of_nat_page_eq_iff: "i < NUM_PAGES \<Longrightarrow> (of_nat i :: u32) = p div 4096 \<longleftrightarrow> i = page_no p"
  by (simp add: word_unat_eq_iff page_no_def unat_div unat_of_nat take_bit_nat_eq_self)

lemma page_index_eq_iff:
  "i < NUM_PAGES \<Longrightarrow> j < NUM_PAGES \<Longrightarrow> (of_nat i :: u32) = of_nat j \<longleftrightarrow> i = j"
  by (rule of_nat_u32_eq_iff) simp_all

lemma usage_abs [simp]:
  "used_pages (pmm_usage_use n s) = used_pages s" "used_pages (pmm_usage_unuse n s) = used_pages s"
  "pt_pages (pmm_usage_use n s) = pt_pages s" "pt_pages (pmm_usage_unuse n s) = pt_pages s"
  by (simp_all add: used_pages_def pt_pages_def pmm_usage_use_def pmm_usage_unuse_def)

lemma used_pages_mark_used [simp]: "used_pages (pmm_mark_used p s) = insert (page_no p) (used_pages s)"
  using page_no_less [of p]
  by (auto simp: pmm_mark_used_def used_pages_def pmm_usage_use_def of_nat_page_eq_iff)

lemma used_pages_free [simp]: "used_pages (pmm_free p s) = used_pages s - {page_no p}"
  using page_no_less [of p]
  by (auto simp: pmm_free_def used_pages_def pmm_usage_unuse_def of_nat_page_eq_iff)

lemma pt_pages_mark_used [simp]: "pt_pages (pmm_mark_used p s) = pt_pages s"
  by (simp add: pmm_mark_used_def pt_pages_def pmm_usage_use_def)

lemma pt_pages_free [simp]: "pt_pages (pmm_free p s) = pt_pages s"
  by (simp add: pmm_free_def pt_pages_def pmm_usage_unuse_def)

lemma mark_paging_abs [simp]:
  "used_pages (mark_paging p s) = used_pages s"
  "pt_pages (mark_paging p s) = insert (page_no p) (pt_pages s)"
  using page_no_less [of p]
  by (auto simp: mark_paging_def used_pages_def pt_pages_def of_nat_page_eq_iff)

lemma used_pages_bitmap_set:
  "i < NUM_PAGES \<Longrightarrow> used_pages (s\<lparr>bitmap := bitmap_set (bitmap s) (of_nat i)\<rparr>) = insert i (used_pages s)"
  by (auto simp: used_pages_def page_index_eq_iff)

lemma pt_pages_bitmap_upd [simp]: "pt_pages (s\<lparr>bitmap := b\<rparr>) = pt_pages s"
  by (simp add: pt_pages_def)

section \<open>The first-fit scan\<close>

text \<open>A page the scan may hand out: free, and in the pool that is asked for.\<close>

definition eligible :: "bool \<Rightarrow> pmm \<Rightarrow> nat \<Rightarrow> bool" where
  "eligible w s i \<longleftrightarrow> i < NUM_PAGES \<and> i \<notin> used_pages s \<and> (i \<in> pt_pages s) = w"

lemma eligible_test:
  "i < NUM_PAGES \<Longrightarrow> eligible w s i \<longleftrightarrow>
     \<not> bitmap_test (bitmap s) (of_nat i) \<and> bitmap_test (bitmap_pagetable_mask s) (of_nat i) = w"
  by (auto simp: eligible_def used_pages_def pt_pages_def)

lemma pmm_scan_unfold:
  "pmm_scan w i s =
     (if i < NUM_PAGES then
        (if eligible w s i
         then Some (of_nat i * 0x1000, pmm_usage_use 1 (s\<lparr>bitmap := bitmap_set (bitmap s) (of_nat i)\<rparr>))
         else pmm_scan w (Suc i) s)
      else None)"
  by (subst pmm_scan.simps) (simp add: eligible_test)

lemma pmm_scan_Some:
  "pmm_scan w i s = Some (p, s') \<Longrightarrow>
   \<exists>k\<ge>i. eligible w s k \<and> (\<forall>j. i \<le> j \<and> j < k \<longrightarrow> \<not> eligible w s j) \<and> p = of_nat k * 0x1000 \<and>
     s' = pmm_usage_use 1 (s\<lparr>bitmap := bitmap_set (bitmap s) (of_nat k)\<rparr>)"
proof (induction "NUM_PAGES - i" arbitrary: i)
  case 0
  then show ?case by (subst (asm) pmm_scan_unfold) simp
next
  case (Suc n)
  then have i: "i < NUM_PAGES" by simp
  show ?case
  proof (cases "eligible w s i")
    case True
    with i Suc.prems show ?thesis
      by (subst (asm) pmm_scan_unfold) (auto intro!: exI [of _ i])
  next
    case False
    have "n = NUM_PAGES - Suc i" using Suc.hyps(2) by simp
    moreover have "pmm_scan w (Suc i) s = Some (p, s')"
      using Suc.prems i False by (subst (asm) pmm_scan_unfold) simp
    ultimately obtain k where "k \<ge> Suc i" "eligible w s k" "p = of_nat k * 0x1000"
      "\<And>j. Suc i \<le> j \<Longrightarrow> j < k \<Longrightarrow> \<not> eligible w s j"
      "s' = pmm_usage_use 1 (s\<lparr>bitmap := bitmap_set (bitmap s) (of_nat k)\<rparr>)"
      using Suc.hyps(1) by blast
    moreover have "\<not> eligible w s j" if "i \<le> j" "j < k" for j
      using False calculation(4) that by (cases "j = i") simp_all
    ultimately show ?thesis by (intro exI [of _ k]) auto
  qed
qed

lemma pmm_scan_SomeE:
  assumes "pmm_scan w 0 s = Some (p, s')"
  obtains k where "eligible w s k" "\<forall>j<k. \<not> eligible w s j" "p = of_nat k * 0x1000"
    "s' = pmm_usage_use 1 (s\<lparr>bitmap := bitmap_set (bitmap s) (of_nat k)\<rparr>)"
  using pmm_scan_Some [OF assms] by blast

lemma pmm_scan_None: "pmm_scan w i s = None \<Longrightarrow> i \<le> k \<Longrightarrow> \<not> eligible w s k"
proof (induction "NUM_PAGES - i" arbitrary: i)
  case 0
  then show ?case by (simp add: eligible_def)
next
  case (Suc n)
  then have "i < NUM_PAGES" by simp
  with Suc.prems(1) have "\<not> eligible w s i" "pmm_scan w (Suc i) s = None"
    by (subst (asm) pmm_scan_unfold, simp split: if_splits)+
  then show ?case using Suc.hyps(1) [of "Suc i"] Suc.hyps(2) Suc.prems(2) by (cases "k = i") auto
qed

text \<open>What a successful scan does to the abstract state.\<close>

lemma pmm_scan_abs:
  assumes "pmm_scan w 0 s = Some (p, s')"
  shows "eligible w s (page_no p)" "used_pages s' = insert (page_no p) (used_pages s)"
    "pt_pages s' = pt_pages s" "p = of_nat (page_no p) * 0x1000"
    "free_memory s' = free_memory s - 0x1000" "used_memory s' = used_memory s + 0x1000"
    "j < page_no p \<Longrightarrow> \<not> eligible w s j"
proof -
  obtain k where k: "eligible w s k" "\<forall>j<k. \<not> eligible w s j" "p = of_nat k * 0x1000"
    and s': "s' = pmm_usage_use 1 (s\<lparr>bitmap := bitmap_set (bitmap s) (of_nat k)\<rparr>)"
    using assms by (rule pmm_scan_SomeE)
  have "k < NUM_PAGES" using k(1) by (simp add: eligible_def)
  then have pk: "page_no p = k" using k(3) by simp
  show "eligible w s (page_no p)" "p = of_nat (page_no p) * 0x1000" "j < page_no p \<Longrightarrow> \<not> eligible w s j"
    using k pk by simp_all
  show "used_pages s' = insert (page_no p) (used_pages s)" "pt_pages s' = pt_pages s"
    using s' pk \<open>k < NUM_PAGES\<close> by (simp_all add: used_pages_bitmap_set)
  show "free_memory s' = free_memory s - 0x1000" "used_memory s' = used_memory s + 0x1000"
    using s' by (simp_all add: pmm_usage_use_def)
qed

section \<open>Accounting\<close>

text \<open>\<open>free_memory\<close> is the size of the free pages, in the kernel's 32-bit arithmetic.\<close>

definition free_pages :: "pmm \<Rightarrow> nat set" where
  "free_pages s = {i. i < NUM_PAGES \<and> i \<notin> used_pages s}"

definition acct :: "pmm \<Rightarrow> bool" where
  "acct s \<longleftrightarrow> free_memory s = of_nat (4096 * card (free_pages s))"

lemma finite_free_pages [simp]: "finite (free_pages s)"
  by (simp add: free_pages_def)

lemma of_nat_pages_Suc: "(of_nat (4096 * Suc n) :: u32) = of_nat (4096 * n) + 0x1000"
  by (simp add: algebra_simps)

lemma acct_scan:
  assumes "pmm_scan w 0 s = Some (p, s')" "acct s"
  shows "acct s'"
proof -
  note a = pmm_scan_abs [OF assms(1)]
  have "page_no p \<in> free_pages s" using a(1) by (simp add: eligible_def free_pages_def)
  moreover have "free_pages s' = free_pages s - {page_no p}"
    by (auto simp: free_pages_def a(2))
  ultimately have "card (free_pages s) = Suc (card (free_pages s'))"
    by (simp only: card.remove [OF finite_free_pages])
  then show ?thesis
    using assms(2) unfolding acct_def a(5) by (simp only: of_nat_pages_Suc add_diff_cancel)
qed

lemma acct_free:
  assumes "acct s" "page_no p \<in> used_pages s"
  shows "acct (pmm_free p s)"
proof -
  have "free_pages (pmm_free p s) = insert (page_no p) (free_pages s)"
    using page_no_less [of p] by (auto simp: free_pages_def)
  moreover have "page_no p \<notin> free_pages s" using assms(2) by (simp add: free_pages_def)
  ultimately have "card (free_pages (pmm_free p s)) = Suc (card (free_pages s))" by simp
  moreover have "free_memory (pmm_free p s) = free_memory s + 0x1000"
    by (simp add: pmm_free_def pmm_usage_unuse_def)
  ultimately show ?thesis
    using assms(1) unfolding acct_def by (simp only: of_nat_pages_Suc)
qed

section \<open>Page pools: clients of the allocator\<close>

text \<open>
  What a client relies on: a page it gets was not in use, getting it makes exactly that page
  used, and giving a page back makes exactly that page unused. From these laws alone no run
  of requests and releases hands out a page that a client still owns.
\<close>

datatype page_op = Request | Release nat

fun run_pages :: "('s \<Rightarrow> (nat \<times> 's) option) \<Rightarrow> (nat \<Rightarrow> 's \<Rightarrow> 's) \<Rightarrow> page_op list \<Rightarrow> nat list \<times> 's
    \<Rightarrow> (nat list \<times> 's) option" where
  "run_pages get put [] (owned, s) = Some (owned, s)"
| "run_pages get put (Request # ops) (owned, s) =
     (case get s of None \<Rightarrow> None | Some (p, s') \<Rightarrow> run_pages get put ops (p # owned, s'))"
| "run_pages get put (Release p # ops) (owned, s) =
     (if p \<in> set owned then run_pages get put ops (remove1 p owned, put p s) else None)"

locale page_pool =
  fixes in_use :: "'s \<Rightarrow> nat set"
    and get :: "'s \<Rightarrow> (nat \<times> 's) option"
    and put :: "nat \<Rightarrow> 's \<Rightarrow> 's"
  assumes get_fresh: "get s = Some (p, s') \<Longrightarrow> p \<notin> in_use s"
    and get_in_use: "get s = Some (p, s') \<Longrightarrow> in_use s' = insert p (in_use s)"
    and put_in_use: "p \<in> in_use s \<Longrightarrow> in_use (put p s) = in_use s - {p}"
begin

lemma run_keeps_owned:
  "run_pages get put ops (owned, s) = Some (owned', s') \<Longrightarrow> distinct owned \<Longrightarrow> set owned \<subseteq> in_use s \<Longrightarrow>
   distinct owned' \<and> set owned' \<subseteq> in_use s'"
proof (induction ops arbitrary: owned s)
  case (Cons op ops)
  show ?case
  proof (cases op)
    case Request
    with Cons.prems(1) obtain p t where get: "get s = Some (p, t)"
      and run: "run_pages get put ops (p # owned, t) = Some (owned', s')"
      by (auto split: option.splits)
    then show ?thesis using Cons.prems(2,3) get_fresh [OF get] get_in_use [OF get]
      by (intro Cons.IH [OF run]) auto
  next
    case (Release p)
    with Cons.prems(1) have p: "p \<in> set owned"
      and run: "run_pages get put ops (remove1 p owned, put p s) = Some (owned', s')"
      by (auto split: if_splits)
    have "in_use (put p s) = in_use s - {p}" by (rule put_in_use) (use p Cons.prems(3) in auto)
    then show ?thesis using Cons.prems(2,3) by (intro Cons.IH [OF run]) auto
  qed
qed simp

lemma get_not_owned:
  assumes "run_pages get put ops ([], s) = Some (owned, t)" "get t = Some (p, u)"
  shows "p \<notin> set owned"
  using run_keeps_owned [OF assms(1)] get_fresh [OF assms(2)] by auto

end

definition pool_get :: "bool \<Rightarrow> pmm \<Rightarrow> (nat \<times> pmm) option" where
  "pool_get w s = map_option (\<lambda>(p, s'). (page_no p, s')) (pmm_scan w 0 s)"

definition pool_put :: "nat \<Rightarrow> pmm \<Rightarrow> pmm" where
  "pool_put i s = pmm_free (of_nat i * 0x1000) s"

lemma pool_get_Some:
  "pool_get w s = Some (i, s') \<Longrightarrow> \<exists>p. pmm_scan w 0 s = Some (p, s') \<and> i = page_no p"
  by (auto simp: pool_get_def)

lemma used_pages_less: "i \<in> used_pages s \<Longrightarrow> i < NUM_PAGES"
  by (simp add: used_pages_def)

interpretation data_pool: page_pool used_pages "pool_get False" pool_put
proof unfold_locales
  fix s :: pmm and p s'
  assume "pool_get False s = Some (p, s')"
  then obtain q where "pmm_scan False 0 s = Some (q, s')" "p = page_no q" using pool_get_Some by blast
  with pmm_scan_abs(1,2) [of False s q s'] show "p \<notin> used_pages s" "used_pages s' = insert p (used_pages s)"
    by (auto simp: eligible_def)
qed (simp add: pool_put_def used_pages_less)

interpretation table_pool: page_pool used_pages "pool_get True" pool_put
proof unfold_locales
  fix s :: pmm and p s'
  assume "pool_get True s = Some (p, s')"
  then obtain q where "pmm_scan True 0 s = Some (q, s')" "p = page_no q" using pool_get_Some by blast
  with pmm_scan_abs(1,2) [of True s q s'] show "p \<notin> used_pages s" "used_pages s' = insert p (used_pages s)"
    by (auto simp: eligible_def)
qed (simp add: pool_put_def used_pages_less)

section \<open>Ranges of pages\<close>

lemma range_blocked_None:
  "range_blocked s i j n = Inr None \<Longrightarrow> j \<le> k \<Longrightarrow> k < j + n \<Longrightarrow>
   i + k < NUM_PAGES \<and> (i + k \<notin> used_pages s \<or> i + k \<in> pt_pages s)"
proof (induction n arbitrary: j)
  case (Suc n)
  show ?case
  proof (cases "k = j")
    case True
    with Suc.prems(1) show ?thesis by (auto simp: used_pages_def pt_pages_def split: if_splits)
  next
    case False
    with Suc.prems show ?thesis by (intro Suc.IH [of "Suc j"]) (auto split: if_splits)
  qed
qed simp

lemma bitmap_test_range_set:
  "c < NUM_PAGES \<Longrightarrow> i + n \<le> NUM_PAGES \<Longrightarrow>
   bitmap_test (range_set b i n) (of_nat c) \<longleftrightarrow> (i \<le> c \<and> c < i + n) \<or> bitmap_test b (of_nat c)"
  by (induction n arbitrary: b i) (auto simp: page_index_eq_iff)

lemma used_pages_range_set:
  "i + n \<le> NUM_PAGES \<Longrightarrow>
   used_pages (s\<lparr>bitmap := range_set (bitmap s) i n\<rparr>) = used_pages s \<union> {i..<i + n}"
  by (auto simp: used_pages_def bitmap_test_range_set)

lemma bitmap_test_range_clear:
  "c < NUM_PAGES \<Longrightarrow> i + n \<le> NUM_PAGES \<Longrightarrow>
   bitmap_test (range_clear b (of_nat i) n) (of_nat c) \<longleftrightarrow> \<not> (i \<le> c \<and> c < i + n) \<and> bitmap_test b (of_nat c)"
proof (induction n arbitrary: b i)
  case (Suc n)
  have "(of_nat i :: u32) + 1 = of_nat (Suc i)" by simp
  with Suc show ?case by (simp only: range_clear.simps) (auto simp: page_index_eq_iff)
qed simp

text \<open>What the range scan finds: pages that are free or, past the first one, in the paging area.\<close>

definition range_ok :: "pmm \<Rightarrow> nat \<Rightarrow> nat \<Rightarrow> bool" where
  "range_ok s i n \<longleftrightarrow> i < NUM_PAGES \<and> i \<notin> used_pages s \<and> i \<notin> pt_pages s \<and>
     (\<forall>j<n. i + j < NUM_PAGES \<and> (i + j \<notin> used_pages s \<or> i + j \<in> pt_pages s))"

lemma pmm_range_scan_Some:
  "pmm_range_scan count i s = Inr (Some (p, s')) \<Longrightarrow>
   \<exists>k\<ge>i. range_ok s k (nat (sint count)) \<and> p = of_nat k * 0x1000 \<and>
     s' = pmm_usage_use count (s\<lparr>bitmap := range_set (bitmap s) k (nat (sint count))\<rparr>)"
proof (induction "NUM_PAGES - i" arbitrary: i rule: less_induct)
  case less
  let ?n = "nat (sint count)"
  have i: "i < NUM_PAGES" using less.prems by (subst (asm) pmm_range_scan.simps) (simp split: if_splits)
  have up: "\<exists>k\<ge>i. range_ok s k ?n \<and> p = of_nat k * 0x1000 \<and>
      s' = pmm_usage_use count (s\<lparr>bitmap := range_set (bitmap s) k ?n\<rparr>)"
    if "pmm_range_scan count i' s = Inr (Some (p, s'))" "i < i'" for i'
  proof -
    have "NUM_PAGES - i' < NUM_PAGES - i" using that(2) i by simp
    from less.hyps [OF this that(1)] obtain k where "k \<ge> i'" "range_ok s k ?n" "p = of_nat k * 0x1000"
      "s' = pmm_usage_use count (s\<lparr>bitmap := range_set (bitmap s) k ?n\<rparr>)" by blast
    with that(2) show ?thesis by (intro exI [of _ k]) simp
  qed
  show ?case
  proof (cases "\<not> bitmap_test (bitmap s) (of_nat i) \<and> \<not> bitmap_test (bitmap_pagetable_mask s) (of_nat i)")
    case False
    with less.prems i have "pmm_range_scan count (Suc i) s = Inr (Some (p, s'))"
      by (subst (asm) pmm_range_scan.simps) (simp only: if_True if_False)
    then show ?thesis by (rule up) simp
  next
    case True
    with less.prems i obtain b where b: "range_blocked s i 0 ?n = Inr b"
      and r: "(case b of Some j \<Rightarrow> pmm_range_scan count (i + j) s
           | None \<Rightarrow> Inr (Some (of_nat i * 0x1000,
               pmm_usage_use count (s\<lparr>bitmap := range_set (bitmap s) i ?n\<rparr>)))) = Inr (Some (p, s'))"
      by (subst (asm) pmm_range_scan.simps) (auto simp: rbind_eq_Inr)
    show ?thesis
    proof (cases b)
      case (Some j)
      from range_blocked_Some [OF b [unfolded Some]] True have "j \<noteq> 0" by (auto intro: gr0I)
      then show ?thesis using r Some by (intro up [of "i + j"]) simp_all
    next
      case None
      have "range_ok s i ?n" unfolding range_ok_def
        using True i range_blocked_None [OF b [unfolded None]]
        by (auto simp: used_pages_def pt_pages_def)
      then show ?thesis using r None by (intro exI [of _ i]) simp
    qed
  qed
qed

lemma range_ok_bound: "range_ok s i n \<Longrightarrow> i + n \<le> NUM_PAGES"
proof (cases n)
  case (Suc m)
  assume "range_ok s i n"
  then have "i + m < NUM_PAGES" using Suc by (simp add: range_ok_def)
  then show ?thesis using Suc by simp
qed (simp add: range_ok_def)

lemma pmm_range_scan_abs:
  assumes "pmm_range_scan count 0 s = Inr (Some (p, s'))"
  shows "range_ok s (page_no p) (nat (sint count))"
    "used_pages s' = used_pages s \<union> {page_no p..<page_no p + nat (sint count)}"
    "pt_pages s' = pt_pages s" "p = of_nat (page_no p) * 0x1000"
proof -
  obtain k where k: "range_ok s k (nat (sint count))" "p = of_nat k * 0x1000"
    "s' = pmm_usage_use count (s\<lparr>bitmap := range_set (bitmap s) k (nat (sint count))\<rparr>)"
    using pmm_range_scan_Some [OF assms] by blast
  then have "page_no p = k" by (simp add: range_ok_def)
  with k show "range_ok s (page_no p) (nat (sint count))"
    "used_pages s' = used_pages s \<union> {page_no p..<page_no p + nat (sint count)}"
    "pt_pages s' = pt_pages s" "p = of_nat (page_no p) * 0x1000"
    by (simp_all add: used_pages_range_set range_ok_bound)
qed

lemma page_div: "p div 4096 = of_nat (page_no p)"
  using of_nat_page_eq_iff [OF page_no_less, of p p] by simp

lemma pmm_free_range_abs:
  assumes "pmm_free_range p count s = Inr s'"
  shows "used_pages s' = used_pages s - {page_no p..<page_no p + nat (sint count)}"
    and "pt_pages s' = pt_pages s"
proof -
  let ?n = "nat (sint count)"
  have le: "page_no p + ?n \<le> NUM_PAGES"
    and s': "s' = pmm_usage_unuse count (s\<lparr>bitmap := range_clear (bitmap s) (of_nat (page_no p)) ?n\<rparr>)"
    using assms page_no_less [of p] by (auto simp: pmm_free_range_def Let_def page_div split: if_splits)
  show "used_pages s' = used_pages s - {page_no p..<page_no p + ?n}"
    using le by (auto simp: s' used_pages_def pmm_usage_unuse_def bitmap_test_range_clear)
  show "pt_pages s' = pt_pages s" by (simp add: s')
qed

section \<open>Boot\<close>

text \<open>The pages a loop \<open>while (addr < end) { ...; addr += 0x1000; }\<close> visits.\<close>

definition loop_pages :: "u32 \<Rightarrow> u32 \<Rightarrow> nat set" where
  "loop_pages a e = {page_no a + k | k. unat a + 4096 * k < unat e}"

lemma loop_pages_step:
  assumes "a < e" "unat e \<le> 0xfffff000"
  shows "loop_pages a e = insert (page_no a) (loop_pages (a + 0x1000) e)"
    and "unat (a + 0x1000) = unat a + 4096"
proof -
  have lt: "unat a < unat e" using assms(1) by (simp add: word_less_nat_alt)
  show u: "unat (a + 0x1000) = unat a + 4096"
    using lt assms(2) by (simp add: unat_word_ariths)
  then have pn: "page_no (a + 0x1000) = Suc (page_no a)" by (simp add: page_no_def)
  have "loop_pages (a + 0x1000) e = {page_no a + k | k. k \<noteq> 0 \<and> unat a + 4096 * k < unat e}"
    unfolding loop_pages_def u pn by (auto simp: gr0_conv_Suc)
  moreover have "loop_pages a e = {page_no a + k | k. k = 0 \<and> unat a + 4096 * k < unat e} \<union>
      {page_no a + k | k. k \<noteq> 0 \<and> unat a + 4096 * k < unat e}"
    unfolding loop_pages_def by blast
  ultimately show "loop_pages a e = insert (page_no a) (loop_pages (a + 0x1000) e)"
    using lt by simp
qed

text \<open>
  Such a loop stops when its end is at most \<open>0xfffff000\<close>. An invariant over the visited pages
  that the body extends by the page it is called with holds in the end for all of them.
\<close>

lemma page_loop_rule:
  assumes "unat e \<le> 0xfffff000" and step: "\<And>a t V. I V t \<Longrightarrow> I (insert (page_no a) V) (f a t)"
  shows "I V s \<Longrightarrow> \<exists>s'. page_loop f a e s = Some s' \<and> I (V \<union> loop_pages a e) s'"
proof (induction "unat e - unat a" arbitrary: a s V rule: less_induct)
  case less
  show ?case
  proof (cases "a < e")
    case True
    note st = loop_pages_step [OF True assms(1)]
    have "unat e - unat (a + 0x1000) < unat e - unat a"
      using True st(2) by (simp add: word_less_nat_alt)
    from less.hyps [OF this step [OF less.prems]] True st(1) show ?thesis
      by (subst page_loop.simps) simp
  next
    case False
    then have "loop_pages a e = {}" by (auto simp: loop_pages_def word_less_nat_alt)
    with False less.prems show ?thesis by (subst page_loop.simps) simp
  qed
qed

lemma page_loop_free:
  assumes "unat e \<le> 0xfffff000"
  shows "\<exists>s'. page_loop pmm_free a e s = Some s' \<and> used_pages s' = used_pages s - loop_pages a e \<and>
    pt_pages s' = pt_pages s"
  using page_loop_rule [where I = "\<lambda>V t. used_pages t = used_pages s - V \<and> pt_pages t = pt_pages s"
      and V = "{}" and s = s and f = pmm_free, OF assms, of a] by auto

lemma page_loop_mark:
  assumes "unat e \<le> 0xfffff000"
  shows "\<exists>s'. page_loop pmm_mark_used a e s = Some s' \<and> used_pages s' = used_pages s \<union> loop_pages a e \<and>
    pt_pages s' = pt_pages s"
  using page_loop_rule [where I = "\<lambda>V t. used_pages t = used_pages s \<union> V \<and> pt_pages t = pt_pages s"
      and V = "{}" and s = s and f = pmm_mark_used, OF assms, of a] by auto

lemma page_loop_paging:
  assumes "unat e \<le> 0xfffff000"
  shows "\<exists>s'. page_loop mark_paging a e s = Some s' \<and> used_pages s' = used_pages s \<and>
    pt_pages s' = pt_pages s \<union> loop_pages a e"
  using page_loop_rule [where I = "\<lambda>V t. used_pages t = used_pages s \<and> pt_pages t = pt_pages s \<union> V"
      and V = "{}" and s = s and f = mark_paging, OF assms, of a] by auto

text \<open>The pages a memory-map entry frees, and when its loop is known to stop.\<close>

definition entry_end :: "mmap_entry \<Rightarrow> u32" where
  "entry_end e = (if mm_base e + mm_length e > 0xffffffff then 0xfffff000
                  else ucast (mm_base e) + ucast (mm_length e))"

definition entry_pages :: "mmap_entry \<Rightarrow> nat set" where
  "entry_pages e = (if mm_type e = 1 \<and> \<not> mm_base e > 0xfffff000
                    then loop_pages (ucast (mm_base e)) (entry_end e) else {})"

lemma mmap_loop_total:
  "\<forall>e \<in> set es. unat (entry_end e) \<le> 0xfffff000 \<Longrightarrow>
   \<exists>s'. mmap_loop es s = Some s' \<and> used_pages s' = used_pages s - (\<Union>e \<in> set es. entry_pages e) \<and>
     pt_pages s' = pt_pages s"
proof (induction es arbitrary: s)
  case (Cons e es)
  have "\<exists>t. mmap_step e s = Some t \<and> used_pages t = used_pages s - entry_pages e \<and> pt_pages t = pt_pages s"
    using page_loop_free [of "entry_end e" "ucast (mm_base e)" s] Cons.prems
    by (auto simp: mmap_step_def entry_pages_def entry_end_def Let_def)
  then obtain t where t: "mmap_step e s = Some t" "used_pages t = used_pages s - entry_pages e"
    "pt_pages t = pt_pages s" by blast
  from Cons.IH [of t] Cons.prems obtain s' where "mmap_loop es t = Some s'"
    "used_pages s' = used_pages t - (\<Union>e \<in> set es. entry_pages e)" "pt_pages s' = pt_pages t" by auto
  with t show ?case by auto
qed simp

lemma modules_loop_total:
  "\<forall>md \<in> set mds. unat (snd md) \<le> 0xfffff000 \<Longrightarrow>
   \<exists>s'. modules_loop mds s = Some s' \<and>
     used_pages s' = used_pages s \<union> (\<Union>md \<in> set mds. loop_pages (fst md) (snd md)) \<and> pt_pages s' = pt_pages s"
proof (induction mds arbitrary: s)
  case (Cons md mds)
  from page_loop_mark [of "snd md" "fst md" s] Cons.prems obtain t where
    t: "page_loop pmm_mark_used (fst md) (snd md) s = Some t"
    "used_pages t = used_pages s \<union> loop_pages (fst md) (snd md)" "pt_pages t = pt_pages s" by auto
  from Cons.IH [of t] Cons.prems obtain s' where "modules_loop mds t = Some s'"
    "used_pages s' = used_pages t \<union> (\<Union>md \<in> set mds. loop_pages (fst md) (snd md))"
    "pt_pages s' = pt_pages t" by auto
  with t show ?case by auto
qed simp

definition boot_ok :: "boot_info \<Rightarrow> bool" where
  "boot_ok bi \<longleftrightarrow> list_all (\<lambda>e. unat (entry_end e) \<le> 0xfffff000) (bi_mmap bi) \<and>
     unat (kernel_end bi) \<le> 0xfffff000 \<and> unat (paging_end bi) \<le> 0xfffff000 \<and>
     list_all (\<lambda>md. unat (snd md) \<le> 0xfffff000) (bi_modules bi)"

definition reserved_pages :: "boot_info \<Rightarrow> nat set" where
  "reserved_pages bi = loop_pages (kernel_start bi) (kernel_end bi) \<union>
     (\<Union>md \<in> set (bi_modules bi). loop_pages (fst md) (snd md)) \<union>
     {page_no (bi_addr bi), page_no (bi_mods_addr bi), page_no NULL}"

lemma bitmap_test_const [simp]: "bitmap_test (\<lambda>_. 0) b" "\<not> bitmap_test (\<lambda>_. 0xffffffff) b"
proof -
  show "bitmap_test (\<lambda>_. 0) b" by (simp add: bitmap_test_def)
  have "bit (0xffffffff :: u32) (31 - n)" for n
  proof -
    have "(0xffffffff :: u32) = mask 32" by (simp add: mask_eq_exp_minus_1)
    then show ?thesis by (simp only: bit_mask_iff) simp
  qed
  then show "\<not> bitmap_test (\<lambda>_. 0xffffffff) b" by (simp only: bitmap_test_bit simp_thms)
qed

section \<open>Properties\<close>

lemma pmm_scan_if:
  "if (\<exists>i. eligible w s i)
   then \<exists>p s'. pmm_scan w 0 s = Some (p, s') \<and> page_no p = (LEAST i. eligible w s i) \<and>
     eligible w s (page_no p) \<and> p = of_nat (page_no p) * 0x1000 \<and>
     used_pages s' = insert (page_no p) (used_pages s) \<and> pt_pages s' = pt_pages s
   else pmm_scan w 0 s = None"
proof (cases "pmm_scan w 0 s")
  case None
  then show ?thesis using pmm_scan_None [OF None] by auto
next
  case (Some r)
  obtain p s' where r: "r = (p, s')" by (cases r)
  note a = pmm_scan_abs [OF Some [unfolded r]]
  have "(LEAST i. eligible w s i) = page_no p"
  proof (rule Least_equality)
    show "eligible w s (page_no p)" by (rule a(1))
    show "page_no p \<le> y" if "eligible w s y" for y using a(7) [of y] that by (metis not_less)
  qed
  moreover have "\<exists>i. eligible w s i" using a(1) by (rule exI)
  ultimately show ?thesis using a(1-4) Some r by simp
qed

lemma pmm_scan_least:
  assumes "eligible w s i" "\<And>j. eligible w s j \<Longrightarrow> i \<le> j"
  obtains p t where "pmm_scan w 0 s = Some (p, t)" "page_no p = i"
    "used_pages t = insert i (used_pages s)" "pt_pages t = pt_pages s"
proof -
  have "(LEAST i. eligible w s i) = i" using assms by (rule Least_equality)
  moreover have "\<exists>i. eligible w s i" using assms(1) by blast
  ultimately show ?thesis using pmm_scan_if [of w s] that by auto
qed

text \<open>
  C2. Both page allocators are first fit and total. If the pool has a free page,
  \<open>pmm_alloc\<close> (ordinary pages) and \<open>pmm_alloc_pagetable\<close> (pages of the paging area) return
  the page-aligned address of the lowest one, mark exactly that page used and change no
  other page; if it has none, the kernel panics, and returns \<open>NULL\<close> with the state unchanged
  when the operator continues.
\<close>

theorem pmm_alloc_first_fit:
  "(if (\<exists>i. eligible False s i)
    then \<exists>p s'. pmm_alloc k s = Inr (p, s') \<and> page_no p = (LEAST i. eligible False s i) \<and>
      eligible False s (page_no p) \<and> p = of_nat (page_no p) * 0x1000 \<and>
      used_pages s' = insert (page_no p) (used_pages s) \<and> pt_pages s' = pt_pages s
    else pmm_alloc k s = (case k of KeyH \<Rightarrow> Inl Halted | KeyX \<Rightarrow> Inr (NULL, s))) \<and>
   (if (\<exists>i. eligible True s i)
    then \<exists>p s'. pmm_alloc_pagetable k s = Inr (p, s') \<and> page_no p = (LEAST i. eligible True s i) \<and>
      eligible True s (page_no p) \<and> p = of_nat (page_no p) * 0x1000 \<and>
      used_pages s' = insert (page_no p) (used_pages s) \<and> pt_pages s' = pt_pages s
    else pmm_alloc_pagetable k s = (case k of KeyH \<Rightarrow> Inl Halted | KeyX \<Rightarrow> Inr (NULL, s)))"
  using pmm_scan_if [of False s] pmm_scan_if [of True s]
  by (auto simp: pmm_alloc_def pmm_alloc_pagetable_def split: if_splits panic_key.split)

text \<open>
  C1. No page is handed out twice. Start from any allocator state, run any sequence of
  requests to one of the two pools and releases of pages still owned: the next page that the
  pool hands out is not one of the pages the client still owns.
\<close>

theorem pmm_no_double_allocation:
  assumes "run_pages (pool_get w) pool_put ops ([], s) = Some (owned, t)"
    and "pool_get w t = Some (p, u)"
  shows "p \<notin> set owned"
  using assms by (cases w) (simp_all add: data_pool.get_not_owned table_pool.get_not_owned)

text \<open>A small allocator state: every page used, then pages 1 and 2 freed.\<close>

definition full_pmm :: pmm where
  "full_pmm = \<lparr>bitmap = (\<lambda>_. 0), bitmap_pagetable_mask = (\<lambda>_. 0xffffffff), free_memory = 0, used_memory = 0\<rparr>"

definition two_free_pmm :: pmm where
  "two_free_pmm = pmm_free 0x1000 (pmm_free 0x2000 full_pmm)"

lemma full_pmm_abs [simp]: "used_pages full_pmm = {i. i < NUM_PAGES}" "pt_pages full_pmm = {}"
  by (simp_all add: full_pmm_def used_pages_def pt_pages_def)

lemma two_free_abs [simp]:
  "used_pages two_free_pmm = {i. i < NUM_PAGES} - {1, 2}" "pt_pages two_free_pmm = {}"
  by (auto simp: two_free_pmm_def page_no_def)

lemma two_free_get:
  "\<exists>t. pool_get False two_free_pmm = Some (1, t) \<and> used_pages t = {i. i < NUM_PAGES} - {2} \<and> pt_pages t = {}"
proof -
  have e1: "eligible False two_free_pmm 1" by (simp add: eligible_def)
  have "1 \<le> j" if "eligible False two_free_pmm j" for j
    using that by (auto simp: eligible_def)
  with e1 obtain p t where
    "pmm_scan False 0 two_free_pmm = Some (p, t)" "page_no p = 1"
    "used_pages t = insert 1 (used_pages two_free_pmm)" "pt_pages t = pt_pages two_free_pmm"
    by (rule pmm_scan_least)
  then show ?thesis by (auto simp: pool_get_def)
qed

theorem pmm_no_double_allocation_witness:
  "\<exists>t u. run_pages (pool_get False) pool_put [Request] ([], two_free_pmm) = Some ([1], t) \<and>
     pool_get False t = Some (2, u) \<and> 2 \<notin> set [1 :: nat]"
proof -
  obtain t where t: "pool_get False two_free_pmm = Some (1, t)"
    "used_pages t = {i. i < NUM_PAGES} - {2}" "pt_pages t = {}" using two_free_get by blast
  then have run: "run_pages (pool_get False) pool_put [Request] ([], two_free_pmm) = Some ([1], t)"
    by simp
  have e2: "eligible False t 2" using t by (simp add: eligible_def)
  have "2 \<le> j" if "eligible False t j" for j using that t by (auto simp: eligible_def)
  with e2 obtain p u where "pmm_scan False 0 t = Some (p, u)" "page_no p = 2" by (rule pmm_scan_least)
  then have u: "pool_get False t = Some (2, u)" by (simp add: pool_get_def)
  show ?thesis using run u pmm_no_double_allocation [OF run u] by blast
qed



text \<open>
  C3. Boot. When every usable region, the kernel, the paging area and the modules end at or
  below \<open>0xfffff000\<close>, \<open>pmm_init\<close> returns. Afterwards the used pages are exactly the ones no
  usable region of the memory map covers, the pages of the kernel image and of the modules, those of
  the multiboot structures and page 0; the paging area is exactly the linker's.
\<close>

theorem pmm_init_boot:
  assumes "boot_ok bi"
  shows "\<exists>s'. pmm_init bi s = Some s' \<and>
    used_pages s' = ({i. i < NUM_PAGES} - (\<Union>e \<in> set (bi_mmap bi). entry_pages e)) \<union> reserved_pages bi \<and>
    pt_pages s' = loop_pages (paging_start bi) (paging_end bi)"
proof -
  let ?s0 = "s\<lparr>bitmap := (\<lambda>_. 0), bitmap_pagetable_mask := (\<lambda>_. 0xffffffff)\<rparr>"
  have s0: "used_pages ?s0 = {i. i < NUM_PAGES}" "pt_pages ?s0 = {}"
    by (simp_all add: used_pages_def pt_pages_def)
  have b: "\<forall>e \<in> set (bi_mmap bi). unat (entry_end e) \<le> 0xfffff000" "unat (kernel_end bi) \<le> 0xfffff000"
    "unat (paging_end bi) \<le> 0xfffff000" "\<forall>md \<in> set (bi_modules bi). unat (snd md) \<le> 0xfffff000"
    using assms by (simp_all add: boot_ok_def list_all_iff)
  obtain s1 where s1: "mmap_loop (bi_mmap bi) ?s0 = Some s1"
    "used_pages s1 = {i. i < NUM_PAGES} - (\<Union>e \<in> set (bi_mmap bi). entry_pages e)" "pt_pages s1 = {}"
    using mmap_loop_total [OF b(1), of ?s0] unfolding s0 by blast
  let ?s1 = "s1\<lparr>used_memory := 0\<rparr>"
  have s1': "used_pages ?s1 = used_pages s1" "pt_pages ?s1 = pt_pages s1"
    by (simp_all add: used_pages_def pt_pages_def)
  obtain s2 where s2: "page_loop pmm_mark_used (kernel_start bi) (kernel_end bi) ?s1 = Some s2"
    "used_pages s2 = used_pages s1 \<union> loop_pages (kernel_start bi) (kernel_end bi)" "pt_pages s2 = {}"
    using page_loop_mark [OF b(2), of "kernel_start bi" ?s1] unfolding s1' s1(3) by blast
  obtain s3 where s3: "page_loop mark_paging (paging_start bi) (paging_end bi) s2 = Some s3"
    "used_pages s3 = used_pages s2" "pt_pages s3 = loop_pages (paging_start bi) (paging_end bi)"
    using page_loop_paging [OF b(3), of "paging_start bi" s2] unfolding s2(3) by auto
  let ?s3 = "pmm_mark_used (bi_mods_addr bi) (pmm_mark_used (bi_addr bi) s3)"
  obtain s4 where s4: "modules_loop (bi_modules bi) ?s3 = Some s4"
    "used_pages s4 = used_pages ?s3 \<union> (\<Union>md \<in> set (bi_modules bi). loop_pages (fst md) (snd md))"
    "pt_pages s4 = pt_pages ?s3"
    using modules_loop_total [OF b(4), of ?s3] by blast
  have "pmm_init bi s = Some (pmm_mark_used NULL s4)"
    by (simp add: pmm_init_def s1(1) s2(1) s3(1) s4(1))
  moreover have "used_pages (pmm_mark_used NULL s4) =
      ({i. i < NUM_PAGES} - (\<Union>e \<in> set (bi_mmap bi). entry_pages e)) \<union> reserved_pages bi"
    by (simp only: used_pages_mark_used s4(2) s3(2) s2(2) s1(2) reserved_pages_def) blast
  moreover have "pt_pages (pmm_mark_used NULL s4) = loop_pages (paging_start bi) (paging_end bi)"
    by (simp add: s4(3) s3(3))
  ultimately show ?thesis by blast
qed

text \<open>A PC with 2 MB of usable memory at 1 MB, a kernel of one page and a paging area of one page.\<close>

definition small_boot :: boot_info where
  "small_boot = \<lparr>bi_mmap = [\<lparr>mm_base = 0x100000, mm_length = 0x200000, mm_type = 1\<rparr>],
     kernel_start = 0x100000, kernel_end = 0x101000, paging_start = 0x101000, paging_end = 0x102000,
     bi_addr = 0x9000, bi_mods_addr = 0xa000, bi_modules = []\<rparr>"

theorem pmm_init_boot_witness:
  "\<exists>s'. pmm_init small_boot full_pmm = Some s' \<and> pt_pages s' = loop_pages 0x101000 0x102000"
proof -
  have "boot_ok small_boot"
    by (simp add: boot_ok_def small_boot_def entry_end_def)
  from pmm_init_boot [OF this, of full_pmm] show ?thesis
    by (auto simp: small_boot_def)
qed

text \<open>
  Ranges. When \<open>pmm_alloc_range\<close> finds a range, its first page is a free ordinary page,
  every other page of it is free or in the paging area, and exactly the pages of the range become
  used. Giving the range back with \<open>pmm_free_range\<close> succeeds, and restores the allocator's used pages
  when the range has no page of the paging area.
\<close>

lemma pmm_alloc_range_free_range:
  assumes "pmm_range_scan count 0 s = Inr (Some (p, s'))"
  defines "R \<equiv> {page_no p..<page_no p + nat (sint count)}"
  shows "pmm_alloc_range count s = Inr (p, s') \<and> p = of_nat (page_no p) * 0x1000 \<and>
    eligible False s (page_no p) \<and> R \<inter> used_pages s \<subseteq> pt_pages s \<and>
    used_pages s' = used_pages s \<union> R \<and> pt_pages s' = pt_pages s \<and>
    (\<exists>t. pmm_free_range p count s' = Inr t \<and> used_pages t = used_pages s - R \<and> pt_pages t = pt_pages s)"
proof -
  note a = pmm_range_scan_abs [OF assms(1)]
  have le: "page_no p + nat (sint count) \<le> NUM_PAGES" by (rule range_ok_bound [OF a(1)])
  obtain t where t: "pmm_free_range p count s' = Inr t"
    using le page_no_less [of p] by (auto simp: pmm_free_range_def Let_def page_div)
  have "x \<in> pt_pages s" if "x \<in> R" "x \<in> used_pages s" for x
  proof -
    have "page_no p + (x - page_no p) = x" "x - page_no p < nat (sint count)"
      using that(1) by (auto simp: R_def)
    then show ?thesis using a(1) that(2) unfolding range_ok_def by metis
  qed
  moreover have "eligible False s (page_no p)"
    using a(1) by (simp add: range_ok_def eligible_def)
  ultimately show ?thesis
    using assms(1) a t pmm_free_range_abs [OF t] by (auto simp: pmm_alloc_range_def R_def)
qed

text \<open>
  The condition of the inner loop of \<open>pmm_alloc_range\<close> lets a used page of the paging area pass:
  a page table in use is handed out as part of a range.
\<close>

definition table_at_2_pmm :: pmm where
  "table_at_2_pmm = mark_paging 0x2000 (pmm_free 0x1000 full_pmm)"

lemma pmm_alloc_range_takes_page_table:
  "\<exists>s'. pmm_alloc_range 2 table_at_2_pmm = Inr (0x1000, s') \<and>
     2 \<in> used_pages table_at_2_pmm \<and> 2 \<in> pt_pages table_at_2_pmm"
proof -
  have t: "\<not> bitmap_test (bitmap table_at_2_pmm) 1" "bitmap_test (bitmap table_at_2_pmm) 0"
    "\<not> bitmap_test (bitmap_pagetable_mask table_at_2_pmm) 1" "bitmap_test (bitmap_pagetable_mask table_at_2_pmm) 2"
    by (simp_all add: table_at_2_pmm_def full_pmm_def pmm_free_def pmm_usage_unuse_def mark_paging_def)
  then have "range_blocked table_at_2_pmm 1 0 2 = Inr None" by (simp add: numeral_2_eq_2)
  then have "\<exists>s'. pmm_range_scan 2 1 table_at_2_pmm = Inr (Some (0x1000, s'))"
    using t by (subst pmm_range_scan.simps) simp
  moreover have "pmm_range_scan 2 0 table_at_2_pmm = pmm_range_scan 2 1 table_at_2_pmm"
    using t by (subst pmm_range_scan.simps) simp
  ultimately show ?thesis
    by (auto simp: pmm_alloc_range_def table_at_2_pmm_def page_no_def)
qed

end
