(* ===== verification/Vmm.thy ===== *)
theory Vmm
  imports Mem32 Pmm "HOL-Library.Signed_Division"
begin

text \<open>
  The virtual memory manager, \<open>mckrnl/memory/vmm.c\<close>. Page directories and page tables are
  identity-mapped pages of the paging area and are read and written as aligned 32-bit words of the
  byte memory. \<open>vm\<close> is the state the functions work on: the page allocator, the memory, the
  variable \<open>kernel_context\<close>, the \<open>active\<close> and \<open>context\<close> fields of the task table, the CPU's
  \<open>cr3\<close> and whether paging is on. The answer of the operator to a panic is an argument.
\<close>

section \<open>Definitions\<close>

record vm =
  vm_pmm :: pmm
  vm_mem :: mem
  kernel_context :: u32
  vm_tasks :: "(bool \<times> u32) list"
  cr3 :: u32
  paging_on :: bool

abbreviation PTE_PRESENT :: u32 where "PTE_PRESENT \<equiv> 0x1"
abbreviation PTE_WRITE :: u32 where "PTE_WRITE \<equiv> 0x2"
abbreviation PTE_USER :: u32 where "PTE_USER \<equiv> 0x4"

definition page_fault_get_error :: "u32 \<Rightarrow> string" where
  "page_fault_get_error err =
     (if err = 0x00 then ''Supervisory process tried to read a non-present page entry''
      else if err = 0x01 then ''Supervisory process tried to read a page and caused a protection fault''
      else if err = 0x02 then ''Supervisory process tried to write to a non-present page entry''
      else if err = 0x03 then ''Supervisory process tried to write a page and caused a protection fault''
      else if err = 0x04 then ''User process tried to read a non-present page entry''
      else if err = 0x05 then ''User process tried to read a page and caused a protection fault''
      else if err = 0x06 then ''User process tried to write to a non-present page entry''
      else if err = 0x07 then ''User process tried to write a page and caused a protection fault''
      else ''Unknown error'')"

text \<open>\<open>context->pagedir\<close> and \<open>context->pagedir[i]\<close>.\<close>

definition pagedir :: "mem \<Rightarrow> u32 \<Rightarrow> u32" where
  "pagedir m ctx = ld32 m ctx"

definition pde :: "mem \<Rightarrow> u32 \<Rightarrow> u32 \<Rightarrow> u32" where
  "pde m ctx i = ld32 m (pagedir m ctx + 4 * i)"

definition set_pde :: "mem \<Rightarrow> u32 \<Rightarrow> u32 \<Rightarrow> u32 \<Rightarrow> mem" where
  "set_pde m ctx i v = st32 m (pagedir m ctx + 4 * i) v"

text \<open>The tests \<open>e & PTE_PRESENT\<close> and the address part \<open>e & ~0xFFF\<close> of a directory or table entry.\<close>

definition table_of :: "u32 \<Rightarrow> u32" where
  "table_of e = e AND NOT 0xFFF"

definition present :: "u32 \<Rightarrow> bool" where
  "present e \<longleftrightarrow> e AND PTE_PRESENT \<noteq> 0"

definition page_aligned :: "u32 \<Rightarrow> bool" where
  "page_aligned a \<longleftrightarrow> a AND 0xFFF = 0"

definition vmm_create_context :: "panic_key \<Rightarrow> vm \<Rightarrow> (u32 \<times> vm) res" where
  "vmm_create_context k s =
     rbind (pmm_alloc_pagetable k (vm_pmm s)) (\<lambda>(ctx, p1).
     rbind (pmm_alloc_pagetable k p1) (\<lambda>(pd, p2).
       if paging_on s \<and> (ctx = NULL \<or> pd = NULL) then Inl NullDeref
       else Inr (ctx, s\<lparr>vm_pmm := p2, vm_mem := zero_words (st32 (vm_mem s) ctx pd) pd 0 1024\<rparr>)))"

text \<open>A new kernel page table is entered into the page directories of the active tasks.\<close>

primrec share_pde :: "u32 \<Rightarrow> u32 \<Rightarrow> (bool \<times> u32) list \<Rightarrow> mem \<Rightarrow> mem" where
  "share_pde ctx i [] m = m"
| "share_pde ctx i (t # ts) m =
     share_pde ctx i ts (if fst t then set_pde m (snd t) i (pde m ctx i) else m)"

text \<open>The page table for a directory slot: the present one, or a new zeroed one.\<close>

definition get_page_table :: "panic_key \<Rightarrow> u32 \<Rightarrow> u32 \<Rightarrow> u32 \<Rightarrow> vm \<Rightarrow> (u32 \<times> vm) res" where
  "get_page_table k ctx pd_index flags s =
     (if present (pde (vm_mem s) ctx pd_index)
      then Inr (table_of (pde (vm_mem s) ctx pd_index), s)
      else rbind (pmm_alloc_pagetable k (vm_pmm s)) (\<lambda>(page_table, p).
        if paging_on s \<and> page_table = NULL then Inl NullDeref
        else let m1 = zero_words (vm_mem s) page_table 0 1024;
                 m2 = set_pde m1 ctx pd_index (page_table OR PTE_PRESENT OR flags);
                 m3 = (if ctx = kernel_context s then share_pde ctx pd_index (vm_tasks s) m2 else m2)
             in Inr (page_table, s\<lparr>vm_pmm := p, vm_mem := m3\<rparr>)))"

definition vmm_map_page :: "panic_key \<Rightarrow> u32 \<Rightarrow> u32 \<Rightarrow> u32 \<Rightarrow> u32 \<Rightarrow> vm \<Rightarrow> (int \<times> vm) res" where
  "vmm_map_page k ctx virt phys flags s =
     (let page_index = virt div 0x1000;
          pd_index = page_index div 1024;
          pt_index = page_index mod 1024
      in if \<not> page_aligned virt \<or> \<not> page_aligned phys then Inr (-1, s)
         else rbind (if ctx \<noteq> kernel_context s \<and> present (pde (vm_mem s) (kernel_context s) pd_index)
                     then abortf k else Inr 0) (\<lambda>_.
              rbind (get_page_table k ctx pd_index flags s) (\<lambda>(page_table, s1).
              Inr (0, s1\<lparr>vm_mem := st32 (vm_mem s1) (page_table + 4 * pt_index) (phys OR flags)\<rparr>))))"

definition vmm_lookup :: "mem \<Rightarrow> u32 \<Rightarrow> u32 \<Rightarrow> u32" where
  "vmm_lookup m ptr ctx =
     (let page_index = ptr div 0x1000;
          pd_index = page_index div 1024;
          pt_index = page_index mod 1024
      in if present (pde m ctx pd_index) then
           (let pte = ld32 m (table_of (pde m ctx pd_index) + 4 * pt_index)
            in if present pte then table_of pte + ptr mod 0x1000 else NULL)
         else NULL)"

primrec clone_loop :: "u32 \<Rightarrow> u32 \<Rightarrow> nat \<Rightarrow> nat \<Rightarrow> mem \<Rightarrow> mem" where
  "clone_loop kctx ctx i 0 m = m"
| "clone_loop kctx ctx i (Suc n) m =
     clone_loop kctx ctx (Suc i) n
       (if present (pde m kctx (of_nat i)) then set_pde m ctx (of_nat i) (pde m kctx (of_nat i)) else m)"

definition vmm_clone_kernel_context :: "u32 \<Rightarrow> vm \<Rightarrow> vm" where
  "vmm_clone_kernel_context ctx s =
     s\<lparr>vm_mem := clone_loop (kernel_context s) ctx 0 1024 (vm_mem s)\<rparr>"

text \<open>
  \<open>vmm_destroy_context\<close>: the inner loop frees the frames of the present entries of one table
  except those the kernel maps too, the outer loop the tables that are not the kernel's.
\<close>

primrec destroy_table :: "mem \<Rightarrow> u32 \<Rightarrow> u32 \<Rightarrow> nat \<Rightarrow> nat \<Rightarrow> pmm \<Rightarrow> pmm" where
  "destroy_table m kpde page_table j 0 p = p"
| "destroy_table m kpde page_table j (Suc n) p =
     (let pte = ld32 m (page_table + 4 * of_nat j)
      in destroy_table m kpde page_table (Suc j) n
           (if present pte \<and> \<not> (present kpde \<and> present (ld32 m (table_of kpde + 4 * of_nat j)))
            then pmm_free (table_of pte) p else p))"

primrec destroy_dir :: "mem \<Rightarrow> u32 \<Rightarrow> u32 \<Rightarrow> nat \<Rightarrow> nat \<Rightarrow> pmm \<Rightarrow> pmm" where
  "destroy_dir m kctx ctx i 0 p = p"
| "destroy_dir m kctx ctx i (Suc n) p =
     (let e = pde m ctx (of_nat i); kpde = pde m kctx (of_nat i)
      in destroy_dir m kctx ctx (Suc i) n
           (if present e then
              (let p1 = destroy_table m kpde (table_of e) 0 1024 p
               in if present kpde then p1 else pmm_free (table_of e) p1)
            else p))"

definition vmm_destroy_context :: "u32 \<Rightarrow> vm \<Rightarrow> vm" where
  "vmm_destroy_context ctx s =
     (let p = destroy_dir (vm_mem s) (kernel_context s) ctx 0 1024 (vm_pmm s)
      in s\<lparr>vm_pmm := pmm_free ctx (pmm_free (pagedir (vm_mem s) ctx) p)\<rparr>)"

definition vmm_activate_context :: "u32 \<Rightarrow> vm \<Rightarrow> vm" where
  "vmm_activate_context ctx s = s\<lparr>cr3 := pagedir (vm_mem s) ctx\<rparr>"

text \<open>\<open>vmm_synchronize_task_contexts_with_kernel_context\<close> has an empty body.\<close>

primrec map_range :: "panic_key \<Rightarrow> u32 \<Rightarrow> nat \<Rightarrow> nat \<Rightarrow> vm \<Rightarrow> vm res" where
  "map_range k ptr i 0 s = Inr s"
| "map_range k ptr i (Suc n) s =
     rbind (vmm_map_page k (kernel_context s) (ptr + of_nat i * 0x1000) (ptr + of_nat i * 0x1000)
              (PTE_PRESENT OR PTE_WRITE) s) (\<lambda>(_, s1). map_range k ptr (Suc i) n s1)"

definition vmm_alloc :: "panic_key \<Rightarrow> u32 \<Rightarrow> vm \<Rightarrow> (u32 \<times> vm) res" where
  "vmm_alloc k num_pages s =
     rbind (pmm_alloc_range num_pages (vm_pmm s)) (\<lambda>(ptr, p).
     rbind (map_range k ptr 0 (unat num_pages) (s\<lparr>vm_pmm := p\<rparr>)) (\<lambda>s1. Inr (ptr, s1)))"

definition vmm_calloc :: "panic_key \<Rightarrow> u32 \<Rightarrow> vm \<Rightarrow> (u32 \<times> vm) res" where
  "vmm_calloc k num_pages s =
     rbind (vmm_alloc k num_pages s) (\<lambda>(ptr, s1).
     Inr (ptr, s1\<lparr>vm_mem := fst (memset (vm_mem s1) ptr 0 (num_pages * 0x1000))\<rparr>))"

definition vmm_free :: "u32 \<Rightarrow> u32 \<Rightarrow> vm \<Rightarrow> vm res" where
  "vmm_free ptr num_pages s =
     rbind (pmm_free_range ptr num_pages (vm_pmm s)) (\<lambda>p. Inr (s\<lparr>vm_pmm := p\<rparr>))"

text \<open>
  The sizes are C \<open>int\<close>s; the division truncates towards zero. The products are assumed not to
  overflow (undefined behaviour in C) and wrap here.
\<close>

definition size_pages :: "u32 \<Rightarrow> u32 \<Rightarrow> u32" where
  "size_pages data_size n = word_of_int (sint (data_size * n) sdiv 0x1000 + 1)"

definition vmm_resize :: "panic_key \<Rightarrow> u32 \<Rightarrow> u32 \<Rightarrow> u32 \<Rightarrow> u32 \<Rightarrow> vm \<Rightarrow> (u32 \<times> vm) res" where
  "vmm_resize k data_size old_size new_size ptr s =
     (let new_size_p = size_pages data_size new_size;
          old_size_p = size_pages data_size old_size
      in if ptr = NULL then vmm_alloc k new_size_p s
         else if new_size = 0 then rbind (vmm_free ptr old_size_p s) (\<lambda>s1. Inr (NULL, s1))
         else if new_size_p \<noteq> old_size_p then
           rbind (vmm_alloc k new_size_p s) (\<lambda>(new_ptr, s1).
             let s2 = s1\<lparr>vm_mem := fst (memcpy (vm_mem s1) new_ptr ptr
                        (if sint new_size_p < sint old_size_p
                         then data_size * new_size else data_size * old_size))\<rparr>
             in rbind (vmm_free ptr old_size_p s2) (\<lambda>s3. Inr (new_ptr, s3)))
         else Inr (ptr, s))"

text \<open>
  \<open>vmm_read_context\<close>. Under paging the CPU walks the tables of \<open>cr3\<close> for every byte; a page that
  is not present raises the page fault, whose handler halts.
\<close>

definition walk :: "mem \<Rightarrow> u32 \<Rightarrow> u32 \<Rightarrow> u32 res" where
  "walk m pd va =
     (let e = ld32 m (pd + 4 * (va div 0x1000 div 1024)) in
      if present e then
        (let pte = ld32 m (table_of e + 4 * (va div 0x1000 mod 1024)) in
         if present pte then Inr (table_of pte + va mod 0x1000) else Inl Halted)
      else Inl Halted)"

primrec read_virt :: "mem \<Rightarrow> u32 \<Rightarrow> u32 \<Rightarrow> nat \<Rightarrow> u8 list res" where
  "read_virt m pd va 0 = Inr []"
| "read_virt m pd va (Suc n) =
     rbind (walk m pd va) (\<lambda>pa. rbind (read_virt m pd (va + 1) n) (\<lambda>bs. Inr (m pa # bs)))"

primrec write_virt :: "mem \<Rightarrow> u32 \<Rightarrow> u32 \<Rightarrow> u8 list \<Rightarrow> mem res" where
  "write_virt m pd va [] = Inr m"
| "write_virt m pd va (b # bs) = rbind (walk m pd va) (\<lambda>pa. write_virt (m(pa := b)) pd (va + 1) bs)"

definition vmm_read_context :: "u32 \<Rightarrow> u32 \<Rightarrow> u32 \<Rightarrow> u32 \<Rightarrow> vm \<Rightarrow> vm res" where
  "vmm_read_context ptr out sz ctx s =
     (if \<not> sz \<le> 0x1000 then Inl AssertFailed
      else let current = cr3 s; s1 = vmm_activate_context ctx s in
           rbind (read_virt (vm_mem s1) (cr3 s1) ptr (unat sz)) (\<lambda>buffer.
           let s2 = s1\<lparr>cr3 := current\<rparr> in
           rbind (write_virt (vm_mem s2) (cr3 s2) out buffer) (\<lambda>m. Inr (s2\<lparr>vm_mem := m\<rparr>))))"

text \<open>
  \<open>vmm_init\<close>, for the configuration without \<open>TEXT_MODE_EMULATION\<close>. The loops over address
  ranges may run forever when the end is close to \<open>2 ^ 32\<close>, hence the \<open>option\<close>.
\<close>

partial_function (option) vmm_range_loop ::
  "(u32 \<Rightarrow> vm \<Rightarrow> vm res) \<Rightarrow> u32 \<Rightarrow> u32 \<Rightarrow> vm \<Rightarrow> vm res option" where
  "vmm_range_loop f a e s =
     (if a < e then (case f a s of Inl x \<Rightarrow> Some (Inl x) | Inr s1 \<Rightarrow> vmm_range_loop f (a + 0x1000) e s1)
      else Some (Inr s))"

definition map_identity :: "panic_key \<Rightarrow> u32 \<Rightarrow> u32 \<Rightarrow> vm \<Rightarrow> vm res" where
  "map_identity k flags a s = rbind (vmm_map_page k (kernel_context s) a a flags s) (\<lambda>(_, s1). Inr s1)"

definition vmm_identity_map :: "panic_key \<Rightarrow> u32 \<Rightarrow> u32 \<Rightarrow> vm \<Rightarrow> vm res option" where
  "vmm_identity_map k start e s = vmm_range_loop (map_identity k (PTE_PRESENT OR PTE_WRITE)) start e s"

primrec map_modules :: "panic_key \<Rightarrow> (u32 \<times> u32) list \<Rightarrow> vm \<Rightarrow> vm res option" where
  "map_modules k [] s = Some (Inr s)"
| "map_modules k (md # mds) s =
     lbind (vmm_range_loop (map_identity k PTE_PRESENT) (fst md) (snd md) s) (map_modules k mds)"

definition vmm_init :: "panic_key \<Rightarrow> boot_info \<Rightarrow> vm \<Rightarrow> vm res option" where
  "vmm_init k bi s =
     lbind (Some (rbind (vmm_create_context k s) (\<lambda>(kc, s1). Inr (s1\<lparr>kernel_context := kc\<rparr>)))) (\<lambda>s1.
     lbind (vmm_identity_map k (kernel_start bi) (kernel_end bi) s1) (\<lambda>s2.
     lbind (vmm_identity_map k (paging_start bi) (paging_end bi) s2) (\<lambda>s3.
     lbind (vmm_range_loop (\<lambda>a t. rbind (map_identity k (PTE_PRESENT OR PTE_WRITE) a t)
                (\<lambda>u. Inr (u\<lparr>vm_pmm := pmm_mark_used a (vm_pmm u)\<rparr>))) 0xb8000 (0xb8000 + 80 * 25 * 2) s3) (\<lambda>s4.
     lbind (Some (map_identity k PTE_PRESENT (bi_addr bi) s4)) (\<lambda>s5.
     lbind (Some (map_identity k PTE_PRESENT (bi_mods_addr bi) s5)) (\<lambda>s6.
     lbind (map_modules k (bi_modules bi) s6) (\<lambda>s7.
     lbind (Some (map_identity k 0 NULL s7)) (\<lambda>s8.
     Some (Inr ((vmm_activate_context (kernel_context s8) s8)\<lparr>paging_on := True\<rparr>))))))))))"

section \<open>Words on pages\<close>

lemma page_aligned_unat: "page_aligned a \<longleftrightarrow> unat a mod 4096 = 0"
proof -
  have "a AND 0xFFF = take_bit 12 a" using take_bit_eq_mask [of 12 a] by (simp add: mask_eq_exp_minus_1)
  then show ?thesis
    by (simp add: page_aligned_def word_unat_eq_iff take_bit_eq_mod unat_mod)
qed

lemma page_alignedE:
  assumes "page_aligned t"
  obtains q where "unat t = 4096 * q" "q < 1048576"
proof -
  obtain q where q: "unat t = 4096 * q"
    using assms unfolding page_aligned_unat by (metis dvdE mod_0_imp_dvd)
  moreover have "unat t < 2 ^ 32" using unsigned_less [of t, where 'a = nat] by simp
  ultimately show ?thesis using that [of q] by simp
qed

lemma unat_slot:
  assumes "page_aligned t" "i < 1024"
  shows "unat (t + 4 * i) = unat t + 4 * unat i"
proof -
  obtain q where "unat t = 4096 * q" "q < 1048576" using assms(1) by (rule page_alignedE)
  moreover have i: "unat i < 1024" using assms(2) by (simp add: word_less_nat_alt)
  ultimately have "unat t + 4 * unat i < 2 ^ 32" by simp
  then show ?thesis using i by (simp add: unat_word_ariths)
qed

lemma slot_aligned4: "page_aligned t \<Longrightarrow> i < 1024 \<Longrightarrow> aligned4 (t + 4 * i)"
  unfolding aligned4_unat by (erule page_alignedE) (simp add: unat_slot page_aligned_unat)

lemma page_aligned_aligned4: "page_aligned t \<Longrightarrow> aligned4 t"
  using slot_aligned4 [of t 0] by simp

lemma slot_eq_iff:
  assumes "page_aligned t" "page_aligned u" "i < 1024" "j < 1024"
  shows "t + 4 * i = u + 4 * j \<longleftrightarrow> t = u \<and> i = j"
proof
  assume "t + 4 * i = u + 4 * j"
  then have e: "unat t + 4 * unat i = unat u + 4 * unat j"
    using assms unat_slot [of t i] unat_slot [of u j] by simp
  have "unat i < 1024" "unat j < 1024" using assms by (simp_all add: word_less_nat_alt)
  moreover obtain q r where qr: "unat t = 4096 * q" "unat u = 4096 * r"
    using assms(1,2) by (meson page_alignedE)
  ultimately have "q = r" using e by (cases q r rule: linorder_cases) simp_all
  then have "unat t = unat u" using qr by simp
  with e show "t = u \<and> i = j" by (simp add: word_unat_eq_iff)
qed simp

lemma ld32_st32_slot:
  "page_aligned t \<Longrightarrow> page_aligned u \<Longrightarrow> i < 1024 \<Longrightarrow> j < 1024 \<Longrightarrow>
   ld32 (st32 m (t + 4 * i) v) (u + 4 * j) = (if u = t \<and> j = i then v else ld32 m (u + 4 * j))"
  by (auto simp: ld32_st32 slot_aligned4 slot_eq_iff)

lemma ld32_st32_page:
  "page_aligned t \<Longrightarrow> page_aligned u \<Longrightarrow> i < 1024 \<Longrightarrow> u \<noteq> t \<Longrightarrow> ld32 (st32 m (t + 4 * i) v) u = ld32 m u"
  using ld32_st32_slot [of t u i 0 m v] by simp

lemma zero_words_slot:
  "page_aligned t \<Longrightarrow> page_aligned u \<Longrightarrow> j < 1024 \<Longrightarrow> i + n \<le> 1024 \<Longrightarrow>
   ld32 (zero_words m t i n) (u + 4 * j) =
     (if u = t \<and> i \<le> unat j \<and> unat j < i + n then 0 else ld32 m (u + 4 * j))"
proof (induction n arbitrary: m i)
  case (Suc n)
  have i: "(of_nat i :: u32) < 1024" "unat (of_nat i :: u32) = i"
    using Suc.prems(4) by (simp_all add: word_less_nat_alt)
  have "j = of_nat i \<longleftrightarrow> unat j = i" using i(2) by (metis word_unat_eq_iff)
  with Suc i(1) show ?case by (auto simp: ld32_st32_slot)
qed auto

lemma zero_table:
  assumes "page_aligned t" "page_aligned u" "j < 1024"
  shows "ld32 (zero_words m t 0 1024) (u + 4 * j) = (if u = t then 0 else ld32 m (u + 4 * j))"
  using zero_words_slot [OF assms, of 0 1024 m] assms(3) by (simp add: word_less_nat_alt)

lemma mask_aligned: "page_aligned t \<Longrightarrow> t AND NOT 0xFFF = t"
proof -
  assume "page_aligned t"
  then have "t AND 0xFFF = 0" by (simp only: page_aligned_def)
  moreover have "t = (t AND 0xFFF) OR (t AND NOT 0xFFF)"
    by (rule bit_word_eqI) (auto simp only: bit_or_iff bit_and_iff bit_not_iff possible_bit_word)
  ultimately show ?thesis by (simp only: or.left_neutral)
qed

lemma table_of_aligned [simp]: "page_aligned (table_of e)"
proof -
  have "table_of e AND 0xFFF = 0"
    unfolding table_of_def by (simp only: and.assoc bit.conj_cancel_left and_zero_eq)
  then show ?thesis by (simp only: page_aligned_def)
qed

text \<open>Flags of an entry: bits below the page address.\<close>

definition flag_bits :: "u32 \<Rightarrow> bool" where
  "flag_bits f \<longleftrightarrow> f AND NOT 0xFFF = 0"

lemma table_of_entry: "page_aligned t \<Longrightarrow> flag_bits f \<Longrightarrow> table_of (t OR f) = t"
  unfolding table_of_def flag_bits_def by (simp only: bit.conj_disj_distrib2 mask_aligned or.right_neutral)

lemma flag_bits_or: "flag_bits f \<Longrightarrow> flag_bits g \<Longrightarrow> flag_bits (f OR g)"
  unfolding flag_bits_def by (simp only: bit.conj_disj_distrib2 or.right_neutral)

lemma flag_bits_present [simp]: "flag_bits PTE_PRESENT"
  by (simp add: flag_bits_def)

lemma present_or: "present (a OR b) \<longleftrightarrow> present a \<or> present b"
proof -
  have b: "x AND 1 \<noteq> 0 \<longleftrightarrow> bit x 0" for x :: u32
    using and_exp_eq_0_iff_not_bit [of x 0] by simp
  show ?thesis unfolding present_def b by (simp add: bit_or_iff)
qed

lemma present_1 [simp]: "present 1"
  by (simp add: present_def)

section \<open>Address spaces\<close>

text \<open>
  The contexts of the system are the kernel's and those of the active tasks. Each has a page for
  the \<open>vmm_context\<close> structure and one for its directory; no two contexts share them. A page table
  belongs to one directory slot, in one context or, for the kernel's tables, in all of them.
\<close>

definition contexts :: "vm \<Rightarrow> u32 set" where
  "contexts s = insert (kernel_context s) {c. (True, c) \<in> set (vm_tasks s)}"

definition private_pages :: "mem \<Rightarrow> u32 set \<Rightarrow> bool" where
  "private_pages m C \<longleftrightarrow> (\<forall>c \<in> C. page_aligned c \<and> page_aligned (pagedir m c)) \<and>
     (\<forall>c \<in> C. \<forall>d \<in> C. c \<noteq> pagedir m d \<and> (pagedir m c = pagedir m d \<longrightarrow> c = d))"

definition used_page :: "pmm \<Rightarrow> u32 \<Rightarrow> bool" where
  "used_page p a \<longleftrightarrow> page_no a \<in> used_pages p"

definition tables_ok :: "mem \<Rightarrow> pmm \<Rightarrow> u32 \<Rightarrow> u32 set \<Rightarrow> bool" where
  "tables_ok m p kc C \<longleftrightarrow>
     (\<forall>c \<in> C. used_page p c \<and> used_page p (pagedir m c)) \<and>
     (\<forall>c \<in> C. \<forall>i < 1024. present (pde m c i) \<longrightarrow> used_page p (table_of (pde m c i)) \<and>
        table_of (pde m c i) \<notin> C \<union> pagedir m ` C) \<and>
     (\<forall>c \<in> C. \<forall>d \<in> C. \<forall>i < 1024. \<forall>j < 1024. present (pde m c i) \<and> present (pde m d j) \<and>
        table_of (pde m c i) = table_of (pde m d j) \<longrightarrow> i = j \<and> (c = d \<or> present (pde m kc i))) \<and>
     (\<forall>c \<in> C. \<forall>i < 1024. present (pde m kc i) \<longrightarrow> pde m c i = pde m kc i)"

definition vm_wf :: "vm \<Rightarrow> bool" where
  "vm_wf s \<longleftrightarrow> private_pages (vm_mem s) (contexts s) \<and>
     tables_ok (vm_mem s) (vm_pmm s) (kernel_context s) (contexts s)"

text \<open>The table entry for directory slot \<open>i\<close> and table slot \<open>j\<close>, 0 where there is no table.\<close>

definition aspace :: "mem \<Rightarrow> u32 \<Rightarrow> u32 \<Rightarrow> u32 \<Rightarrow> u32" where
  "aspace m c i j = (if present (pde m c i) then ld32 m (table_of (pde m c i) + 4 * j) else 0)"

lemma vmm_lookup_aspace:
  "vmm_lookup m ptr c = (let e = aspace m c (ptr div 0x1000 div 1024) (ptr div 0x1000 mod 1024)
     in if present e then table_of e + ptr mod 0x1000 else NULL)"
  by (simp add: vmm_lookup_def aspace_def Let_def present_def)

lemma pd_index_less: "(a :: u32) div 0x1000 div 1024 < 1024"
proof -
  have "unat a < 2 ^ 32" using unsigned_less [of a, where 'a = nat] by simp
  then have "unat a div 4096 div 1024 < 1024" by (simp add: div_mult2_eq [symmetric] less_mult_imp_div_less)
  then show ?thesis by (simp add: word_less_nat_alt unat_div)
qed

lemma pt_index_less: "(a :: u32) mod 1024 < 1024"
  by (simp add: word_less_nat_alt unat_mod)

text \<open>A write into one directory.\<close>

lemma set_pde_view:
  assumes "private_pages m C" "d \<in> C" "i < 1024"
  shows "c \<in> C \<Longrightarrow> pagedir (set_pde m d i v) c = pagedir m c"
    and "c \<in> C \<Longrightarrow> j < 1024 \<Longrightarrow> pde (set_pde m d i v) c j = (if c = d \<and> j = i then v else pde m c j)"
    and "page_aligned t \<Longrightarrow> t \<notin> pagedir m ` C \<Longrightarrow> j < 1024 \<Longrightarrow>
      ld32 (set_pde m d i v) (t + 4 * j) = ld32 m (t + 4 * j)"
proof -
  have al: "page_aligned (pagedir m d)" using assms by (simp add: private_pages_def)
  have pd: "pagedir (set_pde m d i v) c = pagedir m c" if "c \<in> C" for c
  proof -
    have "page_aligned c" "c \<noteq> pagedir m d" using assms that unfolding private_pages_def by blast+
    then show ?thesis unfolding set_pde_def
      using al assms(3) by (simp add: pagedir_def [of "st32 _ _ _"] ld32_st32_page) (simp add: pagedir_def)
  qed
  then show "c \<in> C \<Longrightarrow> pagedir (set_pde m d i v) c = pagedir m c" .
  show "pde (set_pde m d i v) c j = (if c = d \<and> j = i then v else pde m c j)" if "c \<in> C" "j < 1024"
  proof -
    have "page_aligned (pagedir m c)" "pagedir m c = pagedir m d \<longleftrightarrow> c = d"
      using assms that unfolding private_pages_def by blast+
    then show ?thesis unfolding pde_def [of "set_pde m d i v"] pd [OF that(1)]
      using al assms(3) that(2) by (simp add: set_pde_def ld32_st32_slot) (simp add: pde_def)
  qed
  show "ld32 (set_pde m d i v) (t + 4 * j) = ld32 m (t + 4 * j)"
    if "page_aligned t" "t \<notin> pagedir m ` C" "j < 1024"
    using that al assms(2,3) by (auto simp: set_pde_def ld32_st32_slot)
qed

lemma private_pages_cong:
  "(\<And>c. c \<in> C \<Longrightarrow> pagedir m' c = pagedir m c) \<Longrightarrow> private_pages m' C \<longleftrightarrow> private_pages m C"
  by (simp add: private_pages_def)

lemma share_pde_view:
  assumes "private_pages m C" "\<forall>t \<in> set ts. fst t \<longrightarrow> snd t \<in> C" "k \<in> C" "i < 1024"
  shows "(\<forall>c \<in> C. pagedir (share_pde k i ts m) c = pagedir m c) \<and>
    (\<forall>c \<in> C. \<forall>j < 1024. pde (share_pde k i ts m) c j =
       (if (True, c) \<in> set ts \<and> j = i then pde m k i else pde m c j)) \<and>
    (\<forall>t j. page_aligned t \<longrightarrow> t \<notin> pagedir m ` C \<longrightarrow> j < 1024 \<longrightarrow>
       ld32 (share_pde k i ts m) (t + 4 * j) = ld32 m (t + 4 * j))"
  using assms
proof (induction ts arbitrary: m)
  case (Cons t ts)
  define m1 where "m1 = (if fst t then set_pde m (snd t) i (pde m k i) else m)"
  have v: "\<And>c. c \<in> C \<Longrightarrow> pagedir m1 c = pagedir m c"
    "\<And>c j. c \<in> C \<Longrightarrow> j < 1024 \<Longrightarrow> pde m1 c j = (if t = (True, c) \<and> j = i then pde m k i else pde m c j)"
    "\<And>u j. page_aligned u \<Longrightarrow> u \<notin> pagedir m ` C \<Longrightarrow> j < 1024 \<Longrightarrow> ld32 m1 (u + 4 * j) = ld32 m (u + 4 * j)"
    using set_pde_view [OF Cons.prems(1), of "snd t" i] Cons.prems(2,4)
    by (auto simp: m1_def prod_eq_iff)
  have pr: "private_pages m1 C" using Cons.prems(1) private_pages_cong [of C m1 m, OF v(1)] by blast
  have im: "pagedir m1 ` C = pagedir m ` C" using v(1) by (rule image_cong [OF refl])
  have "pde m1 k i = pde m k i" using v(2) [OF Cons.prems(3,4)] by simp
  with Cons.IH [OF pr] Cons.prems(2-4) v im show ?case
    by (simp only: share_pde.simps m1_def [symmetric]) auto
qed simp

text \<open>A write into a page that is neither a context nor a directory, and a zeroed page.\<close>

lemma st32_table_view:
  assumes "private_pages m C" "page_aligned t" "t \<notin> C \<union> pagedir m ` C" "j < 1024" "c \<in> C"
  shows "pagedir (st32 m (t + 4 * j) v) c = pagedir m c"
    and "i < 1024 \<Longrightarrow> pde (st32 m (t + 4 * j) v) c i = pde m c i"
proof -
  have "page_aligned c" "page_aligned (pagedir m c)" "t \<noteq> c" "t \<noteq> pagedir m c"
    using assms unfolding private_pages_def by auto
  then show pd: "pagedir (st32 m (t + 4 * j) v) c = pagedir m c"
    using assms(2,4) by (simp add: pagedir_def [of "st32 _ _ _"] ld32_st32_page) (simp add: pagedir_def)
  show "pde (st32 m (t + 4 * j) v) c i = pde m c i" if "i < 1024"
    unfolding pde_def pd using that assms(2,4) \<open>page_aligned (pagedir m c)\<close> \<open>t \<noteq> pagedir m c\<close>
    by (simp add: ld32_st32_slot)
qed

lemma zero_table_view:
  assumes "private_pages m C" "page_aligned t" "t \<notin> C \<union> pagedir m ` C" "c \<in> C"
  shows "pagedir (zero_words m t 0 1024) c = pagedir m c"
    and "i < 1024 \<Longrightarrow> pde (zero_words m t 0 1024) c i = pde m c i"
proof -
  have al: "page_aligned c" "page_aligned (pagedir m c)" "t \<noteq> c" "t \<noteq> pagedir m c"
    using assms unfolding private_pages_def by auto
  then show pd: "pagedir (zero_words m t 0 1024) c = pagedir m c"
    using zero_table [OF assms(2) al(1), of 0 m] by (simp add: pagedir_def)
  show "pde (zero_words m t 0 1024) c i = pde m c i" if "i < 1024"
    unfolding pde_def pd using zero_table [OF assms(2) al(2) that, of m] al(4) by simp
qed

lemma pmm_alloc_pagetable_fresh:
  assumes "pmm_alloc_pagetable k p = Inr (t, p')" "t \<noteq> NULL"
  shows "page_aligned t" "\<not> used_page p t" "used_page p' a \<longleftrightarrow> page_no a = page_no t \<or> used_page p a"
proof -
  have "pmm_scan True 0 p = Some (t, p')"
    using assms by (cases k) (auto simp: pmm_alloc_pagetable_def split: option.splits)
  note a = pmm_scan_abs [OF this]
  have "unat t = page_no t * 4096" using a(4) unat_page_addr [OF page_no_less, of t] by simp
  then show "page_aligned t" by (simp add: page_aligned_unat)
  show "\<not> used_page p t" using a(1) by (simp add: used_page_def eligible_def)
  show "used_page p' a \<longleftrightarrow> page_no a = page_no t \<or> used_page p a" by (simp add: used_page_def a(2))
qed

lemma pmm_alloc_pagetable_used:
  assumes "pmm_alloc_pagetable k p = Inr (t, p')" "t \<noteq> NULL"
  shows "used_pages p' = insert (page_no t) (used_pages p)"
proof -
  have "pmm_scan True 0 p = Some (t, p')"
    using assms by (cases k) (auto simp: pmm_alloc_pagetable_def split: option.splits)
  then show ?thesis by (rule pmm_scan_abs(2))
qed

lemma tables_okD:
  assumes "tables_ok m p kc C" "c \<in> C"
  shows "used_page p c" "used_page p (pagedir m c)"
    and "i < 1024 \<Longrightarrow> present (pde m c i) \<Longrightarrow> used_page p (table_of (pde m c i))"
    and "i < 1024 \<Longrightarrow> present (pde m c i) \<Longrightarrow> table_of (pde m c i) \<notin> C \<union> pagedir m ` C"
    and "d \<in> C \<Longrightarrow> i < 1024 \<Longrightarrow> j < 1024 \<Longrightarrow> present (pde m c i) \<Longrightarrow> present (pde m d j) \<Longrightarrow>
      table_of (pde m c i) = table_of (pde m d j) \<Longrightarrow> i = j \<and> (c = d \<or> present (pde m kc i))"
    and "i < 1024 \<Longrightarrow> present (pde m kc i) \<Longrightarrow> pde m c i = pde m kc i"
  using assms unfolding tables_ok_def by blast+

text \<open>
  When a mapping may be entered into directory slot \<open>i\<close> of \<open>ctx\<close>: for a task, the kernel must have no
  table there (the code panics otherwise); for the kernel, a new table must not replace a task's own.
\<close>

definition slot_ok :: "vm \<Rightarrow> u32 \<Rightarrow> u32 \<Rightarrow> bool" where
  "slot_ok s ctx i \<longleftrightarrow>
     (if ctx = kernel_context s
      then present (pde (vm_mem s) ctx i) \<or> (\<forall>c \<in> contexts s. \<not> present (pde (vm_mem s) c i))
      else \<not> present (pde (vm_mem s) (kernel_context s) i))"

text \<open>The new directory entries: all other words that matter stay, and no address space changes.\<close>

lemma new_table_view:
  assumes pr: "private_pages m C" and ok: "tables_ok m p kc C" and al: "page_aligned t"
    and fresh: "\<not> used_page p t" and used: "\<And>a. used_page p' a \<longleftrightarrow> page_no a = page_no t \<or> used_page p a"
    and D: "D \<subseteq> C" "D \<noteq> {}" "kc \<in> C" "kc \<in> D \<Longrightarrow> D = C" "kc \<notin> D \<Longrightarrow> \<exists>c. D = {c}"
    and i: "i < 1024" "\<forall>c \<in> D. \<not> present (pde m c i)" "\<not> present (pde m kc i)"
    and e: "present e" "table_of e = t"
    and pd: "\<And>c. c \<in> C \<Longrightarrow> pagedir m' c = pagedir m c"
    and pde': "\<And>c j. c \<in> C \<Longrightarrow> j < 1024 \<Longrightarrow> pde m' c j = (if c \<in> D \<and> j = i then e else pde m c j)"
    and words: "\<And>u j. page_aligned u \<Longrightarrow> u \<notin> pagedir m ` C \<Longrightarrow> j < 1024 \<Longrightarrow>
      ld32 m' (u + 4 * j) = (if u = t then 0 else ld32 m (u + 4 * j))"
  shows "private_pages m' C \<and> tables_ok m' p' kc C \<and>
    (\<forall>c \<in> C. \<forall>a < 1024. \<forall>b < 1024. aspace m' c a b = aspace m c a b)"
proof (intro conjI)
  note okD = tables_okD [OF ok]
  have tC: "t \<notin> C \<union> pagedir m ` C" using okD(1,2) fresh by blast
  have ne: "table_of (pde m c j) \<noteq> t" if "c \<in> C" "j < 1024" "present (pde m c j)" for c j
    using okD(3) [OF that] fresh by auto
  have at_t: "table_of (pde m' c j) = t \<longleftrightarrow> c \<in> D \<and> j = i"
    if "c \<in> C" "j < 1024" "present (pde m' c j)" for c j
    using ne [OF that(1,2)] that(3) e(2) unfolding pde' [OF that(1,2)] by (auto split: if_splits)
  have im: "pagedir m' ` C = pagedir m ` C" using pd by (rule image_cong [OF refl])
  show "private_pages m' C" using pr private_pages_cong [of C m' m, OF pd] by blast
  show "\<forall>c \<in> C. \<forall>a < 1024. \<forall>b < 1024. aspace m' c a b = aspace m c a b"
  proof (intro ballI allI impI)
    fix c a b assume c: "c \<in> C" "a < (1024 :: u32)" "b < (1024 :: u32)"
    show "aspace m' c a b = aspace m c a b"
    proof (cases "c \<in> D \<and> a = i")
      case True
      then show ?thesis using pde' [OF c(1,2)] e i(2) al tC words [of t b] c(3) by (simp add: aspace_def)
    next
      case False
      then have "pde m' c a = pde m c a" using pde' [OF c(1,2)] by auto
      moreover have "ld32 m' (table_of (pde m c a) + 4 * b) = ld32 m (table_of (pde m c a) + 4 * b)"
        if "present (pde m c a)"
        using words [of "table_of (pde m c a)" b] okD(4) [OF c(1,2) that] ne [OF c(1,2) that] c(3) by simp
      ultimately show ?thesis by (simp add: aspace_def)
    qed
  qed
  have "used_page p' c \<and> used_page p' (pagedir m' c)" if "c \<in> C" for c
    using that okD(1,2) by (simp add: used pd)
  moreover have "used_page p' (table_of (pde m' c j)) \<and> table_of (pde m' c j) \<notin> C \<union> pagedir m' ` C"
    if "c \<in> C" "j < 1024" "present (pde m' c j)" for c j
  proof (cases "c \<in> D \<and> j = i")
    case True
    then show ?thesis using pde' [OF that(1,2)] e(2) tC by (auto simp: used im)
  next
    case False
    then show ?thesis using pde' [OF that(1,2)] that okD(3,4) [OF that(1,2)] by (auto simp: used im)
  qed
  moreover have "a = b \<and> (c = d \<or> present (pde m' kc a))"
    if "c \<in> C" "d \<in> C" "a < 1024" "b < 1024" "present (pde m' c a)" "present (pde m' d b)"
      "table_of (pde m' c a) = table_of (pde m' d b)" for c d a b
  proof (cases "c \<in> D \<and> a = i")
    case True
    then have "d \<in> D \<and> b = i" using that(7) at_t [OF that(1,3,5)] at_t [OF that(2,4,6)] by (simp only:)
    then show ?thesis using True pde' [OF D(3) i(1)] D(4,5) e(1) by (cases "kc \<in> D") auto
  next
    case False
    then have nd: "\<not> (d \<in> D \<and> b = i)"
      using that(7) at_t [OF that(1,3,5)] at_t [OF that(2,4,6)] by metis
    have eqs: "pde m' c a = pde m c a" "pde m' d b = pde m d b"
      unfolding pde' [OF that(1,3)] pde' [OF that(2,4)] using False nd by (simp_all only: if_False)
    have "a = b \<and> (c = d \<or> present (pde m kc a))"
      by (rule okD(5) [OF that(1,2,3,4)]) (use that(5-7) in \<open>simp_all only: eqs\<close>)
    then show ?thesis using pde' [OF D(3) that(3)] e(1) by auto
  qed
  moreover have "pde m' c j = pde m' kc j" if "c \<in> C" "j < 1024" "present (pde m' kc j)" for c j
  proof (cases "kc \<in> D \<and> j = i")
    case True
    then show ?thesis using D(4) that(1) i(1) by (simp add: pde' D(3))
  next
    case False
    then have kcj: "pde m' kc j = pde m kc j" using pde' [OF D(3) that(2)] by auto
    then have pr: "present (pde m kc j)" using that(3) by (simp only:)
    then have "j \<noteq> i" using i(3) by auto
    then show ?thesis using pde' [OF that(1,2)] okD(6) [OF that(1,2) pr] kcj by simp
  qed
  ultimately show "tables_ok m' p' kc C" unfolding tables_ok_def by blast
qed

lemma contexts_update [simp]:
  "contexts (s\<lparr>vm_mem := m\<rparr>) = contexts s" "contexts (s\<lparr>vm_pmm := p\<rparr>) = contexts s"
  by (simp_all add: contexts_def)

lemma get_page_table_view:
  assumes wf: "vm_wf s" and ctx: "ctx \<in> contexts s" and i: "i < 1024" and ok: "slot_ok s ctx i"
    and f: "flag_bits flags" and pg: "paging_on s"
    and get: "get_page_table k ctx i flags s = Inr (t, s1)"
  shows "vm_wf s1 \<and> contexts s1 = contexts s \<and> kernel_context s1 = kernel_context s \<and>
    present (pde (vm_mem s1) ctx i) \<and> t = table_of (pde (vm_mem s1) ctx i) \<and>
    (ctx \<noteq> kernel_context s \<longrightarrow> \<not> present (pde (vm_mem s1) (kernel_context s) i)) \<and>
    (\<forall>c \<in> contexts s. \<forall>a < 1024. \<forall>b < 1024. aspace (vm_mem s1) c a b = aspace (vm_mem s) c a b)"
proof (cases "present (pde (vm_mem s) ctx i)")
  case True
  with get wf ok show ?thesis by (auto simp: get_page_table_def slot_ok_def)
next
  case False
  let ?m = "vm_mem s" and ?C = "contexts s" and ?kc = "kernel_context s"
  define m1 where "m1 = zero_words ?m t 0 1024"
  define e where "e = t OR PTE_PRESENT OR flags"
  define m2 where "m2 = set_pde m1 ctx i e"
  define m3 where "m3 = (if ctx = ?kc then share_pde ctx i (vm_tasks s) m2 else m2)"
  define D where "D = (if ctx = ?kc then ?C else {ctx})"
  obtain p where alloc: "pmm_alloc_pagetable k (vm_pmm s) = Inr (t, p)" and t0: "t \<noteq> NULL"
    and s1: "s1 = s\<lparr>vm_pmm := p, vm_mem := m3\<rparr>"
    using get False pg
    by (auto simp: get_page_table_def rbind_eq_Inr Let_def m1_def m2_def m3_def e_def split: if_splits)
  note fr = pmm_alloc_pagetable_fresh [OF alloc t0]
  have pr: "private_pages ?m ?C" and tok: "tables_ok ?m (vm_pmm s) ?kc ?C" using wf by (simp_all add: vm_wf_def)
  have kc: "?kc \<in> ?C" by (simp add: contexts_def)
  have tC: "t \<notin> ?C \<union> pagedir ?m ` ?C" using tables_okD(1,2) [OF tok] fr(2) by blast
  note z = zero_table_view [OF pr fr(1) tC, folded m1_def]
  have pr1: "private_pages m1 ?C" using pr private_pages_cong [of ?C m1 ?m, OF z(1)] by blast
  note v2 = set_pde_view [OF pr1 ctx i, where v = e, folded m2_def]
  have pr2: "private_pages m2 ?C" using pr1 private_pages_cong [of ?C m2 m1, OF v2(1)] by blast
  have e: "present e" "table_of e = t"
    using table_of_entry [OF fr(1) flag_bits_or [OF flag_bits_present f]] by (simp_all add: e_def present_or)
  have "\<forall>x \<in> set (vm_tasks s). fst x \<longrightarrow> snd x \<in> ?C" by (auto simp: contexts_def)
  note v3 = share_pde_view [OF pr2 this ctx i]
  have im: "pagedir m2 ` ?C = pagedir ?m ` ?C" "pagedir m1 ` ?C = pagedir ?m ` ?C"
    using v2(1) z(1) by (auto intro!: image_cong)
  have pd: "pagedir m3 c = pagedir ?m c" if "c \<in> ?C" for c
    using v3 v2(1) [OF that] z(1) [OF that] that by (cases "ctx = ?kc") (simp_all add: m3_def)
  have "pde m2 ctx i = e" using v2(2) [OF ctx i] by simp
  then have pde3: "pde m3 c j = (if c \<in> D \<and> j = i then e else pde ?m c j)" if "c \<in> ?C" "j < 1024" for c j
    using v3 v2(2) [OF that] z(2) [OF that] that
    by (cases "ctx = ?kc") (auto simp: m3_def D_def contexts_def)
  have words: "ld32 m3 (u + 4 * j) = (if u = t then 0 else ld32 ?m (u + 4 * j))"
    if "page_aligned u" "u \<notin> pagedir ?m ` ?C" "j < 1024" for u j
    using v3 v2(3) [of u j] zero_table [OF fr(1) that(1,3), of ?m, folded m1_def] that
    by (cases "ctx = ?kc") (simp_all add: m3_def im)
  have "private_pages m3 ?C \<and> tables_ok m3 p ?kc ?C \<and>
    (\<forall>c \<in> ?C. \<forall>a < 1024. \<forall>b < 1024. aspace m3 c a b = aspace ?m c a b)"
  proof (rule new_table_view [OF pr tok fr(1,2) fr(3), where D = D and e = e and i = i])
    show "\<forall>c \<in> D. \<not> present (pde ?m c i)" using ok False by (auto simp: D_def slot_ok_def)
    show "\<not> present (pde ?m ?kc i)" using ok False by (auto simp: slot_ok_def split: if_splits)
  qed (use ctx kc i e pd pde3 words in \<open>auto simp: D_def\<close>)
  moreover have "pde m3 ctx i = e" using pde3 [OF ctx i] ctx by (auto simp: D_def split: if_splits)
  moreover have "ctx \<noteq> ?kc \<Longrightarrow> \<not> present (pde m3 ?kc i)"
    using pde3 [OF kc i] ok by (simp add: D_def slot_ok_def)
  ultimately show ?thesis using e by (simp add: s1 vm_wf_def contexts_def)
qed

lemma tables_ok_cong:
  assumes pd: "\<And>c. c \<in> C \<Longrightarrow> pagedir m' c = pagedir m c"
    and pde: "\<And>c i. c \<in> C \<Longrightarrow> i < 1024 \<Longrightarrow> pde m' c i = pde m c i"
    and ok: "tables_ok m p kc C" and kc: "kc \<in> C"
  shows "tables_ok m' p kc C"
proof -
  have im: "pagedir m' ` C = pagedir m ` C" using pd by (rule image_cong [OF refl])
  note d = tables_okD [OF ok]
  show ?thesis unfolding tables_ok_def
  proof (intro conjI ballI allI impI)
    fix c i assume c: "c \<in> C" "i < (1024 :: u32)"
    show "table_of (pde m' c i) \<notin> C \<union> pagedir m' ` C" if "present (pde m' c i)"
      using that d(4) [OF c] unfolding pde [OF c] im by blast
    show "used_page p (table_of (pde m' c i))" if "present (pde m' c i)"
      using that d(3) [OF c] unfolding pde [OF c] by blast
    show "pde m' c i = pde m' kc i" if "present (pde m' kc i)"
      using that d(6) [OF c] unfolding pde [OF c] pde [OF kc c(2)] by blast
    fix e j assume e: "e \<in> C" "j < (1024 :: u32)"
      and q: "present (pde m' c i) \<and> present (pde m' e j) \<and> table_of (pde m' c i) = table_of (pde m' e j)"
    then show "i = j" "c = e \<or> present (pde m' kc i)"
      using d(5) [OF c(1) e(1) c(2) e(2)] unfolding pde [OF c] pde [OF e] pde [OF kc c(2)] by blast+
  qed (use d(1,2) pd in auto)
qed

text \<open>The write of the entry itself.\<close>

lemma table_write_view:
  assumes wf: "vm_wf s" and ctx: "ctx \<in> contexts s" and i: "i < 1024" and j: "j < 1024"
    and t: "present (pde (vm_mem s) ctx i)" "t = table_of (pde (vm_mem s) ctx i)"
    and kern: "ctx \<noteq> kernel_context s \<longrightarrow> \<not> present (pde (vm_mem s) (kernel_context s) i)"
    and s': "s' = s\<lparr>vm_mem := st32 (vm_mem s) (t + 4 * j) v\<rparr>"
  shows "vm_wf s' \<and> (\<forall>c \<in> contexts s. \<forall>a < 1024. \<forall>b < 1024. aspace (vm_mem s') c a b =
      (if a = i \<and> b = j \<and> (c = ctx \<or> ctx = kernel_context s) then v else aspace (vm_mem s) c a b))"
proof -
  let ?m = "vm_mem s" and ?C = "contexts s" and ?kc = "kernel_context s"
  let ?m' = "st32 ?m (t + 4 * j) v"
  have pr: "private_pages ?m ?C" and tok: "tables_ok ?m (vm_pmm s) ?kc ?C" using wf by (simp_all add: vm_wf_def)
  have kc: "?kc \<in> ?C" by (simp add: contexts_def)
  have al: "page_aligned t" using t(2) by simp
  have "t \<notin> ?C \<union> pagedir ?m ` ?C" using tables_okD(4) [OF tok ctx i t(1)] t(2) by simp
  note w = st32_table_view [OF pr al this j, where v = v]
  have "private_pages ?m' ?C" using pr private_pages_cong [of ?C ?m' ?m, OF w(1)] by blast
  moreover have "tables_ok ?m' (vm_pmm s) ?kc ?C" by (rule tables_ok_cong [OF w tok kc])
  moreover have "aspace ?m' c a b = (if a = i \<and> b = j \<and> (c = ctx \<or> ctx = ?kc) then v else aspace ?m c a b)"
    if c: "c \<in> ?C" "a < 1024" "b < 1024" for c a b
  proof (cases "present (pde ?m c a)")
    case True
    have "table_of (pde ?m c a) = t \<longleftrightarrow> a = i \<and> (c = ctx \<or> ctx = ?kc)"
    proof
      assume h: "table_of (pde ?m c a) = t"
      have "a = i \<and> (c = ctx \<or> present (pde ?m ?kc a))"
        by (rule tables_okD(5) [OF tok c(1) ctx c(2) i True t(1) h [unfolded t(2)]])
      then show "a = i \<and> (c = ctx \<or> ctx = ?kc)" using kern by auto
    next
      assume "a = i \<and> (c = ctx \<or> ctx = ?kc)"
      then show "table_of (pde ?m c a) = t" using tables_okD(6) [OF tok c(1) i] t by auto
    qed
    then show ?thesis using True w(2) [OF c(1,2)] c(3) al j by (auto simp: aspace_def ld32_st32_slot)
  next
    case False
    have "\<not> (a = i \<and> (c = ctx \<or> ctx = ?kc))" using False t(1) tables_okD(6) [OF tok c(1) i] by auto
    then show ?thesis using False w(2) [OF c(1,2)] by (auto simp: aspace_def)
  qed
  ultimately show ?thesis by (simp add: vm_wf_def s' contexts_def)
qed

lemma vmm_map_page_ok:
  assumes "vm_wf s" "ctx \<in> contexts s" "paging_on s" "flag_bits flags"
    and "page_aligned virt" "page_aligned phys" "slot_ok s ctx (virt div 0x1000 div 1024)"
    and "vmm_map_page k ctx virt phys flags s = Inr (r, s')"
  shows "r = 0 \<and> vm_wf s' \<and> (\<forall>c \<in> contexts s. \<forall>a < 1024. \<forall>b < 1024. aspace (vm_mem s') c a b =
      (if a = virt div 0x1000 div 1024 \<and> b = virt div 0x1000 mod 1024 \<and> (c = ctx \<or> ctx = kernel_context s)
       then phys OR flags else aspace (vm_mem s) c a b))"
proof -
  let ?i = "virt div 0x1000 div 1024" and ?j = "virt div 0x1000 mod 1024"
  have "\<not> (ctx \<noteq> kernel_context s \<and> present (pde (vm_mem s) (kernel_context s) ?i))"
    using assms(7) by (auto simp: slot_ok_def)
  then obtain t s1 where get: "get_page_table k ctx ?i flags s = Inr (t, s1)" and r: "r = 0"
    and s': "s' = s1\<lparr>vm_mem := st32 (vm_mem s1) (t + 4 * ?j) (phys OR flags)\<rparr>"
    using assms(5,6,8) by (auto simp: vmm_map_page_def Let_def rbind_eq_Inr)
  note g = get_page_table_view [OF assms(1,2) pd_index_less assms(7,4,3) get]
  have "vm_wf s' \<and> (\<forall>c \<in> contexts s1. \<forall>a < 1024. \<forall>b < 1024. aspace (vm_mem s') c a b =
      (if a = ?i \<and> b = ?j \<and> (c = ctx \<or> ctx = kernel_context s1) then phys OR flags
       else aspace (vm_mem s1) c a b))"
    by (rule table_write_view [OF _ _ pd_index_less pt_index_less _ _ _ s']) (use g assms(2) in auto)
  then show ?thesis using g r by simp
qed

section \<open>Destroying a context\<close>

text \<open>The frames and tables \<open>vmm_destroy_context\<close> gives back.\<close>

definition own_frames :: "mem \<Rightarrow> u32 \<Rightarrow> u32 \<Rightarrow> nat set" where
  "own_frames m kc c = {page_no (table_of (aspace m c (of_nat i) (of_nat j))) | i j. i < 1024 \<and> j < 1024 \<and>
     present (aspace m c (of_nat i) (of_nat j)) \<and> \<not> present (aspace m kc (of_nat i) (of_nat j))}"

definition own_tables :: "mem \<Rightarrow> u32 \<Rightarrow> u32 \<Rightarrow> nat set" where
  "own_tables m kc c = {page_no (table_of (pde m c (of_nat i))) | i. i < 1024 \<and>
     present (pde m c (of_nat i)) \<and> \<not> present (pde m kc (of_nat i))}"

lemma destroy_table_abs:
  "used_pages (destroy_table m ke t j n p) = used_pages p - {page_no (table_of (ld32 m (t + 4 * of_nat b))) | b.
     j \<le> b \<and> b < j + n \<and> present (ld32 m (t + 4 * of_nat b)) \<and>
     \<not> (present ke \<and> present (ld32 m (table_of ke + 4 * of_nat b)))}"
proof (induction n arbitrary: j p)
  case (Suc n)
  let ?F = "\<lambda>l h. {page_no (table_of (ld32 m (t + 4 * of_nat b))) | b.
     l \<le> b \<and> b < h \<and> present (ld32 m (t + 4 * of_nat b)) \<and>
     \<not> (present ke \<and> present (ld32 m (table_of ke + 4 * of_nat b)))}"
  have "?F j (j + Suc n) = ?F (Suc j) (Suc j + n) \<union> ?F j (Suc j)"
    by (fastforce simp: less_Suc_eq_le le_Suc_eq not_le)
  moreover have "?F j (Suc j) = (if present (ld32 m (t + 4 * of_nat j)) \<and>
       \<not> (present ke \<and> present (ld32 m (table_of ke + 4 * of_nat j)))
     then {page_no (table_of (ld32 m (t + 4 * of_nat j)))} else {})"
    by (auto simp: less_Suc_eq_le dest: le_antisym)
  ultimately show ?case by (simp add: Let_def Suc.IH) blast
qed auto

lemma destroy_dir_abs:
  "used_pages (destroy_dir m kc c i n p) = used_pages p -
     ({page_no (table_of (aspace m c (of_nat a) (of_nat b))) | a b. i \<le> a \<and> a < i + n \<and> b < 1024 \<and>
        present (aspace m c (of_nat a) (of_nat b)) \<and> \<not> present (aspace m kc (of_nat a) (of_nat b))} \<union>
      {page_no (table_of (pde m c (of_nat a))) | a. i \<le> a \<and> a < i + n \<and>
        present (pde m c (of_nat a)) \<and> \<not> present (pde m kc (of_nat a))})"
proof (induction n arbitrary: i p)
  case (Suc n)
  define F where "F = (\<lambda>a. {page_no (table_of (aspace m c (of_nat a) (of_nat b))) | b. b < (1024 :: nat) \<and>
        present (aspace m c (of_nat a) (of_nat b)) \<and> \<not> present (aspace m kc (of_nat a) (of_nat b))} \<union>
      (if present (pde m c (of_nat a)) \<and> \<not> present (pde m kc (of_nat a))
       then {page_no (table_of (pde m c (of_nat a)))} else {}))"
  have all: "{page_no (table_of (aspace m c (of_nat a) (of_nat b))) | a b. l \<le> a \<and> a < h \<and> b < 1024 \<and>
        present (aspace m c (of_nat a) (of_nat b)) \<and> \<not> present (aspace m kc (of_nat a) (of_nat b))} \<union>
      {page_no (table_of (pde m c (of_nat a))) | a. l \<le> a \<and> a < h \<and>
        present (pde m c (of_nat a)) \<and> \<not> present (pde m kc (of_nat a))} = (\<Union>a \<in> {l..<h}. F a)" for l h
    by (auto simp: F_def split: if_splits)
  have not0: "\<not> present 0" by (simp add: present_def)
  have "used_pages (if present (pde m c (of_nat i)) then
              (let p1 = destroy_table m (pde m kc (of_nat i)) (table_of (pde m c (of_nat i))) 0 1024 p
               in if present (pde m kc (of_nat i)) then p1 else pmm_free (table_of (pde m c (of_nat i))) p1)
            else p) = used_pages p - F i"
    by (auto simp: F_def Let_def destroy_table_abs aspace_def not0)
  moreover have "{i..<i + Suc n} = insert i {Suc i..<Suc i + n}" by auto
  ultimately show ?case by (simp add: Suc.IH all Let_def) auto
qed auto

lemma vmm_destroy_context_abs:
  "used_pages (vm_pmm (vmm_destroy_context c s)) = used_pages (vm_pmm s) -
     (own_frames (vm_mem s) (kernel_context s) c \<union> own_tables (vm_mem s) (kernel_context s) c \<union>
      {page_no (pagedir (vm_mem s) c), page_no c})"
  by (auto simp: vmm_destroy_context_def Let_def destroy_dir_abs own_frames_def own_tables_def)

lemma page_index_eq:
  "(a :: u32) div 1024 = b div 1024 \<and> a mod 1024 = b mod 1024 \<longleftrightarrow> a = b"
  by (metis div_mult_mod_eq)

lemma vmm_create_context_fresh:
  assumes "vmm_create_context k s = Inr (c, s1)" "paging_on s"
  defines "pd \<equiv> pagedir (vm_mem s1) c"
  shows "page_aligned c" "page_aligned pd" "c \<noteq> pd" "\<not> used_page (vm_pmm s) c" "\<not> used_page (vm_pmm s) pd"
    "page_no c \<noteq> page_no pd" "i < 1024 \<Longrightarrow> pde (vm_mem s1) c i = 0"
    "used_pages (vm_pmm s1) = insert (page_no pd) (insert (page_no c) (used_pages (vm_pmm s)))"
    "kernel_context s1 = kernel_context s" "vm_tasks s1 = vm_tasks s"
    "page_aligned u \<Longrightarrow> u \<noteq> c \<Longrightarrow> u \<noteq> pd \<Longrightarrow> j < 1024 \<Longrightarrow>
      ld32 (vm_mem s1) (u + 4 * j) = ld32 (vm_mem s) (u + 4 * j)"
proof -
  obtain p1 d p2 where a1: "pmm_alloc_pagetable k (vm_pmm s) = Inr (c, p1)" "c \<noteq> NULL"
    and a2: "pmm_alloc_pagetable k p1 = Inr (d, p2)" "d \<noteq> NULL"
    and s1: "s1 = s\<lparr>vm_pmm := p2, vm_mem := zero_words (st32 (vm_mem s) c d) d 0 1024\<rparr>"
    using assms(1,2) by (auto simp: vmm_create_context_def rbind_eq_Inr split: if_splits)
  note f1 = pmm_alloc_pagetable_fresh [OF a1] and f2 = pmm_alloc_pagetable_fresh [OF a2]
  have ne: "page_no c \<noteq> page_no d" using f2(2) f1(3) by auto
  then have cd: "c \<noteq> d" by auto
  let ?m = "st32 (vm_mem s) c d"
  have z: "ld32 (vm_mem s1) (u + 4 * j) = (if u = d then 0 else ld32 ?m (u + 4 * j))"
    if "page_aligned u" "j < 1024" for u j
    using zero_table [OF f2(1) that, of ?m] by (simp add: s1)
  have "pagedir (vm_mem s1) c = d"
    using z [OF f1(1), of 0] cd by (simp add: pagedir_def)
  then have pd: "pd = d" by (simp add: pd_def)
  show "page_aligned c" "page_aligned pd" "c \<noteq> pd" "\<not> used_page (vm_pmm s) c" "page_no c \<noteq> page_no pd"
    using f1 f2 cd ne by (simp_all add: pd)
  show "\<not> used_page (vm_pmm s) pd" using f2(2) f1(3) by (auto simp: pd)
  show "pde (vm_mem s1) c i = 0" if "i < 1024"
    using z [OF f2(1) that] pd by (simp add: pde_def pd_def)
  show "used_pages (vm_pmm s1) = insert (page_no pd) (insert (page_no c) (used_pages (vm_pmm s)))"
    using pmm_alloc_pagetable_used [OF a1] pmm_alloc_pagetable_used [OF a2] by (simp add: s1 pd)
  show "kernel_context s1 = kernel_context s" "vm_tasks s1 = vm_tasks s" by (simp_all add: s1)
  show "ld32 (vm_mem s1) (u + 4 * j) = ld32 (vm_mem s) (u + 4 * j)"
    if "page_aligned u" "u \<noteq> c" "u \<noteq> pd" "j < 1024"
    using z [OF that(1,4)] ld32_st32_slot [OF f1(1) that(1) _ that(4), of 0 "vm_mem s" d] that by (simp add: pd)
qed

section \<open>Properties\<close>

text \<open>
  C4. Mapping a page. In a well-formed system with paging on, when \<open>vmm_map_page\<close> maps the aligned
  page \<open>virt\<close> of an existing context to the frame \<open>phys\<close> with present flags and returns, it returns 0,
  the system is well-formed again, and the translation of every address in every context is known:
  addresses of the page \<open>virt\<close> go to the frame in \<open>ctx\<close> (in all contexts when \<open>ctx\<close> is the
  kernel's), and nothing else changes, whether or not a new page table had to be allocated.
\<close>

theorem vmm_map_page_maps:
  assumes "vm_wf s" "ctx \<in> contexts s" "paging_on s" "flag_bits flags" "present flags"
    and "page_aligned virt" "page_aligned phys" "slot_ok s ctx (virt div 0x1000 div 1024)"
    and "vmm_map_page k ctx virt phys flags s = Inr (r, s')"
  shows "r = 0 \<and> vm_wf s' \<and> (\<forall>c \<in> contexts s. \<forall>ptr. vmm_lookup (vm_mem s') ptr c =
      (if ptr div 0x1000 = virt div 0x1000 \<and> (c = ctx \<or> ctx = kernel_context s)
       then phys + ptr mod 0x1000 else vmm_lookup (vm_mem s) ptr c))"
proof -
  note m = vmm_map_page_ok [OF assms(1-4) assms(6-9)]
  have e: "present (phys OR flags)" "table_of (phys OR flags) = phys"
    using assms(5) table_of_entry [OF assms(7,4)] by (simp_all add: present_or)
  have "vmm_lookup (vm_mem s') ptr c =
      (if ptr div 0x1000 = virt div 0x1000 \<and> (c = ctx \<or> ctx = kernel_context s)
       then phys + ptr mod 0x1000 else vmm_lookup (vm_mem s) ptr c)" if "c \<in> contexts s" for ptr c
  proof -
    have "aspace (vm_mem s') c (ptr div 0x1000 div 1024) (ptr div 0x1000 mod 1024) =
      (if ptr div 0x1000 div 1024 = virt div 0x1000 div 1024 \<and> ptr div 0x1000 mod 1024 = virt div 0x1000 mod 1024 \<and>
          (c = ctx \<or> ctx = kernel_context s)
       then phys OR flags else aspace (vm_mem s) c (ptr div 0x1000 div 1024) (ptr div 0x1000 mod 1024))"
      using m that pd_index_less pt_index_less by blast
    then show ?thesis
      using e page_index_eq [of "ptr div 0x1000" "virt div 0x1000"]
      by (auto simp: vmm_lookup_aspace Let_def)
  qed
  with m show ?thesis by blast
qed

text \<open>A system with the kernel's context only, an empty directory and one free page for a table.\<close>

definition tiny_vm :: vm where
  "tiny_vm = \<lparr>vm_pmm = pmm_free 0x3000 (mark_paging 0x3000 full_pmm), vm_mem = st32 (\<lambda>_. 0) 0x1000 0x2000,
     kernel_context = 0x1000, vm_tasks = [], cr3 = 0x2000, paging_on = True\<rparr>"

lemma tiny_vm_abs:
  "used_pages (vm_pmm tiny_vm) = {i. i < NUM_PAGES} - {3}" "pt_pages (vm_pmm tiny_vm) = {3}"
  "contexts tiny_vm = {0x1000}" "pagedir (vm_mem tiny_vm) 0x1000 = 0x2000"
  by (auto simp: tiny_vm_def page_no_def contexts_def pagedir_def)

lemma ld32_zero: "ld32 (\<lambda>_. 0) a = 0"
  by (simp add: ld32_def)

lemma tiny_vm_pde: "i < 1024 \<Longrightarrow> pde (vm_mem tiny_vm) 0x1000 i = 0"
proof -
  assume "i < 1024"
  moreover have "page_aligned 0x1000" "page_aligned 0x2000" by (simp_all add: page_aligned_def)
  ultimately have "ld32 (st32 (\<lambda>_. 0) (0x1000 + 4 * 0) 0x2000) (0x2000 + 4 * i) = 0"
    by (subst ld32_st32_slot) (simp_all add: ld32_zero)
  then show ?thesis unfolding pde_def tiny_vm_abs by (simp add: tiny_vm_def)
qed

lemma tables_ok_empty:
  assumes "\<And>c. c \<in> C \<Longrightarrow> used_page p c" "\<And>c. c \<in> C \<Longrightarrow> used_page p (pagedir m c)"
    and "\<And>c i. c \<in> C \<Longrightarrow> i < 1024 \<Longrightarrow> \<not> present (pde m c i)" and "kc \<in> C"
  shows "tables_ok m p kc C"
  unfolding tables_ok_def by (intro conjI ballI allI impI) (use assms in blast)+

lemma tiny_vm_wf: "vm_wf tiny_vm"
proof -
  have not0: "\<not> present 0" by (simp add: present_def)
  have "private_pages (vm_mem tiny_vm) {0x1000}"
    unfolding private_pages_def by (simp add: tiny_vm_abs page_aligned_def)
  moreover have "tables_ok (vm_mem tiny_vm) (vm_pmm tiny_vm) 0x1000 {0x1000}"
  proof -
    have "\<not> present (pde (vm_mem tiny_vm) c i)" if "c \<in> {0x1000}" "i < 1024" for c i
      using that not0 tiny_vm_pde by auto
    moreover have "used_page (vm_pmm tiny_vm) 0x1000" "used_page (vm_pmm tiny_vm) 0x2000"
      by (simp_all add: used_page_def tiny_vm_abs page_no_def)
    ultimately show ?thesis by (intro tables_ok_empty) (auto simp: tiny_vm_abs(4))
  qed
  moreover have "kernel_context tiny_vm = 0x1000" by (simp add: tiny_vm_def)
  ultimately show ?thesis by (simp add: vm_wf_def tiny_vm_abs)
qed

lemma tiny_vm_alloc: "\<exists>p. pmm_alloc_pagetable KeyH (vm_pmm tiny_vm) = Inr (0x3000, p)"
proof -
  have "eligible True (vm_pmm tiny_vm) 3" by (simp add: eligible_def tiny_vm_abs)
  moreover have "3 \<le> j" if "eligible True (vm_pmm tiny_vm) j" for j
    using that unfolding eligible_def tiny_vm_abs by blast
  ultimately obtain p t where pt: "pmm_scan True 0 (vm_pmm tiny_vm) = Some (p, t)" "page_no p = 3"
    by (rule pmm_scan_least)
  then have "p = 0x3000" using pmm_scan_abs(4) [OF pt(1)] by simp
  then show ?thesis using pt by (simp add: pmm_alloc_pagetable_def)
qed

theorem vmm_map_page_maps_witness:
  "\<exists>s'. vmm_map_page KeyH 0x1000 0x5000 0x7000 3 tiny_vm = Inr (0, s') \<and>
     vmm_lookup (vm_mem s') 0x5123 0x1000 = 0x7123"
proof -
  have np: "\<not> present (pde (vm_mem tiny_vm) 0x1000 0)" by (simp add: tiny_vm_pde present_def)
  have al: "page_aligned 0x5000" "page_aligned 0x7000" by (simp_all add: page_aligned_def)
  have kc: "kernel_context tiny_vm = 0x1000" "paging_on tiny_vm" by (simp_all add: tiny_vm_def)
  have slot: "slot_ok tiny_vm 0x1000 (0x5000 div 0x1000 div 1024)"
    using np by (simp add: slot_ok_def kc tiny_vm_abs)
  obtain p where "pmm_alloc_pagetable KeyH (vm_pmm tiny_vm) = Inr (0x3000, p)" using tiny_vm_alloc by blast
  then have "\<exists>s'. vmm_map_page KeyH 0x1000 0x5000 0x7000 3 tiny_vm = Inr (0, s')"
    using np al by (simp add: vmm_map_page_def Let_def get_page_table_def kc)
  then obtain s' where s': "vmm_map_page KeyH 0x1000 0x5000 0x7000 3 tiny_vm = Inr (0, s')" by blast
  have "flag_bits 3" "present 3" by (simp_all add: flag_bits_def present_def)
  from vmm_map_page_maps [OF tiny_vm_wf _ kc(2) this al slot s'] show ?thesis
    using s' by (auto simp: tiny_vm_abs)
qed

text \<open>
  C6. Destroying a context gives back exactly its own memory: the frames it maps that the kernel
  does not map at the same place, its page tables that are not the kernel's, its directory
  and the page of the context itself. No other page changes its state.
\<close>

theorem vmm_destroy_context_frees:
  "used_pages (vm_pmm (vmm_destroy_context c s)) = used_pages (vm_pmm s) -
     (own_frames (vm_mem s) (kernel_context s) c \<union> own_tables (vm_mem s) (kernel_context s) c \<union>
      {page_no (pagedir (vm_mem s) c), page_no c})"
  by (rule vmm_destroy_context_abs)

text \<open>
  A new context is empty, on two fresh pages, and destroying it restores the allocator's used pages.
\<close>

lemma vmm_create_destroy:
  assumes "vmm_create_context k s = Inr (c, s1)" "paging_on s"
  shows "\<not> used_page (vm_pmm s) c \<and> \<not> used_page (vm_pmm s) (pagedir (vm_mem s1) c) \<and>
    (\<forall>ptr. vmm_lookup (vm_mem s1) ptr c = NULL) \<and>
    used_pages (vm_pmm (vmm_destroy_context c s1)) = used_pages (vm_pmm s)"
proof -
  note f = vmm_create_context_fresh [OF assms]
  have e: "pde (vm_mem s1) c (of_nat i) = 0" if "i < 1024" for i
    by (rule f(7)) (use that in \<open>simp add: word_less_nat_alt\<close>)
  have not0: "\<not> present 0" by (simp add: present_def)
  have "own_tables (vm_mem s1) kc c = {}" "own_frames (vm_mem s1) kc c = {}" for kc
    using e not0 by (auto simp: own_tables_def own_frames_def aspace_def)
  then have "used_pages (vm_pmm (vmm_destroy_context c s1)) = used_pages (vm_pmm s)"
    using f(4,5,6,8) by (auto simp: vmm_destroy_context_abs used_page_def)
  moreover have "vmm_lookup (vm_mem s1) ptr c = NULL" for ptr
    using f(7) [OF pd_index_less] not0 by (simp add: vmm_lookup_def Let_def)
  ultimately show ?thesis using f(4,5) by blast
qed

definition two_tables_pmm :: pmm where
  "two_tables_pmm = pmm_free 0x4000 (mark_paging 0x4000 (pmm_free 0x3000 (mark_paging 0x3000 full_pmm)))"

lemma alloc_pagetable_least:
  assumes "i \<in> pt_pages p" "i \<notin> used_pages p" "\<And>j. j \<in> pt_pages p \<Longrightarrow> j \<notin> used_pages p \<Longrightarrow> i \<le> j"
  obtains p' where "pmm_alloc_pagetable k p = Inr (of_nat i * 0x1000, p')"
    "used_pages p' = insert i (used_pages p)" "pt_pages p' = pt_pages p"
proof -
  have "eligible True p i" using assms(1,2) by (simp add: eligible_def) (simp add: pt_pages_def)
  moreover have "i \<le> j" if "eligible True p j" for j using that assms(3) by (simp add: eligible_def)
  ultimately obtain a p' where "pmm_scan True 0 p = Some (a, p')" "page_no a = i"
    "used_pages p' = insert i (used_pages p)" "pt_pages p' = pt_pages p" by (rule pmm_scan_least)
  then show ?thesis using pmm_scan_abs(4) [of True p a p'] that
    by (auto simp: pmm_alloc_pagetable_def)
qed

end
