(* ===== verification/Sched.thy ===== *)
theory Sched
  imports Vmm
begin

text \<open>
  The scheduler, \<open>mckrnl/scheduler/scheduler.c\<close>, the resources of a task, \<open>resource.c\<close>, and the
  handlers that end a faulting task, \<open>killer.c\<close>. A task is named by its index in the array
  \<open>tasks\<close>; \<open>sc_vm\<close> is the memory. The functions of \<open>vmm.c\<close> read two fields of the task table,
  \<open>sc_view\<close> passes them. The page of a task's array of resources is not part of the state;
  the array is \<open>None\<close> when the pointer is \<open>NULL\<close>. The state may be extended by a client, as \<open>Syscalls\<close> does.
\<close>

section \<open>State\<close>

text \<open>The functions that \<open>resource_t\<close> entries of the kernel point to.\<close>

datatype dealloc_fn = SysOpenDealloc | SysConnectDealloc | SysThreadKill

text \<open>Their argument: an open file, a socket, or the number of a task cast to a pointer; \<open>NoResource\<close> is \<open>NULL\<close>.\<close>

datatype resource_ptr = NoResource | FilePtr u32 | SocketPtr nat | ThreadPid u32

record task =
  registers :: u32
  active :: bool
  tk_context :: u32
  stack :: u32
  user_stack :: u32
  pid :: u32
  argv :: u32
  envp :: u32
  pwd :: "u8 list"
  resources :: "(dealloc_fn \<times> resource_ptr) list option"
  num_resources :: nat
  wait_time :: u32
  pin :: bool
  parent :: u32
  tk_term :: u32

record sched =
  tasks :: "task list"
  current_pid :: u32
  current_task :: nat
  last_time_ms :: u32
  is_scheduler_running :: bool
  sc_vm :: vm

abbreviation MAX_TASKS :: nat where "MAX_TASKS \<equiv> 32"
abbreviation USER_SPACE_OFFSET :: u32 where "USER_SPACE_OFFSET \<equiv> 0xC0000000"

abbreviation PWD_SIZE :: nat where "PWD_SIZE \<equiv> 128"

definition zero_task :: task where
  "zero_task = \<lparr>registers = 0, active = False, tk_context = 0, stack = 0, user_stack = 0, pid = 0, argv = 0, envp = 0, pwd = replicate PWD_SIZE 0,
     resources = None, num_resources = 0, wait_time = 0, pin = False, parent = 0, tk_term = 0\<rparr>"

definition upd_task :: "nat \<Rightarrow> (task \<Rightarrow> task) \<Rightarrow> 'z sched_scheme \<Rightarrow> 'z sched_scheme" where
  "upd_task i f s = s\<lparr>tasks := (tasks s)[i := f (tasks s ! i)]\<rparr>"

definition sc_view :: "'z sched_scheme \<Rightarrow> vm" where
  "sc_view s = (sc_vm s)\<lparr>vm_tasks := map (\<lambda>t. (active t, tk_context t)) (tasks s)\<rparr>"

definition on_vm :: "(vm \<Rightarrow> ('a \<times> vm) res) \<Rightarrow> 'z sched_scheme \<Rightarrow> ('a \<times> 'z sched_scheme) res" where
  "on_vm f s = rbind (f (sc_view s)) (\<lambda>(x, v). Inr (x, s\<lparr>sc_vm := v\<rparr>))"

section \<open>Resources of a task\<close>

definition get_self :: "'z sched_scheme \<Rightarrow> nat" where
  "get_self s = current_task s"

text \<open>The loop of \<open>resource_register_self\<close>; \<open>None\<close>: no free entry.\<close>

primrec resource_put :: "dealloc_fn \<times> resource_ptr \<Rightarrow> (dealloc_fn \<times> resource_ptr) list \<Rightarrow> (dealloc_fn \<times> resource_ptr) list option" where
  "resource_put r [] = None"
| "resource_put r (x # xs) = (if snd x = NoResource then Some (r # xs) else map_option ((#) x) (resource_put r xs))"

definition resource_register_self :: "dealloc_fn \<times> resource_ptr \<Rightarrow> 'z sched_scheme \<Rightarrow> 'z sched_scheme res" where
  "resource_register_self r s =
     (let self = tasks s ! get_self s in
      case resources self of
        None \<Rightarrow> if num_resources self > 0 then Inl NullDeref
          else Inr (upd_task (get_self s) (\<lambda>t. t\<lparr>resources := Some [r], num_resources := 1\<rparr>) s)
      | Some rs \<Rightarrow> (case resource_put r rs of
            Some rs' \<Rightarrow> Inr (upd_task (get_self s) (\<lambda>t. t\<lparr>resources := Some rs'\<rparr>) s)
          | None \<Rightarrow> Inr (upd_task (get_self s) (\<lambda>t. t\<lparr>resources := Some (rs @ [r]), num_resources := num_resources t + 1\<rparr>) s)))"

definition resource_unregister_self :: "resource_ptr \<Rightarrow> 'z sched_scheme \<Rightarrow> 'z sched_scheme res" where
  "resource_unregister_self p s =
     (let self = tasks s ! get_self s in
      case resources self of
        None \<Rightarrow> if num_resources self > 0 then Inl NullDeref else Inr s
      | Some rs \<Rightarrow> Inr (upd_task (get_self s)
          (\<lambda>t. t\<lparr>resources := Some (map (\<lambda>r. if snd r = p then (fst r, NoResource) else r) rs)\<rparr>) s))"

text \<open>
  \<open>dl d r\<close> is what the call of the deallocation function \<open>d\<close> on \<open>r\<close> does. The array is read again
  after every call.
\<close>

primrec dealloc_loop :: "(dealloc_fn \<Rightarrow> resource_ptr \<Rightarrow> 'z sched_scheme \<Rightarrow> 'z sched_scheme res) \<Rightarrow> nat \<Rightarrow> nat \<Rightarrow> nat \<Rightarrow> 'z sched_scheme \<Rightarrow> 'z sched_scheme res" where
  "dealloc_loop dl self i 0 s = Inr s"
| "dealloc_loop dl self i (Suc n) s =
     (case resources (tasks s ! self) of
        None \<Rightarrow> Inl NullDeref
      | Some rs \<Rightarrow>
          if i \<ge> length rs then Inl OutOfBounds
          else rbind (if snd (rs ! i) \<noteq> NoResource then dl (fst (rs ! i)) (snd (rs ! i)) s else Inr s)
                 (dealloc_loop dl self (Suc i) n))"

definition resource_dealloc :: "(dealloc_fn \<Rightarrow> resource_ptr \<Rightarrow> 'z sched_scheme \<Rightarrow> 'z sched_scheme res) \<Rightarrow> nat \<Rightarrow> 'z sched_scheme \<Rightarrow> 'z sched_scheme res" where
  "resource_dealloc dl self s =
     rbind (dealloc_loop dl self 0 (num_resources (tasks s ! self)) s)
       (\<lambda>s1. Inr (upd_task self (\<lambda>t. t\<lparr>resources := None\<rparr>) s1))"

definition resource_dealloc_self :: "(dealloc_fn \<Rightarrow> resource_ptr \<Rightarrow> 'z sched_scheme \<Rightarrow> 'z sched_scheme res) \<Rightarrow> 'z sched_scheme \<Rightarrow> 'z sched_scheme res" where
  "resource_dealloc_self dl s = resource_dealloc dl (get_self s) s"

section \<open>Creating and ending tasks\<close>

primrec free_slot :: "task list \<Rightarrow> nat option" where
  "free_slot [] = None"
| "free_slot (t # ts) = (if \<not> active t then Some 0 else map_option Suc (free_slot ts))"

text \<open>\<open>cpu_registers_t\<close>: the segment registers, the general ones, the interrupt and its error, and the frame of \<open>iret\<close>.\<close>

definition new_state :: "u32 \<Rightarrow> u32 \<Rightarrow> u32 list" where
  "new_state entry ustack =
     [0, 0, 0x20 OR 0x03, 0x20 OR 0x03,
      0, 0, 0, 0, 0, 0, 0,
      0, 0,
      entry, 0x18 OR 0x03, 0x202, ustack + 4 * 4096 + USER_SPACE_OFFSET, 0x20 OR 0x03]"

primrec map_user_pages :: "panic_key \<Rightarrow> u32 \<Rightarrow> u32 \<Rightarrow> nat \<Rightarrow> nat \<Rightarrow> 'z sched_scheme \<Rightarrow> 'z sched_scheme res" where
  "map_user_pages k ctx ptr i 0 s = Inr s"
| "map_user_pages k ctx ptr i (Suc n) s =
     rbind (on_vm (vmm_map_page k ctx (ptr + of_nat i * 4096 + USER_SPACE_OFFSET) (ptr + of_nat i * 4096)
              (PTE_PRESENT OR PTE_WRITE OR PTE_USER)) s) (\<lambda>(_, s1). map_user_pages k ctx ptr (Suc i) n s1)"

definition init_task :: "panic_key \<Rightarrow> u32 \<Rightarrow> u32 \<Rightarrow> bool \<Rightarrow> nat \<Rightarrow> 'z sched_scheme \<Rightarrow> (nat \<times> 'z sched_scheme) res" where
  "init_task k trm entry thread parent_task s =
     (let old_shed = is_scheduler_running s; s0 = s\<lparr>is_scheduler_running := False\<rparr> in
      case free_slot (tasks s0) of
        None \<Rightarrow> Inl AssertFailed
      | Some i \<Rightarrow>
          rbind (on_vm (vmm_alloc k 4) (upd_task i (\<lambda>_. zero_task) s0)) (\<lambda>(stk, s1).
          rbind (on_vm (vmm_alloc k 4) s1) (\<lambda>(ustk, s2).
          let regs = stk + 4 * 4096 - 72;
              s3 = s2\<lparr>sc_vm := (sc_vm s2)\<lparr>vm_mem := store_words (vm_mem (sc_vm s2)) regs (new_state entry ustk)\<rparr>\<rparr>;
              s4 = (upd_task i (\<lambda>t. t\<lparr>registers := regs, active := True, stack := stk, user_stack := ustk,
                      pid := current_pid s3, wait_time := 0, tk_term := trm\<rparr>) s3)\<lparr>current_pid := current_pid s3 + 1\<rparr>
          in rbind
               (if \<not> thread then
                  rbind (on_vm (vmm_create_context k) s4) (\<lambda>(ctx, s5).
                    let s6 = s5\<lparr>sc_vm := vmm_clone_kernel_context ctx (sc_vm s5)\<rparr>
                    in Inr (upd_task i (\<lambda>t. t\<lparr>tk_context := ctx, parent := - 1\<rparr>) s6))
                else Inr (upd_task i (\<lambda>t. t\<lparr>tk_context := tk_context (tasks s4 ! parent_task),
                            parent := pid (tasks s4 ! parent_task)\<rparr>) s4))
             (\<lambda>s7. rbind (map_user_pages k (tk_context (tasks s7 ! i)) ustk 0 4 s7)
                     (\<lambda>s8. Inr (i, s8\<lparr>is_scheduler_running := old_shed\<rparr>))))))"

text \<open>After \<open>exit_task\<close> of the running task the CPU halts until the next timer interrupt calls \<open>schedule\<close>.\<close>

definition exit_task :: "(dealloc_fn \<Rightarrow> resource_ptr \<Rightarrow> 'z sched_scheme \<Rightarrow> 'z sched_scheme res) \<Rightarrow> nat \<Rightarrow> 'z sched_scheme \<Rightarrow> 'z sched_scheme res" where
  "exit_task dl i s =
     rbind (resource_dealloc dl i (upd_task i (\<lambda>t. t\<lparr>active := False, pin := False\<rparr>) s)) (\<lambda>s1.
     let s2 = (if parent (tasks s1 ! i) = - 1
               then s1\<lparr>sc_vm := vmm_destroy_context (tk_context (tasks s1 ! i))
                                  (vmm_activate_context (kernel_context (sc_vm s1)) (sc_vm s1))\<rparr>
               else s1)
     in rbind (vmm_free (stack (tasks s2 ! i)) 4 (sc_vm s2)) (\<lambda>v. Inr (s2\<lparr>sc_vm := v\<rparr>)))"

text \<open>
  The handlers of the CPU exceptions 0, 6, 13 and 14 print a message and end the running task. \<open>killers\<close> is what
  \<open>init_killer\<close> registers.
\<close>

datatype killer = DivisionByZero | InvalidOpcode | PageFault | GeneralProtection

definition kill :: "killer \<Rightarrow> (dealloc_fn \<Rightarrow> resource_ptr \<Rightarrow> 'z sched_scheme \<Rightarrow> 'z sched_scheme res) \<Rightarrow> 'z sched_scheme \<Rightarrow> 'z sched_scheme res" where
  "kill h dl s = exit_task dl (get_self s) s"

definition killers :: "(u8 \<times> killer) list" where
  "killers = [(0x0, DivisionByZero), (0x6, InvalidOpcode), (0xd, GeneralProtection), (0xe, PageFault)]"

section \<open>Choosing the next task\<close>

primrec switch_loop :: "u32 \<Rightarrow> bool \<Rightarrow> nat \<Rightarrow> nat \<Rightarrow> 'z sched_scheme \<Rightarrow> u32 \<times> 'z sched_scheme" where
  "switch_loop diff_ms ignore_wait_time i 0 s = (NULL, s)"
| "switch_loop diff_ms ignore_wait_time i (Suc n) s =
     (let t = tasks s ! i;
          waits = (\<not> ignore_wait_time \<and> active t \<and> 0 <s wait_time t);
          s1 = (if waits then upd_task i (\<lambda>t. t\<lparr>wait_time := wait_time t - diff_ms\<rparr>) s else s)
      in if waits \<and> 0 <s wait_time t - diff_ms then switch_loop diff_ms ignore_wait_time (Suc i) n s1
         else if active t then
           (registers t, s1\<lparr>current_task := i, sc_vm := vmm_activate_context (tk_context t) (sc_vm s1)\<rparr>)
         else switch_loop diff_ms ignore_wait_time (Suc i) n s1)"

definition switch_to_next_task :: "nat \<Rightarrow> u32 \<Rightarrow> bool \<Rightarrow> 'z sched_scheme \<Rightarrow> u32 \<times> 'z sched_scheme" where
  "switch_to_next_task starting_from diff_ms ignore_wait_time s =
     switch_loop diff_ms ignore_wait_time starting_from (MAX_TASKS - starting_from) s"

text \<open>
  \<open>schedule\<close>. \<open>on_bsp\<close>: the interrupt is taken by the boot processor; \<open>trm\<close> is the current terminal of the
  character output, \<open>time_ms\<close> the timer's time.
\<close>

definition schedule :: "panic_key \<Rightarrow> bool \<Rightarrow> u32 \<Rightarrow> u32 \<Rightarrow> u32 \<Rightarrow> 'z sched_scheme \<Rightarrow> (u32 \<times> 'z sched_scheme) res" where
  "schedule k on_bsp trm time_ms regs s =
     (let self = tasks s ! current_task s in
      if \<not> is_scheduler_running s then Inr (regs, s)
      else if \<not> on_bsp then Inr (regs, s)
      else if pin self \<and> tk_term self = trm then Inr (registers self, s)
      else
        let diff_ms = time_ms - last_time_ms s; s0 = s\<lparr>last_time_ms := time_ms\<rparr>;
            (r1, s1) = switch_to_next_task (current_task s0 + 1) diff_ms False s0
        in if r1 \<noteq> NULL then Inr (r1, s1)
           else let (r2, s2) = switch_to_next_task 0 diff_ms False s1
                in if r2 \<noteq> NULL then Inr (r2, s2)
                   else let (r3, s3) = switch_to_next_task 0 diff_ms True s2
                        in if r3 \<noteq> NULL then Inr (r3, s3)
                           else rbind (abortf k) (\<lambda>_. Inr (regs, s3)))"

definition init_scheduler :: "'z sched_scheme \<Rightarrow> 'z sched_scheme" where
  "init_scheduler s = s\<lparr>is_scheduler_running := True\<rparr>"

primrec find_pid :: "u32 \<Rightarrow> task list \<Rightarrow> nat option" where
  "find_pid p [] = None"
| "find_pid p (t # ts) = (if active t \<and> pid t = p then Some 0 else map_option Suc (find_pid p ts))"

definition get_task_by_pid :: "u32 \<Rightarrow> 'z sched_scheme \<Rightarrow> nat option" where
  "get_task_by_pid p s = find_pid p (tasks s)"

primrec count_active :: "task list \<Rightarrow> nat" where
  "count_active [] = 0"
| "count_active (t # ts) = (if active t then Suc (count_active ts) else count_active ts)"

definition get_ammount_running_tasks :: "'z sched_scheme \<Rightarrow> nat" where
  "get_ammount_running_tasks s = count_active (tasks s)"

section \<open>Loading a program\<close>

text \<open>
  \<open>init_elf\<close>. The image is in the identity-mapped kernel memory; the segments are
  written through the page tables of the new task. The arrays \<open>argv\<close> and \<open>envp\<close> and their strings are read through the page tables in use, those of
  the task that spawns, or of the kernel at boot.
\<close>

primrec copy_virt :: "mem \<Rightarrow> u32 \<Rightarrow> u32 \<Rightarrow> u32 \<Rightarrow> nat \<Rightarrow> mem res" where
  "copy_virt m pd dest src 0 = Inr m"
| "copy_virt m pd dest src (Suc n) =
     rbind (walk m pd src) (\<lambda>a. rbind (walk m pd dest) (\<lambda>b. copy_virt (m(b := m a)) pd (dest + 1) (src + 1) n))"

primrec map_segment :: "panic_key \<Rightarrow> u32 \<Rightarrow> u32 \<Rightarrow> u32 \<Rightarrow> nat \<Rightarrow> nat \<Rightarrow> 'z sched_scheme \<Rightarrow> 'z sched_scheme res" where
  "map_segment k ctx real_dest phys_loc j 0 s = Inr s"
| "map_segment k ctx real_dest phys_loc j (Suc n) s =
     (let va = real_dest + of_nat j * 4096; pa = phys_loc + of_nat j * 4096 in
      rbind (if vmm_lookup (vm_mem (sc_vm s)) va ctx \<noteq> NULL
             then Inr (s\<lparr>sc_vm := (sc_vm s)\<lparr>vm_pmm := pmm_free pa (vm_pmm (sc_vm s))\<rparr>\<rparr>)
             else rbind (on_vm (vmm_map_page k ctx va pa (PTE_PRESENT OR PTE_WRITE OR PTE_USER)) s) (\<lambda>(_, s1). Inr s1))
        (map_segment k ctx real_dest phys_loc (Suc j) n))"

definition load_segment :: "panic_key \<Rightarrow> u32 \<Rightarrow> u32 \<Rightarrow> u32 \<Rightarrow> 'z sched_scheme \<Rightarrow> 'z sched_scheme res" where
  "load_segment k ctx img ph s =
     (let m = vm_mem (sc_vm s);
          dest = ld32 m (ph + 8); real_dest = dest AND NOT 0xFFF;
          src = img + ld32 m (ph + 4); file_size = ld32 m (ph + 16); mem_size = ld32 m (ph + 20)
      in if ld32 m ph \<noteq> 1 then Inr s
         else let real_size = mem_size div 4096 + 1 + (if dest \<noteq> real_dest then 1 else 0) in
           rbind (pmm_alloc_range real_size (vm_pmm (sc_vm s))) (\<lambda>(phys_loc, p).
           rbind (map_segment k ctx real_dest phys_loc 0 (nat (sint real_size)) (s\<lparr>sc_vm := (sc_vm s)\<lparr>vm_pmm := p\<rparr>\<rparr>)) (\<lambda>s1.
           let old = cr3 (sc_vm s1); v = vmm_activate_context ctx (sc_vm s1) in
           rbind (write_virt (vm_mem v) (cr3 v) dest (replicate (unat mem_size) 0)) (\<lambda>m1.
           rbind (copy_virt m1 (cr3 v) dest src (unat file_size)) (\<lambda>m2.
           Inr (s1\<lparr>sc_vm := v\<lparr>vm_mem := m2, cr3 := old\<rparr>\<rparr>))))))"

primrec load_segments :: "panic_key \<Rightarrow> u32 \<Rightarrow> u32 \<Rightarrow> nat \<Rightarrow> u32 \<Rightarrow> 'z sched_scheme \<Rightarrow> 'z sched_scheme res" where
  "load_segments k ctx img 0 ph s = Inr s"
| "load_segments k ctx img (Suc n) ph s = rbind (load_segment k ctx img ph s) (load_segments k ctx img n (ph + 32))"

definition poke :: "(mem \<Rightarrow> mem) \<Rightarrow> 'z sched_scheme \<Rightarrow> 'z sched_scheme" where
  "poke f s = s\<lparr>sc_vm := (sc_vm s)\<lparr>vm_mem := f (vm_mem (sc_vm s))\<rparr>\<rparr>"

definition user_page :: "panic_key \<Rightarrow> u32 \<Rightarrow> 'z sched_scheme \<Rightarrow> (u32 \<times> 'z sched_scheme) res" where
  "user_page k ctx s = rbind (on_vm (vmm_alloc k 1) s) (\<lambda>(p, s1).
     rbind (on_vm (vmm_map_page k ctx (p + USER_SPACE_OFFSET) p (PTE_PRESENT OR PTE_WRITE OR PTE_USER)) s1) (\<lambda>(_, s2). Inr (p, s2)))"

definition load_virt32 :: "vm \<Rightarrow> u32 \<Rightarrow> u32 res" where
  "load_virt32 v a = rbind (walk (vm_mem v) (cr3 v) a) (\<lambda>p. Inr (ld32 (vm_mem v) p))"

text \<open>The entries of an array of pointers before the terminating \<open>NULL\<close>.\<close>

partial_function (option) pointers :: "vm \<Rightarrow> u32 \<Rightarrow> u32 list \<Rightarrow> u32 list res option" where
  "pointers v a acc = (case load_virt32 v a of
       Inl e \<Rightarrow> Some (Inl e)
     | Inr p \<Rightarrow> if p = NULL then Some (Inr acc) else pointers v (a + 4) (acc @ [p]))"

text \<open>\<open>strcpy\<close> to the kernel's memory: the first character whatever it is, then up to a zero.\<close>

partial_function (option) strcpy_virt :: "u32 \<Rightarrow> mem \<Rightarrow> u32 \<Rightarrow> u32 \<Rightarrow> mem res option" where
  "strcpy_virt pd m dest src = (case walk m pd src of
       Inl e \<Rightarrow> Some (Inl e)
     | Inr a \<Rightarrow> (case walk (m(dest := m a)) pd (src + 1) of
           Inl e \<Rightarrow> Some (Inl e)
         | Inr b \<Rightarrow>
             if (m(dest := m a)) b \<noteq> 0 then strcpy_virt pd (m(dest := m a)) (dest + 1) (src + 1)
             else Some (Inr (m(dest := m a)))))"

primrec copy_strings :: "panic_key \<Rightarrow> u32 \<Rightarrow> u32 \<Rightarrow> nat \<Rightarrow> u32 list \<Rightarrow> 'z sched_scheme \<Rightarrow> 'z sched_scheme res option" where
  "copy_strings k ctx arr i [] s = Some (Inr (poke (\<lambda>m. st32 m (arr + 4 * of_nat i) NULL) s))"
| "copy_strings k ctx arr i (p # ps) s =
     lbind (Some (user_page k ctx s)) (\<lambda>(q, s1).
       let s2 = poke (\<lambda>m. fst (memset (st32 m (arr + 4 * of_nat i) q) q 0 0x1000)) s1 in
       lbind (strcpy_virt (cr3 (sc_vm s2)) (vm_mem (sc_vm s2)) q p) (\<lambda>m. copy_strings k ctx arr (Suc i) ps (poke (\<lambda>_. m) s2)))"

primrec relocate :: "u32 \<Rightarrow> nat \<Rightarrow> nat \<Rightarrow> mem \<Rightarrow> mem" where
  "relocate arr i 0 m = m"
| "relocate arr i (Suc n) m = relocate arr (Suc i) n (st32 m (arr + 4 * of_nat i) (ld32 m (arr + 4 * of_nat i) + USER_SPACE_OFFSET))"

definition init_elf :: "panic_key \<Rightarrow> u32 \<Rightarrow> u32 \<Rightarrow> u32 \<Rightarrow> u32 \<Rightarrow> 'z sched_scheme \<Rightarrow> (u32 \<times> 'z sched_scheme) res option" where
  "init_elf k trm img av0 ev0 s =
     (let m = vm_mem (sc_vm s) in
      if ld32 m img \<noteq> 0x464C457F then Some (Inr (- 1, s))
      else lbind (Some (init_task k trm (ld32 m (img + 24)) False 0 s)) (\<lambda>(i, s1).
        let ctx = tk_context (tasks s1 ! i); m1 = vm_mem (sc_vm s1);
            count = unat (ld32 m1 (img + 44) AND 0xFFFF) in
        lbind (Some (load_segments k ctx img count (img + ld32 m1 (img + 28)) s1)) (\<lambda>s2.
        lbind (pointers (sc_vm s2) ev0 []) (\<lambda>envs.
        lbind (pointers (sc_vm s2) av0 []) (\<lambda>args.
        lbind (Some (user_page k ctx s2)) (\<lambda>(av, s3).
        lbind (copy_strings k ctx av 0 args s3) (\<lambda>s4.
        lbind (Some (user_page k ctx s4)) (\<lambda>(ev, s5).
        lbind (copy_strings k ctx ev 0 envs s5) (\<lambda>s6.
        let s7 = poke (\<lambda>m. relocate ev 0 (length envs) (relocate av 0 (length args) m)) s6;
            s8 = upd_task i (\<lambda>t. t\<lparr>argv := av + USER_SPACE_OFFSET, envp := ev + USER_SPACE_OFFSET\<rparr>) s7
        in Some (Inr (pid (tasks s8 ! i), s8)))))))))))"

text \<open>
  \<open>read_task_list\<close>. \<open>loc\<close> is the address of the local variable \<open>argv\<close>; an entry of the output has 128 bytes of
  name, the pid and the terminal.
\<close>

definition store_virt32 :: "u32 \<Rightarrow> u32 \<Rightarrow> vm \<Rightarrow> vm res" where
  "store_virt32 a x v = rbind (walk (vm_mem v) (cr3 v) a) (\<lambda>p. Inr (v\<lparr>vm_mem := st32 (vm_mem v) p x\<rparr>))"

definition list_entry :: "u32 \<Rightarrow> u32 \<Rightarrow> task \<Rightarrow> nat \<Rightarrow> vm \<Rightarrow> vm res" where
  "list_entry loc out t j v =
     rbind (vmm_read_context (argv t) loc 4 (tk_context t) v) (\<lambda>v1.
     rbind (load_virt32 v1 loc) (\<lambda>a.
     rbind (vmm_read_context a (out + 136 * of_nat j) 128 (tk_context t) v1) (\<lambda>v2.
     rbind (store_virt32 (out + 136 * of_nat j + 132) (tk_term t) v2) (\<lambda>v3.
     store_virt32 (out + 136 * of_nat j + 128) (pid t) v3))))"

primrec list_loop :: "u32 \<Rightarrow> u32 \<Rightarrow> int \<Rightarrow> task list \<Rightarrow> nat \<Rightarrow> vm \<Rightarrow> (nat \<times> vm) res" where
  "list_loop loc out mx [] j v = Inr (j, v)"
| "list_loop loc out mx (t # ts) j v =
     (if active t then
        rbind (list_entry loc out t j v) (\<lambda>v1. if int (Suc j) \<ge> mx then Inr (Suc j, v1) else list_loop loc out mx ts (Suc j) v1)
      else list_loop loc out mx ts j v)"

definition read_task_list :: "u32 \<Rightarrow> u32 \<Rightarrow> int \<Rightarrow> 'z sched_scheme \<Rightarrow> (nat \<times> 'z sched_scheme) res" where
  "read_task_list loc out mx s =
     rbind (list_loop loc out mx (tasks s) 0 (sc_vm s)) (\<lambda>(j, v). Inr (j, s\<lparr>sc_vm := v\<rparr>))"

section \<open>Which task runs next\<close>

text \<open>A task that may run: active, and not waiting once \<open>d\<close> milliseconds have passed.\<close>

definition ready :: "u32 \<Rightarrow> task \<Rightarrow> bool" where
  "ready d t \<longleftrightarrow> active t \<and> \<not> (0 <s wait_time t \<and> 0 <s wait_time t - d)"

text \<open>The state of the task table that the scheduler relies on.\<close>

definition sched_ok :: "'z sched_scheme \<Rightarrow> bool" where
  "sched_ok s \<longleftrightarrow> length (tasks s) = MAX_TASKS \<and> current_task s < MAX_TASKS \<and> (\<forall>t \<in> set (tasks s). active t \<longrightarrow> registers t \<noteq> NULL)"

definition wait_step :: "u32 \<Rightarrow> task \<Rightarrow> task" where
  "wait_step d t = (if active t \<and> 0 <s wait_time t then t\<lparr>wait_time := wait_time t - d\<rparr> else t)"

definition ticked :: "u32 \<Rightarrow> nat \<Rightarrow> nat \<Rightarrow> task list \<Rightarrow> task list" where
  "ticked d lo hi ts = map (\<lambda>j. if lo \<le> j \<and> j < hi then wait_step d (ts ! j) else ts ! j) [0..<length ts]"

lemma ticked_nth [simp]: "j < length ts \<Longrightarrow> ticked d lo hi ts ! j = (if lo \<le> j \<and> j < hi then wait_step d (ts ! j) else ts ! j)"
  by (simp add: ticked_def)

lemma ticked_length [simp]: "length (ticked d lo hi ts) = length ts"
  by (simp add: ticked_def)

lemma ticked_none: "hi \<le> lo \<Longrightarrow> ticked d lo hi ts = ts"
  by (rule nth_equalityI) auto

lemma ticked_first:
  "i < hi \<Longrightarrow> i < length ts \<Longrightarrow> ticked d (Suc i) hi (ts[i := wait_step d (ts ! i)]) = ticked d i hi ts"
  by (rule nth_equalityI) (auto simp: nth_list_update)

lemma find_upt_Some:
  assumes "find P [a..<b] = Some j"
  shows "a \<le> j" "j < b" "P j" "\<And>i. a \<le> i \<Longrightarrow> i < j \<Longrightarrow> \<not> P i"
proof -
  obtain k where k: "k < b - a" "P ([a..<b] ! k)" "j = [a..<b] ! k" "\<forall>l<k. \<not> P ([a..<b] ! l)"
    using assms unfolding find_Some_iff by auto
  then have j: "j = a + k" by simp
  with k show "a \<le> j" "j < b" "P j" by auto
  fix i
  assume "a \<le> i" "i < j"
  then have "i - a < k" "[a..<b] ! (i - a) = i" using j k(1) by auto
  then show "\<not> P i" using k(4) by metis
qed

lemma find_upt_None: "find P [a..<b] = None \<longleftrightarrow> (\<forall>i. a \<le> i \<and> i < b \<longrightarrow> \<not> P i)"
  by (auto simp: find_None_iff)

lemma switch_loop_Suc:
  assumes "i < length (tasks s)"
  shows "switch_loop d False i (Suc n) s =
    (let t = tasks s ! i; s1 = s\<lparr>tasks := (tasks s)[i := wait_step d t]\<rparr>
     in if ready d t then (registers t, s1\<lparr>current_task := i, sc_vm := vmm_activate_context (tk_context t) (sc_vm s1)\<rparr>)
        else switch_loop d False (Suc i) n s1)"
  using assms by (auto simp: Let_def ready_def wait_step_def upd_task_def)

lemma switch_loop_spec:
  "i + n \<le> length (tasks s) \<Longrightarrow>
   switch_loop d False i n s =
     (case find (\<lambda>j. ready d (tasks s ! j)) [i..<i + n] of
        None \<Rightarrow> (NULL, s\<lparr>tasks := ticked d i (i + n) (tasks s)\<rparr>)
      | Some j \<Rightarrow> (registers (tasks s ! j), s\<lparr>tasks := ticked d i (Suc j) (tasks s), current_task := j,
          sc_vm := vmm_activate_context (tk_context (tasks s ! j)) (sc_vm s)\<rparr>))"
proof (induction n arbitrary: i s)
  case 0
  then show ?case by (simp add: ticked_none)
next
  case (Suc n)
  let ?s1 = "s\<lparr>tasks := (tasks s)[i := wait_step d (tasks s ! i)]\<rparr>"
  have i: "i < length (tasks s)" using Suc.prems by simp
  have up: "[i..<i + Suc n] = i # [Suc i..<Suc i + n]" by (simp add: upt_conv_Cons)
  show ?case
  proof (cases "ready d (tasks s ! i)")
    case True
    have "ticked d i (Suc i) (tasks s) = (tasks s)[i := wait_step d (tasks s ! i)]"
      using i by (intro nth_equalityI) (auto simp: nth_list_update)
    with True show ?thesis unfolding switch_loop_Suc [OF i] up by (simp add: Let_def)
  next
    case False
    have f: "find (\<lambda>j. ready d (tasks ?s1 ! j)) [Suc i..<Suc i + n] = find (\<lambda>j. ready d (tasks s ! j)) [Suc i..<Suc i + n]"
      by (rule find_cong) auto
    have IH: "switch_loop d False (Suc i) n ?s1 =
       (case find (\<lambda>j. ready d (tasks s ! j)) [Suc i..<Suc i + n] of
          None \<Rightarrow> (NULL, ?s1\<lparr>tasks := ticked d (Suc i) (Suc i + n) (tasks ?s1)\<rparr>)
        | Some j \<Rightarrow> (registers (tasks ?s1 ! j), ?s1\<lparr>tasks := ticked d (Suc i) (Suc j) (tasks ?s1), current_task := j,
            sc_vm := vmm_activate_context (tk_context (tasks ?s1 ! j)) (sc_vm ?s1)\<rparr>))"
      using Suc.IH [of "Suc i" ?s1] Suc.prems unfolding f by simp
    have j: "Suc i \<le> j \<and> j < Suc i + n" if "find (\<lambda>j. ready d (tasks s ! j)) [Suc i..<Suc i + n] = Some j" for j
      using find_upt_Some(1,2) [OF that] by simp
    show ?thesis
      unfolding switch_loop_Suc [OF i] up using False IH i j
      by (auto simp: Let_def ticked_first split: option.splits)
  qed
qed

lemma switch_loop_ignore:
  "i + n \<le> length (tasks s) \<Longrightarrow>
   switch_loop d True i n s =
     (case find (\<lambda>j. active (tasks s ! j)) [i..<i + n] of
        None \<Rightarrow> (NULL, s)
      | Some j \<Rightarrow> (registers (tasks s ! j), s\<lparr>current_task := j,
          sc_vm := vmm_activate_context (tk_context (tasks s ! j)) (sc_vm s)\<rparr>))"
proof (induction n arbitrary: i)
  case (Suc n)
  have up: "[i..<i + Suc n] = i # [Suc i..<Suc i + n]" by (simp add: upt_conv_Cons)
  show ?case unfolding up using Suc by (simp add: Let_def)
qed simp

lemma wait_step_fields [simp]:
  "active (wait_step d t) = active t" "registers (wait_step d t) = registers t" "tk_context (wait_step d t) = tk_context t"
  "pin (wait_step d t) = pin t" "tk_term (wait_step d t) = tk_term t"
  by (simp_all add: wait_step_def)

text \<open>Two task tables that differ in waiting times only.\<close>

definition same_tasks :: "task list \<Rightarrow> task list \<Rightarrow> bool" where
  "same_tasks ts us \<longleftrightarrow> length us = length ts \<and> (\<forall>i < length ts. (us ! i)\<lparr>wait_time := 0\<rparr> = (ts ! i)\<lparr>wait_time := 0\<rparr>)"

lemma same_tasks_ticked: "same_tasks ts us \<Longrightarrow> same_tasks ts (ticked d lo hi us)"
  by (auto simp: same_tasks_def wait_step_def)

lemma same_tasks_refl [simp]: "same_tasks ts ts"
  by (simp add: same_tasks_def)

lemma same_tasks_fields:
  assumes "same_tasks ts us" "i < length ts"
  shows "active (us ! i) = active (ts ! i)" "registers (us ! i) = registers (ts ! i)" "tk_context (us ! i) = tk_context (ts ! i)"
proof -
  have "(us ! i)\<lparr>wait_time := 0\<rparr> = (ts ! i)\<lparr>wait_time := 0\<rparr>" using assms by (simp add: same_tasks_def)
  then show "active (us ! i) = active (ts ! i)" "registers (us ! i) = registers (ts ! i)" "tk_context (us ! i) = tk_context (ts ! i)"
    by (metis task.ext_inject task.surjective task.update_convs(12))+
qed

text \<open>What a pass over the table does to the state: it runs an active task, or changes waiting times only.\<close>

definition picked :: "'z sched_scheme \<Rightarrow> nat \<Rightarrow> 'z sched_scheme \<Rightarrow> bool" where
  "picked s j s' \<longleftrightarrow> j < MAX_TASKS \<and> active (tasks s ! j) \<and> current_task s' = j \<and> same_tasks (tasks s) (tasks s') \<and>
     sc_vm s' = vmm_activate_context (tk_context (tasks s ! j)) (sc_vm s)"

lemma pass_picks:
  assumes "length (tasks s) = MAX_TASKS" "same_tasks (tasks s) (tasks s1)" "sc_vm s1 = sc_vm s" "i \<le> MAX_TASKS"
    and "switch_to_next_task i d ign s1 = (r, s2)"
    and "\<forall>t \<in> set (tasks s). active t \<longrightarrow> registers t \<noteq> NULL"
  shows "(\<exists>j. r = registers (tasks s ! j) \<and> r \<noteq> NULL \<and> picked s j s2) \<or>
    r = NULL \<and> same_tasks (tasks s) (tasks s2) \<and> sc_vm s2 = sc_vm s \<and>
    (ign \<longrightarrow> (\<forall>j. i \<le> j \<and> j < MAX_TASKS \<longrightarrow> \<not> active (tasks s ! j)))"
proof -
  have l: "length (tasks s1) = MAX_TASKS" using assms(1,2) by (simp add: same_tasks_def)
  let ?P = "\<lambda>j. if ign then active (tasks s1 ! j) else ready d (tasks s1 ! j)"
  have e: "switch_to_next_task i d ign s1 = (case find ?P [i..<MAX_TASKS] of
        None \<Rightarrow> (NULL, if ign then s1 else s1\<lparr>tasks := ticked d i MAX_TASKS (tasks s1)\<rparr>)
      | Some j \<Rightarrow> (registers (tasks s1 ! j), (if ign then s1 else s1\<lparr>tasks := ticked d i (Suc j) (tasks s1)\<rparr>)\<lparr>current_task := j,
          sc_vm := vmm_activate_context (tk_context (tasks s1 ! j)) (sc_vm s1)\<rparr>))"
    using switch_loop_spec [of i "MAX_TASKS - i" s1 d] switch_loop_ignore [of i "MAX_TASKS - i" s1 d] l assms(4)
    by (simp add: switch_to_next_task_def split: option.splits)
  show ?thesis
  proof (cases "find ?P [i..<MAX_TASKS]")
    case None
    have "r = NULL" "s2 = (if ign then s1 else s1\<lparr>tasks := ticked d i MAX_TASKS (tasks s1)\<rparr>)"
      using assms(5) unfolding e None by simp_all
    moreover have "\<not> active (tasks s ! j)" if "ign" "i \<le> j" "j < MAX_TASKS" for j
      using None that same_tasks_fields(1) [OF assms(2)] assms(1) unfolding find_upt_None by auto
    ultimately show ?thesis using assms(2,3) same_tasks_ticked by auto
  next
    case (Some j)
    note j = find_upt_Some [OF Some]
    have js: "j < length (tasks s)" using j(2) assms(1) by simp
    note t = same_tasks_fields [OF assms(2) js]
    have a: "active (tasks s ! j)" using j(3) t(1) by (auto simp: ready_def split: if_splits)
    then have "registers (tasks s ! j) \<noteq> NULL" using assms(6) js by simp
    moreover have "r = registers (tasks s ! j)" "picked s j s2"
      using assms(5) a j(2) t assms(2,3) same_tasks_ticked unfolding e Some picked_def by auto
    ultimately show ?thesis by blast
  qed
qed

lemma sched_ok_picked:
  assumes "sched_ok s" "picked s j s'"
  shows "sched_ok s'"
proof -
  have "registers (tasks s' ! i) \<noteq> NULL" if "i < length (tasks s')" "active (tasks s' ! i)" for i
    using assms same_tasks_fields [of "tasks s" "tasks s'" i] that by (auto simp: sched_ok_def picked_def same_tasks_def)
  then show ?thesis using assms by (auto simp: sched_ok_def picked_def same_tasks_def all_set_conv_all_nth)
qed

text \<open>
  \<open>schedule\<close>, called on the boot processor while the scheduler runs and the current task is not pinned to
  the terminal: when a task is active it returns the registers of an active task, makes that the current task
  and activates its address space; the task table changes in waiting times only. It
  panics exactly when no task is active.
\<close>

lemma schedule_runs_active:
  assumes "sched_ok s" "is_scheduler_running s" "\<not> (pin (tasks s ! current_task s) \<and> tk_term (tasks s ! current_task s) = trm)"
  shows "if \<exists>t \<in> set (tasks s). active t
    then \<exists>j s'. schedule k True trm time_ms regs s = Inr (registers (tasks s ! j), s') \<and> picked s j s' \<and> sched_ok s' \<and>
      cr3 (sc_vm s') = pagedir (vm_mem (sc_vm s)) (tk_context (tasks s ! j))
    else \<exists>s'. schedule k True trm time_ms regs s = rbind (abortf k) (\<lambda>_. Inr (regs, s'))"
proof -
  define d where "d = time_ms - last_time_ms s"
  define s0 where "s0 = s\<lparr>last_time_ms := time_ms\<rparr>"
  obtain r1 s1 where p1: "switch_to_next_task (current_task s0 + 1) d False s0 = (r1, s1)" by fastforce
  obtain r2 s2 where p2: "switch_to_next_task 0 d False s1 = (r2, s2)" by fastforce
  obtain r3 s3 where p3: "switch_to_next_task 0 d True s2 = (r3, s3)" by fastforce
  have S: "schedule k True trm time_ms regs s = (if r1 \<noteq> NULL then Inr (r1, s1) else if r2 \<noteq> NULL then Inr (r2, s2)
      else if r3 \<noteq> NULL then Inr (r3, s3) else rbind (abortf k) (\<lambda>_. Inr (regs, s3)))"
    using assms(2,3) p1 p2 p3 by (auto simp: schedule_def Let_def s0_def d_def)
  have len: "length (tasks s) = MAX_TASKS" and cur: "current_task s + 1 \<le> MAX_TASKS"
    and reg: "\<forall>t \<in> set (tasks s). active t \<longrightarrow> registers t \<noteq> NULL"
    using assms(1) by (auto simp: sched_ok_def)
  have 1: "(\<exists>j. r1 = registers (tasks s ! j) \<and> r1 \<noteq> NULL \<and> picked s j s1) \<or>
      r1 = NULL \<and> same_tasks (tasks s) (tasks s1) \<and> sc_vm s1 = sc_vm s"
    using pass_picks [OF len _ _ _ p1 reg] cur by (simp add: s0_def)
  have 2: "(\<exists>j. r2 = registers (tasks s ! j) \<and> r2 \<noteq> NULL \<and> picked s j s2) \<or>
      r2 = NULL \<and> same_tasks (tasks s) (tasks s2) \<and> sc_vm s2 = sc_vm s" if "r1 = NULL"
    using pass_picks [OF len _ _ _ p2 reg] 1 that by simp
  have 3: "(\<exists>j. r3 = registers (tasks s ! j) \<and> r3 \<noteq> NULL \<and> picked s j s3) \<or>
      r3 = NULL \<and> (\<forall>j. j < MAX_TASKS \<longrightarrow> \<not> active (tasks s ! j))" if "r1 = NULL" "r2 = NULL"
    using pass_picks [OF len _ _ _ p3 reg] 2 that by auto
  have fin: "\<exists>j s'. Inr (r, t) = Inr (registers (tasks s ! j), s') \<and> picked s j s' \<and> sched_ok s' \<and>
      cr3 (sc_vm s') = pagedir (vm_mem (sc_vm s)) (tk_context (tasks s ! j))"
    if "\<exists>j. r = registers (tasks s ! j) \<and> r \<noteq> NULL \<and> picked s j t" for r t
    using that sched_ok_picked [OF assms(1)] by (auto simp: picked_def vmm_activate_context_def)
  have none: "r1 = NULL" "r2 = NULL" "r3 = NULL" if "\<not> (\<exists>t \<in> set (tasks s). active t)"
    using 1 2 3 that len by (auto simp: picked_def all_set_conv_all_nth)
  show ?thesis
  proof (cases "\<exists>t \<in> set (tasks s). active t")
    case True
    have "\<exists>j<MAX_TASKS. active (tasks s ! j)" using True len by (metis in_set_conv_nth)
    then have "r1 \<noteq> NULL \<or> r2 \<noteq> NULL \<or> r3 \<noteq> NULL" using 3 by blast
    then consider "r1 \<noteq> NULL" | "r1 = NULL" "r2 \<noteq> NULL" | "r1 = NULL" "r2 = NULL" "r3 \<noteq> NULL" by blast
    then show ?thesis
    proof cases
      case a: 1
      show ?thesis unfolding S if_P [OF True] if_P [OF a] by (rule fin) (use 1 a in blast)
    next
      case b: 2
      show ?thesis unfolding S if_P [OF True] using b fin [of r2 s2] 2 [OF b(1)] by simp
    next
      case c: 3
      show ?thesis unfolding S if_P [OF True] using c fin [of r3 s3] 3 [OF c(1,2)] by simp
    qed
  next
    case False
    then show ?thesis unfolding S using none by auto
  qed
qed

text \<open>A table with two active tasks, 3 and 5; task 3 runs.\<close>

definition two_tasks :: sched where
  "two_tasks = \<lparr>tasks = (replicate MAX_TASKS zero_task)
       [3 := zero_task\<lparr>active := True, registers := 0x1000\<rparr>, 5 := zero_task\<lparr>active := True, registers := 0x2000\<rparr>],
     current_pid = 2, current_task = 3, last_time_ms = 0, is_scheduler_running = True,
     sc_vm = \<lparr>vm_pmm = full_pmm, vm_mem = (\<lambda>_. 0), kernel_context = 0, vm_tasks = [], cr3 = 0, paging_on = True\<rparr>\<rparr>"

lemma two_tasks_ok:
  "sched_ok two_tasks" "is_scheduler_running two_tasks" "\<And>t. t \<in> set (tasks two_tasks) \<Longrightarrow> wait_time t = 0 \<and> \<not> pin t"
  "active (tasks two_tasks ! 5)" "length (tasks two_tasks) = MAX_TASKS" "current_task two_tasks = 3"
  "last_time_ms two_tasks = 0"
  by (auto simp: sched_ok_def two_tasks_def zero_task_def dest!: set_update_subset_insert [THEN subsetD])

section \<open>Fairness\<close>

text \<open>No active task waits or is pinned to a terminal.\<close>

definition all_run :: "'z sched_scheme \<Rightarrow> bool" where
  "all_run s \<longleftrightarrow> sched_ok s \<and> is_scheduler_running s \<and> (\<forall>t \<in> set (tasks s). \<not> pin t \<and> (active t \<longrightarrow> \<not> 0 <s wait_time t))"

lemma all_run_task:
  assumes "all_run s" "i < MAX_TASKS"
  shows "ready d (tasks s ! i) = active (tasks s ! i)" "wait_step d (tasks s ! i) = tasks s ! i" "\<not> pin (tasks s ! i)"
    "active (tasks s ! i) \<Longrightarrow> registers (tasks s ! i) \<noteq> NULL"
proof -
  have "tasks s ! i \<in> set (tasks s)" using assms by (simp add: all_run_def sched_ok_def)
  then show "ready d (tasks s ! i) = active (tasks s ! i)" "wait_step d (tasks s ! i) = tasks s ! i" "\<not> pin (tasks s ! i)"
    "active (tasks s ! i) \<Longrightarrow> registers (tasks s ! i) \<noteq> NULL"
    using assms(1) by (auto simp: all_run_def sched_ok_def ready_def wait_step_def)
qed

lemma all_run_pass:
  assumes "all_run s" "i \<le> MAX_TASKS"
  shows "switch_to_next_task i d False s = (case find (\<lambda>j. active (tasks s ! j)) [i..<MAX_TASKS] of
      None \<Rightarrow> (NULL, s)
    | Some j \<Rightarrow> (registers (tasks s ! j), s\<lparr>current_task := j,
        sc_vm := vmm_activate_context (tk_context (tasks s ! j)) (sc_vm s)\<rparr>))"
proof -
  have l: "length (tasks s) = MAX_TASKS" using assms(1) by (simp add: all_run_def sched_ok_def)
  have t: "ticked d lo hi (tasks s) = tasks s" for lo hi
    by (rule nth_equalityI) (use l all_run_task(2) [OF assms(1)] in auto)
  have f: "find (\<lambda>j. ready d (tasks s ! j)) [i..<MAX_TASKS] = find (\<lambda>j. active (tasks s ! j)) [i..<MAX_TASKS]"
    by (rule find_cong) (use all_run_task(1) [OF assms(1)] in auto)
  show ?thesis
    using switch_loop_spec [of i "MAX_TASKS - i" s d] l assms(2)
    by (simp add: switch_to_next_task_def f t split: option.splits)
qed

text \<open>The next active task in cyclic order, after the current one.\<close>

definition next_task :: "'z sched_scheme \<Rightarrow> nat option" where
  "next_task s = find (\<lambda>j. active (tasks s ! j)) ([current_task s + 1..<MAX_TASKS] @ [0..<MAX_TASKS])"

lemma find_append: "find P (xs @ ys) = (case find P xs of None \<Rightarrow> find P ys | Some x \<Rightarrow> Some x)"
  by (induction xs) auto

lemma schedule_next:
  assumes "all_run s" "next_task s = Some j"
  shows "\<exists>v. schedule k True trm time_ms regs s =
    Inr (registers (tasks s ! j), s\<lparr>last_time_ms := time_ms, current_task := j, sc_vm := v\<rparr>)"
proof -
  have c: "current_task s + 1 \<le> MAX_TASKS" "current_task s < MAX_TASKS" using assms(1) by (auto simp: all_run_def sched_ok_def)
  define s0 where "s0 = s\<lparr>last_time_ms := time_ms\<rparr>"
  have s0: "all_run s0" using assms(1) by (simp add: s0_def all_run_def sched_ok_def)
  have e: "tasks s0 = tasks s" "current_task s0 = current_task s" "sc_vm s0 = sc_vm s" by (simp_all add: s0_def)
  have run: "is_scheduler_running s" "\<not> pin (tasks s ! current_task s)"
    using assms(1) all_run_task(3) [OF assms(1) c(2)] by (auto simp: all_run_def)
  note pass = all_run_pass [OF s0, of _ "time_ms - last_time_ms s", unfolded e]
  have S: "schedule k True trm time_ms regs s =
      (let (r1, s1) = switch_to_next_task (current_task s + 1) (time_ms - last_time_ms s) False s0
       in if r1 \<noteq> NULL then Inr (r1, s1)
          else let (r2, s2) = switch_to_next_task 0 (time_ms - last_time_ms s) False s1
               in if r2 \<noteq> NULL then Inr (r2, s2)
                  else let (r3, s3) = switch_to_next_task 0 (time_ms - last_time_ms s) True s2
                       in if r3 \<noteq> NULL then Inr (r3, s3) else rbind (abortf k) (\<lambda>_. Inr (regs, s3)))"
    using run by (simp add: schedule_def Let_def s0_def)
  have bound: "j' < MAX_TASKS \<and> active (tasks s ! j')" if "find (\<lambda>j. active (tasks s ! j)) [a..<MAX_TASKS] = Some j'" for a j'
    using find_upt_Some(2,3) [OF that] by simp
  show ?thesis
  proof (cases "find (\<lambda>j. active (tasks s ! j)) [current_task s + 1..<MAX_TASKS]")
    case (Some j')
    then have "j' = j" using assms(2) by (simp add: next_task_def find_append)
    then have "registers (tasks s ! j) \<noteq> NULL" using bound [OF Some] all_run_task(4) [OF assms(1)] by simp
    then show ?thesis unfolding S pass [OF c(1)] Some Let_def
      by (intro exI [of _ "vmm_activate_context (tk_context (tasks s ! j)) (sc_vm s)"]) (simp add: \<open>j' = j\<close> s0_def)
  next
    case None
    then have j: "find (\<lambda>j. active (tasks s ! j)) [0..<MAX_TASKS] = Some j"
      using assms(2) by (simp add: next_task_def find_append)
    then have "registers (tasks s ! j) \<noteq> NULL" using bound [OF j] all_run_task(4) [OF assms(1)] by simp
    then show ?thesis unfolding S pass [OF c(1)] None Let_def using pass [of 0] j
      by (intro exI [of _ "vmm_activate_context (tk_context (tasks s ! j)) (sc_vm s)"]) (simp add: s0_def)
  qed
qed

text \<open>A sequence of timer interrupts at the given times.\<close>

primrec ticks :: "panic_key \<Rightarrow> u32 \<Rightarrow> u32 \<Rightarrow> u32 list \<Rightarrow> 'z sched_scheme \<Rightarrow> 'z sched_scheme res" where
  "ticks k trm regs [] s = Inr s"
| "ticks k trm regs (t # ts) s = rbind (schedule k True trm t regs s) (\<lambda>(_, s1). ticks k trm regs ts s1)"

definition turns :: "nat \<Rightarrow> nat \<Rightarrow> nat" where
  "turns c j = (if c < j then j - c else MAX_TASKS + j - c)"

lemma next_task_turns:
  assumes "sched_ok s" "j < MAX_TASKS" "active (tasks s ! j)"
  obtains i where "next_task s = Some i" "i < MAX_TASKS" "i = j \<or> turns i j < turns (current_task s) j"
proof (cases "find (\<lambda>j. active (tasks s ! j)) [current_task s + 1..<MAX_TASKS]")
  case (Some i)
  note f = find_upt_Some [OF Some]
  have "\<not> (current_task s < j \<and> j < i)" using f(4) [of j] assms(3) by auto
  then have "i = j \<or> turns i j < turns (current_task s) j" using f(1,2) assms(2) by (auto simp: turns_def)
  with Some f(2) show ?thesis by (intro that [of i]) (simp_all add: next_task_def find_append)
next
  case None
  have c: "j \<le> current_task s"
  proof (rule ccontr)
    assume "\<not> j \<le> current_task s"
    then have "current_task s + 1 \<le> j" by simp
    then show False using None assms(2,3) unfolding find_upt_None by blast
  qed
  obtain i where i: "find (\<lambda>j. active (tasks s ! j)) [0..<MAX_TASKS] = Some i"
    using assms(2,3) find_upt_None [of "\<lambda>j. active (tasks s ! j)" 0 MAX_TASKS] by (cases "find (\<lambda>j. active (tasks s ! j)) [0..<MAX_TASKS]") auto
  note f = find_upt_Some [OF i]
  have "i \<le> j" using f(4) [of j] assms(3) by (cases "i \<le> j") auto
  moreover have "current_task s < MAX_TASKS" using assms(1) by (simp add: sched_ok_def)
  ultimately have "i = j \<or> turns i j < turns (current_task s) j" using c by (auto simp: turns_def)
  with None i f(2) show ?thesis by (intro that [of i]) (simp_all add: next_task_def find_append)
qed

lemma all_run_step: "all_run s \<Longrightarrow> j < MAX_TASKS \<Longrightarrow> all_run (s\<lparr>last_time_ms := t, current_task := j, sc_vm := v\<rparr>)"
  by (simp add: all_run_def sched_ok_def)

text \<open>
  C13. Round robin. While no active task waits or is pinned, every active task gets its turn within
  \<open>MAX_TASKS\<close> timer interrupts, whatever their times, and the task table stays as it is.
\<close>

theorem schedule_fair:
  assumes "all_run s" "j < MAX_TASKS" "active (tasks s ! j)" "length tms = MAX_TASKS"
  shows "\<exists>n s'. 1 \<le> n \<and> n \<le> MAX_TASKS \<and> ticks k trm regs (take n tms) s = Inr s' \<and> current_task s' = j \<and> tasks s' = tasks s"
proof -
  have "\<exists>n s'. 1 \<le> n \<and> n \<le> turns (current_task s) j \<and> ticks k trm regs (take n tms) s = Inr s' \<and> current_task s' = j \<and> tasks s' = tasks s"
    if "turns (current_task s) j \<le> length tms" for tms
    using assms(1,3) that
  proof (induction "turns (current_task s) j" arbitrary: s tms rule: less_induct)
    case less
    have ok: "sched_ok s" using less.prems(1) by (simp add: all_run_def)
    obtain i where i: "next_task s = Some i" "i < MAX_TASKS" "i = j \<or> turns i j < turns (current_task s) j"
      by (rule next_task_turns [OF ok assms(2) less.prems(2)])
    have pos: "1 \<le> turns (current_task s) j" using ok assms(2) by (auto simp: turns_def sched_ok_def)
    then obtain t ts where tms: "tms = t # ts" using less.prems(3) by (cases tms) auto
    obtain v where v: "schedule k True trm t regs s = Inr (registers (tasks s ! i), s\<lparr>last_time_ms := t, current_task := i, sc_vm := v\<rparr>)"
      using schedule_next [OF less.prems(1) i(1)] by blast
    let ?s1 = "s\<lparr>last_time_ms := t, current_task := i, sc_vm := v\<rparr>"
    show ?case
    proof (cases "i = j")
      case True
      then show ?thesis using v pos by (intro exI [of _ 1] exI [of _ ?s1]) (simp add: tms)
    next
      case False
      then have lt: "turns (current_task ?s1) j < turns (current_task s) j" using i(3) by simp
      have "\<exists>n s'. 1 \<le> n \<and> n \<le> turns (current_task ?s1) j \<and> ticks k trm regs (take n ts) ?s1 = Inr s' \<and> current_task s' = j \<and> tasks s' = tasks ?s1"
        by (rule less.hyps [OF lt all_run_step [OF less.prems(1) i(2)]])
          (use less.prems(2,3) lt tms in simp_all)
      then obtain n s' where n: "n \<le> turns i j" "ticks k trm regs (take n ts) ?s1 = Inr s'" "current_task s' = j" "tasks s' = tasks s"
        by auto
      then show ?thesis using v lt by (intro exI [of _ "Suc n"] exI [of _ s']) (simp add: tms)
    qed
  qed
  moreover have "turns (current_task s) j \<le> MAX_TASKS" using assms(2) by (auto simp: turns_def)
  ultimately show ?thesis using assms(4) by (metis le_trans)
qed

theorem schedule_fair_witness:
  "\<exists>n s'. 1 \<le> n \<and> n \<le> MAX_TASKS \<and> ticks KeyH 0 0 (take n (replicate MAX_TASKS 7)) two_tasks = Inr s' \<and> current_task s' = 5"
proof -
  have "all_run two_tasks" using two_tasks_ok by (auto simp: all_run_def)
  from schedule_fair [OF this, of 5 "replicate MAX_TASKS 7" KeyH 0 0] two_tasks_ok(4) show ?thesis by auto
qed

text \<open>
  A pass that finds no task ready has already reduced the waiting times, and the next pass reduces them again: with
  one task that waits 30 milliseconds, a single call after 10 milliseconds leaves 10 to wait.
\<close>

definition one_waits :: "u32 \<Rightarrow> task list" where
  "one_waits w = (replicate MAX_TASKS zero_task)[5 := zero_task\<lparr>active := True, registers := 0x2000, wait_time := w\<rparr>]"

lemma one_waits_nth:
  "j < MAX_TASKS \<Longrightarrow> one_waits w ! j = (if j = 5 then zero_task\<lparr>active := True, registers := 0x2000, wait_time := w\<rparr> else zero_task)"
  by (simp add: one_waits_def nth_list_update)

lemma one_waits_ticked:
  "0 <s w \<Longrightarrow> lo \<le> 5 \<Longrightarrow> ticked d lo MAX_TASKS (one_waits w) = one_waits (w - d)"
  by (rule nth_equalityI) (auto simp: one_waits_nth wait_step_def zero_task_def, auto simp: one_waits_def)

lemma one_waits_pass:
  assumes "tasks s = one_waits w" "0 <s w" "0 <s w - d" "lo \<le> 5"
  shows "switch_to_next_task lo d False s = (NULL, s\<lparr>tasks := one_waits (w - d)\<rparr>)"
proof -
  have l: "length (one_waits w) = MAX_TASKS" by (simp add: one_waits_def)
  have "find (\<lambda>j. ready d (one_waits w ! j)) [lo..<MAX_TASKS] = None"
    unfolding find_upt_None using assms(2,3) by (auto simp: one_waits_nth ready_def zero_task_def)
  then show ?thesis
    using switch_loop_spec [of lo "MAX_TASKS - lo" s d] assms l by (simp add: switch_to_next_task_def one_waits_ticked)
qed

lemma schedule_reduces_twice:
  "\<exists>s'. schedule KeyX True 0 10 0 (two_tasks\<lparr>tasks := one_waits 30\<rparr>) = Inr (0x2000, s') \<and> wait_time (tasks s' ! 5) = 10"
proof -
  define s0 where "s0 = two_tasks\<lparr>tasks := one_waits 30, last_time_ms := 10\<rparr>"
  have 1: "switch_to_next_task 4 10 False s0 = (NULL, s0\<lparr>tasks := one_waits 20\<rparr>)"
    using one_waits_pass [of s0 30 10 4] by (simp add: s0_def word_sless_alt)
  have 2: "switch_to_next_task 0 10 False (s0\<lparr>tasks := one_waits 20\<rparr>) = (NULL, s0\<lparr>tasks := one_waits 10\<rparr>)"
    using one_waits_pass [of "s0\<lparr>tasks := one_waits 20\<rparr>" 20 10 0] by (simp add: word_sless_alt)
  have f: "find (\<lambda>j. active (one_waits 10 ! j)) [0..<MAX_TASKS] = Some 5"
  proof (cases "find (\<lambda>j. active (one_waits 10 ! j)) [0..<MAX_TASKS]")
    case None
    then show ?thesis unfolding find_upt_None by (auto dest!: spec [of _ 5] simp: one_waits_nth)
  next
    case (Some j)
    from find_upt_Some(2,3) [OF Some] have "j = 5" by (auto simp: one_waits_nth zero_task_def split: if_splits)
    with Some show ?thesis by simp
  qed
  have 3: "\<exists>v. switch_to_next_task 0 10 True (s0\<lparr>tasks := one_waits 10\<rparr>) = (0x2000, s0\<lparr>tasks := one_waits 10, current_task := 5, sc_vm := v\<rparr>)"
    using switch_loop_ignore [of 0 MAX_TASKS "s0\<lparr>tasks := one_waits 10\<rparr>" 10] f
    by (auto simp: switch_to_next_task_def one_waits_nth one_waits_def)
  have z: "last_time_ms (two_tasks\<lparr>tasks := one_waits 30\<rparr>) = 0" "current_task (two_tasks\<lparr>tasks := one_waits 30\<rparr>) = 3"
    "current_task ((two_tasks\<lparr>tasks := one_waits 30\<rparr>)\<lparr>last_time_ms := 10\<rparr>) = 3"
    using two_tasks_ok(6,7) by simp_all
  have p: "\<not> pin (one_waits 30 ! 3)" by (simp add: one_waits_nth zero_task_def)
  have "schedule KeyX True 0 10 0 (two_tasks\<lparr>tasks := one_waits 30\<rparr>) =
      (let (r, s3) = switch_to_next_task 0 10 True (s0\<lparr>tasks := one_waits 10\<rparr>)
       in if r \<noteq> NULL then Inr (r, s3) else Inr (0, s3))"
    unfolding schedule_def Let_def z using 1 2 p two_tasks_ok(2) by (simp add: s0_def [symmetric] split: prod.split)
  with 3 show ?thesis by (auto simp: one_waits_nth)
qed

section \<open>Tasks and their resources\<close>

lemma free_slot_Some: "free_slot ts = Some i \<Longrightarrow> i < length ts \<and> \<not> active (ts ! i) \<and> (\<forall>j<i. active (ts ! j))"
proof (induction ts arbitrary: i)
  case (Cons t ts)
  then show ?case by (auto simp: less_Suc_eq_0_disj split: if_splits)
qed simp

lemma free_slot_None: "free_slot ts = None \<longleftrightarrow> (\<forall>t \<in> set ts. active t)"
  by (induction ts) auto

lemma find_pid_Some: "find_pid p ts = Some i \<Longrightarrow> i < length ts \<and> active (ts ! i) \<and> pid (ts ! i) = p"
proof (induction ts arbitrary: i)
  case (Cons t ts)
  then show ?case by (auto split: if_splits)
qed simp

lemma count_active_length: "count_active ts = length (filter active ts)"
  by (induction ts) auto

text \<open>The steps of \<open>init_task\<close> on the memory leave the task table alone.\<close>

lemma on_vm_tasks: "on_vm f s = Inr (x, s') \<Longrightarrow> \<exists>v. s' = s\<lparr>sc_vm := v\<rparr>"
  by (auto simp: on_vm_def rbind_eq_Inr split: prod.splits)

lemma map_user_pages_tasks: "map_user_pages k ctx ptr i n s = Inr s' \<Longrightarrow> \<exists>v. s' = s\<lparr>sc_vm := v\<rparr>"
proof (induction n arbitrary: i s)
  case 0
  then show ?case by (intro exI [of _ "sc_vm s"]) simp
next
  case (Suc n)
  then obtain x s1 where "on_vm (vmm_map_page k ctx (ptr + of_nat i * 4096 + USER_SPACE_OFFSET) (ptr + of_nat i * 4096)
      (PTE_PRESENT OR PTE_WRITE OR PTE_USER)) s = Inr (x, s1)" "map_user_pages k ctx ptr (Suc i) n s1 = Inr s'"
    by (auto simp: rbind_eq_Inr)
  from on_vm_tasks [OF this(1)] Suc.IH [OF this(2)] show ?case by auto
qed

text \<open>A new task gets the first free slot and the next pid, is active, and leaves every other task as it was.\<close>

lemma init_task_slot:
  assumes "init_task k trm entry thread par s = Inr (i, s')"
  shows "free_slot (tasks s) = Some i" "\<exists>t. tasks s' = (tasks s)[i := t] \<and> active t \<and> pid t = current_pid s \<and>
      tk_term t = trm \<and> wait_time t = 0 \<and> \<not> pin t \<and> resources t = None \<and> num_resources t = 0"
    "current_pid s' = current_pid s + 1" "is_scheduler_running s' = is_scheduler_running s" "current_task s' = current_task s"
proof -
  obtain j where j: "free_slot (tasks s) = Some j"
    using assms by (auto simp: init_task_def Let_def split: option.splits)
  then have len: "j < length (tasks s)" using free_slot_Some by blast
  show "free_slot (tasks s) = Some i" "\<exists>t. tasks s' = (tasks s)[i := t] \<and> active t \<and> pid t = current_pid s \<and>
      tk_term t = trm \<and> wait_time t = 0 \<and> \<not> pin t \<and> resources t = None \<and> num_resources t = 0"
    "current_pid s' = current_pid s + 1" "is_scheduler_running s' = is_scheduler_running s" "current_task s' = current_task s"
    using assms len
    by (auto simp: init_task_def Let_def j rbind_eq_Inr upd_task_def zero_task_def split: if_splits
        dest!: on_vm_tasks map_user_pages_tasks)
qed

text \<open>The calls of a task's deallocation functions, when they do not change the task table.\<close>

lemma dealloc_loop_runs:
  assumes "resources (tasks s ! i) = Some rs" "j + n = length rs" "\<And>d r s. tasks (f d r s) = tasks s"
  shows "dealloc_loop (\<lambda>d r s. Inr (f d r s)) i j n s =
    Inr (fold (\<lambda>(d, r). f d r) (filter (\<lambda>(d, r). r \<noteq> NoResource) (drop j rs)) s)"
  using assms
proof (induction n arbitrary: j s)
  case (Suc n)
  obtain d r where r: "rs ! j = (d, r)" by fastforce
  have dr: "drop j rs = (d, r) # drop (Suc j) rs" using Suc.prems(2) r by (metis Cons_nth_drop_Suc less_add_Suc1 add_Suc_right)
  show ?case
  proof (cases "r = NoResource")
    case True
    then show ?thesis using Suc.IH [of s "Suc j"] Suc.prems r by (simp add: dr)
  next
    case False
    then show ?thesis using Suc.IH [of "f d r s" "Suc j"] Suc.prems r by (simp add: dr)
  qed
qed simp

text \<open>
  What ending a task does with its resources: the deallocation function of every resource that is still registered
  is called once, in the order of the table, and no other; the task has no resources afterwards.
\<close>

lemma resource_dealloc_runs:
  assumes "resources (tasks s ! i) = Some rs" "num_resources (tasks s ! i) = length rs" "\<And>d r s. tasks (f d r s) = tasks s"
  shows "resource_dealloc (\<lambda>d r s. Inr (f d r s)) i s =
    Inr (upd_task i (\<lambda>t. t\<lparr>resources := None\<rparr>) (fold (\<lambda>(d, r). f d r) (filter (\<lambda>(d, r). r \<noteq> NoResource) rs) s))"
  using dealloc_loop_runs [OF assms(1) _ assms(3), of 0 "length rs"] assms(2) by (simp add: resource_dealloc_def)

end
