(* ===== verification/Paths.thy ===== *)
theory Paths
  imports KString Panic
begin

text \<open>
  Paths and file contents, the ground of the file systems. A C string is the list of its bytes before the
  terminating NUL; what the kernel's string functions do on such strings in memory is shown in \<open>KString\<close>. The
  locales say what a mounted file system promises for the contents of its files.
\<close>

abbreviation SLASH :: u8 where "SLASH \<equiv> 0x2F"
abbreviation COLON :: u8 where "COLON \<equiv> 0x3A"

text \<open>\<open>copy_until\<close>: the part before the delimiter, and the rest behind it.\<close>

definition cut_until :: "u8 \<Rightarrow> u8 list \<Rightarrow> u8 list \<times> u8 list" where
  "cut_until c s = (takeWhile (\<lambda>x. x \<noteq> c) s, drop 1 (dropWhile (\<lambda>x. x \<noteq> c) s))"

text \<open>\<open>strcasecmp(a, b) == 0\<close>.\<close>

definition same_name :: "u8 list \<Rightarrow> u8 list \<Rightarrow> bool" where
  "same_name a b \<longleftrightarrow> map (\<lambda>c. tolower (sint c)) a = map (\<lambda>c. tolower (sint c)) b"

lemma same_name_refl [simp]: "same_name a a"
  by (simp add: same_name_def)

lemma same_name_sym: "same_name a b = same_name b a"
  by (auto simp: same_name_def)

lemma same_name_trans: "same_name a b \<Longrightarrow> same_name b c \<Longrightarrow> same_name a c"
  by (simp add: same_name_def)

lemma cut_until_append:
  "c \<notin> set a \<Longrightarrow> cut_until c (a @ c # b) = (a, b)" "c \<notin> set a \<Longrightarrow> cut_until c a = (a, [])"
proof -
  assume "c \<notin> set a"
  then have n: "x \<in> set a \<Longrightarrow> x \<noteq> c" for x by auto
  then have d: "dropWhile (\<lambda>x. x \<noteq> c) a = []" by (simp add: dropWhile_eq_Nil_conv)
  have t: "takeWhile (\<lambda>x. x \<noteq> c) a = a" using n by (simp add: takeWhile_eq_all_conv)
  have "takeWhile (\<lambda>x. x \<noteq> c) (a @ c # b) = a" using n takeWhile_append2 [of a "\<lambda>x. x \<noteq> c" "c # b"] by simp
  moreover have "dropWhile (\<lambda>x. x \<noteq> c) (a @ c # b) = c # b" using n dropWhile_append2 [of a "\<lambda>x. x \<noteq> c" "c # b"] by simp
  ultimately show "cut_until c (a @ c # b) = (a, b)" by (simp add: cut_until_def)
  show "cut_until c a = (a, [])" unfolding cut_until_def d t by simp
qed

lemma cut_until_shorter: "s \<noteq> [] \<Longrightarrow> length (snd (cut_until c s)) < length s"
  using length_dropWhile_le [of "\<lambda>x. x \<noteq> c" s] by (cases s) (auto simp: cut_until_def)

text \<open>A path given by its components: each is preceded by a slash.\<close>

definition path_of :: "u8 list list \<Rightarrow> u8 list" where
  "path_of cs = concat (map (\<lambda>c. SLASH # c) cs)"

definition component :: "u8 list \<Rightarrow> bool" where
  "component c \<longleftrightarrow> c \<noteq> [] \<and> SLASH \<notin> set c \<and> length c < 128"

lemma path_of_simps [simp]: "path_of [] = []" "path_of (c # cs) = SLASH # c @ path_of cs"
  by (simp_all add: path_of_def)

lemma path_of_append: "path_of (cs @ ds) = path_of cs @ path_of ds"
  by (simp add: path_of_def)

lemma component_start: "component c \<Longrightarrow> dropWhile (\<lambda>x. x = SLASH) (c @ p) = c @ p"
  by (cases c) (auto simp: component_def)

lemma cut_component:
  assumes "component c"
  shows "cut_until SLASH (c @ path_of cs) = (c, case cs of [] \<Rightarrow> [] | d # ds \<Rightarrow> d @ path_of ds)"
  using assms cut_until_append [of SLASH c] by (cases cs) (auto simp: component_def)

section \<open>Contents of files\<close>

locale read_store =
  fixes contents :: "'f \<Rightarrow> 's \<Rightarrow> u8 list option" and rd :: "'f \<Rightarrow> u32 \<Rightarrow> u32 \<Rightarrow> 's \<Rightarrow> u8 list res"
  assumes rd_law: "contents f s = Some d \<Longrightarrow> unat off + unat n \<le> length d \<Longrightarrow> length d < 2 ^ 31 \<Longrightarrow>
    rd f n off s = Inr (take (unat n) (drop (unat off) d))"
begin

lemma rd_all: "contents f s = Some d \<Longrightarrow> length d < 2 ^ 31 \<Longrightarrow> rd f (of_nat (length d)) 0 s = Inr d"
  using rd_law [of f s d 0 "of_nat (length d)"] by simp

end

locale file_store = read_store contents rd
  for contents :: "'f \<Rightarrow> 's \<Rightarrow> u8 list option" and rd :: "'f \<Rightarrow> u32 \<Rightarrow> u32 \<Rightarrow> 's \<Rightarrow> u8 list res" +
  fixes wr :: "'f \<Rightarrow> u8 list \<Rightarrow> u32 \<Rightarrow> 's \<Rightarrow> 's res"
  assumes wr_law: "contents f s = Some d \<Longrightarrow> unat off \<le> length d \<Longrightarrow> length d < 2 ^ 31 \<Longrightarrow> unat off + length b < 2 ^ 31 \<Longrightarrow>
    \<exists>s'. wr f b off s = Inr s' \<and> contents f s' = Some (take (unat off) d @ b @ drop (unat off + length b) d) \<and>
      (\<forall>g. g \<noteq> f \<longrightarrow> contents g s' = contents g s)"
begin

text \<open>What was written is read back, and the bytes around it are the old ones.\<close>

lemma rd_after_wr:
  assumes "contents f s = Some d" "unat off \<le> length d" "length d < 2 ^ 31" "unat off + length b < 2 ^ 31"
  obtains s' where "wr f b off s = Inr s'" "rd f (of_nat (length b)) off s' = Inr b"
    "rd f off 0 s' = Inr (take (unat off) d)" "\<And>g. g \<noteq> f \<Longrightarrow> contents g s' = contents g s"
proof -
  obtain s' where s': "wr f b off s = Inr s'" "contents f s' = Some (take (unat off) d @ b @ drop (unat off + length b) d)"
    "\<forall>g. g \<noteq> f \<longrightarrow> contents g s' = contents g s"
    using wr_law [OF assms] by blast
  let ?d = "take (unat off) d @ b @ drop (unat off + length b) d"
  have l: "length ?d = max (length d) (unat off + length b)" using assms(2) by simp
  have n: "unat (of_nat (length b) :: u32) = length b" using assms(4) by simp
  have "rd f (of_nat (length b)) off s' = Inr b"
    using rd_law [OF s'(2), of off "of_nat (length b)"] l n assms by simp
  moreover have "rd f off 0 s' = Inr (take (unat off) d)"
    using rd_law [OF s'(2), of 0 off] l assms by simp
  ultimately show ?thesis using s' by (intro that [of s']) auto
qed

text \<open>Copying a file to another, empty one.\<close>

lemma copy_file:
  assumes "contents f s = Some d" "contents g s = Some []" "f \<noteq> g" "length d < 2 ^ 31"
  shows "\<exists>b s'. rd f (of_nat (length d)) 0 s = Inr b \<and> wr g b 0 s = Inr s' \<and> contents g s' = Some d \<and> contents f s' = Some d"
proof -
  have r: "rd f (of_nat (length d)) 0 s = Inr d" using rd_all assms(1,4) by simp
  obtain s' where "wr g d 0 s = Inr s'" "contents g s' = Some d" "contents f s' = contents f s"
    using wr_law [OF assms(2), of 0 d] assms(3,4) by auto
  with r assms(1) show ?thesis by auto
qed

end

end
