(* ===== verification/Ramfs.thy ===== *)
theory Ramfs
  imports Paths
begin

text \<open>
  The RAM file system, \<open>mckrnl/fs/ramfs.c\<close>. A node is named by a number that stands for the address of
  its page. The 1000 child pointers of a directory and the size and data pointer of a file share
  memory; \<open>NODE_FILE None\<close> is a file whose data pointer is \<open>NULL\<close>. Looking for a child below a file that has data follows its size as if it were a pointer, an
  access outside every array. A new byte of a file that was not written has the content of the page before,
  the argument \<open>junk\<close>. An open file is a \<open>file_t\<close>.
\<close>

section \<open>Definitions\<close>

datatype ramfs_body = NODE_FILE "u8 list option" | NODE_DIR "nat option list"

record ramfs_node =
  node_name :: "u8 list"
  node_body :: ramfs_body

record ramfs =
  nodes :: "nat \<Rightarrow> ramfs_node"
  next_node :: nat
  root :: nat

record file_t =
  f_mount :: nat
  f_mode :: u32
  f_node :: nat
  f_size :: u32

abbreviation NUM_CHILDS :: nat where "NUM_CHILDS \<equiv> 1000"

primrec ramfs_child :: "(nat \<Rightarrow> ramfs_node) \<Rightarrow> u8 list \<Rightarrow> nat option list \<Rightarrow> nat option" where
  "ramfs_child ns b [] = None"
| "ramfs_child ns b (c # cs) =
     (case c of Some n \<Rightarrow> if same_name b (node_name (ns n)) then Some n else ramfs_child ns b cs | None \<Rightarrow> ramfs_child ns b cs)"

lemma skip_cut_shorter:
  "dropWhile (\<lambda>x. x = SLASH) path \<noteq> [] \<Longrightarrow> length (snd (cut_until SLASH (dropWhile (\<lambda>x. x = SLASH) path))) < length path"
  using cut_until_shorter [of "dropWhile (\<lambda>x. x = SLASH) path" SLASH] length_dropWhile_le [of "\<lambda>x. x = SLASH" path] by simp

function ramfs_find :: "(nat \<Rightarrow> ramfs_node) \<Rightarrow> u8 list \<Rightarrow> nat \<Rightarrow> nat option res" where
  "ramfs_find ns path current =
     (let p = dropWhile (\<lambda>x. x = SLASH) path in
      if p = [] then Inr (Some current)
      else if length (fst (cut_until SLASH p)) \<ge> 128 then Inl OutOfBounds
      else case node_body (ns current) of
             NODE_FILE d \<Rightarrow> if d = None then Inr None else Inl OutOfBounds
           | NODE_DIR childs \<Rightarrow>
               (case ramfs_child ns (fst (cut_until SLASH p)) childs of
                  None \<Rightarrow> Inr None
                | Some n \<Rightarrow> ramfs_find ns (snd (cut_until SLASH p)) n))"
  by auto
termination
  by (relation "measure (\<lambda>(ns, p, c). length p)") (auto simp: skip_cut_shorter)

declare ramfs_find.simps [simp del]

text \<open>
  \<open>ramfs_split_path\<close>: the loop leaves \<open>to_create\<close> at the last part that is not empty and stands behind a
  slash; without a slash it is not initialised. The part before is copied into a buffer of 512 zero bytes.
\<close>

lemma rest_shorter: "snd (cut_until c s) \<noteq> [] \<Longrightarrow> length (snd (cut_until c s)) < length s"
  using cut_until_shorter [of s c] by (cases s) (auto simp: cut_until_def)

function split_loop :: "u8 list \<Rightarrow> u8 list option \<Rightarrow> u8 list option res" where
  "split_loop next to_create =
     (if length (fst (cut_until SLASH next)) \<ge> 128 then Inl OutOfBounds
      else let n = snd (cut_until SLASH next) in
        if n = [] then Inr to_create else split_loop n (Some n))"
  by auto
termination
  by (relation "measure (\<lambda>(p, t). length p)") (auto simp: rest_shorter)

declare split_loop.simps [simp del]

definition ramfs_split_path :: "u8 list \<Rightarrow> (u8 list \<times> u8 list) res" where
  "ramfs_split_path path =
     rbind (split_loop path None) (\<lambda>t. case t of
         None \<Rightarrow> Inl Uninitialised
       | Some to_create \<Rightarrow>
           let n = length path - length to_create - 1 in
           if n \<ge> 512 then Inl OutOfBounds else Inr (take n path, to_create))"

primrec data_of :: "u8 list option \<Rightarrow> u8 list" where
  "data_of None = []"
| "data_of (Some d) = d"

definition ramfs_open :: "nat \<Rightarrow> u8 list \<Rightarrow> ramfs \<Rightarrow> file_t option res" where
  "ramfs_open mount path s =
     rbind (ramfs_find (nodes s) path (root s)) (\<lambda>n. case n of
         None \<Rightarrow> Inr None
       | Some i \<Rightarrow> (case node_body (nodes s i) of
             NODE_DIR _ \<Rightarrow> Inr None
           | NODE_FILE d \<Rightarrow> Inr (Some \<lparr>f_mount = mount, f_mode = 0, f_node = i, f_size = of_nat (length (data_of d))\<rparr>)))"

text \<open>The contents of a file's node; a node that is a directory is not opened as a file.\<close>

definition file_data :: "nat \<Rightarrow> ramfs \<Rightarrow> u8 list option" where
  "file_data i s = (case node_body (nodes s i) of NODE_FILE d \<Rightarrow> Some (data_of d) | NODE_DIR _ \<Rightarrow> None)"

definition set_fdata :: "nat \<Rightarrow> u8 list option \<Rightarrow> ramfs \<Rightarrow> ramfs" where
  "set_fdata i d s = s\<lparr>nodes := (nodes s)(i := (nodes s i)\<lparr>node_body := NODE_FILE d\<rparr>)\<rparr>"

definition set_data :: "nat \<Rightarrow> u8 list \<Rightarrow> ramfs \<Rightarrow> ramfs" where
  "set_data i d s = set_fdata i (if d = [] \<and> node_body (nodes s i) = NODE_FILE None then None else Some d) s"

definition ramfs_read :: "nat \<Rightarrow> u32 \<Rightarrow> u32 \<Rightarrow> ramfs \<Rightarrow> u8 list res" where
  "ramfs_read i sz offset s =
     (case file_data i s of
        None \<Rightarrow> Inl OutOfBounds
      | Some d \<Rightarrow>
          if \<not> (of_nat (length d) :: u32) \<ge> offset + sz then Inl AssertFailed
          else if unat offset + unat sz > length d then Inl OutOfBounds
          else Inr (take (unat sz) (drop (unat offset) d)))"

definition resized :: "(nat \<Rightarrow> u8) \<Rightarrow> nat \<Rightarrow> u8 list \<Rightarrow> u8 list" where
  "resized junk n d = take n d @ map junk [length d..<n]"

text \<open>\<open>new_file_size\<close> is a signed \<open>int\<close>; a sum that wraps around leaves the buffer too small for the copy.\<close>

definition ramfs_write :: "(nat \<Rightarrow> u8) \<Rightarrow> nat \<Rightarrow> u8 list \<Rightarrow> u32 \<Rightarrow> ramfs \<Rightarrow> (u32 \<times> ramfs) res" where
  "ramfs_write junk i buf offset s =
     (case file_data i s of
        None \<Rightarrow> Inl OutOfBounds
      | Some d \<Rightarrow>
          let new_file_size = sint (offset + of_nat (length buf));
              d1 = (if new_file_size > int (length d) then resized junk (nat new_file_size) d else d)
          in if unat offset + length buf > length d1 then Inl OutOfBounds
             else Inr (of_nat (length d1),
                       set_data i (take (unat offset) d1 @ buf @ drop (unat offset + length buf) d1) s))"

text \<open>
  \<open>vmm_resize\<close> to size 0 frees the buffer and gives \<open>NULL\<close>, unless the pointer was \<open>NULL\<close> already, when it
  allocates. It takes the size as a signed \<open>int\<close>: one above \<open>2 ^ 31\<close> makes the number of pages negative and the copy leaves
  the buffer.
\<close>

definition ramfs_truncate :: "(nat \<Rightarrow> u8) \<Rightarrow> nat \<Rightarrow> u32 \<Rightarrow> ramfs \<Rightarrow> (u32 \<times> ramfs) res" where
  "ramfs_truncate junk i new_size s =
     (case file_data i s of
        None \<Rightarrow> Inl OutOfBounds
      | Some d \<Rightarrow>
          if unat new_size \<ge> 2 ^ 31 then Inl OutOfBounds
          else Inr (new_size,
            set_fdata i (if new_size = 0 \<and> node_body (nodes s i) \<noteq> NODE_FILE None then None
                         else Some (resized junk (unat new_size) d)) s))"

definition ramfs_delete :: "panic_key \<Rightarrow> ramfs \<Rightarrow> ramfs res" where
  "ramfs_delete k s = rbind (abortf k) (\<lambda>_. Inr s)"

definition ramfs_delete_dir :: "panic_key \<Rightarrow> ramfs \<Rightarrow> ramfs res" where
  "ramfs_delete_dir k s = rbind (abortf k) (\<lambda>_. Inr s)"

text \<open>The loop of \<open>ramfs_mkdir\<close> and \<open>ramfs_touch\<close> over the children: the first free entry, if any, gets the new node.\<close>

primrec put_child :: "nat \<Rightarrow> nat option list \<Rightarrow> nat option list option" where
  "put_child n [] = None"
| "put_child n (c # cs) = (if c = None then Some (Some n # cs) else map_option ((#) c) (put_child n cs))"

definition ramfs_create :: "ramfs_body \<Rightarrow> u8 list \<Rightarrow> ramfs \<Rightarrow> ramfs res" where
  "ramfs_create body path s =
     rbind (ramfs_find (nodes s) path (root s)) (\<lambda>f. case f of
         Some _ \<Rightarrow> Inr s
       | None \<Rightarrow>
           rbind (ramfs_split_path path) (\<lambda>(path_buf, to_create).
           rbind (ramfs_find (nodes s) path_buf (root s)) (\<lambda>d. case d of
               None \<Rightarrow> Inr s
             | Some i \<Rightarrow> (case node_body (nodes s i) of
                   NODE_FILE _ \<Rightarrow> Inr s
                 | NODE_DIR childs \<Rightarrow> (case put_child (next_node s) childs of
                       None \<Rightarrow> Inr s
                     | Some cs \<Rightarrow>
                         if length to_create \<ge> 92 then Inl OutOfBounds
                         else Inr (s\<lparr>next_node := Suc (next_node s),
                                nodes := (nodes s)(i := (nodes s i)\<lparr>node_body := NODE_DIR cs\<rparr>,
                                   next_node s := \<lparr>node_name = to_create, node_body = body\<rparr>)\<rparr>))))))"

definition ramfs_mkdir :: "u8 list \<Rightarrow> ramfs \<Rightarrow> ramfs res" where
  "ramfs_mkdir path s = ramfs_create (NODE_DIR (replicate NUM_CHILDS None)) path s"

definition ramfs_touch :: "u8 list \<Rightarrow> ramfs \<Rightarrow> ramfs res" where
  "ramfs_touch path s = ramfs_create (NODE_FILE None) path s"

record dir_t =
  d_name :: "u8 list"
  d_idx :: int
  d_is_none :: bool
  d_is_dir :: bool

definition no_dir :: dir_t where
  "no_dir = \<lparr>d_name = [], d_idx = 0, d_is_none = True, d_is_dir = False\<rparr>"

text \<open>The search for the entry with the given index; the entry may be \<open>NULL\<close> when the index is negative.\<close>

primrec dir_loop :: "int \<Rightarrow> nat option list \<Rightarrow> nat option option" where
  "dir_loop current_idx [] = None"
| "dir_loop current_idx (c # cs) =
     (let idx = (if c \<noteq> None then current_idx - 1 else current_idx) in if idx = 0 then Some c else dir_loop idx cs)"

definition ramfs_dir_at :: "int \<Rightarrow> u8 list \<Rightarrow> ramfs \<Rightarrow> dir_t res" where
  "ramfs_dir_at idx path s =
     rbind (ramfs_find (nodes s) path (root s)) (\<lambda>n. case n of
         None \<Rightarrow> Inr no_dir
       | Some i \<Rightarrow> (case node_body (nodes s i) of
             NODE_FILE _ \<Rightarrow> Inr no_dir
           | NODE_DIR childs \<Rightarrow> (case dir_loop (idx + 1) childs of
                 None \<Rightarrow> Inr no_dir
               | Some None \<Rightarrow> Inl NullDeref
               | Some (Some c) \<Rightarrow> Inr \<lparr>d_name = node_name (nodes s c), d_idx = idx, d_is_none = False,
                   d_is_dir = (case node_body (nodes s c) of NODE_DIR _ \<Rightarrow> True | NODE_FILE _ \<Rightarrow> False)\<rparr>)))"

definition get_ramfs :: ramfs where
  "get_ramfs = \<lparr>nodes = (\<lambda>_. \<lparr>node_name = [], node_body = NODE_DIR (replicate NUM_CHILDS None)\<rparr>), next_node = 1, root = 0\<rparr>"

section \<open>Paths\<close>

text \<open>The search for a node by the components of its path.\<close>

fun ramfs_walk :: "(nat \<Rightarrow> ramfs_node) \<Rightarrow> u8 list list \<Rightarrow> nat \<Rightarrow> nat option res" where
  "ramfs_walk ns [] i = Inr (Some i)"
| "ramfs_walk ns (c # cs) i =
     (case node_body (ns i) of
        NODE_FILE d \<Rightarrow> if d = None then Inr None else Inl OutOfBounds
      | NODE_DIR childs \<Rightarrow> (case ramfs_child ns c childs of None \<Rightarrow> Inr None | Some n \<Rightarrow> ramfs_walk ns cs n))"

lemma ramfs_find_step:
  assumes "dropWhile (\<lambda>x. x = SLASH) path = p" "p \<noteq> []" "cut_until SLASH p = (b, r)" "length b < 128"
  shows "ramfs_find ns path i =
    (case node_body (ns i) of
       NODE_FILE d \<Rightarrow> if d = None then Inr None else Inl OutOfBounds
     | NODE_DIR childs \<Rightarrow> (case ramfs_child ns b childs of None \<Rightarrow> Inr None | Some n \<Rightarrow> ramfs_find ns r n))"
  using assms(2,4) by (subst ramfs_find.simps) (simp only: assms(1,3) Let_def fst_conv snd_conv if_False simp_thms, simp)

lemma ramfs_find_walk_rest:
  "\<forall>c \<in> set (c # cs). component c \<Longrightarrow> ramfs_find ns (c @ path_of cs) i = ramfs_walk ns (c # cs) i"
proof (induction cs arbitrary: c i)
  case Nil
  have e: "ramfs_find ns [] n = Inr (Some n)" for n by (simp add: ramfs_find.simps)
  have "ramfs_find ns c i = (case node_body (ns i) of
       NODE_FILE d \<Rightarrow> if d = None then Inr None else Inl OutOfBounds
     | NODE_DIR childs \<Rightarrow> (case ramfs_child ns c childs of None \<Rightarrow> Inr None | Some n \<Rightarrow> ramfs_find ns [] n))"
    by (rule ramfs_find_step [of _ c]) (use component_start [of c "[]"] cut_component [of c "[]"] Nil in \<open>simp_all add: component_def\<close>)
  then show ?case unfolding e by (simp split: ramfs_body.split option.split)
next
  case (Cons a cs)
  have ih: "ramfs_find ns (a @ path_of cs) n = ramfs_walk ns (a # cs) n" for n using Cons by simp
  have "ramfs_find ns (c @ path_of (a # cs)) i = (case node_body (ns i) of
       NODE_FILE d \<Rightarrow> if d = None then Inr None else Inl OutOfBounds
     | NODE_DIR childs \<Rightarrow> (case ramfs_child ns c childs of None \<Rightarrow> Inr None | Some n \<Rightarrow> ramfs_find ns (a @ path_of cs) n))"
    by (rule ramfs_find_step [of _ "c @ path_of (a # cs)"])
      (use component_start [of c "path_of (a # cs)"] cut_component [of c "a # cs"] Cons.prems in \<open>simp_all add: component_def\<close>)
  then show ?case unfolding ih by simp
qed

lemma ramfs_find_slash: "ramfs_find ns (SLASH # p) i = ramfs_find ns p i"
  by (subst (1 2) ramfs_find.simps) simp

lemma ramfs_find_walk:
  assumes "\<forall>c \<in> set cs. component c"
  shows "ramfs_find ns (path_of cs) i = ramfs_walk ns cs i"
proof (cases cs)
  case Nil
  then show ?thesis by (simp add: ramfs_find.simps)
next
  case (Cons c ds)
  then show ?thesis using ramfs_find_walk_rest [of c ds ns i] assms by (simp add: ramfs_find_slash)
qed

lemma split_step:
  "cut_until SLASH p = (b, r) \<Longrightarrow> length b < 128 \<Longrightarrow> split_loop p t = (if r = [] then Inr t else split_loop r (Some r))"
  by (subst split_loop.simps) (simp add: Let_def)

lemma split_loop_rest:
  assumes "\<forall>c \<in> set (cs @ [n]). component c"
  shows "split_loop (case cs of [] \<Rightarrow> n | c # cs' \<Rightarrow> c @ path_of (cs' @ [n])) t = Inr (if cs = [] then t else Some n)"
  using assms
proof (induction cs arbitrary: t)
  case Nil
  then show ?case using split_step [of n n "[]"] cut_component [of n "[]"] by (simp add: component_def)
next
  case (Cons c cs)
  have l: "length c < 128" using Cons.prems by (simp add: component_def)
  let ?r = "case cs of [] \<Rightarrow> n | c # cs' \<Rightarrow> c @ path_of (cs' @ [n])"
  have "cut_until SLASH (c @ path_of (cs @ [n])) = (c, ?r)"
    using cut_component [of c "cs @ [n]"] Cons.prems by (cases cs) simp_all
  moreover have "?r \<noteq> []" using Cons.prems by (cases cs) (auto simp: component_def)
  ultimately have "split_loop (c @ path_of (cs @ [n])) t = split_loop ?r (Some ?r)" using split_step l by simp
  moreover have "split_loop ?r (Some ?r) = Inr (if cs = [] then Some ?r else Some n)" by (rule Cons.IH) (use Cons.prems in simp)
  ultimately show ?case by (cases cs) simp_all
qed

text \<open>An absolute path is split into the path of its directory and its last component.\<close>

lemma ramfs_split_path_components:
  assumes "\<forall>c \<in> set (cs @ [n]). component c" "length (path_of cs) < 512"
  shows "ramfs_split_path (path_of (cs @ [n])) = Inr (path_of cs, n)"
proof -
  let ?r = "case cs of [] \<Rightarrow> n | c # cs' \<Rightarrow> c @ path_of (cs' @ [n])"
  have p: "path_of (cs @ [n]) = SLASH # ?r" by (cases cs) simp_all
  have "?r \<noteq> []" using assms(1) by (cases cs) (auto simp: component_def)
  moreover have "cut_until SLASH (path_of (cs @ [n])) = ([], ?r)" unfolding p by (simp add: cut_until_def)
  ultimately have "split_loop (path_of (cs @ [n])) None = split_loop ?r (Some ?r)" using split_step by simp
  also have "\<dots> = Inr (if cs = [] then Some ?r else Some n)" by (rule split_loop_rest [OF assms(1)])
  finally have "split_loop (path_of (cs @ [n])) None = Inr (Some n)" by (cases cs) simp_all
  moreover have "path_of (cs @ [n]) = path_of cs @ SLASH # n" by (simp add: path_of_append)
  ultimately show ?thesis using assms(2) by (simp add: ramfs_split_path_def Let_def)
qed

section \<open>Contents\<close>

lemma resized_keep: "n \<le> length d \<Longrightarrow> resized junk n d = take n d"
  by (simp add: resized_def)

lemma resized_length [simp]: "length (resized junk n d) = n"
  by (simp add: resized_def)

lemma resized_prefix: "k \<le> n \<Longrightarrow> k \<le> length d \<Longrightarrow> take k (resized junk n d) = take k d"
  by (simp add: resized_def)

lemma sint_small: "unat w < 2 ^ 31 \<Longrightarrow> sint w = int (unat w)" for w :: u32
proof -
  assume "unat w < 2 ^ 31"
  then have "int (unat w) < int (2 ^ 31)" by (simp only: of_nat_less_iff)
  then have "uint w < 2 ^ 31" by simp
  moreover have "- (2 ^ 31) \<le> uint w" by (rule order_trans [OF _ uint_ge_0]) simp
  ultimately have "signed_take_bit 31 (uint w) = uint w" by (intro signed_take_bit_int_eq_self)
  moreover have "sint w = signed_take_bit 31 (uint w)" using sint_uint [of w] by simp
  ultimately show "sint w = int (unat w)" by simp
qed

definition ramfs_wr :: "nat \<Rightarrow> u8 list \<Rightarrow> u32 \<Rightarrow> ramfs \<Rightarrow> ramfs res" where
  "ramfs_wr i buf offset s = rbind (ramfs_write (\<lambda>_. 0) i buf offset s) (\<lambda>(_, s'). Inr s')"

lemma ramfs_write_contents:
  assumes "file_data i s = Some d" "unat off \<le> length d" "length d < 2 ^ 31" "unat off + length b < 2 ^ 31"
  shows "ramfs_write junk i b off s = Inr (of_nat (max (length d) (unat off + length b)),
    set_data i (take (unat off) d @ b @ drop (unat off + length b) d) s)"
proof -
  define k where "k = unat off + length b"
  have u: "unat (off + of_nat (length b)) = k" using assms(4) by (subst unat_add_u32) (simp_all add: k_def)
  have n: "sint (off + of_nat (length b)) = int k" using u assms(4) sint_small k_def by metis
  show ?thesis
  proof (cases "k > length d")
    case True
    with assms(1,2) show ?thesis by (simp add: ramfs_write_def Let_def n resized_prefix flip: k_def)
  next
    case False
    with assms(1) show ?thesis by (simp add: ramfs_write_def Let_def n flip: k_def)
  qed
qed

lemma file_data_set: "file_data j (set_data i d s) = (if j = i then Some d else file_data j s)"
  by (simp add: file_data_def set_data_def set_fdata_def)

interpretation ramfs_files: file_store file_data ramfs_read ramfs_wr
proof
  fix f s d and off n :: u32
  assume a: "file_data f s = Some d" "unat off + unat n \<le> length d" "length d < 2 ^ 31"
  have "unat (off + n) = unat off + unat n" using a by (subst unat_add_u32) simp_all
  then have "off + n \<le> of_nat (length d)" using a by (simp add: word_le_nat_alt)
  with a show "ramfs_read f n off s = Inr (take (unat n) (drop (unat off) d))" by (simp add: ramfs_read_def)
next
  fix f s d and off :: u32 and b :: "u8 list"
  assume "file_data f s = Some d" "unat off \<le> length d" "length d < 2 ^ 31" "unat off + length b < 2 ^ 31"
  from ramfs_write_contents [OF this, of "\<lambda>_. 0"]
  show "\<exists>s'. ramfs_wr f b off s = Inr s' \<and> file_data f s' = Some (take (unat off) d @ b @ drop (unat off + length b) d) \<and>
      (\<forall>g. g \<noteq> f \<longrightarrow> file_data g s' = file_data g s)"
    by (simp add: ramfs_wr_def file_data_set)
qed

section \<open>New nodes\<close>

text \<open>Every child pointer of the tree points to a node that exists.\<close>

definition ramfs_inv :: "ramfs \<Rightarrow> bool" where
  "ramfs_inv s \<longleftrightarrow> root s < next_node s \<and>
     (\<forall>i < next_node s. \<forall>cs. node_body (nodes s i) = NODE_DIR cs \<longrightarrow> (\<forall>m. Some m \<in> set cs \<longrightarrow> m < next_node s))"

lemma ramfs_child_Some: "ramfs_child ns b cs = Some m \<Longrightarrow> Some m \<in> set cs \<and> same_name b (node_name (ns m))"
  by (induction cs) (auto split: option.splits if_splits)

lemma ramfs_child_None: "ramfs_child ns b cs = None \<longleftrightarrow> (\<forall>m. Some m \<in> set cs \<longrightarrow> \<not> same_name b (node_name (ns m)))"
  by (induction cs) (auto split: option.splits if_splits)

lemma ramfs_child_cong:
  "(\<And>m. Some m \<in> set cs \<Longrightarrow> node_name (ns' m) = node_name (ns m)) \<Longrightarrow> ramfs_child ns' b cs = ramfs_child ns b cs"
  by (induction cs) (auto split: option.split)

lemma ramfs_child_put:
  assumes "put_child n cs = Some cs'" "node_name (ns' n) = name" "\<And>m. Some m \<in> set cs \<Longrightarrow> node_name (ns' m) = node_name (ns m)"
  shows "\<not> same_name b name \<Longrightarrow> ramfs_child ns' b cs' = ramfs_child ns b cs"
    and "same_name b name \<Longrightarrow> ramfs_child ns b cs = None \<Longrightarrow> ramfs_child ns' b cs' = Some n"
  using assms
proof (induction cs arbitrary: cs')
  case (Cons c cs)
  {
    case 1
    then show ?case using Cons.IH(1) ramfs_child_cong [of cs ns' ns b] by (cases c) (auto split: if_splits)
  next
    case 2
    then show ?case using Cons.IH(2) by (cases c) (auto split: if_splits)
  }
qed simp_all

lemma put_child_set: "put_child n cs = Some cs' \<Longrightarrow> set cs' \<subseteq> insert (Some n) (set cs)"
  by (induction cs arbitrary: cs') (auto split: if_splits)

text \<open>The state after a new node \<open>name\<close> with the given body is entered into directory \<open>i\<close>.\<close>

definition added :: "nat \<Rightarrow> nat option list \<Rightarrow> u8 list \<Rightarrow> ramfs_body \<Rightarrow> ramfs \<Rightarrow> ramfs" where
  "added i cs' name body s = s\<lparr>next_node := Suc (next_node s),
     nodes := (nodes s)(i := (nodes s i)\<lparr>node_body := NODE_DIR cs'\<rparr>, next_node s := \<lparr>node_name = name, node_body = body\<rparr>)\<rparr>"

lemma walk_added:
  assumes "ramfs_inv s" "i < next_node s" "node_body (nodes s i) = NODE_DIR cs" "put_child (next_node s) cs = Some cs'"
    "ramfs_child (nodes s) name cs = None" "j < next_node s" "ramfs_walk (nodes s) ds j = Inr (Some m)"
  shows "ramfs_walk (nodes (added i cs' name body s)) ds j = Inr (Some m) \<and> m < next_node s"
  using assms(6,7)
proof (induction ds arbitrary: j)
  case (Cons d ds)
  let ?ns = "nodes (added i cs' name body s)"
  have names: "node_name (?ns k) = node_name (nodes s k)" if "k < next_node s" for k using that by (simp add: added_def)
  obtain es k where es: "node_body (nodes s j) = NODE_DIR es" "ramfs_child (nodes s) d es = Some k" "ramfs_walk (nodes s) ds k = Inr (Some m)"
    using Cons.prems(2) by (auto split: ramfs_body.splits option.splits if_splits)
  have k: "Some k \<in> set es" "same_name d (node_name (nodes s k))" using ramfs_child_Some [OF es(2)] by auto
  have lt: "k' < next_node s" if "Some k' \<in> set es" for k' using assms(1) Cons.prems(1) es(1) that unfolding ramfs_inv_def by blast
  have "\<exists>es'. node_body (?ns j) = NODE_DIR es' \<and> ramfs_child ?ns d es' = Some k"
  proof (cases "j = i")
    case True
    then have e: "es = cs" using es(1) assms(3) by simp
    then have "\<not> same_name name (node_name (nodes s k))" using assms(5) k(1) by (simp add: ramfs_child_None)
    then have "\<not> same_name d name" using k(2) by (metis same_name_sym same_name_trans)
    moreover have "node_name (?ns (next_node s)) = name" by (simp add: added_def)
    moreover have "node_name (?ns m) = node_name (nodes s m)" if "Some m \<in> set cs" for m using names lt that e by simp
    ultimately have "ramfs_child ?ns d cs' = Some k" using ramfs_child_put(1) [OF assms(4), of ?ns name "nodes s" d] es(2) e by simp
    with True assms(2) show ?thesis by (simp add: added_def)
  next
    case False
    have "ramfs_child ?ns d es = Some k" using ramfs_child_cong [of es ?ns "nodes s" d] names lt es(2) by simp
    with False Cons.prems(1) es(1) show ?thesis by (simp add: added_def)
  qed
  then show ?case using Cons.IH [OF lt [OF k(1)] es(3)] by auto
qed simp

lemma walk_append:
  "ramfs_walk ns (cs @ [n]) i = rbind (ramfs_walk ns cs i) (\<lambda>r. case r of None \<Rightarrow> Inr None | Some j \<Rightarrow> ramfs_walk ns [n] j)"
  by (induction cs arbitrary: i) (simp_all split: ramfs_body.split option.split)

lemma walk_exists:
  "ramfs_inv s \<Longrightarrow> j < next_node s \<Longrightarrow> ramfs_walk (nodes s) ds j = Inr (Some m) \<Longrightarrow> m < next_node s"
proof (induction ds arbitrary: j)
  case (Cons d ds)
  then obtain es k where es: "node_body (nodes s j) = NODE_DIR es" "ramfs_child (nodes s) d es = Some k" "ramfs_walk (nodes s) ds k = Inr (Some m)"
    by (auto split: ramfs_body.splits option.splits if_splits)
  have "k < next_node s"
    using Cons.prems(1,2) es(1) ramfs_child_Some [OF es(2)] unfolding ramfs_inv_def by blast
  then show ?case using Cons.IH Cons.prems(1) es(3) by blast
qed simp

lemma added_inv:
  assumes "ramfs_inv s" "i < next_node s" "node_body (nodes s i) = NODE_DIR cs" "put_child (next_node s) cs = Some cs'"
    "\<And>bs m. body = NODE_DIR bs \<Longrightarrow> Some m \<notin> set bs"
  shows "ramfs_inv (added i cs' n body s)"
proof -
  have old: "m < next_node s" if "j < next_node s" "node_body (nodes s j) = NODE_DIR es" "Some m \<in> set es" for j es m
    using assms(1) that unfolding ramfs_inv_def by blast
  have "m < Suc (next_node s)" if j: "j < Suc (next_node s)" "node_body (nodes (added i cs' n body s) j) = NODE_DIR es" "Some m \<in> set es" for j es m
  proof (cases "j = next_node s \<or> j = i")
    case True
    then show ?thesis using j assms(2,3,5) put_child_set [OF assms(4)] old [OF assms(2,3)] by (force simp: added_def)
  next
    case False
    then show ?thesis using j old [of j es m] by (simp add: added_def)
  qed
  then show ?thesis using assms(1) by (simp add: ramfs_inv_def added_def)
qed

lemma ramfs_create_added:
  assumes "ramfs_inv s" "\<forall>c \<in> set (cs @ [n]). component c" "length n < 92" "length (path_of cs) < 512"
    and "ramfs_walk (nodes s) cs (root s) = Inr (Some i)" "node_body (nodes s i) = NODE_DIR childs"
    and "ramfs_child (nodes s) n childs = None" "put_child (next_node s) childs = Some childs'"
  shows "ramfs_create body (path_of (cs @ [n])) s = Inr (added i childs' n body s)"
    and "ramfs_walk (nodes (added i childs' n body s)) (cs @ [n]) (root s) = Inr (Some (next_node s))"
    and "i < next_node s"
proof -
  let ?ns = "nodes (added i childs' n body s)"
  have f: "ramfs_find (nodes s) (path_of (cs @ [n])) (root s) = Inr None"
    using ramfs_find_walk [OF assms(2), of "nodes s" "root s"] assms(5-7) by (simp add: walk_append)
  have d: "ramfs_find (nodes s) (path_of cs) (root s) = Inr (Some i)"
    using ramfs_find_walk [of cs "nodes s" "root s"] assms(2,5) by simp
  show "ramfs_create body (path_of (cs @ [n])) s = Inr (added i childs' n body s)"
    using assms(3,6,8) by (simp add: ramfs_create_def f ramfs_split_path_components [OF assms(2,4)] d added_def)
  have r: "root s < next_node s" using assms(1) by (simp add: ramfs_inv_def)
  show i: "i < next_node s" by (rule walk_exists [OF assms(1) r assms(5)])
  have w: "ramfs_walk ?ns cs (root s) = Inr (Some i)"
    using walk_added [OF assms(1) i assms(6,8,7) r assms(5)] by blast
  have "node_name (?ns (next_node s)) = n" by (simp add: added_def)
  moreover have "node_name (?ns m) = node_name (nodes s m)" if "Some m \<in> set childs" for m
    using assms(1,6) i that by (auto simp: ramfs_inv_def added_def)
  ultimately have "ramfs_child ?ns n childs' = Some (next_node s)"
    using ramfs_child_put(2) [OF assms(8), of ?ns n "nodes s" n] assms(7) by simp
  moreover have "node_body (?ns i) = NODE_DIR childs'" using i by (simp add: added_def)
  ultimately show "ramfs_walk ?ns (cs @ [n]) (root s) = Inr (Some (next_node s))" by (simp add: walk_append w)
qed

text \<open>
  Creating a file in the RAM file system. When the directory of an absolute path exists, has a free entry and no child
  of that name, \<open>ramfs_touch\<close> succeeds; opening the path then gives a new empty file, every path that led to a node
  before still leads to it, no other file's contents change, and the tree stays well-formed.
\<close>

lemma ramfs_touch_new:
  assumes "ramfs_inv s" "\<forall>c \<in> set (cs @ [n]). component c" "length n < 92" "length (path_of cs) < 512"
    and "ramfs_find (nodes s) (path_of cs) (root s) = Inr (Some i)" "node_body (nodes s i) = NODE_DIR childs"
    and "ramfs_child (nodes s) n childs = None" "None \<in> set childs"
  shows "\<exists>s'. ramfs_touch (path_of (cs @ [n])) s = Inr s' \<and> ramfs_inv s' \<and>
    ramfs_open mt (path_of (cs @ [n])) s' = Inr (Some \<lparr>f_mount = mt, f_mode = 0, f_node = next_node s, f_size = 0\<rparr>) \<and>
    file_data (next_node s) s' = Some [] \<and> (\<forall>j < next_node s. file_data j s' = file_data j s) \<and>
    (\<forall>ds j. (\<forall>c \<in> set ds. component c) \<and> ramfs_find (nodes s) (path_of ds) (root s) = Inr (Some j) \<longrightarrow>
       ramfs_find (nodes s') (path_of ds) (root s') = Inr (Some j))"
proof -
  have "\<exists>cs'. put_child k cs = Some cs'" if "None \<in> set cs" for k cs using that by (induction cs) auto
  then obtain childs' where p: "put_child (next_node s) childs = Some childs'" using assms(8) by blast
  have w: "ramfs_walk (nodes s) cs (root s) = Inr (Some i)"
    using ramfs_find_walk [of cs "nodes s" "root s"] assms(2,5) by simp
  note c = ramfs_create_added(1,2) [OF assms(1-4) w assms(6,7) p, of "NODE_FILE None"] ramfs_create_added(3) [OF assms(1-4) w assms(6,7) p]
  let ?s = "added i childs' n (NODE_FILE None) s"
  have rt: "root ?s = root s" by (simp add: added_def)
  have r: "root s < next_node s" using assms(1) by (simp add: ramfs_inv_def)
  have "ramfs_find (nodes ?s) (path_of (cs @ [n])) (root ?s) = Inr (Some (next_node s))"
    using ramfs_find_walk [OF assms(2), of "nodes ?s" "root ?s"] c(2) rt by simp
  moreover have new: "node_body (nodes ?s (next_node s)) = NODE_FILE None" by (simp add: added_def)
  ultimately have o: "ramfs_open mt (path_of (cs @ [n])) ?s = Inr (Some \<lparr>f_mount = mt, f_mode = 0, f_node = next_node s, f_size = 0\<rparr>)"
    by (simp add: ramfs_open_def)
  have keep: "ramfs_find (nodes ?s) (path_of ds) (root ?s) = Inr (Some j)"
    if "\<forall>c \<in> set ds. component c" "ramfs_find (nodes s) (path_of ds) (root s) = Inr (Some j)" for ds j
    using walk_added [OF assms(1) c(3) assms(6) p assms(7) r, of ds j "NODE_FILE None"] that rt by (simp add: ramfs_find_walk)
  have "file_data j ?s = file_data j s" if "j < next_node s" for j using that assms(6) by (auto simp: file_data_def added_def)
  moreover have "ramfs_inv ?s" by (rule added_inv [OF assms(1) c(3) assms(6) p]) simp
  moreover have "file_data (next_node s) ?s = Some []" using new by (simp add: file_data_def)
  ultimately show ?thesis using c(1) o keep unfolding ramfs_touch_def by blast
qed

text \<open>
  Writing to a file at a position inside it or at its end, and reading it back: the write returns, the file then has the
  larger of its old size and the end of the write, the written bytes and the bytes before them are read back, and no other
  file changes.
\<close>

lemma ramfs_write_read:
  assumes "file_data i s = Some d" "unat off \<le> length d" "length d < 2 ^ 31" "unat off + length b < 2 ^ 31"
  shows "\<exists>s'. ramfs_write junk i b off s = Inr (of_nat (max (length d) (unat off + length b)), s') \<and>
    ramfs_read i (of_nat (length b)) off s' = Inr b \<and> ramfs_read i off 0 s' = Inr (take (unat off) d) \<and>
    (\<forall>j. j \<noteq> i \<longrightarrow> file_data j s' = file_data j s)"
proof -
  obtain s' where s': "ramfs_wr i b off s = Inr s'" "ramfs_read i (of_nat (length b)) off s' = Inr b"
    "ramfs_read i off 0 s' = Inr (take (unat off) d)" "\<And>g. g \<noteq> i \<Longrightarrow> file_data g s' = file_data g s"
    using ramfs_files.rd_after_wr [OF assms] by blast
  then show ?thesis using ramfs_write_contents [OF assms] by (simp add: ramfs_wr_def)
qed

text \<open>
  The test of \<open>ramfs_read\<close> adds offset and size as 32-bit words: an offset of \<open>2 ^ 32 - 1\<close> passes it and
  reads in front of the buffer.
\<close>

lemma ramfs_read_wraps: "file_data i s = Some [x] \<Longrightarrow> ramfs_read i 2 0xFFFFFFFF s = Inl OutOfBounds"
proof -
  have w: "(0xFFFFFFFF + 2 :: u32) = 1" by code_simp
  assume "file_data i s = Some [x]"
  then show ?thesis unfolding ramfs_read_def w by simp
qed

text \<open>A path that ends in a slash makes \<open>ramfs_touch\<close> create a node whose name contains the slash, which no path finds.\<close>

lemma ramfs_split_trailing_slash: "ramfs_split_path [SLASH, 0x61, SLASH] = Inr ([], [0x61, SLASH])"
  by (simp add: ramfs_split_path_def split_loop.simps cut_until_def)

end
