(* ===== verification/Initrd.thy ===== *)
theory Initrd
  imports Ramfs Mem32
begin

text \<open>
  The initial RAM disk, \<open>mckrnl/fs/initrd.c\<close>: a read-only file system in an archive in memory. A node has a header
  with magic, length, name and flags; a folder has the number of its children and their offsets from the
  start of the archive, a file its size and the offset of its data. 64-bit fields are read as
  their two 32-bit halves.
\<close>

section \<open>Definitions\<close>

definition saf_name :: "mem \<Rightarrow> u32 \<Rightarrow> u8 list" where
  "saf_name m node = takeWhile (\<lambda>c. c \<noteq> 0) (load_bytes m (node + 16) 256)"

definition saf_flags :: "mem \<Rightarrow> u32 \<Rightarrow> u64" where
  "saf_flags m node = ld64 m (node + 272)"

abbreviation FLAG_ISFOLDER :: u64 where "FLAG_ISFOLDER \<equiv> 1"

definition saf_count :: "mem \<Rightarrow> u32 \<Rightarrow> u64" where
  "saf_count m node = ld64 m (node + 280)"

definition saf_child :: "mem \<Rightarrow> u32 \<Rightarrow> u32 \<Rightarrow> nat \<Rightarrow> u32" where
  "saf_child m base node i = base + ld32 m (node + 288 + 8 * of_nat i)"

text \<open>The loop over the children of a folder.\<close>

primrec initrd_child :: "mem \<Rightarrow> u32 \<Rightarrow> u32 \<Rightarrow> u8 list \<Rightarrow> nat \<Rightarrow> nat \<Rightarrow> u32 option" where
  "initrd_child m base node b i 0 = None"
| "initrd_child m base node b i (Suc n) =
     (if same_name b (saf_name m (saf_child m base node i)) then Some (saf_child m base node i)
      else initrd_child m base node b (Suc i) n)"

function initrd_find :: "mem \<Rightarrow> u32 \<Rightarrow> u8 list \<Rightarrow> u32 \<Rightarrow> u32 option res" where
  "initrd_find m base path current =
     (let p = dropWhile (\<lambda>x. x = SLASH) path in
      if p = [] then Inr (Some current)
      else if length (fst (cut_until SLASH p)) \<ge> 128 then Inl OutOfBounds
      else if saf_flags m current \<noteq> FLAG_ISFOLDER then Inl AssertFailed
      else case initrd_child m base current (fst (cut_until SLASH p)) 0 (unat (saf_count m current)) of
             None \<Rightarrow> Inr None
           | Some n \<Rightarrow> initrd_find m base (snd (cut_until SLASH p)) n)"
  by auto
termination
  by (relation "measure (\<lambda>(m, b, p, c). length p)") (auto simp: skip_cut_shorter)

declare initrd_find.simps [simp del]

definition initrd_name :: "u8 list" where
  "initrd_name = [0x69, 0x6E, 0x69, 0x74, 0x72, 0x64]"

text \<open>An open file: its size and the address of its data.\<close>

definition initrd_open :: "mem \<Rightarrow> u32 \<Rightarrow> u8 list \<Rightarrow> (u32 \<times> u32) option res" where
  "initrd_open m base path =
     rbind (initrd_find m base path base) (\<lambda>n. case n of
         None \<Rightarrow> Inr None
       | Some f \<Rightarrow> if saf_flags m f = FLAG_ISFOLDER then Inr None
           else Inr (Some (ld32 m (f + 280), base + ld32 m (f + 288))))"

definition initrd_read :: "u32 \<times> u32 \<Rightarrow> u32 \<Rightarrow> u32 \<Rightarrow> mem \<Rightarrow> u8 list res" where
  "initrd_read f sz offset m =
     (if \<not> fst f \<ge> offset + sz then Inl AssertFailed else Inr (load_bytes m (snd f + offset) (unat sz)))"

text \<open>
  \<open>initrd_dir_at\<close>. The index is compared with an unsigned 64-bit number: a negative index is past the end. In an
  empty folder the bound wraps around to the largest number, and the entry is read behind the folder's end.
\<close>

definition initrd_dir_at :: "mem \<Rightarrow> u32 \<Rightarrow> int \<Rightarrow> u8 list \<Rightarrow> dir_t res" where
  "initrd_dir_at m base idx path =
     rbind (initrd_find m base path base) (\<lambda>n. case n of
         None \<Rightarrow> Inr no_dir
       | Some f \<Rightarrow>
           if saf_flags m f \<noteq> FLAG_ISFOLDER then Inr no_dir
           else if (word_of_int idx :: u64) > saf_count m f - 1 then Inr no_dir
           else let child = saf_child m base f (nat idx) in
             Inr \<lparr>d_name = saf_name m child, d_idx = idx, d_is_none = False, d_is_dir = (saf_flags m child = FLAG_ISFOLDER)\<rparr>)"

section \<open>Properties\<close>

definition initrd_contents :: "u32 \<times> u32 \<Rightarrow> mem \<Rightarrow> u8 list option" where
  "initrd_contents f m = Some (load_bytes m (snd f) (unat (fst f)))"

lemma load_bytes_part:
  "a + n \<le> len \<Longrightarrow> take n (drop a (load_bytes m p len)) = load_bytes m (p + of_nat a) n"
  by (rule nth_equalityI) (auto simp: load_bytes_nth add.assoc)

interpretation initrd_files: read_store initrd_contents initrd_read
proof
  fix f m d and off n :: u32
  assume a: "initrd_contents f m = Some d" "unat off + unat n \<le> length d" "length d < 2 ^ 31"
  then have l: "unat off + unat n \<le> unat (fst f)" by (auto simp: initrd_contents_def)
  have "unat (fst f) < 2 ^ 32" using unsigned_less [of "fst f", where 'a = nat] by simp
  then have "unat (off + n) = unat off + unat n" using l by (subst unat_add_u32) simp_all
  then have "off + n \<le> fst f" using l by (simp add: word_le_nat_alt)
  moreover have "take (unat n) (drop (unat off) d) = load_bytes m (snd f + off) (unat n)"
    using a(1) load_bytes_part [OF l, of m "snd f"] by (auto simp: initrd_contents_def)
  ultimately show "initrd_read f n off m = Inr (take (unat n) (drop (unat off) d))" by (simp add: initrd_read_def)
qed

end
