(* ===== verification/Vfs.thy ===== *)
theory Vfs
  imports Initrd
begin

text \<open>
  The virtual file system, \<open>mckrnl/fs/vfs.c\<close>. A mounted file system is a record of functions, as \<open>vfs_mount_t\<close>
  is a structure of function pointers; a pointer that was not set is \<open>None\<close>, and calling it is a null
  dereference. The functions work on a state \<open>'w\<close>, the memory of all drivers. A mount is named by its place
  in \<open>vfs_mounts\<close>, and passed to its functions as in the code. The RAM file system and the initial RAM disk of
  \<open>Ramfs\<close> and \<open>Initrd\<close> are mounts over the state \<open>fs_world\<close>.
\<close>

section \<open>Definitions\<close>

record 'w vfs_mount_t =
  m_open :: "(nat \<Rightarrow> u8 list \<Rightarrow> 'w \<Rightarrow> (file_t option \<times> 'w) res) option"
  m_close :: "(nat \<Rightarrow> file_t \<Rightarrow> 'w \<Rightarrow> 'w res) option"
  m_read :: "(nat \<Rightarrow> file_t \<Rightarrow> u32 \<Rightarrow> u32 \<Rightarrow> 'w \<Rightarrow> u8 list res) option"
  m_write :: "(nat \<Rightarrow> file_t \<Rightarrow> u8 list \<Rightarrow> u32 \<Rightarrow> 'w \<Rightarrow> (file_t \<times> 'w) res) option"
  m_delete :: "(nat \<Rightarrow> file_t \<Rightarrow> 'w \<Rightarrow> 'w res) option"
  m_mkdir :: "(nat \<Rightarrow> u8 list \<Rightarrow> 'w \<Rightarrow> 'w res) option"
  m_touch :: "(nat \<Rightarrow> u8 list \<Rightarrow> 'w \<Rightarrow> 'w res) option"
  m_dir_at :: "(nat \<Rightarrow> int \<Rightarrow> u8 list \<Rightarrow> 'w \<Rightarrow> dir_t res) option"
  m_delete_dir :: "(nat \<Rightarrow> u8 list \<Rightarrow> 'w \<Rightarrow> 'w res) option"
  m_truncate :: "(nat \<Rightarrow> file_t \<Rightarrow> u32 \<Rightarrow> 'w \<Rightarrow> (file_t \<times> 'w) res) option"
  m_name :: "u8 list"

record 'w vfs =
  vfs_mounts :: "'w vfs_mount_t list"
  vfs_scanner :: "(nat \<Rightarrow> 'w \<Rightarrow> ('w vfs_mount_t option \<times> 'w) res) list"

definition vfs_boot :: "'w vfs" where
  "vfs_boot = \<lparr>vfs_mounts = [], vfs_scanner = []\<rparr>"

text \<open>A call through a function pointer.\<close>

definition fn :: "'f option \<Rightarrow> 'f res" where
  "fn f = (case f of None \<Rightarrow> Inl NullDeref | Some g \<Rightarrow> Inr g)"

definition vfs_mount :: "'w vfs_mount_t \<Rightarrow> 'w vfs \<Rightarrow> 'w vfs" where
  "vfs_mount mount v = v\<lparr>vfs_mounts := vfs_mounts v @ [mount]\<rparr>"

text \<open>The inner loop: the first mount with the name.\<close>

primrec find_mount :: "u8 list \<Rightarrow> nat \<Rightarrow> 'w vfs_mount_t list \<Rightarrow> nat option" where
  "find_mount name j [] = None"
| "find_mount name j (m # ms) = (if m_name m = name then Some j else find_mount name (Suc j) ms)"

text \<open>
  The part that \<open>vfs_open\<close>, \<open>vfs_mkdir\<close>, \<open>vfs_touch\<close>, \<open>vfs_dir_at\<close> and \<open>vfs_delete_dir\<close> share: the path is copied
  into a buffer of 1024 bytes and cut at the first colon. The copy reads behind the end of an empty path.
\<close>

definition vfs_route :: "u8 list \<Rightarrow> 'w vfs \<Rightarrow> (nat \<times> u8 list) option res" where
  "vfs_route path v =
     (if path = [] \<or> length path \<ge> 1024 then Inl OutOfBounds
      else if COLON \<notin> set path then Inr None
      else case find_mount (fst (cut_until COLON path)) 0 (vfs_mounts v) of
             None \<Rightarrow> Inr None
           | Some j \<Rightarrow> Inr (Some (j, snd (cut_until COLON path))))"

definition vfs_open :: "u8 list \<Rightarrow> u32 \<Rightarrow> 'w vfs \<Rightarrow> 'w \<Rightarrow> (file_t option \<times> 'w) res" where
  "vfs_open path flags v w =
     rbind (vfs_route path v) (\<lambda>r. case r of
         None \<Rightarrow> Inr (None, w)
       | Some (j, file_path) \<Rightarrow>
           rbind (fn (m_open (vfs_mounts v ! j))) (\<lambda>open_fn.
           rbind (open_fn j file_path w) (\<lambda>(f, w'). Inr (map_option (\<lambda>f. f\<lparr>f_mode := flags\<rparr>) f, w'))))"

text \<open>The mount of an open file.\<close>

definition mount_of :: "file_t \<Rightarrow> 'w vfs \<Rightarrow> 'w vfs_mount_t res" where
  "mount_of f v = (if f_mount f < length (vfs_mounts v) then Inr (vfs_mounts v ! f_mount f) else Inl OutOfBounds)"

definition vfs_close :: "file_t \<Rightarrow> 'w vfs \<Rightarrow> 'w \<Rightarrow> 'w res" where
  "vfs_close f v w = rbind (mount_of f v) (\<lambda>m. rbind (fn (m_close m)) (\<lambda>g. g (f_mount f) f w))"

definition vfs_read :: "file_t \<Rightarrow> u32 \<Rightarrow> u32 \<Rightarrow> 'w vfs \<Rightarrow> 'w \<Rightarrow> u8 list res" where
  "vfs_read f sz offset v w = rbind (mount_of f v) (\<lambda>m. rbind (fn (m_read m)) (\<lambda>g. g (f_mount f) f sz offset w))"

definition vfs_write :: "file_t \<Rightarrow> u8 list \<Rightarrow> u32 \<Rightarrow> 'w vfs \<Rightarrow> 'w \<Rightarrow> (file_t \<times> 'w) res" where
  "vfs_write f buf offset v w = rbind (mount_of f v) (\<lambda>m. rbind (fn (m_write m)) (\<lambda>g. g (f_mount f) f buf offset w))"

definition vfs_truncate :: "file_t \<Rightarrow> u32 \<Rightarrow> 'w vfs \<Rightarrow> 'w \<Rightarrow> (file_t \<times> 'w) res" where
  "vfs_truncate f new_size v w = rbind (mount_of f v) (\<lambda>m. rbind (fn (m_truncate m)) (\<lambda>g. g (f_mount f) f new_size w))"

definition vfs_delete :: "file_t \<Rightarrow> 'w vfs \<Rightarrow> 'w \<Rightarrow> 'w res" where
  "vfs_delete f v w = rbind (mount_of f v) (\<lambda>m. rbind (fn (m_delete m)) (\<lambda>g. g (f_mount f) f w))"

text \<open>The operations on paths call through the mount pointer without testing it.\<close>

definition vfs_at :: "('w vfs_mount_t \<Rightarrow> 'f option) \<Rightarrow> u8 list \<Rightarrow> 'w vfs \<Rightarrow> ('f \<Rightarrow> nat \<Rightarrow> u8 list \<Rightarrow> 'r res) \<Rightarrow> 'r res" where
  "vfs_at sel path v k =
     rbind (vfs_route path v) (\<lambda>r. case r of
         None \<Rightarrow> Inl NullDeref
       | Some (j, file_path) \<Rightarrow> rbind (fn (sel (vfs_mounts v ! j))) (\<lambda>g. k g j file_path))"

definition vfs_mkdir :: "u8 list \<Rightarrow> 'w vfs \<Rightarrow> 'w \<Rightarrow> 'w res" where
  "vfs_mkdir path v w = vfs_at m_mkdir path v (\<lambda>g j p. g j p w)"

definition vfs_touch :: "u8 list \<Rightarrow> 'w vfs \<Rightarrow> 'w \<Rightarrow> 'w res" where
  "vfs_touch path v w = vfs_at m_touch path v (\<lambda>g j p. g j p w)"

definition vfs_dir_at :: "int \<Rightarrow> u8 list \<Rightarrow> 'w vfs \<Rightarrow> 'w \<Rightarrow> dir_t res" where
  "vfs_dir_at idx path v w = vfs_at m_dir_at path v (\<lambda>g j p. g j idx p w)"

definition vfs_delete_dir :: "u8 list \<Rightarrow> 'w vfs \<Rightarrow> 'w \<Rightarrow> 'w res" where
  "vfs_delete_dir path v w = vfs_at m_delete_dir path v (\<lambda>g j p. g j p w)"

text \<open>\<open>vfs_fs_at\<close>: the name of a mount by its number; a negative number reads in front of the array.\<close>

definition vfs_fs_at :: "int \<Rightarrow> 'w vfs \<Rightarrow> u8 list option res" where
  "vfs_fs_at idx v =
     (if idx \<ge> int (length (vfs_mounts v)) then Inr None
      else if idx < 0 then Inl OutOfBounds
      else Inr (Some (m_name (vfs_mounts v ! nat idx))))"

definition vfs_register_fs_scanner :: "(nat \<Rightarrow> 'w \<Rightarrow> ('w vfs_mount_t option \<times> 'w) res) \<Rightarrow> 'w vfs \<Rightarrow> 'w vfs" where
  "vfs_register_fs_scanner scanner v = v\<lparr>vfs_scanner := vfs_scanner v @ [scanner]\<rparr>"

text \<open>The inner loop of \<open>vfs_scan_fs\<close>: the first scanner that knows the disk.\<close>

primrec scan_disk ::
  "nat \<Rightarrow> 'w \<Rightarrow> (nat \<Rightarrow> 'w \<Rightarrow> ('w vfs_mount_t option \<times> 'w) res) list \<Rightarrow> ('w vfs_mount_t option \<times> 'w) res" where
  "scan_disk i w [] = Inr (None, w)"
| "scan_disk i w (sc # scs) =
     rbind (sc i w) (\<lambda>(m, w'). case m of Some m \<Rightarrow> Inr (Some m, w') | None \<Rightarrow> scan_disk i w' scs)"

primrec scan_disks :: "nat list \<Rightarrow> 'w \<Rightarrow> 'w vfs \<Rightarrow> ('w vfs \<times> 'w) res" where
  "scan_disks [] w v = Inr (v, w)"
| "scan_disks (i # is) w v =
     rbind (scan_disk i w (vfs_scanner v)) (\<lambda>(m, w'). scan_disks is w' (case m of Some m \<Rightarrow> vfs_mount m v | None \<Rightarrow> v))"

definition vfs_scan_fs :: "nat \<Rightarrow> 'w \<Rightarrow> 'w vfs \<Rightarrow> ('w vfs \<times> 'w) res" where
  "vfs_scan_fs num_disks w v = scan_disks [0..<num_disks] w v"

text \<open>\<open>try_read_disk_label\<close>: the whole of the file \<open>/LABEL\<close>, or else of \<open>/FOXCFG/dn.fox\<close>.\<close>

abbreviation LABEL :: "u8 list" where
  "LABEL \<equiv> [0x2F, 0x4C, 0x41, 0x42, 0x45, 0x4C]"

abbreviation DN_FOX :: "u8 list" where
  "DN_FOX \<equiv> [0x2F, 0x46, 0x4F, 0x58, 0x43, 0x46, 0x47, 0x2F, 0x64, 0x6E, 0x2E, 0x66, 0x6F, 0x78]"

definition try_read_disk_label :: "nat \<Rightarrow> 'w vfs_mount_t \<Rightarrow> 'w \<Rightarrow> (u8 list option \<times> 'w) res" where
  "try_read_disk_label j mount w =
     rbind (fn (m_open mount)) (\<lambda>open_fn.
     rbind (open_fn j LABEL w) (\<lambda>(l, w1).
     rbind (case l of None \<Rightarrow> open_fn j DN_FOX w1 | Some f \<Rightarrow> Inr (Some f, w1)) (\<lambda>(label, w2). case label of
         None \<Rightarrow> Inr (None, w2)
       | Some f \<Rightarrow>
           rbind (fn (m_read mount)) (\<lambda>read_fn.
           rbind (read_fn j f (f_size f) 0 w2) (\<lambda>out.
           rbind (fn (m_close mount)) (\<lambda>close_fn.
           rbind (close_fn j f w2) (\<lambda>w'. Inr (Some out, w'))))))))"

section \<open>The mounts\<close>

text \<open>
  The RAM file systems by the address of their mount's page, and the memory that holds the initial RAM disk. The
  node of an open file of the RAM disk is the address of its data.
\<close>

record fs_world =
  w_ramfs :: "nat \<Rightarrow> ramfs"
  w_mem :: mem

definition on_ramfs :: "nat \<Rightarrow> (ramfs \<Rightarrow> ramfs res) \<Rightarrow> fs_world \<Rightarrow> fs_world res" where
  "on_ramfs d g w = rbind (g (w_ramfs w d)) (\<lambda>s. Inr (w\<lparr>w_ramfs := (w_ramfs w)(d := s)\<rparr>))"

definition on_file :: "nat \<Rightarrow> file_t \<Rightarrow> (ramfs \<Rightarrow> (u32 \<times> ramfs) res) \<Rightarrow> fs_world \<Rightarrow> (file_t \<times> fs_world) res" where
  "on_file d f g w =
     rbind (g (w_ramfs w d)) (\<lambda>(sz, s). Inr (f\<lparr>f_size := sz\<rparr>, w\<lparr>w_ramfs := (w_ramfs w)(d := s)\<rparr>))"

definition ramfs_mount :: "panic_key \<Rightarrow> (nat \<Rightarrow> u8) \<Rightarrow> nat \<Rightarrow> u8 list \<Rightarrow> fs_world vfs_mount_t" where
  "ramfs_mount k junk d name =
     \<lparr>m_open = Some (\<lambda>j path w. rbind (ramfs_open j path (w_ramfs w d)) (\<lambda>f. Inr (f, w))),
      m_close = Some (\<lambda>j f w. Inr w),
      m_read = Some (\<lambda>j f sz offset w. ramfs_read (f_node f) sz offset (w_ramfs w d)),
      m_write = Some (\<lambda>j f buf offset. on_file d f (ramfs_write junk (f_node f) buf offset)),
      m_delete = Some (\<lambda>j f. on_ramfs d (ramfs_delete k)),
      m_mkdir = Some (\<lambda>j path. on_ramfs d (ramfs_mkdir path)),
      m_touch = Some (\<lambda>j path. on_ramfs d (ramfs_touch path)),
      m_dir_at = Some (\<lambda>j idx path w. ramfs_dir_at idx path (w_ramfs w d)),
      m_delete_dir = Some (\<lambda>j path. on_ramfs d (ramfs_delete_dir k)),
      m_truncate = Some (\<lambda>j f new_size. on_file d f (ramfs_truncate junk (f_node f) new_size)),
      m_name = name\<rparr>"

definition initrd_mount :: "u32 \<Rightarrow> fs_world vfs_mount_t" where
  "initrd_mount base =
     \<lparr>m_open = Some (\<lambda>j path w. rbind (initrd_open (w_mem w) base path) (\<lambda>r.
         Inr (map_option (\<lambda>(sz, a). \<lparr>f_mount = j, f_mode = 0, f_node = unat a, f_size = sz\<rparr>) r, w))),
      m_close = Some (\<lambda>j f w. Inr w),
      m_read = Some (\<lambda>j f sz offset w. initrd_read (f_size f, of_nat (f_node f)) sz offset (w_mem w)),
      m_write = None, m_delete = None, m_mkdir = None, m_touch = None,
      m_dir_at = Some (\<lambda>j idx path w. initrd_dir_at (w_mem w) base idx path),
      m_delete_dir = None, m_truncate = None,
      m_name = initrd_name\<rparr>"

section \<open>Properties\<close>

lemma fn_Some [simp]: "fn (Some g) = Inr g" "fn None = Inl NullDeref"
  by (simp_all add: fn_def)

lemma find_mount_first:
  "i < length ms \<Longrightarrow> m_name (ms ! i) = name \<Longrightarrow> \<forall>k < i. m_name (ms ! k) \<noteq> name \<Longrightarrow> find_mount name j ms = Some (j + i)"
proof (induction ms arbitrary: i j)
  case (Cons m ms)
  show ?case
  proof (cases i)
    case (Suc i')
    then have "m_name m \<noteq> name" "\<forall>k < i'. m_name (ms ! k) \<noteq> name" using Cons.prems(3) by force+
    then show ?thesis using Cons.IH [of i' "Suc j"] Cons.prems(1,2) Suc by simp
  qed (use Cons.prems in simp)
qed simp

lemma find_mount_none: "\<forall>m \<in> set ms. m_name m \<noteq> name \<Longrightarrow> find_mount name i ms = None"
  by (induction ms arbitrary: i) auto

text \<open>A path with the name of a mount in front of the first colon goes to that mount, with the rest as its path.\<close>

lemma vfs_route_mount:
  assumes "j < length (vfs_mounts v)" "m_name (vfs_mounts v ! j) = name" "\<forall>i < j. m_name (vfs_mounts v ! i) \<noteq> name"
    and "COLON \<notin> set name" "length (name @ COLON # p) < 1024"
  shows "vfs_route (name @ COLON # p) v = Inr (Some (j, p))"
  using find_mount_first [OF assms(1-3), of 0] cut_until_append(1) [OF assms(4), of p] assms(5)
  unfolding vfs_route_def by auto

lemma vfs_route_none:
  assumes "\<forall>m \<in> set (vfs_mounts v). m_name m \<noteq> name" "COLON \<notin> set name" "length (name @ COLON # p) < 1024"
  shows "vfs_route (name @ COLON # p) v = Inr None"
  using cut_until_append(1) [OF assms(2), of p] find_mount_none [OF assms(1)] assms(3) unfolding vfs_route_def by auto

text \<open>
  A path whose mount does not exist: \<open>vfs_open\<close> reports it, the other operations call through the null pointer.
\<close>

lemma vfs_no_mount:
  assumes "vfs_route path v = Inr None"
  shows "vfs_open path flags v w = Inr (None, w)" "vfs_touch path v w = Inl NullDeref" "vfs_mkdir path v w = Inl NullDeref"
    "vfs_dir_at idx path v w = Inl NullDeref" "vfs_delete_dir path v w = Inl NullDeref"
  using assms by (simp_all add: vfs_open_def vfs_touch_def vfs_mkdir_def vfs_dir_at_def vfs_delete_dir_def vfs_at_def)

text \<open>Changing the contents of a file keeps every path that leads to a node.\<close>

lemma walk_set_data:
  assumes "file_data i s = Some d0"
  shows "ramfs_walk (nodes s) cs x = Inr (Some y) \<Longrightarrow> ramfs_walk (nodes (set_data i d s)) cs x = Inr (Some y)"
proof (induction cs arbitrary: x)
  case (Cons c cs)
  have nm: "node_name (nodes (set_data i d s) m) = node_name (nodes s m)" for m by (simp add: set_data_def set_fdata_def)
  then have ch: "ramfs_child (nodes (set_data i d s)) c l = ramfs_child (nodes s) c l" for l
    by (induction l) (auto split: option.split)
  from Cons.prems obtain childs n where dir: "node_body (nodes s x) = NODE_DIR childs"
    and n: "ramfs_child (nodes s) c childs = Some n" "ramfs_walk (nodes s) cs n = Inr (Some y)"
    by (auto split: ramfs_body.splits option.splits if_splits)
  have "x \<noteq> i" using dir assms by (auto simp: file_data_def)
  then have "node_body (nodes (set_data i d s) x) = NODE_DIR childs" using dir by (simp add: set_data_def set_fdata_def)
  then show ?case using n ch Cons.IH by simp
qed simp

lemma open_set_data:
  assumes "\<forall>c \<in> set cs. component c" "file_data i s = Some d0" "ramfs_open j (path_of cs) s = Inr (Some f)" "f_node f = i"
  shows "ramfs_open j (path_of cs) (set_data i d s) = Inr (Some (f\<lparr>f_size := of_nat (length d)\<rparr>))"
proof -
  from assms(3,4) have w: "ramfs_walk (nodes s) cs (root s) = Inr (Some i)" and f: "f_mount f = j" "f_mode f = 0"
    by (auto simp: ramfs_open_def ramfs_find_walk [OF assms(1)] rbind_def split: sum.splits option.splits ramfs_body.splits)
  have "root (set_data i d s) = root s" by (simp add: set_data_def set_fdata_def)
  then have "ramfs_find (nodes (set_data i d s)) (path_of cs) (root (set_data i d s)) = Inr (Some i)"
    using walk_set_data [OF assms(2) w] ramfs_find_walk [OF assms(1)] by simp
  moreover obtain b where "node_body (nodes (set_data i d s) i) = NODE_FILE b" "data_of b = d"
    by (simp add: set_data_def set_fdata_def)
  ultimately show ?thesis using f assms(4) by (cases f) (simp add: ramfs_open_def)
qed

text \<open>
  Creating a file through the virtual file system and using it. With a RAM file system mounted under a name
  that no earlier mount has, and a path below an existing directory with a free entry and no child of that name,
  \<open>vfs_touch\<close> creates the file, \<open>vfs_open\<close> opens it empty with the given mode, a \<open>vfs_write\<close> at its start of any
  buffer is read back by \<open>vfs_read\<close>, opening the path again shows the new size, and neither other RAM file systems nor
  the files that existed before change.
\<close>

lemma vfs_create_write_read:
  assumes m: "j < length (vfs_mounts v)" "vfs_mounts v ! j = ramfs_mount k junk d name"
      "\<forall>i < j. m_name (vfs_mounts v ! i) \<noteq> name" "COLON \<notin> set name"
    and p: "path = name @ COLON # path_of (cs @ [n])" "length path < 1024"
    and s: "s = w_ramfs w d" "ramfs_inv s" "\<forall>c \<in> set (cs @ [n]). component c" "length n < 92" "length (path_of cs) < 512"
      "ramfs_find (nodes s) (path_of cs) (root s) = Inr (Some i)" "node_body (nodes s i) = NODE_DIR childs"
      "ramfs_child (nodes s) n childs = None" "None \<in> set childs"
    and b: "length b < 2 ^ 31"
  shows "\<exists>w1 f w2. vfs_touch path v w = Inr w1 \<and> vfs_open path flags v w1 = Inr (Some f, w1) \<and> f_size f = 0 \<and> f_mode f = flags \<and>
    vfs_write f b 0 v w1 = Inr (f\<lparr>f_size := of_nat (length b)\<rparr>, w2) \<and> vfs_read (f\<lparr>f_size := of_nat (length b)\<rparr>) (of_nat (length b)) 0 v w2 = Inr b \<and>
    vfs_open path flags v w2 = Inr (Some (f\<lparr>f_size := of_nat (length b)\<rparr>), w2) \<and>
    (\<forall>e. e \<noteq> d \<longrightarrow> w_ramfs w2 e = w_ramfs w e) \<and> (\<forall>x < next_node s. file_data x (w_ramfs w2 d) = file_data x s)"
proof -
  let ?p = "path_of (cs @ [n])"
  have r: "vfs_route path v = Inr (Some (j, ?p))"
    using vfs_route_mount [OF m(1) _ m(3,4), of ?p] m(2) p by (simp add: ramfs_mount_def)
  obtain s1 where s1: "ramfs_touch ?p s = Inr s1"
    "ramfs_open j ?p s1 = Inr (Some \<lparr>f_mount = j, f_mode = 0, f_node = next_node s, f_size = 0\<rparr>)"
    "file_data (next_node s) s1 = Some []" "\<forall>x < next_node s. file_data x s1 = file_data x s"
    using ramfs_touch_new [OF s(2-9), of j] by blast
  let ?f = "\<lparr>f_mount = j, f_mode = flags, f_node = next_node s, f_size = 0\<rparr>"
  let ?w1 = "w\<lparr>w_ramfs := (w_ramfs w)(d := s1)\<rparr>" and ?s2 = "set_data (next_node s) b s1"
  let ?w2 = "w\<lparr>w_ramfs := (w_ramfs w)(d := ?s2)\<rparr>"
  have wr: "ramfs_write junk (next_node s) b 0 s1 = Inr (of_nat (length b), ?s2)"
    using ramfs_write_contents [OF s1(3), of 0 b junk] b by simp
  have "file_data (next_node s) ?s2 = Some b" by (simp add: file_data_set)
  then have rd: "ramfs_read (next_node s) (of_nat (length b)) 0 ?s2 = Inr b"
    using ramfs_files.rd_all b by simp
  note op = open_set_data [OF s(3) s1(3,2), of b, simplified]
  have mo: "mount_of f v = Inr (ramfs_mount k junk d name)" if "f_mount f = j" for f
    using m(1,2) that by (simp add: mount_of_def)
  have "vfs_touch path v w = Inr ?w1" "vfs_open path flags v ?w1 = Inr (Some ?f, ?w1)"
    "vfs_write ?f b 0 v ?w1 = Inr (?f\<lparr>f_size := of_nat (length b)\<rparr>, ?w2)" "vfs_read (?f\<lparr>f_size := of_nat (length b)\<rparr>) (of_nat (length b)) 0 v ?w2 = Inr b"
    "vfs_open path flags v ?w2 = Inr (Some (?f\<lparr>f_size := of_nat (length b)\<rparr>), ?w2)"
    using r m(2) mo [of ?f] mo [of "?f\<lparr>f_size := of_nat (length b)\<rparr>"] s1(1,2) wr rd op s(1)
    by (simp_all add: vfs_touch_def vfs_at_def vfs_open_def vfs_write_def vfs_read_def ramfs_mount_def on_ramfs_def on_file_def)
  moreover have "file_data x (w_ramfs ?w2 d) = file_data x s" if "x < next_node s" for x
    using that s1(4) by (simp add: file_data_set)
  ultimately show ?thesis by (intro exI [of _ ?w1] exI [of _ ?f] exI [of _ ?w2]) simp
qed

end
