(* ===== verification/Slots.thy ===== *)
theory Slots
  imports Prelude
begin

text \<open>
  Tables of slots. The kernel keeps open files, sockets and task resources in growing arrays of
  pointers in which a free slot is \<open>NULL\<close>: a new entry goes into the first free slot, and the array
  grows by one when there is none. \<open>slot_put\<close> is that loop. The locale \<open>handle_table\<close> is what the callers rely
  on: handles of open entries are different and keep their values until they are closed.
\<close>

section \<open>The loop\<close>

primrec slot_put :: "'a option \<Rightarrow> 'a option list \<Rightarrow> nat \<times> 'a option list" where
  "slot_put v [] = (0, [v])"
| "slot_put v (x # xs) =
     (if x = None then (0, v # xs) else let (i, ys) = slot_put v xs in (Suc i, x # ys))"

definition slot_get :: "nat \<Rightarrow> 'a option list \<Rightarrow> 'a option" where
  "slot_get i xs = (if i < length xs then xs ! i else None)"

lemma slot_get_simps [simp]:
  "slot_get i [] = None" "slot_get 0 (x # xs) = x" "slot_get (Suc i) (x # xs) = slot_get i xs"
  by (simp_all add: slot_get_def)

lemma slot_put_get:
  "slot_get i (snd (slot_put v xs)) = (if i = fst (slot_put v xs) then v else slot_get i xs)"
proof (induction xs arbitrary: i)
  case Nil
  then show ?case by (cases i) simp_all
next
  case (Cons x xs)
  then show ?case by (cases i) (simp_all add: case_prod_beta Let_def)
qed

lemma slot_put_fresh: "slot_get (fst (slot_put v xs)) xs = None"
  by (induction xs) (simp_all add: case_prod_beta Let_def)

lemma slot_put_index: "fst (slot_put v xs) < length (snd (slot_put v xs))"
  by (induction xs) (simp_all add: case_prod_beta Let_def)

lemma slot_put_length: "length (snd (slot_put v xs)) \<le> Suc (length xs)"
  by (induction xs) (simp_all add: case_prod_beta Let_def)

text \<open>The first free slot is taken: every slot before it is in use.\<close>

lemma slot_put_first: "j < fst (slot_put v xs) \<Longrightarrow> slot_get j xs \<noteq> None"
proof (induction xs arbitrary: j)
  case (Cons x xs)
  then show ?case by (cases j) (auto simp: case_prod_beta Let_def split: if_splits)
qed simp

lemma slot_get_update: "slot_get i (xs[j := v]) = (if i = j \<and> j < length xs then v else slot_get i xs)"
  by (simp add: slot_get_def nth_list_update)

lemma slot_put_set: "set (snd (slot_put v xs)) \<subseteq> insert v (set xs)"
  by (induction xs) (auto simp: case_prod_beta Let_def)

section \<open>The contract of a table\<close>

datatype ('v, 'h) table_op = Open 'v | Close 'h

locale handle_table =
  fixes inv :: "'t \<Rightarrow> bool" and room :: "'t \<Rightarrow> bool"
    and alloc :: "'v \<Rightarrow> 't \<Rightarrow> 'h \<times> 't" and look :: "'h \<Rightarrow> 't \<Rightarrow> 'v option" and close :: "'h \<Rightarrow> 't \<Rightarrow> 't"
  assumes alloc_inv: "inv t \<Longrightarrow> room t \<Longrightarrow> inv (snd (alloc v t))"
    and close_inv: "inv t \<Longrightarrow> look h t \<noteq> None \<Longrightarrow> inv (close h t)"
    and alloc_fresh: "inv t \<Longrightarrow> room t \<Longrightarrow> look (fst (alloc v t)) t = None"
    and look_alloc: "inv t \<Longrightarrow> room t \<Longrightarrow> look h (snd (alloc v t)) = (if h = fst (alloc v t) then Some v else look h t)"
    and look_close: "inv t \<Longrightarrow> look h t \<noteq> None \<Longrightarrow> look h' (close h t) = (if h' = h then None else look h' t)"
begin

text \<open>
  A run of opens and closes. The run ends with \<open>None\<close> when a closed handle is not open or the table
  has no room; else it gives the table and the handles it opened that are still open, with their values.
\<close>

primrec run :: "('v, 'h) table_op list \<Rightarrow> 't \<times> ('h \<times> 'v) list \<Rightarrow> ('t \<times> ('h \<times> 'v) list) option" where
  "run [] c = Some c"
| "run (op # ops) c =
     (case op of
        Open v \<Rightarrow> (if room (fst c) then run ops (snd (alloc v (fst c)), (fst (alloc v (fst c)), v) # snd c) else None)
      | Close h \<Rightarrow> (if h \<in> fst ` set (snd c) then run ops (close h (fst c), filter (\<lambda>p. fst p \<noteq> h) (snd c)) else None))"

definition agrees :: "'t \<times> ('h \<times> 'v) list \<Rightarrow> bool" where
  "agrees c \<longleftrightarrow> inv (fst c) \<and> distinct (map fst (snd c)) \<and> (\<forall>(h, v) \<in> set (snd c). look h (fst c) = Some v)"

lemma agrees_open: "agrees c \<Longrightarrow> room (fst c) \<Longrightarrow> agrees (snd (alloc v (fst c)), (fst (alloc v (fst c)), v) # snd c)"
  unfolding agrees_def using alloc_inv alloc_fresh look_alloc by fastforce

lemma distinct_filter_fst: "distinct (map fst ps) \<Longrightarrow> distinct (map fst (filter P ps))"
  by (induction ps) auto

lemma agrees_close:
  assumes "agrees c" "h \<in> fst ` set (snd c)"
  shows "agrees (close h (fst c), filter (\<lambda>p. fst p \<noteq> h) (snd c))"
proof -
  have "look h (fst c) \<noteq> None" using assms by (force simp: agrees_def)
  then show ?thesis
    using assms(1) close_inv look_close by (auto simp: agrees_def distinct_filter_fst)
qed

lemma run_agrees: "run ops c = Some c' \<Longrightarrow> agrees c \<Longrightarrow> agrees c'"
proof (induction ops arbitrary: c)
  case (Cons op ops)
  then show ?case
    using agrees_open agrees_close by (cases op) (auto split: if_splits)
qed simp

text \<open>An entry that the run does not close keeps its handle and its value.\<close>

lemma run_keeps:
  "run ops c = Some c' \<Longrightarrow> agrees c \<Longrightarrow> (h, v) \<in> set (snd c) \<Longrightarrow> Close h \<notin> set ops \<Longrightarrow> look h (fst c') = Some v"
proof (induction ops arbitrary: c)
  case Nil
  then show ?case by (auto simp: agrees_def)
next
  case (Cons op ops)
  show ?case
  proof (cases op)
    case (Open w)
    then show ?thesis using Cons agrees_open by (auto split: if_splits)
  next
    case (Close g)
    then show ?thesis using Cons agrees_close by (auto split: if_splits)
  qed
qed

end

end
