(* ===== verification/Fd.thy ===== *)
theory Fd
  imports Slots
begin

text \<open>
  File descriptors, \<open>mckrnl/fs/fd.c\<close>. \<open>fd_table\<close> is the array of file pointers, \<open>num_fd\<close> is its length
  and a descriptor is an index plus \<open>FD_OFFSET\<close>. The index is not wrapped: the array of 4-byte pointers lies in an
  address space of 32 bits. \<open>fd_to_file\<close> and \<open>fd_free\<close> do not test the descriptor: one outside the
  table is an access outside the array.
\<close>

abbreviation FD_OFFSET :: int where
  "FD_OFFSET \<equiv> 5"

definition file_to_fd :: "'f option \<Rightarrow> 'f option list \<Rightarrow> int \<times> 'f option list" where
  "file_to_fd file fd_table = (let (i, t) = slot_put file fd_table in (int i + FD_OFFSET, t))"

definition fd_to_file :: "int \<Rightarrow> 'f option list \<Rightarrow> 'f option res" where
  "fd_to_file fd fd_table =
     (if 0 \<le> fd - FD_OFFSET \<and> fd - FD_OFFSET < int (length fd_table) then Inr (fd_table ! nat (fd - FD_OFFSET))
      else Inl OutOfBounds)"

definition fd_free :: "int \<Rightarrow> 'f option list \<Rightarrow> 'f option list res" where
  "fd_free fd fd_table =
     (if 0 \<le> fd - FD_OFFSET \<and> fd - FD_OFFSET < int (length fd_table) then Inr (fd_table[nat (fd - FD_OFFSET) := None])
      else Inl OutOfBounds)"

text \<open>The file of a descriptor, \<open>None\<close> also for a descriptor outside the table.\<close>

definition fd_look :: "int \<Rightarrow> 'f option list \<Rightarrow> 'f option" where
  "fd_look fd t = (case fd_to_file fd t of Inl _ \<Rightarrow> None | Inr f \<Rightarrow> f)"

definition fd_drop :: "int \<Rightarrow> 'f option list \<Rightarrow> 'f option list" where
  "fd_drop fd t = (case fd_free fd t of Inl _ \<Rightarrow> t | Inr t' \<Rightarrow> t')"

lemma fd_look_slot: "fd_look fd t = (if FD_OFFSET \<le> fd then slot_get (nat (fd - FD_OFFSET)) t else None)"
  by (auto simp: fd_look_def fd_to_file_def slot_get_def)

lemma fd_drop_slot: "FD_OFFSET \<le> fd \<Longrightarrow> fd_drop fd t = t[nat (fd - FD_OFFSET) := None]"
  by (auto simp: fd_drop_def fd_free_def list_update_beyond)

lemma fd_look_open: "fd_look fd t = Some f \<Longrightarrow> fd_to_file fd t = Inr (Some f) \<and> fd_free fd t = Inr (fd_drop fd t)"
  by (auto simp: fd_look_def fd_to_file_def fd_drop_def fd_free_def split: if_splits)

interpretation fds: handle_table "\<lambda>_. True" "\<lambda>_. True" "\<lambda>f. file_to_fd (Some f)" fd_look fd_drop
proof
  fix t :: "'f option list" and h h' :: int and v :: 'f
  show "fd_look (fst (file_to_fd (Some v) t)) t = None"
    using slot_put_fresh [of "Some v" t] by (simp add: fd_look_slot file_to_fd_def case_prod_beta)
  show "fd_look h (snd (file_to_fd (Some v) t)) = (if h = fst (file_to_fd (Some v) t) then Some v else fd_look h t)"
    using slot_put_get [of "nat (h - FD_OFFSET)" "Some v" t]
    by (auto simp: fd_look_slot file_to_fd_def case_prod_beta)
  assume "fd_look h t \<noteq> None"
  then have h: "FD_OFFSET \<le> h" "nat (h - FD_OFFSET) < length t"
    by (auto simp: fd_look_slot slot_get_def split: if_splits)
  then show "fd_look h' (fd_drop h t) = (if h' = h then None else fd_look h' t)"
    by (auto simp: fd_look_slot fd_drop_slot slot_get_update)
qed simp_all

text \<open>
  C40. Descriptors through any sequence of opens and closes, from a table with no descriptor of the
  caller: whatever descriptors are open have different numbers of at least \<open>FD_OFFSET\<close>, and
  \<open>fd_to_file\<close> returns for each the file it was opened for.
\<close>

theorem fd_table_run:
  assumes "fds.run ops (t, []) = Some (t', opened)"
  shows "distinct (map fst opened) \<and> (\<forall>(fd, f) \<in> set opened. FD_OFFSET \<le> fd \<and> fd_to_file fd t' = Inr (Some f))"
proof -
  have "fds.agrees (t', opened)"
    by (rule fds.run_agrees [OF assms]) (simp add: fds.agrees_def)
  then show ?thesis
    using fd_look_open by (fastforce simp: fds.agrees_def fd_look_slot split: if_splits)
qed

theorem fd_table_run_witness:
  "\<exists>t' opened. fds.run [Open CHR ''a'', Open CHR ''b'', Close 5, Open CHR ''c''] ([], []) = Some (t', opened) \<and>
     opened = [(5, CHR ''c''), (6, CHR ''b'')] \<and> fd_to_file 5 t' = Inr (Some CHR ''c'')"
proof -
  have r: "fds.run [Open CHR ''a'', Open CHR ''b'', Close 5, Open CHR ''c''] ([], []) =
      Some ([Some CHR ''c'', Some CHR ''b''], [(5, CHR ''c''), (6, CHR ''b'')])"
    by (simp add: file_to_fd_def fd_drop_def fd_free_def)
  then show ?thesis using fd_table_run [OF r] by simp
qed

text \<open>
  A descriptor is the lowest free one: every smaller descriptor is open. It stays the same file
  while other files are opened and closed.
\<close>

lemma file_to_fd_lowest:
  assumes "file_to_fd (Some f) t = (fd, t')"
  shows "fd_look fd t = None \<and> (\<forall>d. FD_OFFSET \<le> d \<and> d < fd \<longrightarrow> fd_look d t \<noteq> None) \<and>
    (\<forall>d. d \<noteq> fd \<longrightarrow> fd_look d t' = fd_look d t) \<and> fd_to_file fd t' = Inr (Some f) \<and>
    fd_free fd t' = Inr (t'[nat (fd - FD_OFFSET) := None])"
proof -
  have e: "fd = fst (file_to_fd (Some f) t)" "t' = snd (file_to_fd (Some f) t)" using assms by simp_all
  have "fd_look fd t' = Some f" unfolding e by (simp add: fds.look_alloc)
  moreover have "fd_look d t \<noteq> None" if "FD_OFFSET \<le> d" "d < fd" for d
    using slot_put_first [of "nat (d - FD_OFFSET)" "Some f" t] that e(1)
    by (simp add: fd_look_slot file_to_fd_def case_prod_beta)
  moreover have "FD_OFFSET \<le> fd" unfolding e(1) by (simp add: file_to_fd_def case_prod_beta)
  ultimately show ?thesis
    using fds.alloc_fresh [where t = t and v = f] fds.look_alloc [where t = t and v = f] fd_look_open [of fd t'] fd_drop_slot [of fd t']
    unfolding e by auto
qed

end
