(* ===== verification/Sockets.thy ===== *)
theory Sockets
  imports Tcp Slots
begin

text \<open>
  The socket layer, \<open>mckrnl/net/socket_manager.c\<close>. A socket object is named by a number in \<open>sk_heap\<close>;
  reading one that was freed is an access outside the memory in use. \<open>received\<close> is the content of
  \<open>received_data\<close>, \<open>num_bytes_received\<close> is its length. The socket type is an \<open>int\<close> in the source.
\<close>

section \<open>Definitions\<close>

text \<open>
  The macro \<open>invalid\<close>: a panic, then an endless loop. Whatever the operator answers, the call never returns.
\<close>

definition invalid :: "'a res" where
  "invalid = Inl Halted"

text \<open>
  Both receive callbacks append the data to the buffer. A size larger than the data reads past the end of the packet.
\<close>

definition socket_udp_recv :: "nat \<Rightarrow> u8 list \<Rightarrow> u32 \<Rightarrow> net \<Rightarrow> net res" where
  "socket_udp_recv j data sz s =
     (case sk_heap s j of
        None \<Rightarrow> Inl OutOfBounds
      | Some k \<Rightarrow> if length data < unat sz then Inl OutOfBounds
          else Inr (s\<lparr>sk_heap := (sk_heap s)(j \<mapsto> k\<lparr>received := received k @ take (unat sz) data\<rparr>)\<rparr>))"

definition socket_tcp_recv :: "nat \<Rightarrow> u8 list \<Rightarrow> u32 \<Rightarrow> net \<Rightarrow> net res" where
  "socket_tcp_recv j data sz s =
     (case sk_heap s j of
        None \<Rightarrow> Inl OutOfBounds
      | Some k \<Rightarrow> if length data < unat sz then Inl OutOfBounds
          else Inr (s\<lparr>sk_heap := (sk_heap s)(j \<mapsto> k\<lparr>received := received k @ take (unat sz) data\<rparr>)\<rparr>))"

text \<open>What the call through the \<open>recv\<close> pointer of a TCP socket does.\<close>

definition tcp_recv_callback :: "tcp_cb \<Rightarrow> nat \<Rightarrow> u8 list \<Rightarrow> u32 \<Rightarrow> net \<Rightarrow> net res" where
  "tcp_recv_callback c i data sz s =
     (case c of TcpNone \<Rightarrow> Inl NullDeref | SocketTcpRecv j \<Rightarrow> socket_tcp_recv j data sz s)"

definition socket_manager_alloc :: "net \<Rightarrow> u32 \<times> net" where
  "socket_manager_alloc s = (curr_socket s + 1, s\<lparr>curr_socket := curr_socket s + 1\<rparr>)"

definition socket_manager_register :: "nat \<Rightarrow> net \<Rightarrow> net" where
  "socket_manager_register j s = s\<lparr>sockets := snd (slot_put (Some j) (sockets s))\<rparr>"

text \<open>The id of the object a slot points to; the code reads it whether or not the object is still allocated.\<close>

definition sk_has_id :: "net \<Rightarrow> u32 \<Rightarrow> nat \<Rightarrow> bool" where
  "sk_has_id s sid j = (case sk_heap s j of None \<Rightarrow> False | Some k \<Rightarrow> socket_id k = sid)"

primrec slot_clear :: "('a \<Rightarrow> bool) \<Rightarrow> 'a option list \<Rightarrow> 'a option list" where
  "slot_clear P [] = []"
| "slot_clear P (x # xs) = (case x of None \<Rightarrow> x # slot_clear P xs | Some j \<Rightarrow> if P j then None # xs else x # slot_clear P xs)"

primrec slot_find :: "('a \<Rightarrow> bool) \<Rightarrow> 'a option list \<Rightarrow> 'a option" where
  "slot_find P [] = None"
| "slot_find P (x # xs) = (case x of None \<Rightarrow> slot_find P xs | Some j \<Rightarrow> if P j then Some j else slot_find P xs)"

definition socket_manager_free :: "u32 \<Rightarrow> net \<Rightarrow> net" where
  "socket_manager_free sid s = s\<lparr>sockets := slot_clear (sk_has_id s sid) (sockets s)\<rparr>"

definition socket_manager_find :: "u32 \<Rightarrow> net \<Rightarrow> nat option" where
  "socket_manager_find sid s = slot_find (sk_has_id s sid) (sockets s)"

definition init_socket_manager :: "net \<Rightarrow> net" where
  "init_socket_manager s = s\<lparr>sockets := [], curr_socket := 5\<rparr>"

text \<open>
  \<open>socket_connect\<close>. \<open>time_ms\<close>, \<open>env_arp\<close> and \<open>env\<close> are those of \<open>tcp_connect\<close>. The callback is
  set after \<open>tcp_connect\<close> has returned.
\<close>

definition socket_connect :: "int \<Rightarrow> u32 \<Rightarrow> u16 \<Rightarrow> u32 \<Rightarrow> (net \<Rightarrow> net) list \<Rightarrow> (net \<Rightarrow> net) list \<Rightarrow> net \<Rightarrow> (nat \<times> net) res" where
  "socket_connect ty ip port time_ms env_arp env s =
     (let j = sk_next s; (sid, s1) = socket_manager_alloc (s\<lparr>sk_next := Suc j\<rparr>) in
      rbind
        (if ty = 0 then
           (let (u, s2) = udp_connect ip port s1 in
            Inr (s2\<lparr>udp_socks := (udp_socks s2)(u := (udp_socks s2 u)\<lparr>u_recv := SocketUdpRecv j\<rparr>),
                    sk_heap := (sk_heap s2)(j \<mapsto> \<lparr>socket_type = SOCKET_UDP, sk_conn = u, socket_id = sid, received = []\<rparr>)\<rparr>))
         else if ty = 1 then
           rbind (tcp_connect ip port time_ms env_arp env s1) (\<lambda>(t, s2).
             Inr (upd_tcp t (\<lambda>x. x\<lparr>t_recv := SocketTcpRecv j\<rparr>)
               (s2\<lparr>sk_heap := (sk_heap s2)(j \<mapsto> \<lparr>socket_type = SOCKET_TCP, sk_conn = t, socket_id = sid, received = []\<rparr>)\<rparr>)))
         else invalid)
        (\<lambda>s3. Inr (j, socket_manager_register j s3)))"

definition socket_disconnect :: "nat \<Rightarrow> (net \<Rightarrow> net) list \<Rightarrow> net \<Rightarrow> net res" where
  "socket_disconnect j env s =
     (case sk_heap s j of
        None \<Rightarrow> Inl OutOfBounds
      | Some k \<Rightarrow>
          rbind (case socket_type k of
                   SOCKET_UDP \<Rightarrow> Inr (udp_socket_disconnect (sk_conn k) s)
                 | SOCKET_TCP \<Rightarrow> tcp_socket_disconnect (sk_conn k) env s)
            (\<lambda>s1. let s2 = socket_manager_free (socket_id k) s1 in Inr (s2\<lparr>sk_heap := (sk_heap s2)(j := None)\<rparr>)))"

definition socket_send :: "nat \<Rightarrow> u8 list \<Rightarrow> (net \<Rightarrow> net) list \<Rightarrow> net \<Rightarrow> net res" where
  "socket_send j data env s =
     (case sk_heap s j of
        None \<Rightarrow> Inl OutOfBounds
      | Some k \<Rightarrow> (case socket_type k of
            SOCKET_UDP \<Rightarrow> udp_socket_send (sk_conn k) data env s
          | SOCKET_TCP \<Rightarrow> tcp_socket_send (sk_conn k) data env s))"

primrec socket_wait :: "nat \<Rightarrow> nat \<Rightarrow> u32 \<Rightarrow> (net \<Rightarrow> net) list \<Rightarrow> net \<Rightarrow> (u8 list \<times> net) res" where
  "socket_wait 0 j sz env s = Inr ([], s)"
| "socket_wait (Suc n) j sz env s =
     (let (s1, env1) = sleep env s in
      case sk_heap s1 j of
        None \<Rightarrow> Inl OutOfBounds
      | Some k \<Rightarrow>
          if received k \<noteq> [] then
            (let m = min (length (received k)) (unat sz) in
             Inr (take m (received k), s1\<lparr>sk_heap := (sk_heap s1)(j \<mapsto> k\<lparr>received := drop m (received k)\<rparr>)\<rparr>))
          else socket_wait n j sz env1 s1)"

text \<open>\<open>socket_recv\<close> returns the bytes it copies to the caller; their number is the C function's result.\<close>

definition socket_recv :: "nat \<Rightarrow> u32 \<Rightarrow> (net \<Rightarrow> net) list \<Rightarrow> net \<Rightarrow> (u8 list \<times> net) res" where
  "socket_recv j sz env s = socket_wait 1999 j sz env s"

section \<open>The table of sockets\<close>

definition live :: "'a option list \<Rightarrow> 'a set" where
  "live xs = {j. Some j \<in> set xs}"

lemma live_simps [simp]: "live [] = {}" "live (None # xs) = live xs" "live (Some j # xs) = insert j (live xs)"
  by (auto simp: live_def)

lemma live_put: "live (snd (slot_put (Some j) xs)) = insert j (live xs)"
proof (induction xs)
  case (Cons x xs)
  then show ?case by (cases x) (auto simp: case_prod_beta Let_def)
qed simp

text \<open>No pointer is in two slots.\<close>

primrec slots_distinct :: "'a option list \<Rightarrow> bool" where
  "slots_distinct [] = True"
| "slots_distinct (x # xs) = ((case x of None \<Rightarrow> True | Some j \<Rightarrow> j \<notin> live xs) \<and> slots_distinct xs)"

lemma distinct_slot_put: "slots_distinct xs \<Longrightarrow> j \<notin> live xs \<Longrightarrow> slots_distinct (snd (slot_put (Some j) xs))"
proof (induction xs)
  case (Cons x xs)
  then show ?case by (cases x) (auto simp: case_prod_beta Let_def live_put)
qed simp

lemma slot_find_None: "slot_find P xs = None \<longleftrightarrow> (\<forall>j \<in> live xs. \<not> P j)"
proof (induction xs)
  case (Cons x xs)
  then show ?case by (cases x) auto
qed simp

lemma slot_find_Some: "slot_find P xs = Some j \<Longrightarrow> j \<in> live xs \<and> P j"
proof (induction xs)
  case (Cons x xs)
  then show ?case by (cases x) (auto split: if_splits)
qed simp

lemma slot_find_unique:
  assumes "j \<in> live xs" "P j" "\<And>j'. j' \<in> live xs \<Longrightarrow> P j' \<Longrightarrow> j' = j"
  shows "slot_find P xs = Some j"
proof (cases "slot_find P xs")
  case None
  then show ?thesis using assms(1,2) by (simp add: slot_find_None)
next
  case (Some j')
  then show ?thesis using slot_find_Some [OF Some] assms(3) by simp
qed

lemma slot_clear_live:
  "slots_distinct xs \<Longrightarrow> live (slot_clear P xs) = live xs - (case slot_find P xs of None \<Rightarrow> {} | Some j \<Rightarrow> {j})"
proof (induction xs)
  case (Cons x xs)
  then show ?case using slot_find_Some [of P xs] by (cases x) (auto split: option.splits)
qed simp

lemma slot_clear_distinct: "slots_distinct xs \<Longrightarrow> slots_distinct (slot_clear P xs)"
proof (induction xs)
  case (Cons x xs)
  then show ?case by (cases x) (auto simp: slot_clear_live)
qed simp

text \<open>
  The invariant: the table points to allocated sockets only, each once, with different ids that were
  given out before, and a UDP socket of the table exists.
\<close>

definition sk_inv :: "net \<Rightarrow> bool" where
  "sk_inv s \<longleftrightarrow> slots_distinct (sockets s) \<and>
     (\<forall>j \<in> live (sockets s). j < sk_next s \<and> (\<exists>k. sk_heap s j = Some k \<and> socket_id k \<le> curr_socket s \<and>
        (socket_type k = SOCKET_UDP \<longrightarrow> sk_conn k < udp_next s))) \<and>
     (\<forall>i \<in> live (sockets s). \<forall>j \<in> live (sockets s). \<forall>k. sk_heap s i = Some k \<longrightarrow> sk_has_id s (socket_id k) j \<longrightarrow> i = j)"

lemma sk_invD:
  assumes "sk_inv s" "j \<in> live (sockets s)"
  obtains k where "sk_heap s j = Some k" "socket_id k \<le> curr_socket s" "socket_type k = SOCKET_UDP \<longrightarrow> sk_conn k < udp_next s"
    "j < sk_next s"
  using assms unfolding sk_inv_def by blast

lemma sk_find_iff:
  assumes "sk_inv s"
  shows "socket_manager_find sid s = Some j \<longleftrightarrow> j \<in> live (sockets s) \<and> sk_has_id s sid j"
proof
  assume "socket_manager_find sid s = Some j"
  then show "j \<in> live (sockets s) \<and> sk_has_id s sid j"
    unfolding socket_manager_find_def by (rule slot_find_Some)
next
  assume j: "j \<in> live (sockets s) \<and> sk_has_id s sid j"
  have "j' = j" if j': "j' \<in> live (sockets s)" "sk_has_id s sid j'" for j'
  proof -
    obtain k where k: "sk_heap s j' = Some k" by (rule sk_invD [OF assms j'(1)])
    then have "sk_has_id s (socket_id k) j" using j'(2) j by (simp add: sk_has_id_def)
    then show ?thesis using assms j'(1) j k unfolding sk_inv_def by blast
  qed
  with j show "socket_manager_find sid s = Some j"
    unfolding socket_manager_find_def by (intro slot_find_unique) auto
qed

text \<open>What a caller sees of the UDP socket with an id: the address it is connected to.\<close>

definition sk_look :: "u32 \<Rightarrow> net \<Rightarrow> (u32 \<times> u16) option" where
  "sk_look sid s =
     (case socket_manager_find sid s of
        None \<Rightarrow> None
      | Some j \<Rightarrow> (case sk_heap s j of
            None \<Rightarrow> None
          | Some k \<Rightarrow> if socket_type k = SOCKET_UDP
              then Some (u_remote_ip (udp_socks s (sk_conn k)), BSWAP16 (u_remote_port (udp_socks s (sk_conn k)))) else None))"

definition sk_open :: "u32 \<times> u16 \<Rightarrow> net \<Rightarrow> u32 \<times> net" where
  "sk_open a s = (case socket_connect 0 (fst a) (snd a) 0 [] [] s of Inr (j, s') \<Rightarrow> (socket_id (the (sk_heap s' j)), s') | Inl _ \<Rightarrow> (0, s))"

definition sk_close :: "u32 \<Rightarrow> net \<Rightarrow> net" where
  "sk_close sid s = (case socket_manager_find sid s of None \<Rightarrow> s
     | Some j \<Rightarrow> (case socket_disconnect j [] s of Inr s' \<Rightarrow> s' | Inl _ \<Rightarrow> s))"

lemma sk_look_iff:
  assumes "sk_inv s"
  shows "sk_look sid s = Some a \<longleftrightarrow> (\<exists>j k. j \<in> live (sockets s) \<and> sk_heap s j = Some k \<and> socket_id k = sid \<and>
    socket_type k = SOCKET_UDP \<and> a = (u_remote_ip (udp_socks s (sk_conn k)), BSWAP16 (u_remote_port (udp_socks s (sk_conn k)))))"
    (is "?l \<longleftrightarrow> ?r")
proof
  assume ?l
  then obtain j k where "socket_manager_find sid s = Some j" "sk_heap s j = Some k" "socket_type k = SOCKET_UDP"
    "a = (u_remote_ip (udp_socks s (sk_conn k)), BSWAP16 (u_remote_port (udp_socks s (sk_conn k))))"
    by (auto simp: sk_look_def split: option.splits if_splits)
  then show ?r using sk_find_iff [OF assms, of sid j] by (auto simp: sk_has_id_def)
next
  assume ?r
  then obtain j k where j: "j \<in> live (sockets s)" "sk_heap s j = Some k" "socket_id k = sid" "socket_type k = SOCKET_UDP"
    "a = (u_remote_ip (udp_socks s (sk_conn k)), BSWAP16 (u_remote_port (udp_socks s (sk_conn k))))"
    by blast
  then have "socket_manager_find sid s = Some j" using sk_find_iff [OF assms, of sid j] by (simp add: sk_has_id_def)
  with j show ?l by (simp add: sk_look_def)
qed

text \<open>The state after a UDP connect.\<close>

lemma sk_open_state:
  obtains u where "fst (sk_open a s) = curr_socket s + 1"
    "sockets (snd (sk_open a s)) = snd (slot_put (Some (sk_next s)) (sockets s))"
    "sk_heap (snd (sk_open a s)) = (sk_heap s)(sk_next s \<mapsto>
       \<lparr>socket_type = SOCKET_UDP, sk_conn = udp_next s, socket_id = curr_socket s + 1, received = []\<rparr>)"
    "udp_socks (snd (sk_open a s)) = (udp_socks s)(udp_next s := u)" "u_remote_ip u = fst a" "u_remote_port u = BSWAP16 (snd a)"
    "udp_next (snd (sk_open a s)) = Suc (udp_next s)" "sk_next (snd (sk_open a s)) = Suc (sk_next s)"
    "curr_socket (snd (sk_open a s)) = curr_socket s + 1"
  by (rule that [of "\<lparr>u_remote_port = BSWAP16 (snd a), u_local_port = BSWAP16 (ucast (udp_free_port s)),
       u_remote_ip = fst a, u_local_ip = nic_ip s, u_listening = False, u_recv = SocketUdpRecv (sk_next s)\<rparr>"])
    (simp_all add: sk_open_def socket_connect_def socket_manager_alloc_def udp_connect_def new_udp_socket_def
      socket_manager_register_def Let_def)

lemma word_less_Suc: "c \<noteq> 0xFFFFFFFF \<Longrightarrow> c < c + 1" for c :: u32
proof -
  assume "c \<noteq> 0xFFFFFFFF"
  moreover have "(- 1 :: u32) = 0xFFFFFFFF"
    by (subst word_uint_eq_iff) (simp add: unsigned_minus_1_eq_mask mask_eq_exp_minus_1)
  ultimately have "1 + c \<noteq> 0" by (metis add_eq_0_iff)
  then show "c < c + 1" by (simp add: word_less_nat_alt unatSuc add.commute)
qed

lemma sk_open_inv:
  assumes "sk_inv s" "curr_socket s \<noteq> 0xFFFFFFFF"
  shows "sk_inv (snd (sk_open a s))"
proof -
  let ?n = "sk_next s" and ?s = "snd (sk_open a s)"
  obtain u where o: "fst (sk_open a s) = curr_socket s + 1" "sockets ?s = snd (slot_put (Some ?n) (sockets s))"
    "sk_heap ?s = (sk_heap s)(?n \<mapsto> \<lparr>socket_type = SOCKET_UDP, sk_conn = udp_next s, socket_id = curr_socket s + 1, received = []\<rparr>)"
    "udp_socks ?s = (udp_socks s)(udp_next s := u)" "u_remote_ip u = fst a" "u_remote_port u = BSWAP16 (snd a)"
    "udp_next ?s = Suc (udp_next s)" "sk_next ?s = Suc ?n" "curr_socket ?s = curr_socket s + 1"
    by (rule sk_open_state)
  have lt: "curr_socket s < curr_socket s + 1" using assms(2) by (rule word_less_Suc)
  have n: "?n \<notin> live (sockets s)" using assms(1) by (auto simp: sk_inv_def)
  have l: "live (sockets ?s) = insert ?n (live (sockets s))" unfolding o(2) by (rule live_put)
  have old: "sk_heap ?s j = sk_heap s j" if "j \<in> live (sockets s)" for j using that n unfolding o(3) by auto
  have "slots_distinct (sockets ?s)" unfolding o(2) using assms(1) n by (simp add: distinct_slot_put sk_inv_def)
  moreover have "j < sk_next ?s \<and> (\<exists>k. sk_heap ?s j = Some k \<and> socket_id k \<le> curr_socket ?s \<and>
        (socket_type k = SOCKET_UDP \<longrightarrow> sk_conn k < udp_next ?s))" if j: "j \<in> live (sockets ?s)" for j
  proof (cases "j = ?n")
    case True
    then show ?thesis unfolding o by simp
  next
    case False
    then have j': "j \<in> live (sockets s)" using j l by simp
    obtain k where "sk_heap s j = Some k" "socket_id k \<le> curr_socket s" "socket_type k = SOCKET_UDP \<longrightarrow> sk_conn k < udp_next s"
      "j < ?n" by (rule sk_invD [OF assms(1) j'])
    then show ?thesis unfolding old [OF j'] o(7-9) using lt by auto
  qed
  moreover have "i = j" if i: "i \<in> live (sockets ?s)" and j: "j \<in> live (sockets ?s)" and k: "sk_heap ?s i = Some k"
    and h: "sk_has_id ?s (socket_id k) j" for i j k
  proof (cases "i = ?n"; cases "j = ?n")
    assume "i = ?n" "j \<noteq> ?n"
    then have j': "j \<in> live (sockets s)" using j l by simp
    obtain m where "sk_heap s j = Some m" "socket_id m \<le> curr_socket s" by (rule sk_invD [OF assms(1) j'])
    then show ?thesis using h k \<open>i = ?n\<close> lt old [OF j'] by (auto simp: sk_has_id_def o(3))
  next
    assume "i \<noteq> ?n" "j = ?n"
    then have i': "i \<in> live (sockets s)" using i l by simp
    obtain m where "sk_heap s i = Some m" "socket_id m \<le> curr_socket s" by (rule sk_invD [OF assms(1) i'])
    then show ?thesis using h k \<open>j = ?n\<close> lt old [OF i'] by (auto simp: sk_has_id_def o(3))
  next
    assume "i \<noteq> ?n" "j \<noteq> ?n"
    then have ij: "i \<in> live (sockets s)" "j \<in> live (sockets s)" using i j l by simp_all
    have "sk_heap s i = Some k" "sk_has_id s (socket_id k) j"
      using k h old [OF ij(1)] old [OF ij(2)] by (simp_all add: sk_has_id_def)
    then show ?thesis using assms(1) ij unfolding sk_inv_def by blast
  qed simp
  ultimately show ?thesis unfolding sk_inv_def by blast
qed

lemma sk_look_open:
  assumes "sk_inv s" "curr_socket s \<noteq> 0xFFFFFFFF"
  shows "sk_look sid (snd (sk_open a s)) = (if sid = fst (sk_open a s) then Some a else sk_look sid s)"
    and "sk_look (fst (sk_open a s)) s = None"
proof -
  let ?n = "sk_next s" and ?s = "snd (sk_open a s)"
  obtain u where o: "fst (sk_open a s) = curr_socket s + 1" "sockets ?s = snd (slot_put (Some ?n) (sockets s))"
    "sk_heap ?s = (sk_heap s)(?n \<mapsto> \<lparr>socket_type = SOCKET_UDP, sk_conn = udp_next s, socket_id = curr_socket s + 1, received = []\<rparr>)"
    "udp_socks ?s = (udp_socks s)(udp_next s := u)" "u_remote_ip u = fst a" "u_remote_port u = BSWAP16 (snd a)"
    "udp_next ?s = Suc (udp_next s)" "sk_next ?s = Suc ?n" "curr_socket ?s = curr_socket s + 1"
    by (rule sk_open_state)
  have lt: "curr_socket s < curr_socket s + 1" using assms(2) by (rule word_less_Suc)
  have n: "?n \<notin> live (sockets s)" using assms(1) by (auto simp: sk_inv_def)
  have l: "live (sockets ?s) = insert ?n (live (sockets s))" unfolding o(2) by (rule live_put)
  note inv = sk_open_inv [OF assms]
  show fresh: "sk_look (fst (sk_open a s)) s = None"
  proof (rule ccontr)
    assume "sk_look (fst (sk_open a s)) s \<noteq> None"
    then obtain b where "sk_look (fst (sk_open a s)) s = Some b" by blast
    then obtain j k where j: "j \<in> live (sockets s)" "sk_heap s j = Some k" "socket_id k = curr_socket s + 1"
      unfolding sk_look_iff [OF assms(1)] o(1) by blast
    obtain k' where "sk_heap s j = Some k'" "socket_id k' \<le> curr_socket s" by (rule sk_invD [OF assms(1) j(1)])
    then show False using j lt by simp
  qed
  have new: "sk_look (fst (sk_open a s)) ?s = Some a"
    unfolding sk_look_iff [OF inv]
    by (intro exI [of _ ?n] exI [of _ "\<lparr>socket_type = SOCKET_UDP, sk_conn = udp_next s, socket_id = curr_socket s + 1, received = []\<rparr>"])
      (simp add: live_put o)
  have "sk_look sid ?s = Some b \<longleftrightarrow> sk_look sid s = Some b" if "sid \<noteq> fst (sk_open a s)" for b
  proof -
    have k: "(j \<in> live (sockets ?s) \<and> sk_heap ?s j = Some k \<and> socket_id k = sid) \<longleftrightarrow>
        (j \<in> live (sockets s) \<and> sk_heap s j = Some k \<and> socket_id k = sid)" for j k
      using that n unfolding l o(1,3) by auto
    have c: "udp_socks ?s (sk_conn k) = udp_socks s (sk_conn k)"
      if j: "j \<in> live (sockets s)" "sk_heap s j = Some k" "socket_type k = SOCKET_UDP" for j k
    proof -
      obtain k' where "sk_heap s j = Some k'" "socket_type k' = SOCKET_UDP \<longrightarrow> sk_conn k' < udp_next s"
        by (rule sk_invD [OF assms(1) j(1)])
      then show ?thesis using j unfolding o(4) by simp
    qed
    show ?thesis unfolding sk_look_iff [OF inv] sk_look_iff [OF assms(1)] using k c by metis
  qed
  then have "sid \<noteq> fst (sk_open a s) \<Longrightarrow> sk_look sid ?s = sk_look sid s" by (metis option.exhaust)
  with new show "sk_look sid ?s = (if sid = fst (sk_open a s) then Some a else sk_look sid s)" by simp
qed

lemma sk_close_state:
  assumes "sk_inv s" "sk_look sid s = Some a"
  obtains j k where "j \<in> live (sockets s)" "sk_heap s j = Some k" "socket_id k = sid"
    "sk_close sid s = s\<lparr>udp_binds := bind_del (sk_conn k) (udp_binds s), sockets := slot_clear (sk_has_id s sid) (sockets s),
       sk_heap := (sk_heap s)(j := None)\<rparr>"
    "live (slot_clear (sk_has_id s sid) (sockets s)) = live (sockets s) - {j}"
proof -
  obtain j k where j: "j \<in> live (sockets s)" "sk_heap s j = Some k" "socket_id k = sid" "socket_type k = SOCKET_UDP"
    using assms(2) unfolding sk_look_iff [OF assms(1)] by blast
  have f: "socket_manager_find sid s = Some j" using j sk_find_iff [OF assms(1), of sid j] by (simp add: sk_has_id_def)
  then have sf: "slot_find (sk_has_id s sid) (sockets s) = Some j" by (simp add: socket_manager_find_def)
  have h: "sk_has_id (s\<lparr>udp_binds := b\<rparr>) sid = sk_has_id s sid" for b by (simp add: sk_has_id_def fun_eq_iff)
  have "sk_close sid s = s\<lparr>udp_binds := bind_del (sk_conn k) (udp_binds s), sockets := slot_clear (sk_has_id s sid) (sockets s),
       sk_heap := (sk_heap s)(j := None)\<rparr>"
    using f j by (simp add: sk_close_def socket_disconnect_def udp_socket_disconnect_def socket_manager_free_def Let_def h)
  moreover have "live (slot_clear (sk_has_id s sid) (sockets s)) = live (sockets s) - {j}"
    using slot_clear_live [of "sockets s" "sk_has_id s sid"] sf assms(1) by (simp add: sk_inv_def)
  ultimately show ?thesis using j by (intro that)
qed

lemma sk_inv_remove:
  assumes "sk_inv s" "sockets s' = ss" "slots_distinct ss" "live ss = live (sockets s) - {j}" "sk_heap s' = (sk_heap s)(j := None)"
    and "sk_next s' = sk_next s" "udp_next s' = udp_next s" "curr_socket s' = curr_socket s"
  shows "sk_inv s'"
proof -
  have h: "sk_heap s' i = sk_heap s i" if "i \<in> live ss" for i using that assms(4,5) by auto
  have x: "i < sk_next s' \<and> (\<exists>k. sk_heap s' i = Some k \<and> socket_id k \<le> curr_socket s' \<and>
        (socket_type k = SOCKET_UDP \<longrightarrow> sk_conn k < udp_next s'))" if "i \<in> live ss" for i
    using assms(1,4) that unfolding assms(6-8) h [OF that] sk_inv_def by blast
  have y: "i = i'" if "i \<in> live ss" "i' \<in> live ss" "sk_heap s' i = Some k" "sk_has_id s' (socket_id k) i'" for i i' k
  proof -
    have "i \<in> live (sockets s)" "i' \<in> live (sockets s)" "sk_heap s i = Some k" "sk_has_id s (socket_id k) i'"
      using that assms(4) h [OF that(1)] h [OF that(2)] by (simp_all add: sk_has_id_def)
    then show ?thesis using assms(1) unfolding sk_inv_def by blast
  qed
  show ?thesis unfolding sk_inv_def assms(2) using assms(3) x y by blast
qed

lemma sk_close_laws:
  assumes "sk_inv s" "sk_look sid s = Some a"
  shows "sk_inv (sk_close sid s)" "sk_look sid' (sk_close sid s) = (if sid' = sid then None else sk_look sid' s)"
proof -
  obtain j k where c: "j \<in> live (sockets s)" "sk_heap s j = Some k" "socket_id k = sid"
    "sk_close sid s = s\<lparr>udp_binds := bind_del (sk_conn k) (udp_binds s), sockets := slot_clear (sk_has_id s sid) (sockets s),
       sk_heap := (sk_heap s)(j := None)\<rparr>"
    "live (slot_clear (sk_has_id s sid) (sockets s)) = live (sockets s) - {j}"
    by (rule sk_close_state [OF assms])
  show inv: "sk_inv (sk_close sid s)"
    by (rule sk_inv_remove [OF assms(1) _ _ c(5)])
      (use assms(1) in \<open>simp_all add: c(4) slot_clear_distinct sk_inv_def\<close>)
  have l: "live (sockets (sk_close sid s)) = live (sockets s) - {j}" "sk_heap (sk_close sid s) = (sk_heap s)(j := None)"
    "udp_socks (sk_close sid s) = udp_socks s"
    unfolding c(4) using c(5) by simp_all
  have uniq: "i = j" if "i \<in> live (sockets s)" "sk_heap s i = Some m" "socket_id m = sid" for i m
    using assms(1) that c(1,2,3) unfolding sk_inv_def sk_has_id_def by fastforce
  have core: "(i \<in> live (sockets s) - {j} \<and> ((sk_heap s)(j := None)) i = Some m \<and> socket_id m = sid') \<longleftrightarrow>
      sid' \<noteq> sid \<and> i \<in> live (sockets s) \<and> sk_heap s i = Some m \<and> socket_id m = sid'" for i m
    using uniq [of i m] c(2,3) by (cases "i = j") auto
  have gen: "(\<exists>i m. i \<in> live (sockets s) - {j} \<and> ((sk_heap s)(j := None)) i = Some m \<and> socket_id m = sid' \<and> Q m) \<longleftrightarrow>
      sid' \<noteq> sid \<and> (\<exists>i m. i \<in> live (sockets s) \<and> sk_heap s i = Some m \<and> socket_id m = sid' \<and> Q m)" for Q
    using core by metis
  have "sk_look sid' (sk_close sid s) = Some b \<longleftrightarrow> sid' \<noteq> sid \<and> sk_look sid' s = Some b" for b
    unfolding sk_look_iff [OF inv] sk_look_iff [OF assms(1)] l by (rule gen)
  then show "sk_look sid' (sk_close sid s) = (if sid' = sid then None else sk_look sid' s)"
    by (metis option.exhaust)
qed

interpretation udp_sockets: handle_table sk_inv "\<lambda>s. curr_socket s \<noteq> 0xFFFFFFFF" sk_open sk_look sk_close
proof
  fix s h h' a
  assume i: "sk_inv s"
  { assume "curr_socket s \<noteq> 0xFFFFFFFF"
    from sk_open_inv [OF i this] sk_look_open [OF i this]
    show "sk_inv (snd (sk_open a s))" "sk_look (fst (sk_open a s)) s = None"
      "sk_look h (snd (sk_open a s)) = (if h = fst (sk_open a s) then Some a else sk_look h s)" by auto }
  { assume "sk_look h s \<noteq> None"
    then obtain b where "sk_look h s = Some b" by blast
    from sk_close_laws [OF i this] show "sk_inv (sk_close h s)"
      "sk_look h' (sk_close h s) = (if h' = h then None else sk_look h' s)" by auto }
qed

text \<open>
  UDP sockets through any sequence of connects and disconnects, from a state that satisfies the
  socket layer's invariant, until the counter of ids wraps around: the open sockets have different ids, and
  \<open>socket_manager_find\<close> finds for each id an allocated socket connected to the address it was opened for.
\<close>

lemma socket_table_run:
  assumes "udp_sockets.run ops (s, []) = Some (s', opened)" "sk_inv s"
  shows "sk_inv s' \<and> distinct (map fst opened) \<and>
    (\<forall>(sid, ip, port) \<in> set opened. \<exists>j k. socket_manager_find sid s' = Some j \<and> sk_heap s' j = Some k \<and>
       u_remote_ip (udp_socks s' (sk_conn k)) = ip \<and> u_remote_port (udp_socks s' (sk_conn k)) = BSWAP16 port)"
proof -
  have a: "udp_sockets.agrees (s', opened)"
    by (rule udp_sockets.run_agrees [OF assms(1)]) (simp add: udp_sockets.agrees_def assms(2))
  have "\<exists>j k. socket_manager_find sid s' = Some j \<and> sk_heap s' j = Some k \<and>
       u_remote_ip (udp_socks s' (sk_conn k)) = ip \<and> u_remote_port (udp_socks s' (sk_conn k)) = BSWAP16 port"
    if "(sid, ip, port) \<in> set opened" for sid ip port
  proof -
    have "sk_look sid s' = Some (ip, port)" using a that by (force simp: udp_sockets.agrees_def)
    then show ?thesis
      by (auto simp: sk_look_def split: option.splits if_splits)
  qed
  then show ?thesis using a by (auto simp: udp_sockets.agrees_def)
qed

section \<open>A TCP stream\<close>

text \<open>The data segments of one end of a connection, for the given pieces of data.\<close>

primrec tcp_stream :: "tcp_socket \<Rightarrow> u8 list list \<Rightarrow> u8 list list" where
  "tcp_stream p [] = []"
| "tcp_stream p (d # ds) =
     tcp_packet p (PSH OR ACK) d # tcp_stream (p\<lparr>t_sequence_number := t_sequence_number p + of_nat (length d)\<rparr>) ds"

primrec tcp_recv_all :: "panic_key \<Rightarrow> u32 \<Rightarrow> u32 \<Rightarrow> u8 list list \<Rightarrow> net \<Rightarrow> net res" where
  "tcp_recv_all k src dst [] s = Inr s"
| "tcp_recv_all k src dst (p # ps) s =
     rbind (tcp_ipv4_recv k tcp_recv_callback (\<lambda>_. []) src dst p (of_nat (length p)) s) (tcp_recv_all k src dst ps)"

text \<open>\<open>i\<close> is the established connection of socket \<open>j\<close> to the end \<open>p\<close>, and everything \<open>p\<close> has sent has arrived.\<close>

definition in_sync :: "tcp_socket \<Rightarrow> u32 \<Rightarrow> nat \<Rightarrow> nat \<Rightarrow> socket \<Rightarrow> net \<Rightarrow> bool" where
  "in_sync p src i j sk s \<longleftrightarrow> tcp_inv s \<and> tcp_connection (t_local_port p) src s = Some i \<and>
     t_state (tcp_socks s i) = ESTABLISHED \<and> t_recv (tcp_socks s i) = SocketTcpRecv j \<and>
     t_ack_number (tcp_socks s i) = t_sequence_number p \<and> sk_heap s j = Some sk"

lemma find_cong_set: "(\<And>x. x \<in> set xs \<Longrightarrow> P x = Q x) \<Longrightarrow> find P xs = find Q xs"
  by (induction xs) auto

lemma in_sync_step:
  assumes "in_sync p src i j sk s" "length d < 60000"
  obtains s' where "tcp_ipv4_recv k tcp_recv_callback (\<lambda>_. []) src dst (tcp_packet p (PSH OR ACK) d)
      (of_nat (length (tcp_packet p (PSH OR ACK) d))) s = Inr s'"
    "in_sync (p\<lparr>t_sequence_number := t_sequence_number p + of_nat (length d)\<rparr>) src i j (sk\<lparr>received := received sk @ d\<rparr>) s'"
proof -
  let ?s0 = "s\<lparr>sk_heap := (sk_heap s)(j \<mapsto> sk\<lparr>received := received sk @ d\<rparr>)\<rparr>"
  let ?f = "\<lambda>t. t\<lparr>t_ack_number := t_ack_number t + of_nat (length d)\<rparr>"
  note a = assms(1) [unfolded in_sync_def]
  have cb: "tcp_recv_callback (t_recv (tcp_socks s i)) i d (of_nat (length d)) s = Inr ?s0"
    using a assms(2) by (simp add: tcp_recv_callback_def socket_tcp_recv_def)
  obtain fs where r: "tcp_ipv4_recv k tcp_recv_callback (\<lambda>_. []) src dst (tcp_packet p (PSH OR ACK) d) (of_nat (24 + length d)) s =
      Inr ((upd_tcp i ?f ?s0)\<lparr>nic_sent := nic_sent ?s0 @ fs\<rparr>)"
    by (rule tcp_recv_data [of s p src i d tcp_recv_callback ?s0 k dst]) (use a assms(2) cb in simp_all)
  let ?s' = "(upd_tcp i ?f ?s0)\<lparr>nic_sent := nic_sent ?s0 @ fs\<rparr>"
  have "tcp_inv (upd_tcp i ?f ?s0)"
    by (rule tcp_inv_upd) (use a in \<open>simp_all add: tcp_inv_def\<close>)
  then have "tcp_inv ?s'" by (simp add: tcp_inv_frames)
  moreover have "tcp_connection (t_local_port p) src ?s' = tcp_connection (t_local_port p) src s"
    unfolding tcp_connection_def by (auto simp: upd_tcp_def intro!: find_cong_set)
  ultimately have "in_sync (p\<lparr>t_sequence_number := t_sequence_number p + of_nat (length d)\<rparr>) src i j
      (sk\<lparr>received := received sk @ d\<rparr>) ?s'"
    using a by (simp add: in_sync_def upd_tcp_def)
  then show ?thesis using r tcp_packet_fields(1) [of p "PSH OR ACK" d] by (intro that [of ?s']) simp_all
qed

text \<open>
  C11. A TCP stream. While the connection is established and in step with its peer, the peer's data
  segments, received in order, are put into the socket's buffer without loss, duplication or reordering, the
  connection stays established and acknowledges all of them, and the next \<open>socket_recv\<close> returns the first bytes
  of the buffer, as many as asked for, and keeps the rest.
\<close>

theorem tcp_stream_received:
  assumes "in_sync p src i j sk s" "\<forall>d \<in> set ds. length d < 60000"
  shows "\<exists>s' sk'. tcp_recv_all k src dst (tcp_stream p ds) s = Inr s' \<and> sk_heap s' j = Some sk' \<and>
    received sk' = received sk @ concat ds \<and> t_state (tcp_socks s' i) = ESTABLISHED \<and>
    t_ack_number (tcp_socks s' i) = t_ack_number (tcp_socks s i) + of_nat (length (concat ds)) \<and>
    (received sk' \<noteq> [] \<longrightarrow> socket_recv j sz [] s' = Inr (take (unat sz) (received sk'),
       s'\<lparr>sk_heap := (sk_heap s')(j \<mapsto> sk'\<lparr>received := drop (unat sz) (received sk')\<rparr>)\<rparr>))"
proof -
  have "\<exists>s' sk'. tcp_recv_all k src dst (tcp_stream p ds) s = Inr s' \<and> received sk' = received sk @ concat ds \<and>
      in_sync (p\<lparr>t_sequence_number := t_sequence_number p + of_nat (length (concat ds))\<rparr>) src i j sk' s'"
    using assms
  proof (induction ds arbitrary: p sk s)
    case Nil
    then show ?case by (intro exI [of _ s] exI [of _ sk]) simp
  next
    case (Cons d ds)
    let ?p = "p\<lparr>t_sequence_number := t_sequence_number p + of_nat (length d)\<rparr>"
    obtain s1 where s1: "tcp_ipv4_recv k tcp_recv_callback (\<lambda>_. []) src dst (tcp_packet p (PSH OR ACK) d)
        (of_nat (length (tcp_packet p (PSH OR ACK) d))) s = Inr s1"
      "in_sync ?p src i j (sk\<lparr>received := received sk @ d\<rparr>) s1"
      using Cons.prems by (metis in_sync_step list.set_intros(1))
    from Cons.IH [OF s1(2)] Cons.prems(2) s1(1) show ?case by (auto simp: add.assoc)
  qed
  then obtain s' sk' where s': "tcp_recv_all k src dst (tcp_stream p ds) s = Inr s'" "received sk' = received sk @ concat ds"
    "in_sync (p\<lparr>t_sequence_number := t_sequence_number p + of_nat (length (concat ds))\<rparr>) src i j sk' s'" by blast
  have "socket_recv j sz [] s' = Inr (take (unat sz) (received sk'),
       s'\<lparr>sk_heap := (sk_heap s')(j \<mapsto> sk'\<lparr>received := drop (unat sz) (received sk')\<rparr>)\<rparr>)" if "received sk' \<noteq> []"
    using s'(3) that socket_wait.simps(2) [of 1998 j sz "[]" s']
    by (auto simp: socket_recv_def in_sync_def sleep_def min_def Let_def simp del: socket_wait.simps)
  then show ?thesis using s' assms(1) by (auto simp: in_sync_def)
qed


text \<open>An established connection of socket 0, and the peer's end of it.\<close>

definition established :: net where
  "established = (host 0x41 1 [(2, 0x42)])\<lparr>tcp_next := 1, tcp_binds := [(4, Some 0)], sk_next := 1, sockets := [Some 0],
     sk_heap := [0 \<mapsto> \<lparr>socket_type = SOCKET_TCP, sk_conn = 0, socket_id = 6, received = []\<rparr>],
     tcp_socks := (\<lambda>_. \<lparr>t_remote_port = 0x5000, t_local_port = 4, t_remote_ip = 2, t_local_ip = 1, t_listening = False,
       t_sequence_number = 7, t_ack_number = 9, t_state = ESTABLISHED, t_recv = SocketTcpRecv 0\<rparr>)\<rparr>"

definition peer_end :: tcp_socket where
  "peer_end = \<lparr>t_remote_port = 4, t_local_port = 0x5000, t_remote_ip = 1, t_local_ip = 2, t_listening = False,
     t_sequence_number = 9, t_ack_number = 7, t_state = ESTABLISHED, t_recv = TcpNone\<rparr>"

theorem tcp_stream_received_witness:
  "\<exists>s'. tcp_recv_all KeyH 2 1 (tcp_stream peer_end [[72, 105], [33]]) established = Inr s' \<and>
     t_ack_number (tcp_socks s' 0) = 12 \<and> (\<exists>s''. socket_recv 0 2 [] s' = Inr ([72, 105], s''))"
proof -
  let ?sk = "\<lparr>socket_type = SOCKET_TCP, sk_conn = 0, socket_id = 6, received = []\<rparr>"
  have "in_sync peer_end 2 0 0 ?sk established"
    by (simp add: in_sync_def established_def peer_end_def tcp_inv_def tcp_connection_def map_filter_simps)
  moreover have "\<forall>d \<in> set [[72, 105], [33 :: u8]]. length d < 60000" by simp
  ultimately show ?thesis
    using tcp_stream_received [of peer_end 2 0 0 ?sk established "[[72, 105], [33]]" KeyH 1 2]
    by (auto simp: established_def)
qed

end
