(* ===== verification/Gdb.thy ===== *)
theory Gdb
  imports NetBytes
begin

text \<open>
  The debugger stub, \<open>mckrnl/gdb\<close>: encodings (\<open>encoding.c\<close>, \<open>utils.c\<close>), packets on the serial line
  (\<open>connection.c\<close>), commands and main loop (\<open>gdb.c\<close>), and the access to the machine (\<open>system.c\<close>). The state has the bytes
  that the debugger sent and that were not read yet, and the bytes written; an operation that waits for a byte
  when there is none has the value \<open>None\<close>. \<open>read_serial\<close> returns a signed \<open>char\<close>, so that the byte \<open>0xFF\<close> is \<open>GDB_EOF\<close>. The
  packet buffer of \<open>gdb_main\<close> keeps its content between packets. \<open>junk\<close> is the content of a local buffer
  that the code does not initialise.
\<close>

section \<open>Encodings\<close>

definition GDB_EOF :: int where "GDB_EOF = -1"

definition gdb_digits :: "u8 list" where
  "gdb_digits = [0x30, 0x31, 0x32, 0x33, 0x34, 0x35, 0x36, 0x37, 0x38, 0x39, 0x61, 0x62, 0x63, 0x64, 0x65, 0x66]"

definition gdb_get_digit :: "int \<Rightarrow> u8" where
  "gdb_get_digit val = (if 0 \<le> val \<and> val \<le> 0xf then gdb_digits ! nat val else word_of_int GDB_EOF)"

definition enc_byte :: "u8 \<Rightarrow> u8 list" where
  "enc_byte c = [gdb_get_digit (uint (drop_bit 4 c AND 0xf)), gdb_get_digit (uint (c AND 0xf))]"

definition gdb_enc_hex :: "nat \<Rightarrow> u8 list \<Rightarrow> u8 list option" where
  "gdb_enc_hex buf_len data = (if buf_len < length data * 2 then None else Some (concat (map enc_byte data)))"

definition gdb_get_val :: "u8 \<Rightarrow> int \<Rightarrow> int" where
  "gdb_get_val digit base =
     (let d = sint digit;
          value = (if d \<ge> 0x30 \<and> d \<le> 0x39 then Some (d - 0x30)
                   else if d \<ge> 0x61 \<and> d \<le> 0x66 then Some (d - 0x61 + 0xa)
                   else if d \<ge> 0x41 \<and> d \<le> 0x46 then Some (d - 0x41 + 0xa) else None)
      in case value of None \<Rightarrow> GDB_EOF | Some v \<Rightarrow> if v < base then v else GDB_EOF)"

fun dec_hex_loop :: "u8 list \<Rightarrow> u8 list res" where
  "dec_hex_loop (a # b # r) =
     (if gdb_get_val a 16 = GDB_EOF \<or> gdb_get_val b 16 = GDB_EOF then Inl AssertFailed
      else rbind (dec_hex_loop r) (\<lambda>ds. Inr ((push_bit 4 (word_of_int (gdb_get_val a 16)) OR word_of_int (gdb_get_val b 16)) # ds)))"
| "dec_hex_loop _ = Inr []"

text \<open>The length of the buffer is an \<open>int\<close> that may be negative; \<open>None\<close> is \<open>GDB_EOF\<close>.\<close>

definition gdb_dec_hex :: "int \<Rightarrow> u8 list \<Rightarrow> nat \<Rightarrow> u8 list option res" where
  "gdb_dec_hex buf_len buf data_len =
     (if buf_len \<noteq> int data_len * 2 then Inr None
      else if length buf < data_len * 2 then Inl OutOfBounds
      else rbind (dec_hex_loop (take (data_len * 2) buf)) (\<lambda>d. Inr (Some d)))"

definition gdb_special :: "u8 \<Rightarrow> bool" where
  "gdb_special c \<longleftrightarrow> c = 0x24 \<or> c = 0x23 \<or> c = 0x7D \<or> c = 0x2A"

primrec enc_bin_loop :: "u8 list \<Rightarrow> nat \<Rightarrow> u8 list \<Rightarrow> u8 list res" where
  "enc_bin_loop [] buf_len buf = Inr buf"
| "enc_bin_loop (c # cs) buf_len buf =
     (if gdb_special c
      then if length buf + 1 \<ge> buf_len then Inl AssertFailed else enc_bin_loop cs buf_len (buf @ [0x7D, c XOR 0x20])
      else if length buf \<ge> buf_len then Inl AssertFailed else enc_bin_loop cs buf_len (buf @ [c]))"

definition gdb_enc_bin :: "nat \<Rightarrow> u8 list \<Rightarrow> u8 list res" where
  "gdb_enc_bin buf_len data = enc_bin_loop data buf_len []"

fun dec_bin_loop :: "u8 list \<Rightarrow> nat \<Rightarrow> u8 list \<Rightarrow> u8 list res" where
  "dec_bin_loop [] data_len data = Inr data"
| "dec_bin_loop (c # cs) data_len data =
     (if length data \<ge> data_len then Inl AssertFailed
      else if c = 0x7D then (case cs of [] \<Rightarrow> Inl AssertFailed | d # ds \<Rightarrow> dec_bin_loop ds data_len (data @ [d XOR 0x20]))
      else dec_bin_loop cs data_len (data @ [c]))"

definition gdb_dec_bin :: "int \<Rightarrow> u8 list \<Rightarrow> nat \<Rightarrow> u8 list option res" where
  "gdb_dec_bin buf_len buf data_len = rbind (dec_bin_loop (take (nat buf_len) buf) data_len []) (\<lambda>d. Inr (Some d))"

text \<open>
  \<open>gdb_strtol\<close> on \<open>str\<close>, the rest of the buffer: the value, computed in 32 bits, and the position behind the
  number; \<open>None\<close> when there is none. \<open>len\<close> may be larger than the rest of the buffer.
\<close>

function strtol_loop :: "nat \<Rightarrow> int \<Rightarrow> u8 list \<Rightarrow> nat \<Rightarrow> u32 \<Rightarrow> bool \<Rightarrow> (u32 \<times> nat \<times> bool) res" where
  "strtol_loop len base str pos val valid =
     (if pos < len then
        if pos \<ge> length str then Inl OutOfBounds
        else if str ! pos = 0 \<or> gdb_get_val (str ! pos) base = GDB_EOF then Inr (val, pos, valid)
        else strtol_loop len base str (pos + 1) (val * word_of_int base + word_of_int (gdb_get_val (str ! pos) base)) True
      else Inr (val, pos, valid))"
  by auto
termination by (relation "measure (\<lambda>(len, base, str, pos, val, valid). len - pos)") auto

declare strtol_loop.simps [simp del]

definition gdb_strtol :: "u8 list \<Rightarrow> nat \<Rightarrow> int \<Rightarrow> (u32 \<times> nat option) res" where
  "gdb_strtol str len base =
     (if len < 1 then Inr (0, None)
      else if str = [] then Inl OutOfBounds
      else let sign = (if str ! 0 = 0x2D then -1 else 1 :: u32);
               pos = (if str ! 0 = 0x2D \<or> str ! 0 = 0x2B then 1 else 0);
               hex = (pos + 2 < len \<and> pos + 1 < length str \<and> str ! pos = 0x30 \<and> (str ! (pos + 1) = 0x78 \<or> str ! (pos + 1) = 0x58));
               base1 = (if hex then 16 else base)
           in rbind (strtol_loop len (if base1 = 0 then 10 else base1) str (if hex then pos + 2 else pos) 0 False)
                (\<lambda>(val, p, valid). Inr (if \<not> valid then (0, None) else (val * sign, Some p))))"

section \<open>Packets\<close>

record gdb =
  g_signum :: u8
  g_regs :: "u32 list"
  g_mem :: mem
  g_in :: "u8 list"
  g_out :: "u8 list"

type_synonym 'a gdb_res = "('a \<times> gdb) res option"

definition gdb_sys_putchar :: "u8 \<Rightarrow> gdb \<Rightarrow> gdb" where
  "gdb_sys_putchar ch s = s\<lparr>g_out := g_out s @ [ch]\<rparr>"

definition gdb_sys_getc :: "gdb \<Rightarrow> int gdb_res" where
  "gdb_sys_getc s = (case g_in s of [] \<Rightarrow> None | c # cs \<Rightarrow> Some (Inr (sint c, s\<lparr>g_in := cs\<rparr>)))"

definition gdb_write :: "u8 list \<Rightarrow> gdb \<Rightarrow> gdb" where
  "gdb_write buf s = fold gdb_sys_putchar buf s"

text \<open>\<open>gdb_read\<close> of the given number of bytes; \<open>None\<close> as its value is \<open>GDB_EOF\<close>.\<close>

primrec gdb_read :: "nat \<Rightarrow> u8 list \<Rightarrow> gdb \<Rightarrow> u8 list option gdb_res" where
  "gdb_read 0 buf s = Some (Inr (Some buf, s))"
| "gdb_read (Suc n) buf s =
     lbind (gdb_sys_getc s) (\<lambda>(c, s1). if c = GDB_EOF then Some (Inr (None, s1)) else gdb_read n (buf @ [word_of_int c]) s1)"

definition gdb_recv_ack :: "gdb \<Rightarrow> int gdb_res" where
  "gdb_recv_ack s = lbind (gdb_sys_getc s) (\<lambda>(response, s1).
     Some (Inr (if response = 0x2B then 0 else if response = 0x2D then 1 else GDB_EOF, s1)))"

definition gdb_checksum :: "u8 list \<Rightarrow> u8" where
  "gdb_checksum buf = fold (\<lambda>c csum. csum + c) buf 0"

definition gdb_send_packet :: "u8 list \<Rightarrow> gdb \<Rightarrow> int gdb_res" where
  "gdb_send_packet pkt s =
     (case gdb_enc_hex 2 [gdb_checksum pkt] of
        None \<Rightarrow> Some (Inr (GDB_EOF, gdb_write pkt (gdb_sys_putchar 0x24 s)))
      | Some h \<Rightarrow> gdb_recv_ack (gdb_write (0x23 # h) (gdb_write pkt (gdb_sys_putchar 0x24 s))))"

text \<open>The loops of \<open>gdb_recv_packet\<close> over the input: up to the start of a packet, and over its content.\<close>

primrec recv_start :: "u8 list \<Rightarrow> (bool \<times> u8 list) option" where
  "recv_start [] = None"
| "recv_start (c # cs) = (if sint c = GDB_EOF then Some (False, cs) else if c = 0x24 then Some (True, cs) else recv_start cs)"

primrec recv_body :: "u8 list \<Rightarrow> u8 list \<Rightarrow> nat \<Rightarrow> (nat option \<times> u8 list \<times> u8 list) option" where
  "recv_body [] buf pkt_len = None"
| "recv_body (c # cs) buf pkt_len =
     (if sint c = GDB_EOF then Some (None, buf, cs)
      else if c = 0x23 then Some (Some pkt_len, buf, cs)
      else if pkt_len \<ge> length buf then Some (None, buf, cs)
      else recv_body cs (buf[pkt_len := c]) (pkt_len + 1))"

definition recv_checked :: "nat \<Rightarrow> u8 list \<Rightarrow> gdb \<Rightarrow> (nat option \<times> u8 list) gdb_res" where
  "recv_checked pkt_len buf s =
     lbind (gdb_read 2 [] s) (\<lambda>(h, s1). case h of
         None \<Rightarrow> Some (Inr ((None, buf), s1))
       | Some h \<Rightarrow>
           lbind (Some (gdb_dec_hex 2 h 1)) (\<lambda>e. case e of
               None \<Rightarrow> Some (Inr ((None, buf), s1))
             | Some e \<Rightarrow>
                 if gdb_checksum (take pkt_len buf) \<noteq> e ! 0 then Some (Inr ((None, buf), gdb_sys_putchar 0x2D s1))
                 else Some (Inr ((Some pkt_len, buf), gdb_sys_putchar 0x2B s1))))"

text \<open>The length of the packet, or \<open>None\<close> for \<open>GDB_EOF\<close>, and the packet buffer.\<close>

definition gdb_recv_packet :: "u8 list \<Rightarrow> gdb \<Rightarrow> (nat option \<times> u8 list) gdb_res" where
  "gdb_recv_packet buf s =
     (case recv_start (g_in s) of
        None \<Rightarrow> None
      | Some (False, r) \<Rightarrow> Some (Inr ((None, buf), s\<lparr>g_in := r\<rparr>))
      | Some (True, r) \<Rightarrow>
          (case recv_body r buf 0 of
             None \<Rightarrow> None
           | Some (None, buf1, r1) \<Rightarrow> Some (Inr ((None, buf1), s\<lparr>g_in := r1\<rparr>))
           | Some (Some pkt_len, buf1, r1) \<Rightarrow> recv_checked pkt_len buf1 (s\<lparr>g_in := r1\<rparr>)))"

section \<open>Commands\<close>

definition gdb_sys_mem_readb :: "u32 \<Rightarrow> gdb \<Rightarrow> u8" where
  "gdb_sys_mem_readb addr s = g_mem s addr"

definition gdb_sys_mem_writeb :: "u32 \<Rightarrow> u8 \<Rightarrow> gdb \<Rightarrow> gdb" where
  "gdb_sys_mem_writeb addr val s = s\<lparr>g_mem := (g_mem s)(addr := val)\<rparr>"

abbreviation REG_PS :: nat where "REG_PS \<equiv> 9"

definition gdb_sys_continue :: "gdb \<Rightarrow> gdb" where
  "gdb_sys_continue s = s\<lparr>g_regs := (g_regs s)[REG_PS := g_regs s ! REG_PS AND NOT (push_bit 8 1)]\<rparr>"

definition gdb_sys_step :: "gdb \<Rightarrow> gdb" where
  "gdb_sys_step s = s\<lparr>g_regs := (g_regs s)[REG_PS := g_regs s ! REG_PS OR push_bit 8 1]\<rparr>"

definition gdb_continue :: "gdb \<Rightarrow> gdb" where
  "gdb_continue s = gdb_sys_continue s"

definition gdb_step :: "gdb \<Rightarrow> gdb" where
  "gdb_step s = gdb_sys_step s"

definition gdb_mem_read :: "nat \<Rightarrow> u32 \<Rightarrow> u32 \<Rightarrow> gdb \<Rightarrow> u8 list option" where
  "gdb_mem_read buf_len addr len s =
     (if unat len > 64 then None
      else gdb_enc_hex buf_len (map (\<lambda>pos. gdb_sys_mem_readb (addr + of_nat pos) s) [0..<unat len]))"

text \<open>
  \<open>dec\<close> may decode fewer bytes than \<open>len\<close> (\<open>gdb_dec_bin\<close> does not compare its result with the length): the rest of
  the local buffer is written uninitialised.
\<close>

definition gdb_mem_write :: "u8 list \<Rightarrow> (int \<Rightarrow> u8 list \<Rightarrow> nat \<Rightarrow> u8 list option res) \<Rightarrow> u8 list \<Rightarrow> int \<Rightarrow> u32 \<Rightarrow> u32 \<Rightarrow> gdb \<Rightarrow>
    (bool \<times> gdb) res" where
  "gdb_mem_write junk dec buf buf_len addr len s =
     (if unat len > 64 then Inr (False, s)
      else rbind (dec buf_len buf (unat len)) (\<lambda>d. case d of
          None \<Rightarrow> Inr (False, s)
        | Some d \<Rightarrow> let data = d @ drop (length d) junk in
            Inr (True, fold (\<lambda>pos. gdb_sys_mem_writeb (addr + of_nat pos) (data ! pos)) [0..<unat len] s)))"

text \<open>A packet that is built in the packet buffer: the code writes it over the start of the buffer.\<close>

definition overwrite :: "u8 list \<Rightarrow> u8 list \<Rightarrow> u8 list" where
  "overwrite buf pkt = pkt @ drop (length pkt) buf"

definition send_buf :: "u8 list \<Rightarrow> u8 list \<Rightarrow> gdb \<Rightarrow> u8 list gdb_res" where
  "send_buf buf pkt s = lbind (gdb_send_packet pkt s) (\<lambda>(st, s1). Some (Inr (overwrite buf pkt, s1)))"

definition gdb_send_ok_packet :: "u8 list \<Rightarrow> gdb \<Rightarrow> u8 list gdb_res" where
  "gdb_send_ok_packet buf s = lbind (gdb_send_packet [0x4F, 0x4B] s) (\<lambda>(st, s1). Some (Inr (buf, s1)))"

text \<open>The buffer of these packets has 256 bytes, so that encoding one byte never fails.\<close>

definition send_byte_packet :: "u8 \<Rightarrow> u8 \<Rightarrow> u8 list \<Rightarrow> gdb \<Rightarrow> u8 list gdb_res" where
  "send_byte_packet kind b buf s =
     (if length buf < 4 then Some (Inr (buf, s))
      else case gdb_enc_hex (length buf - 1) [b] of None \<Rightarrow> Some (Inr (buf, s)) | Some h \<Rightarrow> send_buf buf (kind # h) s)"

definition gdb_send_signal_packet :: "u8 list \<Rightarrow> u8 \<Rightarrow> gdb \<Rightarrow> u8 list gdb_res" where
  "gdb_send_signal_packet buf signal s = send_byte_packet 0x53 signal buf s"

definition gdb_send_error_packet :: "u8 list \<Rightarrow> u8 \<Rightarrow> gdb \<Rightarrow> u8 list gdb_res" where
  "gdb_send_error_packet buf error s = send_byte_packet 0x45 error buf s"

definition gdb_send_conmsg_packet :: "u8 list \<Rightarrow> u8 list \<Rightarrow> gdb \<Rightarrow> u8 list gdb_res" where
  "gdb_send_conmsg_packet buf msg s =
     (if length buf < 2 then Some (Inr (buf, s))
      else case gdb_enc_hex (length buf - 1) msg of None \<Rightarrow> Some (Inr (overwrite buf [0x4F], s)) | Some h \<Rightarrow> send_buf buf (0x4F # h) s)"

text \<open>The argument macros of \<open>gdb_main\<close>; \<open>None\<close> is the jump to \<open>error\<close>. A separator is looked for behind the packet's end too.\<close>

definition token_remaining_buf :: "nat \<Rightarrow> nat \<Rightarrow> int" where
  "token_remaining_buf pkt_len ptr = int pkt_len - int ptr"

definition token_expect_seperator :: "u8 \<Rightarrow> u8 list \<Rightarrow> nat \<Rightarrow> nat option res" where
  "token_expect_seperator c buf ptr =
     (if ptr \<ge> length buf then Inl OutOfBounds else if buf ! ptr \<noteq> c then Inr None else Inr (Some (ptr + 1)))"

definition token_expect_integer_arg :: "nat \<Rightarrow> u8 list \<Rightarrow> nat \<Rightarrow> (u32 \<times> nat) option res" where
  "token_expect_integer_arg pkt_len buf ptr =
     rbind (gdb_strtol (drop ptr buf) (unat (word_of_int (token_remaining_buf pkt_len ptr) :: u32)) 16)
       (\<lambda>(v, p). Inr (map_option (\<lambda>p. (v, ptr + p)) p))"

definition obind :: "'a option res \<Rightarrow> ('a \<Rightarrow> 'b option res) \<Rightarrow> 'b option res" where
  "obind x f = rbind x (\<lambda>y. case y of None \<Rightarrow> Inr None | Some z \<Rightarrow> f z)"

definition mem_args :: "nat \<Rightarrow> u8 list \<Rightarrow> (u32 \<times> u32 \<times> nat) option res" where
  "mem_args pkt_len buf =
     obind (token_expect_integer_arg pkt_len buf 1) (\<lambda>(addr, p).
     obind (token_expect_seperator 0x2C buf p) (\<lambda>p1.
     obind (token_expect_integer_arg pkt_len buf p1) (\<lambda>(len, p2). Inr (Some (addr, len, p2)))))"

text \<open>A command gives the packet buffer and whether \<open>gdb_main\<close> returns.\<close>

definition again :: "u8 list gdb_res \<Rightarrow> (bool \<times> u8 list) gdb_res" where
  "again r = lbind r (\<lambda>(buf, s). Some (Inr ((False, buf), s)))"

definition gdb_error :: "u8 list \<Rightarrow> gdb \<Rightarrow> (bool \<times> u8 list) gdb_res" where
  "gdb_error buf s = again (gdb_send_error_packet buf 0x00 s)"

definition reg_bytes :: "u32 list \<Rightarrow> u8 list" where
  "reg_bytes regs = concat (map put32 regs)"

definition bytes_regs :: "u8 list \<Rightarrow> u32 list" where
  "bytes_regs d = map (\<lambda>i. get32 d (4 * i)) [0..<16]"

definition cmd_read_regs :: "u8 list \<Rightarrow> gdb \<Rightarrow> (bool \<times> u8 list) gdb_res" where
  "cmd_read_regs buf s = (case gdb_enc_hex (length buf) (reg_bytes (g_regs s)) of
     None \<Rightarrow> gdb_error buf s | Some h \<Rightarrow> again (send_buf buf h s))"

definition cmd_write_regs :: "nat \<Rightarrow> u8 list \<Rightarrow> gdb \<Rightarrow> (bool \<times> u8 list) gdb_res" where
  "cmd_write_regs pkt_len buf s =
     lbind (Some (gdb_dec_hex (int pkt_len - 1) (drop 1 buf) 64)) (\<lambda>d. case d of
         None \<Rightarrow> gdb_error buf s
       | Some d \<Rightarrow> again (gdb_send_ok_packet buf (s\<lparr>g_regs := bytes_regs d\<rparr>)))"

definition cmd_read_reg :: "nat \<Rightarrow> u8 list \<Rightarrow> gdb \<Rightarrow> (bool \<times> u8 list) gdb_res" where
  "cmd_read_reg pkt_len buf s =
     lbind (Some (token_expect_integer_arg pkt_len buf 1)) (\<lambda>a. case a of
         None \<Rightarrow> gdb_error buf s
       | Some (addr, p) \<Rightarrow>
           if unat addr \<ge> 16 then gdb_error buf s
           else (case gdb_enc_hex (length buf) (put32 (g_regs s ! unat addr)) of
                   None \<Rightarrow> gdb_error buf s | Some h \<Rightarrow> again (send_buf buf h s)))"

definition cmd_write_reg :: "nat \<Rightarrow> u8 list \<Rightarrow> gdb \<Rightarrow> (bool \<times> u8 list) gdb_res" where
  "cmd_write_reg pkt_len buf s =
     lbind (Some (obind (token_expect_integer_arg pkt_len buf 1) (\<lambda>(addr, p).
                  obind (token_expect_seperator 0x3D buf p) (\<lambda>p1. Inr (Some (addr, p1)))))) (\<lambda>a. case a of
         None \<Rightarrow> gdb_error buf s
       | Some (addr, p) \<Rightarrow>
           if unat addr < 16 then
             lbind (Some (gdb_dec_hex (token_remaining_buf pkt_len p) (drop p buf) 4)) (\<lambda>d. case d of
                 None \<Rightarrow> gdb_error buf s
               | Some d \<Rightarrow> again (gdb_send_ok_packet buf (s\<lparr>g_regs := (g_regs s)[unat addr := get32 d 0]\<rparr>)))
           else again (gdb_send_ok_packet buf s))"

definition cmd_read_mem :: "nat \<Rightarrow> u8 list \<Rightarrow> gdb \<Rightarrow> (bool \<times> u8 list) gdb_res" where
  "cmd_read_mem pkt_len buf s =
     lbind (Some (mem_args pkt_len buf)) (\<lambda>a. case a of
         None \<Rightarrow> gdb_error buf s
       | Some (addr, len, p) \<Rightarrow> (case gdb_mem_read (length buf) addr len s of
             None \<Rightarrow> gdb_error buf s | Some h \<Rightarrow> again (send_buf buf h s)))"

definition cmd_write_mem :: "u8 list \<Rightarrow> (int \<Rightarrow> u8 list \<Rightarrow> nat \<Rightarrow> u8 list option res) \<Rightarrow> nat \<Rightarrow> u8 list \<Rightarrow> gdb \<Rightarrow> (bool \<times> u8 list) gdb_res" where
  "cmd_write_mem junk dec pkt_len buf s =
     lbind (Some (obind (mem_args pkt_len buf) (\<lambda>(addr, len, p).
                  obind (token_expect_seperator 0x3A buf p) (\<lambda>p1. Inr (Some (addr, len, p1)))))) (\<lambda>a. case a of
         None \<Rightarrow> gdb_error buf s
       | Some (addr, len, p) \<Rightarrow>
           lbind (Some (gdb_mem_write junk dec (drop p buf) (token_remaining_buf pkt_len p) addr len s)) (\<lambda>(ok, s1).
             if \<not> ok then gdb_error buf s1 else again (gdb_send_ok_packet buf s1)))"

text \<open>The \<open>switch\<close> of \<open>gdb_main\<close>. After \<open>k\<close> the machine is off.\<close>

definition gdb_command :: "u8 list \<Rightarrow> nat \<Rightarrow> u8 list \<Rightarrow> gdb \<Rightarrow> (bool \<times> u8 list) gdb_res" where
  "gdb_command junk pkt_len buf s =
     (let c = buf ! 0 in
      if c = 0x67 then cmd_read_regs buf s
      else if c = 0x47 then cmd_write_regs pkt_len buf s
      else if c = 0x70 then cmd_read_reg pkt_len buf s
      else if c = 0x50 then cmd_write_reg pkt_len buf s
      else if c = 0x6D then cmd_read_mem pkt_len buf s
      else if c = 0x4D then cmd_write_mem junk gdb_dec_hex pkt_len buf s
      else if c = 0x58 then cmd_write_mem junk gdb_dec_bin pkt_len buf s
      else if c = 0x63 then Some (Inr ((True, buf), gdb_continue s))
      else if c = 0x73 then Some (Inr ((True, buf), gdb_step s))
      else if c = 0x3F then again (gdb_send_signal_packet buf (g_signum s) s)
      else if c = 0x6B then Some (Inl Halted)
      else lbind (gdb_send_packet [] s) (\<lambda>(st, s1). Some (Inr ((False, buf), s1))))"

section \<open>The main loop\<close>

text \<open>No operation gives input back: the length of the unread input bounds the main loop.\<close>

definition leaves :: "nat \<Rightarrow> 'a gdb_res \<Rightarrow> bool" where
  "leaves n r \<longleftrightarrow> (\<forall>x s. r = Some (Inr (x, s)) \<longrightarrow> length (g_in s) \<le> n)"

named_theorems leaves_intros \<open>operations that give no input back\<close>

lemma leaves_basic [leaves_intros]:
  "leaves n None" "leaves n (Some (Inl e))" "length (g_in s) \<le> n \<Longrightarrow> leaves n (Some (Inr (x, s)))"
  by (simp_all add: leaves_def)

lemma leaves_lbind: "leaves m x \<Longrightarrow> (\<And>y s. length (g_in s) \<le> m \<Longrightarrow> leaves n (f (y, s))) \<Longrightarrow> leaves n (lbind x f)"
  by (cases x) (auto simp: leaves_def lbind_def split: sum.splits)

lemma leaves_lbind_pure [leaves_intros]: "(\<And>y. r = Inr y \<Longrightarrow> leaves n (f y)) \<Longrightarrow> leaves n (lbind (Some r) f)"
  by (cases r) (auto simp: leaves_def)

lemma gdb_write_state: "gdb_write buf s = s\<lparr>g_out := g_out s @ buf\<rparr>"
  unfolding gdb_write_def by (induction buf arbitrary: s) (simp_all add: gdb_sys_putchar_def)

lemma leaves_getc: "leaves (length (g_in s) - 1) (gdb_sys_getc s)"
  by (auto simp: leaves_def gdb_sys_getc_def split: list.splits)

lemma leaves_read: "leaves (length (g_in s)) (gdb_read n buf s)"
proof (induction n arbitrary: buf s)
  case (Suc n)
  have "leaves (length (g_in s)) (gdb_read n b s1)" if "length (g_in s1) \<le> length (g_in s) - 1" for b s1
    using Suc.IH [of s1 b] that by (fastforce simp: leaves_def)
  then show ?case
    unfolding gdb_read.simps by (intro leaves_lbind [OF leaves_getc]) (auto intro!: leaves_basic)
qed (simp add: leaves_def)

lemma leaves_send [leaves_intros]: "length (g_in s) \<le> n \<Longrightarrow> leaves n (gdb_send_packet pkt s)"
  by (fastforce simp: leaves_def gdb_send_packet_def gdb_recv_ack_def gdb_sys_getc_def gdb_write_state gdb_sys_putchar_def lbind_def
      split: option.splits list.splits)

lemma leaves_after [leaves_intros]:
  "leaves n r \<Longrightarrow> leaves n (lbind r (\<lambda>(x, s). Some (Inr (f x, s))))"
  by (rule leaves_lbind) (auto intro: leaves_basic)

lemma leaves_send_buf [leaves_intros]: "length (g_in s) \<le> n \<Longrightarrow> leaves n (send_buf buf pkt s)"
  "length (g_in s) \<le> n \<Longrightarrow> leaves n (gdb_send_ok_packet buf s)" "leaves n r \<Longrightarrow> leaves n (again r)"
  unfolding send_buf_def gdb_send_ok_packet_def again_def
  by (auto intro!: leaves_lbind [where m = n] leaves_intros)

lemma leaves_packets [leaves_intros]: "length (g_in s) \<le> n \<Longrightarrow> leaves n (gdb_error buf s)"
  "length (g_in s) \<le> n \<Longrightarrow> leaves n (gdb_send_signal_packet buf b s)"
  by (auto simp: gdb_error_def gdb_send_error_packet_def gdb_send_signal_packet_def send_byte_packet_def
      split: option.splits intro!: leaves_intros)

lemma mem_write_in: "gdb_mem_write junk dec buf l addr len s = Inr (ok, s') \<Longrightarrow> g_in s' = g_in s"
proof -
  have "g_in (fold (\<lambda>p. gdb_sys_mem_writeb (f p) (d p)) ps s) = g_in s" for f d and ps :: "nat list" and s
    by (induction ps arbitrary: s) (simp_all add: gdb_sys_mem_writeb_def)
  then show "gdb_mem_write junk dec buf l addr len s = Inr (ok, s') \<Longrightarrow> g_in s' = g_in s"
    by (auto simp: gdb_mem_write_def rbind_eq_Inr Let_def split: if_splits option.splits)
qed

lemma gdb_command_leaves: "leaves (length (g_in s)) (gdb_command junk pkt_len buf s)"
proof -
  have "leaves (length (g_in s)) (cmd_write_mem junk dec pkt_len buf s)" for dec
    unfolding cmd_write_mem_def by (auto intro!: leaves_intros split: option.splits dest!: mem_write_in)
  moreover have "leaves (length (g_in s)) (cmd_read_regs buf s)" "leaves (length (g_in s)) (cmd_write_regs pkt_len buf s)"
    "leaves (length (g_in s)) (cmd_read_reg pkt_len buf s)" "leaves (length (g_in s)) (cmd_write_reg pkt_len buf s)"
    "leaves (length (g_in s)) (cmd_read_mem pkt_len buf s)"
    unfolding cmd_read_regs_def cmd_write_regs_def cmd_read_reg_def cmd_write_reg_def cmd_read_mem_def
    by (auto intro!: leaves_intros split: option.splits)
  ultimately show ?thesis
    unfolding gdb_command_def Let_def
    by (auto intro!: leaves_intros simp: gdb_continue_def gdb_step_def gdb_sys_continue_def gdb_sys_step_def)
qed

lemma recv_start_shorter: "recv_start cs = Some (b, r) \<Longrightarrow> length r < length cs"
  by (induction cs) (auto split: if_splits)

lemma recv_body_shorter: "recv_body cs buf n = Some (k, buf', r) \<Longrightarrow> length r < length cs"
  by (induction cs arbitrary: buf n) (auto split: if_splits intro: less_SucI)

lemma gdb_recv_packet_leaves:
  assumes "gdb_recv_packet buf s = Some (Inr (x, s'))"
  shows "length (g_in s') < length (g_in s)"
proof -
  obtain b r where st: "recv_start (g_in s) = Some (b, r)" using assms by (auto simp: gdb_recv_packet_def split: option.splits)
  note r = recv_start_shorter [OF st]
  show ?thesis
  proof (cases b)
    case True
    with assms st obtain k buf1 r1 where b: "recv_body r buf 0 = Some (k, buf1, r1)"
      by (auto simp: gdb_recv_packet_def split: option.splits)
    have l: "leaves (length r1) (recv_checked m buf1 (s\<lparr>g_in := r1\<rparr>))" for m
      unfolding recv_checked_def
      by (rule leaves_lbind [OF leaves_read]) (auto simp: gdb_sys_putchar_def intro!: leaves_intros split: option.splits)
    have "length (g_in s') \<le> length r1"
    proof (cases k)
      case (Some m)
      then have "recv_checked m buf1 (s\<lparr>g_in := r1\<rparr>) = Some (Inr (x, s'))" using assms st True b by (simp add: gdb_recv_packet_def)
      then show ?thesis using l [of m] unfolding leaves_def by blast
    qed (use assms st True b in \<open>auto simp: gdb_recv_packet_def\<close>)
    then show ?thesis using r recv_body_shorter [OF b] by simp
  qed (use assms st r in \<open>auto simp: gdb_recv_packet_def\<close>)
qed

lemma packet_command_leaves:
  "gdb_recv_packet buf s = Some (Inr (x, s1)) \<Longrightarrow> gdb_command junk n b s1 = Some (Inr (y, s2)) \<Longrightarrow> length (g_in s2) < length (g_in s)"
  using gdb_recv_packet_leaves gdb_command_leaves [of s1 junk n b] unfolding leaves_def by fastforce

text \<open>The loop of \<open>gdb_main\<close>: the packet buffer and the state when it returns.\<close>

function gdb_loop :: "u8 list \<Rightarrow> u8 list \<Rightarrow> gdb \<Rightarrow> gdb res option" where
  "gdb_loop junk buf s =
     (case gdb_recv_packet buf s of
        None \<Rightarrow> None
      | Some (Inl e) \<Rightarrow> Some (Inl e)
      | Some (Inr ((None, buf1), s1)) \<Rightarrow> Some (Inr s1)
      | Some (Inr ((Some pkt_len, buf1), s1)) \<Rightarrow>
          if pkt_len = 0 then gdb_loop junk buf1 s1
          else (case gdb_command junk pkt_len buf1 s1 of
                  None \<Rightarrow> None
                | Some (Inl e) \<Rightarrow> Some (Inl e)
                | Some (Inr ((True, buf2), s2)) \<Rightarrow> Some (Inr s2)
                | Some (Inr ((False, buf2), s2)) \<Rightarrow> gdb_loop junk buf2 s2))"
  by auto
termination
  by (relation "measure (\<lambda>(junk, buf, s). length (g_in s))") (auto dest: gdb_recv_packet_leaves packet_command_leaves)

declare gdb_loop.simps [simp del]

definition gdb_main :: "u8 list \<Rightarrow> u8 list \<Rightarrow> gdb \<Rightarrow> gdb res option" where
  "gdb_main junk pkt_buf s = lbind (gdb_send_signal_packet pkt_buf (g_signum s) s) (\<lambda>(buf, s1). gdb_loop junk buf s1)"

record cpu_registers =
  reg_gs :: u32
  reg_fs :: u32
  reg_es :: u32
  reg_ds :: u32
  reg_eax :: u32
  reg_ebx :: u32
  reg_ecx :: u32
  reg_edx :: u32
  reg_esi :: u32
  reg_edi :: u32
  reg_ebp :: u32
  reg_intr :: u32
  reg_error :: u32
  reg_eip :: u32
  reg_cs :: u32
  reg_eflags :: u32
  reg_esp :: u32
  reg_ss :: u32

definition gdb_interrupt :: "u8 list \<Rightarrow> u8 list \<Rightarrow> cpu_registers \<Rightarrow> gdb \<Rightarrow> (cpu_registers \<times> gdb) res option" where
  "gdb_interrupt junk pkt_buf r s =
     lbind (gdb_main junk pkt_buf (s\<lparr>g_signum := (if reg_intr r = 1 then 5 else if reg_intr r = 3 then 5 else 7),
       g_regs := [reg_eax r, reg_ecx r, reg_edx r, reg_ebx r, reg_esp r, reg_ebp r, reg_esi r, reg_edi r, reg_eip r, reg_eflags r, reg_cs r, reg_ss r, reg_ds r, reg_es r, reg_fs r, reg_gs r]\<rparr>))
     (\<lambda>s1. let g = g_regs s1 in
       Some (Inr (r\<lparr>reg_eax := g ! 0, reg_ecx := g ! 1, reg_edx := g ! 2, reg_ebx := g ! 3, reg_esp := g ! 4, reg_ebp := g ! 5, reg_esi := g ! 6,
         reg_edi := g ! 7, reg_eip := g ! 8, reg_eflags := g ! 9, reg_cs := g ! 10, reg_ss := g ! 11, reg_ds := g ! 12, reg_es := g ! 13, reg_fs := g ! 14,
         reg_gs := g ! 15\<rparr>, s1)))"

section \<open>Round trips\<close>

lemma digits_decode: "\<forall>n \<in> set [0..15]. gdb_get_val (gdb_get_digit n) 16 = n \<and> gdb_get_digit n \<noteq> 0x23 \<and>
  sint (gdb_get_digit n) \<noteq> GDB_EOF \<and> gdb_get_digit n \<noteq> 0"
  by code_simp

lemma get_val_digit: "0 \<le> n \<Longrightarrow> n < 16 \<Longrightarrow> gdb_get_val (gdb_get_digit n) 16 = n"
  using digits_decode by simp

lemma get_digit_plain: "0 \<le> n \<Longrightarrow> n < 16 \<Longrightarrow> gdb_get_digit n \<noteq> 0x23 \<and> sint (gdb_get_digit n) \<noteq> GDB_EOF \<and> gdb_get_digit n \<noteq> 0"
  using digits_decode by simp

lemma nibble: "0 \<le> uint (c AND 0xf)" "uint (c AND 0xf) < 16" for c :: u8
proof -
  have "c AND 0xf = take_bit 4 c" by (simp add: take_bit_eq_mask mask_eq_exp_minus_1)
  then show "0 \<le> uint (c AND 0xf)" "uint (c AND 0xf) < 16" by (simp_all add: unsigned_take_bit_eq take_bit_int_less_exp [of 4, simplified])
qed

lemma byte_of_nibbles: "push_bit 4 (drop_bit 4 c AND 0xf) OR (c AND 0xf) = c" for c :: u8
proof (rule bit_word_eqI)
  fix n assume n: "n < LENGTH(8)"
  have m: "(0xf :: u8) = mask 4" by (simp add: mask_eq_exp_minus_1)
  show "bit (push_bit 4 (drop_bit 4 c AND 0xf) OR (c AND 0xf)) n = bit c n"
    unfolding m using n by (auto simp: bit_simps)
qed

lemma dec_hex_enc: "dec_hex_loop (concat (map enc_byte d)) = Inr d"
proof (induction d)
  case (Cons c d)
  have "uint (x AND 0xf) \<noteq> GDB_EOF" for x :: u8 using nibble(1) [of x] unfolding GDB_EOF_def by linarith
  then show ?case using Cons byte_of_nibbles [of c] get_val_digit [OF nibble] by (simp add: enc_byte_def)
qed simp

lemma enc_byte_length [simp]: "length (enc_byte c) = 2" "length (concat (map enc_byte d)) = 2 * length d"
  by (simp add: enc_byte_def, induction d) (simp_all add: enc_byte_def)

lemma gdb_dec_hex_enc: "gdb_dec_hex (2 * int (length d)) (concat (map enc_byte d) @ r) (length d) = Inr (Some d)"
  by (simp add: gdb_dec_hex_def dec_hex_enc mult.commute)

lemma dec_bin_enc:
  "enc_bin_loop d n b = Inr w \<Longrightarrow> \<exists>v. w = b @ v \<and> (\<forall>m out. length out + length d \<le> m \<longrightarrow> dec_bin_loop v m out = Inr (out @ d))"
proof (induction d arbitrary: b)
  case (Cons c d)
  show ?case
  proof (cases "gdb_special c")
    case True
    with Cons.prems have "enc_bin_loop d n (b @ [0x7D, c XOR 0x20]) = Inr w" by (simp split: if_splits)
    from Cons.IH [OF this] obtain v where v: "w = b @ 0x7D # (c XOR 0x20) # v"
      "\<And>m out. length out + length d \<le> m \<Longrightarrow> dec_bin_loop v m out = Inr (out @ d)" by auto
    then show ?thesis using v(2) [of "_ @ [c]"] by (intro exI [of _ "0x7D # (c XOR 0x20) # v"]) (auto simp: xor.assoc)
  next
    case False
    with Cons.prems have "enc_bin_loop d n (b @ [c]) = Inr w" by (simp split: if_splits)
    from Cons.IH [OF this] obtain v where v: "w = b @ c # v"
      "\<And>m out. length out + length d \<le> m \<Longrightarrow> dec_bin_loop v m out = Inr (out @ d)" by auto
    then show ?thesis using v(2) [of "_ @ [c]"] False by (intro exI [of _ "c # v"]) (auto simp: gdb_special_def)
  qed
qed simp

text \<open>A packet on the line: start, content, and the checksum in hexadecimal.\<close>

definition wire :: "u8 list \<Rightarrow> u8 list" where
  "wire pkt = 0x24 # pkt @ 0x23 # enc_byte (gdb_checksum pkt)"

definition plain :: "u8 \<Rightarrow> bool" where
  "plain c \<longleftrightarrow> c \<noteq> 0x23 \<and> c \<noteq> 0xFF"

lemma sint_EOF: "sint c = GDB_EOF \<longleftrightarrow> c = 0xFF" for c :: u8
proof -
  have "sint (0xFF :: u8) = GDB_EOF" by code_simp
  then show ?thesis by (metis signed_word_eqI)
qed

lemma enc_byte_plain: "\<forall>c \<in> set (enc_byte b). plain c"
  using get_digit_plain [OF nibble] sint_EOF by (auto simp: enc_byte_def plain_def)

lemma send_packet_state:
  "gdb_send_packet pkt s = lbind (gdb_sys_getc s) (\<lambda>(r, s1).
     Some (Inr (if r = 0x2B then 0 else if r = 0x2D then 1 else GDB_EOF, s1\<lparr>g_out := g_out s @ wire pkt\<rparr>)))"
  by (cases "g_in s") (simp_all add: gdb_send_packet_def gdb_enc_hex_def gdb_write_state gdb_sys_putchar_def gdb_recv_ack_def
      gdb_sys_getc_def wire_def)

lemma send_packet_acked:
  "g_in s = a # rest \<Longrightarrow> \<exists>st. gdb_send_packet pkt s = Some (Inr (st, s\<lparr>g_in := rest, g_out := g_out s @ wire pkt\<rparr>))"
  by (simp add: send_packet_state gdb_sys_getc_def)

lemma recv_start_noise: "\<forall>c \<in> set noise. c \<noteq> 0x24 \<and> c \<noteq> 0xFF \<Longrightarrow> recv_start (noise @ 0x24 # r) = Some (True, r)"
  by (induction noise) (auto simp: sint_EOF [unfolded GDB_EOF_def] GDB_EOF_def)

lemma recv_body_plain:
  "\<forall>c \<in> set pkt. plain c \<Longrightarrow> length done + length pkt \<le> length buf \<Longrightarrow>
   recv_body (pkt @ 0x23 # r) (done @ drop (length done) buf) (length done) =
   Some (Some (length done + length pkt), (done @ pkt) @ drop (length done + length pkt) buf, r)"
proof (induction pkt arbitrary: "done")
  case (Cons c pkt)
  have l: "length done < length buf" using Cons.prems(2) by simp
  then have u: "(done @ drop (length done) buf)[length done := c] = (done @ [c]) @ drop (length (done @ [c])) buf"
    by (simp add: list_update_append Cons_nth_drop_Suc [symmetric])
  have "recv_body ((c # pkt) @ 0x23 # r) (done @ drop (length done) buf) (length done) =
    recv_body (pkt @ 0x23 # r) ((done @ [c]) @ drop (length (done @ [c])) buf) (length (done @ [c]))"
    unfolding append_Cons recv_body.simps u using Cons.prems l by (simp add: plain_def sint_EOF)
  also have "\<dots> = Some (Some (length (done @ [c]) + length pkt), ((done @ [c]) @ pkt) @ drop (length (done @ [c]) + length pkt) buf, r)"
    using Cons.prems by (intro Cons.IH) auto
  finally show ?case by simp
qed (simp add: GDB_EOF_def)

lemma recv_wire:
  assumes "\<forall>c \<in> set noise. c \<noteq> 0x24 \<and> c \<noteq> 0xFF" "\<forall>c \<in> set pkt. plain c" "length pkt \<le> length buf" "g_in s = noise @ wire pkt @ rest"
  shows "gdb_recv_packet buf s =
    Some (Inr ((Some (length pkt), overwrite buf pkt), s\<lparr>g_in := rest, g_out := g_out s @ [0x2B]\<rparr>))"
proof -
  let ?h = "enc_byte (gdb_checksum pkt)"
  obtain a b where ab: "?h = [a, b]" by (simp add: enc_byte_def)
  have p: "plain a" "plain b" using enc_byte_plain [of "gdb_checksum pkt"] by (simp_all add: ab)
  have st: "recv_start (g_in s) = Some (True, pkt @ 0x23 # ?h @ rest)"
    unfolding assms(4) wire_def using recv_start_noise [OF assms(1)] by simp
  have b: "recv_body (pkt @ 0x23 # ?h @ rest) buf 0 = Some (Some (length pkt), overwrite buf pkt, ?h @ rest)"
    using recv_body_plain [OF assms(2), of "[]" buf "?h @ rest"] assms(3) by (simp add: overwrite_def)
  have rd: "gdb_read 2 [] (s\<lparr>g_in := ?h @ rest\<rparr>) = Some (Inr (Some ?h, s\<lparr>g_in := rest\<rparr>))"
    using p by (simp add: numeral_2_eq_2 ab gdb_sys_getc_def sint_EOF plain_def)
  have d: "gdb_dec_hex 2 ?h 1 = Inr (Some [gdb_checksum pkt])"
    using gdb_dec_hex_enc [of "[gdb_checksum pkt]" "[]"] by simp
  have t: "take (length pkt) (overwrite buf pkt) = pkt" by (simp add: overwrite_def)
  show ?thesis
    by (simp add: gdb_recv_packet_def st b recv_checked_def rd d [simplified] t gdb_sys_putchar_def)
qed

text \<open>
  The packets of the debugger stub. What \<open>gdb_send_packet\<close> writes on the line, received by the same protocol after any
  noise without a start character, is the packet that was sent: it fills the start of the buffer, is acknowledged, and
  nothing behind it is read. Content of up to the buffer's size without the end marker and the byte that \<open>char\<close> turns into
  \<open>GDB_EOF\<close> passes unchanged.
\<close>

lemma gdb_packet_roundtrip:
  assumes "g_in s = a # answers" "\<forall>c \<in> set noise. c \<noteq> 0x24 \<and> c \<noteq> 0xFF" "\<forall>c \<in> set pkt. c \<noteq> 0x23 \<and> c \<noteq> 0xFF" "length pkt \<le> length buf"
  shows "\<exists>st s' w. gdb_send_packet pkt s = Some (Inr (st, s')) \<and> g_out s' = g_out s @ w \<and> g_in s' = answers \<and>
    (\<forall>r rest. g_in r = noise @ w @ rest \<longrightarrow>
       gdb_recv_packet buf r = Some (Inr ((Some (length pkt), pkt @ drop (length pkt) buf), r\<lparr>g_in := rest, g_out := g_out r @ [0x2B]\<rparr>)))"
proof -
  obtain st where st: "gdb_send_packet pkt s = Some (Inr (st, s\<lparr>g_in := answers, g_out := g_out s @ wire pkt\<rparr>))"
    using send_packet_acked [OF assms(1)] by blast
  have p: "\<forall>c \<in> set pkt. plain c" using assms(3) by (simp add: plain_def)
  show ?thesis
    using st recv_wire [OF assms(2) p assms(4)] unfolding overwrite_def
    by (intro exI [of _ st] exI [of _ "s\<lparr>g_in := answers, g_out := g_out s @ wire pkt\<rparr>"] exI [of _ "wire pkt"]) simp
qed

section \<open>Memory commands\<close>

text \<open>Numbers in hexadecimal, as the debugger writes them, and their value.\<close>

definition hexnum :: "u8 list \<Rightarrow> bool" where
  "hexnum ds \<longleftrightarrow> ds \<noteq> [] \<and> (\<forall>d \<in> set ds. d \<noteq> 0 \<and> gdb_get_val d 16 \<noteq> GDB_EOF)"

definition hexval :: "u8 list \<Rightarrow> u32" where
  "hexval ds = fold (\<lambda>d v. v * 16 + word_of_int (gdb_get_val d 16)) ds 0"

lemma strtol_loop_digits:
  "\<forall>d \<in> set ds. d \<noteq> 0 \<and> gdb_get_val d 16 \<noteq> GDB_EOF \<Longrightarrow> str = pre @ ds @ post \<Longrightarrow> length pre + length ds \<le> len \<Longrightarrow>
   strtol_loop len 16 str (length pre) v b =
   strtol_loop len 16 str (length pre + length ds) (fold (\<lambda>d v. v * 16 + word_of_int (gdb_get_val d 16)) ds v) (b \<or> ds \<noteq> [])"
proof (induction ds arbitrary: pre v b)
  case (Cons d ds)
  have "strtol_loop len 16 str (length pre) v b = strtol_loop len 16 str (length (pre @ [d])) (v * 16 + word_of_int (gdb_get_val d 16)) True"
    using Cons.prems by (subst strtol_loop.simps) (simp add: nth_append)
  also have "\<dots> = strtol_loop len 16 str (length (pre @ [d]) + length ds)
     (fold (\<lambda>d v. v * 16 + word_of_int (gdb_get_val d 16)) ds (v * 16 + word_of_int (gdb_get_val d 16))) (True \<or> ds \<noteq> [])"
    using Cons.prems by (intro Cons.IH) auto
  finally show ?case by simp
qed simp

lemma separators: "gdb_get_val 0x2C 16 = GDB_EOF" "gdb_get_val 0x3A 16 = GDB_EOF" "gdb_get_val 0x78 16 = GDB_EOF"
  "gdb_get_val 0x58 16 = GDB_EOF" "gdb_get_val 0x2D 16 = GDB_EOF" "gdb_get_val 0x2B 16 = GDB_EOF"
  by code_simp+

lemma gdb_strtol_number:
  assumes "hexnum ds" "str = ds @ post" "length ds \<le> len" "len = length ds \<or> post \<noteq> [] \<and> hd post \<in> {0x2C, 0x3A}"
  shows "gdb_strtol str len 16 = Inr (hexval ds, Some (length ds))"
proof -
  have ds: "ds \<noteq> []" "\<forall>d \<in> set ds. d \<noteq> 0 \<and> gdb_get_val d 16 \<noteq> GDB_EOF" using assms(1) by (auto simp: hexnum_def)
  have no: "str ! i \<notin> {0x78, 0x58, 0x2D, 0x2B}" if i: "i < length ds \<or> i = length ds \<and> i < len" for i
  proof (cases "i < length ds")
    case True
    then have "gdb_get_val (str ! i) 16 \<noteq> GDB_EOF" using ds(2) by (simp add: assms(2) nth_append)
    then show ?thesis using separators by auto
  next
    case False
    then obtain p ps where "post = p # ps" "p \<in> {0x2C, 0x3A}" using assms(4) i by (cases post) auto
    then show ?thesis using False i by (auto simp: assms(2))
  qed
  have stop: "strtol_loop len 16 str (length ds) v True = Inr (v, length ds, True)" for v
  proof (cases "len = length ds")
    case False
    then obtain p ps where "post = p # ps" "p \<in> {0x2C, 0x3A}" using assms(4) by (cases post) auto
    then show ?thesis using separators by (subst strtol_loop.simps) (auto simp: assms(2))
  qed (simp add: strtol_loop.simps)
  have "strtol_loop len 16 str 0 0 False = Inr (hexval ds, length ds, True)"
    using strtol_loop_digits [OF ds(2), where pre = "[]" and post = post and v = 0 and b = False and len = len] assms(2,3) ds(1) stop
    by (simp add: hexval_def)
  moreover have "1 < length ds \<or> 1 = length ds \<and> 1 < len" if "2 < len" using ds(1) that by (cases ds) auto
  then have "2 < len \<Longrightarrow> str ! 1 \<notin> {0x78, 0x58}" using no [of 1] by auto
  moreover have "str ! 0 \<notin> {0x2D, 0x2B}" using no [of 0] ds(1) by auto
  ultimately show ?thesis using ds(1) assms(2,3) by (cases ds) (auto simp: gdb_strtol_def Let_def)
qed

lemma integer_arg:
  assumes "hexnum ds" "buf = pre @ ds @ post" "length pre + length ds \<le> n" "n < 2 ^ 31"
    and "n = length pre + length ds \<or> post \<noteq> [] \<and> hd post \<in> {0x2C, 0x3A}"
  shows "token_expect_integer_arg n buf (length pre) = Inr (Some (hexval ds, length pre + length ds))"
proof -
  have i: "int n - int (length pre) = int (n - length pre)" using assms(3) by simp
  have u: "unat (of_nat k :: u32) = k" if "k < 2 ^ 32" for k using that by (simp add: unat_of_nat take_bit_nat_eq_self)
  have r: "unat (word_of_int (token_remaining_buf n (length pre)) :: u32) = n - length pre"
    unfolding token_remaining_buf_def i of_int_of_nat_eq using assms(4) by (intro u) simp
  have "gdb_strtol (drop (length pre) buf) (n - length pre) 16 = Inr (hexval ds, Some (length ds))"
    by (rule gdb_strtol_number [OF assms(1), where post = post]) (use assms in auto)
  then show ?thesis by (simp add: token_expect_integer_arg_def r)
qed

lemma mem_args_parse:
  assumes "hexnum as" "hexnum ls" "pkt = c # as @ 0x2C # ls @ tail" "tail \<noteq> [] \<Longrightarrow> hd tail = 0x3A" "length pkt \<le> length buf" "length buf < 2 ^ 31"
  shows "mem_args (length pkt) (overwrite buf pkt) = Inr (Some (hexval as, hexval ls, length (c # as @ 0x2C # ls)))"
proof -
  let ?r = "drop (length pkt) buf"
  have b: "overwrite buf pkt = [c] @ as @ 0x2C # ls @ tail @ ?r" "overwrite buf pkt = (c # as @ [0x2C]) @ ls @ tail @ ?r"
    by (simp_all add: overwrite_def assms(3))
  have "token_expect_integer_arg (length pkt) (overwrite buf pkt) 1 = Inr (Some (hexval as, length (c # as)))"
    using integer_arg [OF assms(1) b(1), of "length pkt"] assms(3,5,6) by simp
  moreover have "token_expect_seperator 0x2C (overwrite buf pkt) (length (c # as)) = Inr (Some (length (c # as @ [0x2C])))"
    by (simp add: token_expect_seperator_def b(1) nth_append)
  moreover have "token_expect_integer_arg (length pkt) (overwrite buf pkt) (length (c # as @ [0x2C])) = Inr (Some (hexval ls, length (c # as @ 0x2C # ls)))"
    using integer_arg [OF assms(2) b(2), of "length pkt"] assms(3-6) by (cases tail) auto
  ultimately show ?thesis by (simp add: mem_args_def obind_def)
qed

lemma mem_writes:
  "n \<le> length data \<Longrightarrow> fold (\<lambda>pos. gdb_sys_mem_writeb (addr + of_nat pos) (data ! pos)) [0..<n] s =
    s\<lparr>g_mem := store_bytes (g_mem s) addr (take n data)\<rparr>"
proof (induction n)
  case (Suc n)
  have "store_bytes (g_mem s) addr (take (Suc n) data) = (store_bytes (g_mem s) addr (take n data))(addr + of_nat n := data ! n)"
    using Suc.prems by (simp add: take_Suc_conv_app_nth store_bytes_append fun_upd_def)
  then show ?case using Suc by (simp add: gdb_sys_mem_writeb_def, simp add: fun_upd_def)
qed simp

lemma mem_reads: "map (\<lambda>pos. gdb_sys_mem_readb (addr + of_nat pos) s) [0..<n] = load_bytes (g_mem s) addr n"
  by (rule nth_equalityI) (simp_all add: gdb_sys_mem_readb_def load_bytes_nth)

lemma cmd_write_mem_ok:
  assumes "hexnum as" "hexnum ls" "unat (hexval ls) = length data" "length data \<le> 64" "length pkt \<le> length buf" "length buf = 256"
    and "pkt = c # as @ 0x2C # ls @ 0x3A # concat (map enc_byte data)" "g_in s = a # rest"
  shows "cmd_write_mem junk gdb_dec_hex (length pkt) (overwrite buf pkt) s = Some (Inr ((False, overwrite buf pkt),
    s\<lparr>g_mem := store_bytes (g_mem s) (hexval as) data, g_in := rest, g_out := g_out s @ wire [0x4F, 0x4B]\<rparr>))"
proof -
  let ?b = "overwrite buf pkt" and ?p = "length (c # as @ 0x2C # ls)" and ?s = "s\<lparr>g_mem := store_bytes (g_mem s) (hexval as) data\<rparr>"
  have b: "?b = (c # as @ 0x2C # ls) @ 0x3A # concat (map enc_byte data) @ drop (length pkt) buf"
    by (simp add: overwrite_def assms(7))
  have m: "mem_args (length pkt) ?b = Inr (Some (hexval as, hexval ls, ?p))"
    by (rule mem_args_parse [OF assms(1,2,7)]) (use assms in auto)
  have sep: "token_expect_seperator 0x3A ?b ?p = Inr (Some (?p + 1))"
    unfolding token_expect_seperator_def b by (simp add: nth_append)
  have d: "drop (?p + 1) ?b = concat (map enc_byte data) @ drop (length pkt) buf" unfolding b by simp
  have r: "token_remaining_buf (length pkt) (?p + 1) = 2 * int (length data)"
    by (simp add: token_remaining_buf_def assms(7))
  have w: "gdb_mem_write junk gdb_dec_hex (drop (?p + 1) ?b) (token_remaining_buf (length pkt) (?p + 1)) (hexval as) (hexval ls) s = Inr (True, ?s)"
    unfolding gdb_mem_write_def d r assms(3) gdb_dec_hex_enc using assms(4) mem_writes [of "length data" "data @ drop (length data) junk" "hexval as" s]
    by (simp add: Let_def)
  obtain st where "gdb_send_packet [0x4F, 0x4B] ?s = Some (Inr (st, ?s\<lparr>g_in := rest, g_out := g_out ?s @ wire [0x4F, 0x4B]\<rparr>))"
    using send_packet_acked [of ?s a rest] assms(8) by auto
  then show ?thesis
    unfolding cmd_write_mem_def m obind_def using sep w by (simp add: again_def gdb_send_ok_packet_def)
qed

lemma cmd_read_mem_ok:
  assumes "hexnum as" "hexnum ls" "unat (hexval ls) \<le> 64" "length pkt \<le> length buf" "length buf = 256"
    and "pkt = c # as @ 0x2C # ls" "g_in s = a # rest"
  shows "\<exists>buf'. length buf' = 256 \<and> cmd_read_mem (length pkt) (overwrite buf pkt) s = Some (Inr ((False, buf'), s\<lparr>g_in := rest,
    g_out := g_out s @ wire (concat (map enc_byte (load_bytes (g_mem s) (hexval as) (unat (hexval ls)))))\<rparr>))"
proof -
  let ?b = "overwrite buf pkt" and ?h = "concat (map enc_byte (load_bytes (g_mem s) (hexval as) (unat (hexval ls))))"
  have m: "mem_args (length pkt) ?b = Inr (Some (hexval as, hexval ls, length (c # as @ 0x2C # ls)))"
    by (rule mem_args_parse [OF assms(1,2), where tail = "[]"]) (use assms in auto)
  have l: "length ?b = 256" "length ?h \<le> 128" using assms(3-5) by (simp_all add: overwrite_def)
  have r: "gdb_mem_read (length ?b) (hexval as) (hexval ls) s = Some ?h"
    unfolding gdb_mem_read_def mem_reads l(1) using assms(3) by (simp add: gdb_enc_hex_def)
  obtain st where "gdb_send_packet ?h s = Some (Inr (st, s\<lparr>g_in := rest, g_out := g_out s @ wire ?h\<rparr>))"
    using send_packet_acked [OF assms(7)] by blast
  then have "cmd_read_mem (length pkt) ?b s = Some (Inr ((False, overwrite ?b ?h), s\<lparr>g_in := rest, g_out := g_out s @ wire ?h\<rparr>))"
    unfolding cmd_read_mem_def m using r by (simp add: again_def send_buf_def)
  moreover have "length (overwrite ?b ?h) = 256" using l by (simp add: overwrite_def)
  ultimately show ?thesis by blast
qed

lemma gdb_loop_packet:
  assumes "\<forall>c \<in> set pkt. plain c" "pkt \<noteq> []" "length pkt \<le> length buf" "g_in s = wire pkt @ rest"
    and "gdb_command junk (length pkt) (overwrite buf pkt) (s\<lparr>g_in := rest, g_out := g_out s @ [0x2B]\<rparr>) = Some (Inr ((False, buf2), s2))"
  shows "gdb_loop junk buf s = gdb_loop junk buf2 s2"
proof -
  have "gdb_recv_packet buf s = Some (Inr ((Some (length pkt), overwrite buf pkt), s\<lparr>g_in := rest, g_out := g_out s @ [0x2B]\<rparr>))"
    using recv_wire [of "[]" pkt buf s rest] assms(1,3,4) by simp
  then show ?thesis using assms(2,5) by (subst gdb_loop.simps) simp
qed

lemma hexnum_plain: "hexnum ds \<Longrightarrow> d \<in> set ds \<Longrightarrow> plain d"
proof -
  have "gdb_get_val 0x23 16 = GDB_EOF" "gdb_get_val 0xFF 16 = GDB_EOF" by code_simp+
  then show "hexnum ds \<Longrightarrow> d \<in> set ds \<Longrightarrow> plain d" by (auto simp: hexnum_def plain_def)
qed

text \<open>
  C18. Writing and reading memory through the debugger. When the debugger sends, in correct packets that it acknowledges,
  the command \<open>M\<close> that writes up to 64 bytes at an address and then the command \<open>m\<close> that reads them, the main loop
  stores the bytes in memory and nothing else, answers \<open>OK\<close> and then the written bytes in hexadecimal, and goes on with the
  rest of the input.
\<close>

theorem gdb_memory_write_read:
  assumes "hexnum as" "hexnum ls" "unat (hexval ls) = length data" "length data \<le> 64" "length as + length ls \<le> 100" "length buf = 256"
    and "w = 0x4D # as @ 0x2C # ls @ 0x3A # concat (map enc_byte data)" "r = 0x6D # as @ 0x2C # ls"
    and "g_in s = wire w @ 0x2B # wire r @ 0x2B # rest"
  shows "\<exists>buf'. length buf' = 256 \<and> gdb_loop junk buf s = gdb_loop junk buf' (s\<lparr>g_mem := store_bytes (g_mem s) (hexval as) data,
    g_in := rest, g_out := g_out s @ 0x2B # wire [0x4F, 0x4B] @ 0x2B # wire (concat (map enc_byte data))\<rparr>)"
proof -
  have hp: "\<forall>c \<in> set (concat (map enc_byte data)). plain c" using enc_byte_plain by auto
  have p: "plain 0x4D" "plain 0x2C" "plain 0x3A" "plain 0x6D" by (simp_all add: plain_def)
  have wp: "\<forall>c \<in> set w. plain c" "w \<noteq> []" "length w \<le> length buf"
    using hexnum_plain [OF assms(1)] hexnum_plain [OF assms(2)] hp p assms(4-7) by auto
  have rp: "\<forall>c \<in> set r. plain c" "r \<noteq> []" "length r \<le> 256"
    using hexnum_plain [OF assms(1)] hexnum_plain [OF assms(2)] p assms(5,8) by auto
  let ?b = "overwrite buf w" and ?s1 = "s\<lparr>g_in := 0x2B # wire r @ 0x2B # rest, g_out := g_out s @ [0x2B]\<rparr>"
  let ?s2 = "?s1\<lparr>g_mem := store_bytes (g_mem ?s1) (hexval as) data, g_in := wire r @ 0x2B # rest, g_out := g_out ?s1 @ wire [0x4F, 0x4B]\<rparr>"
  have w0: "?b ! 0 = 0x4D" by (simp add: overwrite_def assms(7))
  have "gdb_command junk (length w) ?b ?s1 = Some (Inr ((False, ?b), ?s2))"
    using cmd_write_mem_ok [OF assms(1-4) wp(3) assms(6,7), of ?s1 "0x2B" "wire r @ 0x2B # rest" junk] unfolding gdb_command_def Let_def w0 by simp
  from gdb_loop_packet [OF wp assms(9) this] have one: "gdb_loop junk buf s = gdb_loop junk ?b ?s2" .
  let ?s3 = "?s2\<lparr>g_in := 0x2B # rest, g_out := g_out ?s2 @ [0x2B]\<rparr>"
  have lb: "length ?b = 256" using wp(3) assms(6) by (simp add: overwrite_def)
  have r0: "overwrite ?b r ! 0 = 0x6D" by (simp add: overwrite_def assms(8))
  have ld: "load_bytes (g_mem ?s3) (hexval as) (unat (hexval ls)) = data"
    unfolding assms(3) using assms(4) by (simp add: load_store_bytes)
  have "unat (hexval ls) \<le> 64" "length r \<le> length ?b" using assms(3,4) rp(3) lb by simp_all
  then obtain buf' where b': "length buf' = 256" "cmd_read_mem (length r) (overwrite ?b r) ?s3 =
    Some (Inr ((False, buf'), ?s3\<lparr>g_in := rest, g_out := g_out ?s3 @ wire (concat (map enc_byte data))\<rparr>))"
    using cmd_read_mem_ok [OF assms(1,2) _ _ lb assms(8), of ?s3 "0x2B" rest] unfolding ld by auto
  then have "gdb_command junk (length r) (overwrite ?b r) ?s3 =
    Some (Inr ((False, buf'), ?s3\<lparr>g_in := rest, g_out := g_out ?s3 @ wire (concat (map enc_byte data))\<rparr>))"
    unfolding gdb_command_def Let_def r0 by simp
  from gdb_loop_packet [OF rp(1,2) _ _ this] have "gdb_loop junk ?b ?s2 =
    gdb_loop junk buf' (?s3\<lparr>g_in := rest, g_out := g_out ?s3 @ wire (concat (map enc_byte data))\<rparr>)" using rp(3) lb by simp
  with one b'(1) show ?thesis by (intro exI [of _ buf']) simp
qed

theorem gdb_memory_write_read_witness:
  "\<exists>buf'. gdb_loop [] (replicate 256 0) \<lparr>g_signum = 5, g_regs = replicate 16 0, g_mem = (\<lambda>_. 0),
      g_in = wire [0x4D, 0x31, 0x30, 0x2C, 0x32, 0x3A, 0x30, 0x37, 0x61, 0x38] @ 0x2B # wire [0x6D, 0x31, 0x30, 0x2C, 0x32] @ 0x2B # [0xFF], g_out = []\<rparr> =
    gdb_loop [] buf' \<lparr>g_signum = 5, g_regs = replicate 16 0, g_mem = store_bytes (\<lambda>_. 0) 0x10 [0x07, 0xA8], g_in = [0xFF],
      g_out = 0x2B # wire [0x4F, 0x4B] @ 0x2B # wire [0x30, 0x37, 0x61, 0x38]\<rparr>"
proof -
  let ?as = "[0x31, 0x30] :: u8 list" and ?ls = "[0x32] :: u8 list" and ?d = "[0x07, 0xA8] :: u8 list"
  let ?s = "\<lparr>g_signum = 5, g_regs = replicate 16 0, g_mem = (\<lambda>_. 0),
      g_in = wire [0x4D, 0x31, 0x30, 0x2C, 0x32, 0x3A, 0x30, 0x37, 0x61, 0x38] @ 0x2B # wire [0x6D, 0x31, 0x30, 0x2C, 0x32] @ 0x2B # [0xFF], g_out = []\<rparr>"
  have h: "hexnum ?as" "hexnum ?ls" by code_simp+
  have v: "hexval ?as = 0x10" "hexval ?ls = 2" "concat (map enc_byte ?d) = [0x30, 0x37, 0x61, 0x38]" by code_simp+
  have l: "unat (hexval ?ls) = length ?d" "length ?d \<le> 64" "length ?as + length ?ls \<le> 100" "length (replicate 256 (0 :: u8)) = 256"
    by (simp_all add: v)
  have g: "g_in ?s = wire (0x4D # ?as @ 0x2C # ?ls @ 0x3A # concat (map enc_byte ?d)) @ 0x2B # wire (0x6D # ?as @ 0x2C # ?ls) @ 0x2B # [0xFF]"
    unfolding v by simp
  from gdb_memory_write_read [OF h l refl refl g, of "[]"] show ?thesis unfolding v by auto
qed

text \<open>
  A packet whose checksum is wrong is answered by a minus sign, and its content is not executed: the main loop
  returns, instead of waiting for the packet to be sent again.
\<close>

lemma gdb_bad_checksum:
  assumes "\<forall>c \<in> set pkt. plain c" "length pkt \<le> length buf" "g_in s = 0x24 # pkt @ 0x23 # enc_byte x @ rest" "x \<noteq> gdb_checksum pkt"
  shows "gdb_loop junk buf s = Some (Inr (s\<lparr>g_in := rest, g_out := g_out s @ [0x2D]\<rparr>))"
proof -
  obtain a b where ab: "enc_byte x = [a, b]" by (simp add: enc_byte_def)
  have p: "plain a" "plain b" using enc_byte_plain [of x] by (simp_all add: ab)
  have st: "recv_start (g_in s) = Some (True, pkt @ 0x23 # enc_byte x @ rest)"
    unfolding assms(3) by (simp add: GDB_EOF_def)
  have b: "recv_body (pkt @ 0x23 # enc_byte x @ rest) buf 0 = Some (Some (length pkt), overwrite buf pkt, enc_byte x @ rest)"
    using recv_body_plain [OF assms(1), of "[]" buf "enc_byte x @ rest"] assms(2) by (simp add: overwrite_def)
  have rd: "gdb_read 2 [] (s\<lparr>g_in := enc_byte x @ rest\<rparr>) = Some (Inr (Some (enc_byte x), s\<lparr>g_in := rest\<rparr>))"
    using p by (simp add: numeral_2_eq_2 ab gdb_sys_getc_def sint_EOF plain_def)
  have d: "gdb_dec_hex 2 (enc_byte x) 1 = Inr (Some [x])" using gdb_dec_hex_enc [of "[x]" "[]"] by simp
  have t: "take (length pkt) (overwrite buf pkt) = pkt" by (simp add: overwrite_def)
  have "gdb_recv_packet buf s = Some (Inr ((None, overwrite buf pkt), s\<lparr>g_in := rest, g_out := g_out s @ [0x2D]\<rparr>))"
    using assms(4) by (simp add: gdb_recv_packet_def st b recv_checked_def rd d [simplified] t gdb_sys_putchar_def)
  then show ?thesis by (subst gdb_loop.simps) simp
qed

text \<open>
  \<open>X\<close> with fewer bytes than its length writes the uninitialised rest of the local buffer to memory.
\<close>

lemma gdb_mem_write_short:
  "gdb_mem_write junk gdb_dec_bin [] 0 addr 1 s = Inr (True, gdb_sys_mem_writeb addr (junk ! 0) s)"
  by (simp add: gdb_mem_write_def gdb_dec_bin_def)

end
