(* ===== verification/Syscalls.thy ===== *)
theory Syscalls
  imports Sched Vfs Fd Sockets Dns Gdb
begin

text \<open>
  The system calls, \<open>mckrnl/syscall\<close>: the table of handlers, and the handlers, which put the file systems, the
  descriptors, the tasks and their resources, the address spaces and the network together. The state of the kernel extends that of
  the scheduler. An open file is named by the address of its \<open>file_t\<close>; closing frees the structure, as the \<open>close\<close> of
  every mount does, and a later use of the address is an access to freed memory. Pointers in the registers are
  addresses of the running task, read and written through the page tables of \<open>cr3\<close>. Calls of console and power functions are logged in
  \<open>k_calls\<close>. The network is that of a machine with one network card.
\<close>

section \<open>State\<close>

datatype driver_call = Putc u32 u8 | AcpiReset | AcpiPowerOff | SetLayout u32 | VPoke u32 u32 "u8 list" | VCursor u32 u32 u32 |
  SetColor u32 "u8 list" bool

record 'w kernel = sched +
  k_vfs :: "'w vfs"
  k_fs :: 'w
  k_files :: "u32 \<rightharpoonup> file_t"
  k_fds :: "u32 option list"
  k_net :: net
  k_calls :: "driver_call list"

text \<open>
  What a call gets from outside: the operator's key after a panic, the page \<open>vmm_alloc\<close> gives for a \<open>file_t\<close>, the clock, the timer,
  the terminal on the screen, a key and an arrow key that was pressed, the video mode, the contents of the screen from an offset of a terminal on, its cursor, the bytes of the mouse's state, the address of the saved registers, that of a
  local variable, and what the network does meanwhile.
\<close>

record machine =
  mc_key :: panic_key
  mc_page :: u32
  mc_time :: u32
  mc_time_ms :: u32
  mc_term :: u32
  mc_getc :: u32
  mc_getarrw :: u32
  mc_vmode :: u32
  mc_vpeek :: "u32 \<Rightarrow> u32 \<Rightarrow> u32 \<Rightarrow> u8 list"
  mc_vcursor :: "u32 \<Rightarrow> u32 \<times> u32"
  mc_mouse :: "u8 list"
  mc_frame :: u32
  mc_loc :: u32
  mc_env_arp :: "(net \<Rightarrow> net) list"
  mc_env :: "(net \<Rightarrow> net) list"
  mc_dns :: "nat \<Rightarrow> (net \<Rightarrow> net) list \<times> (net \<Rightarrow> net) list"

text \<open>A handler returns the registers it was given, with its results in them, or the address of other registers.\<close>

datatype sys_ret = Regs cpu_registers | Frame u32

type_synonym 'w handler = "machine \<Rightarrow> cpu_registers \<Rightarrow> 'w kernel \<Rightarrow> (sys_ret \<times> 'w kernel) res"

definition sys_done :: "cpu_registers \<Rightarrow> 'w kernel \<Rightarrow> (sys_ret \<times> 'w kernel) res" where
  "sys_done r k = Inr (Regs r, k)"

section \<open>Memory of the task\<close>

definition user_bytes :: "u32 \<Rightarrow> u32 \<Rightarrow> 'w kernel \<Rightarrow> u8 list res" where
  "user_bytes a n k = read_virt (vm_mem (sc_vm k)) (cr3 (sc_vm k)) a (unat n)"

definition to_user :: "u32 \<Rightarrow> u8 list \<Rightarrow> 'w kernel \<Rightarrow> 'w kernel res" where
  "to_user a bs k =
     rbind (write_virt (vm_mem (sc_vm k)) (cr3 (sc_vm k)) a bs) (\<lambda>m. Inr (k\<lparr>sc_vm := (sc_vm k)\<lparr>vm_mem := m\<rparr>\<rparr>))"

text \<open>The characters up to the terminating zero; a string of \<open>n\<close> or more does not fit the buffer it is copied to.\<close>

primrec user_string :: "nat \<Rightarrow> vm \<Rightarrow> u32 \<Rightarrow> u8 list res" where
  "user_string 0 v a = Inl OutOfBounds"
| "user_string (Suc n) v a =
     rbind (walk (vm_mem v) (cr3 v) a) (\<lambda>p.
       if vm_mem v p = 0 then Inr []
       else rbind (user_string n v (a + 1)) (\<lambda>bs. Inr (vm_mem v p # bs)))"

definition user_path :: "u32 \<Rightarrow> 'w kernel \<Rightarrow> u8 list res" where
  "user_path a k = user_string 1024 (sc_vm k) a"

text \<open>What \<open>strcpy\<close> copies: the first character whatever it is, then the characters up to a zero, which is not copied.\<close>

definition strcpy_user :: "nat \<Rightarrow> u32 \<Rightarrow> 'w kernel \<Rightarrow> u8 list res" where
  "strcpy_user n a k =
     rbind (user_bytes a 1 k) (\<lambda>b. rbind (user_string n (sc_vm k) (a + 1)) (\<lambda>bs. Inr (b @ bs)))"

definition strcpy_array :: "u8 list \<Rightarrow> u8 list res" where
  "strcpy_array xs = (case xs of [] \<Rightarrow> Inl OutOfBounds
     | b # bs \<Rightarrow> if 0 \<in> set bs then Inr (b # takeWhile (\<lambda>c. c \<noteq> 0) bs) else Inl OutOfBounds)"

section \<open>Open files\<close>

definition file_at :: "u32 option \<Rightarrow> 'w kernel \<Rightarrow> (u32 \<times> file_t) res" where
  "file_at p k = (case p of
       None \<Rightarrow> Inl NullDeref
     | Some a \<Rightarrow> (case k_files k a of None \<Rightarrow> Inl OutOfBounds | Some f \<Rightarrow> Inr (a, f)))"

definition fd_file :: "u32 \<Rightarrow> 'w kernel \<Rightarrow> (u32 \<times> file_t) res" where
  "fd_file fd k = rbind (fd_to_file (sint fd) (k_fds k)) (\<lambda>p. file_at p k)"

definition close_file :: "u32 \<times> file_t \<Rightarrow> 'w kernel \<Rightarrow> 'w kernel res" where
  "close_file af k =
     rbind (vfs_close (snd af) (k_vfs k) (k_fs k)) (\<lambda>w. Inr (k\<lparr>k_fs := w, k_files := (k_files k)(fst af := None)\<rparr>))"

definition sys_open_dealloc :: "u32 \<Rightarrow> 'w kernel \<Rightarrow> 'w kernel res" where
  "sys_open_dealloc a k = rbind (file_at (Some a) k) (\<lambda>af. close_file af k)"

definition sys_open :: "'w handler" where
  "sys_open mc r k =
     rbind (user_path (reg_ebx r) k) (\<lambda>path.
     rbind (vfs_open path (reg_ecx r) (k_vfs k) (k_fs k)) (\<lambda>(file, w). case file of
         None \<Rightarrow> sys_done (r\<lparr>reg_edx := - 1\<rparr>) (k\<lparr>k_fs := w\<rparr>)
       | Some f \<Rightarrow>
           let a = mc_page mc; (fd, t) = file_to_fd (Some a) (k_fds k);
               k1 = k\<lparr>k_fs := w, k_files := (k_files k)(a \<mapsto> f), k_fds := t\<rparr>
           in if fd = - 1 then rbind (close_file (a, f) k1) (sys_done (r\<lparr>reg_edx := - 1\<rparr>))
              else rbind (resource_register_self (SysOpenDealloc, FilePtr a) k1) (sys_done (r\<lparr>reg_edx := word_of_int fd\<rparr>))))"

definition sys_close :: "'w handler" where
  "sys_close mc r k =
     rbind (fd_file (reg_ebx r) k) (\<lambda>(a, f).
     rbind (close_file (a, f) k) (\<lambda>k1.
     rbind (resource_unregister_self (FilePtr a) k1) (sys_done r)))"

definition sys_read :: "'w handler" where
  "sys_read mc r k =
     (if sint (reg_ebx r) \<in> {0, 1, 2} then sys_done r k
      else rbind (fd_file (reg_ebx r) k) (\<lambda>(a, f).
           rbind (vfs_read f (reg_edx r) (reg_esi r) (k_vfs k) (k_fs k)) (\<lambda>bs.
           rbind (to_user (reg_ecx r) bs k) (sys_done r))))"

definition sys_write :: "'w handler" where
  "sys_write mc r k =
     (if reg_ebx r = 0 then sys_done r k
      else if sint (reg_ebx r) \<in> {1, 2} then
        rbind (user_bytes (reg_ecx r) (reg_edx r) k) (\<lambda>bs.
        sys_done r (k\<lparr>k_calls := k_calls k @ map (Putc (tk_term (tasks k ! get_self k))) bs\<rparr>))
      else rbind (fd_file (reg_ebx r) k) (\<lambda>(a, f).
           rbind (user_bytes (reg_ecx r) (reg_edx r) k) (\<lambda>bs.
           rbind (vfs_write f bs (reg_esi r) (k_vfs k) (k_fs k)) (\<lambda>(f', w).
           sys_done r (k\<lparr>k_fs := w, k_files := (k_files k)(a \<mapsto> f')\<rparr>)))))"

definition sys_filesize :: "'w handler" where
  "sys_filesize mc r k = rbind (fd_file (reg_ebx r) k) (\<lambda>(a, f). sys_done (r\<lparr>reg_ecx := f_size f\<rparr>) k)"

text \<open>Of the mounts of \<open>Vfs\<close> no \<open>delete\<close> frees the structure.\<close>

definition sys_delete :: "'w handler" where
  "sys_delete mc r k =
     rbind (fd_file (reg_ebx r) k) (\<lambda>(a, f).
     rbind (vfs_delete f (k_vfs k) (k_fs k)) (\<lambda>w.
     rbind (resource_unregister_self (FilePtr a) (k\<lparr>k_fs := w\<rparr>)) (sys_done r)))"

definition sys_truncate :: "'w handler" where
  "sys_truncate mc r k =
     rbind (fd_file (reg_ebx r) k) (\<lambda>(a, f).
     rbind (vfs_truncate f (reg_ecx r) (k_vfs k) (k_fs k)) (\<lambda>(f', w).
     sys_done r (k\<lparr>k_fs := w, k_files := (k_files k)(a \<mapsto> f')\<rparr>)))"

definition sys_mkdir :: "'w handler" where
  "sys_mkdir mc r k = rbind (user_path (reg_ebx r) k) (\<lambda>path.
     rbind (vfs_mkdir path (k_vfs k) (k_fs k)) (\<lambda>w. sys_done r (k\<lparr>k_fs := w\<rparr>)))"

definition sys_touch :: "'w handler" where
  "sys_touch mc r k = rbind (user_path (reg_ebx r) k) (\<lambda>path.
     rbind (vfs_touch path (k_vfs k) (k_fs k)) (\<lambda>w. sys_done r (k\<lparr>k_fs := w\<rparr>)))"

definition sys_delete_dir :: "'w handler" where
  "sys_delete_dir mc r k = rbind (user_path (reg_ebx r) k) (\<lambda>path.
     rbind (vfs_delete_dir path (k_vfs k) (k_fs k)) (\<lambda>w. sys_done r (k\<lparr>k_fs := w\<rparr>)))"

text \<open>The bytes of a \<open>dir_t\<close>: the name, the index, \<open>is_none\<close> with its padding, and the type.\<close>

definition dir_bytes :: "dir_t \<Rightarrow> u8 list" where
  "dir_bytes d = take 256 (d_name d @ replicate 256 0) @ put32 (word_of_int (d_idx d)) @
     [of_bool (d_is_none d), 0, 0, 0] @ put32 (of_bool (d_is_dir d))"

definition sys_dir_at :: "'w handler" where
  "sys_dir_at mc r k = rbind (user_path (reg_ebx r) k) (\<lambda>path.
     rbind (vfs_dir_at (sint (reg_ecx r)) path (k_vfs k) (k_fs k)) (\<lambda>d.
     rbind (to_user (reg_edx r) (dir_bytes d) k) (sys_done r)))"

definition sys_fs_at :: "'w handler" where
  "sys_fs_at mc r k =
     rbind (vfs_fs_at (sint (reg_ebx r)) (k_vfs k)) (\<lambda>n. case n of
         None \<Rightarrow> sys_done (r\<lparr>reg_edx := 0\<rparr>) k
       | Some name \<Rightarrow> rbind (strcpy_array (name @ [0])) (\<lambda>bs. rbind (to_user (reg_ecx r) bs k) (sys_done (r\<lparr>reg_edx := 1\<rparr>))))"

section \<open>Tasks\<close>

text \<open>
  The functions the resources of a task are given to when it ends. Ending a task may end its threads, and those theirs: \<open>n\<close> is
  how deep the calls may nest, \<open>out\<close> the result at a greater depth. \<open>MAX_TASKS\<close> is enough, since a task is marked inactive
  before its resources are released (\<open>exit_task_depth\<close>).
\<close>

primrec dealloc_resource ::
  "'w kernel res \<Rightarrow> machine \<Rightarrow> nat \<Rightarrow> dealloc_fn \<Rightarrow> resource_ptr \<Rightarrow> 'w kernel \<Rightarrow> 'w kernel res" where
  "dealloc_resource out mc 0 d p k = out"
| "dealloc_resource out mc (Suc n) d p k =
     (case (d, p) of
        (SysOpenDealloc, FilePtr a) \<Rightarrow> sys_open_dealloc a k
      | (SysConnectDealloc, SocketPtr j) \<Rightarrow>
          rbind (socket_disconnect j (mc_env mc) (k_net k)) (\<lambda>s. Inr (k\<lparr>k_net := s\<rparr>))
      | (SysThreadKill, ThreadPid t) \<Rightarrow>
          (case get_task_by_pid t k of None \<Rightarrow> Inr k | Some i \<Rightarrow> exit_task (dealloc_resource out mc n) i k)
      | _ \<Rightarrow> Inl OutOfBounds)"

abbreviation dealloc :: "machine \<Rightarrow> dealloc_fn \<Rightarrow> resource_ptr \<Rightarrow> 'w kernel \<Rightarrow> 'w kernel res" where
  "dealloc mc \<equiv> dealloc_resource (Inl Halted) mc MAX_TASKS"

definition sys_exit :: "'w handler" where
  "sys_exit mc r k = rbind (exit_task (dealloc mc) (get_self k) k) (sys_done r)"

definition sys_kill :: "'w handler" where
  "sys_kill mc r k =
     (case get_task_by_pid (reg_ebx r) k of
        None \<Rightarrow> Inl NullDeref
      | Some i \<Rightarrow> rbind (exit_task (dealloc mc) i k) (sys_done r))"

definition sys_yield :: "'w handler" where
  "sys_yield mc r k =
     rbind (schedule (mc_key mc) True (mc_term mc) (mc_time_ms mc) (mc_frame mc) k) (\<lambda>(f, k1). Inr (Frame f, k1))"

definition sys_get_proc_info :: "'w handler" where
  "sys_get_proc_info mc r k = sys_done (r\<lparr>reg_ecx := of_bool (get_task_by_pid (reg_ebx r) k \<noteq> None)\<rparr>) k"

definition sys_task_list_get :: "'w handler" where
  "sys_task_list_get mc r k =
     rbind (read_task_list (mc_loc mc) (reg_ebx r) (sint (reg_ecx r)) k) (\<lambda>(n, k1). sys_done (r\<lparr>reg_edx := of_nat n\<rparr>) k1)"

text \<open>A thread whose number is 0 is registered as \<open>NULL\<close>.\<close>

definition thread_ptr :: "u32 \<Rightarrow> resource_ptr" where
  "thread_ptr p = (if p = 0 then NoResource else ThreadPid p)"

definition sys_thread :: "'w handler" where
  "sys_thread mc r k =
     rbind (init_task (mc_key mc) (tk_term (tasks k ! get_self k)) (reg_ebx r) True (get_self k) k) (\<lambda>(i, k1).
     rbind (resource_register_self (SysThreadKill, thread_ptr (pid (tasks k1 ! i))) k1)
       (sys_done (r\<lparr>reg_ecx := pid (tasks k1 ! i)\<rparr>)))"

definition sys_set_term :: "'w handler" where
  "sys_set_term mc r k =
     (if sint (reg_ecx r) \<le> 4 then
        (case get_task_by_pid (reg_ebx r) k of
           None \<Rightarrow> Inl NullDeref
         | Some i \<Rightarrow> sys_done r (upd_task i (\<lambda>t. t\<lparr>tk_term := reg_ecx r\<rparr>) k))
      else sys_done r k)"

definition sys_raminfo :: "'w handler" where
  "sys_raminfo mc r k = sys_done (r\<lparr>reg_ebx := free_memory (vm_pmm (sc_vm k)), reg_ecx := used_memory (vm_pmm (sc_vm k))\<rparr>) k"

definition alloc_page :: "panic_key \<Rightarrow> 'w kernel \<Rightarrow> (u32 \<times> 'w kernel) res" where
  "alloc_page key k =
     rbind (pmm_alloc key (vm_pmm (sc_vm k))) (\<lambda>(a, p). Inr (a, k\<lparr>sc_vm := (sc_vm k)\<lparr>vm_pmm := p\<rparr>\<rparr>))"

definition map_for :: "panic_key \<Rightarrow> nat \<Rightarrow> u32 \<Rightarrow> u32 \<Rightarrow> 'w kernel \<Rightarrow> 'w kernel res" where
  "map_for key i va pa k =
     rbind (on_vm (vmm_map_page key (tk_context (tasks k ! i)) va pa (PTE_PRESENT OR PTE_WRITE OR PTE_USER)) k) (\<lambda>(_, k1). Inr k1)"

definition sys_mmap :: "'w handler" where
  "sys_mmap mc r k =
     rbind (alloc_page (mc_key mc) k) (\<lambda>(pa, k1).
     rbind (map_for (mc_key mc) (get_self k1) (reg_ebx r) pa k1) (sys_done r))"

definition sys_mmmap :: "'w handler" where
  "sys_mmmap mc r k =
     rbind (alloc_page (mc_key mc) k) (\<lambda>(pa, k1).
     rbind (map_for (mc_key mc) (get_self k1) (reg_ebx r) pa k1) (\<lambda>k2.
     case get_task_by_pid (reg_edx r) k2 of
       None \<Rightarrow> Inl NullDeref
     | Some i \<Rightarrow> rbind (map_for (mc_key mc) i (reg_ecx r) pa k2) (sys_done r)))"

text \<open>\<open>sys_env\<close>. A longer path than the 128 bytes of \<open>pwd\<close> is written over the fields behind it.\<close>

definition set_pwd :: "u8 list \<Rightarrow> 'w kernel \<Rightarrow> 'w kernel" where
  "set_pwd bs k = upd_task (get_self k) (\<lambda>t. t\<lparr>pwd := bs @ replicate (PWD_SIZE - length bs) 0\<rparr>) k"

definition sys_env :: "'w handler" where
  "sys_env mc r k =
     (let self = tasks k ! get_self k; id = reg_ebx r in
      if id = 0 then sys_done (r\<lparr>reg_ecx := argv self\<rparr>) k
      else if id = 1 then sys_done (r\<lparr>reg_ecx := envp self\<rparr>) k
      else if id = 2 then
        rbind (strcpy_array (pwd self)) (\<lambda>bs. rbind (to_user (reg_ecx r) bs k) (sys_done r))
      else if id = 3 then
        rbind (strcpy_user PWD_SIZE (reg_ecx r) k) (\<lambda>bs. sys_done r (set_pwd bs k))
      else if id = 4 then sys_done r (k\<lparr>k_calls := k_calls k @ [AcpiReset]\<rparr>)
      else if id = 5 then sys_done r (k\<lparr>k_calls := k_calls k @ [AcpiPowerOff]\<rparr>)
      else if id = 6 then sys_done r (upd_task (get_self k) (\<lambda>t. t\<lparr>pin := reg_ecx r \<noteq> 0\<rparr>) k)
      else if id = 7 then sys_done r (k\<lparr>k_calls := k_calls k @ [SetLayout (reg_ecx r)]\<rparr>)
      else if id = 8 then sys_done r (upd_task (get_self k) (\<lambda>t. t\<lparr>wait_time := reg_ecx r\<rparr>) k)
      else sys_done r k)"

section \<open>Network\<close>

text \<open>\<open>NOSHED\<close>: the scheduler is stopped meanwhile, and started afterwards whether or not it ran before.\<close>

definition nosched :: "(net \<Rightarrow> ('a \<times> net) res) \<Rightarrow> 'w kernel \<Rightarrow> ('a \<times> 'w kernel) res" where
  "nosched f k = rbind (f (k_net k)) (\<lambda>(x, s). Inr (x, k\<lparr>k_net := s, is_scheduler_running := True\<rparr>))"

text \<open>A call on a socket by its number: there is none with a wrong number.\<close>

definition the_socket :: "u32 \<Rightarrow> net \<Rightarrow> nat res" where
  "the_socket sid s = (case socket_manager_find sid s of None \<Rightarrow> Inl NullDeref | Some j \<Rightarrow> Inr j)"

definition socket_ptr :: "nat option \<Rightarrow> resource_ptr" where
  "socket_ptr j = (case j of None \<Rightarrow> NoResource | Some j \<Rightarrow> SocketPtr j)"

definition sys_sock_connect :: "'w handler" where
  "sys_sock_connect mc r k =
     (if \<not> reg_ebx r < 1 then Inl AssertFailed
      else rbind (nosched (socket_connect (sint (reg_esi r)) (reg_ecx r) (ucast (reg_edx r)) (mc_time_ms mc) (mc_env_arp mc) (mc_env mc)) k)
        (\<lambda>(j, k1). case sk_heap (k_net k1) j of
             None \<Rightarrow> Inl OutOfBounds
           | Some s \<Rightarrow>
               rbind (resource_register_self (SysConnectDealloc, socket_ptr (socket_manager_find (socket_id s) (k_net k1))) k1)
                 (sys_done (r\<lparr>reg_esi := socket_id s\<rparr>))))"

definition sys_sock_disconnect :: "'w handler" where
  "sys_sock_disconnect mc r k =
     rbind (the_socket (reg_ebx r) (k_net k)) (\<lambda>j.
     rbind (nosched (\<lambda>s. rbind (socket_disconnect j (mc_env mc) s) (\<lambda>s1. Inr ((), s1))) k) (\<lambda>(_, k1).
     rbind (resource_unregister_self (SocketPtr j) k1) (sys_done r)))"

definition sys_sock_send :: "'w handler" where
  "sys_sock_send mc r k =
     rbind (user_bytes (reg_ecx r) (reg_edx r) k) (\<lambda>bs.
     rbind (nosched (\<lambda>s. rbind (the_socket (reg_ebx r) s) (\<lambda>j. rbind (socket_send j bs (mc_env mc) s) (\<lambda>s1. Inr ((), s1)))) k)
       (\<lambda>(_, k1). sys_done r k1))"

definition sys_sock_recv :: "'w handler" where
  "sys_sock_recv mc r k =
     rbind (nosched (\<lambda>s. rbind (the_socket (reg_ebx r) s) (\<lambda>j. socket_recv j (reg_edx r) (mc_env mc) s)) k) (\<lambda>(bs, k1).
     rbind (to_user (reg_ecx r) bs k1) (sys_done (r\<lparr>reg_esi := of_nat (length bs)\<rparr>)))"

definition sys_icmp :: "'w handler" where
  "sys_icmp mc r k =
     (if \<not> reg_ebx r < 1 then Inl AssertFailed
      else rbind (nosched (\<lambda>s. Inr (icmp_send_echo_reqest_and_wait (reg_ecx r) (mc_env_arp mc) (mc_env mc) s)) k)
        (\<lambda>(b, k1). sys_done (r\<lparr>reg_edx := of_bool b\<rparr>) k1))"

text \<open>Resolving a name may not return. A name of 128 characters or more is written past the array for the encoded name.\<close>

definition sys_dns_a :: "machine \<Rightarrow> cpu_registers \<Rightarrow> 'w kernel \<Rightarrow> (sys_ret \<times> 'w kernel) res option" where
  "sys_dns_a mc r k =
     (if \<not> reg_ebx r < 1 then Some (Inl AssertFailed)
      else lbind (Some (user_string 128 (sc_vm k) (reg_ecx r))) (\<lambda>name.
           lbind (dns_resolve_A (mc_dns mc) 0 name (k_net k)) (\<lambda>(ip, s).
           Some (sys_done (r\<lparr>reg_edx := ip\<rparr>) (k\<lparr>k_net := s, is_scheduler_running := True\<rparr>)))))"

section \<open>Clocks and keys\<close>

definition sys_time :: "'w handler" where
  "sys_time mc r k = sys_done (r\<lparr>reg_ebx := mc_time mc\<rparr>) k"

definition sys_time_ms :: "'w handler" where
  "sys_time_ms mc r k = sys_done (r\<lparr>reg_ebx := mc_time_ms mc\<rparr>) k"

text \<open>Only the task of the terminal on the screen gets the keys.\<close>

definition sys_async_getc :: "'w handler" where
  "sys_async_getc mc r k =
     sys_done (r\<lparr>reg_ebx := (if mc_term mc = tk_term (tasks k ! get_self k) then mc_getc mc else 0)\<rparr>) k"

definition sys_async_getarrw :: "'w handler" where
  "sys_async_getarrw mc r k =
     sys_done (r\<lparr>reg_ebx := (if mc_term mc = tk_term (tasks k ! get_self k) then mc_getarrw mc else 0)\<rparr>) k"

definition sys_vmode :: "'w handler" where
  "sys_vmode mc r k = sys_done (r\<lparr>reg_ebx := mc_vmode mc\<rparr>) k"

definition sys_sound_run :: "'w handler" where
  "sys_sound_run mc r k = rbind (abortf (mc_key mc)) (\<lambda>_. sys_done r k)"

text \<open>The calls that are passed to the driver of the screen for the task's terminal. A colour is compared with short names: of its string only the first characters are read.\<close>

definition self_term :: "'w kernel \<Rightarrow> u32" where
  "self_term k = tk_term (tasks k ! get_self k)"

definition sys_vpoke :: "'w handler" where
  "sys_vpoke mc r k =
     rbind (user_bytes (reg_ecx r) (reg_edx r) k) (\<lambda>bs.
     sys_done r (k\<lparr>k_calls := k_calls k @ [VPoke (self_term k) (reg_ebx r) bs]\<rparr>))"

definition sys_vpeek :: "'w handler" where
  "sys_vpeek mc r k = rbind (to_user (reg_ecx r) (mc_vpeek mc (self_term k) (reg_ebx r) (reg_edx r)) k) (sys_done r)"

definition sys_vcursor :: "'w handler" where
  "sys_vcursor mc r k = sys_done r (k\<lparr>k_calls := k_calls k @ [VCursor (self_term k) (reg_ebx r) (reg_ecx r)]\<rparr>)"

definition sys_vcursor_get :: "'w handler" where
  "sys_vcursor_get mc r k =
     rbind (to_user (reg_ebx r) (put32 (fst (mc_vcursor mc (self_term k)))) k) (\<lambda>k1.
     rbind (to_user (reg_ecx r) (put32 (snd (mc_vcursor mc (self_term k)))) k1) (sys_done r))"

abbreviation COLOR_CHARS :: nat where "COLOR_CHARS \<equiv> 16"

primrec user_prefix :: "nat \<Rightarrow> vm \<Rightarrow> u32 \<Rightarrow> u8 list res" where
  "user_prefix 0 v a = Inr []"
| "user_prefix (Suc n) v a =
     rbind (walk (vm_mem v) (cr3 v) a) (\<lambda>p.
       if vm_mem v p = 0 then Inr []
       else rbind (user_prefix n v (a + 1)) (\<lambda>bs. Inr (vm_mem v p # bs)))"

definition sys_set_color :: "'w handler" where
  "sys_set_color mc r k =
     rbind (user_prefix COLOR_CHARS (sc_vm k) (reg_ebx r)) (\<lambda>c.
     sys_done r (k\<lparr>k_calls := k_calls k @ [SetColor (self_term k) c (reg_ecx r \<noteq> 0)]\<rparr>))"

definition sys_mouse_info :: "'w handler" where
  "sys_mouse_info mc r k =
     rbind (to_user (reg_ebx r) (if mc_term mc = self_term k then mc_mouse mc else replicate 12 0) k) (sys_done r)"

section \<open>Starting a program\<close>

text \<open>
  \<open>sys_spawn\<close>. The whole file is read into pages of the kernel; afterwards the working directory of the caller is copied to the new task,
  whether or not there is one.
\<close>

definition copy_pwd :: "u32 \<Rightarrow> 'w kernel \<Rightarrow> 'w kernel res" where
  "copy_pwd p k =
     (case get_task_by_pid p k of
        None \<Rightarrow> Inl NullDeref
      | Some i \<Rightarrow> rbind (strcpy_array (pwd (tasks k ! get_self k))) (\<lambda>bs.
          Inr (upd_task i (\<lambda>t. t\<lparr>pwd := bs @ drop (length bs) (pwd t)\<rparr>) k)))"

definition sys_spawn :: "machine \<Rightarrow> cpu_registers \<Rightarrow> 'w kernel \<Rightarrow> (sys_ret \<times> 'w kernel) res option" where
  "sys_spawn mc r k =
     lbind (Some (user_path (reg_ebx r) k)) (\<lambda>path.
     lbind (Some (vfs_open path 0 (k_vfs k) (k_fs k))) (\<lambda>(file, w). case file of
         None \<Rightarrow> Some (sys_done (r\<lparr>reg_esi := - 1\<rparr>) (k\<lparr>k_fs := w\<rparr>))
       | Some f \<Rightarrow>
           let pages = f_size f div 4096 + 1 in
           lbind (Some (on_vm (vmm_alloc (mc_key mc) pages) (k\<lparr>k_fs := w\<rparr>))) (\<lambda>(buffer, k1).
           lbind (Some (vfs_read f (f_size f) 0 (k_vfs k1) (k_fs k1))) (\<lambda>bs.
           lbind (init_elf (mc_key mc) (self_term k1) buffer (reg_ecx r) (reg_edx r) (poke (\<lambda>m. store_bytes m buffer bs) k1)) (\<lambda>(p, k2).
           lbind (Some (vmm_free buffer pages (sc_vm k2))) (\<lambda>v.
           lbind (Some (vfs_close f (k_vfs k2) (k_fs k2))) (\<lambda>w'.
           Some (rbind (copy_pwd p (k2\<lparr>sc_vm := v, k_fs := w'\<rparr>)) (sys_done (r\<lparr>reg_esi := p\<rparr>))))))))))"

section \<open>The table\<close>

datatype syscall = SysOpen | SysClose | SysRead | SysWrite | SysFilesize | SysDelete | SysMkdir | SysDirAt | SysTouch | SysDeleteDir |
  SysFsAt | SysAsyncGetc | SysExit | SysMmap | SysSpawn | SysGetProcInfo | SysYield | SysEnv | SysMmmap | SysVmode | SysVpoke |
  SysVcursor | SysIcmp | SysDnsA | SysSockConnect | SysSockDisconnect | SysSockSend | SysSockRecv | SysSoundRun | SysTime | SysSetColor |
  SysAsyncGetarrw | SysVcursorGet | SysTaskListGet | SysKill | SysVpeek | SysRaminfo | SysMouseInfo | SysTruncate | SysTimeMs |
  SysSetTerm | SysThread

text \<open>
  \<open>syscall_table\<close> as the entries of its pages, \<open>None\<close> where none was written, and \<open>num_syscall_handlers\<close>. \<open>vmm_resize\<close>
  counts one page for every 1024 entries begun and keeps the memory while the number of pages stays the same.
\<close>

record sys_table =
  syscall_table :: "syscall option list"
  num_syscall_handlers :: nat

definition table_resize :: "nat \<Rightarrow> nat \<Rightarrow> syscall option list \<Rightarrow> syscall option list" where
  "table_resize old new t =
     (let pages = (\<lambda>n. 4 * n div 4096 + 1) in
      if t = [] then replicate (pages new * 1024) None
      else if pages new \<noteq> pages old then take old t @ replicate (pages new * 1024 - old) None
      else t)"

definition register_syscall :: "nat \<Rightarrow> syscall \<Rightarrow> sys_table \<Rightarrow> sys_table res" where
  "register_syscall i h t =
     (let t1 = (if i > num_syscall_handlers t
                then t\<lparr>syscall_table := table_resize (num_syscall_handlers t) (i + 1) (syscall_table t), num_syscall_handlers := i + 1\<rparr>
                else t)
      in if i < length (syscall_table t1) then Inr (t1\<lparr>syscall_table := (syscall_table t1)[i := Some h]\<rparr>)
         else Inl OutOfBounds)"

definition syscall_ids :: "(nat \<times> syscall) list" where
  "syscall_ids = [(1, SysOpen), (2, SysClose), (3, SysRead), (4, SysWrite), (5, SysFilesize), (6, SysDelete), (7, SysMkdir),
     (8, SysDirAt), (9, SysTouch), (10, SysDeleteDir), (11, SysFsAt), (12, SysAsyncGetc), (13, SysExit), (14, SysMmap), (15, SysSpawn),
     (16, SysGetProcInfo), (17, SysYield), (18, SysEnv), (19, SysMmmap), (20, SysVmode), (21, SysVpoke), (22, SysVcursor), (23, SysIcmp),
     (24, SysDnsA), (26, SysSockConnect), (27, SysSockDisconnect), (28, SysSockSend), (29, SysSockRecv), (30, SysSoundRun), (31, SysTime),
     (32, SysSetColor), (33, SysAsyncGetarrw), (34, SysVcursorGet), (35, SysTaskListGet), (36, SysKill), (37, SysVpeek),
     (38, SysRaminfo), (39, SysMouseInfo), (40, SysTruncate), (41, SysTimeMs), (43, SysSetTerm)]"

primrec register_all :: "(nat \<times> syscall) list \<Rightarrow> sys_table \<Rightarrow> sys_table res" where
  "register_all [] t = Inr t"
| "register_all (c # cs) t = rbind (register_syscall (fst c) (snd c) t) (register_all cs)"

definition init_syscalls :: "sys_table res" where
  "init_syscalls = register_all syscall_ids \<lparr>syscall_table = [], num_syscall_handlers = 0\<rparr>"

text \<open>
  The handlers of the configuration without \<open>THREADS\<close>.
\<close>

type_synonym 'w run = "(sys_ret \<times> 'w kernel) res option"

definition run_syscall :: "syscall \<Rightarrow> machine \<Rightarrow> cpu_registers \<Rightarrow> 'w kernel \<Rightarrow> 'w run" where
  "run_syscall c mc r k = (case c of
       SysOpen \<Rightarrow> Some (sys_open mc r k) | SysClose \<Rightarrow> Some (sys_close mc r k) | SysRead \<Rightarrow> Some (sys_read mc r k)
     | SysWrite \<Rightarrow> Some (sys_write mc r k) | SysFilesize \<Rightarrow> Some (sys_filesize mc r k) | SysDelete \<Rightarrow> Some (sys_delete mc r k)
     | SysMkdir \<Rightarrow> Some (sys_mkdir mc r k) | SysDirAt \<Rightarrow> Some (sys_dir_at mc r k) | SysTouch \<Rightarrow> Some (sys_touch mc r k)
     | SysDeleteDir \<Rightarrow> Some (sys_delete_dir mc r k) | SysFsAt \<Rightarrow> Some (sys_fs_at mc r k)
     | SysAsyncGetc \<Rightarrow> Some (sys_async_getc mc r k) | SysExit \<Rightarrow> Some (sys_exit mc r k) | SysMmap \<Rightarrow> Some (sys_mmap mc r k)
     | SysGetProcInfo \<Rightarrow> Some (sys_get_proc_info mc r k) | SysYield \<Rightarrow> Some (sys_yield mc r k) | SysEnv \<Rightarrow> Some (sys_env mc r k)
     | SysMmmap \<Rightarrow> Some (sys_mmmap mc r k) | SysVmode \<Rightarrow> Some (sys_vmode mc r k) | SysIcmp \<Rightarrow> Some (sys_icmp mc r k)
     | SysDnsA \<Rightarrow> sys_dns_a mc r k | SysSockConnect \<Rightarrow> Some (sys_sock_connect mc r k)
     | SysSockDisconnect \<Rightarrow> Some (sys_sock_disconnect mc r k) | SysSockSend \<Rightarrow> Some (sys_sock_send mc r k)
     | SysSockRecv \<Rightarrow> Some (sys_sock_recv mc r k) | SysSoundRun \<Rightarrow> Some (sys_sound_run mc r k) | SysTime \<Rightarrow> Some (sys_time mc r k)
     | SysAsyncGetarrw \<Rightarrow> Some (sys_async_getarrw mc r k) | SysTaskListGet \<Rightarrow> Some (sys_task_list_get mc r k)
     | SysKill \<Rightarrow> Some (sys_kill mc r k) | SysRaminfo \<Rightarrow> Some (sys_raminfo mc r k) | SysTruncate \<Rightarrow> Some (sys_truncate mc r k)
     | SysTimeMs \<Rightarrow> Some (sys_time_ms mc r k) | SysSetTerm \<Rightarrow> Some (sys_set_term mc r k) | SysThread \<Rightarrow> Some (sys_thread mc r k)
     | SysSpawn \<Rightarrow> sys_spawn mc r k | SysVpoke \<Rightarrow> Some (sys_vpoke mc r k) | SysVpeek \<Rightarrow> Some (sys_vpeek mc r k)
     | SysVcursor \<Rightarrow> Some (sys_vcursor mc r k) | SysVcursorGet \<Rightarrow> Some (sys_vcursor_get mc r k) | SysSetColor \<Rightarrow> Some (sys_set_color mc r k)
     | SysMouseInfo \<Rightarrow> Some (sys_mouse_info mc r k))"

text \<open>\<open>syscall_handler\<close> does not test the number: it calls whatever is at that place.\<close>

definition syscall_handler :: "sys_table \<Rightarrow> machine \<Rightarrow> cpu_registers \<Rightarrow> 'w kernel \<Rightarrow> 'w run" where
  "syscall_handler t mc r k =
     (if unat (reg_eax r) < length (syscall_table t) then
        (case syscall_table t ! unat (reg_eax r) of
           None \<Rightarrow> Some (Inl Uninitialised)
         | Some c \<Rightarrow> run_syscall c mc r k)
      else Some (Inl OutOfBounds))"

section \<open>The table: properties\<close>

lemma register_all_entries:
  assumes "length (syscall_table t) = 1024" "\<forall>(i, h) \<in> set cs. i < 256" "num_syscall_handlers t \<le> 256" "distinct (map fst cs)"
  shows "\<exists>n. register_all cs t = Inr \<lparr>syscall_table = fold (\<lambda>(i, h) e. e[i := Some h]) cs (syscall_table t), num_syscall_handlers = n\<rparr>"
  using assms
proof (induction cs arbitrary: t)
  case Nil
  then show ?case by (intro exI [of _ "num_syscall_handlers t"]) simp
next
  case (Cons c cs)
  obtain i h where c: "c = (i, h)" by fastforce
  have i: "i < 256" using Cons.prems(2) c by simp
  have "table_resize (num_syscall_handlers t) (i + 1) (syscall_table t) = syscall_table t"
    using Cons.prems(1,3) i by (auto simp: table_resize_def)
  then have "\<exists>n \<le> 256. register_syscall i h t = Inr \<lparr>syscall_table = (syscall_table t)[i := Some h], num_syscall_handlers = n\<rparr>"
    using Cons.prems(1,3) i by (cases t) (auto simp: register_syscall_def Let_def intro: exI [of _ "num_syscall_handlers t"] exI [of _ "i + 1"])
  then obtain n where n: "n \<le> 256" "register_syscall i h t = Inr \<lparr>syscall_table = (syscall_table t)[i := Some h], num_syscall_handlers = n\<rparr>"
    by blast
  show ?case
    using Cons.IH [of "\<lparr>syscall_table = (syscall_table t)[i := Some h], num_syscall_handlers = n\<rparr>"] Cons.prems n by (simp add: c)
qed

lemma fold_entries:
  assumes "distinct (map fst cs)" "\<forall>(i, h) \<in> set cs. i < length e"
  shows "length (fold (\<lambda>(i, h) e. e[i := Some h]) cs e) = length e"
    "j < length e \<Longrightarrow> fold (\<lambda>(i, h) e. e[i := Some h]) cs e ! j = (case map_of cs j of None \<Rightarrow> e ! j | Some h \<Rightarrow> Some h)"
proof -
  show "length (fold (\<lambda>(i, h) e. e[i := Some h]) cs e) = length e" by (induction cs arbitrary: e) auto
  show "fold (\<lambda>(i, h) e. e[i := Some h]) cs e ! j = (case map_of cs j of None \<Rightarrow> e ! j | Some h \<Rightarrow> Some h)" if "j < length e"
    using assms that
  proof (induction cs arbitrary: e)
    case (Cons c cs)
    obtain i h where c: "c = (i, h)" by fastforce
    then have "map_of cs i = None" using Cons.prems(1) by (simp add: map_of_eq_None_iff)
    then show ?case using Cons.IH [of "e[i := Some h]"] Cons.prems by (auto simp: c nth_list_update split: option.split)
  qed simp
qed

lemma init_syscalls_table:
  "\<exists>t. init_syscalls = Inr t \<and> length (syscall_table t) = 1024 \<and> (\<forall>i < 1024. syscall_table t ! i = map_of syscall_ids i)"
proof -
  let ?t = "\<lparr>syscall_table = (replicate 1024 None)[1 := Some SysOpen], num_syscall_handlers = 2\<rparr>"
  have ids: "distinct (map fst syscall_ids)" "\<forall>(i, h) \<in> set syscall_ids. i < 256" by code_simp+
  obtain cs where cs: "syscall_ids = (1, SysOpen) # cs" by (simp add: syscall_ids_def)
  have cs_ok: "distinct (map fst cs)" "\<forall>(i, h) \<in> set cs. i < 256" using ids unfolding cs by simp_all
  have f: "register_syscall 1 SysOpen \<lparr>syscall_table = [], num_syscall_handlers = 0\<rparr> = Inr ?t"
    by (simp add: register_syscall_def table_resize_def Let_def)
  obtain n where n: "register_all cs ?t = Inr \<lparr>syscall_table = fold (\<lambda>(i, h) e. e[i := Some h]) cs (syscall_table ?t), num_syscall_handlers = n\<rparr>"
    using register_all_entries [OF _ cs_ok(2) _ cs_ok(1), of ?t] by auto
  have i: "init_syscalls = Inr \<lparr>syscall_table = fold (\<lambda>(i, h) e. e[i := Some h]) syscall_ids (replicate 1024 None), num_syscall_handlers = n\<rparr>"
    unfolding init_syscalls_def cs register_all.simps fst_conv snd_conv f rbind_Inr n by simp
  have "\<forall>(i, h) \<in> set syscall_ids. i < length (replicate 1024 (None :: syscall option))" using ids(2) by fastforce
  then show ?thesis using fold_entries [OF ids(1), of "replicate 1024 None"] i by (auto split: option.split)
qed

text \<open>
  C21. The table that \<open>init_syscalls\<close> builds, although \<open>register_syscall\<close> grows it one number too late: a
  system call with the number of a registered handler runs that handler, and every other number below 1024 calls through an entry
  that was never written.
\<close>

theorem syscall_dispatch:
  "\<exists>t. init_syscalls = Inr t \<and>
     (\<forall>mc r (k :: 'w kernel). unat (reg_eax r) < 1024 \<longrightarrow>
        syscall_handler t mc r k =
          (case map_of syscall_ids (unat (reg_eax r)) of
             None \<Rightarrow> Some (Inl Uninitialised)
           | Some c \<Rightarrow> run_syscall c mc r k))"
proof -
  obtain t where "init_syscalls = Inr t" "length (syscall_table t) = 1024" "\<forall>i < 1024. syscall_table t ! i = map_of syscall_ids i"
    using init_syscalls_table by blast
  then show ?thesis by (intro exI [of _ t]) (simp add: syscall_handler_def)
qed

section \<open>Ending a task\<close>

lemma count_active_update:
  "i < length ts \<Longrightarrow> count_active (ts[i := t]) + of_bool (active (ts ! i)) = count_active ts + of_bool (active t)"
proof (induction ts arbitrary: i)
  case (Cons u ts)
  then show ?case by (cases i) auto
qed simp

lemma upd_task_count:
  "(\<And>t. active (f t) = active t) \<Longrightarrow> count_active (tasks (upd_task i f s)) = count_active (tasks s)"
  using count_active_update [of i "tasks s" "f (tasks s ! i)"]
  by (cases "i < length (tasks s)") (simp_all add: upd_task_def list_update_beyond)

text \<open>Two sets of deallocation functions that agree while at most \<open>c\<close> tasks are active, and make no task active.\<close>

definition settled :: "nat \<Rightarrow> (dealloc_fn \<Rightarrow> resource_ptr \<Rightarrow> 'z sched_scheme \<Rightarrow> 'z sched_scheme res) \<Rightarrow>
    (dealloc_fn \<Rightarrow> resource_ptr \<Rightarrow> 'z sched_scheme \<Rightarrow> 'z sched_scheme res) \<Rightarrow> bool" where
  "settled c dl dl' \<longleftrightarrow> (\<forall>d r s. count_active (tasks s) \<le> c \<longrightarrow>
     dl d r s = dl' d r s \<and> (\<forall>s'. dl d r s = Inr s' \<longrightarrow> count_active (tasks s') \<le> count_active (tasks s)))"

lemma settledD:
  assumes "settled c dl dl'" "count_active (tasks s) \<le> c"
  shows "dl d r s = dl' d r s" "dl d r s = Inr s' \<Longrightarrow> count_active (tasks s') \<le> count_active (tasks s)"
  using assms by (auto simp: settled_def)

lemma dealloc_loop_cong:
  assumes "settled c dl dl'" "count_active (tasks s) \<le> c"
  shows "dealloc_loop dl i j n s = dealloc_loop dl' i j n s \<and>
    (\<forall>s'. dealloc_loop dl i j n s = Inr s' \<longrightarrow> count_active (tasks s') \<le> count_active (tasks s))"
  using assms(2)
proof (induction n arbitrary: j s)
  case (Suc n)
  show ?case
  proof (cases "\<exists>rs. resources (tasks s ! i) = Some rs \<and> j < length rs \<and> snd (rs ! j) \<noteq> NoResource")
    case True
    then obtain rs where rs: "resources (tasks s ! i) = Some rs" "j < length rs" "snd (rs ! j) \<noteq> NoResource" by blast
    show ?thesis
    proof (cases "dl (fst (rs ! j)) (snd (rs ! j)) s")
      case (Inl e)
      then show ?thesis using rs settledD(1) [OF assms(1) Suc.prems] by simp
    next
      case (Inr s1)
      have le: "count_active (tasks s1) \<le> count_active (tasks s)" using settledD(2) [OF assms(1) Suc.prems Inr] .
      then show ?thesis using rs Inr settledD(1) [OF assms(1) Suc.prems] Suc.IH [of s1 "Suc j"] Suc.prems by auto
    qed
  next
    case False
    then show ?thesis using Suc.IH [OF Suc.prems, of "Suc j"] by (auto split: option.split)
  qed
qed simp

lemma resource_dealloc_cong:
  assumes "settled c dl dl'" "count_active (tasks s) \<le> c"
  shows "resource_dealloc dl i s = resource_dealloc dl' i s"
    "resource_dealloc dl i s = Inr s' \<Longrightarrow> count_active (tasks s') \<le> count_active (tasks s)"
proof -
  note l = dealloc_loop_cong [OF assms, of i 0 "num_resources (tasks s ! i)"]
  show "resource_dealloc dl i s = resource_dealloc dl' i s" unfolding resource_dealloc_def l [THEN conjunct1] ..
  have u: "count_active (tasks (upd_task i (\<lambda>t. t\<lparr>resources := None\<rparr>) s1)) = count_active (tasks s1)" for s1 :: "'a sched_scheme"
    by (rule upd_task_count) simp
  assume "resource_dealloc dl i s = Inr s'"
  then obtain s1 where "dealloc_loop dl i 0 (num_resources (tasks s ! i)) s = Inr s1" "s' = upd_task i (\<lambda>t. t\<lparr>resources := None\<rparr>) s1"
    unfolding resource_dealloc_def rbind_eq_Inr by blast
  then show "count_active (tasks s') \<le> count_active (tasks s)" using l u by simp
qed

lemma exit_task_cong:
  assumes "i < length (tasks s)" "active (tasks s ! i)" "count_active (tasks s) \<le> Suc c" "settled c dl dl'"
  shows "exit_task dl i s = exit_task dl' i s \<and> (\<forall>s'. exit_task dl i s = Inr s' \<longrightarrow> count_active (tasks s') < count_active (tasks s))"
proof -
  let ?s = "upd_task i (\<lambda>t. t\<lparr>active := False, pin := False\<rparr>) s"
  have c: "Suc (count_active (tasks ?s)) = count_active (tasks s)"
    using count_active_update [OF assms(1), of "(tasks s ! i)\<lparr>active := False, pin := False\<rparr>"] assms(2) by (simp add: upd_task_def)
  have le: "count_active (tasks ?s) \<le> c" using c assms(3) by simp
  note d = resource_dealloc_cong [OF assms(4) le, of i]
  obtain tl where tl: "\<And>dl. exit_task dl i s = rbind (resource_dealloc dl i ?s) tl" "\<And>s1 s2. tl s1 = Inr s2 \<Longrightarrow> tasks s2 = tasks s1"
    by (rule that, rule exit_task_def) (auto simp: rbind_eq_Inr Let_def split: if_splits)
  have "count_active (tasks s') < count_active (tasks s)" if e: "exit_task dl i s = Inr s'" for s'
  proof -
    obtain s1 where "resource_dealloc dl i ?s = Inr s1" "tl s1 = Inr s'" using e unfolding tl(1) by (auto simp: rbind_eq_Inr)
    then show ?thesis using d(2) [of s1] tl(2) [of s1 s'] c by simp
  qed
  then show ?thesis unfolding tl(1) d(1) by blast
qed

lemma find_pid_active: "find_pid p ts = Some i \<Longrightarrow> 0 < count_active ts"
  using find_pid_Some [of p ts i] count_active_update [of i ts "ts ! i"]
  by (auto simp: count_active_length filter_empty_conv dest: nth_mem)

lemma close_file_tasks: "close_file af k = Inr k' \<Longrightarrow> tasks k' = tasks k"
  by (auto simp: close_file_def rbind_eq_Inr)

lemma dealloc_other:
  assumes "\<And>t i. d = SysThreadKill \<Longrightarrow> p = ThreadPid t \<Longrightarrow> get_task_by_pid t k \<noteq> Some i"
  shows "dealloc_resource out mc (Suc m) d p k = dealloc_resource out' mc (Suc m') d p k"
    "dealloc_resource out mc (Suc m) d p k = Inr k' \<Longrightarrow> tasks k' = tasks k"
  using assms by (cases d; cases p; auto simp: sys_open_dealloc_def rbind_eq_Inr close_file_tasks split: option.splits)+

lemma dealloc_thread:
  "get_task_by_pid t k = Some i \<Longrightarrow> dealloc_resource out mc (Suc m) SysThreadKill (ThreadPid t) k = exit_task (dealloc_resource out mc m) i k"
  by simp

declare dealloc_resource.simps [simp del]

lemma dealloc_settled: "c < n \<Longrightarrow> c < n' \<Longrightarrow> settled c (dealloc_resource out mc n) (dealloc_resource out' mc n')"
proof (induction c arbitrary: n n')
  case 0
  then obtain m m' where n: "n = Suc m" "n' = Suc m'" by (metis gr0_implies_Suc)
  have "get_task_by_pid t k \<noteq> Some i" if "count_active (tasks k) \<le> 0" for t i and k :: "'a kernel"
    using that find_pid_active by (fastforce simp: get_task_by_pid_def)
  then show ?case unfolding settled_def n using dealloc_other by (metis order_refl)
next
  case (Suc c)
  then obtain m m' where n: "n = Suc m" "n' = Suc m'" "c < m" "c < m'" by (metis Suc_lessE)
  show ?case
    unfolding settled_def n
  proof (intro allI impI)
    fix d p and k :: "'a kernel"
    assume le: "count_active (tasks k) \<le> Suc c"
    show "dealloc_resource out mc (Suc m) d p k = dealloc_resource out' mc (Suc m') d p k \<and>
        (\<forall>s'. dealloc_resource out mc (Suc m) d p k = Inr s' \<longrightarrow> count_active (tasks s') \<le> count_active (tasks k))"
    proof (cases "\<exists>t i. d = SysThreadKill \<and> p = ThreadPid t \<and> get_task_by_pid t k = Some i")
      case True
      then obtain t i where i: "d = SysThreadKill" "p = ThreadPid t" "get_task_by_pid t k = Some i" by blast
      have a: "i < length (tasks k)" "active (tasks k ! i)" using find_pid_Some i(3) by (fastforce simp: get_task_by_pid_def)+
      show ?thesis
        unfolding i(1,2) dealloc_thread [OF i(3)] using exit_task_cong [OF a le Suc.IH [OF n(3,4)]] by (meson less_imp_le)
    next
      case False
      then show ?thesis using dealloc_other [of d p k] by (metis order_refl)
    qed
  qed
qed


text \<open>Two tasks that are registered as each other's threads.\<close>

definition thread_pair :: "unit kernel" where
  "thread_pair = \<lparr>tasks =
       [zero_task\<lparr>active := True, pid := 1, resources := Some [(SysThreadKill, ThreadPid 2)], num_resources := 1\<rparr>,
        zero_task\<lparr>active := True, pid := 2, resources := Some [(SysThreadKill, ThreadPid 1)], num_resources := 1\<rparr>],
     current_pid = 3, current_task = 0, last_time_ms = 0, is_scheduler_running = True,
     sc_vm = \<lparr>vm_pmm = full_pmm, vm_mem = (\<lambda>_. 0), kernel_context = 0, vm_tasks = [], cr3 = 0, paging_on = True\<rparr>,
     k_vfs = vfs_boot, k_fs = (), k_files = Map.empty, k_fds = [], k_net = established, k_calls = []\<rparr>"


section \<open>Files through descriptors\<close>

lemma user_simps [simp]:
  "user_path a (k\<lparr>k_fs := w\<rparr>) = user_path a k" "user_bytes a n (k\<lparr>k_fs := w\<rparr>) = user_bytes a n k"
  by (simp_all add: user_path_def user_bytes_def)

lemma sint_descriptor: "0 \<le> i \<Longrightarrow> i < 2 ^ 31 \<Longrightarrow> sint (word_of_int i :: u32) = i"
  by (simp add: int_word_sint)

lemma read_virt_length: "read_virt m pd va n = Inr bs \<Longrightarrow> length bs = n"
  by (induction n arbitrary: va bs) (auto simp: rbind_eq_Inr)

lemma user_string_length: "user_string n v a = Inr bs \<Longrightarrow> length bs < n"
  by (induction n arbitrary: a bs) (auto simp: rbind_eq_Inr split: if_splits)

text \<open>The task's table of resources is consistent, so that a resource can be registered.\<close>

definition resources_ok :: "'z sched_scheme \<Rightarrow> bool" where
  "resources_ok s \<longleftrightarrow> (resources (tasks s ! get_self s) = None \<longrightarrow> num_resources (tasks s ! get_self s) = 0)"

lemma resource_register_self_ok:
  assumes "resources_ok s"
  obtains ts where "resource_register_self r s = Inr (s\<lparr>tasks := ts\<rparr>)"
  using assms by (cases "resources (tasks s ! get_self s)"; cases "resource_put r (the (resources (tasks s ! get_self s)))")
    (auto simp: resource_register_self_def resources_ok_def upd_task_def Let_def)

text \<open>A descriptor that was just given out.\<close>

lemma fd_file_new:
  assumes "file_to_fd (Some a) t = (fd, t')" "length t < 2 ^ 31 - 5"
  shows "5 \<le> fd" "fd < 2 ^ 31" "k_fds k = t' \<Longrightarrow> k_files k a = Some f \<Longrightarrow> fd_file (word_of_int fd) k = Inr (a, f)"
proof -
  obtain i where i: "slot_put (Some a) t = (i, t')" "fd = int i + FD_OFFSET" using assms(1) by (auto simp: file_to_fd_def split: prod.splits)
  have "i \<le> length t" using slot_put_index [of "Some a" t] slot_put_length [of "Some a" t] i(1) by simp
  then show b: "5 \<le> fd" "fd < 2 ^ 31" using i(2) assms(2) by simp_all
  have "fd_to_file fd t' = Inr (Some a)" using file_to_fd_lowest [OF assms(1)] by blast
  then show "k_fds k = t' \<Longrightarrow> k_files k a = Some f \<Longrightarrow> fd_file (word_of_int fd) k = Inr (a, f)"
    using b sint_descriptor [of fd] by (simp add: fd_file_def file_at_def)
qed


text \<open>A task with one page, which holds a path and a buffer, and the temporary file system of the boot sequence.\<close>

definition demo_mem :: mem where
  "demo_mem = foldr (\<lambda>(a, b) m. m(a := b))
     [(0x5000, 0x74), (0x5001, 0x6D), (0x5002, 0x70), (0x5003, COLON), (0x5004, SLASH), (0x5005, 0x61), (0x5100, 7), (0x5101, 8)]
     (st32 (st32 (\<lambda>_. 0) 0x1000 0x2003) 0x2014 0x5003)"

definition demo_vm :: vm where
  "demo_vm = \<lparr>vm_pmm = full_pmm, vm_mem = demo_mem, kernel_context = 0, vm_tasks = [], cr3 = 0x1000, paging_on = True\<rparr>"

definition demo_kernel :: "fs_world kernel" where
  "demo_kernel = \<lparr>tasks = [zero_task\<lparr>active := True, pid := 1\<rparr>], current_pid = 2, current_task = 0, last_time_ms = 0,
     is_scheduler_running = True, sc_vm = demo_vm,
     k_vfs = vfs_mount (ramfs_mount KeyX (\<lambda>_. 0xCC) 0 [0x74, 0x6D, 0x70]) (vfs_mount (initrd_mount 0x100000) vfs_boot),
     k_fs = \<lparr>w_ramfs = (\<lambda>_. get_ramfs), w_mem = (\<lambda>_. 0)\<rparr>, k_files = Map.empty, k_fds = [], k_net = established, k_calls = []\<rparr>"

definition demo_machine :: machine where
  "demo_machine = \<lparr>mc_key = KeyX, mc_page = 0x9000, mc_time = 0, mc_time_ms = 0, mc_term = 0, mc_getc = 0, mc_getarrw = 0, mc_vmode = 0,
     mc_vpeek = (\<lambda>_ _ n. replicate (unat n) 0), mc_vcursor = (\<lambda>_. (0, 0)), mc_mouse = replicate 12 0, mc_frame = 0, mc_loc = 0, mc_env_arp = [], mc_env = [], mc_dns = (\<lambda>_. ([], []))\<rparr>"

definition demo_regs :: cpu_registers where
  "demo_regs = \<lparr>reg_gs = 0, reg_fs = 0, reg_es = 0x23, reg_ds = 0x23, reg_eax = 1, reg_ebx = 0x5000, reg_ecx = 2, reg_edx = 0, reg_esi = 0,
     reg_edi = 0, reg_ebp = 0, reg_intr = 0x30, reg_error = 0, reg_eip = 0, reg_cs = 0x1B, reg_eflags = 0x202, reg_esp = 0, reg_ss = 0x23\<rparr>"

lemma demo_memory:
  "user_string 1024 demo_vm 0x5000 = Inr [0x74, 0x6D, 0x70, COLON, SLASH, 0x61]" "read_virt demo_mem 0x1000 0x5100 2 = Inr [7, 8]"
  by code_simp+


theorem syscall_dispatch_witness:
  "\<exists>t. init_syscalls = Inr t \<and> syscall_handler t demo_machine demo_regs demo_kernel =
     Some (sys_open demo_machine demo_regs demo_kernel) \<and>
     syscall_handler t demo_machine (demo_regs\<lparr>reg_eax := 25\<rparr>) demo_kernel = Some (Inl Uninitialised)"
proof -
  obtain t where t: "init_syscalls = Inr t" "\<And>mc r (k :: fs_world kernel). unat (reg_eax r) < 1024 \<Longrightarrow> syscall_handler t mc r k =
      (case map_of syscall_ids (unat (reg_eax r)) of None \<Rightarrow> Some (Inl Uninitialised) | Some c \<Rightarrow> run_syscall c mc r k)"
    using syscall_dispatch [where ?'w = fs_world] by blast
  show ?thesis
    by (intro exI [of _ t]) (use t(1) in \<open>simp add: t(2) demo_regs_def, simp add: syscall_ids_def run_syscall_def\<close>)
qed

text \<open>
  Closing does not give the descriptor back: it still leads to the address of the freed structure, and using it again is an access
  to freed memory; a later \<open>sys_open\<close> does not reuse it.
\<close>

lemma sys_close_keeps_descriptor:
  assumes "fd_file (reg_ebx r) k = Inr (a, f)" "sys_close mc r k = Inr (Regs r', k')"
  shows "k_fds k' = k_fds k" "fd_file (reg_ebx r) k' = Inl OutOfBounds"
proof -
  obtain w k1 where k: "vfs_close f (k_vfs k) (k_fs k) = Inr w" "resource_unregister_self (FilePtr a) (k\<lparr>k_fs := w, k_files := (k_files k)(a := None)\<rparr>) = Inr k1" "k' = k1"
    using assms by (auto simp: sys_close_def close_file_def sys_done_def rbind_eq_Inr)
  then have e: "k_fds k' = k_fds k" "k_files k' = (k_files k)(a := None)"
    by (auto simp: resource_unregister_self_def Let_def upd_task_def split: option.splits if_splits)
  then show "k_fds k' = k_fds k" by simp
  have "fd_to_file (sint (reg_ebx r)) (k_fds k) = Inr (Some a)"
    using assms(1) by (auto simp: fd_file_def file_at_def rbind_eq_Inr split: option.splits)
  then show "fd_file (reg_ebx r) k' = Inl OutOfBounds" using e by (simp add: fd_file_def file_at_def)
qed

text \<open>
  C34. Paths on a drive that is not mounted, or without a drive. \<open>sys_open\<close> and \<open>sys_spawn\<close> report the failure with \<open>-1\<close> in a register and change nothing
  else. The other calls on paths do not test for it: they call through the null pointer in the kernel.
\<close>

theorem sys_drive_missing:
  assumes "user_path (reg_ebx r) k = Inr path" "path \<noteq> []"
    and "COLON \<notin> set path \<or> (\<forall>m \<in> set (vfs_mounts (k_vfs k)). m_name m \<noteq> fst (cut_until COLON path))"
  shows "sys_open mc r k = Inr (Regs (r\<lparr>reg_edx := - 1\<rparr>), k) \<and> sys_spawn mc r k = Some (Inr (Regs (r\<lparr>reg_esi := - 1\<rparr>), k)) \<and> sys_touch mc r k = Inl NullDeref \<and> sys_mkdir mc r k = Inl NullDeref \<and>
    sys_dir_at mc r k = Inl NullDeref \<and> sys_delete_dir mc r k = Inl NullDeref"
proof -
  have "length path < 1024" using user_string_length assms(1) by (simp add: user_path_def)
  then have "vfs_route path (k_vfs k) = Inr None"
    using assms(2,3) find_mount_none [of "vfs_mounts (k_vfs k)" "fst (cut_until COLON path)" 0] unfolding vfs_route_def by auto
  note e = vfs_no_mount [OF this]
  show ?thesis
    using assms(1) by (simp add: e sys_open_def sys_spawn_def sys_touch_def sys_mkdir_def sys_dir_at_def sys_delete_dir_def sys_done_def)
qed

theorem sys_drive_missing_witness:
  "sys_open demo_machine demo_regs (demo_kernel\<lparr>k_vfs := vfs_boot\<rparr>) = Inr (Regs (demo_regs\<lparr>reg_edx := - 1\<rparr>), demo_kernel\<lparr>k_vfs := vfs_boot\<rparr>) \<and>
   sys_touch demo_machine demo_regs (demo_kernel\<lparr>k_vfs := vfs_boot\<rparr>) = Inl NullDeref"
proof -
  have "user_path (reg_ebx demo_regs) (demo_kernel\<lparr>k_vfs := vfs_boot\<rparr>) = Inr [0x74, 0x6D, 0x70, COLON, SLASH, 0x61]"
    using demo_memory(1) by (simp add: user_path_def demo_regs_def demo_kernel_def)
  from sys_drive_missing [OF this, of demo_machine] show ?thesis by (simp add: vfs_boot_def)
qed

text \<open>
  A file that is not a program: \<open>init_elf\<close> reports it with \<open>-1\<close>, and \<open>sys_spawn\<close> takes that for the number of a task and copies the working directory through
  the null pointer in the kernel.
\<close>

lemma sys_spawn_not_elf:
  assumes "user_path (reg_ebx r) k = Inr path" "vfs_open path 0 (k_vfs k) (k_fs k) = Inr (Some f, w)"
    and "vmm_alloc (mc_key mc) (f_size f div 4096 + 1) (sc_view k) = Inr (buffer, v)"
    and "vfs_read f (f_size f) 0 (k_vfs k) w = Inr bs" "4 \<le> length bs" "length bs \<le> 2 ^ 32" "take 4 bs \<noteq> [0x7F, 0x45, 0x4C, 0x46]"
    and "vmm_free buffer (f_size f div 4096 + 1) (v\<lparr>vm_mem := store_bytes (vm_mem v) buffer bs\<rparr>) = Inr v'" "vfs_close f (k_vfs k) w = Inr w'"
    and "get_task_by_pid (- 1) k = None"
  shows "sys_spawn mc r k = Some (Inl NullDeref)"
proof -
  let ?m = "store_bytes (vm_mem v) buffer bs"
  have "load_bytes ?m buffer (length bs) = bs" using load_store_bytes assms(6) by blast
  moreover have "load_bytes ?m buffer (length bs) = load_bytes ?m buffer 4 @ load_bytes ?m (buffer + 4) (length bs - 4)"
    using load_bytes_add [of ?m buffer 4 "length bs - 4"] assms(5) by simp
  ultimately have "load_bytes ?m buffer 4 = take 4 bs" by (metis append_eq_conv_conj length_load_bytes)
  have "ld32 ?m buffer \<noteq> 0x464C457F"
  proof
    assume "ld32 ?m buffer = 0x464C457F"
    then have "bytes_of_u32 (ld32 ?m buffer) = [0x7F, 0x45, 0x4C, 0x46]" by (simp add: bytes_of_u32_def)
    moreover have "bytes_of_u32 (ld32 ?m buffer) = load_bytes ?m buffer 4" by (rule bytes_of_ld32)
    ultimately show False using \<open>load_bytes ?m buffer 4 = take 4 bs\<close> assms(7) by simp
  qed
  moreover have "get_task_by_pid (- 1) (k\<lparr>k_fs := a, sc_vm := b\<rparr>) = None" for a b using assms(10) by (simp add: get_task_by_pid_def)
  ultimately show ?thesis
    using assms by (simp add: sys_spawn_def on_vm_def Let_def poke_def init_elf_def copy_pwd_def get_task_by_pid_def sc_view_def)
qed

end
