(* ===== verification/Interrupts.thy ===== *)
theory Interrupts
  imports Syscalls
begin

text \<open>
  Interrupts: the descriptor tables (\<open>mckrnl/interrupts/gdt.c\<close>, \<open>initial_gdt.c\<close>), the interrupt gates, the interrupt controller and the
  dispatch (\<open>interrupts.c\<close>), the handlers the kernel registers (\<open>killer.c\<close>, \<open>syscalls.c\<close>, \<open>vmm.c\<close>, \<open>pit.c\<close>), and what the processor and
  \<open>interrupts_stub.S\<close> do around \<open>handle_interrupt\<close> for an interrupt of a program. The saved registers are in the memory, at the address that
  \<open>registers\<close> of a task has. Addresses of the assembly stubs and the handlers of the other drivers are arguments. The configuration is
  the one without \<open>SMP\<close>.
\<close>

section \<open>Segment descriptors\<close>

definition gdt_entry :: "u32 \<Rightarrow> u32 \<Rightarrow> u32 \<Rightarrow> u64" where
  "gdt_entry base limit flags =
     (ucast limit AND 0xffff) OR push_bit 16 (ucast base AND 0xffffff) OR push_bit 40 (ucast flags AND 0xff) OR
     push_bit 48 (ucast (drop_bit 16 limit) AND 0xf) OR push_bit 52 (ucast (drop_bit 8 flags) AND 0xff) OR
     push_bit 56 (ucast (drop_bit 24 base) AND 0xff)"

definition gdt_set_entry :: "u32 \<Rightarrow> u32 \<Rightarrow> u32 \<Rightarrow> u32 \<Rightarrow> u32 \<Rightarrow> mem \<Rightarrow> mem" where
  "gdt_set_entry gdt i base limit flags m = st64 m (gdt + 8 * i) (gdt_entry base limit flags)"

abbreviation GDT_FLAG_DATASEG :: u32 where "GDT_FLAG_DATASEG \<equiv> 0x02"
abbreviation GDT_FLAG_CODESEG :: u32 where "GDT_FLAG_CODESEG \<equiv> 0x0a"
abbreviation GDT_FLAG_TSS :: u32 where "GDT_FLAG_TSS \<equiv> 0x09"
abbreviation GDT_FLAG_SEGMENT :: u32 where "GDT_FLAG_SEGMENT \<equiv> 0x10"
abbreviation GDT_FLAG_RING3 :: u32 where "GDT_FLAG_RING3 \<equiv> 0x60"
abbreviation GDT_FLAG_PRESENT :: u32 where "GDT_FLAG_PRESENT \<equiv> 0x80"
abbreviation GDT_FLAG_4K :: u32 where "GDT_FLAG_4K \<equiv> 0x800"
abbreviation GDT_FLAG_32_BIT :: u32 where "GDT_FLAG_32_BIT \<equiv> 0x400"

text \<open>The entries of both tables: the empty one, code and data of the kernel and of programs, and the task state segment.\<close>

definition gdt_entries :: "u32 \<Rightarrow> u32 \<Rightarrow> mem \<Rightarrow> mem" where
  "gdt_entries gdt tss m =
     gdt_set_entry gdt 5 tss (4 * 32) (GDT_FLAG_TSS OR GDT_FLAG_PRESENT OR GDT_FLAG_RING3)
    (gdt_set_entry gdt 4 0 0xfffff (GDT_FLAG_SEGMENT OR GDT_FLAG_32_BIT OR GDT_FLAG_DATASEG OR GDT_FLAG_4K OR GDT_FLAG_PRESENT OR GDT_FLAG_RING3)
    (gdt_set_entry gdt 3 0 0xfffff (GDT_FLAG_SEGMENT OR GDT_FLAG_32_BIT OR GDT_FLAG_CODESEG OR GDT_FLAG_4K OR GDT_FLAG_PRESENT OR GDT_FLAG_RING3)
    (gdt_set_entry gdt 2 0 0xfffff (GDT_FLAG_SEGMENT OR GDT_FLAG_32_BIT OR GDT_FLAG_DATASEG OR GDT_FLAG_4K OR GDT_FLAG_PRESENT)
    (gdt_set_entry gdt 1 0 0xfffff (GDT_FLAG_SEGMENT OR GDT_FLAG_32_BIT OR GDT_FLAG_CODESEG OR GDT_FLAG_4K OR GDT_FLAG_PRESENT)
    (gdt_set_entry gdt 0 0 0 0 m)))))"

section \<open>State\<close>

text \<open>
  The functions registered as handlers. \<open>DeviceIrq d\<close> is the handler of a driver that is not modelled here. The memory of the
  debugger's state is that of the kernel.
\<close>

datatype irq_handler = Killer killer | PageFaultHandler | SyscallHandler | PitIrq | DeviceIrq nat

record 'w cpu =
  c_kernel :: "'w kernel"
  interrupt_handlers :: "irq_handler option list"
  interrupt_handlers_special_data :: "u32 list"
  idt :: "u64 list"
  gdtr :: u32
  outbs :: "(u16 \<times> u8) list"
  pit_ticks :: u32
  gdb_active :: bool
  c_gdb :: gdb
  c_syscalls :: sys_table

abbreviation IDT_ENTRIES :: nat where "IDT_ENTRIES \<equiv> 256"

definition kmem :: "'w cpu \<Rightarrow> mem" where
  "kmem c = vm_mem (sc_vm (c_kernel c))"

definition on_kmem :: "(mem \<Rightarrow> mem) \<Rightarrow> 'w cpu \<Rightarrow> 'w cpu" where
  "on_kmem f c = c\<lparr>c_kernel := poke f (c_kernel c)\<rparr>"

definition outb :: "u16 \<Rightarrow> u8 \<Rightarrow> 'w cpu \<Rightarrow> 'w cpu" where
  "outb p b c = c\<lparr>outbs := outbs c @ [(p, b)]\<rparr>"

definition init_initial_gdt :: "u32 \<Rightarrow> u32 \<Rightarrow> 'w cpu \<Rightarrow> 'w cpu" where
  "init_initial_gdt gdt tss c = (on_kmem (gdt_entries gdt tss) c)\<lparr>gdtr := gdt\<rparr>"

definition new_gdt :: "panic_key \<Rightarrow> 'w cpu \<Rightarrow> (u32 \<times> 'w cpu) res" where
  "new_gdt k c =
     rbind (on_vm (vmm_alloc k 1) (c_kernel c)) (\<lambda>(gdt, k1).
     rbind (on_vm (vmm_alloc k 1) k1) (\<lambda>(tss, k2).
     Inr (gdt, on_kmem (\<lambda>m. gdt_entries gdt tss (store_words m tss [0, 0, 0x10])) (c\<lparr>c_kernel := k2\<rparr>))))"

definition set_gdt :: "u32 \<Rightarrow> 'w cpu \<Rightarrow> 'w cpu" where
  "set_gdt gdt c = c\<lparr>gdtr := gdt\<rparr>"

text \<open>\<open>set_tss\<close> takes 24 bits of the base from the descriptor.\<close>

definition set_tss :: "u32 \<Rightarrow> u32 \<Rightarrow> 'w cpu \<Rightarrow> 'w cpu" where
  "set_tss i val c =
     (let tss = ucast (drop_bit 16 (ld64 (kmem c) (gdtr c + 8 * 5)) AND 0xffffff)
      in on_kmem (\<lambda>m. st32 m (tss + 4 * i) val) c)"

section \<open>Gates and controller\<close>

definition idt_entry :: "u32 \<Rightarrow> u32 \<Rightarrow> u32 \<Rightarrow> u64" where
  "idt_entry handler selector flags =
     (ucast handler AND 0xffff) OR push_bit 16 (ucast selector AND 0xffff) OR push_bit 40 (ucast flags AND 0xff) OR
     push_bit 48 (ucast (drop_bit 16 handler) AND 0xffff)"

definition idt_set_entry :: "nat \<Rightarrow> u32 \<Rightarrow> u32 \<Rightarrow> u32 \<Rightarrow> 'w cpu \<Rightarrow> 'w cpu" where
  "idt_set_entry i handler selector flags c = c\<lparr>idt := (idt c)[i := idt_entry handler selector flags]\<rparr>"

definition pic_writes :: "(u16 \<times> u8) list" where
  "pic_writes = [(0x20, 0x11), (0x21, 0x20), (0x21, 0x04), (0x21, 0x01), (0xa0, 0x11), (0xa1, 0x28), (0xa1, 0x02), (0xa1, 0x01), (0x21, 0x0), (0xa1, 0x0)]"

definition init_pic :: "'w cpu \<Rightarrow> 'w cpu" where
  "init_pic c = fold (\<lambda>(p, b). outb p b) pic_writes c"

abbreviation IDT_FLAG_INTERRUPT_GATE :: u32 where "IDT_FLAG_INTERRUPT_GATE \<equiv> 0xe"
abbreviation IDT_FLAG_PRESENT :: u32 where "IDT_FLAG_PRESENT \<equiv> 0x80"
abbreviation IDT_FLAG_RING0 :: u32 where "IDT_FLAG_RING0 \<equiv> 0x00"
abbreviation IDT_FLAG_RING3 :: u32 where "IDT_FLAG_RING3 \<equiv> 0x60"

text \<open>The gates in the order in which they are set, with their rings.\<close>

definition gates :: "(nat \<times> u32) list" where
  "gates = map (\<lambda>i. (i, IDT_FLAG_RING0)) ([0..<19] @ [32..<48]) @ [(48, IDT_FLAG_RING3), (255, IDT_FLAG_RING0)]"

text \<open>\<open>stub i\<close> is the address of \<open>intr_stub_i\<close>.\<close>

definition init_interrupts :: "(nat \<Rightarrow> u32) \<Rightarrow> 'w cpu \<Rightarrow> 'w cpu" where
  "init_interrupts stub c =
     fold (\<lambda>(i, ring). idt_set_entry i (stub i) 0x8 (IDT_FLAG_INTERRUPT_GATE OR ring OR IDT_FLAG_PRESENT)) gates (init_pic c)"

section \<open>Handlers\<close>

definition register_interrupt_handler :: "u8 \<Rightarrow> irq_handler \<Rightarrow> u32 \<Rightarrow> 'w cpu \<Rightarrow> 'w cpu" where
  "register_interrupt_handler n h data c =
     c\<lparr>interrupt_handlers := (interrupt_handlers c)[unat n := Some h],
       interrupt_handlers_special_data := (interrupt_handlers_special_data c)[unat n := data]\<rparr>"

definition init_killer :: "'w cpu \<Rightarrow> 'w cpu" where
  "init_killer c = fold (\<lambda>(n, h). register_interrupt_handler n (Killer h) NULL) killers c"

definition pit_set_divisor :: "u16 \<Rightarrow> 'w cpu \<Rightarrow> 'w cpu" where
  "pit_set_divisor divisor c =
     outb 0x40 (ucast (drop_bit 8 (divisor AND 0xff00))) (outb 0x40 (ucast (divisor AND 0x00ff)) (outb 0x43 0x36 c))"

definition pit_init :: "u32 \<Rightarrow> 'w cpu \<Rightarrow> 'w cpu" where
  "pit_init driver c = pit_set_divisor 5965 (register_interrupt_handler 0x20 PitIrq driver c)"

definition pit_time_ms :: "u32 \<Rightarrow> u64" where
  "pit_time_ms n = ucast n * 1000 div (1193182 div 5965)"

text \<open>The words of \<open>cpu_registers_t\<close>.\<close>

definition frame_words :: "cpu_registers \<Rightarrow> u32 list" where
  "frame_words r = [reg_gs r, reg_fs r, reg_es r, reg_ds r, reg_eax r, reg_ebx r, reg_ecx r, reg_edx r, reg_esi r, reg_edi r, reg_ebp r,
     reg_intr r, reg_error r, reg_eip r, reg_cs r, reg_eflags r, reg_esp r, reg_ss r]"

definition load_frame :: "mem \<Rightarrow> u32 \<Rightarrow> cpu_registers" where
  "load_frame m f = \<lparr>reg_gs = ld32 m f, reg_fs = ld32 m (f + 4), reg_es = ld32 m (f + 8), reg_ds = ld32 m (f + 12), reg_eax = ld32 m (f + 16),
     reg_ebx = ld32 m (f + 20), reg_ecx = ld32 m (f + 24), reg_edx = ld32 m (f + 28), reg_esi = ld32 m (f + 32), reg_edi = ld32 m (f + 36),
     reg_ebp = ld32 m (f + 40), reg_intr = ld32 m (f + 44), reg_error = ld32 m (f + 48), reg_eip = ld32 m (f + 52), reg_cs = ld32 m (f + 56),
     reg_eflags = ld32 m (f + 60), reg_esp = ld32 m (f + 64), reg_ss = ld32 m (f + 68)\<rparr>"

definition store_frame :: "u32 \<Rightarrow> cpu_registers \<Rightarrow> mem \<Rightarrow> mem" where
  "store_frame f r m = store_words m f (frame_words r)"

text \<open>
  What the machine adds: what a call gets from outside (\<open>Syscalls.machine\<close>), the handlers of the other drivers, the sound driver's callback
  when there is one, and the uninitialised buffers of the debugger stub.
\<close>

record 'w devices =
  dv_machine :: machine
  dv_irq :: "nat \<Rightarrow> u32 \<Rightarrow> 'w kernel \<Rightarrow> (u32 \<times> 'w kernel) res"
  dv_sound :: "('w kernel \<Rightarrow> 'w kernel res) option"
  dv_junk :: "u8 list"
  dv_pkt_buf :: "u8 list"

definition run_schedule :: "machine \<Rightarrow> u32 \<Rightarrow> 'w cpu \<Rightarrow> (u32 \<times> 'w cpu) res" where
  "run_schedule mc f c =
     rbind (schedule (mc_key mc) True (mc_term mc) (mc_time_ms mc) f (c_kernel c)) (\<lambda>(f', k). Inr (f', c\<lparr>c_kernel := k\<rparr>))"

definition pit_interrupt_handler :: "'w devices \<Rightarrow> u32 \<Rightarrow> 'w cpu \<Rightarrow> (u32 \<times> 'w cpu) res" where
  "pit_interrupt_handler dv f c =
     rbind (case dv_sound dv of None \<Rightarrow> Inr (c_kernel c) | Some g \<Rightarrow> g (c_kernel c)) (\<lambda>k.
     run_schedule (dv_machine dv) f (c\<lparr>pit_ticks := pit_ticks c + 1, c_kernel := k\<rparr>))"

text \<open>A system call works on the registers in the frame, and returns that frame or another one.\<close>

definition syscall_interrupt :: "'w devices \<Rightarrow> u32 \<Rightarrow> 'w cpu \<Rightarrow> (u32 \<times> 'w cpu) res option" where
  "syscall_interrupt dv f c =
     lbind (syscall_handler (c_syscalls c) ((dv_machine dv)\<lparr>mc_frame := f\<rparr>) (load_frame (kmem c) f) (c_kernel c)) (\<lambda>(ret, k).
     case ret of
       Regs r \<Rightarrow> Some (Inr (f, on_kmem (store_frame f r) (c\<lparr>c_kernel := k\<rparr>)))
     | Frame f' \<Rightarrow> Some (Inr (f', c\<lparr>c_kernel := k\<rparr>)))"

definition run_handler :: "'w devices \<Rightarrow> irq_handler \<Rightarrow> u32 \<Rightarrow> 'w cpu \<Rightarrow> (u32 \<times> 'w cpu) res option" where
  "run_handler dv h f c = (case h of
       Killer x \<Rightarrow> Some (rbind (kill x (dealloc (dv_machine dv)) (c_kernel c)) (\<lambda>k. Inr (f, c\<lparr>c_kernel := k\<rparr>)))
     | PageFaultHandler \<Rightarrow> Some (Inl Halted)
     | SyscallHandler \<Rightarrow> syscall_interrupt dv f c
     | PitIrq \<Rightarrow> Some (pit_interrupt_handler dv f c)
     | DeviceIrq d \<Rightarrow> Some (rbind (dv_irq dv d f (c_kernel c)) (\<lambda>(f', k). Inr (f', c\<lparr>c_kernel := k\<rparr>))))"

section \<open>Dispatch\<close>

text \<open>The call of a registered handler, if there is one, and the new kernel stack for the next interrupt.\<close>

definition call_handler :: "'w devices \<Rightarrow> irq_handler \<Rightarrow> u32 \<Rightarrow> 'w cpu \<Rightarrow> (u32 \<times> 'w cpu) res option" where
  "call_handler dv h f c = lbind (run_handler dv h f c) (\<lambda>(f', c'). Some (Inr (f', set_tss 1 (f' + 72) c')))"

definition call_registered :: "'w devices \<Rightarrow> nat \<Rightarrow> u32 \<Rightarrow> 'w cpu \<Rightarrow> (u32 \<times> 'w cpu) res option" where
  "call_registered dv n f c =
     (if n \<ge> length (interrupt_handlers c) then Some (Inl OutOfBounds)
      else case interrupt_handlers c ! n of None \<Rightarrow> Some (Inr (f, c)) | Some h \<Rightarrow> call_handler dv h f c)"

definition gdb_trap :: "'w devices \<Rightarrow> u32 \<Rightarrow> 'w cpu \<Rightarrow> (u32 \<times> 'w cpu) res option" where
  "gdb_trap dv f c =
     lbind (gdb_interrupt (dv_junk dv) (dv_pkt_buf dv) (load_frame (kmem c) f) ((c_gdb c)\<lparr>g_mem := kmem c\<rparr>)) (\<lambda>(r, g).
     Some (Inr (f, on_kmem (\<lambda>_. store_frame f r (g_mem g)) (c\<lparr>c_gdb := g\<rparr>))))"

definition send_eoi :: "nat \<Rightarrow> 'w cpu \<Rightarrow> 'w cpu" where
  "send_eoi n c = outb 0x20 0x20 (if n \<ge> 0x28 then outb 0xa0 0x20 c else c)"

definition handle_interrupt :: "'w devices \<Rightarrow> u32 \<Rightarrow> 'w cpu \<Rightarrow> (u32 \<times> 'w cpu) res option" where
  "handle_interrupt dv f c =
     (let n = unat (ld32 (kmem c) (f + 44)) in
      if n = 0xff then Some (Inl Halted)
      else if (n = 1 \<or> n = 3) \<and> gdb_active c then gdb_trap dv f c
      else if n \<le> 0x1f then
        (case interrupt_handlers c ! n of
           Some h \<Rightarrow> call_handler dv h f c
         | None \<Rightarrow> Some (rbind (abortf (mc_key (dv_machine dv))) (\<lambda>_. Inr (f, c))))
      else if n \<le> 0x2f then
        lbind (call_registered dv n f c) (\<lambda>(f', c'). Some (Inr (f', send_eoi n c')))
      else
        lbind (call_registered dv n f c) (\<lambda>(f', c').
          if \<not> active (tasks (c_kernel c') ! get_self (c_kernel c')) then Some (run_schedule (dv_machine dv) f' c')
          else Some (Inr (f', c'))))"

text \<open>
  An interrupt while a program runs with the registers \<open>r\<close>. The processor takes the kernel's stack from the task state segment and
  \<open>intr_common_handler\<close> saves the registers there; afterwards it loads those at the address that \<open>handle_interrupt\<close> returns.
\<close>

definition tss_base :: "'w cpu \<Rightarrow> u32" where
  "tss_base c = (let d = ld64 (kmem c) (gdtr c + 8 * 5) in
     ucast (drop_bit 16 d AND 0xffffff) OR push_bit 24 (ucast (drop_bit 56 d)))"

definition esp0 :: "'w cpu \<Rightarrow> u32" where
  "esp0 c = ld32 (kmem c) (tss_base c + 4)"

definition user_interrupt :: "'w devices \<Rightarrow> cpu_registers \<Rightarrow> 'w cpu \<Rightarrow> (cpu_registers \<times> 'w cpu) res option" where
  "user_interrupt dv r c =
     (let f = esp0 c - 72 in
      lbind (handle_interrupt dv f (on_kmem (store_frame f r) c)) (\<lambda>(f', c'). Some (Inr (load_frame (kmem c') f', c'))))"

section \<open>Saved registers\<close>

lemma load_store_frame [simp, mem_simps]: "load_frame (store_frame f r m) f = r"
proof -
  have w: "ld32 (store_frame f r m) (f + 4 * of_nat i) = frame_words r ! i" if "i < 18" for i
    unfolding store_frame_def by (rule ld32_store_words) (use that in \<open>simp_all add: frame_words_def\<close>)
  show ?thesis
    using w [of 0] w [of 1] w [of 2] w [of 3] w [of 4] w [of 5] w [of 6] w [of 7] w [of 8] w [of 9] w [of 10] w [of 11] w [of 12] w [of 13]
      w [of 14] w [of 15] w [of 16] w [of 17]
    by (cases r) (simp add: load_frame_def frame_words_def)
qed

lemma load_frame_cong:
  assumes "\<And>x. x \<in> range_of f 72 \<Longrightarrow> m x = m' x"
  shows "load_frame m f = load_frame m' f"
proof -
  have w: "ld32 m (f + of_nat i) = ld32 m' (f + of_nat i)" if "i + 4 \<le> 72" for i
    by (rule ld32_cong) (use assms range_of_part [of i 4 72 f] that in auto)
  show ?thesis
    using w [of 0] w [of 4] w [of 8] w [of 12] w [of 16] w [of 20] w [of 24] w [of 28] w [of 32] w [of 36] w [of 40] w [of 44] w [of 48] w [of 52]
      w [of 56] w [of 60] w [of 64] w [of 68]
    by (simp add: load_frame_def)
qed

lemma store_frame_outside [mem_simps]: "x \<notin> range_of f 72 \<Longrightarrow> store_frame f r m x = m x"
  unfolding store_frame_def by (rule store_words_outside) (simp add: frame_words_def)

lemma load_store_frame_other [mem_simps]: "range_of g 72 \<inter> range_of f 72 = {} \<Longrightarrow> load_frame (store_frame f r m) g = load_frame m g"
  by (intro load_frame_cong store_frame_outside) blast

lemma store_frame_intr: "ld32 (store_frame f r m) (f + 44) = reg_intr r"
  using arg_cong [OF load_store_frame [of f r m], of reg_intr] by (simp add: load_frame_def)

section \<open>The task state segment\<close>

lemma kmem_simps [simp]:
  "kmem (on_kmem g c) = g (kmem c)" "gdtr (on_kmem g c) = gdtr c" "interrupt_handlers (on_kmem g c) = interrupt_handlers c"
  "kmem (outb p b c) = kmem c" "c_kernel (outb p b c) = c_kernel c" "gdtr (outb p b c) = gdtr c"
  "tasks (c_kernel (on_kmem g c)) = tasks (c_kernel c)" "current_task (c_kernel (on_kmem g c)) = current_task (c_kernel c)"
  "is_scheduler_running (c_kernel (on_kmem g c)) = is_scheduler_running (c_kernel c)" "gdb_active (on_kmem g c) = gdb_active c"
  "outbs (on_kmem g c) = outbs c" "last_time_ms (c_kernel (on_kmem g c)) = last_time_ms (c_kernel c)"
  by (simp_all add: kmem_def on_kmem_def outb_def poke_def)

text \<open>The 24 bits that \<open>set_tss\<close> takes are the whole base when the segment is in the first 16 megabytes.\<close>

lemma tss_low:
  assumes "tss_base c < 2 ^ 24"
  shows "ucast (drop_bit 16 (ld64 (kmem c) (gdtr c + 40)) AND 0xffffff) = tss_base c"
proof -
  have m: "(0xffffff :: u64) = mask 24" by (simp add: mask_eq_exp_minus_1)
  have "take_bit 24 (tss_base c) = tss_base c" using assms by (simp add: less_mask_eq take_bit_eq_mask word_less_nat_alt)
  moreover have "take_bit 24 (tss_base c) = ucast (drop_bit 16 (ld64 (kmem c) (gdtr c + 40)) AND 0xffffff)"
    unfolding tss_base_def Let_def m by (rule bit_word_eqI) (auto simp: bit_simps)
  ultimately show ?thesis by simp
qed

lemma set_tss_low: "tss_base c < 2 ^ 24 \<Longrightarrow> set_tss i v c = on_kmem (\<lambda>m. st32 m (tss_base c + 4 * i) v) c"
  unfolding set_tss_def Let_def by (simp add: tss_low)

text \<open>The base in a descriptor. The upper bits of \<open>flags\<close>, which no entry has, would overlap it.\<close>

lemma gdt_entry_base:
  "take_bit 12 flags = flags \<Longrightarrow>
   ucast (drop_bit 16 (gdt_entry base limit flags) AND 0xffffff) OR push_bit 24 (ucast (drop_bit 56 (gdt_entry base limit flags))) = base"
  "ucast (drop_bit 16 (gdt_entry base limit flags) AND 0xffffff) = base AND 0xffffff"
proof -
  have m: "(0xffffff :: u64) = mask 24" "(0xffffff :: u32) = mask 24" "(0xffff :: u64) = mask 16" "(0xff :: u64) = mask 8" "(0xf :: u64) = mask 4"
    by (simp_all add: mask_eq_exp_minus_1)
  show "ucast (drop_bit 16 (gdt_entry base limit flags) AND 0xffffff) OR push_bit 24 (ucast (drop_bit 56 (gdt_entry base limit flags))) = base"
    if "take_bit 12 flags = flags"
  proof -
    have "\<not> bit flags n" if "12 \<le> n" for n using \<open>take_bit 12 flags = flags\<close> that by (metis bit_take_bit_iff not_less)
    then show ?thesis unfolding gdt_entry_def m by (intro bit_word_eqI) (auto simp: bit_simps)
  qed
  show "ucast (drop_bit 16 (gdt_entry base limit flags) AND 0xffffff) = base AND 0xffffff"
    unfolding gdt_entry_def m by (rule bit_word_eqI) (auto simp: bit_simps)
qed

lemma tss_base_set:
  "gdtr c = gdt \<Longrightarrow> kmem c = gdt_entries gdt tss m \<Longrightarrow> tss_base c = tss"
  by (simp add: tss_base_def Let_def gdt_entries_def gdt_set_entry_def gdt_entry_base(1))

text \<open>After both set-ups the processor's segment is the one of the table; \<open>set_tss\<close> writes to its address modulo 16 megabytes.\<close>

lemma init_initial_gdt_tss: "tss_base (init_initial_gdt gdt tss c) = tss"
  by (rule tss_base_set [of _ gdt _ "kmem c"]) (simp_all add: init_initial_gdt_def kmem_def on_kmem_def poke_def)

lemma new_gdt_tss:
  assumes "new_gdt k c = Inr (gdt, c')"
  obtains k1 tss k2 where "on_vm (vmm_alloc k 1) (c_kernel c) = Inr (gdt, k1)" "on_vm (vmm_alloc k 1) k1 = Inr (tss, k2)"
    "tss_base (set_gdt gdt c') = tss"
  using assms
  by (auto simp: new_gdt_def rbind_eq_Inr set_gdt_def intro!: that tss_base_set simp: kmem_def on_kmem_def poke_def)

lemma set_tss_wraps:
  assumes "gdtr c = gdt" "kmem c = gdt_entries gdt tss m"
  shows "kmem (set_tss i v c) = st32 (kmem c) ((tss AND 0xffffff) + 4 * i) v"
  using assms by (simp add: set_tss_def gdt_entries_def gdt_set_entry_def gdt_entry_base(2))

section \<open>Which gates a program may use\<close>

definition gate_offset :: "u64 \<Rightarrow> u32" where
  "gate_offset e = ucast (e AND 0xffff) OR push_bit 16 (ucast (drop_bit 48 e))"

definition gate_selector :: "u64 \<Rightarrow> u16" where
  "gate_selector e = ucast (drop_bit 16 e)"

definition gate_present :: "u64 \<Rightarrow> bool" where
  "gate_present e = bit e 47"

definition gate_dpl :: "u64 \<Rightarrow> u64" where
  "gate_dpl e = drop_bit 45 e AND 3"

lemma idt_entry_fields:
  "gate_offset (idt_entry h sel fl) = h" "gate_selector (idt_entry h sel fl) = ucast sel" "gate_present (idt_entry h sel fl) = bit fl 7"
  "gate_dpl (idt_entry h sel fl) = ucast (drop_bit 5 fl AND 3)"
proof -
  have m: "(0xffff :: u64) = mask 16" "(0xff :: u64) = mask 8" "(3 :: u64) = mask 2" "(3 :: u32) = mask 2" by (simp_all add: mask_eq_exp_minus_1)
  show "gate_offset (idt_entry h sel fl) = h"
    unfolding gate_offset_def idt_entry_def m by (rule bit_word_eqI) (auto simp: bit_simps)
  show "gate_selector (idt_entry h sel fl) = ucast sel"
    unfolding gate_selector_def idt_entry_def m by (rule bit_word_eqI) (auto simp: bit_simps)
  show "gate_present (idt_entry h sel fl) = bit fl 7"
    unfolding gate_present_def idt_entry_def m by (auto simp: bit_simps)
  show "gate_dpl (idt_entry h sel fl) = ucast (drop_bit 5 fl AND 3)"
    unfolding gate_dpl_def idt_entry_def m by (rule bit_word_eqI) (auto simp: bit_simps)
qed

lemma fold_idt:
  assumes "distinct (map fst gs)" "\<forall>g \<in> set gs. fst g < length (idt c)" "i < length (idt c)"
  shows "idt (fold (\<lambda>(i, ring). idt_set_entry i (stub i) 8 (fl ring)) gs c) ! i =
    (case map_of gs i of None \<Rightarrow> idt c ! i | Some ring \<Rightarrow> idt_entry (stub i) 8 (fl ring))"
  using assms
proof (induction gs arbitrary: c)
  case (Cons g gs)
  obtain j ring where g: "g = (j, ring)" by fastforce
  then have "map_of gs j = None" using Cons.prems(1) by (simp add: map_of_eq_None_iff)
  then show ?case
    using Cons.IH [of "idt_set_entry j (stub j) 8 (fl ring) c"] Cons.prems by (auto simp: g idt_set_entry_def nth_list_update split: option.split)
qed simp

lemma gates_ok: "distinct (map fst gates)" "\<forall>g \<in> set gates. fst g < 256"
  by code_simp+

lemma init_pic_state: "idt (init_pic c) = idt c" "outbs (init_pic c) = outbs c @ pic_writes" "c_kernel (init_pic c) = c_kernel c"
  by (simp_all add: init_pic_def pic_writes_def outb_def)

lemma map_of_gates: "map_of gates i = (if i = 48 then Some IDT_FLAG_RING3 else if i < 19 \<or> 32 \<le> i \<and> i < 48 \<or> i = 255 then Some IDT_FLAG_RING0 else None)"
proof -
  have m: "map_of (map (\<lambda>i. (i, r :: u32)) xs) i = (if i \<in> set xs then Some r else None)" for r xs by (induction xs) auto
  show ?thesis unfolding gates_def map_of_append map_add_def m set_append set_upt Un_iff atLeastLessThan_iff by auto
qed

lemma init_interrupts_idt:
  assumes "length (idt c) = IDT_ENTRIES" "i < IDT_ENTRIES"
  shows "idt (init_interrupts stub c) ! i =
    (case map_of gates i of None \<Rightarrow> idt c ! i | Some ring \<Rightarrow> idt_entry (stub i) 8 (IDT_FLAG_INTERRUPT_GATE OR ring OR IDT_FLAG_PRESENT))"
  unfolding init_interrupts_def using fold_idt [OF gates_ok(1), of "init_pic c" i stub] gates_ok(2) assms by (simp add: init_pic_state split: option.split)

text \<open>
  C32. The gates that \<open>init_interrupts\<close> leaves in the table, which is zero before: exactly the exceptions 0 to 18, the interrupts of the
  two controllers, the system call and 255 are present, each leads to its stub in the kernel's code segment, and a program can raise none of them
  with an \<open>int\<close> instruction but the system call: no other gate has privilege level 3.
\<close>

theorem gates_of_programs:
  assumes "idt c = replicate IDT_ENTRIES 0" "i < IDT_ENTRIES" "idt (init_interrupts stub c) ! i = e"
  shows "(gate_present e \<longleftrightarrow> i \<le> 18 \<or> 32 \<le> i \<and> i \<le> 48 \<or> i = 255) \<and>
    (gate_present e \<longrightarrow> gate_offset e = stub i \<and> gate_selector e = 0x8 \<and> (gate_dpl e = 3 \<longleftrightarrow> i = 0x30))"
proof -
  have l: "length (idt c) = IDT_ENTRIES" by (simp add: assms(1))
  have e: "e = (if i = 48 then idt_entry (stub i) 8 0xee else if i < 19 \<or> 32 \<le> i \<and> i < 48 \<or> i = 255 then idt_entry (stub i) 8 0x8e else 0)"
    using init_interrupts_idt [OF l assms(2), of stub] assms unfolding map_of_gates by auto
  have b: "gate_present 0 = False" "bit (0xee :: u32) 7" "bit (0x8e :: u32) 7" "drop_bit 5 (0xee :: u32) AND 3 = 3" "drop_bit 5 (0x8e :: u32) AND 3 = 0"
    by (simp_all add: gate_present_def bit_iff_odd)
  then show ?thesis unfolding e by (auto simp: idt_entry_fields)
qed

section \<open>Switching between programs\<close>

text \<open>The registers a task has saved.\<close>

definition saved :: "'w cpu \<Rightarrow> nat \<Rightarrow> cpu_registers" where
  "saved c i = load_frame (kmem c) (registers (tasks (c_kernel c) ! i))"

text \<open>A region of memory that neither \<open>set_tss\<close> nor the saved registers of an active task reach.\<close>

definition apart :: "'w cpu \<Rightarrow> u32 \<Rightarrow> nat \<Rightarrow> bool" where
  "apart c a n \<longleftrightarrow> range_of a n \<inter> range_of (tss_base c + 4) 4 = {} \<and>
     (\<forall>t \<in> set (tasks (c_kernel c)). active t \<longrightarrow> range_of a n \<inter> range_of (registers t) 72 = {})"

definition frames_apart :: "'w cpu \<Rightarrow> bool" where
  "frames_apart c \<longleftrightarrow> (\<forall>i < MAX_TASKS. active (tasks (c_kernel c) ! i) \<longrightarrow>
     range_of (registers (tasks (c_kernel c) ! i)) 72 \<inter> range_of (tss_base c + 4) 4 = {} \<and>
     (\<forall>j < MAX_TASKS. active (tasks (c_kernel c) ! j) \<and> j \<noteq> i \<longrightarrow>
        range_of (registers (tasks (c_kernel c) ! i)) 72 \<inter> range_of (registers (tasks (c_kernel c) ! j)) 72 = {}))"

text \<open>
  The state while a program runs: the kernel's stack of the processor is the one of the current task, with room for its registers
  exactly where the task has them, and the regions do not overlap.
\<close>

definition cpu_ok :: "'w cpu \<Rightarrow> bool" where
  "cpu_ok c \<longleftrightarrow> sched_ok (c_kernel c) \<and> active (tasks (c_kernel c) ! current_task (c_kernel c)) \<and>
     esp0 c = registers (tasks (c_kernel c) ! current_task (c_kernel c)) + 72 \<and> tss_base c < 2 ^ 24 \<and>
     apart c (gdtr c + 40) 8 \<and> frames_apart c \<and> (\<forall>t \<in> set (tasks (c_kernel c)). active t \<longrightarrow> apart c (tk_context t) 4)"

text \<open>Changes of the memory inside the saved registers and the task state segment keep the rest.\<close>

lemma cpu_ok_step:
  assumes ok: "cpu_ok c" and tasks: "same_tasks (tasks (c_kernel c)) (tasks (c_kernel c'))" and g: "gdtr c' = gdtr c"
    and s: "sched_ok (c_kernel c')" and cur: "current_task (c_kernel c') = j" "j < MAX_TASKS" "active (tasks (c_kernel c) ! j)"
    and mem: "\<And>x. x \<in> range_of (gdtr c + 40) 8 \<Longrightarrow> kmem c' x = kmem c x"
    and esp: "ld32 (kmem c') (tss_base c + 4) = registers (tasks (c_kernel c) ! j) + 72"
  shows "cpu_ok c'"
proof -
  have len: "length (tasks (c_kernel c)) = MAX_TASKS" "length (tasks (c_kernel c')) = MAX_TASKS" using ok s by (auto simp: cpu_ok_def sched_ok_def)
  note f = same_tasks_fields [OF tasks, unfolded len]
  have d: "ld64 (kmem c') (gdtr c' + 40) = ld64 (kmem c) (gdtr c + 40)" unfolding g by (rule ld64_cong) (rule mem)
  then have b: "tss_base c' = tss_base c" by (simp add: tss_base_def)
  have ap: "apart c' a n = apart c a n" for a n
    unfolding apart_def b all_set_conv_all_nth len using f by auto
  have "frames_apart c'" using ok f unfolding cpu_ok_def frames_apart_def b by auto
  moreover have "\<forall>t \<in> set (tasks (c_kernel c')). active t \<longrightarrow> apart c' (tk_context t) 4"
    using ok f unfolding cpu_ok_def ap all_set_conv_all_nth len by auto
  moreover have "apart c' (gdtr c' + 40) 8" using ok unfolding ap g cpu_ok_def by blast
  ultimately show ?thesis using ok s cur f esp unfolding cpu_ok_def esp0_def b by auto
qed

text \<open>What \<open>run_schedule\<close> does to the state of the processor.\<close>

lemma run_schedule_picks:
  assumes "sched_ok (c_kernel c)" "is_scheduler_running (c_kernel c)" "\<exists>t \<in> set (tasks (c_kernel c)). active t"
    and "\<not> (pin (tasks (c_kernel c) ! current_task (c_kernel c)) \<and> tk_term (tasks (c_kernel c) ! current_task (c_kernel c)) = mc_term mc)"
  obtains j k where "run_schedule mc f c = Inr (registers (tasks (c_kernel c) ! j), c\<lparr>c_kernel := k\<rparr>)" "picked (c_kernel c) j k" "sched_ok k"
    "cr3 (sc_vm k) = pagedir (kmem c) (tk_context (tasks (c_kernel c) ! j))"
proof -
  have "\<exists>j k. schedule (mc_key mc) True (mc_term mc) (mc_time_ms mc) f (c_kernel c) = Inr (registers (tasks (c_kernel c) ! j), k) \<and>
      picked (c_kernel c) j k \<and> sched_ok k \<and> cr3 (sc_vm k) = pagedir (kmem c) (tk_context (tasks (c_kernel c) ! j))"
    using schedule_runs_active [OF assms(1,2,4), of "mc_key mc" "mc_time_ms mc" f] assms(3) by (simp add: kmem_def)
  then show thesis using that by (auto simp: run_schedule_def)
qed

lemma picked_kmem: "picked (c_kernel c) j k \<Longrightarrow> kmem (c\<lparr>c_kernel := k\<rparr>) = kmem c"
  by (simp add: picked_def kmem_def vmm_activate_context_def)

text \<open>The regions that an interrupt of the current task leaves alone.\<close>

lemma cpu_ok_frames:
  assumes "cpu_ok c" "i < MAX_TASKS" "active (tasks (c_kernel c) ! i)"
  shows "range_of (registers (tasks (c_kernel c) ! i)) 72 \<inter> range_of (tss_base c + 4) 4 = {}"
    "i \<noteq> current_task (c_kernel c) \<Longrightarrow>
       range_of (registers (tasks (c_kernel c) ! i)) 72 \<inter> range_of (registers (tasks (c_kernel c) ! current_task (c_kernel c))) 72 = {}"
    "range_of (tk_context (tasks (c_kernel c) ! i)) 4 \<inter> range_of (registers (tasks (c_kernel c) ! current_task (c_kernel c))) 72 = {}"
proof -
  have cur: "current_task (c_kernel c) < MAX_TASKS" "length (tasks (c_kernel c)) = MAX_TASKS" "active (tasks (c_kernel c) ! current_task (c_kernel c))"
    using assms(1) by (auto simp: cpu_ok_def sched_ok_def)
  then have t: "tasks (c_kernel c) ! i \<in> set (tasks (c_kernel c))" "tasks (c_kernel c) ! current_task (c_kernel c) \<in> set (tasks (c_kernel c))"
    using assms(2) by simp_all
  show "range_of (registers (tasks (c_kernel c) ! i)) 72 \<inter> range_of (tss_base c + 4) 4 = {}"
    "i \<noteq> current_task (c_kernel c) \<Longrightarrow>
       range_of (registers (tasks (c_kernel c) ! i)) 72 \<inter> range_of (registers (tasks (c_kernel c) ! current_task (c_kernel c))) 72 = {}"
    using assms cur unfolding cpu_ok_def frames_apart_def by blast+
  show "range_of (tk_context (tasks (c_kernel c) ! i)) 4 \<inter> range_of (registers (tasks (c_kernel c) ! current_task (c_kernel c))) 72 = {}"
    using assms(1,3) t cur(3) unfolding cpu_ok_def apart_def by blast
qed

lemma cpu_ok_gdt:
  assumes "cpu_ok c"
  shows "range_of (gdtr c + 40) 8 \<inter> range_of (registers (tasks (c_kernel c) ! current_task (c_kernel c))) 72 = {}"
    "range_of (gdtr c + 40) 8 \<inter> range_of (tss_base c + 4) 4 = {}"
proof -
  have "tasks (c_kernel c) ! current_task (c_kernel c) \<in> set (tasks (c_kernel c))" using assms by (simp add: cpu_ok_def sched_ok_def)
  then show "range_of (gdtr c + 40) 8 \<inter> range_of (registers (tasks (c_kernel c) ! current_task (c_kernel c))) 72 = {}"
    "range_of (gdtr c + 40) 8 \<inter> range_of (tss_base c + 4) 4 = {}"
    using assms unfolding cpu_ok_def apart_def by blast+
qed

text \<open>The memory after an interrupt that saves \<open>r\<close> for the current task and sets the kernel's stack.\<close>

lemma saved_after:
  assumes "cpu_ok c" "i < MAX_TASKS" "active (tasks (c_kernel c) ! i)" "same_tasks (tasks (c_kernel c)) (tasks (c_kernel c'))"
    and m: "kmem c' = st32 (store_frame (registers (tasks (c_kernel c) ! current_task (c_kernel c))) r (kmem c)) (tss_base c + 4) v"
  shows "saved c' i = (if i = current_task (c_kernel c) then r else saved c i)"
proof -
  let ?g = "registers (tasks (c_kernel c) ! i)" and ?f = "registers (tasks (c_kernel c) ! current_task (c_kernel c))"
  have "length (tasks (c_kernel c)) = MAX_TASKS" using assms(1) by (simp add: cpu_ok_def sched_ok_def)
  then have "saved c' i = load_frame (kmem c') ?g" unfolding saved_def using same_tasks_fields(2) [OF assms(4), of i] assms(2) by simp
  also have "\<dots> = load_frame (store_frame ?f r (kmem c)) ?g"
    unfolding m by (intro load_frame_cong st32_outside) (use cpu_ok_frames(1) [OF assms(1-3)] in auto)
  also have "\<dots> = (if i = current_task (c_kernel c) then r else saved c i)"
    using load_store_frame_other [OF cpu_ok_frames(2) [OF assms(1-3)]] by (simp add: saved_def)
  finally show ?thesis .
qed

lemma handle_irq:
  assumes "unat (ld32 (kmem c) (f + 44)) = n" "0x20 \<le> n" "n \<le> 0x2f"
  shows "handle_interrupt dv f c = lbind (call_registered dv n f c) (\<lambda>(f', c'). Some (Inr (f', send_eoi n c')))"
  using assms by (simp add: handle_interrupt_def)

lemma handle_soft:
  assumes "unat (ld32 (kmem c) (f + 44)) = n" "0x2f < n" "n < 0xff"
  shows "handle_interrupt dv f c = lbind (call_registered dv n f c) (\<lambda>(f', c').
    if \<not> active (tasks (c_kernel c') ! get_self (c_kernel c')) then Some (run_schedule (dv_machine dv) f' c') else Some (Inr (f', c')))"
  using assms by (simp add: handle_interrupt_def)

text \<open>
  C5. A timer interrupt while a program runs with the registers \<open>r\<close>, while the scheduler runs and the task is not pinned to the terminal: the
  registers are saved for the current task and those of no other change; some active task goes on with the registers it had saved, in
  its own address space and with its own kernel stack, so that the invariant holds again; the controller is told.
\<close>

theorem timer_interrupt_switches:
  assumes "cpu_ok c" "length (interrupt_handlers c) = 256" "interrupt_handlers c ! 0x20 = Some PitIrq" "dv_sound dv = None"
    and "is_scheduler_running (c_kernel c)" "reg_intr r = 0x20"
    and "\<not> (pin (tasks (c_kernel c) ! current_task (c_kernel c)) \<and> tk_term (tasks (c_kernel c) ! current_task (c_kernel c)) = mc_term (dv_machine dv))"
  shows "\<exists>j c'. user_interrupt dv r c = Some (Inr (saved c' j, c')) \<and> j < MAX_TASKS \<and> active (tasks (c_kernel c) ! j) \<and>
    current_task (c_kernel c') = j \<and> same_tasks (tasks (c_kernel c)) (tasks (c_kernel c')) \<and> cpu_ok c' \<and>
    cr3 (sc_vm (c_kernel c')) = pagedir (kmem c) (tk_context (tasks (c_kernel c) ! j)) \<and>
    (\<forall>i < MAX_TASKS. active (tasks (c_kernel c) ! i) \<longrightarrow> saved c' i = (if i = current_task (c_kernel c) then r else saved c i)) \<and>
    outbs c' = outbs c @ [(0x20, 0x20)]"
proof -
  define cur where "cur = current_task (c_kernel c)"
  define f where "f = registers (tasks (c_kernel c) ! cur)"
  define c1 where "c1 = on_kmem (store_frame f r) (c\<lparr>pit_ticks := pit_ticks c + 1\<rparr>)"
  have ok: "sched_ok (c_kernel c)" "active (tasks (c_kernel c) ! cur)" "esp0 c - 72 = f" "tss_base c < 2 ^ 24" "apart c (gdtr c + 40) 8"
    and cur: "cur < MAX_TASKS" and len: "length (tasks (c_kernel c)) = MAX_TASKS"
    using assms(1) by (auto simp: cpu_ok_def cur_def f_def sched_ok_def)
  have c1: "tasks (c_kernel c1) = tasks (c_kernel c)" "current_task (c_kernel c1) = cur" "kmem c1 = store_frame f r (kmem c)" "gdtr c1 = gdtr c"
    "is_scheduler_running (c_kernel c1)" "outbs c1 = outbs c"
    using assms(5) by (simp_all add: c1_def cur_def kmem_def on_kmem_def poke_def)
  note regs = cpu_ok_frames [OF assms(1), folded cur_def, folded f_def] and gdt = cpu_ok_gdt [OF assms(1), folded cur_def, folded f_def]
  have "ld64 (kmem c1) (gdtr c + 40) = ld64 (kmem c) (gdtr c + 40)"
    unfolding c1 by (intro ld64_cong store_frame_outside) (use gdt(1) in auto)
  then have tb: "tss_base c1 = tss_base c" by (simp add: tss_base_def c1(4))
  have s1: "sched_ok (c_kernel c1)" using ok(1) cur unfolding sched_ok_def c1 by simp
  have act: "\<exists>t \<in> set (tasks (c_kernel c1)). active t" using ok(2) cur len unfolding c1 by (metis nth_mem)
  obtain j k where k: "run_schedule (dv_machine dv) f c1 = Inr (registers (tasks (c_kernel c) ! j), c1\<lparr>c_kernel := k\<rparr>)" "picked (c_kernel c1) j k"
      "sched_ok k" "cr3 (sc_vm k) = pagedir (kmem c1) (tk_context (tasks (c_kernel c) ! j))"
    by (rule run_schedule_picks [OF s1 c1(5) act, of "dv_machine dv" f, unfolded c1(1,2)]) (use assms(7) in \<open>auto simp: cur_def\<close>)
  have j: "j < MAX_TASKS" "active (tasks (c_kernel c) ! j)" "current_task k = j" "same_tasks (tasks (c_kernel c)) (tasks k)"
    using k(2) by (simp_all add: picked_def c1(1))
  define c2 where "c2 = c1\<lparr>c_kernel := k\<rparr>"
  define c' where "c' = outb 0x20 0x20 (on_kmem (\<lambda>m. st32 m (tss_base c + 4) (registers (tasks (c_kernel c) ! j) + 72)) c2)"
  have c2: "kmem c2 = store_frame f r (kmem c)" "gdtr c2 = gdtr c" "outbs c2 = outbs c" "c_kernel c2 = k"
    using picked_kmem [OF k(2)] by (simp_all add: c2_def c1)
  have "tss_base c2 = tss_base c" using tb c1(3,4) c2(1,2) by (simp add: tss_base_def)
  then have st: "set_tss 1 v c2 = on_kmem (\<lambda>m. st32 m (tss_base c + 4) v) c2" for v using set_tss_low [of c2 1 v] ok(4) by simp
  have "pit_interrupt_handler dv f (on_kmem (store_frame f r) c) = run_schedule (dv_machine dv) f c1"
    using assms(4) by (simp add: pit_interrupt_handler_def c1_def on_kmem_def)
  then have "call_registered dv 0x20 f (on_kmem (store_frame f r) c) =
      Some (Inr (registers (tasks (c_kernel c) ! j), set_tss 1 (registers (tasks (c_kernel c) ! j) + 72) c2))"
    using assms(2,3) k(1) by (simp add: call_registered_def call_handler_def run_handler_def c2_def)
  then have "handle_interrupt dv f (on_kmem (store_frame f r) c) = Some (Inr (registers (tasks (c_kernel c) ! j), c'))"
    using handle_irq [of "on_kmem (store_frame f r) c" f "0x20" dv] assms(6) by (simp add: store_frame_intr st send_eoi_def c'_def)
  moreover have c': "kmem c' = st32 (store_frame f r (kmem c)) (tss_base c + 4) (registers (tasks (c_kernel c) ! j) + 72)"
      "current_task (c_kernel c') = j" "same_tasks (tasks (c_kernel c)) (tasks (c_kernel c'))" "sched_ok (c_kernel c')" "gdtr c' = gdtr c"
      "cr3 (sc_vm (c_kernel c')) = cr3 (sc_vm k)" "outbs c' = outbs c @ [(0x20, 0x20)]"
    using j k(3) by (simp_all add: c'_def c2 sched_ok_def) (simp_all add: outb_def on_kmem_def poke_def c2)
  have "saved c' i = (if i = cur then r else saved c i)" if "i < MAX_TASKS" "active (tasks (c_kernel c) ! i)" for i
    using saved_after [OF assms(1) that c'(3)] c'(1) by (simp add: cur_def f_def)
  moreover have "cpu_ok c'"
    by (rule cpu_ok_step [OF assms(1) c'(3,5,4,2) j(1,2)]) (use gdt in \<open>auto simp: c'(1) mem_simps disjoint_iff\<close>)
  moreover have "pagedir (kmem c1) (tk_context (tasks (c_kernel c) ! j)) = pagedir (kmem c) (tk_context (tasks (c_kernel c) ! j))"
    unfolding pagedir_def c1 by (intro ld32_cong store_frame_outside) (use regs(3) [OF j(1,2)] in auto)
  moreover have "load_frame (kmem c') (registers (tasks (c_kernel c) ! j)) = saved c' j"
    unfolding saved_def using same_tasks_fields(2) [OF c'(3), of j] j(1) len by simp
  ultimately show ?thesis
    using j c' k(4) by (intro exI [of _ j] exI [of _ c']) (simp add: user_interrupt_def ok(3) cur_def)
qed

section \<open>System calls\<close>

text \<open>
  A system call of the running program, when it returns to it: the program goes on with the registers that the handler gives back, and
  the kernel's stack of the processor is the same as before.
\<close>

lemma user_syscall_returns:
  assumes "esp0 c = f + 72" "interrupt_handlers c ! 0x30 = Some SyscallHandler" "length (interrupt_handlers c) = 256" "reg_intr r = 0x30"
    and run: "syscall_handler (c_syscalls c) ((dv_machine dv)\<lparr>mc_frame := f\<rparr>) r (c_kernel (on_kmem (store_frame f r) c)) = Some (Inr (Regs r', k))"
    and "active (tasks k ! current_task k)" "tss_base (c\<lparr>c_kernel := k\<rparr>) < 2 ^ 24"
    and apart: "range_of f 72 \<inter> range_of (tss_base (c\<lparr>c_kernel := k\<rparr>) + 4) 4 = {}" "range_of (gdtr c + 40) 8 \<inter> range_of f 72 = {}"
      "range_of (gdtr c + 40) 8 \<inter> range_of (tss_base (c\<lparr>c_kernel := k\<rparr>) + 4) 4 = {}"
  shows "\<exists>c'. user_interrupt dv r c = Some (Inr (r', c')) \<and> esp0 c' = f + 72 \<and> tasks (c_kernel c') = tasks k"
proof -
  let ?c = "on_kmem (store_frame f r) c" and ?k = "c\<lparr>c_kernel := k\<rparr>"
  let ?s = "on_kmem (store_frame f r') ?k"
  let ?t = "on_kmem (\<lambda>m. st32 m (tss_base ?k + 4) (f + 72)) ?s"
  have d: "ld64 (kmem ?s) (gdtr c + 40) = ld64 (kmem ?k) (gdtr c + 40)"
    unfolding kmem_simps by (intro ld64_cong store_frame_outside) (use apart(2) in auto)
  then have b: "tss_base ?s = tss_base ?k" by (simp add: tss_base_def)
  then have st: "set_tss 1 v ?s = on_kmem (\<lambda>m. st32 m (tss_base ?k + 4) v) ?s" for v using set_tss_low [of ?s 1 v] assms(7) by simp
  have "ld64 (kmem ?t) (gdtr c + 40) = ld64 (kmem ?s) (gdtr c + 40)"
    unfolding kmem_simps(1) [of _ ?s] by (intro ld64_cong st32_outside) (use apart(3) in auto)
  then have "tss_base ?t = tss_base ?k" using b by (simp add: tss_base_def)
  then have e: "esp0 ?t = f + 72" by (simp add: esp0_def)
  have sy: "syscall_interrupt dv f ?c = Some (Inr (f, ?s))" using run by (simp add: syscall_interrupt_def) (simp add: on_kmem_def)
  have cr: "call_registered dv 0x30 f ?c = Some (Inr (f, ?t))"
    using assms(2,3) sy st by (simp add: call_registered_def call_handler_def run_handler_def)
  have "handle_interrupt dv f ?c = Some (Inr (f, ?t))"
    using handle_soft [of ?c f "0x30" dv] assms(4,6) cr by (simp add: store_frame_intr get_self_def)
  moreover have "load_frame (kmem ?t) f = r'"
  proof -
    have "load_frame (kmem ?t) f = load_frame (kmem ?s) f"
      unfolding kmem_simps(1) [of _ ?s] by (intro load_frame_cong st32_outside) (use apart(1) in auto)
    then show ?thesis by simp
  qed
  ultimately show ?thesis using e assms(1) by (intro exI [of _ ?t]) (simp add: user_interrupt_def)
qed

text \<open>
  When the task has ended during its system call, \<open>handle_interrupt\<close> switches to another task but leaves the kernel's stack of the ended
  one, which is free, in the task state segment.
\<close>

lemma exit_keeps_stack:
  assumes "syscall_interrupt dv f c = Some (Inr (f, c1))" "interrupt_handlers c ! 0x30 = Some SyscallHandler" "length (interrupt_handlers c) = 256"
    and "ld32 (kmem c) (f + 44) = 0x30" "tss_base c1 < 2 ^ 24" "range_of (gdtr c1 + 40) 8 \<inter> range_of (tss_base c1 + 4) 4 = {}"
    and "\<not> active (tasks (c_kernel c1) ! current_task (c_kernel c1))" "\<not> pin (tasks (c_kernel c1) ! current_task (c_kernel c1))"
    and "sched_ok (c_kernel c1)" "is_scheduler_running (c_kernel c1)" "\<exists>t \<in> set (tasks (c_kernel c1)). active t"
  shows "\<exists>j c'. handle_interrupt dv f c = Some (Inr (registers (tasks (c_kernel c1) ! j), c')) \<and> current_task (c_kernel c') = j \<and>
    j \<noteq> current_task (c_kernel c1) \<and> esp0 c' = f + 72"
proof -
  let ?t = "on_kmem (\<lambda>m. st32 m (tss_base c1 + 4) (f + 72)) c1"
  have "ld64 (kmem ?t) (gdtr c1 + 40) = ld64 (kmem c1) (gdtr c1 + 40)"
    unfolding kmem_simps by (intro ld64_cong st32_outside) (use assms(6) in auto)
  then have e: "esp0 ?t = f + 72" by (simp add: esp0_def tss_base_def)
  have cr: "call_registered dv 0x30 f c = Some (Inr (f, ?t))"
    using assms(1-3) set_tss_low [OF assms(5), of 1 "f + 72"] by (simp add: call_registered_def call_handler_def run_handler_def)
  have "sched_ok (c_kernel ?t)" using assms(9) unfolding sched_ok_def kmem_simps .
  then obtain j k where k: "run_schedule (dv_machine dv) f ?t = Inr (registers (tasks (c_kernel c1) ! j), ?t\<lparr>c_kernel := k\<rparr>)" "picked (c_kernel ?t) j k"
    using run_schedule_picks [of ?t "dv_machine dv" f] assms(8,10,11) unfolding kmem_simps by metis
  have "kmem (?t\<lparr>c_kernel := k\<rparr>) = kmem ?t" using picked_kmem [OF k(2)] .
  then have "esp0 (?t\<lparr>c_kernel := k\<rparr>) = f + 72" using e by (simp add: esp0_def tss_base_def)
  moreover have "current_task k = j" "j \<noteq> current_task (c_kernel c1)" using k(2) assms(7) by (auto simp: picked_def)
  ultimately show ?thesis
    using handle_soft [of c f "0x30" dv] assms(4,7) cr k(1) by (intro exI [of _ j] exI [of _ "?t\<lparr>c_kernel := k\<rparr>"]) (simp add: get_self_def)
qed

section \<open>Ended tasks\<close>

text \<open>The handlers of \<open>init_killer\<close>; the one for page faults replaces the one that \<open>vmm_init\<close> registered.\<close>

lemma init_killer_handlers:
  assumes "length (interrupt_handlers c) = 256" "i < 256"
  shows "interrupt_handlers (init_killer c) ! i = (if i = 0 then Some (Killer DivisionByZero) else if i = 6 then Some (Killer InvalidOpcode)
    else if i = 13 then Some (Killer GeneralProtection) else if i = 14 then Some (Killer PageFault) else interrupt_handlers c ! i)"
  using assms by (simp add: init_killer_def killers_def register_interrupt_handler_def nth_list_update)

text \<open>
  An exception that ends the running program: when \<open>exit_task\<close> returns, because another interrupt than the timer ended its \<open>hlt\<close>,
  \<open>handle_interrupt\<close> does not look whether the task is still active and returns to the instruction that failed.
\<close>

lemma killed_task_resumes:
  assumes "unat (ld32 (kmem c) (f + 44)) = n" "n \<in> {0, 6, 13, 14}" "interrupt_handlers c ! n = Some (Killer h)"
    and "exit_task (dealloc (dv_machine dv)) (current_task (c_kernel c)) (c_kernel c) = Inr k"
  shows "\<exists>c'. handle_interrupt dv f c = Some (Inr (f, c')) \<and> tasks (c_kernel c') = tasks k"
proof -
  have n: "n \<noteq> 0xff" "n \<noteq> 1" "n \<noteq> 3" "n \<le> 0x1f" using assms(2) by auto
  have "run_handler dv (Killer h) f c = Some (Inr (f, c\<lparr>c_kernel := k\<rparr>))" using assms(4) by (simp add: run_handler_def kill_def get_self_def)
  then have "handle_interrupt dv f c = Some (Inr (f, set_tss 1 (f + 72) (c\<lparr>c_kernel := k\<rparr>)))"
    using n assms(1,3) by (simp add: handle_interrupt_def call_handler_def)
  then show ?thesis by (simp add: set_tss_def on_kmem_def poke_def Let_def)
qed

section \<open>Two programs\<close>

text \<open>Two tasks, 3 and 5, with their registers, contexts, descriptor table and task state segment at different places; task 3 runs.\<close>

definition two_programs :: "unit kernel" where
  "two_programs = thread_pair\<lparr>tasks := (replicate MAX_TASKS zero_task)
       [3 := zero_task\<lparr>active := True, registers := 0x10000, tk_context := 0x30000\<rparr>,
        5 := zero_task\<lparr>active := True, registers := 0x20000, tk_context := 0x40000\<rparr>],
     current_task := 3, sc_vm := (sc_vm thread_pair)\<lparr>vm_mem := st32 (gdt_entries 0x1000 0x2000 (\<lambda>_. 0)) 0x2004 (0x10000 + 72)\<rparr>\<rparr>"

definition demo_cpu :: "unit cpu" where
  "demo_cpu = \<lparr>c_kernel = two_programs, interrupt_handlers = (replicate 256 None)[0x20 := Some PitIrq], interrupt_handlers_special_data = replicate 256 0,
     idt = replicate IDT_ENTRIES 0, gdtr = 0x1000, outbs = [], pit_ticks = 0, gdb_active = False,
     c_gdb = \<lparr>g_signum = 0, g_regs = [], g_mem = (\<lambda>_. 0), g_in = [], g_out = []\<rparr>,
     c_syscalls = \<lparr>syscall_table = [], num_syscall_handlers = 0\<rparr>\<rparr>"

definition demo_devices :: "unit devices" where
  "demo_devices = \<lparr>dv_machine = demo_machine, dv_irq = (\<lambda>_ f k. Inr (f, k)), dv_sound = None, dv_junk = [], dv_pkt_buf = []\<rparr>"

lemma range_of_ordered: "unat a + n \<le> unat b \<Longrightarrow> unat b + k \<le> 2 ^ 32 \<Longrightarrow> range_of a n \<inter> range_of b k = {}"
  using range_of_apart [of "unat a" n "unat b" k 0] by simp

lemma two_programs_tasks:
  "t \<in> set (tasks two_programs) \<Longrightarrow> active t \<Longrightarrow> registers t \<in> {0x10000, 0x20000} \<and> tk_context t \<in> {0x30000, 0x40000}"
  "i < MAX_TASKS \<Longrightarrow> active (tasks two_programs ! i) \<Longrightarrow> i = 3 \<and> registers (tasks two_programs ! i) = 0x10000 \<or> i = 5 \<and> registers (tasks two_programs ! i) = 0x20000"
  by (auto simp: two_programs_def zero_task_def nth_list_update split: if_splits dest!: set_update_subset_insert [THEN subsetD])

lemma demo_cpu_tss: "tss_base demo_cpu = 0x2000" "esp0 demo_cpu = 0x10000 + 72"
proof -
  have m: "kmem demo_cpu = st32 (gdt_entries 0x1000 0x2000 (\<lambda>_. 0)) 0x2004 (0x10000 + 72)"
    by (simp add: kmem_def demo_cpu_def two_programs_def)
  have "range_of (0x1000 + 40 :: u32) 8 \<inter> range_of 0x2004 4 = {}" by (rule range_of_ordered) simp_all
  then have "ld64 (kmem demo_cpu) (0x1000 + 40) = ld64 (gdt_entries 0x1000 0x2000 (\<lambda>_. 0)) (0x1000 + 40)"
    unfolding m by (intro ld64_cong st32_outside) blast
  then show t: "tss_base demo_cpu = 0x2000"
    by (simp add: tss_base_def demo_cpu_def Let_def gdt_entries_def gdt_set_entry_def gdt_entry_base(1))
  show "esp0 demo_cpu = 0x10000 + 72" by (simp add: esp0_def t m)
qed

lemma demo_cpu_ok: "cpu_ok demo_cpu"
proof -
  have k: "c_kernel demo_cpu = two_programs" "gdtr demo_cpu = 0x1000" by (simp_all add: demo_cpu_def)
  have far: "range_of a n \<inter> range_of b l = {}" if "(unat a + n \<le> unat b \<or> unat b + l \<le> unat a) \<and> unat a + n \<le> 2 ^ 32 \<and> unat b + l \<le> 2 ^ 32" for a b :: u32 and n l
    using that range_of_ordered [of a n b l] range_of_ordered [of b l a n] by blast
  have ap: "apart demo_cpu a n" if "unat a + n \<le> 0x1100 \<or> 0x30000 \<le> unat a \<and> unat a + n \<le> 2 ^ 32" for a n
  proof -
    have "range_of a n \<inter> range_of 0x2004 4 = {}" using that by (intro far) auto
    moreover have "range_of a n \<inter> range_of (registers t) 72 = {}" if t: "t \<in> set (tasks two_programs)" "active t" for t
    proof -
      have "unat (registers t) = 0x10000 \<or> unat (registers t) = 0x20000" using two_programs_tasks(1) [OF t] by auto
      then show ?thesis using \<open>unat a + n \<le> 0x1100 \<or> 0x30000 \<le> unat a \<and> unat a + n \<le> 2 ^ 32\<close> by (intro far) auto
    qed
    ultimately show ?thesis unfolding apart_def k demo_cpu_tss by simp
  qed
  have "range_of (0x10000 :: u32) 72 \<inter> range_of 0x2004 4 = {}" "range_of (0x20000 :: u32) 72 \<inter> range_of 0x2004 4 = {}"
    "range_of (0x10000 :: u32) 72 \<inter> range_of 0x20000 72 = {}" by (intro far; simp)+
  then have "frames_apart demo_cpu"
    unfolding frames_apart_def k demo_cpu_tss using two_programs_tasks(2) by (auto simp: Int_commute) (metis disjoint_iff)+
  moreover have "sched_ok two_programs" "active (tasks two_programs ! 3)" "registers (tasks two_programs ! 3) = 0x10000" "current_task two_programs = 3"
    by (auto simp: two_programs_def sched_ok_def zero_task_def dest!: set_update_subset_insert [THEN subsetD])
  moreover have "\<forall>t \<in> set (tasks two_programs). active t \<longrightarrow> apart demo_cpu (tk_context t) 4"
    using two_programs_tasks(1) ap by fastforce
  ultimately show ?thesis unfolding cpu_ok_def k demo_cpu_tss using ap [of "0x1000 + 40" 8] by simp
qed

theorem timer_interrupt_switches_witness:
  "\<exists>j c'. user_interrupt demo_devices (demo_regs\<lparr>reg_intr := 0x20\<rparr>) demo_cpu = Some (Inr (saved c' j, c')) \<and> cpu_ok c' \<and>
     saved c' 3 = demo_regs\<lparr>reg_intr := 0x20\<rparr> \<and> saved c' 5 = saved demo_cpu 5"
proof -
  have k: "c_kernel demo_cpu = two_programs" by (simp add: demo_cpu_def)
  have t: "active (tasks two_programs ! 3)" "active (tasks two_programs ! 5)" "current_task two_programs = 3" "\<not> pin (tasks two_programs ! 3)"
    by (simp_all add: two_programs_def zero_task_def)
  have "\<not> (pin (tasks (c_kernel demo_cpu) ! current_task (c_kernel demo_cpu)) \<and>
      tk_term (tasks (c_kernel demo_cpu) ! current_task (c_kernel demo_cpu)) = mc_term (dv_machine demo_devices))"
    using t by (simp add: k)
  moreover have "length (interrupt_handlers demo_cpu) = 256" "interrupt_handlers demo_cpu ! 0x20 = Some PitIrq" "dv_sound demo_devices = None"
    "is_scheduler_running (c_kernel demo_cpu)" "reg_intr (demo_regs\<lparr>reg_intr := 0x20\<rparr>) = 0x20"
    by (simp_all add: demo_cpu_def demo_devices_def two_programs_def thread_pair_def)
  ultimately have "\<exists>j c'. user_interrupt demo_devices (demo_regs\<lparr>reg_intr := 0x20\<rparr>) demo_cpu = Some (Inr (saved c' j, c')) \<and> cpu_ok c' \<and>
     (\<forall>i < MAX_TASKS. active (tasks (c_kernel demo_cpu) ! i) \<longrightarrow>
        saved c' i = (if i = current_task (c_kernel demo_cpu) then demo_regs\<lparr>reg_intr := 0x20\<rparr> else saved demo_cpu i))"
    using timer_interrupt_switches [OF demo_cpu_ok, of demo_devices "demo_regs\<lparr>reg_intr := 0x20\<rparr>"] by blast
  then show ?thesis using t by (fastforce simp: k)
qed

theorem gates_of_programs_witness:
  "let e = idt (init_interrupts (\<lambda>i. 0x100000 + 16 * of_nat i) demo_cpu) ! 0x30 in gate_present e \<and> gate_offset e = 0x100300 \<and> gate_dpl e = 3"
  using gates_of_programs [of demo_cpu "0x30" "\<lambda>i. 0x100000 + 16 * of_nat i"] by (simp add: demo_cpu_def Let_def)

end
