(* ===== verification/Boot.thy ===== *)
theory Boot
  imports Syscalls
begin

text \<open>
  The start of the kernel: the options of its command line (\<open>mckrnl/utils/argparser.c\<close>, and the copy of it in \<open>user/libc/argparser.c\<close>), the
  table of symbols for the debugger and for traces (\<open>utils/trace.c\<close>), the search for a module of the boot loader and the first program
  (\<open>find_multiboot_module\<close> and \<open>load_init\<close> of \<open>init.c\<close>), and the failure of an assertion (\<open>assert.c\<close>). A string is the list of its characters
  without the terminating zero.
\<close>

section \<open>Options\<close>

abbreviation SP :: u8 where "SP \<equiv> 0x20"
abbreviation EQS :: u8 where "EQS \<equiv> 0x3D"
abbreviation DASH :: u8 where "DASH \<equiv> 0x2D"

text \<open>
  The loop over \<open>arg\<close>. Behind the end of the line is a zero, which no character of \<open>arg\<close> is; therefore the test for a position behind
  it never holds.
\<close>

fun arg_here :: "u8 list \<Rightarrow> u8 list \<Rightarrow> bool" where
  "arg_here [] s = True"
| "arg_here (a # as) [] = False"
| "arg_here (a # as) (c # cs) = (c = a \<and> arg_here as cs)"

text \<open>The value is written to the start of the array \<open>out\<close>, \<open>None\<close> for the null pointer. No zero is written behind it.\<close>

definition write_value :: "u8 list \<Rightarrow> u8 list \<Rightarrow> u8 list res" where
  "write_value v out = (if length v \<le> length out then Inr (v @ drop (length v) out) else Inl OutOfBounds)"

text \<open>\<open>s\<close> is the line from position \<open>i\<close> on.\<close>

definition take_value :: "u8 list \<Rightarrow> u8 list option \<Rightarrow> (bool \<times> u8 list option) res" where
  "take_value t out = (case out of
       Some buf \<Rightarrow> if t \<noteq> [] \<and> hd t = EQS then rbind (write_value (takeWhile (\<lambda>c. c \<noteq> SP) (tl t)) buf) (\<lambda>b. Inr (True, Some b)) else Inr (True, out)
     | None \<Rightarrow> Inr (True, out))"

function is_arg :: "u8 list \<Rightarrow> u8 list \<Rightarrow> u8 list option \<Rightarrow> (bool \<times> u8 list option) res" where
  "is_arg s arg out =
     (if s = [] then Inr (False, out)
      else if arg_here arg s then
        (let t = drop (length arg) s in
         if t = [] then Inr (True, out)
         else if hd t \<noteq> SP \<and> hd t \<noteq> EQS then is_arg (tl t) arg out
         else take_value t out)
      else is_arg (tl s) arg out)"
  by auto
termination by (relation "measure (\<lambda>(s, arg, out). length s)") (auto simp: less_Suc_eq_le diff_le_mono2)

declare is_arg.simps [simp del]

text \<open>The copy in the library for programs does not look at the character behind the name.\<close>

fun user_is_arg :: "u8 list \<Rightarrow> u8 list \<Rightarrow> u8 list option \<Rightarrow> (bool \<times> u8 list option) res" where
  "user_is_arg [] arg out = Inr (False, out)"
| "user_is_arg (c # s) arg out =
     (if arg_here arg (c # s) then take_value (drop (length arg) (c # s)) out else user_is_arg s arg out)"

section \<open>Symbols\<close>

record symbol =
  sym_address :: u32
  sym_name :: "u8 list"

definition char_at :: "u8 list \<Rightarrow> nat \<Rightarrow> u8" where
  "char_at s i = (if i < length s then s ! i else 0)"

text \<open>The array without the entries that \<open>vmm_resize\<close> has room for behind it.\<close>

definition register_symbol :: "symbol \<Rightarrow> symbol list \<Rightarrow> symbol list" where
  "register_symbol s symbols =
     (if char_at (sym_name s) 0 = 0x2E \<and> char_at (sym_name s) 1 = 0x4C then symbols else symbols @ [s])"

text \<open>\<open>behind\<close> is what is in the memory behind the array.\<close>

fun resolve_from :: "symbol \<Rightarrow> u32 \<Rightarrow> symbol list \<Rightarrow> u8 list option" where
  "resolve_from behind address [] = None"
| "resolve_from behind address (s # ss) =
     (let next = (case ss of [] \<Rightarrow> behind | n # _ \<Rightarrow> n) in
      if address \<ge> sym_address s \<and> address < sym_address next \<and> sym_address next \<noteq> 0xffffffff then Some (sym_name s)
      else resolve_from behind address ss)"

definition resolve_symbol_from_addr :: "symbol \<Rightarrow> u32 \<Rightarrow> symbol list \<Rightarrow> u8 list option" where
  "resolve_symbol_from_addr behind address symbols = resolve_from behind address symbols"

primrec resolve_symbol_from_name :: "u8 list \<Rightarrow> symbol list \<Rightarrow> u32" where
  "resolve_symbol_from_name name [] = 0"
| "resolve_symbol_from_name name (s # ss) = (if name = sym_name s then sym_address s else resolve_symbol_from_name name ss)"

text \<open>The digits of an address; those in upper case are multiplied with 15. The file is text, \<open>char\<close> is signed.\<close>

definition sym_digit :: "u8 \<Rightarrow> (u32 \<times> u32) option" where
  "sym_digit c =
     (if 0x30 \<le> c \<and> c \<le> 0x39 then Some (16, ucast c - 0x30)
      else if 0x61 \<le> c \<and> c \<le> 0x66 then Some (16, ucast c - 0x61 + 10)
      else if 0x41 \<le> c \<and> c \<le> 0x46 then Some (15, ucast c - 0x41 + 10)
      else None)"

fun sym_addr :: "u32 \<Rightarrow> u8 list \<Rightarrow> u32 \<times> u8 list" where
  "sym_addr addr [] = (addr, [])"
| "sym_addr addr (c # cs) = (case sym_digit c of None \<Rightarrow> (addr, c # cs) | Some (b, d) \<Rightarrow> sym_addr (addr * b + d) cs)"

abbreviation SYM_NAME_SIZE :: nat where "SYM_NAME_SIZE \<equiv> 128"

lemma sym_addr_length: "length (snd (sym_addr a cs)) \<le> length cs"
  by (induction a cs rule: sym_addr.induct) (auto simp: le_SucI split: option.split)

text \<open>The rest of the file from \<open>idx\<close> on. A line without end is read past the file, a name of 128 characters is not terminated.\<close>

function symfile_loop :: "u8 list \<Rightarrow> symbol list \<Rightarrow> symbol list res" where
  "symfile_loop s symbols =
     (let (addr, r) = sym_addr 0 s in
      if char_at r 0 \<noteq> SP then Inr symbols
      else if 0x0A \<notin> set r then Inl OutOfBounds
      else let name = takeWhile (\<lambda>c. c \<noteq> 0x0A) (tl r) in
        if length name \<ge> SYM_NAME_SIZE then Inl OutOfBounds
        else symfile_loop (tl (dropWhile (\<lambda>c. c \<noteq> 0x0A) (tl r))) (register_symbol \<lparr>sym_address = addr, sym_name = name\<rparr> symbols))"
  by auto
termination
proof (relation "measure (\<lambda>(s, symbols). length s)", goal_cases)
  case (2 s symbols x addr r name)
  have "length r \<le> length s" using sym_addr_length [of 0 s] 2(1,2) by (metis snd_conv)
  moreover have "r \<noteq> []" using 2(4) by auto
  ultimately show ?case using length_dropWhile_le [of "\<lambda>c. c \<noteq> 0x0A" "tl r"] by (cases r) auto
qed simp

declare symfile_loop.simps [simp del]

definition init_global_symbols :: "u8 list \<Rightarrow> symbol list \<Rightarrow> symbol list res" where
  "init_global_symbols symfile symbols = symfile_loop symfile symbols"

section \<open>The first program\<close>

record multiboot_module =
  mod_start :: u32
  mod_end :: u32
  mod_cmdline :: "u8 list"

definition find_multiboot_module :: "panic_key \<Rightarrow> u8 list \<Rightarrow> multiboot_module list \<Rightarrow> multiboot_module option res" where
  "find_multiboot_module k name modules = (case find (\<lambda>m. mod_cmdline m = name) modules of
       Some m \<Rightarrow> Inr (Some m)
     | None \<Rightarrow> rbind (abortf k) (\<lambda>_. Inr None))"

text \<open>The addresses of the local arrays of \<open>load_init\<close>.\<close>

record locals =
  at_exec :: u32
  at_arg :: u32
  at_argv :: u32
  at_envp :: u32

definition init_opt :: "u8 list" where "init_opt = [DASH, DASH, 0x69, 0x6E, 0x69, 0x74]"
definition init_arg_opt :: "u8 list" where "init_arg_opt = [DASH, DASH, 0x69, 0x6E, 0x69, 0x74, DASH, 0x61, 0x72, 0x67]"

text \<open>A name of 64 characters fills the array and is not terminated.\<close>

definition array_string :: "u8 list \<Rightarrow> u8 list res" where
  "array_string b = (if 0 \<in> set b then Inr (takeWhile (\<lambda>c. c \<noteq> 0) b) else Inl OutOfBounds)"

definition store_args :: "locals \<Rightarrow> u8 list \<Rightarrow> bool \<Rightarrow> u8 list \<Rightarrow> mem \<Rightarrow> mem" where
  "store_args l ex has arg m =
     st32 (st32 (st32 (st32 (store_bytes (store_bytes m (at_exec l) ex) (at_arg l) arg)
       (at_argv l) (at_exec l)) (at_argv l + 4) (if has then at_arg l else NULL)) (at_argv l + 8) NULL) (at_envp l) NULL"

definition load_init :: "panic_key \<Rightarrow> locals \<Rightarrow> u8 list \<Rightarrow> 'w kernel \<Rightarrow> 'w kernel res option" where
  "load_init key l cmdline k =
     lbind (Some (is_arg cmdline init_opt (Some (replicate 64 0)))) (\<lambda>(found, ex).
     if \<not> found then lbind (Some (abortf key)) (\<lambda>_. Some (Inr k))
     else lbind (Some (is_arg cmdline init_arg_opt (Some (replicate 128 0)))) (\<lambda>(has, arg).
       lbind (Some (array_string (the ex))) (\<lambda>path.
       lbind (Some (vfs_open path 0 (k_vfs k) (k_fs k))) (\<lambda>(file, w). case file of
           None \<Rightarrow> lbind (Some (abortf key)) (\<lambda>_. Some (Inl NullDeref))
         | Some f \<Rightarrow>
             let pages = f_size f div 4096 + 1 in
             lbind (Some (on_vm (vmm_alloc key pages) (k\<lparr>k_fs := w\<rparr>))) (\<lambda>(buffer, k1).
             lbind (Some (vfs_read f (f_size f) 0 (k_vfs k1) (k_fs k1))) (\<lambda>bs.
             lbind (init_elf key 1 buffer (at_argv l) (at_envp l)
                      (poke (\<lambda>m. store_args l (the ex) has (the arg) (store_bytes m buffer bs)) k1)) (\<lambda>(p, k2).
             lbind (Some (vmm_free buffer pages (sc_vm k2))) (\<lambda>v.
             lbind (Some (vfs_close f (k_vfs k2) (k_fs k2))) (\<lambda>w'.
             Some (Inr (k2\<lparr>sc_vm := v, k_fs := w'\<rparr>)))))))))))"

text \<open>A failed assertion ends the running task, or stops the machine while there are none; then the code behind it is run.\<close>

definition assert_fail :: "machine \<Rightarrow> 'w kernel \<Rightarrow> 'w kernel res" where
  "assert_fail mc k =
     (if is_scheduler_running k then exit_task (dealloc mc) (get_self k) k else rbind (abortf (mc_key mc)) (\<lambda>_. Inr k))"

section \<open>Options: what the parser finds\<close>

text \<open>
  A line of options: names that start with two dashes, separated by spaces, each with or without a value. Two dashes occur nowhere
  else.
\<close>

type_synonym option_list = "(u8 list \<times> u8 list option) list"

definition opt_text :: "u8 list \<times> u8 list option \<Rightarrow> u8 list" where
  "opt_text x = fst x @ (case snd x of None \<Rightarrow> [] | Some v \<Rightarrow> EQS # v)"

fun line_of :: "option_list \<Rightarrow> u8 list" where
  "line_of [] = []"
| "line_of [x] = opt_text x"
| "line_of (x # xs) = opt_text x @ SP # line_of xs"

definition dashes_at :: "u8 list \<Rightarrow> nat \<Rightarrow> bool" where
  "dashes_at s i \<longleftrightarrow> take 2 (drop i s) = [DASH, DASH]"

definition opt_name :: "u8 list \<Rightarrow> bool" where
  "opt_name n \<longleftrightarrow> take 2 n = [DASH, DASH] \<and> SP \<notin> set n \<and> EQS \<notin> set n"

definition opt_ok :: "u8 list \<times> u8 list option \<Rightarrow> bool" where
  "opt_ok x \<longleftrightarrow> opt_name (fst x) \<and> SP \<notin> set (opt_text x) \<and> (\<forall>i. 0 < i \<longrightarrow> \<not> dashes_at (opt_text x) i)"

lemma arg_here_iff: "arg_here arg s \<longleftrightarrow> take (length arg) s = arg"
  by (induction arg s rule: arg_here.induct) auto

lemma arg_here_dashes:
  assumes "opt_name arg" "arg_here arg s"
  shows "take 2 s = [DASH, DASH]"
proof -
  have d: "take 2 arg = [DASH, DASH]" using assms(1) by (simp add: opt_name_def)
  then have "length arg \<ge> 2" by (cases arg; cases "tl arg") auto
  then show ?thesis using assms(2) d by (metis arg_here_iff min.absorb1 take_take)
qed

lemma is_arg_step:
  assumes "arg_here arg s" "s \<noteq> []" "drop (length arg) s = t"
  shows "is_arg s arg out =
    (if t = [] then Inr (True, out) else if hd t \<noteq> SP \<and> hd t \<noteq> EQS then is_arg (tl t) arg out else take_value t out)"
  using assms by (simp add: is_arg.simps [of s] Let_def)

lemma is_arg_skip:
  assumes "\<And>i. i < k \<Longrightarrow> \<not> arg_here arg (drop i s)" "k \<le> length s"
  shows "is_arg s arg out = is_arg (drop k s) arg out"
  using assms
proof (induction k arbitrary: s)
  case (Suc k)
  then obtain c t where s: "s = c # t" by (cases s) auto
  have "\<not> arg_here arg s" using Suc.prems(1) [of 0] by simp
  then have "is_arg s arg out = is_arg t arg out" by (simp add: s is_arg.simps [of "c # t"])
  also have "\<dots> = is_arg (drop k t) arg out"
  proof (rule Suc.IH)
    show "\<not> arg_here arg (drop i t)" if "i < k" for i using Suc.prems(1) [of "Suc i"] that by (simp add: s)
  qed (use Suc.prems(2) s in simp)
  finally show ?case by (simp add: s)
qed simp

text \<open>No option starts inside another one or at the space behind it.\<close>

lemma no_option_inside:
  assumes "opt_ok x" "opt_name arg" "r = [] \<or> hd r = SP" "0 < i" "i \<le> length (opt_text x)"
  shows "\<not> arg_here arg (drop i (opt_text x @ r))"
proof
  let ?w = "opt_text x"
  assume "arg_here arg (drop i (?w @ r))"
  then have d: "take 2 (drop i (?w @ r)) = [DASH, DASH]" by (rule arg_here_dashes [OF assms(2)])
  have "\<not> dashes_at ?w i" using assms(1,4) by (simp add: opt_ok_def)
  then have "i + 2 > length ?w" using d by (cases "Suc (Suc i) \<le> length ?w") (auto simp: dashes_at_def)
  then have "i = length ?w \<or> Suc i = length ?w" using assms(5) by auto
  then have "r \<noteq> [] \<and> hd r = DASH"
  proof
    assume "i = length ?w"
    then show ?thesis using d by (cases r) auto
  next
    assume i: "Suc i = length ?w"
    then have "drop i ?w = [?w ! i]" by (simp add: Cons_nth_drop_Suc [symmetric])
    then show ?thesis using d i by (cases r) auto
  qed
  then show False using assms(3) by auto
qed

lemma is_arg_rest:
  assumes "opt_ok x" "opt_name arg" "r = [] \<or> hd r = SP" "0 < i" "i \<le> length (opt_text x)"
  shows "is_arg (drop i (opt_text x @ r)) arg out = is_arg (drop 1 r) arg out"
proof -
  let ?w = "opt_text x"
  let ?k = "length ?w - i + min 1 (length r)"
  have e: "drop ?k (drop i (?w @ r)) = drop 1 r" using assms(5) by (cases r) simp_all
  have "is_arg (drop i (?w @ r)) arg out = is_arg (drop ?k (drop i (?w @ r))) arg out"
  proof (rule is_arg_skip)
    fix j
    assume "j < ?k"
    then have "i + j \<le> length ?w" using assms(5) by (cases r) auto
    then show "\<not> arg_here arg (drop j (drop i (?w @ r)))"
      using no_option_inside [OF assms(1,2,3), of "i + j"] assms(4) by (simp add: add.commute)
  qed (use assms(5) in \<open>cases r; simp\<close>)
  then show ?thesis by (simp only: e)
qed

lemma is_arg_other:
  assumes "opt_ok x" "opt_name arg" "r = [] \<or> hd r = SP" "fst x \<noteq> arg"
  shows "is_arg (opt_text x @ r) arg out = is_arg (drop 1 r) arg out"
proof (cases "arg_here arg (opt_text x @ r)")
  case False
  let ?w = "opt_text x"
  have "?w \<noteq> []" using assms(1) by (auto simp: opt_ok_def opt_name_def opt_text_def)
  then obtain c t where w: "?w = c # t" by (cases ?w) auto
  have "is_arg (?w @ r) arg out = is_arg (drop 1 (?w @ r)) arg out"
    using False by (simp add: w is_arg.simps [of "c # t @ r"])
  also have "\<dots> = is_arg (drop 1 r) arg out" by (rule is_arg_rest [OF assms(1-3)]) (simp_all add: w)
  finally show ?thesis .
next
  case True
  let ?n = "fst x" and ?w = "opt_text x"
  obtain v where v: "?w @ r = ?n @ v" "v = [] \<or> hd v = SP \<or> hd v = EQS"
    using assms(3) by (cases "snd x") (auto simp: opt_text_def)
  have t: "take (length arg) (?n @ v) = arg" using True by (simp add: arg_here_iff v(1))
  have l: "length arg < length ?n"
  proof (rule ccontr)
    assume n: "\<not> length arg < length ?n"
    have a: "arg = ?n @ take (length arg - length ?n) v" using t n by simp
    then have "take (length arg - length ?n) v \<noteq> []" using assms(4) by auto
    then have "hd v \<in> set (take (length arg - length ?n) v)" by (cases v; cases "length arg - length ?n") auto
    then have "hd v \<in> set arg" using a by (metis Un_iff set_append)
    moreover have "v \<noteq> []" using \<open>take (length arg - length ?n) v \<noteq> []\<close> by auto
    ultimately show False using v(2) assms(2) by (auto simp: opt_name_def)
  qed
  then have d: "drop (length arg) (?w @ r) = ?n ! length arg # drop (Suc (length arg)) (?w @ r)"
    unfolding v(1) by (simp add: Cons_nth_drop_Suc)
  have "?n ! length arg \<in> set ?n" using l by simp
  then have "?n ! length arg \<noteq> SP" "?n ! length arg \<noteq> EQS" using assms(1) by (auto simp: opt_ok_def opt_name_def)
  moreover have "?w @ r \<noteq> []" using v(1) l by auto
  ultimately have "is_arg (?w @ r) arg out = is_arg (drop (Suc (length arg)) (?w @ r)) arg out"
    using is_arg_step [OF True _ d] by simp
  also have "\<dots> = is_arg (drop 1 r) arg out"
    by (rule is_arg_rest [OF assms(1-3)]) (use l in \<open>simp_all add: opt_text_def\<close>)
  finally show ?thesis .
qed

lemma is_arg_found:
  assumes "opt_ok x" "r = [] \<or> hd r = SP"
  shows "is_arg (opt_text x @ r) (fst x) (Some buf) =
    (case snd x of None \<Rightarrow> Inr (True, Some buf) | Some v \<Rightarrow> rbind (write_value v buf) (\<lambda>b. Inr (True, Some b)))"
proof -
  have h: "arg_here (fst x) (opt_text x @ r)" "opt_text x @ r \<noteq> []"
    using assms(1) by (auto simp: arg_here_iff opt_text_def opt_ok_def opt_name_def)
  show ?thesis
  proof (cases "snd x")
    case None
    then have "drop (length (fst x)) (opt_text x @ r) = r" by (simp add: opt_text_def)
    from is_arg_step [OF h this] show ?thesis using assms(2) None by (auto simp: take_value_def)
  next
    case (Some v)
    then have d: "drop (length (fst x)) (opt_text x @ r) = EQS # v @ r" by (simp add: opt_text_def)
    have "SP \<notin> set v" using assms(1) Some by (auto simp: opt_ok_def opt_text_def)
    then have "takeWhile (\<lambda>c. c \<noteq> SP) v = v" by (simp add: takeWhile_eq_all_conv) blast
    then have "takeWhile (\<lambda>c. c \<noteq> SP) (v @ r) = v"
      using assms(2) \<open>SP \<notin> set v\<close> by (cases r) (auto simp: takeWhile_append)
    with is_arg_step [OF h d] show ?thesis using Some by (simp add: take_value_def)
  qed
qed

text \<open>
  C36. On a line of options, in which two dashes occur only at the start of a name, \<open>is_arg\<close> finds exactly the names that are there, and
  gives the value of the first occurrence.
\<close>

theorem is_arg_finds:
  assumes "\<forall>x \<in> set xs. opt_ok x" "opt_name arg"
  shows "is_arg (line_of xs) arg (Some buf) = (case map_of xs arg of
      None \<Rightarrow> Inr (False, Some buf)
    | Some None \<Rightarrow> Inr (True, Some buf)
    | Some (Some v) \<Rightarrow> rbind (write_value v buf) (\<lambda>b. Inr (True, Some b)))"
  using assms(1)
proof (induction xs rule: line_of.induct)
  case 1
  show ?case by (simp add: is_arg.simps)
next
  case (2 x)
  then show ?case using is_arg_found [of x "[]" buf] is_arg_other [of x arg "[]" "Some buf"] assms(2)
    by (cases x) (auto simp: is_arg.simps [of "[]"] split: option.split)
next
  case (3 x y xs)
  show ?case
  proof (cases "fst x = arg")
    case True
    then show ?thesis using is_arg_found [of x "SP # line_of (y # xs)" buf] 3(2) by (cases x) (auto split: option.split)
  next
    case False
    then have "map_of (x # y # xs) arg = map_of (y # xs) arg" by (cases x) auto
    then show ?thesis using is_arg_other [of x arg "SP # line_of (y # xs)" "Some buf"] False 3 assms(2) by simp
  qed
qed

text \<open>The line \<open>--syms=a --init-arg --init=b\<close>.\<close>

definition demo_options :: option_list where
  "demo_options = [([DASH, DASH, 0x73, 0x79, 0x6D, 0x73], Some [0x61]), (init_arg_opt, None), (init_opt, Some [0x62])]"

theorem is_arg_finds_witness: "is_arg (line_of demo_options) init_opt (Some [0, 0]) = Inr (True, Some [0x62, 0])"
proof -
  have f: "\<not> dashes_at s i" if "list_all (\<lambda>j. \<not> dashes_at s j) [1..<length s]" "0 < i" for s i
    using that by (cases "i < length s") (auto simp: dashes_at_def list_all_iff)
  have "list_all (\<lambda>x. opt_name (fst x) \<and> SP \<notin> set (opt_text x) \<and> list_all (\<lambda>j. \<not> dashes_at (opt_text x) j) [1..<length (opt_text x)]) demo_options"
    by code_simp
  then have "\<forall>x \<in> set demo_options. opt_ok x" using f by (auto simp: opt_ok_def list_all_iff [of _ demo_options])
  moreover have "opt_name init_opt" by code_simp
  ultimately have "is_arg (line_of demo_options) init_opt (Some [0, 0]) = (case map_of demo_options init_opt of
      None \<Rightarrow> Inr (False, Some [0, 0])
    | Some None \<Rightarrow> Inr (True, Some [0, 0])
    | Some (Some v) \<Rightarrow> rbind (write_value v [0, 0]) (\<lambda>b. Inr (True, Some b)))"
    by (rule is_arg_finds)
  also have "\<dots> = Inr (True, Some [0x62, 0])" by code_simp
  finally show ?thesis .
qed

text \<open>In the copy for programs an option is also found as the start of a longer name.\<close>

lemma user_is_arg_prefix: "user_is_arg (line_of [(init_arg_opt, Some [0x61])]) init_opt (Some [0]) = Inr (True, Some [0])"
  by code_simp

section \<open>Symbols: what the table holds\<close>

text \<open>A line of the file that \<open>gen_syms.sh\<close> makes: eight digits in lower case, a space, the name.\<close>

definition hex_digit :: "u32 \<Rightarrow> u8" where
  "hex_digit d = (if d < 10 then 0x30 + ucast d else 0x61 + ucast (d - 10))"

primrec hex_text :: "nat \<Rightarrow> u32 \<Rightarrow> u8 list" where
  "hex_text 0 a = []"
| "hex_text (Suc n) a = hex_text n (drop_bit 4 a) @ [hex_digit (a AND 0xf)]"

definition sym_line :: "symbol \<Rightarrow> u8 list" where
  "sym_line s = hex_text 8 (sym_address s) @ SP # sym_name s @ [0x0A]"

definition local_name :: "u8 list \<Rightarrow> bool" where
  "local_name n \<longleftrightarrow> char_at n 0 = 0x2E \<and> char_at n 1 = 0x4C"

lemma sym_digit_hex: "sym_digit (hex_digit (a AND 0xf)) = Some (16, a AND 0xf)"
proof -
  have all: "list_all (\<lambda>d. sym_digit (hex_digit d) = Some (16, d)) [0, 1, 2, 3, 4, 5, 6, 7, 8, 9, 10, 11, 12, 13, 14, 15]" by code_simp
  have "a AND 0xf < 16" using word_and_le1 [of a "0xf"] by (simp add: word_le_nat_alt word_less_nat_alt)
  then have "unat (a AND 0xf) < 16" by (simp add: word_less_nat_alt)
  moreover have "a AND 0xf = of_nat (unat (a AND 0xf))" by simp
  ultimately have "a AND 0xf \<in> set (map of_nat [0..<16])" by (metis atLeastLessThan_iff image_eqI list.set_map set_upt zero_le)
  also have "map of_nat [0..<16] = [0, 1, 2, 3, 4, 5, 6, 7, 8, 9, 10, 11, 12, 13, 14, 15 :: u32]" by code_simp
  finally show ?thesis using all by (auto simp: list_all_iff)
qed

lemma nibble_step: "drop_bit 4 a * 16 + (a AND 0xf) = (a :: u32)"
proof -
  have "drop_bit 4 a = a div 16" "a AND 0xf = a mod 16"
    using take_bit_eq_mask [of 4 a] by (simp_all add: drop_bit_eq_div take_bit_eq_mod mask_eq_exp_minus_1)
  then show ?thesis using div_mult_mod_eq [of a 16] by simp
qed

lemma sym_addr_append:
  "sym_addr b (hex_text n a @ r) = sym_addr (b * 16 ^ n + take_bit (4 * n) a) r"
proof (induction n arbitrary: a r)
  case (Suc n)
  have "take_bit (4 * Suc n) a = take_bit (4 * n) (drop_bit 4 a) * 16 + (a AND 0xf)"
  proof -
    have m: "(0xf :: u32) = mask 4" by (simp add: mask_eq_exp_minus_1)
    have "take_bit (4 + 4 * n) a AND 0xf = a AND 0xf" unfolding m by (rule bit_word_eqI) (auto simp: bit_simps)
    then show ?thesis using nibble_step [of "take_bit (4 + 4 * n) a"] by (simp add: drop_bit_take_bit)
  qed
  then show ?case by (simp add: Suc sym_digit_hex algebra_simps)
qed simp

lemma symfile_line:
  assumes "0x0A \<notin> set (sym_name s)" "length (sym_name s) < SYM_NAME_SIZE"
  shows "symfile_loop (sym_line s @ r) acc = symfile_loop r (register_symbol s acc)"
proof -
  have a: "sym_addr 0 (sym_line s @ r) = (sym_address s, SP # sym_name s @ 0x0A # r)"
    by (simp add: sym_line_def sym_addr_append sym_digit_def take_bit_word_eq_self)
  have n: "takeWhile (\<lambda>c. c \<noteq> 0x0A) (sym_name s @ 0x0A # r) = sym_name s" "dropWhile (\<lambda>c. c \<noteq> 0x0A) (sym_name s @ 0x0A # r) = 0x0A # r"
    using assms(1) by (auto simp: takeWhile_append dropWhile_append takeWhile_eq_all_conv)
  have e: "\<lparr>sym_address = sym_address s, sym_name = sym_name s\<rparr> = s" by simp
  show ?thesis using assms n by (simp add: symfile_loop.simps [of "sym_line s @ r"] a char_at_def e)
qed

text \<open>The table after the file has been read, and the symbol of an address: the one in front of it.\<close>

lemma init_global_symbols_reads:
  assumes "\<forall>s \<in> set ss. 0x0A \<notin> set (sym_name s) \<and> length (sym_name s) < SYM_NAME_SIZE"
  shows "init_global_symbols (concat (map sym_line ss)) acc = Inr (acc @ filter (\<lambda>s. \<not> local_name (sym_name s)) ss)"
  using assms unfolding init_global_symbols_def
proof (induction ss arbitrary: acc)
  case Nil
  show ?case by (simp add: symfile_loop.simps char_at_def)
next
  case (Cons s ss)
  then show ?case by (simp add: symfile_line register_symbol_def local_name_def)
qed

lemma resolve_between:
  assumes "sorted_wrt (<) (map sym_address ss)" "Suc i < length ss" "sym_address (ss ! i) \<le> a" "a < sym_address (ss ! Suc i)"
    "sym_address (ss ! Suc i) \<noteq> 0xffffffff"
  shows "resolve_symbol_from_addr behind a ss = Some (sym_name (ss ! i))"
  using assms unfolding resolve_symbol_from_addr_def
proof (induction ss arbitrary: i)
  case (Cons s ss)
  show ?case
  proof (cases i)
    case 0
    then show ?thesis using Cons.prems by (cases ss) simp_all
  next
    case (Suc j)
    obtain n ns where ss: "ss = n # ns" using Cons.prems(2) Suc by (cases ss) auto
    have "sym_address n \<le> sym_address (ss ! j)"
      using Cons.prems(1,2) Suc by (cases j) (auto simp: ss intro!: less_imp_le)
    then have "\<not> a < sym_address n" using Cons.prems(3) Suc by (auto simp: not_less)
    then show ?thesis using Cons.IH [of j] Cons.prems Suc by (simp add: ss)
  qed
qed simp

text \<open>Digits in upper case give another address.\<close>

lemma upper_case_digits: "sym_addr 0 [0x46, 0x46] = (0xF0, [])"
  by code_simp

end
