(* ===== verification/Saf.thy ===== *)
theory Saf
  imports Initrd
begin

text \<open>
  The tools for the archives of the initial RAM disk, \<open>pkgs/saf\<close>: \<open>saf-make\<close>, which writes a folder of the mounted file system to an
  archive, and \<open>saf-extract\<close>, which creates the files of an archive. The folder is given as a tree in the order in which \<open>dir_at\<close> lists it;
  what the extraction does to the file system is the list of its calls. The archive is the array of \<open>alloc_size\<close> bytes, a write behind it an access
  outside. It is shown that what \<open>Initrd\<close> reads from the archive is the folder.
\<close>

section \<open>Making an archive\<close>

datatype saf_tree = SafFile "u8 list" | SafDir "(u8 list \<times> saf_tree) list"

record arch_data =
  a_buf :: "u8 list"
  curr_offset :: nat

definition le64 :: "u64 \<Rightarrow> u8 list" where
  "le64 v = bytes_of_u32 (ucast v) @ bytes_of_u32 (ucast (drop_bit 32 v))"

definition arch_put :: "nat \<Rightarrow> u8 list \<Rightarrow> arch_data \<Rightarrow> arch_data res" where
  "arch_put off bs a = (if off + length bs \<le> length (a_buf a)
     then Inr (a\<lparr>a_buf := take off (a_buf a) @ bs @ drop (off + length bs) (a_buf a)\<rparr>) else Inl OutOfBounds)"

text \<open>\<open>panic\<close> ends the program.\<close>

definition inc_offset :: "nat \<Rightarrow> arch_data \<Rightarrow> arch_data res" where
  "inc_offset d a = (if curr_offset a + d > length (a_buf a) then Inl Aborted else Inr (a\<lparr>curr_offset := curr_offset a + d\<rparr>))"

abbreviation MAGIC_NUMBER :: u64 where "MAGIC_NUMBER \<equiv> 0x766863726c706d73"
abbreviation SAF_HDR :: nat where "SAF_HDR \<equiv> 280"
abbreviation SAF_FOLDER :: nat where "SAF_FOLDER \<equiv> 288"
abbreviation SAF_FILE :: nat where "SAF_FILE \<equiv> 296"

text \<open>The header of a node, up to its flags, which are written first in both branches.\<close>

definition make_header :: "u8 list \<Rightarrow> nat \<Rightarrow> u64 \<Rightarrow> arch_data \<Rightarrow> arch_data res" where
  "make_header name nodesize flags a =
     (let off = curr_offset a in
      rbind (arch_put off (replicate SAF_HDR 0) a) (\<lambda>a.
      rbind (arch_put off (le64 MAGIC_NUMBER) a) (\<lambda>a.
      rbind (arch_put (off + 16) (name @ [0]) a) (\<lambda>a.
      rbind (inc_offset nodesize a) (\<lambda>a.
      rbind (arch_put (off + 8) (le64 (of_nat nodesize)) a) (\<lambda>a.
      arch_put (off + 272) (le64 flags) a))))))"

primrec put_children :: "nat \<Rightarrow> u64 list \<Rightarrow> arch_data \<Rightarrow> arch_data res" where
  "put_children off [] a = Inr a"
| "put_children off (c # cs) a = rbind (arch_put off (le64 c) a) (put_children (off + 8) cs)"

definition put_table :: "nat \<Rightarrow> u64 list \<Rightarrow> arch_data \<Rightarrow> arch_data res" where
  "put_table off offs a = rbind (arch_put (off + 280) (le64 (of_nat (length offs))) a) (put_children (off + SAF_FOLDER) offs)"

definition put_file :: "nat \<Rightarrow> u8 list \<Rightarrow> arch_data \<Rightarrow> arch_data res" where
  "put_file off d a =
     rbind (arch_put (off + 288) (le64 (of_nat (curr_offset a))) a) (\<lambda>a.
     rbind (arch_put (off + 280) (le64 (of_nat (length d))) a) (\<lambda>a.
     rbind (inc_offset (length d) a) (arch_put (off + SAF_FILE) d)))"

text \<open>The offsets of the nodes it has made, in order.\<close>

fun make_node :: "(u8 list \<times> saf_tree) list \<Rightarrow> arch_data \<Rightarrow> (u64 list \<times> arch_data) res" where
  "make_node [] a = Inr ([], a)"
| "make_node ((name, SafDir cs) # rest) a =
     rbind (make_header name (SAF_FOLDER + 8 * length cs) FLAG_ISFOLDER a) (\<lambda>a1.
     rbind (make_node cs a1) (\<lambda>(offs, a2).
     rbind (put_table (curr_offset a) offs a2) (\<lambda>a3.
     rbind (make_node rest a3) (\<lambda>(os, a4). Inr (of_nat (curr_offset a) # os, a4)))))"
| "make_node ((name, SafFile d) # rest) a =
     rbind (make_header name SAF_FILE 0 a) (\<lambda>a1.
     rbind (put_file (curr_offset a) d a1) (\<lambda>a2.
     rbind (make_node rest a2) (\<lambda>(os, a3). Inr (of_nat (curr_offset a) # os, a3))))"

text \<open>\<open>size_t\<close> has 32 bits.\<close>

fun calculate_size :: "(u8 list \<times> saf_tree) list \<Rightarrow> u32" where
  "calculate_size [] = 0"
| "calculate_size ((name, SafDir cs) # rest) = of_nat (SAF_FOLDER + 8 * length cs) + calculate_size cs + calculate_size rest"
| "calculate_size ((name, SafFile d) # rest) = of_nat SAF_FILE + of_nat (length d) + calculate_size rest"

text \<open>The main program: the root folder has no name. The archive is the part of the array up to \<open>curr_offset\<close>.\<close>

definition saf_make :: "(u8 list \<times> saf_tree) list \<Rightarrow> u8 list res" where
  "saf_make cs =
     (let nodesize = SAF_FOLDER + 8 * length cs;
          alloc_needed = calculate_size cs + of_nat nodesize;
          a = \<lparr>a_buf = replicate (unat alloc_needed) 0, curr_offset = 0\<rparr>
      in rbind (inc_offset nodesize a) (\<lambda>a.
         rbind (arch_put 0 (le64 MAGIC_NUMBER) a) (\<lambda>a.
         rbind (arch_put 8 (le64 (of_nat nodesize)) a) (\<lambda>a.
         rbind (arch_put 272 (le64 FLAG_ISFOLDER) a) (\<lambda>a.
         rbind (make_node cs a) (\<lambda>(offs, a).
         rbind (put_table 0 offs a) (\<lambda>a.
         Inr (take (curr_offset a) (a_buf a)))))))))"

section \<open>Extracting an archive\<close>

text \<open>
  The calls that create folders and files. The nodes of the list are those of one folder; \<open>parsenode\<close> is called for each. A damaged
  archive may be a cycle, then the extraction does not end. A path has to fit the array of \<open>MAX_PATH_SIZE\<close> bytes. Every file can be opened.
\<close>

datatype fs_call = Mkdir "u8 list" | WriteFile "u8 list" "u8 list"

abbreviation MAX_PATH_SIZE :: nat where "MAX_PATH_SIZE \<equiv> 1024"

definition full_path :: "u8 list \<Rightarrow> u8 list \<Rightarrow> u8 list" where
  "full_path path name = path @ (if path \<noteq> [] \<and> last path = SLASH then [] else [SLASH]) @ name"

partial_function (option) parse_nodes :: "mem \<Rightarrow> u32 \<Rightarrow> u8 list \<Rightarrow> u32 list \<Rightarrow> fs_call list \<Rightarrow> fs_call list res option" where
  "parse_nodes m base path ns acc = (case ns of
       [] \<Rightarrow> Some (Inr acc)
     | x # xs \<Rightarrow>
         if ld64 m x \<noteq> MAGIC_NUMBER then Some (Inl Aborted)
         else if length (full_path path (saf_name m x)) \<ge> MAX_PATH_SIZE then Some (Inl OutOfBounds)
         else if saf_flags m x = FLAG_ISFOLDER then
           Option.bind (parse_nodes m base (full_path path (saf_name m x)) (map (saf_child m base x) [0..<unat (saf_count m x)])
               (acc @ [Mkdir (full_path path (saf_name m x))]))
             (\<lambda>r. case r of Inl e \<Rightarrow> Some (Inl e) | Inr acc' \<Rightarrow> parse_nodes m base path xs acc')
         else parse_nodes m base path xs
           (acc @ [WriteFile (full_path path (saf_name m x)) (load_bytes m (base + ld32 m (x + 288)) (unat (ld32 m (x + 280))))]))"

definition saf_extract :: "mem \<Rightarrow> u32 \<Rightarrow> u8 list \<Rightarrow> fs_call list res option" where
  "saf_extract m base output = parse_nodes m base output [base] []"

section \<open>The layout of an archive\<close>

fun nodes_size :: "(u8 list \<times> saf_tree) list \<Rightarrow> nat" where
  "nodes_size [] = 0"
| "nodes_size ((name, SafDir cs) # rest) = SAF_FOLDER + 8 * length cs + nodes_size cs + nodes_size rest"
| "nodes_size ((name, SafFile d) # rest) = SAF_FILE + length d + nodes_size rest"

fun offsets_from :: "nat \<Rightarrow> (u8 list \<times> saf_tree) list \<Rightarrow> nat list" where
  "offsets_from off [] = []"
| "offsets_from off (x # rest) = off # offsets_from (off + nodes_size [x]) rest"

definition header_bytes :: "u8 list \<Rightarrow> nat \<Rightarrow> u64 \<Rightarrow> u8 list" where
  "header_bytes name nodesize flags = le64 MAGIC_NUMBER @ le64 (of_nat nodesize) @ name @ replicate (256 - length name) 0 @ le64 flags"

definition table_bytes :: "nat list \<Rightarrow> u8 list" where
  "table_bytes os = le64 (of_nat (length os)) @ concat (map (\<lambda>x. le64 (of_nat x)) os)"

fun nodes_bytes :: "nat \<Rightarrow> (u8 list \<times> saf_tree) list \<Rightarrow> u8 list" where
  "nodes_bytes off [] = []"
| "nodes_bytes off ((name, SafDir cs) # rest) =
     (let n = SAF_FOLDER + 8 * length cs in
      header_bytes name n FLAG_ISFOLDER @ table_bytes (offsets_from (off + n) cs) @ nodes_bytes (off + n) cs @ nodes_bytes (off + n + nodes_size cs) rest)"
| "nodes_bytes off ((name, SafFile d) # rest) =
     header_bytes name SAF_FILE 0 @ le64 (of_nat (length d)) @ le64 (of_nat (off + SAF_FILE)) @ d @ nodes_bytes (off + SAF_FILE + length d) rest"

fun names_ok :: "(u8 list \<times> saf_tree) list \<Rightarrow> bool" where
  "names_ok [] = True"
| "names_ok ((name, SafDir cs) # rest) = (0 \<notin> set name \<and> length name < 256 \<and> names_ok cs \<and> names_ok rest)"
| "names_ok ((name, SafFile d) # rest) = (0 \<notin> set name \<and> length name < 256 \<and> names_ok rest)"

lemma length_le64 [simp]: "length (le64 v) = 8"
  by (simp add: le64_def)

lemma length_header_bytes [simp]: "length name \<le> 256 \<Longrightarrow> length (header_bytes name n f) = SAF_HDR"
  by (simp add: header_bytes_def)

lemma length_offsets_from [simp]: "length (offsets_from off cs) = length cs"
  by (induction cs arbitrary: off) auto

lemma length_concat_le64 [simp]: "length (concat (map (\<lambda>x. le64 (f x)) xs)) = 8 * length xs"
  by (induction xs) auto

lemma length_table_bytes [simp]: "length (table_bytes os) = 8 + 8 * length os"
  by (simp add: table_bytes_def)

lemma nodes_size_Cons: "nodes_size (x # rest) = nodes_size [x] + nodes_size rest"
  by (cases x rule: prod.exhaust, rename_tac n t, case_tac t) auto

lemma length_nodes_bytes [simp]: "names_ok cs \<Longrightarrow> length (nodes_bytes off cs) = nodes_size cs"
  by (induction off cs rule: nodes_bytes.induct) (auto simp: Let_def)

lemma list_cut: "length v = i + j \<Longrightarrow> \<exists>x y. v = x @ y \<and> length x = i \<and> length y = j"
  by (intro exI [of _ "take i v"] exI [of _ "drop i v"]) simp

lemma arch_put_split:
  "length u = off \<Longrightarrow> length v = length bs \<Longrightarrow> a_buf a = u @ v @ w \<Longrightarrow> arch_put off bs a = Inr (a\<lparr>a_buf := u @ bs @ w\<rparr>)"
  by (simp add: arch_put_def)

lemma put_children_split:
  assumes "length u = off" "length v = 8 * length cs" "a_buf a = u @ v @ w"
  shows "put_children off cs a = Inr (a\<lparr>a_buf := u @ concat (map le64 cs) @ w\<rparr>)"
  using assms
proof (induction cs arbitrary: off u v a)
  case (Cons c cs)
  have v: "v = take 8 v @ drop 8 v" by simp
  have p: "arch_put off (le64 c) a = Inr (a\<lparr>a_buf := u @ le64 c @ drop 8 v @ w\<rparr>)"
    by (rule arch_put_split [of _ _ "take 8 v"]) (use Cons.prems v in auto)
  show ?case using Cons.IH [of "u @ le64 c" "off + 8" "drop 8 v" "a\<lparr>a_buf := u @ le64 c @ drop 8 v @ w\<rparr>"] Cons.prems by (simp add: p)
qed simp

lemma make_header_split:
  assumes "length u = curr_offset a" "length v = SAF_HDR" "a_buf a = u @ v @ w" "length name < 256" "n \<le> SAF_HDR + length w"
  shows "make_header name n f a = Inr (a\<lparr>a_buf := u @ header_bytes name n f @ w, curr_offset := curr_offset a + n\<rparr>)"
proof -
  let ?z = "\<lambda>k. replicate k (0 :: u8)"
  let ?a = "\<lambda>b. a\<lparr>a_buf := b\<rparr>"
  have z: "?z 280 = ?z 8 @ ?z 8 @ ?z (length name + 1) @ ?z (255 - length name) @ ?z 8"
  proof -
    have "?z 280 = ?z (8 + (8 + (length name + 1 + (255 - length name + 8))))" using assms(4) by simp
    then show ?thesis by (simp only: replicate_add append_assoc)
  qed
  have 1: "arch_put (curr_offset a) (?z 280) a = Inr (?a (u @ ?z 280 @ w))"
    by (rule arch_put_split) (use assms in auto)
  have 2: "arch_put (curr_offset a) (le64 MAGIC_NUMBER) (?a (u @ ?z 280 @ w)) =
      Inr (?a (u @ le64 MAGIC_NUMBER @ ?z 8 @ ?z (length name + 1) @ ?z (255 - length name) @ ?z 8 @ w))"
    by (subst arch_put_split [of u _ "?z 8" _ _ "?z 8 @ ?z (length name + 1) @ ?z (255 - length name) @ ?z 8 @ w"]) (use assms(1) in \<open>simp_all add: z\<close>)
  have 3: "arch_put (curr_offset a + 16) (name @ [0]) (?a (u @ le64 MAGIC_NUMBER @ ?z 8 @ ?z (length name + 1) @ ?z (255 - length name) @ ?z 8 @ w)) =
      Inr (?a (u @ le64 MAGIC_NUMBER @ ?z 8 @ (name @ [0]) @ ?z (255 - length name) @ ?z 8 @ w))"
    by (subst arch_put_split [of "u @ le64 MAGIC_NUMBER @ ?z 8" _ "?z (length name + 1)" _ _ "?z (255 - length name) @ ?z 8 @ w"]) (use assms(1) in simp_all)
  let ?b = "a\<lparr>a_buf := u @ le64 MAGIC_NUMBER @ ?z 8 @ (name @ [0]) @ ?z (255 - length name) @ ?z 8 @ w, curr_offset := curr_offset a + n\<rparr>"
  have 4: "inc_offset n (?a (u @ le64 MAGIC_NUMBER @ ?z 8 @ (name @ [0]) @ ?z (255 - length name) @ ?z 8 @ w)) = Inr ?b"
    using assms by (simp add: inc_offset_def)
  have 5: "arch_put (curr_offset a + 8) (le64 (of_nat n)) ?b =
      Inr (?b\<lparr>a_buf := u @ le64 MAGIC_NUMBER @ le64 (of_nat n) @ (name @ [0]) @ ?z (255 - length name) @ ?z 8 @ w\<rparr>)"
    by (subst arch_put_split [of "u @ le64 MAGIC_NUMBER" _ "?z 8" _ _ "(name @ [0]) @ ?z (255 - length name) @ ?z 8 @ w"]) (use assms(1) in simp_all)
  have 6: "arch_put (curr_offset a + 272) (le64 f) (?b\<lparr>a_buf := u @ le64 MAGIC_NUMBER @ le64 (of_nat n) @ (name @ [0]) @ ?z (255 - length name) @ ?z 8 @ w\<rparr>) =
      Inr (?b\<lparr>a_buf := u @ le64 MAGIC_NUMBER @ le64 (of_nat n) @ (name @ [0]) @ ?z (255 - length name) @ le64 f @ w\<rparr>)"
    by (subst arch_put_split [of "u @ le64 MAGIC_NUMBER @ le64 (of_nat n) @ (name @ [0]) @ ?z (255 - length name)" _ "?z 8" _ _ w]) (use assms(1,4) in simp_all)
  have h: "(name @ [0]) @ ?z (255 - length name) = name @ ?z (256 - length name)"
  proof -
    have "256 - length name = Suc (255 - length name)" using assms(4) by simp
    then show ?thesis by simp
  qed
  show ?thesis
    unfolding make_header_def Let_def 1 rbind_Inr 2 3 4 5 6 by (simp add: header_bytes_def h [simplified])
qed

lemma put_table_split:
  assumes "length u = off + SAF_HDR" "length t = 8 + 8 * length os" "a_buf a = u @ t @ w"
  shows "put_table off (map of_nat os) a = Inr (a\<lparr>a_buf := u @ table_bytes os @ w\<rparr>)"
proof -
  obtain s r where t: "t = s @ r" "length s = 8" "length r = 8 * length os" using list_cut [OF assms(2)] by blast
  have 1: "arch_put (off + 280) (le64 (of_nat (length os))) a = Inr (a\<lparr>a_buf := u @ le64 (of_nat (length os)) @ r @ w\<rparr>)"
    by (rule arch_put_split [of _ _ s]) (use assms t in simp_all)
  show ?thesis
    using put_children_split [of "u @ le64 (of_nat (length os))" "off + SAF_FOLDER" r "map of_nat os" "a\<lparr>a_buf := u @ le64 (of_nat (length os)) @ r @ w\<rparr>" w]
      assms(1) t by (simp add: put_table_def 1 table_bytes_def comp_def)
qed

lemma put_file_split:
  assumes "length u = off + SAF_HDR" "length v = 16 + length d" "a_buf a = u @ v @ w" "curr_offset a + length d \<le> length (a_buf a)"
  shows "put_file off d a =
    Inr (a\<lparr>a_buf := u @ le64 (of_nat (length d)) @ le64 (of_nat (curr_offset a)) @ d @ w, curr_offset := curr_offset a + length d\<rparr>)"
proof -
  have "length v = 8 + (8 + length d)" using assms(2) by simp
  then obtain s t x where v: "v = s @ t @ x" "length s = 8" "length t = 8" "length x = length d" using list_cut by metis
  let ?c = "le64 (of_nat (curr_offset a))" and ?l = "le64 (of_nat (length d))"
  have 1: "arch_put (off + 288) ?c a = Inr (a\<lparr>a_buf := u @ s @ ?c @ x @ w\<rparr>)"
    by (subst arch_put_split [of "u @ s" _ t _ _ "x @ w"]) (use assms v in simp_all)
  have 2: "arch_put (off + 280) ?l (a\<lparr>a_buf := u @ s @ ?c @ x @ w\<rparr>) = Inr (a\<lparr>a_buf := u @ ?l @ ?c @ x @ w\<rparr>)"
    by (subst arch_put_split [of u _ s _ _ "?c @ x @ w"]) (use assms v in simp_all)
  have 3: "inc_offset (length d) (a\<lparr>a_buf := u @ ?l @ ?c @ x @ w\<rparr>) = Inr (a\<lparr>a_buf := u @ ?l @ ?c @ x @ w, curr_offset := curr_offset a + length d\<rparr>)"
    using assms v by (simp add: inc_offset_def)
  have 4: "arch_put (off + SAF_FILE) d (a\<lparr>a_buf := u @ ?l @ ?c @ x @ w, curr_offset := curr_offset a + length d\<rparr>) =
      Inr (a\<lparr>a_buf := u @ ?l @ ?c @ d @ w, curr_offset := curr_offset a + length d\<rparr>)"
    by (subst arch_put_split [of "u @ ?l @ ?c" _ x _ _ w]) (use assms v in simp_all)
  show ?thesis by (simp add: put_file_def 1 2 3 4)
qed

text \<open>\<open>make_node\<close> fills the part of the array from \<open>curr_offset\<close> on that its nodes need, and nothing else.\<close>

lemma make_node_layout:
  assumes "names_ok cs" "length u = curr_offset a" "length v = nodes_size cs" "a_buf a = u @ v @ w"
  shows "make_node cs a = Inr (map of_nat (offsets_from (curr_offset a) cs),
    a\<lparr>a_buf := u @ nodes_bytes (curr_offset a) cs @ w, curr_offset := curr_offset a + nodes_size cs\<rparr>)"
  using assms
proof (induction cs a arbitrary: u v w rule: make_node.induct)
  case (2 name cs rest a)
  let ?n = "SAF_FOLDER + 8 * length cs"
  let ?o = "curr_offset a + ?n" and ?h = "header_bytes name ?n FLAG_ISFOLDER"
  have l: "length name < 256" "names_ok cs" "names_ok rest" using 2(3) by simp_all
  have "length v = SAF_HDR + ((8 + 8 * length cs) + (nodes_size cs + nodes_size rest))" using 2(5) by simp
  then obtain h t x y where v: "v = h @ t @ x @ y" "length h = SAF_HDR" "length t = 8 + 8 * length cs" "length x = nodes_size cs" "length y = nodes_size rest"
    using list_cut by metis
  define a1 where "a1 = a\<lparr>a_buf := u @ ?h @ t @ x @ y @ w, curr_offset := ?o\<rparr>"
  have h1: "make_header name ?n FLAG_ISFOLDER a = Inr a1"
    unfolding a1_def by (rule make_header_split [of u a h]) (use 2(4,6) v l in simp_all)
  define os where "os = offsets_from ?o cs"
  define a2 where "a2 = a1\<lparr>a_buf := u @ ?h @ t @ nodes_bytes ?o cs @ y @ w, curr_offset := ?o + nodes_size cs\<rparr>"
  have h2: "make_node cs a1 = Inr (map of_nat os, a2)"
    using 2(1) [OF h1 l(2), of "u @ ?h @ t" x "y @ w"] 2(4) v l by (simp add: a1_def a2_def os_def)
  define a3 where "a3 = a2\<lparr>a_buf := u @ ?h @ table_bytes os @ nodes_bytes ?o cs @ y @ w\<rparr>"
  have h3: "put_table (curr_offset a) (map of_nat os) a2 = Inr a3"
    using put_table_split [of "u @ ?h" "curr_offset a" t os a2 "nodes_bytes ?o cs @ y @ w"] 2(4) v l by (simp add: a2_def a3_def os_def)
  have h4: "make_node rest a3 = Inr (map of_nat (offsets_from (?o + nodes_size cs) rest),
      a3\<lparr>a_buf := u @ ?h @ table_bytes os @ nodes_bytes ?o cs @ nodes_bytes (?o + nodes_size cs) rest @ w, curr_offset := ?o + nodes_size cs + nodes_size rest\<rparr>)"
    using 2(2) [OF h1 h2 refl h3 l(3), of "u @ ?h @ table_bytes os @ nodes_bytes ?o cs" y w] 2(4) v l
    by (simp add: a3_def a2_def a1_def os_def)
  show ?case
    by (simp add: h1 [simplified] h2 h3 h4) (simp add: a3_def a2_def a1_def os_def Let_def algebra_simps)
next
  case (3 name d rest a)
  let ?h = "header_bytes name SAF_FILE 0" and ?o = "curr_offset a + SAF_FILE"
  have l: "length name < 256" "names_ok rest" using 3(2) by simp_all
  have "length v = SAF_HDR + (16 + length d + nodes_size rest)" using 3(4) by simp
  then obtain h x y where v: "v = h @ x @ y" "length h = SAF_HDR" "length x = 16 + length d" "length y = nodes_size rest"
    using list_cut by metis
  define a1 where "a1 = a\<lparr>a_buf := u @ ?h @ x @ y @ w, curr_offset := ?o\<rparr>"
  have h1: "make_header name SAF_FILE 0 a = Inr a1"
    unfolding a1_def by (rule make_header_split [of u a h]) (use 3(3,5) v l in simp_all)
  let ?b = "u @ ?h @ le64 (of_nat (length d)) @ le64 (of_nat ?o) @ d"
  define a2 where "a2 = a1\<lparr>a_buf := ?b @ y @ w, curr_offset := ?o + length d\<rparr>"
  have h2: "put_file (curr_offset a) d a1 = Inr a2"
    using put_file_split [of "u @ ?h" "curr_offset a" x d a1 "y @ w"] 3(3) v l by (simp add: a1_def a2_def)
  have h3: "make_node rest a2 = Inr (map of_nat (offsets_from (?o + length d) rest),
      a2\<lparr>a_buf := ?b @ nodes_bytes (?o + length d) rest @ w, curr_offset := ?o + length d + nodes_size rest\<rparr>)"
    using 3(1) [OF h1 h2 l(2), of ?b y w] 3(3) v l by (simp add: a2_def a1_def)
  show ?case
    by (simp add: h1 h2 h3) (simp add: a2_def a1_def algebra_simps)
qed simp

definition saf_bytes :: "(u8 list \<times> saf_tree) list \<Rightarrow> u8 list" where
  "saf_bytes cs = (let n = SAF_FOLDER + 8 * length cs in header_bytes [] n FLAG_ISFOLDER @ table_bytes (offsets_from n cs) @ nodes_bytes n cs)"

lemma calculate_size_nodes: "calculate_size cs = of_nat (nodes_size cs)"
  by (induction cs rule: calculate_size.induct) simp_all

text \<open>The array is exactly large enough, and the archive is the layout.\<close>

lemma saf_make_bytes:
  assumes "names_ok cs" "SAF_FOLDER + 8 * length cs + nodes_size cs < 2 ^ 32"
  shows "saf_make cs = Inr (saf_bytes cs)"
proof -
  let ?n = "SAF_FOLDER + 8 * length cs" and ?z = "\<lambda>k. replicate k (0 :: u8)"
  have "unat (calculate_size cs + of_nat ?n) = ?n + nodes_size cs"
    using assms(2) unat_of_nat_u32 [of "?n + nodes_size cs"] by (simp add: calculate_size_nodes add.commute del: unat_of_nat_u32)
  then have b: "replicate (unat (calculate_size cs + of_nat ?n)) (0 :: u8) = ?z 8 @ ?z 8 @ ?z 256 @ ?z 8 @ ?z (8 + 8 * length cs) @ ?z (nodes_size cs)"
    by (simp add: replicate_add [symmetric])
  let ?w = "?z (8 + 8 * length cs) @ ?z (nodes_size cs)"
  let ?a = "\<lambda>b. \<lparr>a_buf = b, curr_offset = ?n\<rparr>"
  have 0: "inc_offset ?n \<lparr>a_buf = ?z 8 @ ?z 8 @ ?z 256 @ ?z 8 @ ?w, curr_offset = 0\<rparr> = Inr (?a (?z 8 @ ?z 8 @ ?z 256 @ ?z 8 @ ?w))"
    by (simp add: inc_offset_def)
  have 1: "arch_put 0 (le64 MAGIC_NUMBER) (?a (?z 8 @ ?z 8 @ ?z 256 @ ?z 8 @ ?w)) = Inr (?a (le64 MAGIC_NUMBER @ ?z 8 @ ?z 256 @ ?z 8 @ ?w))"
    by (subst arch_put_split [of "[]" _ "?z 8" _ _ "?z 8 @ ?z 256 @ ?z 8 @ ?w"]) simp_all
  have 2: "arch_put 8 (le64 (of_nat ?n)) (?a (le64 MAGIC_NUMBER @ ?z 8 @ ?z 256 @ ?z 8 @ ?w)) = Inr (?a (le64 MAGIC_NUMBER @ le64 (of_nat ?n) @ ?z 256 @ ?z 8 @ ?w))"
    by (subst arch_put_split [of "le64 MAGIC_NUMBER" _ "?z 8" _ _ "?z 256 @ ?z 8 @ ?w"]) simp_all
  have 3: "arch_put 272 (le64 FLAG_ISFOLDER) (?a (le64 MAGIC_NUMBER @ le64 (of_nat ?n) @ ?z 256 @ ?z 8 @ ?w)) = Inr (?a (header_bytes [] ?n FLAG_ISFOLDER @ ?w))"
    by (subst arch_put_split [of "le64 MAGIC_NUMBER @ le64 (of_nat ?n) @ ?z 256" _ "?z 8" _ _ ?w]) (simp_all add: header_bytes_def)
  have 4: "make_node cs (?a (header_bytes [] ?n FLAG_ISFOLDER @ ?w)) = Inr (map of_nat (offsets_from ?n cs),
      ?a (header_bytes [] ?n FLAG_ISFOLDER @ ?z (8 + 8 * length cs) @ nodes_bytes ?n cs)\<lparr>curr_offset := ?n + nodes_size cs\<rparr>)"
    using make_node_layout [OF assms(1), of "header_bytes [] ?n FLAG_ISFOLDER @ ?z (8 + 8 * length cs)" "?a (header_bytes [] ?n FLAG_ISFOLDER @ ?w)" "?z (nodes_size cs)" "[]"]
    by simp
  have 5: "put_table 0 (map of_nat (offsets_from ?n cs)) (?a (header_bytes [] ?n FLAG_ISFOLDER @ ?z (8 + 8 * length cs) @ nodes_bytes ?n cs)\<lparr>curr_offset := ?n + nodes_size cs\<rparr>) =
      Inr \<lparr>a_buf = saf_bytes cs, curr_offset = ?n + nodes_size cs\<rparr>"
    by (subst put_table_split [of "header_bytes [] ?n FLAG_ISFOLDER" _ "?z (8 + 8 * length cs)"]) (simp_all add: saf_bytes_def Let_def)
  have "length (saf_bytes cs) = ?n + nodes_size cs" using assms(1) by (simp add: saf_bytes_def Let_def)
  then show ?thesis unfolding saf_make_def Let_def b 0 rbind_Inr 1 2 3 4 prod.case 5 by simp
qed

section \<open>Reading an archive\<close>

text \<open>The bytes \<open>bs\<close> are in the memory from \<open>a\<close> on.\<close>

definition mem_has :: "mem \<Rightarrow> u32 \<Rightarrow> u8 list \<Rightarrow> bool" where
  "mem_has m a bs \<longleftrightarrow> load_bytes m a (length bs) = bs"

lemma mem_has_append: "mem_has m a (xs @ ys) \<longleftrightarrow> mem_has m a xs \<and> mem_has m (a + of_nat (length xs)) ys"
  by (simp add: mem_has_def load_bytes_add)

lemma mem_has_u32: "mem_has m a (bytes_of_u32 v) \<longleftrightarrow> ld32 m a = v"
proof
  assume "mem_has m a (bytes_of_u32 v)"
  then have "bytes_of_u32 (ld32 m a) = bytes_of_u32 v" by (simp add: mem_has_def bytes_of_ld32)
  then show "ld32 m a = v" using join_bytes [of v] join_bytes [of "ld32 m a"] by (simp add: bytes_of_u32_def)
qed (auto simp: mem_has_def bytes_of_ld32)

lemma mem_has_le64:
  assumes "mem_has m a (le64 v)"
  shows "ld64 m a = v" "ld32 m a = ucast v"
  using assms by (simp_all add: le64_def mem_has_append mem_has_u32 ld64_def join_words)

text \<open>The fields of a node that the layout has in the memory.\<close>

lemma header_fields:
  assumes "mem_has m a (header_bytes name n f)" "0 \<notin> set name" "length name < 256"
  shows "saf_name m a = name" "saf_flags m a = f" "ld64 m a = MAGIC_NUMBER"
proof -
  have h: "mem_has m (a + 16) (name @ replicate (256 - length name) 0)" "mem_has m (a + 272) (le64 f)" "mem_has m a (le64 MAGIC_NUMBER)"
    using assms(1,3) by (simp_all add: header_bytes_def mem_has_append add.assoc)
  show "saf_flags m a = f" "ld64 m a = MAGIC_NUMBER" using mem_has_le64(1) h(2,3) by (simp_all add: saf_flags_def)
  have "load_bytes m (a + 16) 256 = name @ 0 # replicate (255 - length name) 0"
    using h(1) assms(3) by (simp add: mem_has_def Suc_diff_le flip: replicate_Suc)
  then show "saf_name m a = name" using assms(2) by (auto simp: saf_name_def takeWhile_append)
qed

text \<open>The nodes of the list are in the memory, at the given offsets in the archive.\<close>

fun nodes_at :: "mem \<Rightarrow> u32 \<Rightarrow> u32 list \<Rightarrow> (u8 list \<times> saf_tree) list \<Rightarrow> bool" where
  "nodes_at m base offs [] = (offs = [])"
| "nodes_at m base offs ((name, SafDir cs) # rest) = (case offs of [] \<Rightarrow> False | x # os \<Rightarrow>
     saf_name m (base + x) = name \<and> saf_flags m (base + x) = FLAG_ISFOLDER \<and> ld64 m (base + x) = MAGIC_NUMBER \<and>
     unat (saf_count m (base + x)) = length cs \<and>
     nodes_at m base (map (\<lambda>i. ld32 m (base + x + 288 + 8 * of_nat i)) [0..<length cs]) cs \<and> nodes_at m base os rest)"
| "nodes_at m base offs ((name, SafFile d) # rest) = (case offs of [] \<Rightarrow> False | x # os \<Rightarrow>
     saf_name m (base + x) = name \<and> saf_flags m (base + x) = 0 \<and> ld64 m (base + x) = MAGIC_NUMBER \<and>
     unat (ld32 m (base + x + 280)) = length d \<and>
     mem_has m (base + ld32 m (base + x + 288)) d \<and> nodes_at m base os rest)"

lemma ucast_of_nat_64 [simp]: "(ucast (of_nat x :: u64) :: u32) = of_nat x"
  by (rule bit_word_eqI) (auto simp: bit_simps)

lemma table_fields:
  assumes "mem_has m (a + 280) (table_bytes os)"
  shows "saf_count m a = of_nat (length os)" "map (\<lambda>i. ld32 m (a + 288 + 8 * of_nat i)) [0..<length os] = map of_nat os"
proof -
  have t: "mem_has m (a + 280) (le64 (of_nat (length os)))" "mem_has m (a + 288) (concat (map (\<lambda>x. le64 (of_nat x)) os))"
    using assms by (simp_all add: table_bytes_def mem_has_append add.assoc)
  show "saf_count m a = of_nat (length os)" using mem_has_le64(1) [OF t(1)] by (simp add: saf_count_def)
  have "map (\<lambda>i. ld32 m (b + 8 * of_nat i)) [0..<length os] = map of_nat os"
    if "mem_has m b (concat (map (\<lambda>x. le64 (of_nat x)) os))" for b
    using that
  proof (induction os arbitrary: b)
    case (Cons x xs)
    then have "mem_has m b (le64 (of_nat x))" "mem_has m (b + 8) (concat (map (\<lambda>x. le64 (of_nat x)) xs))" by (simp_all add: mem_has_append)
    then have "ld32 m b = of_nat x" "map (\<lambda>i. ld32 m (b + 8 + 8 * of_nat i)) [0..<length xs] = map of_nat xs"
      using mem_has_le64(2) Cons.IH by auto
    moreover have "map (\<lambda>i. ld32 m (b + 8 * of_nat i)) [0..<length (x # xs)] =
        ld32 m b # map (\<lambda>i. ld32 m (b + 8 + 8 * of_nat i)) [0..<length xs]"
      unfolding length_Cons upt_conv_Cons [OF zero_less_Suc] map_Suc_upt [symmetric] by (simp add: algebra_simps)
    ultimately show ?case by simp
  qed simp
  from this [OF t(2)] show "map (\<lambda>i. ld32 m (a + 288 + 8 * of_nat i)) [0..<length os] = map of_nat os" .
qed

lemma layout_nodes_at:
  assumes "mem_has m (base + of_nat off) (nodes_bytes off cs)" "names_ok cs" "nodes_size cs < 2 ^ 32"
  shows "nodes_at m base (map of_nat (offsets_from off cs)) cs"
  using assms
proof (induction off cs rule: nodes_bytes.induct)
  case (2 off name cs rest)
  let ?n = "SAF_FOLDER + 8 * length cs" and ?a = "base + of_nat off"
  have l: "0 \<notin> set name" "length name < 256" "names_ok cs" "names_ok rest" using 2(4) by simp_all
  have p: "mem_has m ?a (header_bytes name ?n FLAG_ISFOLDER)" "mem_has m (?a + 280) (table_bytes (offsets_from (off + ?n) cs))"
    "mem_has m (base + of_nat (off + ?n)) (nodes_bytes (off + ?n) cs)" "mem_has m (base + of_nat (off + ?n + nodes_size cs)) (nodes_bytes (off + ?n + nodes_size cs) rest)"
    using 2(3) l by (simp_all add: Let_def mem_has_append add.assoc algebra_simps)
  note h = header_fields [OF p(1) l(1,2)] and t = table_fields [OF p(2), unfolded length_offsets_from]
  have s: "unat (of_nat (length cs) :: u64) = length cs" "nodes_size cs < 2 ^ 32" "nodes_size rest < 2 ^ 32"
    using 2(5) by (simp_all add: unat_of_nat take_bit_nat_eq_self)
  have "nodes_at m base (map of_nat (offsets_from (off + ?n) cs)) cs" using 2(1) [OF refl] p(3) l(3) s(2) by simp
  moreover have "nodes_at m base (map of_nat (offsets_from (off + ?n + nodes_size cs) rest)) rest" using 2(2) [OF refl] p(4) l(4) s(3) by simp
  ultimately show ?case using h t s(1) by (simp add: add.assoc)
next
  case (3 off name d rest)
  let ?a = "base + of_nat off"
  have l: "0 \<notin> set name" "length name < 256" "names_ok rest" using 3(3) by simp_all
  have p: "mem_has m ?a (header_bytes name SAF_FILE 0)" "mem_has m (?a + 280) (le64 (of_nat (length d)))" "mem_has m (?a + 288) (le64 (of_nat (off + SAF_FILE)))"
    "mem_has m (base + of_nat (off + SAF_FILE)) d" "mem_has m (base + of_nat (off + SAF_FILE + length d)) (nodes_bytes (off + SAF_FILE + length d) rest)"
    using 3(2) l by (simp_all add: mem_has_append add.assoc algebra_simps)
  have "ld32 m (?a + 280) = of_nat (length d)" "ld32 m (?a + 288) = of_nat (off + SAF_FILE)"
    using mem_has_le64(2) [OF p(2)] mem_has_le64(2) [OF p(3)] by (simp_all del: of_nat_add)
  then show ?case using header_fields [OF p(1) l(1,2)] 3(1,4) p(4,5) l(3) by (simp add: add.assoc)
qed simp

text \<open>The root folder of an archive in the memory.\<close>

definition archive_at :: "mem \<Rightarrow> u32 \<Rightarrow> (u8 list \<times> saf_tree) list \<Rightarrow> bool" where
  "archive_at m base cs \<longleftrightarrow> nodes_at m base [0] [([], SafDir cs)]"

lemma saf_bytes_archive:
  assumes "mem_has m base (saf_bytes cs)" "names_ok cs" "SAF_FOLDER + 8 * length cs + nodes_size cs < 2 ^ 32"
  shows "archive_at m base cs"
proof -
  let ?n = "SAF_FOLDER + 8 * length cs"
  have p: "mem_has m base (header_bytes [] ?n FLAG_ISFOLDER)" "mem_has m (base + 280) (table_bytes (offsets_from ?n cs))"
    "mem_has m (base + of_nat ?n) (nodes_bytes ?n cs)"
    using assms(1) by (simp_all add: saf_bytes_def Let_def mem_has_append add.assoc)
  show ?thesis
    using header_fields [OF p(1)] table_fields [OF p(2), unfolded length_offsets_from] layout_nodes_at [OF p(3) assms(2)] assms(3)
    by (simp add: archive_at_def unat_of_nat take_bit_nat_eq_self)
qed

text \<open>The look-up in the tree; below a file the initial RAM disk stops with a failed assertion.\<close>

fun tree_find :: "u8 list list \<Rightarrow> saf_tree \<Rightarrow> saf_tree option res" where
  "tree_find [] t = Inr (Some t)"
| "tree_find (c # cs) (SafFile d) = Inl AssertFailed"
| "tree_find (c # cs) (SafDir ts) = (case find (\<lambda>x. same_name c (fst x)) ts of None \<Rightarrow> Inr None | Some x \<Rightarrow> tree_find cs (snd x))"

lemma nodes_at_nth:
  "nodes_at m base offs ts \<Longrightarrow> i < length ts \<Longrightarrow> length offs = length ts \<and> nodes_at m base [offs ! i] [ts ! i]"
proof (induction ts arbitrary: offs i)
  case (Cons t ts)
  obtain name u where t: "t = (name, u)" by fastforce
  obtain x os where o: "offs = x # os" using Cons.prems(1) by (cases offs; cases u) (auto simp: t)
  have "nodes_at m base [x] [t]" "nodes_at m base os ts" using Cons.prems(1) by (cases u; simp add: t o)+
  moreover have "length os = length ts"
  proof (cases ts)
    case Nil
    then show ?thesis using \<open>nodes_at m base os ts\<close> by simp
  next
    case (Cons a list)
    then show ?thesis using Cons.IH [of os 0] \<open>nodes_at m base os ts\<close> by simp
  qed
  ultimately show ?case using Cons by (cases i) (auto simp: o)
qed simp

lemma find_map: "find P (map f xs) = map_option f (find (\<lambda>x. P (f x)) xs)"
  by (induction xs) auto

lemma initrd_child_find:
  "initrd_child m base node b i n =
     map_option (saf_child m base node) (find (\<lambda>j. same_name b (saf_name m (saf_child m base node j))) [i..<i + n])"
proof (induction n arbitrary: i)
  case (Suc n)
  have up: "[i..<i + Suc n] = i # [Suc i..<Suc i + n]" by (simp add: upt_conv_Cons)
  show ?case unfolding up by (simp add: Suc)
qed simp

text \<open>The loop over the children finds the node of the child in the tree.\<close>

lemma initrd_child_tree:
  assumes "nodes_at m base [x] [(name, SafDir ts)]"
  shows "case find (\<lambda>t. same_name b (fst t)) ts of
      None \<Rightarrow> initrd_child m base (base + x) b 0 (length ts) = None
    | Some t \<Rightarrow> \<exists>y. initrd_child m base (base + x) b 0 (length ts) = Some (base + y) \<and> nodes_at m base [y] [t]"
proof -
  let ?offs = "map (\<lambda>i. ld32 m (base + x + 288 + 8 * of_nat i)) [0..<length ts]"
  have n: "nodes_at m base ?offs ts" using assms by simp
  have c: "saf_child m base (base + x) j = base + ?offs ! j" "nodes_at m base [?offs ! j] [ts ! j]" if "j < length ts" for j
    using nodes_at_nth [OF n that] that by (simp_all add: saf_child_def)
  have nm: "saf_name m (saf_child m base (base + x) j) = fst (ts ! j)" if "j < length ts" for j
    using c(2) [OF that] unfolding c(1) [OF that] by (cases "ts ! j"; cases "snd (ts ! j)") auto
  have f: "find (\<lambda>j. same_name b (saf_name m (saf_child m base (base + x) j))) [0..<0 + length ts] = find (\<lambda>j. same_name b (fst (ts ! j))) [0..<length ts]"
    by (rule find_cong) (auto simp: nm)
  have t: "find (\<lambda>t. same_name b (fst t)) ts = map_option ((!) ts) (find (\<lambda>j. same_name b (fst (ts ! j))) [0..<length ts])"
    using find_map [of "\<lambda>t. same_name b (fst t)" "(!) ts" "[0..<length ts]"] by (simp only: map_nth)
  show ?thesis
  proof (cases "find (\<lambda>j. same_name b (fst (ts ! j))) [0..<length ts]")
    case None
    then show ?thesis unfolding t initrd_child_find f by simp
  next
    case (Some j)
    then have "j < length ts" by (auto simp: find_Some_iff)
    then show ?thesis using c [of j] unfolding t initrd_child_find f Some by auto
  qed
qed

lemma initrd_find_step:
  assumes "dropWhile (\<lambda>x. x = SLASH) path = p" "p \<noteq> []" "cut_until SLASH p = (b, r)" "length b < 128"
  shows "initrd_find m base path node =
    (if saf_flags m node \<noteq> FLAG_ISFOLDER then Inl AssertFailed
     else case initrd_child m base node b 0 (unat (saf_count m node)) of None \<Rightarrow> Inr None | Some n \<Rightarrow> initrd_find m base r n)"
  using assms(2,4) by (subst initrd_find.simps) (simp only: assms(1,3) Let_def fst_conv snd_conv if_False simp_thms, simp)

lemma initrd_find_slash: "initrd_find m base (SLASH # p) node = initrd_find m base p node"
  by (subst (1 2) initrd_find.simps) simp

definition finds :: "mem \<Rightarrow> u32 \<Rightarrow> saf_tree option res \<Rightarrow> u32 option res \<Rightarrow> bool" where
  "finds m base r f = (case r of
       Inl e \<Rightarrow> f = Inl e
     | Inr None \<Rightarrow> f = Inr None
     | Inr (Some t) \<Rightarrow> \<exists>y n. f = Inr (Some (base + y)) \<and> nodes_at m base [y] [(n, t)])"

lemma initrd_find_tree:
  assumes "nodes_at m base [x] [(name, t)]" "\<forall>c \<in> set cs. component c"
  shows "finds m base (tree_find cs t) (initrd_find m base (path_of cs) (base + x))"
  using assms
proof (induction cs arbitrary: x name t)
  case Nil
  then show ?case by (auto simp: finds_def initrd_find.simps)
next
  case (Cons c cs)
  have c: "component c" using Cons.prems(2) by simp
  have r: "initrd_find m base (case cs of [] \<Rightarrow> [] | d # ds \<Rightarrow> d @ path_of ds) n = initrd_find m base (path_of cs) n" for n
    by (cases cs) (simp_all add: initrd_find_slash)
  have s: "initrd_find m base (path_of (c # cs)) (base + x) =
      (if saf_flags m (base + x) \<noteq> FLAG_ISFOLDER then Inl AssertFailed
       else case initrd_child m base (base + x) c 0 (unat (saf_count m (base + x))) of None \<Rightarrow> Inr None | Some n \<Rightarrow> initrd_find m base (path_of cs) n)"
    unfolding path_of_simps initrd_find_slash r [symmetric]
    by (rule initrd_find_step [of _ "c @ path_of cs"]) (use component_start [OF c] cut_component [OF c] c in \<open>simp_all add: component_def\<close>)
  show ?case
  proof (cases t)
    case (SafFile d)
    then show ?thesis using Cons.prems(1) unfolding s by (simp add: finds_def)
  next
    case (SafDir ts)
    have f: "saf_flags m (base + x) = FLAG_ISFOLDER" "unat (saf_count m (base + x)) = length ts" using Cons.prems(1) SafDir by simp_all
    note ch = initrd_child_tree [OF Cons.prems(1) [unfolded SafDir], of c]
    show ?thesis
    proof (cases "find (\<lambda>t. same_name c (fst t)) ts")
      case None
      then show ?thesis using ch unfolding s by (simp add: f SafDir finds_def)
    next
      case (Some u)
      obtain y where y: "initrd_child m base (base + x) c 0 (length ts) = Some (base + y)" "nodes_at m base [y] [u]" using ch unfolding Some by auto
      have "finds m base (tree_find cs (snd u)) (initrd_find m base (path_of cs) (base + y))"
        by (rule Cons.IH [of _ "fst u"]) (use y(2) Cons.prems(2) in simp_all)
      then show ?thesis unfolding s by (simp add: f SafDir Some y(1))
    qed
  qed
qed

text \<open>
  C9. From a folder with names of less than 256 characters, less than 4 gigabytes together with the descriptions of its nodes, \<open>saf-make\<close> makes an archive
  without a write outside its array, and wherever the archive is in the memory, the initial RAM disk opens exactly the files of the folder, by the look-up in the tree, and
  gives them the contents they have there.
\<close>

theorem saf_make_initrd:
  assumes "names_ok ts" "SAF_FOLDER + 8 * length ts + nodes_size ts < 2 ^ 32"
  shows "\<exists>arc. saf_make ts = Inr arc \<and>
    (\<forall>m base cs. load_bytes m base (length arc) = arc \<longrightarrow> (\<forall>c \<in> set cs. component c) \<longrightarrow>
       (case tree_find cs (SafDir ts) of
          Inl e \<Rightarrow> initrd_open m base (path_of cs) = Inl e
        | Inr (Some (SafFile d)) \<Rightarrow> \<exists>f. initrd_open m base (path_of cs) = Inr (Some f) \<and> initrd_contents f m = Some d
        | Inr _ \<Rightarrow> initrd_open m base (path_of cs) = Inr None))"
proof (intro exI conjI allI impI)
  show "saf_make ts = Inr (saf_bytes ts)" by (rule saf_make_bytes [OF assms])
  fix m base cs
  assume "load_bytes m base (length (saf_bytes ts)) = saf_bytes ts" and cs: "\<forall>c \<in> set cs. component c"
  then have "nodes_at m base [0] [([], SafDir ts)]"
    using saf_bytes_archive [OF _ assms] by (simp add: mem_has_def archive_at_def)
  from initrd_find_tree [OF this cs] have "finds m base (tree_find cs (SafDir ts)) (initrd_find m base (path_of cs) base)" by simp
  then show "case tree_find cs (SafDir ts) of
          Inl e \<Rightarrow> initrd_open m base (path_of cs) = Inl e
        | Inr (Some (SafFile d)) \<Rightarrow> \<exists>f. initrd_open m base (path_of cs) = Inr (Some f) \<and> initrd_contents f m = Some d
        | Inr _ \<Rightarrow> initrd_open m base (path_of cs) = Inr None"
    by (auto simp: finds_def initrd_open_def initrd_contents_def mem_has_def split: sum.splits option.splits saf_tree.splits)
qed

text \<open>A folder with a file and a folder with an empty file.\<close>

definition demo_tree :: "(u8 list \<times> saf_tree) list" where
  "demo_tree = [([0x61], SafFile [1, 2, 3]), ([0x62], SafDir [([0x63], SafFile [])])]"

theorem saf_make_initrd_witness:
  "\<exists>arc. saf_make demo_tree = Inr arc \<and>
    (\<forall>m base. load_bytes m base (length arc) = arc \<longrightarrow> (\<exists>f. initrd_open m base (path_of [[0x62], [0x43]]) = Inr (Some f) \<and> initrd_contents f m = Some []))"
proof -
  have "names_ok demo_tree" "SAF_FOLDER + 8 * length demo_tree + nodes_size demo_tree < 2 ^ 32" by (simp_all add: demo_tree_def)
  from saf_make_initrd [OF this] obtain arc where arc: "saf_make demo_tree = Inr arc"
    "\<forall>m base cs. load_bytes m base (length arc) = arc \<longrightarrow> (\<forall>c \<in> set cs. component c) \<longrightarrow>
       (case tree_find cs (SafDir demo_tree) of
          Inl e \<Rightarrow> initrd_open m base (path_of cs) = Inl e
        | Inr (Some (SafFile d)) \<Rightarrow> \<exists>f. initrd_open m base (path_of cs) = Inr (Some f) \<and> initrd_contents f m = Some d
        | Inr _ \<Rightarrow> initrd_open m base (path_of cs) = Inr None)"
    by (elim exE conjE)
  have t: "tree_find [[0x62], [0x43]] (SafDir demo_tree) = Inr (Some (SafFile []))" by code_simp
  have c: "\<forall>c \<in> set [[0x62], [0x43]]. component c" by (simp add: component_def)
  have "\<exists>f. initrd_open m base (path_of [[0x62], [0x43]]) = Inr (Some f) \<and> initrd_contents f m = Some []" if "load_bytes m base (length arc) = arc" for m base
    using arc(2) [THEN spec, THEN spec, THEN spec, THEN mp, OF that, THEN mp, OF c] unfolding t sum.case option.case saf_tree.case .
  then show ?thesis using arc(1) by (intro exI [of _ arc]) simp
qed

section \<open>Extracting what was made\<close>

fun tree_calls :: "u8 list \<Rightarrow> (u8 list \<times> saf_tree) list \<Rightarrow> fs_call list" where
  "tree_calls path [] = []"
| "tree_calls path ((name, SafDir cs) # rest) = Mkdir (full_path path name) # tree_calls (full_path path name) cs @ tree_calls path rest"
| "tree_calls path ((name, SafFile d) # rest) = WriteFile (full_path path name) d # tree_calls path rest"

fun call_path :: "fs_call \<Rightarrow> u8 list" where
  "call_path (Mkdir p) = p"
| "call_path (WriteFile p d) = p"

lemma parse_nodes_tree:
  assumes "nodes_at m base offs ts" "\<forall>c \<in> set (tree_calls path ts). length (call_path c) < MAX_PATH_SIZE"
  shows "parse_nodes m base path (map ((+) base) offs) acc = Some (Inr (acc @ tree_calls path ts))"
  using assms
proof (induction m base offs ts arbitrary: path acc rule: nodes_at.induct)
  case (1 m base offs)
  then show ?case by (simp add: parse_nodes.simps)
next
  case (2 m base offs name cs rest)
  obtain x os where o: "offs = x # os" using 2(3) by (cases offs) auto
  let ?p = "full_path path name" and ?cs = "map (\<lambda>i. ld32 m (base + x + 288 + 8 * of_nat i)) [0..<length cs]"
  have n: "ld64 m (base + x) = MAGIC_NUMBER" "saf_name m (base + x) = name" "saf_flags m (base + x) = FLAG_ISFOLDER" "unat (saf_count m (base + x)) = length cs"
    "nodes_at m base ?cs cs" "nodes_at m base os rest"
    using 2(3) by (simp_all add: o)
  have c: "map (saf_child m base (base + x)) [0..<length cs] = map ((+) base) ?cs" by (simp add: saf_child_def)
  have "parse_nodes m base ?p (map ((+) base) ?cs) (acc @ [Mkdir ?p]) = Some (Inr (acc @ [Mkdir ?p] @ tree_calls ?p cs))"
    using 2(1) [OF o n(5)] 2(4) by simp
  moreover have "parse_nodes m base path (map ((+) base) os) (acc @ [Mkdir ?p] @ tree_calls ?p cs) =
      Some (Inr (acc @ [Mkdir ?p] @ tree_calls ?p cs @ tree_calls path rest))"
    using 2(2) [OF o n(6)] 2(4) by simp
  ultimately show ?case
    using 2(4) n by (subst parse_nodes.simps) (simp add: o c del: map_map)
next
  case (3 m base offs name d rest)
  obtain x os where o: "offs = x # os" using 3(2) by (cases offs) auto
  have n: "ld64 m (base + x) = MAGIC_NUMBER" "saf_name m (base + x) = name" "saf_flags m (base + x) \<noteq> FLAG_ISFOLDER"
    "load_bytes m (base + ld32 m (base + x + 288)) (unat (ld32 m (base + x + 280))) = d" "nodes_at m base os rest"
    using 3(2) by (simp_all add: o mem_has_def)
  show ?case
    using 3(3) n 3(1) [OF o n(5)] by (subst parse_nodes.simps) (simp add: o)
qed

text \<open>The extraction of an archive that \<open>saf-make\<close> made ends, and creates the folder again inside the output folder.\<close>

lemma saf_make_extract:
  assumes "names_ok ts" "SAF_FOLDER + 8 * length ts + nodes_size ts < 2 ^ 32" "saf_make ts = Inr arc" "load_bytes m base (length arc) = arc"
    and "\<forall>c \<in> set (tree_calls output [([], SafDir ts)]). length (call_path c) < MAX_PATH_SIZE"
  shows "saf_extract m base output = Some (Inr (tree_calls output [([], SafDir ts)]))"
proof -
  have "arc = saf_bytes ts" using saf_make_bytes [OF assms(1,2)] assms(3) by simp
  then have "nodes_at m base [0] [([], SafDir ts)]" using saf_bytes_archive [OF _ assms(1,2)] assms(4) by (simp add: mem_has_def archive_at_def)
  from parse_nodes_tree [OF this assms(5), of "[]"] show ?thesis by (simp add: saf_extract_def)
qed

end
