(* ===== verification/Shell.thy ===== *)
theory Shell
  imports Prelude
begin

text \<open>
  The shell's handling of command lines, \<open>user/terminal/argv_tools.c\<close>, environment variables, \<open>libc/stdlib/enviroment.c\<close> and
  \<open>export\<close> of \<open>commands.c\<close>, the search for programs, and the reading of scripts, \<open>script.c\<close>. A string is the list of its characters
  without the terminating zero. Strings that the code cuts in place by writing zeros are the lists of the parts. The arrays of fixed
  size are bounds: one character too many is an access outside the array.
\<close>

section \<open>Quotes\<close>

abbreviation SPACE :: u8 where "SPACE \<equiv> 0x20"
abbreviation BACKSLASH :: u8 where "BACKSLASH \<equiv> 0x5C"
abbreviation DOUBLE_QUOTE :: u8 where "DOUBLE_QUOTE \<equiv> 0x22"
abbreviation SINGLE_QUOTE :: u8 where "SINGLE_QUOTE \<equiv> 0x27"

record quotes =
  quote_open :: bool
  double_quote_open :: bool
  special_char_next :: bool

definition no_quotes :: quotes where
  "no_quotes = \<lparr>quote_open = False, double_quote_open = False, special_char_next = False\<rparr>"

definition in_quotes :: "quotes \<Rightarrow> bool" where
  "in_quotes q \<longleftrightarrow> quote_open q \<or> double_quote_open q"

text \<open>The part of the loops of \<open>argv_split\<close> and \<open>is_quote_open\<close> for other characters than the space.\<close>

definition quote_step :: "u8 \<Rightarrow> quotes \<Rightarrow> quotes" where
  "quote_step c q =
     (if c = BACKSLASH then q\<lparr>special_char_next := True\<rparr>
      else if c = DOUBLE_QUOTE then
        (if special_char_next q \<or> double_quote_open q then q\<lparr>special_char_next := False\<rparr> else q\<lparr>quote_open := \<not> quote_open q\<rparr>)
      else if c = SINGLE_QUOTE then
        (if special_char_next q \<or> quote_open q then q\<lparr>special_char_next := False\<rparr> else q\<lparr>double_quote_open := \<not> double_quote_open q\<rparr>)
      else q)"

definition is_quote_open :: "u8 list \<Rightarrow> bool" where
  "is_quote_open command = in_quotes (fold quote_step command no_quotes)"

datatype pipe_type = NORMAL | PIPE_PROC | PIPE_FILE | AND_RUN | PIPE_FILE_APPEND

text \<open>
  \<open>get_command_type\<close> with the results \<open>token_pos\<close> and \<open>double_pipe_symbol\<close>. Unlike in the other loops any other character ends the
  effect of a backslash.
\<close>

fun command_type_loop :: "quotes \<Rightarrow> nat \<Rightarrow> u8 list \<Rightarrow> pipe_type \<times> nat \<times> bool" where
  "command_type_loop q i [] = (NORMAL, 0, False)"
| "command_type_loop q i (c # cs) =
     (let free = (\<not> (in_quotes q \<or> special_char_next q)) in
      if c = 0x7C \<and> free then (PIPE_PROC, i, False)
      else if c = 0x3E \<and> free then
        (if cs \<noteq> [] \<and> hd cs = 0x3E then (PIPE_FILE_APPEND, i + 1, True) else (PIPE_FILE, i, False))
      else if c = 0x26 \<and> free then (AND_RUN, i, False)
      else command_type_loop
        (if c \<in> {BACKSLASH, DOUBLE_QUOTE, SINGLE_QUOTE} then quote_step c q else q\<lparr>special_char_next := False\<rparr>) (i + 1) cs)"

definition get_command_type :: "u8 list \<Rightarrow> pipe_type \<times> nat \<times> bool" where
  "get_command_type command = command_type_loop no_quotes 0 command"

section \<open>Arguments\<close>

text \<open>The first loop of \<open>argv_split\<close> counts the arguments, the second writes their addresses into an array of that size and one.\<close>

fun count_loop :: "quotes \<Rightarrow> nat \<Rightarrow> u8 list \<Rightarrow> nat" where
  "count_loop q argc [] = argc"
| "count_loop q argc (c # cs) =
     (if c = SPACE then count_loop q (if \<not> in_quotes q then argc + 1 else argc) cs else count_loop (quote_step c q) argc cs)"

fun argv_loop :: "quotes \<Rightarrow> u8 list \<Rightarrow> u8 list list \<Rightarrow> u8 list \<Rightarrow> u8 list list" where
  "argv_loop q current argv [] = argv @ [current]"
| "argv_loop q current argv (c # cs) =
     (if c = SPACE then (if \<not> in_quotes q then argv_loop q [] (argv @ [current]) cs else argv_loop q (current @ [c]) argv cs)
      else argv_loop (quote_step c q) (current @ [c]) argv cs)"

definition argv_split :: "u8 list \<Rightarrow> u8 list list res" where
  "argv_split str =
     (let size = count_loop no_quotes 1 str + 1; argv = argv_loop no_quotes [] [] str in
      if length argv + 1 > size then Inl OutOfBounds else Inr argv)"

section \<open>Lines\<close>

text \<open>\<open>process_line\<close>: without the spaces in front, cut at a hash sign when asked to, and without the spaces at the end.\<close>

fun strip_loop :: "bool \<Rightarrow> bool \<Rightarrow> u8 list \<Rightarrow> u8 list" where
  "strip_loop check_hashtag text_found [] = []"
| "strip_loop check_hashtag text_found (c # cs) =
     (if c = SPACE \<and> \<not> text_found then strip_loop check_hashtag text_found cs
      else if c = 0x23 \<and> check_hashtag then []
      else c # strip_loop check_hashtag True cs)"

definition process_line :: "u8 list \<Rightarrow> bool \<Rightarrow> u8 list" where
  "process_line command check_hashtag =
     (case strip_loop check_hashtag False command of
        [] \<Rightarrow> []
      | c # cs \<Rightarrow> c # rev (dropWhile ((=) SPACE) (rev cs)))"

section \<open>Environment\<close>

abbreviation EQUALS :: u8 where "EQUALS \<equiv> 0x3D"

text \<open>\<open>strncmp\<close> with the length of the name is a test for a prefix.\<close>

fun getenv :: "u8 list list \<Rightarrow> u8 list \<Rightarrow> u8 list option" where
  "getenv [] name = None"
| "getenv (e # envp) name =
     (if take (length name) e = name then
        (if length name < length e \<and> e ! length name = EQUALS then Some (drop (length name + 1) e) else None)
      else getenv envp name)"

definition name_char :: "u8 \<Rightarrow> bool" where
  "name_char c \<longleftrightarrow> 0x61 \<le> c \<and> c \<le> 0x7A \<or> 0x41 \<le> c \<and> c \<le> 0x5A \<or> 0x30 \<le> c \<and> c \<le> 0x39 \<or> c = 0x5F \<or> c = 0x3F"

function read_env_loop :: "u8 list list \<Rightarrow> u8 list \<Rightarrow> u8 list \<Rightarrow> u8 list res" where
  "read_env_loop envp tmp [] = Inr tmp"
| "read_env_loop envp tmp (c # cs) =
     (if c = 0x24 then
        (let env_var = takeWhile name_char cs; rest = dropWhile name_char cs;
             tmp1 = (case getenv envp env_var of None \<Rightarrow> tmp | Some v \<Rightarrow> tmp @ v)
         in if length env_var > 255 \<or> length tmp1 > 511 then Inl OutOfBounds else read_env_loop envp tmp1 rest)
      else if length tmp + 1 > 511 then Inl OutOfBounds
      else read_env_loop envp (tmp @ [c]) cs)"
  by pat_completeness auto
termination
  by (relation "measure (\<lambda>(envp, tmp, cs). length cs)") (auto simp: le_imp_less_Suc length_dropWhile_le)

definition read_env :: "u8 list list \<Rightarrow> u8 list \<Rightarrow> u8 list res" where
  "read_env envp input = read_env_loop envp [] input"

primrec argv_env_process :: "u8 list list \<Rightarrow> u8 list list \<Rightarrow> u8 list list res" where
  "argv_env_process envp [] = Inr []"
| "argv_env_process envp (a # as) = rbind (read_env envp a) (\<lambda>b. rbind (argv_env_process envp as) (\<lambda>bs. Inr (b # bs)))"

text \<open>
  \<open>export\<close>. The name is the first token between equals signs. The array of variables is a page of pointers; the result is
  \<open>None\<close> where only a message is printed.
\<close>

fun export_loop :: "u8 list \<Rightarrow> u8 list \<Rightarrow> u8 list list \<Rightarrow> u8 list list" where
  "export_loop name env_var [] = [env_var]"
| "export_loop name env_var (e # envp) =
     (if take (length name) e = name then env_var # envp else e # export_loop name env_var envp)"

definition env_name :: "u8 list \<Rightarrow> u8 list" where
  "env_name env_var = takeWhile (\<lambda>c. c \<noteq> EQUALS) (dropWhile ((=) EQUALS) env_var)"

definition export_var :: "u8 list \<Rightarrow> u8 list list \<Rightarrow> u8 list list option res" where
  "export_var command envp =
     (if length command \<le> 7 then Inr None
      else let env_var = drop 7 command in
        if env_name env_var = [] then Inl NullDeref
        else if env_name env_var = env_var then Inr None
        else let envp' = export_loop (env_name env_var) env_var envp in
          if length envp' + 1 > 1024 then Inl OutOfBounds else Inr (Some envp'))"

section \<open>Commands\<close>

text \<open>
  The text of a command and of what follows it, as \<open>command_received\<close> finds them in place: \<open>process_line\<close> moves the line to the front of
  its buffer and leaves behind it what was there; the position of the sign was found before.
\<close>

definition process_buffer :: "u8 list \<Rightarrow> u8 list" where
  "process_buffer command =
     (let out_1 = strip_loop False False command; out_2 = process_line command False in
      out_2 @ replicate (length out_1 - length out_2) 0 @ [0] @ drop (length out_1 + 1) (command @ [0]))"

definition c_str :: "u8 list \<Rightarrow> u8 list" where
  "c_str buf = takeWhile (\<lambda>c. c \<noteq> 0) buf"

definition split_command :: "u8 list \<Rightarrow> (pipe_type \<times> u8 list \<times> u8 list) option" where
  "split_command command =
     (case get_command_type command of
        (NORMAL, _) \<Rightarrow> None
      | (t, token_pos, double_pipe_symbol) \<Rightarrow>
          let buf = (process_buffer command)[token_pos - (if double_pipe_symbol then 1 else 0) := 0]
          in Some (t, c_str buf, process_line (c_str (drop (token_pos + 1) buf)) False))"

text \<open>The tokens of \<open>strtok\<close> with one delimiter.\<close>

function tokens :: "u8 \<Rightarrow> u8 list \<Rightarrow> u8 list list" where
  "tokens d cs =
     (let r = dropWhile ((=) d) cs in
      if r = [] then [] else takeWhile (\<lambda>c. c \<noteq> d) r # tokens d (dropWhile (\<lambda>c. c \<noteq> d) r))"
  by pat_completeness auto
termination
proof (relation "measure (length \<circ> snd)")
  fix d :: u8 and cs r :: "u8 list"
  assume r: "r = dropWhile ((=) d) cs" "r \<noteq> []"
  then have "hd r \<noteq> d" using hd_dropWhile [of "(=) d" cs] by auto
  then have "length (dropWhile (\<lambda>c. c \<noteq> d) r) < length r" using r(2) by (cases r) (auto simp: le_imp_less_Suc length_dropWhile_le)
  then show "((d, dropWhile (\<lambda>c. c \<noteq> d) r), (d, cs)) \<in> measure (length \<circ> snd)"
    using r(1) length_dropWhile_le [of "(=) d" cs] by simp
qed simp

declare tokens.simps [simp del]

text \<open>
  \<open>search_executable\<close>: for every directory of the path the command, with \<open>.elf\<close>, and the command in the working directory.
  \<open>opens\<close>: the file can be opened. \<open>None\<close>: the shell ends, since there is no path.
\<close>

definition candidates :: "u8 list \<Rightarrow> u8 list \<Rightarrow> u8 list \<Rightarrow> u8 list list" where
  "candidates cwd command dir =
     [dir @ [0x2F] @ command, dir @ [0x2F] @ command @ [0x2E, 0x65, 0x6C, 0x66], cwd @ [0x2F] @ command]"

definition search_executable :: "(u8 list \<Rightarrow> bool) \<Rightarrow> u8 list list \<Rightarrow> u8 list \<Rightarrow> u8 list \<Rightarrow> u8 list option res" where
  "search_executable opens envp cwd command =
     (case getenv envp [0x50, 0x41, 0x54, 0x48] of
        None \<Rightarrow> Inr None
      | Some path \<Rightarrow>
          if length cwd \<ge> 64 then Inl OutOfBounds
          else case find opens (concat (map (candidates cwd command) (tokens 0x3B path))) of
            Some executable \<Rightarrow> Inr (Some executable)
          | None \<Rightarrow> Inr (Some command))"

section \<open>Scripts\<close>

text \<open>
  \<open>run_script\<close>: one line is read into the buffer \<open>current_line\<close>. At the end of the file nothing ends the line. The result is the list of
  the commands that are given to \<open>command_received\<close>, when every one is found and none ends the script.
\<close>

fun read_line :: "u8 list \<Rightarrow> nat \<Rightarrow> u8 list \<Rightarrow> (u8 list \<times> u8 list) res" where
  "read_line buf idx [] = Inr (buf, [])"
| "read_line buf idx (c # cs) =
     (if idx \<ge> length buf then Inl OutOfBounds
      else if c = 0x0A then Inr (buf[idx := 0], cs)
      else read_line (buf[idx := c]) (Suc idx) cs)"

lemma read_line_shorter: "read_line buf idx (c # cs) = Inr (buf', rest) \<Longrightarrow> length rest < length (c # cs)"
proof (induction cs arbitrary: buf idx c)
  case (Cons d cs)
  show ?case
  proof (cases "c = 0x0A")
    case False
    then have "read_line (buf[idx := c]) (Suc idx) (d # cs) = Inr (buf', rest)" using Cons.prems by (auto split: if_splits)
    from Cons.IH [OF this] show ?thesis by simp
  qed (use Cons.prems in \<open>auto split: if_splits\<close>)
qed (auto split: if_splits)

lemma read_line_rest: "read_line buf idx data = Inr (buf', y # ys) \<Longrightarrow> length (y # ys) < length data"
proof (cases data)
  case (Cons c cs)
  assume "read_line buf idx data = Inr (buf', y # ys)"
  then show ?thesis using read_line_shorter [of buf idx c cs buf' "y # ys"] unfolding Cons by blast
qed simp

function script_loop :: "u8 list \<Rightarrow> u8 list \<Rightarrow> u8 list list res" where
  "script_loop buf data =
     rbind (read_line buf 0 data) (\<lambda>(line, rest).
       let again = (\<lambda>b. if rest = [] then Inr [] else script_loop b rest) in
       if line ! 0 = 0x23 \<or> line ! 0 = 0 then again line
       else if 0 \<notin> set line then Inl OutOfBounds
       else let command = process_line (c_str line) True in
         if command = [] then again (line[0 := 0])
         else rbind (again (replicate (length line) 0)) (\<lambda>cs. Inr (command # cs)))"
  by pat_completeness auto
termination
proof (relation "measure (length \<circ> snd)")
qed (auto dest!: read_line_rest simp: neq_Nil_conv)

definition run_script :: "u8 list \<Rightarrow> u8 list list res" where
  "run_script script_data = script_loop (replicate 256 0) script_data"

declare script_loop.simps [simp del]

section \<open>Properties\<close>

text \<open>Splitting: the counted arguments are exactly those found, and with the spaces between them they are the line.\<close>

fun join :: "u8 list list \<Rightarrow> u8 list" where
  "join [] = []"
| "join [a] = a"
| "join (a # as) = a @ SPACE # join as"

lemma join_append: "as \<noteq> [] \<Longrightarrow> join (as @ [b]) = join as @ SPACE # b"
  by (induction as rule: join.induct) auto

lemma join_snoc_append: "join (as @ [b @ c]) = join (as @ [b]) @ c"
  by (cases "as = []") (simp_all add: join_append)

lemma argv_loop_length: "length (argv_loop q cur argv cs) = length argv + count_loop q 1 cs"
proof -
  have "count_loop q (Suc n) cs = Suc (count_loop q n cs)" for q n cs
    by (induction cs arbitrary: q n) auto
  then show ?thesis by (induction cs arbitrary: q cur argv) auto
qed

lemma argv_loop_join: "join (argv_loop q cur argv cs) = join (argv @ [cur]) @ cs"
proof (induction cs arbitrary: q cur argv)
  case (Cons c cs)
  have "join ((argv @ [cur]) @ [[]]) = join (argv @ [cur]) @ [SPACE]" using join_append [of "argv @ [cur]" "[]"] by simp
  then show ?case using Cons by (simp add: join_snoc_append)
qed simp

text \<open>The places where a line is cut.\<close>

definition unquoted_space :: "u8 list \<Rightarrow> nat \<Rightarrow> bool" where
  "unquoted_space s i \<longleftrightarrow> i < length s \<and> s ! i = SPACE \<and> \<not> in_quotes (fold quote_step (take i s) no_quotes)"

lemma quote_step_space [simp]: "quote_step SPACE q = q"
  by (simp add: quote_step_def)

lemma count_loop_spaces:
  "s = pre @ cs \<Longrightarrow> count_loop (fold quote_step pre no_quotes) n cs = n + length (filter (unquoted_space s) [length pre..<length s])"
proof (induction cs arbitrary: pre n)
  case (Cons c cs)
  have up: "[length pre..<length s] = length pre # [Suc (length pre)..<length s]" by (rule upt_conv_Cons) (use Cons.prems in simp)
  have u: "unquoted_space s (length pre) \<longleftrightarrow> c = SPACE \<and> \<not> in_quotes (fold quote_step pre no_quotes)"
    using Cons.prems by (simp add: unquoted_space_def nth_append)
  have IH: "count_loop (fold quote_step (pre @ [c]) no_quotes) m cs = m + length (filter (unquoted_space s) [Suc (length pre)..<length s])" for m
    using Cons.IH [of "pre @ [c]" m] Cons.prems by simp
  show ?case
    using IH [of n] IH [of "Suc n"] unfolding up by (cases "c = SPACE") (simp_all add: u)
qed simp

lemma argv_loop_cuts:
  assumes "s = join (argv @ [cur]) @ cs" "q = fold quote_step (join (argv @ [cur])) no_quotes"
    and "\<forall>n. 0 < n \<and> n \<le> length argv \<longrightarrow> unquoted_space s (length (join (take n argv)))"
  shows "\<forall>n. 0 < n \<and> n < length (argv_loop q cur argv cs) \<longrightarrow> unquoted_space s (length (join (take n (argv_loop q cur argv cs))))"
  using assms
proof (induction cs arbitrary: q cur argv)
  case Nil
  then show ?case by auto
next
  case (Cons c cs)
  let ?p = "join (argv @ [cur])"
  show ?case
  proof (cases "c = SPACE \<and> \<not> in_quotes q")
    case True
    have j: "join ((argv @ [cur]) @ [[]]) = ?p @ [SPACE]" using join_append [of "argv @ [cur]" "[]"] by simp
    have u: "unquoted_space s (length ?p)" using True Cons.prems(1,2) by (simp add: unquoted_space_def nth_append)
    have n: "\<forall>n. 0 < n \<and> n \<le> length (argv @ [cur]) \<longrightarrow> unquoted_space s (length (join (take n (argv @ [cur]))))"
    proof (intro allI impI)
      fix n
      assume "0 < n \<and> n \<le> length (argv @ [cur])"
      then show "unquoted_space s (length (join (take n (argv @ [cur]))))"
        using Cons.prems(3) u by (cases "n \<le> length argv") (auto simp: le_Suc_eq)
    qed
    have q: "q = fold quote_step (join ((argv @ [cur]) @ [[]])) no_quotes" unfolding j using Cons.prems(2) by simp
    have "s = join ((argv @ [cur]) @ [[]]) @ cs" unfolding j using Cons.prems(1) True by simp
    from Cons.IH [OF this q n] True show ?thesis by simp
  next
    case False
    have j: "join (argv @ [cur @ [c]]) = ?p @ [c]" by (rule join_snoc_append)
    have "s = join (argv @ [cur @ [c]]) @ cs" "quote_step c q = fold quote_step (join (argv @ [cur @ [c]])) no_quotes"
      unfolding j using Cons.prems(1,2) by simp_all
    from Cons.IH [OF this Cons.prems(3)] False show ?thesis by (auto split: if_splits)
  qed
qed



text \<open>The environment: an exported variable has its value, whatever was there before.\<close>

lemma getenv_export:
  "take (length name) v = name \<Longrightarrow> length name < length v \<Longrightarrow> v ! length name = EQUALS \<Longrightarrow>
   getenv (export_loop name v envp) name = Some (drop (length name + 1) v)"
  by (induction envp) auto

lemma getenv_other:
  assumes "take (length n) v \<noteq> n" "\<forall>e \<in> set envp. \<not> (take (length name) e = name \<and> take (length n) e = n)"
  shows "getenv (export_loop name v envp) n = getenv envp n"
  using assms by (induction envp) auto

lemma takeWhile_upto: "x \<notin> set xs \<Longrightarrow> takeWhile (\<lambda>c. c \<noteq> x) (xs @ x # ys) = xs"
  by (induction xs) auto

lemma env_name_plain: "name \<noteq> [] \<Longrightarrow> EQUALS \<notin> set name \<Longrightarrow> env_name (name @ EQUALS # content) = name"
  using takeWhile_upto [of EQUALS name content] by (cases name) (auto simp: env_name_def)

text \<open>
  \<open>export\<close> and \<open>getenv\<close>. After the command \<open>export NAME=VALUE\<close> the variable has that value, and every other
  variable whose name does not begin the new entry keeps its value, unless the replaced entry was found by the prefix it shares.
\<close>

lemma export_getenv:
  assumes "length prefix = 7" "name \<noteq> []" "EQUALS \<notin> set name" "length envp < 1023"
  shows "\<exists>envp'. export_var (prefix @ name @ EQUALS # content) envp = Inr (Some envp') \<and> getenv envp' name = Some content \<and>
    (\<forall>n. take (length n) (name @ EQUALS # content) \<noteq> n \<longrightarrow>
      (\<forall>e \<in> set envp. \<not> (take (length name) e = name \<and> take (length n) e = n)) \<longrightarrow> getenv envp' n = getenv envp n)"
proof -
  let ?v = "name @ EQUALS # content"
  have "length (export_loop name ?v envp) \<le> Suc (length envp)" by (induction envp) auto
  then have "export_var (prefix @ ?v) envp = Inr (Some (export_loop name ?v envp))"
    using assms env_name_plain [OF assms(2,3), of content] by (simp add: export_var_def)
  moreover have "getenv (export_loop name ?v envp) name = Some content" using getenv_export [of name ?v] by simp
  ultimately show ?thesis using getenv_other [of _ ?v envp name] by blast
qed

text \<open>
  The tests for a prefix go wrong for names of which one begins the other: exporting \<open>A\<close> replaces \<open>AB\<close>, and \<open>A\<close> is not found
  behind \<open>AB\<close>.
\<close>

lemma env_prefix_confusion:
  "export_var ([0x65, 0x78, 0x70, 0x6F, 0x72, 0x74, SPACE, 0x41, EQUALS, 0x31]) [[0x41, 0x42, EQUALS, 0x32]] = Inr (Some [[0x41, EQUALS, 0x31]])"
  "getenv [[0x41, 0x42, EQUALS, 0x32], [0x41, EQUALS, 0x31]] [0x41] = None"
  by code_simp+

text \<open>A line without its leading and trailing spaces.\<close>

lemma strip_loop_found: "strip_loop False True cs = cs"
  by (induction cs) auto

lemma strip_loop_spaces: "strip_loop h False (replicate n SPACE @ cs) = strip_loop h False cs"
  by (induction n) auto

lemma dropWhile_replicate: "dropWhile ((=) x) (replicate n x @ ys) = dropWhile ((=) x) ys"
  by (induction n) auto

lemma process_line_strips:
  assumes "t \<noteq> []" "hd t \<noteq> SPACE" "last t \<noteq> SPACE"
  shows "process_line (replicate a SPACE @ t @ replicate b SPACE) False = t"
proof -
  obtain c cs where t: "t = c # cs" using assms(1) by (cases t) auto
  have "strip_loop False False (t @ replicate b SPACE) = c # cs @ replicate b SPACE" using assms(2) by (simp add: t strip_loop_found)
  moreover have "dropWhile ((=) SPACE) (rev (cs @ replicate b SPACE)) = rev cs"
    using assms(3) by (cases cs rule: rev_cases) (simp_all add: t dropWhile_replicate)
  ultimately show ?thesis unfolding process_line_def strip_loop_spaces by (simp add: t)
qed

section \<open>Scripts: properties\<close>

lemma read_line_line:
  "length l + k < length buf \<Longrightarrow> 0x0A \<notin> set l \<Longrightarrow>
   read_line buf k (l @ 0x0A # rest) = Inr (take k buf @ l @ 0 # drop (k + length l + 1) buf, rest)"
proof (induction l arbitrary: k buf)
  case Nil
  then show ?case by (simp add: upd_conv_take_nth_drop)
next
  case (Cons c l)
  have "take (Suc k) (buf[k := c]) = take k buf @ [c]" using Cons.prems by (simp add: take_Suc_conv_app_nth)
  then show ?case using Cons.IH [of "Suc k" "buf[k := c]"] Cons.prems by simp
qed

definition line_ok :: "u8 list \<Rightarrow> bool" where
  "line_ok l \<longleftrightarrow> length l < 256 \<and> 0 \<notin> set l \<and> 0x0A \<notin> set l"

definition script_text :: "u8 list list \<Rightarrow> u8 list" where
  "script_text ls = concat (map (\<lambda>l. l @ [0x0A]) ls)"

lemma script_text_Nil: "script_text ls = [] \<longleftrightarrow> ls = []"
  by (cases ls) (simp_all add: script_text_def)

lemma script_loop_lines:
  "ls \<noteq> [] \<Longrightarrow> \<forall>l \<in> set ls. line_ok l \<Longrightarrow> length buf = 256 \<Longrightarrow>
   script_loop buf (script_text ls) = Inr (filter (\<lambda>c. c \<noteq> []) (map (\<lambda>l. process_line l True) ls))"
proof (induction ls arbitrary: buf)
  case (Cons l ls)
  let ?b = "l @ 0 # drop (Suc (length l)) buf"
  have l: "length l < 256" "0 \<notin> set l" "0x0A \<notin> set l" using Cons.prems(2) by (auto simp: line_ok_def)
  have rl: "read_line buf 0 (script_text (l # ls)) = Inr (?b, script_text ls)"
    using read_line_line [of l 0 buf "script_text ls"] l Cons.prems(3) by (simp add: script_text_def)
  have again: "(if script_text ls = [] then Inr [] else script_loop b (script_text ls)) =
      Inr (filter (\<lambda>c. c \<noteq> []) (map (\<lambda>l. process_line l True) ls))" if "length b = 256" for b
    using Cons.IH [of b] Cons.prems(2) that by (auto simp: script_text_Nil)
  have lb: "length ?b = 256" using l(1) Cons.prems(3) by simp
  have cs: "c_str ?b = l" using takeWhile_upto [OF l(2)] by (simp add: c_str_def)
  show ?case
  proof (cases "?b ! 0 = 0x23 \<or> ?b ! 0 = 0")
    case True
    then have "process_line l True = []" using l(2) by (cases l) (auto simp: process_line_def)
    then show ?thesis using True again [OF lb] by (subst script_loop.simps) (simp add: rl Let_def)
  next
    case False
    then show ?thesis
      using again [of "?b[0 := 0]"] again [of "replicate 256 0"] lb
      by (cases "script_text ls = []"; subst script_loop.simps) (simp_all add: rl Let_def cs)
  qed
qed simp

text \<open>
  Running a script whose lines are all ended and shorter than the buffer: the commands that are run are exactly its lines without
  spaces around them and without comments, in order, without those that are empty then.
\<close>

lemma run_script_lines:
  assumes "\<forall>l \<in> set ls. line_ok l"
  shows "run_script (script_text ls) = Inr (filter (\<lambda>c. c \<noteq> []) (map (\<lambda>l. process_line l True) ls))"
proof (cases "ls = []")
  case True
  have "run_script [] = Inr []" by code_simp
  with True show ?thesis by (simp add: script_text_def)
qed (use script_loop_lines [of ls "replicate 256 0"] assms in \<open>simp add: run_script_def\<close>)

text \<open>
  A last line that is not ended keeps the rest of a longer comment before it: after \<open># abc\<close> the line \<open>ls\<close> runs \<open>lsabc\<close>.
\<close>

lemma run_script_unfinished_line:
  "run_script [0x23, 0x20, 0x61, 0x62, 0x63, 0x0A, 0x6C, 0x73] = Inr [[0x6C, 0x73, 0x61, 0x62, 0x63]]"
  by code_simp

text \<open>
  A command in front of a pipe keeps the space before the sign, which is an empty argument of it; with a space in front of the line the
  sign stays in the command and what follows it is lost.
\<close>

lemma split_command_spaces:
  "split_command [0x61, SPACE, 0x7C, SPACE, 0x62] = Some (PIPE_PROC, [0x61, SPACE], [0x62])" "argv_split [0x61, SPACE] = Inr [[0x61], []]"
  "split_command [SPACE, 0x61, 0x7C, 0x62] = Some (PIPE_PROC, [0x61, 0x7C], [])"
  by code_simp+

text \<open>Text without a dollar sign is not changed; a variable is replaced by its value.\<close>

lemma read_env_loop_plain:
  "0x24 \<notin> set cs \<Longrightarrow> length tmp + length cs < 512 \<Longrightarrow> read_env_loop envp tmp (cs @ rest) = read_env_loop envp (tmp @ cs) rest"
  by (induction cs arbitrary: tmp) auto

lemma read_env_plain: "0x24 \<notin> set cs \<Longrightarrow> length cs < 512 \<Longrightarrow> read_env envp cs = Inr cs"
  using read_env_loop_plain [of cs "[]" envp "[]"] by (simp add: read_env_def)

lemma read_env_variable:
  assumes "0x24 \<notin> set cs" "0x24 \<notin> set ds" "\<forall>c \<in> set name. name_char c" "ds = [] \<or> \<not> name_char (hd ds)"
    and "getenv envp name = Some content" "length name < 256" "length cs + length content + length ds < 512"
  shows "read_env envp (cs @ 0x24 # name @ ds) = Inr (cs @ content @ ds)"
proof -
  have t: "takeWhile name_char (name @ ds) = name" "dropWhile name_char (name @ ds) = ds"
    using assms(3,4) by (cases ds; simp add: takeWhile_append2 dropWhile_append2)+
  have "read_env envp (cs @ 0x24 # name @ ds) = read_env_loop envp cs (0x24 # name @ ds)"
    using read_env_loop_plain [OF assms(1), of "[]"] assms(7) by (simp add: read_env_def)
  also have "\<dots> = read_env_loop envp (cs @ content) ds" using assms(5-7) t by simp
  also have "\<dots> = Inr (cs @ content @ ds)" using read_env_loop_plain [OF assms(2), of "cs @ content" envp "[]"] assms(7) by simp
  finally show ?thesis .
qed

end
