(* ===== verification/Resolve.thy ===== *)
theory Resolve
  imports Shell
begin

text \<open>
  Resolving file names, \<open>user/libc/stdio/resolve.c\<close>, and their completion, \<open>user/terminal/ontab.c\<close>. The entries of a directory and the names
  of the mounted file systems are arguments, \<open>ls\<close> and \<open>fs_names\<close>: what \<open>dir_at\<close> and \<open>fs_at\<close> return for the indices from 0 until there is
  none. The output buffer of a caller is zeroed.
\<close>

abbreviation SLASH_C :: u8 where "SLASH_C \<equiv> 0x2F"
abbreviation COLON_C :: u8 where "COLON_C \<equiv> 0x3A"

abbreviation DOT_DOT :: "u8 list" where "DOT_DOT \<equiv> [0x2E, 0x2E]"

section \<open>Parent directories\<close>

text \<open>The first loop of \<open>compute_dot_dot\<close>: the path is cut at its slashes.\<close>

fun segments :: "u8 list \<Rightarrow> u8 list \<times> u8 list list" where
  "segments [] = ([], [])"
| "segments (c # cs) =
     (let (a, as) = segments cs in if c = SLASH_C then ([], a # as) else (c # a, as))"

text \<open>The inner loop goes back to the last segment that is still there.\<close>

fun delete_last :: "u8 list option list \<Rightarrow> u8 list option list option" where
  "delete_last [] = None"
| "delete_last (x # xs) =
     (case delete_last xs of Some ys \<Rightarrow> Some (x # ys) | None \<Rightarrow> if x = None then None else Some (None # xs))"

text \<open>The second loop; \<open>None\<close>: the path starts with its parent. Without a segment to delete the code writes in front of the array.\<close>

fun dot_dot_loop :: "u8 list option list \<Rightarrow> u8 list list \<Rightarrow> u8 list option list option res" where
  "dot_dot_loop pre [] = Inr (Some pre)"
| "dot_dot_loop pre (s # rest) =
     (if s = DOT_DOT then
        (if pre = [] then Inr None
         else case delete_last pre of
           None \<Rightarrow> Inl OutOfBounds
         | Some pre1 \<Rightarrow> dot_dot_loop (pre1 @ [None]) rest)
      else dot_dot_loop (pre @ [Some s]) rest)"

definition with_slashes :: "u8 list list \<Rightarrow> u8 list" where
  "with_slashes ss = concat (map ((#) SLASH_C) ss)"

fun left_names :: "u8 list option list \<Rightarrow> u8 list list" where
  "left_names [] = []"
| "left_names (Some a # xs) = a # left_names xs"
| "left_names (None # xs) = left_names xs"

definition compute_dot_dot :: "u8 list \<Rightarrow> u8 list option res" where
  "compute_dot_dot path =
     (let (base, segs) = segments path in
      rbind (dot_dot_loop [] segs) (\<lambda>r. case r of
          None \<Rightarrow> Inr None
        | Some left \<Rightarrow> if base = [] then Inl NullDeref else Inr (Some (base @ with_slashes (left_names left)))))"

section \<open>Existence\<close>

definition to_lower :: "u8 \<Rightarrow> u8" where
  "to_lower c = (if 0x41 \<le> c \<and> c \<le> 0x5A then c + 32 else c)"

text \<open>The slash that ends the part checked: the first character is not looked at.\<close>

definition slash_index :: "u8 list \<Rightarrow> nat \<Rightarrow> nat" where
  "slash_index input current_slash =
     (let ps = filter (\<lambda>i. input ! i = SLASH_C) [1..<length input]
      in if current_slash < length ps then ps ! current_slash else length input)"

function exists_recursive :: "(u8 list \<Rightarrow> u8 list list) \<Rightarrow> u8 list \<Rightarrow> nat \<Rightarrow> bool" where
  "exists_recursive ls input current_slash =
     (let idx = slash_index input current_slash;
          path_to_check = take (idx + 1) input;
          entry = takeWhile (\<lambda>c. c \<noteq> SLASH_C) (drop (idx + 1) input)
      in if entry = [] then True
         else if map to_lower entry \<in> set (map (map to_lower) (ls path_to_check)) then exists_recursive ls input (Suc current_slash)
         else False)"
  by pat_completeness auto
termination
proof (relation "measure (\<lambda>(ls, input, k). length input - k)")
  fix ls :: "u8 list \<Rightarrow> u8 list list" and input k x y entry
  assume i: "x = slash_index input k" "entry = takeWhile (\<lambda>c. c \<noteq> SLASH_C) (drop (x + 1) input)" "entry \<noteq> []"
  have "k < length (filter (\<lambda>i. input ! i = SLASH_C) [1..<length input])"
    using i by (auto simp: slash_index_def Let_def split: if_splits)
  also have "\<dots> \<le> length input" by (rule order_trans [OF length_filter_le]) simp
  finally show "((ls, input, Suc k), (ls, input, k)) \<in> measure (\<lambda>(ls, input, k). length input - k)" by simp
qed simp

declare exists_recursive.simps [simp del]

section \<open>Resolving\<close>

text \<open>
  The part of \<open>resolve_check\<close> that makes the name absolute, from the working directory \<open>cwd\<close>. For a name that begins with a slash
  \<open>memset\<close> clears as many bytes of the output as a pointer has, and \<open>strcpy\<close> writes no terminating zero: the rest of the working
  directory stays behind a drive name of four characters or more.
\<close>

definition absolute :: "u8 list \<Rightarrow> u8 list \<Rightarrow> u8 list res" where
  "absolute cwd path =
     (if length cwd \<ge> 256 \<or> length path \<ge> 256 then Inl OutOfBounds
      else if COLON_C \<notin> set path then
        (if cwd = [] then Inl OutOfBounds
         else let output = (if last cwd = SLASH_C then butlast cwd else cwd) in
           if path = [] then Inl OutOfBounds
           else if hd path = SLASH_C then
             (case tokens COLON_C cwd of [] \<Rightarrow> Inl NullDeref | drive # _ \<Rightarrow>
                Inr (drive @ (if length drive < 4 then [] else drop (length drive) output) @ [COLON_C] @ path))
           else Inr (output @ [SLASH_C] @ (if last path = SLASH_C then butlast path else path)))
      else Inr (if last path = COLON_C then path @ [SLASH_C] else path))"

definition cut_last_slash :: "u8 list \<Rightarrow> u8 list" where
  "cut_last_slash s = (if SLASH_C \<in> set s then rev (tl (dropWhile (\<lambda>c. c \<noteq> SLASH_C) (rev s))) else s)"

text \<open>The result is the name found and whether it exists; \<open>None\<close> where the code returns early.\<close>

definition resolve_check ::
  "(u8 list \<Rightarrow> u8 list list) \<Rightarrow> u8 list list \<Rightarrow> u8 list \<Rightarrow> u8 list \<Rightarrow> bool \<Rightarrow> (u8 list \<times> bool) option res" where
  "resolve_check ls fs_names cwd path check_child =
     rbind (absolute cwd path) (\<lambda>a.
     if length a \<ge> 256 then Inl OutOfBounds
     else rbind (compute_dot_dot a) (\<lambda>d. case d of
         None \<Rightarrow> Inr None
       | Some output \<Rightarrow>
           let check_exists = (if check_child then output else cut_last_slash output); n = length check_exists in
           if n = 0 then Inl OutOfBounds
           else if last check_exists = COLON_C then Inr (Some (output, butlast check_exists \<in> set fs_names))
           else if n = 1 then Inl OutOfBounds
           else if check_exists ! (n - 2) = COLON_C \<and> last check_exists = SLASH_C then
             Inr (Some (output, take (n - 2) check_exists \<in> set fs_names))
           else Inr (Some (output, exists_recursive ls check_exists 0))))"

definition resolve :: "(u8 list \<Rightarrow> u8 list list) \<Rightarrow> u8 list list \<Rightarrow> u8 list \<Rightarrow> u8 list \<Rightarrow> (u8 list \<times> bool) option res" where
  "resolve ls fs_names cwd path = resolve_check ls fs_names cwd path True"

section \<open>Completion\<close>

text \<open>
  \<open>tab_complete\<close>. \<open>names\<close> are the matches in a directory, zero-padded arrays of 65 characters. The loop over the positions ends at the first
  one where two names differ; equal names give zeros.
\<close>

definition name_at :: "u8 list \<Rightarrow> nat \<Rightarrow> u8" where
  "name_at name i = (if i < length name then name ! i else 0)"

function common_loop :: "u8 list list \<Rightarrow> nat \<Rightarrow> nat \<Rightarrow> u8 list" where
  "common_loop names extra_size pos =
     (if pos \<ge> 64 then []
      else let c = name_at (hd names) pos in
        if (\<exists>n \<in> set (tl names). name_at n pos \<noteq> c) \<or> pos \<ge> extra_size then []
        else c # common_loop names extra_size (Suc pos))"
  by pat_completeness auto
termination
  by (relation "measure (\<lambda>(names, extra_size, pos). 64 - pos)") auto

declare common_loop.simps [simp del]

definition matches :: "u8 list \<Rightarrow> (u8 list \<times> bool) list \<Rightarrow> u8 list list" where
  "matches command entries =
     map (\<lambda>(n, is_dir). if is_dir then n @ [SLASH_C] else n) (filter (\<lambda>(n, _). take (length command) n = command) entries)"

text \<open>
  The list of matches is freed after every directory, and its head is kept: \<open>stale\<close>. A directory without matches after one whose
  matches share nothing uses the freed list.
\<close>

fun complete_dirs :: "u8 list \<Rightarrow> nat \<Rightarrow> bool \<Rightarrow> nat \<Rightarrow> (u8 list \<times> bool) list list \<Rightarrow> (u8 list \<times> nat option) res" where
  "complete_dirs command extra_size stale i [] = Inr ([], None)"
| "complete_dirs command extra_size stale i (d # ds) =
     (let names = matches command d in
      if \<exists>n \<in> set names. length n > 64 then Inl OutOfBounds
      else if names = [] then (if stale then Inl OutOfBounds else complete_dirs command extra_size False (Suc i) ds)
      else let extra = common_loop names extra_size (length command) in
        if extra \<noteq> [] then Inr (extra, Some i) else complete_dirs command extra_size True (Suc i) ds)"

definition ELF :: "u8 list" where
  "ELF = [0x2E, 0x65, 0x6C, 0x66]"

definition count_paths :: "u8 list \<Rightarrow> nat" where
  "count_paths path = 1 + length (filter ((=) 0x3B) path)"

definition check_dirs :: "u8 list \<Rightarrow> u8 list \<Rightarrow> u8 list list" where
  "check_dirs cwd path = (let ts = tokens 0x3B path in cwd # ts @ replicate (count_paths path - length ts) [])"

text \<open>The suffix is looked for in front of the buffer when the completion is shorter.\<close>

definition tab_complete :: "(u8 list \<Rightarrow> (u8 list \<times> bool) list) \<Rightarrow> u8 list list \<Rightarrow> u8 list \<Rightarrow> u8 list \<Rightarrow> nat \<Rightarrow> u8 list res" where
  "tab_complete entries envp cwd command extra_size =
     (case getenv envp [0x50, 0x41, 0x54, 0x48] of
        None \<Rightarrow> Inl NullDeref
      | Some path \<Rightarrow>
          if length cwd \<ge> 64 \<or> (\<exists>d \<in> set (tokens 0x3B path). length d > 64) then Inl OutOfBounds
          else rbind (complete_dirs command extra_size False 0 (map entries (check_dirs cwd path))) (\<lambda>(ex, did_complete).
            let extra = c_str ex; n = length extra in
            if did_complete = Some 0 then Inr extra
            else if n < 4 then Inl OutOfBounds
            else if drop (n - 4) extra = ELF then Inr (take (n - 4) extra @ [SPACE])
            else Inr extra))"

section \<open>Properties\<close>

text \<open>The names that are left when every parent takes away the one before it; \<open>None\<close>: there is none before it.\<close>

fun climb :: "u8 list list \<Rightarrow> u8 list list \<Rightarrow> u8 list list option" where
  "climb st [] = Some (rev st)"
| "climb st (s # ss) = (if s = DOT_DOT then (case st of [] \<Rightarrow> None | _ # t \<Rightarrow> climb t ss) else climb (s # st) ss)"

lemma left_names_append [simp]: "left_names (xs @ ys) = left_names xs @ left_names ys"
  by (induction xs rule: left_names.induct) auto

lemma delete_last_None: "delete_last xs = None \<longleftrightarrow> left_names xs = []"
proof (induction xs)
  case (Cons x xs)
  then show ?case by (cases x) (auto split: option.splits)
qed simp

lemma delete_last_Some: "delete_last xs = Some ys \<Longrightarrow> left_names ys = butlast (left_names xs) \<and> ys \<noteq> []"
proof (induction xs arbitrary: ys)
  case (Cons x xs)
  then show ?case using delete_last_None [of xs] by (cases x) (auto split: option.splits if_splits)
qed simp

lemma dot_dot_loop_climb:
  "pre \<noteq> [] \<Longrightarrow> (case climb (rev (left_names pre)) segs of
      None \<Rightarrow> dot_dot_loop pre segs = Inl OutOfBounds
    | Some ss \<Rightarrow> \<exists>xs. dot_dot_loop pre segs = Inr (Some xs) \<and> left_names xs = ss)"
proof (induction segs arbitrary: pre)
  case (Cons s segs)
  show ?case
  proof (cases "s = DOT_DOT")
    case True
    show ?thesis
    proof (cases "delete_last pre")
      case None
      then have "left_names pre = []" by (simp add: delete_last_None)
      then show ?thesis using True None Cons.prems by simp
    next
      case (Some pre1)
      note d = delete_last_Some [OF Some]
      have "left_names pre \<noteq> []" using Some delete_last_None [of pre] by auto
      then obtain us u where u: "left_names pre = us @ [u]" by (cases "left_names pre" rule: rev_cases) auto
      have l: "dot_dot_loop pre (s # segs) = dot_dot_loop (pre1 @ [None]) segs" using True Some Cons.prems by simp
      have c: "climb (rev (left_names pre)) (s # segs) = climb (rev (left_names (pre1 @ [None]))) segs" using True d u by simp
      show ?thesis unfolding l c by (rule Cons.IH) simp
    qed
  next
    case False
    then have l: "dot_dot_loop pre (s # segs) = dot_dot_loop (pre @ [Some s]) segs" by simp
    have c: "climb (rev (left_names pre)) (s # segs) = climb (rev (left_names (pre @ [Some s]))) segs" using False by simp
    show ?thesis unfolding l c by (rule Cons.IH) simp
  qed
qed simp

lemma segments_slashes:
  "SLASH_C \<notin> set base \<Longrightarrow> \<forall>s \<in> set segs. SLASH_C \<notin> set s \<Longrightarrow> segments (base @ with_slashes segs) = (base, segs)"
proof (induction segs arbitrary: base)
  case Nil
  then show ?case by (induction base) (simp_all add: with_slashes_def)
next
  case (Cons s segs)
  have "segments (SLASH_C # s @ with_slashes segs) = ([], s # segs)" using Cons.IH [of s] Cons.prems by simp
  then show ?case using Cons.prems(1) by (induction base) (simp_all add: with_slashes_def)
qed

lemma with_slashes_simps [simp]:
  "with_slashes [] = []" "with_slashes (s # ss) = SLASH_C # s @ with_slashes ss" "with_slashes (xs @ ys) = with_slashes xs @ with_slashes ys"
  by (simp_all add: with_slashes_def)

text \<open>
  Parents in a path. For every path of a drive and names the result of \<open>compute_dot_dot\<close> is known: a path that starts
  with a parent is refused, one that leaves the drive later writes in front of the array of names, and every other one is
  the drive with the names that are left when each parent takes away the name before it.
\<close>

lemma compute_dot_dot_climbs:
  assumes "base \<noteq> []" "SLASH_C \<notin> set base" "\<forall>s \<in> set segs. SLASH_C \<notin> set s"
  shows "compute_dot_dot (base @ with_slashes segs) =
    (if segs \<noteq> [] \<and> hd segs = DOT_DOT then Inr None
     else case climb [] segs of None \<Rightarrow> Inl OutOfBounds | Some ss \<Rightarrow> Inr (Some (base @ with_slashes ss)))"
proof (cases segs)
  case Nil
  then show ?thesis using assms segments_slashes [OF assms(2), of "[]"] by (simp add: compute_dot_dot_def)
next
  case (Cons s rest)
  have seg: "segments (base @ with_slashes segs) = (base, segs)" using segments_slashes assms(2,3) by blast
  show ?thesis
  proof (cases "s = DOT_DOT")
    case True
    then show ?thesis using Cons seg by (simp add: compute_dot_dot_def del: with_slashes_simps)
  next
    case False
    then show ?thesis
      using dot_dot_loop_climb [of "[Some s]" rest] Cons seg assms(1)
      by (auto simp: compute_dot_dot_def simp del: with_slashes_simps split: option.splits)
  qed
qed

section \<open>Existence: properties\<close>

lemma filter_upt_append:
  "filter (\<lambda>i. (xs @ ys) ! i = c) [1..<length (xs @ ys)] =
   filter (\<lambda>i. xs ! i = c) [1..<length xs] @ map (\<lambda>i. i + length xs) (filter (\<lambda>i. ys ! i = c) [0..<length ys])" if "xs \<noteq> []"
proof -
  have "[1..<length (xs @ ys)] = [1..<length xs] @ map (\<lambda>i. i + length xs) [0..<length ys]"
    using that upt_add_eq_append [of 1 "length xs" "length ys"] by (simp add: map_add_upt Suc_leI add.commute)
  moreover have "filter (\<lambda>i. (xs @ ys) ! i = c) [1..<length xs] = filter (\<lambda>i. xs ! i = c) [1..<length xs]"
    by (rule filter_cong) (auto simp: nth_append)
  ultimately show ?thesis by (simp add: filter_map o_def nth_append)
qed

lemma filter_nth_none: "c \<notin> set xs \<Longrightarrow> filter (\<lambda>i. xs ! i = c) [n..<length xs] = []"
  by (auto simp: filter_empty_conv)

text \<open>The slashes behind the drive are those in front of the names.\<close>

lemma slash_positions:
  assumes "base \<noteq> []" "SLASH_C \<notin> set base" "\<forall>s \<in> set segs. SLASH_C \<notin> set s"
  shows "filter (\<lambda>i. (base @ with_slashes segs) ! i = SLASH_C) [1..<length (base @ with_slashes segs)] =
    map (\<lambda>k. length (base @ with_slashes (take k segs))) [0..<length segs]"
  using assms(3)
proof (induction segs rule: rev_induct)
  case Nil
  then show ?case using filter_nth_none [OF assms(2), of 1] by simp
next
  case (snoc s segs)
  let ?xs = "base @ with_slashes segs"
  have "filter (\<lambda>i. (SLASH_C # s) ! i = SLASH_C) [0..<length (SLASH_C # s)] = [0]"
  proof -
    have "filter (\<lambda>i. s ! i = SLASH_C) [0..<length s] = []" using snoc.prems by (intro filter_nth_none) auto
    then show ?thesis by (simp add: upt_rec [of 0] filter_map o_def map_Suc_upt [symmetric] del: upt_Suc)
  qed
  then have "filter (\<lambda>i. (?xs @ SLASH_C # s) ! i = SLASH_C) [1..<length (?xs @ SLASH_C # s)] =
      filter (\<lambda>i. ?xs ! i = SLASH_C) [1..<length ?xs] @ [length ?xs]"
    using filter_upt_append [of ?xs "SLASH_C # s" SLASH_C] assms(1) by simp
  moreover have "map (\<lambda>k. length (base @ with_slashes (take k (segs @ [s])))) [0..<length segs] =
      map (\<lambda>k. length (base @ with_slashes (take k segs))) [0..<length segs]" by simp
  ultimately show ?case using snoc by simp
qed

lemma slash_index_names:
  assumes "base \<noteq> []" "SLASH_C \<notin> set base" "\<forall>s \<in> set segs. SLASH_C \<notin> set s"
  shows "slash_index (base @ with_slashes segs) k = length (base @ with_slashes (take k segs))"
  unfolding slash_index_def Let_def slash_positions [OF assms] by simp

definition exists_in :: "(u8 list \<Rightarrow> u8 list list) \<Rightarrow> u8 list \<Rightarrow> u8 list \<Rightarrow> bool" where
  "exists_in ls dir name \<longleftrightarrow> map to_lower name \<in> map to_lower ` set (ls dir)"

lemma with_slashes_drop: "k < length segs \<Longrightarrow> with_slashes segs = with_slashes (take k segs) @ SLASH_C # segs ! k @ with_slashes (drop (Suc k) segs)"
  using id_take_nth_drop [of k segs] with_slashes_simps(2,3) by metis

lemma takeWhile_name: "SLASH_C \<notin> set s \<Longrightarrow> takeWhile (\<lambda>c. c \<noteq> SLASH_C) (s @ with_slashes ss) = s"
  by (cases ss) (use takeWhile_upto [of SLASH_C s] in \<open>auto simp: takeWhile_eq_all_conv\<close>)

lemma exists_recursive_names:
  assumes "base \<noteq> []" "SLASH_C \<notin> set base" "\<forall>s \<in> set segs. SLASH_C \<notin> set s \<and> s \<noteq> []"
  shows "k \<le> length segs \<Longrightarrow> exists_recursive ls (base @ with_slashes segs) k \<longleftrightarrow>
    (\<forall>j. k \<le> j \<and> j < length segs \<longrightarrow> exists_in ls (base @ with_slashes (take j segs) @ [SLASH_C]) (segs ! j))"
proof (induction "length segs - k" arbitrary: k)
  case 0
  have "slash_index (base @ with_slashes segs) k = length (base @ with_slashes segs)"
    using slash_index_names [of base segs k] assms 0 by auto
  then show ?case using 0 by (subst exists_recursive.simps) auto
next
  case (Suc n)
  have k: "k < length segs" using Suc.hyps(2) by simp
  have i: "slash_index (base @ with_slashes segs) k = length (base @ with_slashes (take k segs))"
    using slash_index_names [of base segs k] assms by auto
  have s: "SLASH_C \<notin> set (segs ! k)" "segs ! k \<noteq> []" using assms(3) k by auto
  let ?p = "base @ with_slashes (take k segs)"
  have w: "base @ with_slashes segs = ?p @ SLASH_C # segs ! k @ with_slashes (drop (Suc k) segs)"
    using with_slashes_drop [OF k] by simp
  have "exists_recursive ls (base @ with_slashes segs) k \<longleftrightarrow>
      exists_in ls (?p @ [SLASH_C]) (segs ! k) \<and> exists_recursive ls (base @ with_slashes segs) (Suc k)"
    by (subst exists_recursive.simps) (use i s takeWhile_name [OF s(1)] in \<open>simp add: w exists_in_def Let_def\<close>)
  also have "exists_recursive ls (base @ with_slashes segs) (Suc k) \<longleftrightarrow>
    (\<forall>j. Suc k \<le> j \<and> j < length segs \<longrightarrow> exists_in ls (base @ with_slashes (take j segs) @ [SLASH_C]) (segs ! j))"
    using Suc by simp
  finally show ?case using k le_eq_less_or_eq [of k] by (auto simp: Suc_le_eq)
qed

lemma climb_sub: "climb st segs = Some ss \<Longrightarrow> set ss \<subseteq> set st \<union> set segs \<and> length ss \<le> length st + length segs"
proof (induction segs arbitrary: st)
  case (Cons s segs)
  show ?case
  proof (cases "s = DOT_DOT")
    case True
    then obtain x t where "st = x # t" "climb t segs = Some ss" using Cons.prems by (auto split: list.splits)
    then show ?thesis using Cons.IH [of t] by auto
  next
    case False
    then show ?thesis using Cons.IH [of "s # st"] Cons.prems by auto
  qed
qed auto



text \<open>A name that begins with a slash keeps the working directory: on \<open>disk:/a\<close> the name \<open>/b\<close> is \<open>disk:/a:/b\<close>; on \<open>fat:/a\<close> it is \<open>fat:/b\<close>.\<close>

lemma absolute_keeps_cwd:
  "absolute [0x64, 0x69, 0x73, 0x6B, COLON_C, SLASH_C, 0x61] [SLASH_C, 0x62] =
     Inr [0x64, 0x69, 0x73, 0x6B, COLON_C, SLASH_C, 0x61, COLON_C, SLASH_C, 0x62]"
  "absolute [0x66, 0x61, 0x74, COLON_C, SLASH_C, 0x61] [SLASH_C, 0x62] = Inr [0x66, 0x61, 0x74, COLON_C, SLASH_C, 0x62]"
  by code_simp+

text \<open>The parent of a name behind the drive is the drive without its slash, and a slash at the end is a name of its own that a parent takes away.\<close>

lemma compute_dot_dot_slashes:
  "compute_dot_dot [0x64, COLON_C, SLASH_C, 0x62, SLASH_C, 0x2E, 0x2E] = Inr (Some [0x64, COLON_C])"
  "compute_dot_dot [0x64, COLON_C, SLASH_C, 0x62, SLASH_C, SLASH_C, 0x2E, 0x2E] = Inr (Some [0x64, COLON_C, SLASH_C, 0x62])"
  by code_simp+

text \<open>Completion of \<open>l\<close>: by the only entry that begins with it, without its suffix when it comes from the path; of names that share nothing more: a read in front of the buffer.\<close>

lemma tab_complete_examples:
  "tab_complete (\<lambda>d. if d = [0x70] then [([0x6C, 0x73, 0x2E, 0x65, 0x6C, 0x66], False)] else []) [[0x50, 0x41, 0x54, 0x48, EQUALS, 0x70]] [0x63] [0x6C] 20 =
     Inr [0x73, SPACE]"
  "tab_complete (\<lambda>d. if d = [0x63] then [([0x6C, 0x73], True)] else []) [[0x50, 0x41, 0x54, 0x48, EQUALS, 0x70]] [0x63] [0x6C] 20 =
     Inr [0x73, SLASH_C]"
  "tab_complete (\<lambda>d. []) [[0x50, 0x41, 0x54, 0x48, EQUALS, 0x70]] [0x63] [0x6C] 20 = Inl OutOfBounds"
  "tab_complete (\<lambda>d. if d = [0x63] then [([0x6C, 0x61], False), ([0x6C, 0x62], False)] else []) [[0x50, 0x41, 0x54, 0x48, EQUALS, 0x70]] [0x63] [0x6C] 20 =
     Inl OutOfBounds"
  by code_simp+

end
