(* ===== verification/Terminal.thy ===== *)
theory Terminal
  imports Resolve
begin

text \<open>
  The shell itself, \<open>user/terminal/commands.c\<close>, \<open>script.c\<close> and \<open>main.c\<close>: the commands built into it, programs, pipes and the input line.
  What files there are, whether a program starts and which commands it sends back over its connection to the shell, and what is
  typed while \<open>read\<close> waits, are arguments that may depend on everything the shell did before. What it does is the list \<open>t_acts\<close>.
  The end of the shell by \<open>exit\<close> is the result \<open>None\<close>; a failed assertion ends it too, and is a fault.
\<close>

definition str :: "string \<Rightarrow> u8 list" where
  "str s = map of_char s"

datatype shell_act =
    Printed "u8 list"
  | LayoutSet "u8 list"
  | PwdSet "u8 list"
  | Spawned "u8 list" "u8 list list" "u8 list list"
  | FileWritten "u8 list" bool "u8 list"

record world =
  w_entries :: "shell_act list \<Rightarrow> u8 list \<Rightarrow> (u8 list \<times> bool) list"
  w_fs_names :: "shell_act list \<Rightarrow> u8 list list"
  w_opens :: "shell_act list \<Rightarrow> u8 list \<Rightarrow> bool"
  w_fopen :: "shell_act list \<Rightarrow> u8 list \<Rightarrow> bool"
  w_spawn :: "shell_act list \<Rightarrow> u8 list \<Rightarrow> u8 list list \<Rightarrow> u8 list list \<Rightarrow> u8 list list option"
  w_keys :: "shell_act list \<Rightarrow> u8 list"

text \<open>\<open>term_stdout\<close> and \<open>term_stdin\<close> are their characters; their sizes are one more than these, by every assignment of the code.\<close>

record terminal =
  terminal_envp :: "u8 list list"
  t_cwd :: "u8 list"
  term_stdout :: "u8 list option"
  term_stdin :: "u8 list option"
  stdin_pos :: nat
  already_in_ipc :: bool
  t_acts :: "shell_act list"

definition act :: "shell_act \<Rightarrow> terminal \<Rightarrow> terminal" where
  "act a t = t\<lparr>t_acts := t_acts t @ [a]\<rparr>"

section \<open>Output and input\<close>

definition append_stdout :: "u8 list \<Rightarrow> u8 list \<Rightarrow> u8 list" where
  "append_stdout out bs = out @ bs"

text \<open>\<open>sz\<close> bytes for a program: what is left of the input, then zeros.\<close>

definition append_stdin :: "nat \<Rightarrow> u8 list \<Rightarrow> nat \<Rightarrow> u8 list \<times> nat" where
  "append_stdin sz term_in pos =
     (let can_copy = length term_in - pos in
      if sz > can_copy then (take can_copy (drop pos term_in) @ replicate (sz - can_copy) 0, pos + can_copy)
      else (take sz (drop pos term_in), pos + sz))"

definition print :: "u8 list \<Rightarrow> terminal \<Rightarrow> terminal res" where
  "print bs t = (if length bs \<ge> 1024 then Inl OutOfBounds else Inr (act (Printed bs) t))"

definition term_printf :: "u8 list \<Rightarrow> terminal \<Rightarrow> terminal res" where
  "term_printf bs t =
     (if length bs \<ge> 1024 then Inl OutOfBounds
      else case term_stdout t of
        None \<Rightarrow> Inr (act (Printed bs) t)
      | Some out \<Rightarrow> Inr (t\<lparr>term_stdout := Some (append_stdout out bs)\<rparr>))"

text \<open>\<open>GET_CWD\<close> copies into 64 bytes.\<close>

definition get_cwd :: "terminal \<Rightarrow> u8 list res" where
  "get_cwd t = (if length (t_cwd t) \<ge> 64 then Inl OutOfBounds else Inr (t_cwd t))"

section \<open>Commands of the shell\<close>

definition set_layout :: "u8 list \<Rightarrow> terminal \<Rightarrow> terminal res" where
  "set_layout command t =
     (if length command = 7 then term_printf (str ''No keyboard layout specified!'' @ [0x0A]) t
      else let keymap_name = drop 7 command in
        rbind (term_printf (str ''Setting keyboard layout to '' @ keymap_name @ [0x0A]) t) (\<lambda>t1. Inr (act (LayoutSet keymap_name) t1)))"

text \<open>
  Resolving a name, with what it prints; the name it leaves in the output buffer and whether it exists. When the path starts with its
  parent, that is the path itself.
\<close>

definition resolve_out :: "world \<Rightarrow> bool \<Rightarrow> u8 list \<Rightarrow> terminal \<Rightarrow> ((u8 list \<times> bool) \<times> terminal) res" where
  "resolve_out w check_child path t =
     rbind (resolve_check (\<lambda>dir. map fst (w_entries w (t_acts t) dir)) (w_fs_names w (t_acts t)) (t_cwd t) path check_child) (\<lambda>r. case r of
         Some x \<Rightarrow> Inr (x, t)
       | None \<Rightarrow>
           rbind (absolute (t_cwd t) path) (\<lambda>a.
           rbind (print (str ''Unsupported path: '' @ [SINGLE_QUOTE] @ fst (segments a) @ [SINGLE_QUOTE, 0x0A]) t) (\<lambda>t1.
           Inr ((a, False), t1))))"

definition cd :: "world \<Rightarrow> u8 list list \<Rightarrow> terminal \<Rightarrow> terminal res" where
  "cd w argv t =
     (let go = (\<lambda>path.
        rbind (resolve_out w True path t) (\<lambda>((path_buf, cancd), t1).
        if \<not> cancd then term_printf (str ''No such file or directory: '' @ path_buf @ [0x0A]) t1
        else if w_opens w (t_acts t1) path_buf then term_printf (str ''You can only change to a folder!'' @ [0x0A]) t1
        else if length path_buf \<ge> 128 then Inl OutOfBounds
        else Inr (act (PwdSet path_buf) (t1\<lparr>t_cwd := path_buf\<rparr>))))
      in if length argv = 1 then
           (case getenv (terminal_envp t) (str ''ROOT_FS'') of
              None \<Rightarrow> term_printf (str ''No root filesystem specified!'' @ [0x0A]) t
            | Some env \<Rightarrow> go env)
         else if length argv = 2 then go (argv ! 1)
         else term_printf (str ''Too many arguments.'') t)"

definition term_pwd :: "terminal \<Rightarrow> terminal res" where
  "term_pwd t = rbind (get_cwd t) (\<lambda>cwd. term_printf (cwd @ [0x0A]) t)"

definition export :: "u8 list \<Rightarrow> terminal \<Rightarrow> terminal res" where
  "export command t =
     rbind (export_var command (terminal_envp t)) (\<lambda>r. case r of
         Some envp \<Rightarrow> Inr (t\<lparr>terminal_envp := envp\<rparr>)
       | None \<Rightarrow>
           term_printf ((if length command \<le> 7 then str ''No environment variable specified! Try like this: export MYVAR=value''
             else str ''No environment variable value specified! Try like this: export MYVAR=value'') @ [0x0A]) t)"

text \<open>\<open>fault\<close>: a write to the last address, a division by zero, and an instruction that a program may not use.\<close>

definition fault_cmd :: "u8 list \<Rightarrow> terminal \<Rightarrow> terminal res" where
  "fault_cmd command t =
     (let what = drop 6 command in
      if what = str ''#pf'' then Inl OutOfBounds
      else if what = str ''#de'' then Inl DivideError
      else if what = str ''#gp'' then Inl Halted
      else if what = str ''help'' then print (str ''fault #pf, #de, #gp'') t
      else term_printf (str ''Unknown fault: '' @ what) t)"

text \<open>
  The loop of \<open>read_\<close>: a line with backspaces, into 512 bytes. A backspace at the start moves in front of the array. Without the end
  of the line the shell waits: \<open>Halted\<close>.
\<close>

fun read_keys :: "u8 list \<Rightarrow> u8 list \<Rightarrow> u8 list res" where
  "read_keys inp [] = Inl Halted"
| "read_keys inp (c # cs) =
     (if length inp \<ge> 512 then Inl OutOfBounds
      else if c = 0x0A then Inr inp
      else if c = 0x08 then (if inp = [] then (if cs = [] then Inl Halted else Inl OutOfBounds) else read_keys (butlast inp) cs)
      else read_keys (inp @ [c]) cs)"

definition read_cmd :: "world \<Rightarrow> u8 list \<Rightarrow> terminal \<Rightarrow> terminal res" where
  "read_cmd w command t =
     (if length command \<le> 5 then term_printf (str ''No env var specified! Try like this: read output_var_name'' @ [0x0A]) t
      else let keys = w_keys w (t_acts t) in
        rbind (read_keys [] keys) (\<lambda>inp.
        let t1 = act (Printed (takeWhile (\<lambda>c. c \<noteq> 0x0A) keys @ [0x0A])) t;
            export_cmd = str ''export '' @ drop 5 command @ [EQUALS] @ c_str inp
        in if length export_cmd \<ge> 512 then Inl OutOfBounds else export export_cmd t1))"

section \<open>Programs\<close>

text \<open>
  \<open>spawn_process\<close>. \<open>on_message\<close> handles a command that the program sends while it runs, unless the shell is already
  waiting for a program that way. Pipes are refused.
\<close>

primrec run_messages :: "(u8 list \<Rightarrow> terminal \<Rightarrow> terminal option res) \<Rightarrow> u8 list list \<Rightarrow> terminal \<Rightarrow> terminal option res" where
  "run_messages on_message [] t = Inr (Some t)"
| "run_messages on_message (m # ms) t =
     rbind (on_message m t) (\<lambda>r. case r of None \<Rightarrow> Inr None | Some t1 \<Rightarrow> run_messages on_message ms t1)"

definition spawn_process ::
  "(u8 list \<Rightarrow> terminal \<Rightarrow> terminal option res) \<Rightarrow> world \<Rightarrow> u8 list list \<Rightarrow> terminal \<Rightarrow> (bool \<times> terminal) option res" where
  "spawn_process on_message w argv t =
     (if term_stdout t \<noteq> None \<or> term_stdin t \<noteq> None then Inl AssertFailed
      else rbind (search_executable (w_opens w (t_acts t)) (terminal_envp t) (t_cwd t) (hd argv)) (\<lambda>e. case e of
          None \<Rightarrow> Inr None
        | Some executable \<Rightarrow>
            let t1 = act (Spawned executable argv (terminal_envp t)) t in
            (case w_spawn w (t_acts t) executable argv (terminal_envp t) of
               None \<Rightarrow> Inr (Some (False, t1))
             | Some messages \<Rightarrow>
                 if already_in_ipc t1 then Inr (Some (True, t1))
                 else rbind (run_messages on_message messages (t1\<lparr>already_in_ipc := True\<rparr>)) (\<lambda>x.
                      Inr (map_option (\<lambda>s. (True, s\<lparr>already_in_ipc := False\<rparr>)) x)))))"

section \<open>Running a command\<close>

text \<open>The branches of \<open>run_command\<close> for the commands of the shell: whether the shell should end; \<open>None\<close> for other commands.\<close>

definition run_builtin :: "world \<Rightarrow> u8 list \<Rightarrow> terminal \<Rightarrow> (bool \<times> terminal) res option" where
  "run_builtin w command t =
     (let stay = (\<lambda>t1. Inr (False, t1)) in
      if take 7 command = str ''layout '' then Some (rbind (set_layout command t) stay)
      else if take 3 command = str ''cd '' then
        Some (rbind (argv_split command) (\<lambda>as. rbind (argv_env_process (terminal_envp t) as) (\<lambda>argv. rbind (cd w argv t) stay)))
      else if take 3 command = str ''pwd'' then Some (rbind (term_pwd t) stay)
      else if take 7 command = str ''export '' then Some (rbind (read_env (terminal_envp t) command) (\<lambda>c. rbind (export c t) stay))
      else if take 6 command = str ''fault '' then Some (rbind (read_env (terminal_envp t) command) (\<lambda>c. rbind (fault_cmd c t) stay))
      else if take 5 command = str ''read '' then Some (rbind (read_cmd w command t) stay)
      else if command = str ''exit'' then Some (Inr (True, t))
      else None)"

definition open_pipes :: "u8 list option \<Rightarrow> u8 list option \<Rightarrow> terminal \<Rightarrow> terminal" where
  "open_pipes inp out t =
     (let t1 = (case out of None \<Rightarrow> t | Some s \<Rightarrow> t\<lparr>term_stdout := Some s\<rparr>) in
      case inp of None \<Rightarrow> t1 | Some s \<Rightarrow> t1\<lparr>term_stdin := Some s, stdin_pos := 0\<rparr>)"

definition close_pipes :: "terminal \<Rightarrow> terminal" where
  "close_pipes t = t\<lparr>term_stdout := None, term_stdin := None, stdin_pos := 0\<rparr>"

text \<open>
  \<open>run_command\<close>: whether the command was found, whether the shell should end, and the output. \<open>out\<close> is \<open>None\<close> without a pipe; a
  pipe that is a null pointer is \<open>Some None\<close>.
\<close>

definition run_command ::
  "(u8 list \<Rightarrow> terminal \<Rightarrow> terminal option res) \<Rightarrow> world \<Rightarrow> u8 list \<Rightarrow> u8 list option \<Rightarrow> u8 list option option \<Rightarrow> terminal \<Rightarrow>
   (bool \<times> bool \<times> u8 list option \<times> terminal) option res" where
  "run_command on_message w command inp out t =
     (if out = Some None then Inl NullDeref
      else let t1 = open_pipes inp (case out of None \<Rightarrow> None | Some s \<Rightarrow> s) t in
        case run_builtin w command t1 of
          Some r \<Rightarrow> rbind r (\<lambda>(brk, t2). Inr (Some (True, brk, term_stdout t2, close_pipes t2)))
        | None \<Rightarrow>
            rbind (argv_split command) (\<lambda>as. rbind (argv_env_process (terminal_envp t1) as) (\<lambda>argv.
            rbind (spawn_process on_message w argv t1) (\<lambda>r. case r of
                None \<Rightarrow> Inr None
              | Some (found, t2) \<Rightarrow>
                  if found then Inr (Some (True, False, term_stdout t2, close_pipes t2)) else Inr (Some (False, False, None, t2))))))"

section \<open>Pipes\<close>

lemma c_str_length_last: "xs \<noteq> [] \<Longrightarrow> last xs = 0 \<Longrightarrow> length (c_str xs) < length xs"
proof -
  assume "xs \<noteq> []" "last xs = 0"
  then have "0 \<in> set xs" using last_in_set [of xs] by auto
  then have "dropWhile (\<lambda>c. c \<noteq> 0) xs \<noteq> []" by (auto simp: dropWhile_eq_Nil_conv)
  moreover have "length xs = length (takeWhile (\<lambda>c. c \<noteq> 0) xs) + length (dropWhile (\<lambda>c. c \<noteq> 0) xs)"
    by (metis length_append takeWhile_dropWhile_id)
  ultimately show ?thesis by (simp add: c_str_def)
qed

lemma strip_loop_length: "length (strip_loop h f cs) \<le> length cs"
  by (induction h f cs rule: strip_loop.induct) auto

lemma process_line_length: "length (process_line cs h) \<le> length (strip_loop h False cs)"
  using length_dropWhile_le [of "(=) SPACE" "rev (tl (strip_loop h False cs))"] by (auto simp: process_line_def split: list.splits)

lemma process_buffer_end: "length (process_buffer cs) = Suc (length cs) \<and> last (process_buffer cs) = 0"
proof -
  let ?o = "strip_loop False False cs"
  have l: "length (process_line cs False) \<le> length ?o" "length ?o \<le> length cs"
    using process_line_length [of cs False] strip_loop_length [of False False cs] by auto
  moreover have "last (drop (length ?o + 1) (cs @ [0])) = 0" if "drop (length ?o + 1) (cs @ [0]) \<noteq> []" 
    using that last_drop [of "length ?o + 1" "cs @ [0]"] by (simp del: drop_append)
  ultimately show ?thesis by (auto simp: process_buffer_def Let_def last_append simp del: drop_append)
qed

lemma command_type_pos: "command_type_loop q i cs = (ty, pos, d) \<Longrightarrow> ty \<noteq> NORMAL \<Longrightarrow> i \<le> pos \<and> pos < i + length cs \<and> (d \<longrightarrow> i < pos)"
  by (induction q i cs rule: command_type_loop.induct) (auto simp: Let_def split: if_splits)

lemma split_command_shorter: "split_command command = Some (ty, current, following) \<Longrightarrow> length following < length command"
proof -
  assume s: "split_command command = Some (ty, current, following)"
  obtain t pos d where g: "get_command_type command = (t, pos, d)" by (cases "get_command_type command") auto
  define buf where "buf = (process_buffer command)[pos - (if d then 1 else 0) := 0]"
  have t: "t \<noteq> NORMAL" "following = process_line (c_str (drop (pos + 1) buf)) False"
    using s g by (auto simp: split_command_def Let_def buf_def split: pipe_type.splits)
  have pos: "pos < length command" using command_type_pos [of no_quotes 0 command] g t(1) by (simp add: get_command_type_def)
  have b: "length buf = Suc (length command)" "last buf = 0" 
    using process_buffer_end [of command] last_list_update [of "process_buffer command"] by (force simp: buf_def)+
  have "length (c_str (drop (pos + 1) buf)) < length (drop (pos + 1) buf)"
    using b pos by (intro c_str_length_last) (auto simp: last_drop)
  then show ?thesis
    using process_line_length [of "c_str (drop (pos + 1) buf)" False] strip_loop_length [of False False "c_str (drop (pos + 1) buf)"] t(2) b(1)
    by simp
qed

text \<open>The name of the file behind a \<open>>\<close>, and the command that follows it.\<close>

definition file_part :: "u8 list \<Rightarrow> u8 list \<times> u8 list option" where
  "file_part following =
     (case get_command_type following of
        (NORMAL, _) \<Rightarrow> (following, None)
      | (_, pos, double) \<Rightarrow>
          (take (pos - (if double then 1 else 0)) following, Some (process_line (drop (pos + 1) following) False)))"

lemma file_part_shorter: "file_part following = (file, Some n) \<Longrightarrow> length n \<le> length following"
  using strip_loop_length [of False False] process_line_length [of _ False]
  by (auto simp: file_part_def split: prod.splits pipe_type.splits intro!: order_trans [OF process_line_length] order_trans [OF strip_loop_length])

text \<open>
  \<open>command_received\<close>. A command in front of an \<open>&\<close> is run with a null pointer as its pipe. The message about a command
  that was not found shows its first argument, since splitting it ended the string there.
\<close>

function command_received ::
  "(u8 list \<Rightarrow> terminal \<Rightarrow> terminal option res) \<Rightarrow> world \<Rightarrow> u8 list \<Rightarrow> u8 list option \<Rightarrow> terminal \<Rightarrow> (bool \<times> bool \<times> terminal) option res" where
  "command_received on_message w command inp t =
     (case split_command command of
        None \<Rightarrow>
          rbind (run_command on_message w command inp None t) (\<lambda>r. case r of
              None \<Rightarrow> Inr None
            | Some (found, brk, _, t1) \<Rightarrow>
                if found then Inr (Some (True, brk, t1))
                else rbind (argv_split command) (\<lambda>as.
                     rbind (print (str ''Error: Command not found: '' @ [SINGLE_QUOTE] @ hd as @ [SINGLE_QUOTE, 0x0A]) t1) (\<lambda>t2.
                     Inr (Some (False, brk, t2)))))
      | Some (ty, current, following) \<Rightarrow>
          rbind (run_command on_message w current inp (Some (if ty = AND_RUN then None else Some [])) t) (\<lambda>r. case r of
              None \<Rightarrow> Inr None
            | Some (found, brk, out, t1) \<Rightarrow>
                if \<not> found then
                  rbind (print (str ''Error: command not found: '' @ current @ [0x0A]) t1) (\<lambda>t2. Inr (Some (False, brk, t2)))
                else if ty = PIPE_FILE \<or> ty = PIPE_FILE_APPEND then
                  (case file_part following of (file, continue) \<Rightarrow>
                     rbind (resolve_out w False file t1) (\<lambda>((file_to_create, canresolve), t2).
                       if \<not> canresolve then
                         rbind (print (str ''Error: No such file or directory to create output file in: '' @ file @ [0x0A]) t2) (\<lambda>t3.
                         Inr (Some (False, brk, t3)))
                       else if \<not> w_fopen w (t_acts t2) file_to_create then
                         rbind (print (str ''Error: Failed to open file: '' @ file_to_create @ [0x0A]) t2) (\<lambda>t3.
                         Inr (Some (False, brk, t3)))
                       else let t3 = act (FileWritten file_to_create (ty = PIPE_FILE_APPEND) (case out of None \<Rightarrow> [] | Some s \<Rightarrow> s)) t2 in
                         case continue of
                           None \<Rightarrow> Inr (Some (True, brk, t3))
                         | Some n \<Rightarrow> command_received on_message w n out t3))
                else command_received on_message w following out t1))"
  by pat_completeness auto
termination
  by (relation "measure (\<lambda>(_, _, command, _, _). length command)") (auto dest!: split_command_shorter file_part_shorter [OF sym])

declare command_received.simps [simp del]

text \<open>
  A command that a program sends is handled while the shell waits for that program; programs that it starts are waited for without
  a connection of their own.
\<close>

definition on_message :: "world \<Rightarrow> u8 list \<Rightarrow> terminal \<Rightarrow> terminal option res" where
  "on_message w m t = rbind (command_received (\<lambda>_ _. Inl Halted) w m None t) (\<lambda>r. Inr (map_option (\<lambda>(_, _, t1). t1) r))"

definition shell_command :: "world \<Rightarrow> u8 list \<Rightarrow> terminal \<Rightarrow> (bool \<times> bool \<times> terminal) option res" where
  "shell_command w command t = command_received (on_message w) w command None t"

section \<open>The input line\<close>

abbreviation MAX_BUFFER_SIZE :: nat where
  "MAX_BUFFER_SIZE \<equiv> 2048"

text \<open>The prompt, without its colours.\<close>

definition print_prompt :: "terminal \<Rightarrow> terminal res" where
  "print_prompt t = rbind (get_cwd t) (\<lambda>cwd. print ([0x0A] @ str ''shell '' @ cwd @ str '' > '') t)"

definition completed_word :: "u8 list \<Rightarrow> u8 list" where
  "completed_word buffer =
     (let current_command = process_line buffer False; ts = tokens SPACE current_command in if ts = [] then current_command else last ts)"

text \<open>
  One key: the buffer after it, or \<open>None\<close> when the loop is left. A result \<open>None\<close> is the end of the process inside of a command.
\<close>

definition input_key :: "world \<Rightarrow> u8 \<Rightarrow> u8 list \<Rightarrow> terminal \<Rightarrow> (u8 list option \<times> terminal) option res" where
  "input_key w c buffer t0 =
     rbind (if 0x20 \<le> c \<and> c \<le> 0x7E \<or> c = 0x0A \<or> c = 0x08 then print [c] t0 else Inr t0) (\<lambda>t.
     let keep = (\<lambda>b t. Inr (Some (Some b, t))) in
     if c = 0x08 then (if buffer = [] then rbind (print [SPACE] t) (keep []) else keep (butlast buffer) t)
     else if c = 0x09 then
       (if buffer = [] \<or> is_quote_open buffer then keep buffer t
        else rbind (tab_complete (w_entries w (t_acts t)) (terminal_envp t) (t_cwd t) (completed_word buffer) (MAX_BUFFER_SIZE - length buffer))
          (\<lambda>extra. keep (buffer @ extra) (fold (\<lambda>e. act (Printed [e])) extra t)))
     else if c = 0x0A then
       (if buffer = [] then rbind (print_prompt t) (keep [])
        else if is_quote_open buffer then rbind (print (str '' quote> '') t) (keep buffer)
        else rbind (shell_command w buffer t) (\<lambda>r. case r of
            None \<Rightarrow> Inr None
          | Some (_, should_break, t1) \<Rightarrow> if should_break then Inr (Some (None, t1)) else rbind (print_prompt t1) (keep [])))
     else if length buffer \<ge> MAX_BUFFER_SIZE then rbind (print [0x08] t) (keep buffer)
     else if c = 0 then Inr (Some (None, t))
     else if c = 27 then rbind (print_prompt t) (keep [])
     else keep (buffer @ [c]) t)"

text \<open>The loop of \<open>main\<close> over the keys typed; the buffer is \<open>None\<close> when the shell ended.\<close>

fun input_loop :: "world \<Rightarrow> u8 list \<Rightarrow> u8 list \<Rightarrow> terminal \<Rightarrow> (u8 list option \<times> terminal) option res" where
  "input_loop w [] buffer t = Inr (Some (Some buffer, t))"
| "input_loop w (c # cs) buffer t =
     rbind (input_key w c buffer t) (\<lambda>r. case r of
         None \<Rightarrow> Inr None
       | Some (None, t1) \<Rightarrow> rbind (print ([0x0A] @ str ''[TERMINAL PROCESS ENDED]'' @ [0x0A]) t1) (\<lambda>t2. Inr (Some (None, t2)))
       | Some (Some b, t1) \<Rightarrow> input_loop w cs b t1)"

text \<open>\<open>main\<close> with more than one argument: \<open>-e\<close> runs the rest as one command.\<close>

definition main_arguments :: "world \<Rightarrow> u8 list list \<Rightarrow> terminal \<Rightarrow> terminal option res" where
  "main_arguments w args t =
     (if hd args = str ''-e'' then
        (if length (join (tl args)) \<ge> MAX_BUFFER_SIZE then Inl OutOfBounds
         else rbind (run_command (on_message w) w (join (tl args)) None None t) (\<lambda>r. Inr (map_option (\<lambda>(_, _, _, t1). t1) r)))
      else rbind (print (str ''Usage: terminal [script?]'' @ [0x0A]) t) (\<lambda>t1. Inr (Some t1)))"

section \<open>Properties\<close>

text \<open>What the commands of the shell keep: the input, whether output is collected, and whether the shell waits for a program.\<close>

definition same_mode :: "terminal \<Rightarrow> terminal \<Rightarrow> bool" where
  "same_mode t t' \<longleftrightarrow> already_in_ipc t' = already_in_ipc t \<and> term_stdin t' = term_stdin t \<and> (term_stdout t' = None \<longleftrightarrow> term_stdout t = None)"

lemma same_mode_trans [trans]: "same_mode a b \<Longrightarrow> same_mode b c \<Longrightarrow> same_mode a c"
  by (simp add: same_mode_def)

lemma same_mode_simps [simp]: "same_mode t t" "same_mode t (act a t')  = same_mode t t'" "same_mode t (t'\<lparr>terminal_envp := e\<rparr>) = same_mode t t'"
  "same_mode t (t'\<lparr>t_cwd := c\<rparr>) = same_mode t t'"
  by (simp_all add: same_mode_def act_def)

lemma print_mode: "print bs t = Inr t' \<Longrightarrow> same_mode t t'"
  by (auto simp: print_def split: if_splits)

lemma term_printf_mode: "term_printf bs t = Inr t' \<Longrightarrow> same_mode t t'"
  by (auto simp: term_printf_def same_mode_def act_def split: if_splits option.splits)

lemma set_layout_mode: "set_layout c t = Inr t' \<Longrightarrow> same_mode t t'"
  by (auto simp: set_layout_def rbind_eq_Inr Let_def dest!: term_printf_mode split: if_splits)

lemma resolve_out_mode: "resolve_out w b p t = Inr (r, t') \<Longrightarrow> same_mode t t'"
  by (auto simp: resolve_out_def rbind_eq_Inr dest!: print_mode split: option.splits)

lemma cd_mode: "cd w as t = Inr t' \<Longrightarrow> same_mode t t'"
  by (auto simp: cd_def rbind_eq_Inr Let_def dest!: term_printf_mode resolve_out_mode split: if_splits option.splits intro: same_mode_trans)

lemma term_pwd_mode: "term_pwd t = Inr t' \<Longrightarrow> same_mode t t'"
  by (auto simp: term_pwd_def rbind_eq_Inr dest!: term_printf_mode)

lemma export_mode: "export c t = Inr t' \<Longrightarrow> same_mode t t'"
  by (auto simp: export_def rbind_eq_Inr dest!: term_printf_mode split: option.splits)

lemma fault_mode: "fault_cmd c t = Inr t' \<Longrightarrow> same_mode t t'"
  by (auto simp: fault_cmd_def Let_def dest!: term_printf_mode print_mode split: if_splits)

lemma read_cmd_mode: "read_cmd w c t = Inr t' \<Longrightarrow> same_mode t t'"
  by (auto simp: read_cmd_def rbind_eq_Inr Let_def dest!: term_printf_mode export_mode split: if_splits)
     (auto simp: same_mode_def act_def)

definition idle :: "terminal \<Rightarrow> bool" where
  "idle t \<longleftrightarrow> term_stdout t = None \<and> term_stdin t = None"

definition keeps_idle :: "(u8 list \<Rightarrow> terminal \<Rightarrow> terminal option res) \<Rightarrow> bool" where
  "keeps_idle h \<longleftrightarrow> (\<forall>m t t'. idle t \<and> already_in_ipc t \<longrightarrow> h m t = Inr (Some t') \<longrightarrow> idle t' \<and> already_in_ipc t')"

lemma run_messages_idle:
  "keeps_idle h \<Longrightarrow> run_messages h ms t = Inr (Some t') \<Longrightarrow> idle t \<Longrightarrow> already_in_ipc t \<Longrightarrow> idle t' \<and> already_in_ipc t'"
proof (induction ms arbitrary: t)
  case (Cons m ms)
  from Cons.prems(2) obtain t1 where t1: "h m t = Inr (Some t1)" "run_messages h ms t1 = Inr (Some t')"
    by (auto simp: rbind_eq_Inr split: option.splits)
  then have "idle t1" "already_in_ipc t1" using Cons.prems(1,3,4) unfolding keeps_idle_def by blast+
  then show ?case using Cons.IH [OF Cons.prems(1) t1(2)] by blast
qed simp

lemma spawn_process_idle:
  assumes "keeps_idle h" "spawn_process h w as t = Inr (Some (f, t'))"
  shows "idle t' \<and> already_in_ipc t' = already_in_ipc t"
proof -
  have i: "idle t" using assms(2) by (auto simp: spawn_process_def idle_def split: if_splits)
  then obtain e where e: "search_executable (w_opens w (t_acts t)) (terminal_envp t) (t_cwd t) (hd as) = Inr (Some e)"
    using assms(2) by (auto simp: spawn_process_def idle_def rbind_eq_Inr split: option.splits)
  let ?t1 = "act (Spawned e as (terminal_envp t)) t"
  have i1: "idle ?t1" "already_in_ipc ?t1 = already_in_ipc t" using i by (simp_all add: idle_def act_def)
  show ?thesis
  proof (cases "w_spawn w (t_acts t) e as (terminal_envp t)")
    case None
    then show ?thesis using assms(2) i i1 e by (simp add: spawn_process_def idle_def)
  next
    case (Some ms)
    show ?thesis
    proof (cases "already_in_ipc t")
      case True
      then show ?thesis using assms(2) i i1 e Some by (simp add: spawn_process_def idle_def)
    next
      case False
      then have "rbind (run_messages h ms (?t1\<lparr>already_in_ipc := True\<rparr>)) (\<lambda>x. Inr (map_option (\<lambda>s. (True, s\<lparr>already_in_ipc := False\<rparr>)) x)) =
          Inr (Some (f, t'))"
        using assms(2) i i1 e Some by (simp add: spawn_process_def idle_def)
      then obtain s where s: "run_messages h ms (?t1\<lparr>already_in_ipc := True\<rparr>) = Inr (Some s)" "t' = s\<lparr>already_in_ipc := False\<rparr>"
        by (auto simp: rbind_eq_Inr)
      then show ?thesis using run_messages_idle [OF assms(1) s(1)] i1 False by (simp add: idle_def)
    qed
  qed
qed

lemma run_builtin_mode: "run_builtin w c t = Some (Inr (b, t')) \<Longrightarrow> same_mode t t'"
  unfolding run_builtin_def Let_def
  by (auto simp: rbind_eq_Inr dest!: set_layout_mode cd_mode term_pwd_mode export_mode fault_mode read_cmd_mode split: if_splits)

lemma open_pipes_ipc [simp]: "already_in_ipc (open_pipes inp out t) = already_in_ipc t"
  by (simp add: open_pipes_def Let_def split: option.splits)

lemma close_pipes_idle [simp]: "idle (close_pipes t)" "already_in_ipc (close_pipes t) = already_in_ipc t"
  by (simp_all add: close_pipes_def idle_def)

lemma run_command_idle:
  assumes "keeps_idle h" "run_command h w c inp out t = Inr (Some (f, b, out', t'))"
  shows "idle t' \<and> already_in_ipc t' = already_in_ipc t"
proof -
  define t1 where "t1 = open_pipes inp (case out of None \<Rightarrow> None | Some s \<Rightarrow> s) t"
  have ipc: "already_in_ipc t1 = already_in_ipc t" by (simp add: t1_def)
  show ?thesis
  proof (cases "run_builtin w c t1")
    case None
    then obtain argv r where sp: "spawn_process h w argv t1 = Inr r"
      "(case r of None \<Rightarrow> Inr None | Some (found, t2) \<Rightarrow> if found then Inr (Some (True, False, term_stdout t2, close_pipes t2))
        else Inr (Some (False, False, None, t2))) = (Inr (Some (f, b, out', t')) :: _ res)"
      using assms(2) by (auto simp: run_command_def t1_def [symmetric] rbind_eq_Inr split: if_splits)
    then obtain g t2 where "spawn_process h w argv t1 = Inr (Some (g, t2))" "t' = close_pipes t2 \<or> t' = t2"
      by (cases r) (auto split: if_splits)
    then show ?thesis using spawn_process_idle [OF assms(1)] ipc by (metis close_pipes_idle)
  next
    case (Some r)
    then obtain b2 t2 where "run_builtin w c t1 = Some (Inr (b2, t2))" "t' = close_pipes t2"
      using assms(2) by (auto simp: run_command_def t1_def [symmetric] rbind_eq_Inr split: if_splits)
    then show ?thesis using run_builtin_mode ipc by (auto simp: same_mode_def)
  qed
qed

lemma print_idle: "print bs t = Inr t' \<Longrightarrow> idle t \<Longrightarrow> idle t' \<and> already_in_ipc t' = already_in_ipc t"
  by (auto dest!: print_mode simp: same_mode_def idle_def)

lemma resolve_out_idle: "resolve_out w b p t = Inr (r, t') \<Longrightarrow> idle t \<Longrightarrow> idle t' \<and> already_in_ipc t' = already_in_ipc t"
  by (auto dest!: resolve_out_mode simp: same_mode_def idle_def)

lemma rbind_option: "rbind x (\<lambda>r. case r of None \<Rightarrow> Inr None | Some z \<Rightarrow> g z) = Inr (Some y) \<longleftrightarrow> (\<exists>z. x = Inr (Some z) \<and> g z = Inr (Some y))"
  by (auto simp: rbind_eq_Inr split: option.splits)

text \<open>The steps of \<open>command_received\<close> as an elimination: a command is followed by another one, or it was the last.\<close>

lemma command_received_cases:
  assumes "command_received h w c inp t = Inr (Some (f, b, t'))"
  obtains (Last) c' out f1 b1 out' t1 where "run_command h w c' inp out t = Inr (Some (f1, b1, out', t1))" "idle t1 \<Longrightarrow> idle t' \<and> already_in_ipc t' = already_in_ipc t1"
  | (Next) ty cur foll out f1 b1 out' t1 t2 n where "split_command c = Some (ty, cur, foll)" "length n < length c"
      "run_command h w cur inp out t = Inr (Some (f1, b1, out', t1))" "idle t1 \<Longrightarrow> idle t2 \<and> already_in_ipc t2 = already_in_ipc t1"
      "command_received h w n out' t2 = Inr (Some (f, b, t'))"
proof (cases "split_command c")
  case None
  then obtain f1 b1 out' t1 where r: "run_command h w c inp None t = Inr (Some (f1, b1, out', t1))"
    using assms by (subst (asm) command_received.simps) (auto simp: rbind_option)
  have "t' = t1 \<or> (\<exists>bs. print bs t1 = Inr t')"
    using assms None r by (subst (asm) command_received.simps) (auto simp: rbind_eq_Inr split: if_splits)
  then show ?thesis using Last [OF r] print_idle by blast
next
  case (Some x)
  obtain ty cur foll where x: "split_command c = Some (ty, cur, foll)" using Some by (cases x) auto
  obtain f1 b1 out' t1 where r: "run_command h w cur inp (Some (if ty = AND_RUN then None else Some [])) t = Inr (Some (f1, b1, out', t1))"
    using assms x by (subst (asm) command_received.simps) (auto simp: rbind_option)
  show ?thesis
  proof (cases "f1 \<and> \<not> (ty = PIPE_FILE \<or> ty = PIPE_FILE_APPEND)")
    case True
    then have "command_received h w foll out' t1 = Inr (Some (f, b, t'))"
      using assms x r by (subst (asm) command_received.simps) simp
    then show ?thesis using Next [OF x split_command_shorter [OF x] r] by blast
  next
    case False
    show ?thesis
    proof (cases f1)
      case False
      then show ?thesis
        using assms x r Last [OF r] print_idle by (subst (asm) command_received.simps) (fastforce simp: rbind_eq_Inr)
    next
      case f: True
      obtain fl cont where fp: "file_part foll = (fl, cont)" by fastforce
      obtain p ok t2 where ro: "resolve_out w False fl t1 = Inr ((p, ok), t2)"
        using assms x r f False fp by (subst (asm) command_received.simps) (auto simp: rbind_eq_Inr)
      let ?t3 = "act (FileWritten p (ty = PIPE_FILE_APPEND) (case out' of None \<Rightarrow> [] | Some s \<Rightarrow> s)) t2"
      have i3: "idle t1 \<Longrightarrow> idle ?t3 \<and> already_in_ipc ?t3 = already_in_ipc t1" using resolve_out_idle [OF ro] by (simp add: act_def idle_def)
      show ?thesis
      proof (cases "ok \<and> w_fopen w (t_acts t2) p")
        case True
        then have k: "(case cont of None \<Rightarrow> Inr (Some (True, b1, ?t3)) | Some n \<Rightarrow> command_received h w n out' ?t3) = Inr (Some (f, b, t'))"
          using assms x r f False fp ro by (subst (asm) command_received.simps) (simp add: Let_def)
        show ?thesis
        proof (cases cont)
          case None
          then have "t' = ?t3" using k by simp
          then show ?thesis using Last [OF r] i3 by blast
        next
          case (Some n)
          then have "length n < length c" using file_part_shorter [of foll fl n] split_command_shorter [OF x] fp by simp
          then show ?thesis using Next [OF x _ r i3, of n] k Some by simp
        qed
      next
        case bad: False
        have "idle t1 \<Longrightarrow> idle t' \<and> already_in_ipc t' = already_in_ipc t1"
          using assms x r f False fp ro bad resolve_out_idle [OF ro] print_idle
          by (subst (asm) command_received.simps) (fastforce simp: rbind_eq_Inr split: if_splits)
        then show ?thesis using Last [OF r] by blast
      qed
    qed
  qed
qed

lemma command_received_idle:
  assumes "keeps_idle h"
  shows "command_received h w c inp t = Inr (Some (f, b, t')) \<Longrightarrow> idle t' \<and> already_in_ipc t' = already_in_ipc t"
proof (induction "length c" arbitrary: c inp t rule: less_induct)
  case less
  from less.prems show ?case
  proof (cases rule: command_received_cases)
    case (Last c' out f1 b1 out' t1)
    then show ?thesis using run_command_idle [OF assms Last(1)] by simp
  next
    case (Next ty cur foll out f1 b1 out' t1 t2 n)
    then show ?thesis using less.hyps [of n out' t2] run_command_idle [OF assms Next(3)] by simp
  qed
qed

lemma on_message_idle: "keeps_idle (on_message w)"
  unfolding keeps_idle_def
proof (intro allI impI)
  fix m t t' assume i: "idle t \<and> already_in_ipc t" "on_message w m t = Inr (Some t')"
  have "keeps_idle (\<lambda>_ _. Inl Halted)" by (simp add: keeps_idle_def)
  then show "idle t' \<and> already_in_ipc t'" using i command_received_idle by (fastforce simp: on_message_def rbind_eq_Inr)
qed

text \<open>While the shell waits for a program, what it would do with a message does not matter: messages are not nested.\<close>

lemma run_command_nested: "already_in_ipc t \<Longrightarrow> run_command h w c inp out t = run_command h' w c inp out t"
  by (simp add: run_command_def spawn_process_def act_def Let_def cong: if_cong option.case_cong)

lemma run_command_stays_nested:
  assumes "already_in_ipc t" "run_command h w c inp out t = Inr (Some (f, b, out', t'))"
  shows "already_in_ipc t'"
proof -
  have "keeps_idle (\<lambda>_ _. Inl Halted)" by (simp add: keeps_idle_def)
  then show ?thesis using run_command_idle run_command_nested [OF assms(1), of h] assms by metis
qed

lemma command_received_nested: "already_in_ipc t \<Longrightarrow> command_received h w c inp t = command_received h' w c inp t"
proof (induction "length c" arbitrary: c inp t rule: less_induct)
  case less
  show ?case
  proof (cases "split_command c")
    case None
    then show ?thesis using run_command_nested [OF less.prems, of h w c inp None h'] by (subst (1 2) command_received.simps) simp
  next
    case (Some x)
    then obtain ty cur foll where x: "split_command c = Some (ty, cur, foll)" by (cases x) auto
    let ?out = "Some (if ty = AND_RUN then None else Some [])"
    have run: "run_command h w cur inp ?out t = run_command h' w cur inp ?out t" by (rule run_command_nested [OF less.prems])
    have foll: "command_received h w foll out' t1 = command_received h' w foll out' t1" if "already_in_ipc t1" for out' t1
      using less.hyps [OF split_command_shorter [OF x] that] .
    have cont: "command_received h w n out' (act a t2) = command_received h' w n out' (act a t2)"
      if "already_in_ipc t1" "resolve_out w False fl t1 = Inr (r, t2)" "file_part foll = (fl, Some n)" for n fl r a t1 t2 out'
    proof -
      have "length n < length c" using file_part_shorter [OF that(3)] split_command_shorter [OF x] by simp
      moreover have "already_in_ipc (act a t2)" using resolve_out_mode [OF that(2)] that(1) by (simp add: same_mode_def act_def)
      ultimately show ?thesis using less.hyps by blast
    qed
    show ?thesis
    proof (subst (1 2) command_received.simps, simp only: x run option.case prod.case, rule rbind_cong [OF refl], goal_cases)
      case (1 r)
      show ?case
      proof (cases r)
        case (Some z)
        then obtain f1 b1 out' t1 where r: "r = Some (f1, b1, out', t1)" by (cases z) auto
        have ipc: "already_in_ipc t1" using run_command_stays_nested [OF less.prems 1 [unfolded r]] .
        obtain fl cn where fp: "file_part foll = (fl, cn)" by fastforce
        have "rbind (resolve_out w False fl t1) F = rbind (resolve_out w False fl t1) G"
          if "\<And>p ok t2. resolve_out w False fl t1 = Inr ((p, ok), t2) \<Longrightarrow> F ((p, ok), t2) = G ((p, ok), t2)"
          for F G :: "(u8 list \<times> bool) \<times> terminal \<Rightarrow> (bool \<times> bool \<times> terminal) option res"
          by (rule rbind_cong [OF refl]) (use that in auto)
        then show ?thesis
          using foll [OF ipc] cont [OF ipc, of fl] fp unfolding r by (simp add: Let_def cong: if_cong split: option.split)
      qed simp
    qed
  qed
qed

section \<open>The input line: properties\<close>

lemma common_loop_length: "length (common_loop names n pos) \<le> n - pos"
proof (induction names n pos rule: common_loop.induct)
  case (1 names n pos)
  then show ?case by (subst common_loop.simps) (auto simp: Let_def)
qed

lemma complete_dirs_length: "complete_dirs c n st i ds = Inr (ex, k) \<Longrightarrow> length ex \<le> n"
proof (induction c n st i ds rule: complete_dirs.induct)
  case (2 c n st i d ds)
  then show ?case using common_loop_length [of "matches c d" n "length c"] by (fastforce simp: Let_def split: if_splits)
qed auto

lemma tab_complete_length:
  assumes "tab_complete es envp cwd c n = Inr extra"
  shows "length extra \<le> n"
proof -
  obtain path ex k where p: "complete_dirs c n False 0 (map es (check_dirs cwd path)) = Inr (ex, k)"
    and l: "length extra \<le> length (c_str ex)"
    using assms by (auto simp: tab_complete_def rbind_eq_Inr Let_def split: option.splits if_splits)
  have "length (c_str ex) \<le> length ex" by (simp add: c_str_def length_takeWhile_le)
  with complete_dirs_length [OF p] l show ?thesis by simp
qed

lemma acts_idle: "idle t \<Longrightarrow> idle (fold (\<lambda>e. act (Printed [e])) ex t) \<and> already_in_ipc (fold (\<lambda>e. act (Printed [e])) ex t) = already_in_ipc t"
  by (induction ex arbitrary: t) (auto simp: idle_def act_def)

lemma shell_command_idle: "shell_command w c t = Inr (Some (f, b, t')) \<Longrightarrow> idle t' \<and> already_in_ipc t' = already_in_ipc t"
  using command_received_idle [OF on_message_idle] by (simp add: shell_command_def)

lemma print_prompt_idle: "print_prompt t = Inr t' \<Longrightarrow> idle t \<Longrightarrow> idle t' \<and> already_in_ipc t' = already_in_ipc t"
  by (auto simp: print_prompt_def rbind_eq_Inr dest: print_idle)

definition line_state :: "bool \<Rightarrow> u8 list option \<Rightarrow> terminal \<Rightarrow> bool" where
  "line_state ipc buffer t \<longleftrightarrow> idle t \<and> already_in_ipc t = ipc \<and> (\<forall>b. buffer = Some b \<longrightarrow> length b \<le> MAX_BUFFER_SIZE)"

lemma input_key_state:
  assumes "line_state ipc (Some buffer) t" "input_key w c buffer t = Inr (Some (r, t'))"
  shows "line_state ipc r t'"
proof -
  obtain t1 where t1: "line_state ipc (Some buffer) t1"
    "(if 0x20 \<le> c \<and> c \<le> 0x7E \<or> c = 0x0A \<or> c = 0x08 then print [c] t else Inr t) = Inr t1"
    using assms print_idle by (fastforce simp: input_key_def rbind_eq_Inr line_state_def split: if_splits)
  then have i: "idle t1" "already_in_ipc t1 = ipc" "length buffer \<le> MAX_BUFFER_SIZE" by (simp_all add: line_state_def)
  note k = assms(2) [unfolded input_key_def t1(2) Let_def, simplified]
  consider "c = 0x08" | "c = 0x09" | "c = 0x0A" | "c \<noteq> 0x08" "c \<noteq> 0x09" "c \<noteq> 0x0A" by blast
  then show ?thesis
  proof cases
    case 1
    then show ?thesis using k i print_idle [of _ t1] by (auto simp: line_state_def rbind_eq_Inr split: if_splits)
  next
    case 2
    then show ?thesis
      using k i acts_idle [OF i(1)] by (auto simp: line_state_def rbind_eq_Inr dest!: tab_complete_length split: if_splits)
  next
    case 3
    show ?thesis
    proof (cases "buffer = [] \<or> is_quote_open buffer")
      case True
      then show ?thesis
        using k 3 i print_idle [of _ t1] print_prompt_idle [of t1] by (auto simp: line_state_def rbind_eq_Inr split: if_splits)
    next
      case False
      then obtain f b t2 where sc: "shell_command w buffer t1 = Inr (Some (f, b, t2))"
        "(if b then Inr (Some (None, t2)) else rbind (print_prompt t2) (\<lambda>t. Inr (Some (Some [], t)))) = Inr (Some (r, t'))"
        using k 3 by (auto simp: rbind_option)
      then show ?thesis
        using shell_command_idle [OF sc(1)] print_prompt_idle [of t2] i by (auto simp: line_state_def rbind_eq_Inr split: if_splits)
    qed
  next
    case 4
    then show ?thesis
      using k i print_idle [of _ t1] print_prompt_idle [of t1] by (auto simp: line_state_def rbind_eq_Inr split: if_splits)
  qed
qed

text \<open>
  C38. The shell at its prompt. Whatever is typed, whatever programs run and whatever commands they send back: when the shell
  waits for the next key, or has ended, no pipe is left open, it is not waiting for a program, and the line typed so far fits its buffer. A
  command that a program sends runs the same whatever would be done with further messages: they are not nested.
\<close>

theorem input_loop_state:
  assumes "idle t" "length buffer \<le> MAX_BUFFER_SIZE" "input_loop w keys buffer t = Inr (Some (r, t'))"
  shows "idle t' \<and> already_in_ipc t' = already_in_ipc t \<and> (\<forall>b. r = Some b \<longrightarrow> length b \<le> MAX_BUFFER_SIZE) \<and>
    (\<forall>h h' m inp s. already_in_ipc s \<longrightarrow> command_received h w m inp s = command_received h' w m inp s)"
proof -
  have "line_state (already_in_ipc t) (Some buffer) t" using assms(1,2) by (simp add: line_state_def)
  then have "line_state (already_in_ipc t) r t'" using assms(3)
  proof (induction keys arbitrary: buffer t)
    case (Cons c keys)
    obtain x t1 where x: "input_key w c buffer t = Inr (Some (x, t1))"
      using Cons.prems(2) by (auto simp: rbind_option)
    have l: "line_state (already_in_ipc t) x t1" using input_key_state [OF Cons.prems(1) x] .
    show ?case
    proof (cases x)
      case None
      then show ?thesis using Cons.prems(2) x l print_idle [of _ t1 t'] by (auto simp: line_state_def rbind_eq_Inr)
    next
      case (Some b)
      then show ?thesis using Cons.IH [of t1 b] Cons.prems(2) x l by (simp add: line_state_def)
    qed
  qed simp
  then show ?thesis using command_received_nested by (auto simp: line_state_def)
qed

text \<open>A shell on the drive \<open>d:\<close> with the search path \<open>d:/bin\<close>, on which every file can be opened and every program starts.\<close>

definition demo_world :: world where
  "demo_world = \<lparr>w_entries = (\<lambda>_ _. []), w_fs_names = (\<lambda>_. [[0x64]]), w_opens = (\<lambda>_ _. True), w_fopen = (\<lambda>_ _. True),
     w_spawn = (\<lambda>_ _ _ _. Some []), w_keys = (\<lambda>_. [])\<rparr>"

definition demo_terminal :: terminal where
  "demo_terminal = \<lparr>terminal_envp = [str ''PATH=d:/bin''], t_cwd = str ''d:'', term_stdout = None, term_stdin = None, stdin_pos = 0,
     already_in_ipc = False, t_acts = []\<rparr>"

lemma input_loop_pwd:
  "input_loop demo_world (str ''pwd'' @ [0x0A]) [] demo_terminal =
     Inr (Some (Some [], demo_terminal\<lparr>t_acts :=
       [Printed (str ''p''), Printed (str ''w''), Printed (str ''d''), Printed [0x0A], Printed (str ''d:'' @ [0x0A]),
        Printed ([0x0A] @ str ''shell d: > '')]\<rparr>))"
  by code_simp

theorem input_loop_state_witness:
  "\<exists>t'. input_loop demo_world (str ''pwd'' @ [0x0A]) [] demo_terminal = Inr (Some (Some [], t')) \<and> idle t' \<and> \<not> already_in_ipc t'"
proof -
  have "idle demo_terminal" "length ([] :: u8 list) \<le> MAX_BUFFER_SIZE" "\<not> already_in_ipc demo_terminal"
    by (simp_all add: idle_def demo_terminal_def)
  then show ?thesis using input_loop_state [OF _ _ input_loop_pwd] input_loop_pwd by blast
qed

section \<open>Commands: properties\<close>

text \<open>A command without a sign that the shell gives a meaning to.\<close>

definition plain_text :: "u8 list \<Rightarrow> bool" where
  "plain_text cs \<longleftrightarrow> set cs \<inter> {0x7C, 0x3E, 0x26, BACKSLASH, DOUBLE_QUOTE, SINGLE_QUOTE} = {}"

lemma command_type_plain: "plain_text cs \<Longrightarrow> \<not> in_quotes q \<Longrightarrow> command_type_loop q i cs = (NORMAL, 0, False)"
proof (induction cs arbitrary: q i)
  case (Cons c cs)
  then have "plain_text cs" "c \<notin> {0x7C, 0x3E, 0x26, BACKSLASH, DOUBLE_QUOTE, SINGLE_QUOTE}" by (auto simp: plain_text_def)
  moreover have "\<not> in_quotes (q\<lparr>special_char_next := False\<rparr>)" using Cons.prems(2) by (simp add: in_quotes_def)
  ultimately show ?case using Cons.IH [of "q\<lparr>special_char_next := False\<rparr>" "i + 1"] by (simp add: Let_def)
qed simp

lemma split_command_plain: "plain_text cs \<Longrightarrow> split_command cs = None"
  using command_type_plain [of cs no_quotes 0] by (simp add: split_command_def get_command_type_def no_quotes_def in_quotes_def)

lemma argv_loop_plain: "plain_text cs \<Longrightarrow> SPACE \<notin> set cs \<Longrightarrow> argv_loop q cur argv (cs @ rest) = argv_loop q (cur @ cs) argv rest"
proof (induction cs arbitrary: cur)
  case (Cons c cs)
  then have "quote_step c q = q" by (auto simp: plain_text_def quote_step_def)
  with Cons show ?case by (simp add: plain_text_def)
qed simp

lemma argv_split_two:
  assumes "plain_text a" "plain_text b" "SPACE \<notin> set a" "SPACE \<notin> set b"
  shows "argv_split (a @ SPACE # b) = Inr [a, b]"
proof -
  have "argv_loop no_quotes [] [] (a @ SPACE # b) = [a, b]"
    using argv_loop_plain [OF assms(1,3), of no_quotes "[]" "[]"] argv_loop_plain [OF assms(2,4), of no_quotes "[]" "[a]" "[]"]
    by (simp add: no_quotes_def in_quotes_def)
  then show ?thesis using argv_loop_length [of no_quotes "[]" "[]" "a @ SPACE # b"] by (simp add: argv_split_def)
qed

lemma first_word: "SPACE \<notin> set p \<Longrightarrow> SPACE \<notin> set q \<Longrightarrow> take (Suc (length q)) (p @ SPACE # x) = q @ [SPACE] \<Longrightarrow> p = q"
proof -
  assume a: "SPACE \<notin> set p" "SPACE \<notin> set q" "take (Suc (length q)) (p @ SPACE # x) = q @ [SPACE]"
  have "p @ SPACE # x = q @ SPACE # drop (Suc (length q)) (p @ SPACE # x)"
    using append_take_drop_id [of "Suc (length q)" "p @ SPACE # x"] unfolding a(3) by (simp del: take_append drop_append)
  then show ?thesis using takeWhile_upto [OF a(1)] takeWhile_upto [OF a(2)] by metis
qed

definition builtin_word :: "u8 list \<Rightarrow> bool" where
  "builtin_word p \<longleftrightarrow> p \<in> {str ''layout'', str ''cd'', str ''export'', str ''fault'', str ''read'', str ''exit''} \<or> take 3 p = str ''pwd''"

lemma run_builtin_other:
  assumes "SPACE \<notin> set p" "\<not> builtin_word p"
  shows "run_builtin w (p @ SPACE # x) t = None"
proof -
  have str: "SPACE \<notin> set (str ''layout'')" "SPACE \<notin> set (str ''cd'')" "SPACE \<notin> set (str ''export'')" "SPACE \<notin> set (str ''fault'')"
    "SPACE \<notin> set (str ''read'')" "SPACE \<notin> set (str ''pwd'')" "SPACE \<notin> set (str ''exit'')"
    by code_simp+
  have len: "length (str s) = length s" for s by (simp add: str_def)
  have w: "take (Suc (length q)) (p @ SPACE # x) \<noteq> str (q @ '' '')" if "SPACE \<notin> set (str q)" "p \<noteq> str q" for q
    using first_word [OF assms(1) that(1), of x] that(2) by (auto simp: str_def)
  have "take 3 (p @ SPACE # x) \<noteq> str ''pwd''"
  proof
    assume a: "take 3 (p @ SPACE # x) = str ''pwd''"
    have "length p \<ge> 3"
    proof (rule ccontr)
      assume "\<not> 3 \<le> length p"
      then have "SPACE \<in> set (take 3 (p @ SPACE # x))" by (auto simp: take_Cons')
      with a str(6) show False by simp
    qed
    with a assms(2) show False by (simp add: builtin_word_def)
  qed
  moreover have "p @ SPACE # x \<noteq> str ''exit''" using str(7) by (metis in_set_conv_decomp)
  ultimately show ?thesis
    using w [OF str(1)] w [OF str(2)] w [OF str(3)] w [OF str(4)] w [OF str(5)] assms(2)
    by (simp add: run_builtin_def builtin_word_def numeral_eq_Suc)
qed

lemma spawn_process_plain:
  assumes "idle t" "search_executable (w_opens w (t_acts t)) (terminal_envp t) (t_cwd t) (hd argv) = Inr (Some e)"
    and "w_spawn w (t_acts t) e argv (terminal_envp t) = Some []"
  shows "\<exists>t2. spawn_process h w argv t = Inr (Some (True, t2)) \<and> t_acts t2 = t_acts t @ [Spawned e argv (terminal_envp t)]"
  using assms by (auto simp: spawn_process_def idle_def act_def Let_def)

text \<open>
  Variables reach programs. After the command \<open>export NAME=VALUE\<close> the command \<open>PROGRAM $NAME\<close> starts the program that is found for
  it with the two arguments \<open>PROGRAM\<close> and \<open>VALUE\<close>, and with the new list of variables.
\<close>

lemma export_reaches_program:
  assumes "name \<noteq> []" "\<forall>c \<in> set name. name_char c" "plain_text content" "0x24 \<notin> set content" "length name < 256" "length name + length content < 504"
    and "plain_text prog" "SPACE \<notin> set prog" "0x24 \<notin> set prog" "\<not> builtin_word prog" "length prog < 512"
    and "idle t" "length (terminal_envp t) < 1023"
  shows "\<exists>t1. shell_command w (str ''export '' @ name @ EQUALS # content) t = Inr (Some (True, False, t1)) \<and>
    getenv (terminal_envp t1) name = Some content \<and>
    (\<forall>e. search_executable (w_opens w (t_acts t1)) (terminal_envp t1) (t_cwd t1) prog = Inr (Some e) \<longrightarrow>
      w_spawn w (t_acts t1) e [prog, content] (terminal_envp t1) = Some [] \<longrightarrow>
      (\<exists>t2. shell_command w (prog @ SPACE # 0x24 # name) t1 = Inr (Some (True, False, t2)) \<and>
        t_acts t2 = t_acts t1 @ [Spawned e [prog, content] (terminal_envp t1)]))"
proof -
  have nm: "plain_text name" "EQUALS \<notin> set name" "0x24 \<notin> set name" "SPACE \<notin> set name"
    using assms(2) by (auto simp: plain_text_def name_char_def)
  have ex: "plain_text (str ''export '')" "0x24 \<notin> set (str ''export '')" "length (str ''export '') = 7" by code_simp+
  let ?c = "str ''export '' @ name @ EQUALS # content"
  have pc: "plain_text ?c" using ex(1) nm(1) assms(3) by (auto simp: plain_text_def)
  have "0x24 \<notin> set ?c" "length ?c < 512" using ex(2,3) nm(3) assms(4-6) by auto
  then have re: "read_env envp ?c = Inr ?c" for envp by (rule read_env_plain)
  obtain envp' where e: "export_var ?c (terminal_envp t) = Inr (Some envp')" "getenv envp' name = Some content"
    using export_getenv [OF ex(3) assms(1) nm(2) assms(13), of content] by blast
  have tk: "take 7 ?c = str ''export ''" using ex(3) by simp
  have ne: "str ''export '' \<noteq> str ''layout ''" "take 3 (str ''export '') \<noteq> str ''cd ''" "take 3 (str ''export '') \<noteq> str ''pwd''" by code_simp+
  have t3: "take 3 ?c = take 3 (str ''export '')" using ex(3) by simp
  have xp: "export ?c t = Inr (t\<lparr>terminal_envp := envp'\<rparr>)" unfolding export_def e(1) by simp
  let ?t1 = "close_pipes (t\<lparr>terminal_envp := envp'\<rparr>)"
  have "run_builtin w ?c t = Some (Inr (False, t\<lparr>terminal_envp := envp'\<rparr>))"
    using ne xp re by (simp add: run_builtin_def Let_def tk t3 del: take_append)
  then have "shell_command w ?c t = Inr (Some (True, False, ?t1))"
    using assms(12) unfolding shell_command_def
    by (subst command_received.simps) (simp add: split_command_plain [OF pc] run_command_def open_pipes_def)
  moreover have "getenv (terminal_envp ?t1) name = Some content" using e(2) by (simp add: close_pipes_def)
  moreover have "\<exists>t2. shell_command w (prog @ SPACE # 0x24 # name) ?t1 = Inr (Some (True, False, t2)) \<and>
        t_acts t2 = t_acts ?t1 @ [Spawned e [prog, content] (terminal_envp ?t1)]"
    if f: "search_executable (w_opens w (t_acts ?t1)) (terminal_envp ?t1) (t_cwd ?t1) prog = Inr (Some e)"
      "w_spawn w (t_acts ?t1) e [prog, content] (terminal_envp ?t1) = Some []" for e
  proof -
    have env: "terminal_envp ?t1 = envp'" by (simp add: close_pipes_def)
    have as: "argv_split (prog @ SPACE # 0x24 # name) = Inr [prog, 0x24 # name]"
      using argv_split_two [of prog "0x24 # name"] assms(7,8) nm by (simp add: plain_text_def)
    have "read_env envp' (0x24 # name) = Inr content"
      using read_env_variable [of "[]" "[]" name envp' content] assms(2,5,6) e(2) by simp
    then have av: "argv_env_process envp' [prog, 0x24 # name] = Inr [prog, content]"
      using read_env_plain [OF assms(9,11)] by simp
    have pl: "plain_text (prog @ SPACE # 0x24 # name)" using assms(7) nm(1) by (auto simp: plain_text_def)
    obtain t2 where t2: "spawn_process (on_message w) w [prog, content] ?t1 = Inr (Some (True, t2))"
      "t_acts t2 = t_acts ?t1 @ [Spawned e [prog, content] (terminal_envp ?t1)]"
      using spawn_process_plain [of ?t1 w "[prog, content]" e] f by auto
    have op: "open_pipes None None s = s" for s by (simp add: open_pipes_def)
    have "run_command (on_message w) w (prog @ SPACE # 0x24 # name) None None ?t1 = Inr (Some (True, False, term_stdout t2, close_pipes t2))"
      using as av t2(1) run_builtin_other [OF assms(8,10)] by (simp add: run_command_def op env)
    then have "shell_command w (prog @ SPACE # 0x24 # name) ?t1 = Inr (Some (True, False, close_pipes t2))"
      unfolding shell_command_def by (subst command_received.simps) (simp add: split_command_plain [OF pl])
    then show ?thesis using t2(2) by (simp add: close_pipes_def)
  qed
  ultimately show ?thesis by blast
qed

text \<open>
  Pipes and programs. A program on either side of a pipe, or with its output sent to a file, fails an assertion that ends the shell; the sign
  \<open>&\<close> reads through a null pointer whatever stands in front of it. Commands of the shell can be piped.
\<close>

lemma program_in_pipe:
  assumes "split_command c = Some (ty, cur, foll)" "ty \<noteq> AND_RUN" "cur = p @ SPACE # a" "plain_text p" "plain_text a" "SPACE \<notin> set p" "SPACE \<notin> set a"
    and "\<not> builtin_word p" "0x24 \<notin> set p" "0x24 \<notin> set a" "length p < 512" "length a < 512"
  shows "shell_command w c t = Inl AssertFailed"
proof -
  have "argv_split cur = Inr [p, a]" using argv_split_two assms(3-7) by simp
  moreover have "argv_env_process envp [p, a] = Inr [p, a]" for envp using assms(9-12) by (simp add: read_env_plain)
  ultimately have "run_command (on_message w) w cur None (Some (Some [])) t = Inl AssertFailed"
    using run_builtin_other [OF assms(6,8), of w a] by (simp add: run_command_def assms(3) open_pipes_def spawn_process_def)
  then show ?thesis using assms(1,2) unfolding shell_command_def by (subst command_received.simps) simp
qed

lemma and_run_faults: "split_command c = Some (AND_RUN, cur, foll) \<Longrightarrow> shell_command w c t = Inl NullDeref"
  unfolding shell_command_def by (subst command_received.simps) (simp add: run_command_def)

lemma pipe_examples:
  "shell_command demo_world (str ''ls x|pwd'') demo_terminal = Inl AssertFailed"
  "shell_command demo_world (str ''pwd|ls x'') demo_terminal = Inl AssertFailed"
  "shell_command demo_world (str ''pwd & pwd'') demo_terminal = Inl NullDeref"
  "shell_command demo_world (str ''pwd>f'') demo_terminal =
     Inr (Some (True, False, demo_terminal\<lparr>t_acts := [FileWritten (str ''d:/f'') False (str ''d:'' @ [0x0A])]\<rparr>))"
  by code_simp+

end
