(* ===== verification/Ipc.thy ===== *)
theory Ipc
  imports Prelude
begin

text \<open>
  Messages between two tasks, \<open>user/libc/ipc.c\<close>, as the shell (\<open>spawn_process\<close>) and a program (\<open>system\<close>) use it: a page of memory
  that both have mapped, with a state, a number of bytes and the bytes. The timer can stop a task between any two instructions, so
  every access to the page is a step of its own, and the steps of the two tasks come in any order. A task that waits repeats its test. What
  the page holds at first is arbitrary, since it is not cleared. \<open>get_proc_info\<close> ends the shell's loops when the program ends; leaving a
  loop earlier only ends a run earlier.
\<close>

datatype ipc_state =
    IPC_HANDSHAKE_START
  | IPC_HANDSHAKE_ACK
  | IPC_CONNECTION_OK
  | IPC_WAIT_FOR_ANSWER
  | IPC_OTHER int

text \<open>Where the program is, in \<open>ipc_init\<close> and \<open>ipc_message_send\<close>, and where the shell is, in \<open>ipc_init_host\<close>, \<open>ipc_message_ready\<close> and \<open>ipc_ok\<close>.\<close>

datatype client_pc = C_Init | C_Ack | C_WaitOk | C_Send | C_Bytes | C_Copy nat | C_Signal | C_WaitAnswer | C_AssertFailed

datatype host_pc = H_Init | H_SetStart | H_SetOk | H_Ready | H_Copy nat nat "u8 list" | H_Handle "u8 list" | H_Check | H_SetAnswer | H_AssertFailed

record tunnel =
  tn_state :: ipc_state
  sended_bytes :: nat
  tn_data :: "u8 list"
  client :: client_pc
  to_send :: "u8 list list"
  host :: host_pc
  received :: "u8 list list"

section \<open>Steps\<close>

text \<open>The steps of the program, which sends \<open>to_send\<close>.\<close>

definition ipc_init :: "tunnel \<Rightarrow> tunnel" where
  "ipc_init s = (case client s of
       C_Init \<Rightarrow> if tn_state s = IPC_HANDSHAKE_START then s\<lparr>client := C_Ack\<rparr> else s
     | C_Ack \<Rightarrow> s\<lparr>tn_state := IPC_HANDSHAKE_ACK, client := C_WaitOk\<rparr>
     | C_WaitOk \<Rightarrow> if tn_state s = IPC_CONNECTION_OK then s\<lparr>client := C_Send\<rparr> else s
     | _ \<Rightarrow> s)"

definition ipc_message_send :: "tunnel \<Rightarrow> tunnel" where
  "ipc_message_send s = (case client s of
       C_Send \<Rightarrow> if to_send s = [] then s
         else if tn_state s = IPC_CONNECTION_OK then s\<lparr>client := C_Bytes\<rparr> else s\<lparr>client := C_AssertFailed\<rparr>
     | C_Bytes \<Rightarrow> s\<lparr>sended_bytes := length (hd (to_send s)), client := C_Copy 0\<rparr>
     | C_Copy i \<Rightarrow>
         if i < length (hd (to_send s)) then s\<lparr>tn_data := (tn_data s)[i := hd (to_send s) ! i], client := C_Copy (Suc i)\<rparr>
         else s\<lparr>client := C_Signal\<rparr>
     | C_Signal \<Rightarrow> s\<lparr>tn_state := IPC_WAIT_FOR_ANSWER, client := C_WaitAnswer\<rparr>
     | C_WaitAnswer \<Rightarrow> if tn_state s = IPC_WAIT_FOR_ANSWER then s else s\<lparr>to_send := tl (to_send s), client := C_Send\<rparr>
     | _ \<Rightarrow> s)"

definition client_step :: "tunnel \<Rightarrow> tunnel" where
  "client_step s = (if client s \<in> {C_Init, C_Ack, C_WaitOk} then ipc_init s else ipc_message_send s)"

text \<open>The steps of the shell. \<open>H_Handle\<close>: \<open>command_received\<close> with the message.\<close>

definition ipc_init_host :: "tunnel \<Rightarrow> tunnel" where
  "ipc_init_host s = (case host s of
       H_Init \<Rightarrow> if tn_state s \<noteq> IPC_HANDSHAKE_ACK then s\<lparr>host := H_SetStart\<rparr> else s\<lparr>host := H_SetOk\<rparr>
     | H_SetStart \<Rightarrow> s\<lparr>tn_state := IPC_HANDSHAKE_START, host := H_Init\<rparr>
     | H_SetOk \<Rightarrow> s\<lparr>tn_state := IPC_CONNECTION_OK, host := H_Ready\<rparr>
     | _ \<Rightarrow> s)"

definition ipc_message_ready :: "tunnel \<Rightarrow> tunnel" where
  "ipc_message_ready s = (case host s of
       H_Ready \<Rightarrow> if tn_state s = IPC_WAIT_FOR_ANSWER then s\<lparr>host := H_Copy (sended_bytes s) 0 []\<rparr> else s
     | H_Copy n i out \<Rightarrow> if i < n then s\<lparr>host := H_Copy n (Suc i) (out @ [tn_data s ! i])\<rparr> else s\<lparr>host := H_Handle out\<rparr>
     | _ \<Rightarrow> s)"

definition ipc_ok :: "tunnel \<Rightarrow> tunnel" where
  "ipc_ok s = (case host s of
       H_Check \<Rightarrow> if tn_state s = IPC_WAIT_FOR_ANSWER then s\<lparr>host := H_SetAnswer\<rparr> else s\<lparr>host := H_AssertFailed\<rparr>
     | H_SetAnswer \<Rightarrow> s\<lparr>tn_state := IPC_CONNECTION_OK, host := H_Ready\<rparr>
     | _ \<Rightarrow> s)"

definition host_step :: "tunnel \<Rightarrow> tunnel" where
  "host_step s = (case host s of
       H_Handle out \<Rightarrow> s\<lparr>received := received s @ [out], host := H_Check\<rparr>
     | H_Ready \<Rightarrow> ipc_message_ready s
     | H_Copy _ _ _ \<Rightarrow> ipc_message_ready s
     | H_Check \<Rightarrow> ipc_ok s
     | H_SetAnswer \<Rightarrow> ipc_ok s
     | _ \<Rightarrow> ipc_init_host s)"

lemmas client_steps = client_step_def ipc_init_def ipc_message_send_def
lemmas host_steps = host_step_def ipc_init_host_def ipc_message_ready_def ipc_ok_def

text \<open>The steps of both in any order, and a run by the list of who takes the next step.\<close>

inductive ipc_step :: "tunnel \<Rightarrow> tunnel \<Rightarrow> bool" where
  Client: "ipc_step s (client_step s)"
| Host: "ipc_step s (host_step s)"

datatype who = ClientTurn | HostTurn

primrec turn :: "who \<Rightarrow> tunnel \<Rightarrow> tunnel" where
  "turn ClientTurn s = client_step s"
| "turn HostTurn s = host_step s"

definition exec :: "who list \<Rightarrow> tunnel \<Rightarrow> tunnel" where
  "exec ws s = fold turn ws s"

text \<open>The tunnel when the page was mapped: its content is \<open>st\<close>, \<open>n\<close> and \<open>page\<close>.\<close>

definition ipc_boot :: "ipc_state \<Rightarrow> nat \<Rightarrow> u8 list \<Rightarrow> u8 list list \<Rightarrow> tunnel" where
  "ipc_boot st n page ms =
     \<lparr>tn_state = st, sended_bytes = n, tn_data = page, client = C_Init, to_send = ms, host = H_Init, received = []\<rparr>"

inductive_simps ipc_step_iff: "ipc_step s t"

section \<open>Safety\<close>

text \<open>
  The invariant, by where the shell is. Until it has seen the answer nothing was sent. Afterwards the program writes the page only while the
  state is \<open>IPC_CONNECTION_OK\<close> and the shell waits, and the shell reads it only while the state is \<open>IPC_WAIT_FOR_ANSWER\<close> and the program waits.
\<close>

definition unsent :: "u8 list list \<Rightarrow> tunnel \<Rightarrow> bool" where
  "unsent ms s \<longleftrightarrow> received s = [] \<and> to_send s = ms \<and>
     (client s = C_Init \<or> client s = C_Ack \<and> tn_state s = IPC_HANDSHAKE_START \<or>
      client s = C_WaitOk \<and> tn_state s \<in> {IPC_HANDSHAKE_START, IPC_HANDSHAKE_ACK})"

definition writing :: "u8 list list \<Rightarrow> tunnel \<Rightarrow> bool" where
  "writing ms s \<longleftrightarrow> tn_state s = IPC_CONNECTION_OK \<and> ms = received s @ to_send s \<and>
     (case client s of
        C_Init \<Rightarrow> received s = [] | C_WaitOk \<Rightarrow> received s = [] | C_Send \<Rightarrow> True
      | C_Bytes \<Rightarrow> to_send s \<noteq> []
      | C_Copy i \<Rightarrow> to_send s \<noteq> [] \<and> sended_bytes s = length (hd (to_send s)) \<and> i \<le> sended_bytes s \<and> take i (tn_data s) = take i (hd (to_send s))
      | C_Signal \<Rightarrow> to_send s \<noteq> [] \<and> sended_bytes s = length (hd (to_send s)) \<and> take (sended_bytes s) (tn_data s) = hd (to_send s)
      | _ \<Rightarrow> False)"

definition waiting :: "tunnel \<Rightarrow> bool" where
  "waiting s \<longleftrightarrow> client s = C_WaitAnswer \<and> tn_state s = IPC_WAIT_FOR_ANSWER \<and> to_send s \<noteq> [] \<and>
     sended_bytes s = length (hd (to_send s)) \<and> take (sended_bytes s) (tn_data s) = hd (to_send s)"

definition answered :: "u8 list list \<Rightarrow> tunnel \<Rightarrow> bool" where
  "answered ms s \<longleftrightarrow> client s = C_WaitAnswer \<and> tn_state s = IPC_CONNECTION_OK \<and> to_send s \<noteq> [] \<and>
     received s \<noteq> [] \<and> ms = received s @ tl (to_send s)"

definition ipc_inv :: "u8 list list \<Rightarrow> tunnel \<Rightarrow> bool" where
  "ipc_inv ms s \<longleftrightarrow> (\<forall>m \<in> set ms. length m \<le> length (tn_data s)) \<and>
     (case host s of
        H_Init \<Rightarrow> unsent ms s | H_SetStart \<Rightarrow> unsent ms s
      | H_SetOk \<Rightarrow> unsent ms s \<and> tn_state s = IPC_HANDSHAKE_ACK
      | H_Ready \<Rightarrow> writing ms s \<or> waiting s \<and> ms = received s @ to_send s \<or> answered ms s
      | H_Copy n i out \<Rightarrow> waiting s \<and> ms = received s @ to_send s \<and> n = sended_bytes s \<and> i \<le> n \<and> out = take i (hd (to_send s))
      | H_Handle out \<Rightarrow> waiting s \<and> ms = received s @ to_send s \<and> out = hd (to_send s)
      | H_Check \<Rightarrow> waiting s \<and> received s \<noteq> [] \<and> ms = received s @ tl (to_send s)
      | H_SetAnswer \<Rightarrow> waiting s \<and> received s \<noteq> [] \<and> ms = received s @ tl (to_send s)
      | H_AssertFailed \<Rightarrow> False)"

lemma client_step_inv: "ipc_inv ms s \<Longrightarrow> ipc_inv ms (client_step s)"
proof (cases "client s")
  case (C_Copy i)
  assume inv: "ipc_inv ms s"
  then have w: "host s = H_Ready" "writing ms s"
    by (auto simp: ipc_inv_def unsent_def waiting_def answered_def C_Copy split: host_pc.splits)
  then have m: "to_send s \<noteq> []" "sended_bytes s = length (hd (to_send s))" "take i (tn_data s) = take i (hd (to_send s))" "i \<le> sended_bytes s"
    by (simp_all add: writing_def C_Copy)
  have "hd (to_send s) \<in> set ms" using w(2) m(1) by (simp add: writing_def)
  then have l: "length (hd (to_send s)) \<le> length (tn_data s)" using inv by (simp add: ipc_inv_def)
  have "take (Suc i) ((tn_data s)[i := hd (to_send s) ! i]) = take (Suc i) (hd (to_send s))" if "i < length (hd (to_send s))"
    using that l m(3) by (simp add: take_Suc_conv_app_nth)
  then show ?thesis using inv w m by (auto simp: client_steps ipc_inv_def writing_def C_Copy)
qed (auto simp: client_steps ipc_inv_def unsent_def writing_def waiting_def answered_def split: host_pc.splits)

lemma host_step_inv: "ipc_inv ms s \<Longrightarrow> ipc_inv ms (host_step s)"
proof (cases "host s")
  case (H_Copy n i out)
  assume inv: "ipc_inv ms s"
  then have w: "waiting s" "ms = received s @ to_send s" "n = sended_bytes s" "i \<le> n" "out = take i (hd (to_send s))"
    by (simp_all add: ipc_inv_def H_Copy)
  have "out @ [tn_data s ! i] = take (Suc i) (hd (to_send s))" if "i < n"
  proof -
    have "tn_data s ! i = hd (to_send s) ! i" using w(1,3) that by (metis nth_take waiting_def)
    then show ?thesis using w that by (simp add: take_Suc_conv_app_nth waiting_def)
  qed
  moreover have "out = hd (to_send s)" if "\<not> i < n" using that w by (simp add: waiting_def)
  ultimately show ?thesis using inv w by (auto simp: host_steps ipc_inv_def waiting_def H_Copy)
next
  case (H_Handle out)
  assume "ipc_inv ms s"
  then show ?thesis by (cases "to_send s") (auto simp: host_steps ipc_inv_def waiting_def H_Handle)
qed (auto simp: host_steps ipc_inv_def unsent_def writing_def waiting_def answered_def split: client_pc.splits)

lemma ipc_step_inv: "ipc_step s t \<Longrightarrow> ipc_inv ms s \<Longrightarrow> ipc_inv ms t"
  using client_step_inv host_step_inv by (auto simp: ipc_step_iff)

lemma ipc_reachable_inv: "ipc_step\<^sup>*\<^sup>* s t \<Longrightarrow> ipc_inv ms s \<Longrightarrow> ipc_inv ms t"
  by (induction rule: rtranclp_induct) (auto intro: ipc_step_inv)

lemma ipc_boot_inv: "\<forall>m \<in> set ms. length m \<le> length page \<Longrightarrow> ipc_inv ms (ipc_boot st n page ms)"
  by (simp add: ipc_inv_def ipc_boot_def unsent_def)

lemma ipc_inv_received: "ipc_inv ms s \<Longrightarrow> \<exists>rest. ms = received s @ rest"
  by (auto simp: ipc_inv_def unsent_def writing_def answered_def split: host_pc.splits)

lemma turn_step: "ipc_step s (turn w s)"
  by (cases w) (auto intro: ipc_step.intros)

lemma exec_simps [simp]: "exec [] s = s" "exec (w # ws) s = exec ws (turn w s)" "exec (us @ ws) s = exec ws (exec us s)"
  by (simp_all add: exec_def)

lemma exec_reachable: "ipc_step\<^sup>*\<^sup>* s (exec ws s)"
  by (induction ws arbitrary: s) (auto intro: turn_step converse_rtranclp_into_rtranclp)

text \<open>
  C16. Messages are delivered at most once and in order, whenever the tasks are interrupted and whatever the page held at first: in every
  reachable state neither of the two assertions has failed, the messages received are a prefix of those to send, unchanged,
  and the program has gone on to its next message only when the one before was handled.
\<close>

theorem ipc_safe:
  assumes "\<forall>m \<in> set ms. length m \<le> length page" "ipc_step\<^sup>*\<^sup>* (ipc_boot st n page ms) s"
  shows "client s \<noteq> C_AssertFailed \<and> host s \<noteq> H_AssertFailed \<and> (\<exists>rest. ms = received s @ rest) \<and>
    length ms - length (to_send s) \<le> length (received s)"
proof -
  have inv: "ipc_inv ms s" using ipc_reachable_inv [OF assms(2) ipc_boot_inv [OF assms(1)]] .
  then have "client s \<noteq> C_AssertFailed" "host s \<noteq> H_AssertFailed" "length ms - length (to_send s) \<le> length (received s)"
    by (auto simp: ipc_inv_def unsent_def writing_def waiting_def answered_def split: host_pc.splits client_pc.splits)
  with ipc_inv_received [OF inv] show ?thesis by blast
qed

text \<open>The program stops after its first byte of \<open>[7, 8]\<close>, on a page that held other values.\<close>

theorem ipc_safe_witness:
  "let s = exec [HostTurn, HostTurn, ClientTurn, ClientTurn, HostTurn, HostTurn, ClientTurn, ClientTurn, ClientTurn, ClientTurn]
      (ipc_boot (IPC_OTHER 9) 5 [1, 1, 1] [[7, 8]])
   in client s = C_Copy 1 \<and> tn_data s = [7, 1, 1] \<and> host s \<noteq> H_AssertFailed \<and> received s = []"
proof -
  let ?ws = "[HostTurn, HostTurn, ClientTurn, ClientTurn, HostTurn, HostTurn, ClientTurn, ClientTurn, ClientTurn, ClientTurn]"
  let ?s = "exec ?ws (ipc_boot (IPC_OTHER 9) 5 [1, 1, 1] [[7, 8]])"
  have "\<forall>m \<in> set [[7, 8 :: u8]]. length m \<le> length [1, 1, 1 :: u8]" by simp
  then have "host ?s \<noteq> H_AssertFailed" using ipc_safe [OF _ exec_reachable] by blast
  moreover have "client ?s = C_Copy 1" "tn_data ?s = [7, 1, 1]" "received ?s = []"
    by (simp_all add: ipc_boot_def client_steps host_steps)
  ultimately show ?thesis by (simp only: Let_def simp_thms)
qed

section \<open>Delivery\<close>

definition cost :: "u8 list \<Rightarrow> nat" where
  "cost m = 2 * length m + 10"

text \<open>The steps that are left once the program is connected.\<close>

definition work :: "tunnel \<Rightarrow> nat" where
  "work s = (let m = hd (to_send s); rest = sum_list (map cost (tl (to_send s))) in
     case client s of
       C_Send \<Rightarrow> sum_list (map cost (to_send s))
     | C_Bytes \<Rightarrow> rest + 2 * length m + 9
     | C_Copy i \<Rightarrow> rest + (length m - i) + length m + 8
     | C_Signal \<Rightarrow> rest + length m + 7
     | C_WaitAnswer \<Rightarrow> rest + (case host s of
           H_Ready \<Rightarrow> if tn_state s = IPC_WAIT_FOR_ANSWER then length m + 6 else 1
         | H_Copy n i out \<Rightarrow> length m - i + 5
         | H_Handle out \<Rightarrow> 4 | H_Check \<Rightarrow> 3 | H_SetAnswer \<Rightarrow> 2 | _ \<Rightarrow> 0)
     | _ \<Rightarrow> 0)"

definition connected :: "u8 list list \<Rightarrow> tunnel \<Rightarrow> bool" where
  "connected ms s \<longleftrightarrow> ipc_inv ms s \<and> client s \<notin> {C_Init, C_Ack, C_WaitOk}"

lemma sum_list_hd: "xs \<noteq> [] \<Longrightarrow> sum_list (map f xs) = f (hd xs) + sum_list (map f (tl xs))" for f :: "'a \<Rightarrow> nat"
  by (cases xs) auto

lemma client_work:
  assumes "connected ms s"
  shows "connected ms (client_step s) \<and> (client_step s = s \<or> work (client_step s) < work s)"
proof -
  have "connected ms (client_step s)"
    using assms client_step_inv [of ms s] by (auto simp: connected_def client_steps split: client_pc.splits)
  moreover have "client_step s = s \<or> work (client_step s) < work s"
    using assms
    by (cases "client s")
      (auto simp: connected_def client_steps work_def Let_def ipc_inv_def unsent_def writing_def waiting_def answered_def sum_list_hd cost_def
        split: host_pc.splits)
  ultimately show ?thesis by simp
qed

lemma host_work:
  assumes "connected ms s"
  shows "connected ms (host_step s) \<and> (host_step s = s \<or> work (host_step s) < work s)"
proof -
  have "connected ms (host_step s)"
    using assms host_step_inv [of ms s] by (auto simp: connected_def host_steps split: host_pc.splits)
  moreover have "host_step s = s \<or> work (host_step s) < work s"
    using assms
    by (cases "host s")
      (auto simp: connected_def host_steps work_def Let_def ipc_inv_def unsent_def writing_def waiting_def answered_def split: client_pc.splits)
  ultimately show ?thesis by simp
qed

lemma turn_work: "connected ms s \<Longrightarrow> connected ms (turn w s) \<and> (turn w s = s \<or> work (turn w s) < work s)"
  using client_work host_work by (cases w) auto

lemma work_progress:
  assumes "connected ms s" "0 < work s"
  shows "\<exists>w. work (turn w s) < work s"
proof (cases "client s = C_WaitAnswer \<and> tn_state s = IPC_WAIT_FOR_ANSWER")
  case True
  then have "host_step s \<noteq> s" using assms(1)
    by (auto simp: connected_def host_steps ipc_inv_def unsent_def writing_def waiting_def answered_def split: host_pc.splits dest: arg_cong [of _ _ host])
  then have "work (turn HostTurn s) < work s" using host_work [OF assms(1)] by simp
  then show ?thesis ..
next
  case False
  then have "client_step s \<noteq> s" using assms
    by (auto simp: connected_def client_steps ipc_inv_def unsent_def writing_def waiting_def answered_def work_def
      split: host_pc.splits client_pc.splits if_splits dest: arg_cong [of _ _ client])
  then have "work (turn ClientTurn s) < work s" using client_work [OF assms(1)] by simp
  then show ?thesis ..
qed

lemma exec_work: "connected ms s \<Longrightarrow> connected ms (exec ws s) \<and> work (exec ws s) \<le> work s"
proof (induction ws arbitrary: s)
  case (Cons w ws)
  then show ?case using turn_work [OF Cons.prems, of w] Cons.IH [of "turn w s"] by fastforce
qed simp

lemma exec_progress:
  assumes "connected ms s" "w \<in> set ws" "work (turn w s) < work s"
  shows "work (exec ws s) < work s"
  using assms
proof (induction ws arbitrary: s)
  case (Cons u ws)
  note t = turn_work [OF Cons.prems(1), of u]
  show ?case
  proof (cases "turn u s = s")
    case True
    then have "w \<in> set ws" using Cons.prems(2,3) by auto
    then show ?thesis using Cons.IH [OF Cons.prems(1) _ Cons.prems(3)] True by simp
  next
    case False
    then show ?thesis using t exec_work [of ms "turn u s" ws] by force
  qed
qed simp

lemma round_work:
  assumes "connected ms s" "set r = {ClientTurn, HostTurn}"
  shows "work (exec r s) \<le> work s - 1"
proof (cases "work s = 0")
  case True
  then show ?thesis using exec_work [OF assms(1), of r] by simp
next
  case False
  then obtain w where w: "work (turn w s) < work s" using work_progress [OF assms(1)] by blast
  moreover have "w \<in> set r" using assms(2) by (cases w) simp_all
  ultimately show ?thesis using exec_progress [OF assms(1)] by fastforce
qed

lemma rounds_work:
  "connected ms s \<Longrightarrow> \<forall>r \<in> set rs. set r = {ClientTurn, HostTurn} \<Longrightarrow> connected ms (exec (concat rs) s) \<and> work (exec (concat rs) s) \<le> work s - length rs"
proof (induction rs arbitrary: s)
  case (Cons r rs)
  have c: "connected ms (exec r s)" using exec_work [OF Cons.prems(1)] by blast
  have "work (exec r s) \<le> work s - 1" using round_work [OF Cons.prems(1)] Cons.prems(2) by simp
  then show ?case using Cons.IH [OF c] Cons.prems(2) by auto
qed simp

lemma cost_positive: "xs \<noteq> [] \<Longrightarrow> 10 \<le> sum_list (map cost xs)"
  by (cases xs) (simp_all add: cost_def)

lemma work_bound: "connected ms s \<Longrightarrow> work s \<le> sum_list (map cost ms)"
  using cost_positive [of "received s"]
  by (auto simp: connected_def work_def Let_def ipc_inv_def unsent_def writing_def waiting_def answered_def cost_def sum_list_hd
    split: host_pc.splits client_pc.splits)

lemma work_done: "connected ms s \<Longrightarrow> work s = 0 \<Longrightarrow> received s = ms \<and> to_send s = []"
  by (cases "to_send s")
    (auto simp: connected_def work_def Let_def ipc_inv_def unsent_def writing_def waiting_def answered_def cost_def
      split: host_pc.splits client_pc.splits if_splits)

text \<open>
  C17. Once the program is connected every message arrives: from any reachable state in which the program has left \<open>ipc_init\<close>, after enough
  rounds, in each of which both tasks take at least one step, in any order and as often as they like, the shell has handled
  exactly the messages to send and the program has nothing left to send. Twice the length of a message and ten rounds for each one are enough.
\<close>

theorem ipc_delivers:
  assumes "\<forall>m \<in> set ms. length m \<le> length page" "ipc_step\<^sup>*\<^sup>* (ipc_boot st n page ms) s" "client s \<notin> {C_Init, C_Ack, C_WaitOk}"
    and "\<forall>r \<in> set rounds. set r = {ClientTurn, HostTurn}" "length rounds \<ge> (\<Sum>m \<leftarrow> ms. 2 * length m + 10)"
  shows "received (exec (concat rounds) s) = ms \<and> to_send (exec (concat rounds) s) = []"
proof -
  have c: "connected ms s" using ipc_reachable_inv [OF assms(2) ipc_boot_inv [OF assms(1)]] assms(3) by (simp add: connected_def)
  have "work s \<le> length rounds" using work_bound [OF c] assms(5) by (simp add: cost_def [abs_def])
  then show ?thesis using rounds_work [OF c assms(4)] work_done by fastforce
qed

theorem ipc_delivers_witness:
  "let s = exec [HostTurn, HostTurn, ClientTurn, ClientTurn, HostTurn, HostTurn, ClientTurn] (ipc_boot IPC_CONNECTION_OK 0 [1, 1] [[7], [8]])
   in received (exec (concat (replicate 24 [HostTurn, ClientTurn, HostTurn])) s) = [[7], [8]]"
proof -
  let ?s0 = "ipc_boot IPC_CONNECTION_OK 0 [1, 1] [[7], [8]]"
  let ?s = "exec [HostTurn, HostTurn, ClientTurn, ClientTurn, HostTurn, HostTurn, ClientTurn] ?s0"
  have "\<forall>m \<in> set [[7], [8 :: u8]]. length m \<le> length [1, 1 :: u8]" "client ?s \<notin> {C_Init, C_Ack, C_WaitOk}"
    by (simp_all add: ipc_boot_def client_steps host_steps)
  then show ?thesis
    using ipc_delivers [of "[[7], [8]]" "[1, 1]" IPC_CONNECTION_OK 0 ?s "replicate 24 [HostTurn, ClientTurn, HostTurn]"] exec_reachable
    by (auto simp: Let_def simp del: exec_simps)
qed

text \<open>
  The handshake itself can fail for good: when the program answers between the test and the write in \<open>ipc_init_host\<close>, its answer is overwritten
  and both wait for each other. When the page holds the value of the answer at first, the shell takes it for one, and the program waits for a
  start that does not come.
\<close>

lemma ipc_lost_ack:
  assumes "st \<noteq> IPC_HANDSHAKE_ACK"
  shows "client (exec ([HostTurn, HostTurn, HostTurn, ClientTurn, ClientTurn, HostTurn] @ ws) (ipc_boot st n page ms)) = C_WaitOk"
proof -
  have stuck: "client (exec ws s) = C_WaitOk"
    if "client s = C_WaitOk" "tn_state s = IPC_HANDSHAKE_START" "host s \<in> {H_Init, H_SetStart}" for s
    using that
  proof (induction ws arbitrary: s)
    case (Cons w ws)
    then show ?case by (cases w) (auto simp: client_steps host_steps split: if_splits)
  qed simp
  have "exec [HostTurn, HostTurn, HostTurn, ClientTurn, ClientTurn, HostTurn] (ipc_boot st n page ms) =
      (ipc_boot st n page ms)\<lparr>client := C_WaitOk, tn_state := IPC_HANDSHAKE_START\<rparr>"
    using assms by (simp add: ipc_boot_def client_steps host_steps)
  then show ?thesis using stuck [of "(ipc_boot st n page ms)\<lparr>client := C_WaitOk, tn_state := IPC_HANDSHAKE_START\<rparr>"]
    by (simp only: exec_simps(3)) (simp add: ipc_boot_def)
qed

lemma ipc_stale_ack:
  "client (exec ([HostTurn, HostTurn] @ ws) (ipc_boot IPC_HANDSHAKE_ACK k page ms)) = C_Init"
proof -
  have "client (exec ws s) = C_Init" if "client s = C_Init" "tn_state s = IPC_CONNECTION_OK" "host s = H_Ready" for s
    using that
  proof (induction ws arbitrary: s)
    case (Cons w ws)
    then show ?case by (cases w) (auto simp: client_steps host_steps)
  qed simp
  then show ?thesis by (simp add: ipc_boot_def host_steps)
qed

end
