(* ===== verification/Console.thy ===== *)
theory Console
  imports Prelude "HOL-Library.Signed_Division"
begin

text \<open>
  The text console with its virtual terminals, \<open>mckrnl/renderer/text_console.c\<close>, without the emulation of text mode, which is switched off. The
  screen of the current terminal is the video memory, the others have a buffer each. Both are the list of their 4000 bytes, a character and a colour for
  each of 80 by 25 places; an access behind them is an access outside the screen. \<open>driver\<close>: whether the functions are given the driver.
\<close>

abbreviation SCREEN_WIDTH :: nat where "SCREEN_WIDTH \<equiv> 80"
abbreviation SCREEN_HEIGHT :: nat where "SCREEN_HEIGHT \<equiv> 25"
abbreviation SCREEN_BYTES :: nat where "SCREEN_BYTES \<equiv> 4000"
abbreviation MAX_VTERM :: nat where "MAX_VTERM \<equiv> 4"

abbreviation NEWLINE :: u8 where "NEWLINE \<equiv> 0x0A"
abbreviation RETURN :: u8 where "RETURN \<equiv> 0x0D"
abbreviation TAB :: u8 where "TAB \<equiv> 0x09"
abbreviation BACKSPACE :: u8 where "BACKSPACE \<equiv> 0x08"

record text_console_vterm_t =
  vt_x :: int
  vt_y :: int
  vt_color :: u32
  vt_buffer :: "u8 list"

record console =
  video :: "u8 list"
  vterms :: "text_console_vterm_t list"
  current_term :: int
  cursor :: "16 word"

section \<open>Access\<close>

definition vterm_at :: "int \<Rightarrow> console \<Rightarrow> text_console_vterm_t res" where
  "vterm_at term s = (if 1 \<le> term \<and> term \<le> int (length (vterms s)) then Inr (vterms s ! nat (term - 1)) else Inl OutOfBounds)"

definition set_vterm :: "int \<Rightarrow> text_console_vterm_t \<Rightarrow> console \<Rightarrow> console" where
  "set_vterm term v s = s\<lparr>vterms := (vterms s)[nat (term - 1) := v]\<rparr>"

text \<open>The memory of a terminal: the choice of \<open>buffer\<close> at the start of the functions.\<close>

definition on_screen :: "bool \<Rightarrow> int \<Rightarrow> console \<Rightarrow> bool" where
  "on_screen driver term s \<longleftrightarrow> \<not> (driver \<and> current_term s \<noteq> term)"

definition screen_of :: "bool \<Rightarrow> int \<Rightarrow> text_console_vterm_t \<Rightarrow> console \<Rightarrow> u8 list" where
  "screen_of driver term v s = (if on_screen driver term s then video s else vt_buffer v)"

definition put_screen :: "bool \<Rightarrow> int \<Rightarrow> u8 list \<Rightarrow> text_console_vterm_t \<Rightarrow> console \<Rightarrow> console" where
  "put_screen driver term b v s =
     (if on_screen driver term s then set_vterm term v (s\<lparr>video := b\<rparr>) else set_vterm term (v\<lparr>vt_buffer := b\<rparr>) s)"

definition text_console_setcursor :: "int \<Rightarrow> console \<Rightarrow> console" where
  "text_console_setcursor pos s = s\<lparr>cursor := word_of_int pos\<rparr>"

definition move_cursor :: "bool \<Rightarrow> int \<Rightarrow> text_console_vterm_t \<Rightarrow> console \<Rightarrow> console" where
  "move_cursor driver term v s =
     (if driver \<and> current_term s = term then text_console_setcursor (vt_y v * int SCREEN_WIDTH + vt_x v) s else s)"

section \<open>Output\<close>

definition write_cell :: "u8 \<Rightarrow> text_console_vterm_t \<Rightarrow> u8 list \<Rightarrow> u8 list res" where
  "write_cell c v b =
     (let i = 2 * (vt_y v * int SCREEN_WIDTH + vt_x v) in
      if 0 \<le> i \<and> i + 1 < int (length b) then Inr (b[nat i := c, nat i + 1 := ucast (vt_color v)]) else Inl OutOfBounds)"

definition scroll :: "u8 list \<Rightarrow> u8 list" where
  "scroll b = take (2 * (SCREEN_HEIGHT - 1) * SCREEN_WIDTH) (drop (2 * SCREEN_WIDTH) b) @ replicate (2 * SCREEN_WIDTH) 0"

definition wrap_line :: "u8 \<Rightarrow> text_console_vterm_t \<Rightarrow> text_console_vterm_t" where
  "wrap_line c v = (if c = NEWLINE \<or> vt_x v > int SCREEN_WIDTH - 1 then v\<lparr>vt_x := 0, vt_y := vt_y v + 1\<rparr> else v)"

definition tab_stop :: "int \<Rightarrow> int" where
  "tab_stop x = (if x smod 4 = 0 then x + 4 else x + (4 - x smod 4))"

definition text_console_putc :: "bool \<Rightarrow> int \<Rightarrow> u8 \<Rightarrow> console \<Rightarrow> console res" where
  "text_console_putc driver term c s =
     rbind (vterm_at term s) (\<lambda>v0.
     let v = wrap_line c v0; b = screen_of driver term v s in
     if c = RETURN then Inr (set_vterm term (v\<lparr>vt_x := 0\<rparr>) s)
     else if c = TAB then Inr (set_vterm term (v\<lparr>vt_x := tab_stop (vt_x v)\<rparr>) s)
     else if c = BACKSPACE then
       (let v1 = (if vt_x v > 0 then v\<lparr>vt_x := vt_x v - 1\<rparr> else v) in
        rbind (write_cell 0x20 v1 b) (\<lambda>b1. Inr (move_cursor driver term v1 (put_screen driver term b1 v1 s))))
     else
       let (v1, b1) = (if vt_y v > int SCREEN_HEIGHT - 1 then (v\<lparr>vt_y := vt_y v - 1\<rparr>, scroll b) else (v, b)) in
       if c = NEWLINE then Inr (put_screen driver term b1 v1 s)
       else rbind (write_cell c v1 b1) (\<lambda>b2.
         let v2 = v1\<lparr>vt_x := vt_x v1 + 1\<rparr> in Inr (move_cursor driver term v2 (put_screen driver term b2 v2 s))))"

primrec text_console_puts :: "bool \<Rightarrow> int \<Rightarrow> u8 list \<Rightarrow> console \<Rightarrow> console res" where
  "text_console_puts driver term [] s = Inr s"
| "text_console_puts driver term (c # cs) s = rbind (text_console_putc driver term c s) (text_console_puts driver term cs)"

definition text_console_clrscr :: "bool \<Rightarrow> int \<Rightarrow> console \<Rightarrow> console res" where
  "text_console_clrscr driver term s =
     rbind (vterm_at term s) (\<lambda>v.
     Inr (put_screen driver term (concat (replicate (25 * 80) [0x20, ucast (vt_color v)])) (v\<lparr>vt_x := 0, vt_y := 0\<rparr>) s))"

text \<open>The buffers are pages whose content \<open>junk\<close> is what was there.\<close>

definition NOTHING_HERE :: "u8 list" where
  "NOTHING_HERE = map of_char ''nothing to see here'' @ [NEWLINE]"

definition init_vterm :: "(nat \<Rightarrow> u8 list) \<Rightarrow> nat \<Rightarrow> console \<Rightarrow> console res" where
  "init_vterm junk i s =
     rbind (vterm_at (int i + 1) s) (\<lambda>v.
     let v1 = v\<lparr>vt_buffer := junk i\<rparr> in
     if i = 0 then Inr (set_vterm (int i + 1) v1 s)
     else rbind (text_console_clrscr True (int i + 1) (set_vterm (int i + 1) (v1\<lparr>vt_x := 0, vt_y := 0, vt_color := 0x0F\<rparr>) s))
       (text_console_puts True (int i + 1) NOTHING_HERE))"

primrec init_vterms :: "(nat \<Rightarrow> u8 list) \<Rightarrow> nat list \<Rightarrow> console \<Rightarrow> console res" where
  "init_vterms junk [] s = Inr s"
| "init_vterms junk (i # is) s = rbind (init_vterm junk i s) (init_vterms junk is)"

definition text_console_driver_init :: "(nat \<Rightarrow> u8 list) \<Rightarrow> console \<Rightarrow> console res" where
  "text_console_driver_init junk s = init_vterms junk [0..<MAX_VTERM] s"

definition text_console_early :: "console \<Rightarrow> console res" where
  "text_console_early s = rbind (vterm_at 1 s) (\<lambda>v. Inr (set_vterm 1 (v\<lparr>vt_x := 0, vt_y := 0, vt_color := 0x0F\<rparr>) s))"

section \<open>Other operations\<close>

definition text_console_driver_vpoke :: "int \<Rightarrow> nat \<Rightarrow> u8 list \<Rightarrow> console \<Rightarrow> console res" where
  "text_console_driver_vpoke term offset vals s =
     rbind (vterm_at term s) (\<lambda>v.
     let b = screen_of True term v s in
     if offset + length vals > length b then Inl OutOfBounds
     else Inr (put_screen True term (take offset b @ vals @ drop (offset + length vals) b) v s))"

definition text_console_driver_vpeek :: "int \<Rightarrow> nat \<Rightarrow> nat \<Rightarrow> console \<Rightarrow> u8 list res" where
  "text_console_driver_vpeek term offset n s =
     rbind (vterm_at term s) (\<lambda>v.
     let b = screen_of True term v s in
     if offset + n > length b then Inl OutOfBounds else Inr (take n (drop offset b)))"

definition text_console_vcursor :: "bool \<Rightarrow> int \<Rightarrow> int \<Rightarrow> int \<Rightarrow> console \<Rightarrow> console res" where
  "text_console_vcursor driver term x y s =
     rbind (vterm_at term s) (\<lambda>v.
     let v1 = v\<lparr>vt_x := x, vt_y := y\<rparr> in Inr (move_cursor driver term v1 (set_vterm term v1 s)))"

definition text_console_vcursor_get :: "int \<Rightarrow> console \<Rightarrow> (int \<times> int) res" where
  "text_console_vcursor_get term s = rbind (vterm_at term s) (\<lambda>v. Inr (vt_x v, vt_x v))"

definition color_table :: "string list" where
  "color_table = [''black'', ''blue'', ''green'', ''cyan'', ''red'', ''magenta'', ''brown'', ''light_grey'', ''grey'', ''light_blue'',
     ''light_green'', ''light_cyan'', ''light_red'', ''light_magenta'', ''yellow'', ''white'']"

primrec color_index :: "string \<Rightarrow> string list \<Rightarrow> nat" where
  "color_index color [] = 0"
| "color_index color (c # cs) = (if c = color then 0 else Suc (color_index color cs))"

unbundle bit_operations_syntax

definition text_console_set_color :: "int \<Rightarrow> string \<Rightarrow> bool \<Rightarrow> console \<Rightarrow> console res" where
  "text_console_set_color term color background s =
     rbind (vterm_at term s) (\<lambda>v.
     let i = of_nat (color_index color color_table) in
     Inr (set_vterm term (v\<lparr>vt_color := (if background then push_bit 4 i OR (vt_color v AND 0xF) else i OR (vt_color v AND 0xF0))\<rparr>) s))"

text \<open>Switching to another terminal.\<close>

definition text_console_vterm :: "int \<Rightarrow> console \<Rightarrow> console res" where
  "text_console_vterm term s =
     rbind (vterm_at term s) (\<lambda>_.
     rbind (vterm_at (current_term s) s) (\<lambda>old.
     let s1 = set_vterm (current_term s) (old\<lparr>vt_buffer := take SCREEN_BYTES (video s) @ drop SCREEN_BYTES (vt_buffer old)\<rparr>) s in
     rbind (vterm_at term s1) (\<lambda>new.
     Inr (text_console_setcursor (vt_y new * int SCREEN_WIDTH + vt_x new)
       (s1\<lparr>video := take SCREEN_BYTES (vt_buffer new) @ drop SCREEN_BYTES (video s1), current_term := term\<rparr>)))))"

section \<open>Properties\<close>

definition cell_at :: "u8 list \<Rightarrow> nat \<Rightarrow> nat \<Rightarrow> u8 \<times> u8" where
  "cell_at b i j = (b ! (2 * (80 * i + j)), b ! (2 * (80 * i + j) + 1))"

lemma cell_index: "i < 25 \<Longrightarrow> j < 80 \<Longrightarrow> 2 * (80 * i + j) + 1 < SCREEN_BYTES" for i j :: nat
  by simp

lemma scroll_nth: "length b = SCREEN_BYTES \<Longrightarrow> k < SCREEN_BYTES \<Longrightarrow> scroll b ! k = (if k < 3840 then b ! (k + 160) else 0)"
  by (simp add: scroll_def nth_append add.commute)

lemma scroll_length: "length b = SCREEN_BYTES \<Longrightarrow> length (scroll b) = SCREEN_BYTES"
  by (simp add: scroll_def)

lemma cell_scroll: "length b = SCREEN_BYTES \<Longrightarrow> i < 25 \<Longrightarrow> j < 80 \<Longrightarrow> cell_at (scroll b) i j = (if i < 24 then cell_at b (Suc i) j else (0, 0))"
proof -
  assume a: "length b = SCREEN_BYTES" "i < 25" "j < 80"
  have e: "2 * (80 * i + j) + 160 = 2 * (80 * Suc i + j)" "2 * (80 * i + j) + 1 + 160 = 2 * (80 * Suc i + j) + 1" by simp_all
  have "2 * (80 * i + j) < 3840 \<longleftrightarrow> i < 24" "2 * (80 * i + j) + 1 < 3840 \<longleftrightarrow> i < 24" using a(3) by presburger+
  then show ?thesis
    using scroll_nth [OF a(1), of "2 * (80 * i + j)"] scroll_nth [OF a(1), of "2 * (80 * i + j) + 1"] cell_index [OF a(2,3)] e
    unfolding cell_at_def by (auto simp: algebra_simps)
qed

lemma cell_index_inj: "j < 80 \<Longrightarrow> x < 80 \<Longrightarrow> 2 * (80 * i + j) = 2 * (80 * y + x) \<longleftrightarrow> i = y \<and> j = x" for i j x y :: nat
proof
  assume a: "j < 80" "x < 80" "2 * (80 * i + j) = 2 * (80 * y + x)"
  then have "80 * i + j = 80 * y + x" by simp
  then have "(80 * i + j) div 80 = (80 * y + x) div 80" by (rule arg_cong)
  then show "i = y \<and> j = x" using a by simp
qed auto

lemma write_cell_at:
  assumes "length b = SCREEN_BYTES" "vt_x v = int x" "vt_y v = int y" "x < 80" "y < 25"
  shows "\<exists>b'. write_cell c v b = Inr b' \<and> length b' = SCREEN_BYTES \<and>
    (\<forall>i < 25. \<forall>j < 80. cell_at b' i j = (if i = y \<and> j = x then (c, ucast (vt_color v)) else cell_at b i j))"
proof -
  let ?k = "2 * (80 * y + x)"
  have k: "nat (2 * (vt_y v * int SCREEN_WIDTH + vt_x v)) = ?k" "0 \<le> 2 * (vt_y v * int SCREEN_WIDTH + vt_x v)"
    "2 * (vt_y v * int SCREEN_WIDTH + vt_x v) + 1 < int (length b)" using assms by auto
  let ?b = "b[?k := c, ?k + 1 := ucast (vt_color v)]"
  have w: "write_cell c v b = Inr ?b" using k by (simp add: write_cell_def Let_def)
  have "cell_at ?b i j = (if i = y \<and> j = x then (c, ucast (vt_color v)) else cell_at b i j)" if "i < 25" "j < 80" for i j
  proof -
    have n: "2 * (80 * i + j) + 1 < length b" "?k + 1 < length b" using cell_index [OF that] cell_index [OF assms(5,4)] assms(1) by simp_all
    have "2 * (80 * i + j) \<noteq> ?k + 1" "2 * (80 * i + j) + 1 \<noteq> ?k" by presburger+
    moreover have "2 * (80 * i + j) = ?k \<longleftrightarrow> i = y \<and> j = x" by (rule cell_index_inj [OF that(2) assms(4)])
    ultimately show ?thesis using n by (auto simp: cell_at_def nth_list_update)
  qed
  then show ?thesis using w assms(1) by auto
qed

text \<open>
  A sheet of paper of any length, on which rows are written one below the other: what a terminal shows of it is its last 25 rows. The
  rows that a scrolled screen has not reached yet are empty.
\<close>

record paper =
  p_cells :: "nat \<Rightarrow> nat \<Rightarrow> u8 \<times> u8"
  p_row :: nat
  p_col :: nat

definition paper_put :: "u8 \<Rightarrow> u8 \<Rightarrow> paper \<Rightarrow> paper" where
  "paper_put color c p =
     (let p1 = (if c = NEWLINE \<or> p_col p = SCREEN_WIDTH then p\<lparr>p_row := p_row p + 1, p_col := 0\<rparr> else p) in
      if c = NEWLINE then p1
      else p1\<lparr>p_cells := (p_cells p1)(p_row p1 := (p_cells p1 (p_row p1))(p_col p1 := (c, color))), p_col := p_col p1 + 1\<rparr>)"

definition window :: "nat \<Rightarrow> paper \<Rightarrow> nat \<Rightarrow> nat \<Rightarrow> u8 list \<Rightarrow> bool" where
  "window off p x y b \<longleftrightarrow> p_row p = off + y \<and> p_col p = x \<and> y \<le> 24 \<and> x \<le> 80 \<and> length b = SCREEN_BYTES \<and>
     (\<forall>i < 25. \<forall>j < 80. cell_at b i j = p_cells p (off + i) j) \<and> (\<forall>r \<ge> off + 25. \<forall>j. p_cells p r j = (0, 0))"

text \<open>Terminal \<open>term\<close> shows the end of the paper, with its cursor where the paper's is.\<close>

definition shows_paper :: "bool \<Rightarrow> int \<Rightarrow> u8 \<Rightarrow> paper \<Rightarrow> console \<Rightarrow> bool" where
  "shows_paper driver term color p s \<longleftrightarrow> (\<exists>v off x y. vterm_at term s = Inr v \<and> vt_x v = int x \<and> vt_y v = int y \<and> ucast (vt_color v) = color \<and>
     window off p x y (screen_of driver term v s))"

lemma window_scrolled:
  assumes "window off p x 24 b"
  shows "window (Suc off) (p\<lparr>p_row := p_row p + 1, p_col := 0\<rparr>) 0 24 (scroll b)"
  using assms scroll_length cell_scroll unfolding window_def by auto

lemma window_put:
  assumes "window off p x y b" "x < 80" "vt_x v = int x" "vt_y v = int y" "c \<noteq> NEWLINE"
  shows "\<exists>b'. write_cell c v b = Inr b' \<and> window off (paper_put (ucast (vt_color v)) c p) (Suc x) y b'"
proof -
  have w: "length b = SCREEN_BYTES" "y < 25" "p_row p = off + y" "p_col p = x" using assms(1) by (simp_all add: window_def)
  from write_cell_at [OF w(1) assms(3,4,2) w(2), of c] obtain b' where b': "write_cell c v b = Inr b'" "length b' = SCREEN_BYTES"
    "\<forall>i < 25. \<forall>j < 80. cell_at b' i j = (if i = y \<and> j = x then (c, ucast (vt_color v)) else cell_at b i j)" by blast
  have "window off (paper_put (ucast (vt_color v)) c p) (Suc x) y b'"
    using assms(1,2,5) w b'(2,3) by (auto simp: window_def paper_put_def Let_def)
  with b'(1) show ?thesis by blast
qed

lemma window_newline: "window off p x y b \<Longrightarrow> y < 24 \<Longrightarrow> window off (p\<lparr>p_row := p_row p + 1, p_col := 0\<rparr>) 0 (Suc y) b"
  by (simp add: window_def)

lemma paper_put_wraps:
  "p_col p = SCREEN_WIDTH \<Longrightarrow> c \<noteq> NEWLINE \<Longrightarrow> paper_put color c p = paper_put color c (p\<lparr>p_row := p_row p + 1, p_col := 0\<rparr>)"
  by (simp add: paper_put_def Let_def)

lemma vterm_at_set:
  "vterm_at t s = Inr v0 \<Longrightarrow> vterm_at t' (set_vterm t v s) = (if t' = t then Inr v else vterm_at t' s)"
  by (auto simp: vterm_at_def set_vterm_def split: if_splits)

lemma put_screen_simps:
  assumes "vterm_at t s = Inr v0"
  shows "vterm_at t (put_screen d t b v s) = Inr (if on_screen d t s then v else v\<lparr>vt_buffer := b\<rparr>)"
    and "t' \<noteq> t \<Longrightarrow> vterm_at t' (put_screen d t b v s) = vterm_at t' s"
    and "screen_of d t (if on_screen d t s then v else v\<lparr>vt_buffer := b\<rparr>) (put_screen d t b v s) = b"
    and "current_term (put_screen d t b v s) = current_term s"
    and "on_screen d t (put_screen d t b v s) = on_screen d t s"
    and "video (put_screen d t b v s) = (if on_screen d t s then b else video s)"
  using assms by (auto simp: put_screen_def vterm_at_set [OF assms] screen_of_def on_screen_def set_vterm_def vterm_at_def split: if_splits)

lemma move_cursor_simps [simp]:
  "vterm_at t' (move_cursor d t v s) = vterm_at t' s" "screen_of d t' w (move_cursor d t v s) = screen_of d t' w s"
  "current_term (move_cursor d t v s) = current_term s" "video (move_cursor d t v s) = video s"
  by (simp_all add: move_cursor_def text_console_setcursor_def vterm_at_def screen_of_def on_screen_def)

text \<open>What a character written to one terminal leaves alone.\<close>

definition others_kept :: "bool \<Rightarrow> int \<Rightarrow> console \<Rightarrow> console \<Rightarrow> bool" where
  "others_kept driver term s s' \<longleftrightarrow> current_term s' = current_term s \<and> (\<forall>t. t \<noteq> term \<longrightarrow> vterm_at t s' = vterm_at t s) \<and>
     (\<not> on_screen driver term s \<longrightarrow> video s' = video s)"

lemma others_kept_put: "vterm_at t s = Inr v0 \<Longrightarrow> others_kept d t s (put_screen d t b v s)"
  using put_screen_simps by (simp add: others_kept_def)

lemma others_kept_move: "others_kept d t s (move_cursor d t' v s') = others_kept d t s s'"
  by (simp add: others_kept_def)

lemma putc_paper:
  assumes "shows_paper driver term color p s" "c \<notin> {RETURN, TAB, BACKSPACE}"
  shows "\<exists>s'. text_console_putc driver term c s = Inr s' \<and> shows_paper driver term color (paper_put color c p) s' \<and> others_kept driver term s s'"
proof -
  obtain v0 off x y where v0: "vterm_at term s = Inr v0" "vt_x v0 = int x" "vt_y v0 = int y" "ucast (vt_color v0) = color"
    and win: "window off p x y (screen_of driver term v0 s)" using assms(1) by (auto simp: shows_paper_def)
  define v where "v = wrap_line c v0"
  define w where "w \<longleftrightarrow> c = NEWLINE \<or> x = 80"
  have x80: "x \<le> 80" "p_col p = x" "y \<le> 24" using win by (simp_all add: window_def)
  let ?p1 = "if w then p\<lparr>p_row := p_row p + 1, p_col := 0\<rparr> else p"
  let ?b = "screen_of driver term v s"
  have b: "?b = screen_of driver term v0 s" by (simp add: v_def wrap_line_def screen_of_def)
  let ?r = "if vt_y v > int SCREEN_HEIGHT - 1 then (v\<lparr>vt_y := vt_y v - 1\<rparr>, scroll ?b) else (v, ?b)"
  obtain off1 x1 y1 v1 b1 where r: "?r = (v1, b1)" "vt_x v1 = int x1" "vt_y v1 = int y1" "vt_color v1 = vt_color v0" "window off1 ?p1 x1 y1 b1"
    "c \<noteq> NEWLINE \<longrightarrow> x1 < 80"
  proof (cases w)
    case False
    then have "v = v0" using v0(2) x80 by (auto simp: v_def wrap_line_def w_def)
    then show ?thesis using that [of v0 ?b x y off] v0 win b False x80 by (auto simp: w_def)
  next
    case True
    then have v: "v = v0\<lparr>vt_x := 0, vt_y := int y + 1\<rparr>" using v0 by (auto simp: v_def wrap_line_def w_def)
    show ?thesis
    proof (cases "y = 24")
      case y: True
      then have "window (Suc off) ?p1 0 24 (scroll ?b)" using window_scrolled [of off p x] win b True by simp
      then show ?thesis using that [of "v\<lparr>vt_y := vt_y v - 1\<rparr>" "scroll ?b" 0 24 "Suc off"] v y by simp
    next
      case y: False
      then have "window off ?p1 0 (Suc y) ?b" using window_newline [OF win] x80(3) b True by simp
      then show ?thesis using that [of v ?b 0 "Suc y" off] v y x80(3) by simp
    qed
  qed
  have put: "text_console_putc driver term c s = (if c = NEWLINE then Inr (put_screen driver term b1 v1 s)
      else rbind (write_cell c v1 b1) (\<lambda>b2.
        let v2 = v1\<lparr>vt_x := vt_x v1 + 1\<rparr> in Inr (move_cursor driver term v2 (put_screen driver term b2 v2 s))))"
    unfolding text_console_putc_def v0(1) rbind_Inr Let_def v_def [symmetric] r(1) prod.case using assms(2) by simp
  note ps = put_screen_simps [OF v0(1), where d = driver]
  have shown: "shows_paper driver term color q (put_screen driver term b' v' s)"
    if "window o' q x' y' b'" "vt_x v' = int x'" "vt_y v' = int y'" "vt_color v' = vt_color v0" for o' q x' y' b' v'
    unfolding shows_paper_def using ps(1,3) [where b = b' and v = v'] that v0(4) by (intro exI [of _ "if on_screen driver term s then v' else v'\<lparr>vt_buffer := b'\<rparr>"]) auto
  show ?thesis
  proof (cases "c = NEWLINE")
    case True
    then have "paper_put color c p = ?p1" by (simp add: paper_put_def w_def)
    then show ?thesis using put True shown [OF r(5) r(2-4)] others_kept_put [OF v0(1)] by auto
  next
    case False
    from window_put [OF r(5) _ r(2,3) False] r(6) False obtain b2 where b2: "write_cell c v1 b1 = Inr b2"
      "window off1 (paper_put (ucast (vt_color v1)) c ?p1) (Suc x1) y1 b2" by blast
    have "paper_put color c ?p1 = paper_put color c p" using paper_put_wraps [of p c color] False x80(2) by (simp add: w_def)
    then have win2: "window off1 (paper_put color c p) (Suc x1) y1 b2" using b2(2) r(4) v0(4) by simp
    let ?v2 = "v1\<lparr>vt_x := vt_x v1 + 1\<rparr>"
    have "shows_paper driver term color (paper_put color c p) (put_screen driver term b2 ?v2 s)"
      using shown [OF win2, of ?v2] r(2-4) by simp
    then have "shows_paper driver term color (paper_put color c p) (move_cursor driver term ?v2 (put_screen driver term b2 ?v2 s))"
      by (simp add: shows_paper_def)
    moreover have "others_kept driver term s (move_cursor driver term ?v2 (put_screen driver term b2 ?v2 s))"
      using others_kept_put [OF v0(1)] by (simp add: others_kept_move)
    ultimately show ?thesis using put False b2(1) by (simp add: Let_def)
  qed
qed


text \<open>A cleared terminal shows an empty paper.\<close>

definition blank_paper :: "u8 \<Rightarrow> paper" where
  "blank_paper color = \<lparr>p_cells = (\<lambda>r _. if r < 25 then (0x20, color) else (0, 0)), p_row = 0, p_col = 0\<rparr>"

lemma concat_replicate_pair:
  "k < n \<Longrightarrow> concat (replicate n [a, b]) ! (2 * k) = a \<and> concat (replicate n [a, b]) ! (2 * k + 1) = b"
proof (induction n arbitrary: k)
  case (Suc n)
  then show ?case by (cases k) auto
qed simp

lemma clrscr_blank:
  assumes "vterm_at term s = Inr v"
  shows "\<exists>s'. text_console_clrscr driver term s = Inr s' \<and> shows_paper driver term (ucast (vt_color v)) (blank_paper (ucast (vt_color v))) s'"
proof -
  let ?b = "concat (replicate (25 * 80) [0x20, ucast (vt_color v)]) :: u8 list" and ?v = "v\<lparr>vt_x := 0, vt_y := 0\<rparr>"
  have "length ?b = SCREEN_BYTES" by (simp add: length_concat sum_list_replicate)
  moreover have "cell_at ?b i j = (0x20, ucast (vt_color v))" if "i < 25" "j < 80" for i j
    using concat_replicate_pair [of "80 * i + j" "25 * 80" "0x20" "ucast (vt_color v)"] that by (simp add: cell_at_def)
  ultimately have "window 0 (blank_paper (ucast (vt_color v))) 0 0 ?b" by (simp add: window_def blank_paper_def)
  then have "shows_paper driver term (ucast (vt_color v)) (blank_paper (ucast (vt_color v))) (put_screen driver term ?b ?v s)"
    unfolding shows_paper_def using put_screen_simps(1,3) [OF assms, where d = driver and b = ?b and v = ?v]
    by (intro exI [of _ "if on_screen driver term s then ?v else ?v\<lparr>vt_buffer := ?b\<rparr>"]) force
  then show ?thesis using assms by (simp add: text_console_clrscr_def)
qed

definition boot_console :: console where
  "boot_console = \<lparr>video = replicate SCREEN_BYTES 0,
     vterms = replicate MAX_VTERM \<lparr>vt_x = 0, vt_y = 0, vt_color = 0x0F, vt_buffer = replicate SCREEN_BYTES 0\<rparr>, current_term = 1, cursor = 0\<rparr>"


text \<open>Switching to another terminal and back shows the same screen.\<close>

lemma vterm_back:
  assumes "vterm_at t s = Inr v" "vterm_at (current_term s) s = Inr w" "t \<noteq> current_term s"
    and "length (video s) = SCREEN_BYTES" "length (vt_buffer v) = SCREEN_BYTES" "length (vt_buffer w) = SCREEN_BYTES"
  shows "\<exists>s1 s2. text_console_vterm t s = Inr s1 \<and> video s1 = vt_buffer v \<and> text_console_vterm (current_term s) s1 = Inr s2 \<and> video s2 = video s"
proof -
  let ?s1 = "set_vterm (current_term s) (w\<lparr>vt_buffer := video s\<rparr>) s"
  have v1: "vterm_at t ?s1 = Inr v" "vterm_at (current_term s) ?s1 = Inr (w\<lparr>vt_buffer := video s\<rparr>)"
    using assms(1-3) vterm_at_set [OF assms(2)] by simp_all
  let ?s2 = "text_console_setcursor (vt_y v * int SCREEN_WIDTH + vt_x v) (?s1\<lparr>video := vt_buffer v, current_term := t\<rparr>)"
  have vid: "video ?s1 = video s" by (simp add: set_vterm_def)
  have 1: "text_console_vterm t s = Inr ?s2" using assms v1 vid by (simp add: text_console_vterm_def Let_def)
  have at: "vterm_at k ?s2 = vterm_at k ?s1" for k by (simp add: vterm_at_def text_console_setcursor_def)
  have sv: "video ?s2 = vt_buffer v" "current_term ?s2 = t" by (simp_all add: text_console_setcursor_def)
  have "vterm_at (current_term s) (set_vterm t u ?s2) = Inr (w\<lparr>vt_buffer := video s\<rparr>)" for u
    using vterm_at_set [of t ?s2 v "current_term s" u] at v1 assms(3) by simp
  then have "\<exists>s3. text_console_vterm (current_term s) ?s2 = Inr s3 \<and> video s3 = video s"
    using at v1 sv assms(4-6) by (auto simp: text_console_vterm_def Let_def text_console_setcursor_def set_vterm_def)
  with 1 sv(1) show ?thesis by blast
qed

text \<open>
  The characters that only move the cursor go to the next row at the end of a row without scrolling. After the last row a backspace writes behind the screen;
  a second row of tabs leads so far that a character is written behind it although one row is scrolled.
\<close>

lemma putc_behind_screen:
  assumes "vterm_at term s = Inr v" "vt_x v = 80" "length (video s) = SCREEN_BYTES" "length (vt_buffer v) = SCREEN_BYTES"
  shows "vt_y v = 24 \<Longrightarrow> text_console_putc driver term BACKSPACE s = Inl OutOfBounds"
    and "vt_y v = 25 \<Longrightarrow> c \<notin> {NEWLINE, RETURN, TAB, BACKSPACE} \<Longrightarrow> text_console_putc driver term c s = Inl OutOfBounds"
  using assms
  by (auto simp: text_console_putc_def wrap_line_def write_cell_def screen_of_def scroll_def Let_def split: if_splits)

lemma tabs_do_not_scroll:
  assumes "vterm_at term s = Inr v" "vt_x v = 76" "vt_y v = 24"
  shows "\<exists>s'. text_console_puts driver term (replicate 21 TAB) s = Inr s' \<and> vterm_at term s' = Inr (v\<lparr>vt_x := 80, vt_y := 25\<rparr>)"
proof -
  have put: "text_console_putc driver term TAB t = Inr (set_vterm term (wrap_line TAB u\<lparr>vt_x := tab_stop (vt_x (wrap_line TAB u))\<rparr>) t)"
    if "vterm_at term t = Inr u" for t u using that by (simp add: text_console_putc_def Let_def)
  have at: "vterm_at term (set_vterm term u t) = Inr u" if "vterm_at term t = Inr w" for t u w using vterm_at_set [OF that] by simp
  have row: "\<exists>t'. text_console_puts driver term (replicate n TAB) t = Inr t' \<and> vterm_at term t' = Inr (u\<lparr>vt_x := 4 * int (k + n)\<rparr>)"
    if "vterm_at term t = Inr u" "vt_x u = 4 * int k" "k + n \<le> 20" for n k t u
    using that
  proof (induction n arbitrary: k t u)
    case 0
    then show ?case by (cases u) auto
  next
    case (Suc n)
    let ?u = "u\<lparr>vt_x := 4 * int (Suc k)\<rparr>"
    have "wrap_line TAB u = u" "tab_stop (4 * int k) = 4 * int (Suc k)" using Suc.prems by (simp_all add: wrap_line_def tab_stop_def signed_modulo_int_def)
    then have "text_console_putc driver term TAB t = Inr (set_vterm term ?u t)" using put [OF Suc.prems(1)] Suc.prems(2) by simp
    moreover obtain t' where "text_console_puts driver term (replicate n TAB) (set_vterm term ?u t) = Inr t'"
      "vterm_at term t' = Inr (?u\<lparr>vt_x := 4 * int (Suc k + n)\<rparr>)"
      using Suc.IH [of "set_vterm term ?u t" ?u "Suc k"] at [OF Suc.prems(1)] Suc.prems(3) by auto
    ultimately show ?case by simp
  qed
  obtain t1 where t1: "text_console_putc driver term TAB s = Inr t1" "vterm_at term t1 = Inr (v\<lparr>vt_x := 80\<rparr>)"
    using put [OF assms(1)] at [OF assms(1)] assms(2) by (simp add: wrap_line_def tab_stop_def)
  let ?v2 = "v\<lparr>vt_x := 4, vt_y := 25\<rparr>"
  obtain t2 where t2: "text_console_putc driver term TAB t1 = Inr t2" "vterm_at term t2 = Inr ?v2"
    using put [OF t1(2)] at [OF t1(2)] assms(3) by (simp add: wrap_line_def tab_stop_def)
  obtain t3 where t3: "text_console_puts driver term (replicate 19 TAB) t2 = Inr t3" "vterm_at term t3 = Inr (v\<lparr>vt_x := 80, vt_y := 25\<rparr>)"
    using row [OF t2(2), of 1 19] by auto
  have "replicate 21 TAB = TAB # TAB # replicate 19 TAB" by (simp add: numeral_eq_Suc)
  then show ?thesis using t1(1) t2(1) t3 by simp
qed

text \<open>The row of the cursor is reported as its column; a colour that is not in the table changes both colours.\<close>

lemma vcursor_get_column: "vterm_at term s = Inr v \<Longrightarrow> text_console_vcursor_get term s = Inr (vt_x v, vt_x v)"
  by (simp add: text_console_vcursor_get_def)

lemma unknown_color: "vterm_at 1 boot_console = Inr v \<Longrightarrow> text_console_set_color 1 ''pink'' False boot_console = Inr (set_vterm 1 (v\<lparr>vt_color := 0x10\<rparr>) boot_console)"
  by (auto simp: text_console_set_color_def color_table_def vterm_at_def boot_console_def)

end
