(* ===== verification/Keyboard.thy ===== *)
theory Keyboard
  imports Console
begin

text \<open>
  The keyboard, \<open>mckrnl/driver/input/ps2_keyboard.c\<close>, and the maps from keys to characters, \<open>mckrnl/driver/char_input_driver.c\<close>. The handler of the
  interrupt gets the byte that the controller holds. A map is found in the bytes of the file that was loaded: a header of 8 bytes, then for every map a
  name of 16 bytes and three tables of 255 characters. The function keys switch the terminals of the text console.
\<close>

datatype keyboard_arrow = NoArrow | UpArrow | DownArrow | LeftArrow | RightArrow

text \<open>The keys of \<open>special_keys_down_t\<close> that the handler tracks; no code sets or reads the others.\<close>

record special_keys_down =
  left_shift :: bool
  left_ctrl :: bool
  left_alt :: bool
  right_shift :: bool
  right_ctrl :: bool
  right_alt :: bool
  caps_lock :: bool
  up_arrow :: bool
  down_arrow :: bool
  left_arrow :: bool
  right_arrow :: bool

record keyboard =
  kbd_char :: u8
  kbd_arrw :: keyboard_arrow
  special_key_next :: bool
  special_code :: u8
  keys_down :: special_keys_down
  loaded_keymap :: "u8 list option"
  current_keymap_idx :: nat
  kbd_console :: console

section \<open>Maps\<close>

abbreviation KEYMAP_SIZE :: nat where "KEYMAP_SIZE \<equiv> 781"

datatype layout = LayoutNormal | LayoutShift | LayoutAlt

primrec layout_offset :: "layout \<Rightarrow> nat" where
  "layout_offset LayoutNormal = 16"
| "layout_offset LayoutShift = 271"
| "layout_offset LayoutAlt = 526"

definition file_byte :: "u8 list \<Rightarrow> nat \<Rightarrow> u8 res" where
  "file_byte data i = (if i < length data then Inr (data ! i) else Inl OutOfBounds)"

definition num_keymaps :: "u8 list \<Rightarrow> nat" where
  "num_keymaps data = (\<Sum>i < 4. unat (data ! (4 + i)) * 256 ^ i)"

text \<open>\<open>init_keymap\<close>: \<open>file\<close> is what is read from the path, \<open>None\<close> when it cannot be opened.\<close>

definition init_keymap :: "u8 list option \<Rightarrow> keyboard \<Rightarrow> keyboard res" where
  "init_keymap content k =
     (case content of
        None \<Rightarrow> Inl NullDeref
      | Some data \<Rightarrow>
          if length data < 8 then Inl OutOfBounds
          else if take 4 data \<noteq> [0xFD, 0x89, 0x15, 0xAB] \<or> num_keymaps data = 0 then Inl AssertFailed
          else Inr (k\<lparr>loaded_keymap := Some data\<rparr>))"

definition shift_down :: "special_keys_down \<Rightarrow> bool" where
  "shift_down d \<longleftrightarrow> left_shift d \<or> right_shift d"

definition alt_down :: "special_keys_down \<Rightarrow> bool" where
  "alt_down d \<longleftrightarrow> left_alt d \<or> right_alt d"

definition chosen_layout :: "special_keys_down \<Rightarrow> layout" where
  "chosen_layout d =
     (if caps_lock d then (if shift_down d then LayoutNormal else LayoutShift)
      else if shift_down d then LayoutShift
      else if alt_down d then LayoutAlt
      else LayoutNormal)"

definition keymap :: "u8 \<Rightarrow> keyboard \<Rightarrow> u8 res" where
  "keymap key k =
     (case loaded_keymap k of
        None \<Rightarrow> Inr 0
      | Some data \<Rightarrow> file_byte data (8 + KEYMAP_SIZE * current_keymap_idx k + layout_offset (chosen_layout (keys_down k)) + unat key))"

text \<open>\<open>set_layout\<close>: the first map of that name.\<close>

definition keymap_name :: "u8 list \<Rightarrow> nat \<Rightarrow> u8 list" where
  "keymap_name data i = takeWhile (\<lambda>c. c \<noteq> 0) (drop (8 + KEYMAP_SIZE * i) data)"

definition set_layout_idx :: "u8 list \<Rightarrow> keyboard \<Rightarrow> keyboard res" where
  "set_layout_idx name k =
     (case loaded_keymap k of
        None \<Rightarrow> Inl NullDeref
      | Some data \<Rightarrow>
          (case find (\<lambda>i. keymap_name data i = name) [0..<num_keymaps data] of
             None \<Rightarrow> Inr k
           | Some i \<Rightarrow> Inr (k\<lparr>current_keymap_idx := i\<rparr>)))"

definition global_fkey_handler :: "int \<Rightarrow> bool \<Rightarrow> keyboard \<Rightarrow> keyboard res" where
  "global_fkey_handler f up k =
     (if \<not> up \<and> f \<le> int MAX_VTERM then rbind (text_console_vterm f (kbd_console k)) (\<lambda>c. Inr (k\<lparr>kbd_console := c\<rparr>)) else Inr k)"

section \<open>Interrupts\<close>

definition on_keys :: "(special_keys_down \<Rightarrow> special_keys_down) \<Rightarrow> keyboard \<Rightarrow> keyboard" where
  "on_keys f k = k\<lparr>keys_down := f (keys_down k)\<rparr>"

text \<open>A byte behind the prefix \<open>0xE0\<close>.\<close>

definition special_e0 :: "u8 \<Rightarrow> keyboard \<Rightarrow> keyboard" where
  "special_e0 key k =
     (if key = 0x38 then on_keys (\<lambda>d. d\<lparr>right_alt := True\<rparr>) k
      else if key = 0xB8 then on_keys (\<lambda>d. d\<lparr>right_alt := False\<rparr>) k
      else if key = 0x1D then on_keys (\<lambda>d. d\<lparr>right_ctrl := True\<rparr>) k
      else if key = 0x9D then on_keys (\<lambda>d. d\<lparr>right_ctrl := False\<rparr>) k
      else if key = 0x48 then on_keys (\<lambda>d. d\<lparr>up_arrow := True\<rparr>) (k\<lparr>kbd_arrw := UpArrow\<rparr>)
      else if key = 0xC8 then on_keys (\<lambda>d. d\<lparr>up_arrow := False\<rparr>) k
      else if key = 0x50 then on_keys (\<lambda>d. d\<lparr>down_arrow := True\<rparr>) (k\<lparr>kbd_arrw := DownArrow\<rparr>)
      else if key = 0xD0 then on_keys (\<lambda>d. d\<lparr>down_arrow := False\<rparr>) k
      else if key = 0x4B then on_keys (\<lambda>d. d\<lparr>left_arrow := True\<rparr>) (k\<lparr>kbd_arrw := LeftArrow\<rparr>)
      else if key = 0xCB then on_keys (\<lambda>d. d\<lparr>left_arrow := False\<rparr>) k
      else if key = 0x4D then on_keys (\<lambda>d. d\<lparr>right_arrow := True\<rparr>) (k\<lparr>kbd_arrw := RightArrow\<rparr>)
      else if key = 0xCD then on_keys (\<lambda>d. d\<lparr>right_arrow := False\<rparr>) k
      else k)"

definition special_caps :: "u8 \<Rightarrow> keyboard \<Rightarrow> keyboard" where
  "special_caps key k = (if key = 0xBA then on_keys (\<lambda>d. d\<lparr>caps_lock := \<not> caps_lock d\<rparr>) k else k)"

text \<open>The four tests for function keys, each with the number of its first key.\<close>

definition fkeys :: "u8 \<Rightarrow> keyboard \<Rightarrow> keyboard res" where
  "fkeys key k =
     rbind (if 0x3B \<le> key \<and> key \<le> 0x44 then global_fkey_handler (uint key - 0x3A) False k else Inr k) (\<lambda>k1.
     rbind (if 0x57 \<le> key \<and> key \<le> 0x58 then global_fkey_handler (uint key - 0x4C) False k1 else Inr k1) (\<lambda>k2.
     rbind (if 0xBB \<le> key \<and> key \<le> 0xC4 then global_fkey_handler (uint key - 0xBA) True k2 else Inr k2) (\<lambda>k3.
     if 0xD7 \<le> key \<and> key \<le> 0xD8 then global_fkey_handler (uint key - 0xCC) True k3 else Inr k3)))"

definition ps2_keyboard_interrupt_handler :: "u8 \<Rightarrow> keyboard \<Rightarrow> keyboard res" where
  "ps2_keyboard_interrupt_handler key k =
     (if special_key_next k then
        Inr ((if special_code k = 0xE0 then special_e0 key k else if special_code k = 0x3A then special_caps key k else k)
          \<lparr>special_key_next := False\<rparr>)
      else if key = 0xE0 \<or> key = 0x3A then Inr (k\<lparr>special_key_next := True, special_code := key\<rparr>)
      else if key = 0x38 then Inr (on_keys (\<lambda>d. d\<lparr>left_alt := True\<rparr>) k)
      else if key = 0xB8 then Inr (on_keys (\<lambda>d. d\<lparr>left_alt := False\<rparr>) k)
      else if key = 0x1D then Inr (on_keys (\<lambda>d. d\<lparr>left_ctrl := True\<rparr>) k)
      else if key = 0x9D then Inr (on_keys (\<lambda>d. d\<lparr>left_ctrl := False\<rparr>) k)
      else if key = 0x2A then Inr (on_keys (\<lambda>d. d\<lparr>left_shift := True\<rparr>) k)
      else if key = 0xAA then Inr (on_keys (\<lambda>d. d\<lparr>left_shift := False\<rparr>) k)
      else if key = 0x36 then Inr (on_keys (\<lambda>d. d\<lparr>right_shift := True\<rparr>) k)
      else if key = 0xB6 then Inr (on_keys (\<lambda>d. d\<lparr>right_shift := False\<rparr>) k)
      else rbind (fkeys key k) (\<lambda>k1. rbind (keymap key k1) (\<lambda>c. Inr (k1\<lparr>kbd_char := c\<rparr>))))"

definition ps2_keyboard_async_getc :: "keyboard \<Rightarrow> u8 \<times> keyboard" where
  "ps2_keyboard_async_getc k = (kbd_char k, k\<lparr>kbd_char := 0\<rparr>)"

definition ps2_keyboard_async_getarrw :: "keyboard \<Rightarrow> keyboard_arrow \<times> keyboard" where
  "ps2_keyboard_async_getarrw k = (kbd_arrw k, k\<lparr>kbd_arrw := NoArrow\<rparr>)"

section \<open>Properties\<close>

text \<open>
  What a user does: modifier keys and arrows go down and up, caps lock is pressed and released, other keys send a byte. The codes are those of the
  controller.
\<close>

datatype mkey = LShift | RShift | LCtrl | RCtrl | LAlt | RAlt | KUp | KDown | KLeft | KRight

datatype key_event = KPress mkey | KRelease mkey | CapsTap | KByte u8

primrec make_code :: "mkey \<Rightarrow> u8 list" where
  "make_code LShift = [0x2A]"
| "make_code RShift = [0x36]"
| "make_code LCtrl = [0x1D]"
| "make_code RCtrl = [0xE0, 0x1D]"
| "make_code LAlt = [0x38]"
| "make_code RAlt = [0xE0, 0x38]"
| "make_code KUp = [0xE0, 0x48]"
| "make_code KDown = [0xE0, 0x50]"
| "make_code KLeft = [0xE0, 0x4B]"
| "make_code KRight = [0xE0, 0x4D]"

definition break_code :: "mkey \<Rightarrow> u8 list" where
  "break_code m = butlast (make_code m) @ [last (make_code m) + 0x80]"

primrec scan_code :: "key_event \<Rightarrow> u8 list" where
  "scan_code (KPress m) = make_code m"
| "scan_code (KRelease m) = break_code m"
| "scan_code CapsTap = [0x3A, 0xBA]"
| "scan_code (KByte b) = [b]"

primrec run_bytes :: "u8 list \<Rightarrow> keyboard \<Rightarrow> keyboard res" where
  "run_bytes [] k = Inr k"
| "run_bytes (b # bs) k = rbind (ps2_keyboard_interrupt_handler b k) (run_bytes bs)"

text \<open>The ideal keyboard: the set of keys that are held, caps lock and the last character.\<close>

record ideal =
  held :: "mkey set"
  caps :: bool
  typed :: u8

definition ideal_layout :: "mkey set \<Rightarrow> bool \<Rightarrow> layout" where
  "ideal_layout h c = (let shift = (h \<inter> {LShift, RShift} \<noteq> {}) in
     if c \<noteq> shift then LayoutShift else if \<not> c \<and> h \<inter> {LAlt, RAlt} \<noteq> {} then LayoutAlt else LayoutNormal)"

definition map_char :: "u8 list \<Rightarrow> nat \<Rightarrow> layout \<Rightarrow> u8 \<Rightarrow> u8" where
  "map_char data idx l b = data ! (8 + KEYMAP_SIZE * idx + layout_offset l + unat b)"

definition ideal_step :: "u8 list \<Rightarrow> nat \<Rightarrow> key_event \<Rightarrow> ideal \<Rightarrow> ideal" where
  "ideal_step data idx e s = (case e of
       KPress m \<Rightarrow> s\<lparr>held := insert m (held s)\<rparr>
     | KRelease m \<Rightarrow> s\<lparr>held := held s - {m}\<rparr>
     | CapsTap \<Rightarrow> s\<lparr>caps := \<not> caps s\<rparr>
     | KByte b \<Rightarrow> s\<lparr>typed := map_char data idx (ideal_layout (held s) (caps s)) b\<rparr>)"

primrec is_down :: "special_keys_down \<Rightarrow> mkey \<Rightarrow> bool" where
  "is_down d LShift = left_shift d"
| "is_down d RShift = right_shift d"
| "is_down d LCtrl = left_ctrl d"
| "is_down d RCtrl = right_ctrl d"
| "is_down d LAlt = left_alt d"
| "is_down d RAlt = right_alt d"
| "is_down d KUp = up_arrow d"
| "is_down d KDown = down_arrow d"
| "is_down d KLeft = left_arrow d"
| "is_down d KRight = right_arrow d"

definition ideal_of :: "keyboard \<Rightarrow> ideal" where
  "ideal_of k = \<lparr>held = {m. is_down (keys_down k) m}, caps = caps_lock (keys_down k), typed = kbd_char k\<rparr>"

text \<open>Bytes of other keys: no prefix, no modifier, no function key and inside of the tables.\<close>

definition plain_byte :: "u8 \<Rightarrow> bool" where
  "plain_byte b \<longleftrightarrow> b \<notin> {0xE0, 0x3A, 0x38, 0xB8, 0x1D, 0x9D, 0x2A, 0xAA, 0x36, 0xB6, 0x57, 0x58, 0xD7, 0xD8, 0xFF} \<and>
     \<not> (0x3B \<le> b \<and> b \<le> 0x44) \<and> \<not> (0xBB \<le> b \<and> b \<le> 0xC4)"

lemma plain_byte_fkeys: "plain_byte b \<Longrightarrow> fkeys b k = Inr k"
proof -
  assume p: "plain_byte b"
  have n: "\<not> (0x57 \<le> b \<and> b \<le> 0x58)" "\<not> (0xD7 \<le> b \<and> b \<le> 0xD8)"
  proof -
    have "b = 0x57 \<or> b = 0x58" if "0x57 \<le> b \<and> b \<le> 0x58"
      using that by (simp add: word_le_nat_alt word_unat_eq_iff) linarith
    moreover have "b = 0xD7 \<or> b = 0xD8" if "0xD7 \<le> b \<and> b \<le> 0xD8"
      using that by (simp add: word_le_nat_alt word_unat_eq_iff) linarith
    ultimately show "\<not> (0x57 \<le> b \<and> b \<le> 0x58)" "\<not> (0xD7 \<le> b \<and> b \<le> 0xD8)" using p by (auto simp: plain_byte_def)
  qed
  have m: "\<not> (0x3B \<le> b \<and> b \<le> 0x44)" "\<not> (0xBB \<le> b \<and> b \<le> 0xC4)" using p by (simp_all only: plain_byte_def simp_thms)
  show ?thesis by (simp only: fkeys_def n m if_False rbind_Inr)
qed

lemma chosen_layout_ideal: "chosen_layout d = ideal_layout {m. is_down d m} (caps_lock d)"
proof -
  have "{m. is_down d m} \<inter> {LShift, RShift} \<noteq> {} \<longleftrightarrow> shift_down d" "{m. is_down d m} \<inter> {LAlt, RAlt} \<noteq> {} \<longleftrightarrow> alt_down d"
    by (auto simp: shift_down_def alt_down_def)
  then show ?thesis by (auto simp: chosen_layout_def ideal_layout_def Let_def)
qed

lemma layout_offset_le: "layout_offset l \<le> 526"
  by (cases l) simp_all

definition key_ready :: "u8 list \<Rightarrow> nat \<Rightarrow> keyboard \<Rightarrow> bool" where
  "key_ready data idx k \<longleftrightarrow> \<not> special_key_next k \<and> loaded_keymap k = Some data \<and> current_keymap_idx k = idx \<and> 8 + KEYMAP_SIZE * (idx + 1) \<le> length data"

lemma all_mkeys: "(\<forall>x. P x) \<longleftrightarrow> P LShift \<and> P RShift \<and> P LCtrl \<and> P RCtrl \<and> P LAlt \<and> P RAlt \<and> P KUp \<and> P KDown \<and> P KLeft \<and> P KRight"
  by (metis mkey.exhaust)

lemma modifier_event:
  assumes "key_ready data idx k" "e = KPress m \<or> e = KRelease m"
  shows "\<exists>k'. run_bytes (scan_code e) k = Inr k' \<and> key_ready data idx k' \<and> ideal_of k' = ideal_step data idx e (ideal_of k)"
proof -
  from assms(2) show ?thesis
    by (rule disjE; cases m)
      (use assms(1) in \<open>simp_all add: ps2_keyboard_interrupt_handler_def special_e0_def on_keys_def break_code_def key_ready_def ideal_of_def ideal_step_def set_eq_iff all_mkeys\<close>)
qed

lemma key_event_ideal:
  assumes "key_ready data idx k" "\<forall>b. e = KByte b \<longrightarrow> plain_byte b"
  shows "\<exists>k'. run_bytes (scan_code e) k = Inr k' \<and> key_ready data idx k' \<and> ideal_of k' = ideal_step data idx e (ideal_of k)"
proof (cases e)
  case (KByte b)
  then have p: "plain_byte b" using assms(2) by simp
  then have "b \<noteq> 0xFF" by (simp add: plain_byte_def)
  moreover have "unat b < 2 ^ LENGTH(8)" by (rule unsigned_less)
  ultimately have "unat b < 255" by (simp add: word_unat_eq_iff)
  then have "8 + KEYMAP_SIZE * idx + layout_offset l + unat b < length data" for l
    using assms(1) layout_offset_le [of l] unfolding key_ready_def by (simp add: algebra_simps)
  then have "keymap b k = Inr (map_char data idx (ideal_layout (held (ideal_of k)) (caps (ideal_of k))) b)"
    using assms(1) by (simp add: keymap_def key_ready_def file_byte_def map_char_def ideal_of_def chosen_layout_ideal)
  then have "run_bytes (scan_code e) k = Inr (k\<lparr>kbd_char := map_char data idx (ideal_layout (held (ideal_of k)) (caps (ideal_of k))) b\<rparr>)"
    using p assms(1) plain_byte_fkeys [OF p] by (simp add: KByte ps2_keyboard_interrupt_handler_def key_ready_def plain_byte_def)
  then show ?thesis using assms(1) by (simp add: KByte key_ready_def ideal_of_def ideal_step_def)
next
  case CapsTap
  then show ?thesis using assms(1)
    by (simp add: ps2_keyboard_interrupt_handler_def special_caps_def on_keys_def key_ready_def ideal_of_def ideal_step_def set_eq_iff all_mkeys)
qed (use modifier_event [OF assms(1)] in blast)+


definition demo_keymap :: "u8 list" where
  "demo_keymap = [0xFD, 0x89, 0x15, 0xAB, 1, 0, 0, 0] @ replicate 16 0 @ replicate 255 0x61 @ replicate 255 0x41 @ replicate 255 0x40"

definition demo_keyboard :: keyboard where
  "demo_keyboard = \<lparr>kbd_char = 0, kbd_arrw = NoArrow, special_key_next = False, special_code = 0,
     keys_down = \<lparr>left_shift = False, left_ctrl = False, left_alt = False, right_shift = False, right_ctrl = False, right_alt = False,
       caps_lock = False, up_arrow = False, down_arrow = False, left_arrow = False, right_arrow = False\<rparr>,
     loaded_keymap = Some demo_keymap, current_keymap_idx = 0, kbd_console = boot_console\<rparr>"


text \<open>
  One character is kept: a key that comes before the last one was read replaces it, and so does the release of a key, with what the table holds for its
  code. A key pressed while caps lock is held is taken for the rest of its code.
\<close>

lemma release_replaces_char:
  assumes "key_ready data idx k" "plain_byte b" "plain_byte (b + 0x80)"
  shows "\<exists>k'. run_bytes [b, b + 0x80] k = Inr k' \<and> kbd_char k' = map_char data idx (chosen_layout (keys_down k)) (b + 0x80)"
proof -
  obtain k1 where k1: "run_bytes (scan_code (KByte b)) k = Inr k1" "key_ready data idx k1"
    "ideal_of k1 = ideal_step data idx (KByte b) (ideal_of k)"
    using key_event_ideal [OF assms(1), of "KByte b"] assms(2) by blast
  obtain k2 where k2: "run_bytes (scan_code (KByte (b + 0x80))) k1 = Inr k2" "ideal_of k2 = ideal_step data idx (KByte (b + 0x80)) (ideal_of k1)"
    using key_event_ideal [OF k1(2), of "KByte (b + 0x80)"] assms(3) by blast
  have "typed (ideal_of k2) = map_char data idx (chosen_layout (keys_down k)) (b + 0x80)"
    unfolding k2(2) k1(3) by (simp add: ideal_step_def ideal_of_def chosen_layout_ideal)
  moreover have "run_bytes [b, b + 0x80] k = Inr k2" using k1(1) k2(1) by (simp add: rbind_eq_Inr)
  ultimately show ?thesis by (simp add: ideal_of_def)
qed

lemma caps_swallows_key:
  assumes "\<not> special_key_next k"
  shows "run_bytes [0x3A, 0x2A] k = Inr (k\<lparr>special_key_next := False, special_code := 0x3A\<rparr>)"
  using assms by (cases k) (simp add: ps2_keyboard_interrupt_handler_def special_caps_def)

text \<open>The keys \<open>F1\<close> to \<open>F4\<close> choose the terminal.\<close>

lemma fkey_switches:
  assumes "\<not> special_key_next k" "0x3B \<le> b" "b \<le> 0x3E" "text_console_vterm (uint b - 0x3A) (kbd_console k) = Inr c" "loaded_keymap k = None"
  shows "ps2_keyboard_interrupt_handler b k = Inr (k\<lparr>kbd_console := c, kbd_char := 0\<rparr>)"
proof -
  have "b \<in> {0x3B, 0x3C, 0x3D, 0x3E}" using assms(2,3) by (simp add: word_le_nat_alt word_unat_eq_iff) linarith
  then show ?thesis using assms(1,4,5)
    by (elim insertE emptyE) (simp_all add: ps2_keyboard_interrupt_handler_def fkeys_def global_fkey_handler_def keymap_def)
qed

end
