(* ===== verification/Disks.thy ===== *)
theory Disks
  imports Panic NetBytes
begin

text \<open>
  Disks: the registry of \<open>mckrnl/driver/disk_driver.c\<close>, the virtual disks of \<open>mckrnl/driver/disk/virtual_disk.c\<close> that stand for
  partitions, and the reader of partition tables, \<open>mckrnl/fs/gpt.c\<close>. A disk is a record of functions, as
  \<open>disk_driver_t\<close> is a structure of function pointers; they work on the state \<open>'h\<close> of the hardware. A buffer is passed
  with its contents, since a driver may leave a part of it as it was. The locale \<open>block_device\<close> is what the file systems rely on.
\<close>

section \<open>Disk drivers\<close>

record 'h disk_driver_t =
  dd_flush :: "'h \<Rightarrow> 'h res"
  dd_read :: "u64 \<Rightarrow> u32 \<Rightarrow> u8 list \<Rightarrow> 'h \<Rightarrow> (u8 list \<times> 'h) res"
  dd_write :: "u64 \<Rightarrow> u32 \<Rightarrow> u8 list \<Rightarrow> 'h \<Rightarrow> 'h res"
  dd_physical :: bool

text \<open>The array \<open>disks\<close> and \<open>num_disks\<close>, its length.\<close>

definition register_disk :: "'h disk_driver_t \<Rightarrow> 'h disk_driver_t list \<Rightarrow> int \<times> 'h disk_driver_t list" where
  "register_disk disk ds = (int (length ds), ds @ [disk])"

definition the_disk :: "int \<Rightarrow> 'h disk_driver_t list \<Rightarrow> 'h disk_driver_t res" where
  "the_disk disk_id ds = (if disk_id \<ge> 0 \<and> disk_id < int (length ds) then Inr (ds ! nat disk_id) else Inl AssertFailed)"

definition read_disk :: "'h disk_driver_t list \<Rightarrow> int \<Rightarrow> u64 \<Rightarrow> u32 \<Rightarrow> u8 list \<Rightarrow> 'h \<Rightarrow> (u8 list \<times> 'h) res" where
  "read_disk ds disk_id sector count buffer h = rbind (the_disk disk_id ds) (\<lambda>d. dd_read d sector count buffer h)"

definition write_disk :: "'h disk_driver_t list \<Rightarrow> int \<Rightarrow> u64 \<Rightarrow> u32 \<Rightarrow> u8 list \<Rightarrow> 'h \<Rightarrow> 'h res" where
  "write_disk ds disk_id sector count buffer h = rbind (the_disk disk_id ds) (\<lambda>d. dd_write d sector count buffer h)"

text \<open>Flushing is left to the drivers: the call is a panic.\<close>

definition flush_disk :: "panic_key \<Rightarrow> int \<Rightarrow> 'h \<Rightarrow> 'h res" where
  "flush_disk k disk_id h = rbind (abortf k) (\<lambda>_. Inr h)"

definition is_disk_physical :: "'h disk_driver_t list \<Rightarrow> int \<Rightarrow> bool res" where
  "is_disk_physical ds disk_id = rbind (the_disk disk_id ds) (\<lambda>d. Inr (dd_physical d))"

section \<open>Virtual disks\<close>

definition virtual_disk_read ::
  "'h disk_driver_t \<Rightarrow> u64 \<Rightarrow> u64 \<Rightarrow> u32 \<Rightarrow> u8 list \<Rightarrow> 'h \<Rightarrow> (u8 list \<times> 'h) res" where
  "virtual_disk_read disk lba_offset sector count buffer h = dd_read disk (sector + lba_offset) count buffer h"

definition virtual_disk_write ::
  "'h disk_driver_t \<Rightarrow> u64 \<Rightarrow> u64 \<Rightarrow> u32 \<Rightarrow> u8 list \<Rightarrow> 'h \<Rightarrow> 'h res" where
  "virtual_disk_write disk lba_offset sector count buffer h = dd_write disk (sector + lba_offset) count buffer h"

definition virtual_disk_flush :: "'h disk_driver_t \<Rightarrow> 'h \<Rightarrow> 'h res" where
  "virtual_disk_flush disk h = dd_flush disk h"

text \<open>
  The driver's data is put \<open>sizeof(disk_driver_t)\<close> structures, not bytes, behind the driver, which is still in the page.
\<close>

definition get_virtual_disk_driver :: "'h disk_driver_t \<Rightarrow> u64 \<Rightarrow> 'h disk_driver_t" where
  "get_virtual_disk_driver disk lba_offset =
     \<lparr>dd_flush = virtual_disk_flush disk, dd_read = virtual_disk_read disk lba_offset,
      dd_write = virtual_disk_write disk lba_offset, dd_physical = False\<rparr>"

section \<open>Partition tables\<close>

definition get64 :: "u8 list \<Rightarrow> nat \<Rightarrow> u64" where
  "get64 bs i = ucast (get32 bs i) OR push_bit 32 (ucast (get32 bs (i + 4)))"

text \<open>Newly allocated memory: \<open>junk\<close> is what it held before, by the number of the allocation.\<close>

definition fresh :: "(nat \<Rightarrow> nat \<Rightarrow> u8) \<Rightarrow> nat \<Rightarrow> nat \<Rightarrow> u8 list" where
  "fresh junk k n = map (junk k) [0..<n]"

abbreviation EFI_PART :: "u8 list" where
  "EFI_PART \<equiv> [0x45, 0x46, 0x49, 0x20, 0x50, 0x41, 0x52, 0x54]"

text \<open>The fields of \<open>gpt_header\<close> and of \<open>gpt_partition_entry\<close> that are read.\<close>

definition gpt_entries_lba :: "u8 list \<Rightarrow> u64" where
  "gpt_entries_lba header = get64 header 72"

definition gpt_entries_count :: "u8 list \<Rightarrow> u32" where
  "gpt_entries_count header = get32 header 80"

definition gpt_entries_size :: "u8 list \<Rightarrow> u32" where
  "gpt_entries_size header = get32 header 84"

definition gpt_type_data1 :: "u8 list \<Rightarrow> nat \<Rightarrow> u32" where
  "gpt_type_data1 entries i = get32 entries (128 * i)"

definition gpt_first_lba :: "u8 list \<Rightarrow> nat \<Rightarrow> u64" where
  "gpt_first_lba entries i = get64 entries (128 * i + 32)"

text \<open>
  The loop over the entries. They are taken to be \<open>sizeof(struct gpt_partition_entry)\<close> bytes apart, whatever the header says;
  an entry outside the buffer is an access outside the array.
\<close>

primrec gpt_loop :: "'h disk_driver_t \<Rightarrow> u8 list \<Rightarrow> nat \<Rightarrow> nat \<Rightarrow> 'h disk_driver_t list \<Rightarrow> 'h disk_driver_t list res" where
  "gpt_loop disk entries i 0 ds = Inr ds"
| "gpt_loop disk entries i (Suc n) ds =
     (if length entries < 128 * i + 4 then Inl OutOfBounds
      else if gpt_type_data1 entries i = 0 then gpt_loop disk entries (Suc i) n ds
      else if length entries < 128 * i + 40 then Inl OutOfBounds
      else gpt_loop disk entries (Suc i) n (snd (register_disk (get_virtual_disk_driver disk (gpt_first_lba entries i)) ds)))"

definition read_gpt ::
  "(nat \<Rightarrow> nat \<Rightarrow> u8) \<Rightarrow> 'h disk_driver_t \<Rightarrow> 'h disk_driver_t list \<Rightarrow> 'h \<Rightarrow> (bool \<times> 'h disk_driver_t list \<times> 'h) res" where
  "read_gpt junk disk ds h =
     rbind (dd_read disk 1 1 (fresh junk 0 4096) h) (\<lambda>(header, h1).
     if take 8 header \<noteq> EFI_PART then Inr (False, ds, h1)
     else let size = gpt_entries_size header * gpt_entries_count header in
       rbind (dd_read disk (gpt_entries_lba header) (size div 512 + 1) (fresh junk 1 (4096 * unat (size div 4096 + 1))) h1) (\<lambda>(entries, h2).
       rbind (gpt_loop disk entries 0 (unat (gpt_entries_count header)) ds) (\<lambda>ds'. Inr (True, ds', h2))))"

section \<open>What a disk promises\<close>

text \<open>
  A disk of \<open>n\<close> sectors: \<open>sec h i\<close> is the contents of sector \<open>i\<close> in the state \<open>h\<close>, \<open>ok\<close> what holds between the
  calls of its driver. Reading fills the front of the buffer and keeps the contents; writing changes the sectors it is given.
\<close>

definition sectors :: "(nat \<Rightarrow> u8 list) \<Rightarrow> nat \<Rightarrow> nat \<Rightarrow> u8 list" where
  "sectors c s n = concat (map c [s..<s + n])"

definition write_sectors :: "(nat \<Rightarrow> u8 list) \<Rightarrow> nat \<Rightarrow> nat \<Rightarrow> u8 list \<Rightarrow> nat \<Rightarrow> u8 list" where
  "write_sectors c s n b i = (if s \<le> i \<and> i < s + n then take 512 (drop (512 * (i - s)) b) else c i)"

locale block_device =
  fixes drv :: "'h disk_driver_t" and ok :: "'h \<Rightarrow> bool" and sec :: "'h \<Rightarrow> nat \<Rightarrow> u8 list" and n :: nat
  assumes n_bound: "n < 2 ^ 64"
    and sec_length: "ok h \<Longrightarrow> length (sec h i) = 512"
    and rd_law: "ok h \<Longrightarrow> unat s + unat c \<le> n \<Longrightarrow> 512 * unat c \<le> length b \<Longrightarrow>
      \<exists>h'. dd_read drv s c b h = Inr (sectors (sec h) (unat s) (unat c) @ drop (512 * unat c) b, h') \<and> ok h' \<and> sec h' = sec h"
    and wr_law: "ok h \<Longrightarrow> unat s + unat c \<le> n \<Longrightarrow> 512 * unat c \<le> length b \<Longrightarrow>
      \<exists>h'. dd_write drv s c b h = Inr h' \<and> ok h' \<and> sec h' = write_sectors (sec h) (unat s) (unat c) b"

lemma sectors_0 [simp]: "sectors c s 0 = []"
  by (simp add: sectors_def)

lemma sectors_Suc: "sectors c s (Suc k) = c s @ sectors c (Suc s) k"
  by (simp add: sectors_def upt_conv_Cons del: upt_Suc)

lemma sectors_1 [simp]: "sectors c s (Suc 0) = c s"
  by (simp add: sectors_Suc)

lemma length_sectors: "(\<And>i. length (c i) = 512) \<Longrightarrow> length (sectors c s k) = 512 * k"
  by (induction k arbitrary: s) (simp_all add: sectors_Suc)

lemma sectors_shift: "sectors (\<lambda>i. c (off + i)) s k = sectors c (off + s) k"
  by (induction k arbitrary: s) (simp_all add: sectors_Suc)

lemma write_sectors_shift: "write_sectors c (off + s) k b (off + i) = write_sectors (\<lambda>i. c (off + i)) s k b i"
  by (auto simp: write_sectors_def)

lemma sectors_write: "512 * k \<le> length b \<Longrightarrow> (\<And>i. i < k \<Longrightarrow> c (s + i) = take 512 (drop (512 * i) b)) \<Longrightarrow> sectors c s k = take (512 * k) b"
proof (induction k arbitrary: s b)
  case (Suc k)
  have "sectors c (Suc s) k = take (512 * k) (drop 512 b)"
  proof (rule Suc.IH)
    show "512 * k \<le> length (drop 512 b)" using Suc.prems(1) by simp
    show "c (Suc s + i) = take 512 (drop (512 * i) (drop 512 b))" if "i < k" for i
      using Suc.prems(2) [of "Suc i"] that by (simp add: add.commute)
  qed
  moreover have "c s = take 512 b" using Suc.prems(2) [of 0] by simp
  moreover have "take 512 b @ take (512 * k) (drop 512 b) = take (512 + 512 * k) b" by (simp only: take_add)
  ultimately show ?case by (simp add: sectors_Suc)
qed simp

context block_device
begin

text \<open>What was written is read back, and the other sectors are as before.\<close>

lemma read_after_write:
  assumes "ok h" "unat s + unat c \<le> n" "length b = 512 * unat c" "512 * unat c \<le> length b'"
  obtains h1 h2 where "dd_write drv s c b h = Inr h1" "dd_read drv s c b' h1 = Inr (b @ drop (512 * unat c) b', h2)" "ok h2"
    "\<And>i. i < unat s \<or> unat s + unat c \<le> i \<Longrightarrow> sec h2 i = sec h i"
proof -
  obtain h1 where h1: "dd_write drv s c b h = Inr h1" "ok h1" "sec h1 = write_sectors (sec h) (unat s) (unat c) b"
    using wr_law [OF assms(1,2), of b] assms(3) by auto
  have "sec h1 (unat s + i) = take 512 (drop (512 * i) b)" if "i < unat c" for i
    using that by (simp add: h1(3) write_sectors_def)
  then have "sectors (sec h1) (unat s) (unat c) = b" using sectors_write [of "unat c" b "sec h1" "unat s"] assms(3) by simp
  then obtain h2 where h2: "dd_read drv s c b' h1 = Inr (b @ drop (512 * unat c) b', h2)" "ok h2" "sec h2 = sec h1"
    using rd_law [OF h1(2) assms(2,4)] by auto
  show ?thesis by (rule that [OF h1(1) h2(1,2)]) (auto simp: h2(3) h1(3) write_sectors_def)
qed

end

text \<open>A partition: the sectors of a disk from an offset on, through the virtual disk.\<close>

locale partition = block_device drv ok sec n
  for drv :: "'h disk_driver_t" and ok sec n +
  fixes lba_offset :: u64
  assumes offset_bound: "unat lba_offset \<le> n"
begin

lemma shifted: "unat s + unat c \<le> n - unat lba_offset \<Longrightarrow> unat (s + lba_offset) = unat lba_offset + unat s"
  for c :: u32
  using offset_bound n_bound by (simp add: unat_word_ariths)

sublocale virt: block_device "get_virtual_disk_driver drv lba_offset" ok "\<lambda>h i. sec h (unat lba_offset + i)" "n - unat lba_offset"
proof
  show "n - unat lba_offset < 2 ^ 64" using n_bound by simp
  show "length (sec h (unat lba_offset + i)) = 512" if "ok h" for h i using sec_length that .
next
  fix h and s :: u64 and c :: u32 and b :: "u8 list"
  assume a: "ok h" "unat s + unat c \<le> n - unat lba_offset" "512 * unat c \<le> length b"
  note s = shifted [OF a(2)]
  have l: "unat (s + lba_offset) + unat c \<le> n" using s a(2) offset_bound by simp
  show "\<exists>h'. dd_read (get_virtual_disk_driver drv lba_offset) s c b h =
      Inr (sectors (\<lambda>i. sec h (unat lba_offset + i)) (unat s) (unat c) @ drop (512 * unat c) b, h') \<and> ok h' \<and>
      (\<lambda>i. sec h' (unat lba_offset + i)) = (\<lambda>i. sec h (unat lba_offset + i))"
    using rd_law [OF a(1) l a(3)] unfolding s sectors_shift get_virtual_disk_driver_def virtual_disk_read_def by auto
  show "\<exists>h'. dd_write (get_virtual_disk_driver drv lba_offset) s c b h = Inr h' \<and> ok h' \<and>
      (\<lambda>i. sec h' (unat lba_offset + i)) = write_sectors (\<lambda>i. sec h (unat lba_offset + i)) (unat s) (unat c) b"
    using wr_law [OF a(1) l a(3)] unfolding s get_virtual_disk_driver_def virtual_disk_write_def
    by (auto simp: write_sectors_shift)
qed

end

section \<open>Partitions found\<close>

text \<open>The entries in use, by their numbers, and the disks that are registered for them.\<close>

definition gpt_used :: "u8 list \<Rightarrow> nat \<Rightarrow> nat list" where
  "gpt_used entries n = filter (\<lambda>i. gpt_type_data1 entries i \<noteq> 0) [0..<n]"

definition gpt_disks :: "'h disk_driver_t \<Rightarrow> u8 list \<Rightarrow> nat \<Rightarrow> 'h disk_driver_t list" where
  "gpt_disks disk entries n = map (\<lambda>i. get_virtual_disk_driver disk (gpt_first_lba entries i)) (gpt_used entries n)"

lemma gpt_loop_disks:
  "128 * (i + k) \<le> length entries \<Longrightarrow> gpt_loop disk entries i k ds =
     Inr (ds @ map (\<lambda>i. get_virtual_disk_driver disk (gpt_first_lba entries i)) (filter (\<lambda>i. gpt_type_data1 entries i \<noteq> 0) [i..<i + k]))"
  by (induction k arbitrary: i ds) (simp_all add: upt_conv_Cons register_disk_def del: upt_Suc)

lemma length_fresh [simp]: "length (fresh junk k n) = n"
  by (simp add: fresh_def)

text \<open>The buffer for the entries holds the sectors that are read, and all entries when they have the standard size.\<close>

lemma gpt_buffer:
  fixes sz :: u32
  shows "unat (sz div 512 + 1) = unat sz div 512 + 1" "unat (sz div 4096 + 1) = unat sz div 4096 + 1"
    "512 * (unat sz div 512 + 1) \<le> 4096 * (unat sz div 4096 + 1)" "unat sz < 512 * (unat sz div 512 + 1)"
proof -
  have "unat sz < 2 ^ 32" using unsigned_less [of sz, where 'a = nat] by simp
  then have a: "unat sz div 512 + 1 < 2 ^ 32" "unat sz div 4096 + 1 < 2 ^ 32" by simp_all
  have d: "unat (sz div 512) = unat sz div 512" "unat (sz div 4096) = unat sz div 4096" by (simp_all add: unat_div)
  show "unat (sz div 512 + 1) = unat sz div 512 + 1" by (subst unat_add_u32) (use a d in simp_all)
  show "unat (sz div 4096 + 1) = unat sz div 4096 + 1" by (subst unat_add_u32) (use a d in simp_all)
  have e: "unat sz div 512 div 8 = unat sz div 4096" by (simp add: div_mult2_eq [symmetric])
  have "unat sz div 512 < 8 * (unat sz div 512 div 8) + 8" using dividend_less_times_div [of 8 "unat sz div 512"] by simp
  then show "512 * (unat sz div 512 + 1) \<le> 4096 * (unat sz div 4096 + 1)" unfolding e by simp
  show "unat sz < 512 * (unat sz div 512 + 1)" using dividend_less_times_div [of 512 "unat sz"] by simp
qed

context block_device
begin

lemma read_gpt_none:
  assumes "ok h" "2 \<le> n" "take 8 (sec h 1) \<noteq> EFI_PART"
  shows "\<exists>h'. read_gpt junk drv ds h = Inr (False, ds, h') \<and> ok h' \<and> sec h' = sec h"
proof -
  obtain h' where "dd_read drv 1 1 (fresh junk 0 4096) h = Inr (sec h 1 @ drop 512 (fresh junk 0 4096), h')" "ok h'" "sec h' = sec h"
    using rd_law [OF assms(1), of 1 1 "fresh junk 0 4096"] assms(2) by auto
  then show ?thesis using assms(3) sec_length [OF assms(1), of 1] by (simp add: read_gpt_def)
qed

lemma read_gpt_found:
  assumes "ok h" "2 \<le> n" "take 8 (sec h 1) = EFI_PART" "gpt_entries_size (sec h 1) = 128"
    and "k = unat (gpt_entries_count (sec h 1))" "128 * k < 2 ^ 32" "lba = unat (gpt_entries_lba (sec h 1))" "lba + k div 4 + 1 \<le> n"
    and "entries = sectors (sec h) lba (k div 4 + 1)"
  shows "\<exists>h'. read_gpt junk drv ds h = Inr (True, ds @ gpt_disks drv entries k, h') \<and> ok h' \<and> sec h' = sec h"
proof -
  obtain h1 where h1: "dd_read drv 1 1 (fresh junk 0 4096) h = Inr (sec h 1 @ drop 512 (fresh junk 0 4096), h1)" "ok h1" "sec h1 = sec h"
    using rd_law [OF assms(1), of 1 1 "fresh junk 0 4096"] assms(2) by auto
  let ?hd = "sec h 1 @ drop 512 (fresh junk 0 4096)" and ?sz = "128 * gpt_entries_count (sec h 1)"
  have l: "length (sec h 1) = 512" using sec_length [OF assms(1)] .
  have hd: "take 8 ?hd = EFI_PART" "gpt_entries_size ?hd = 128" "gpt_entries_count ?hd = gpt_entries_count (sec h 1)"
    "gpt_entries_lba ?hd = gpt_entries_lba (sec h 1)"
    using l assms(3,4) by (simp_all add: gpt_entries_size_def gpt_entries_count_def gpt_entries_lba_def get64_def get32_def nth_append)
  have "unat ?sz = 128 * k" using assms(5,6) by (simp add: unat_word_ariths)
  then have sz: "unat (?sz div 512 + 1) = k div 4 + 1" "512 * (k div 4 + 1) \<le> 4096 * unat (?sz div 4096 + 1)" "128 * k < 512 * (k div 4 + 1)"
    using gpt_buffer [of ?sz] by simp_all
  let ?b = "fresh junk 1 (4096 * unat (?sz div 4096 + 1))"
  have "unat (gpt_entries_lba (sec h 1)) + unat (?sz div 512 + 1) \<le> n" "512 * unat (?sz div 512 + 1) \<le> length ?b"
    using assms(7,8) sz by simp_all
  from rd_law [OF h1(2) this] obtain h2 where h2: "dd_read drv (gpt_entries_lba (sec h 1)) (?sz div 512 + 1) ?b h1 =
      Inr (entries @ drop (512 * unat (?sz div 512 + 1)) ?b, h2)" "ok h2" "sec h2 = sec h"
    unfolding h1(3) assms(9) sz(1) assms(7) by auto
  have le: "length entries = 512 * (k div 4 + 1)" using assms(9) length_sectors [of "sec h"] sec_length [OF assms(1)] by simp
  have nth: "gpt_type_data1 (entries @ xs) i = gpt_type_data1 entries i" "gpt_first_lba (entries @ xs) i = gpt_first_lba entries i"
    if "i < k" for i xs
    using that le sz(3) by (simp_all add: gpt_type_data1_def gpt_first_lba_def get64_def get32_def nth_append)
  have "gpt_used (entries @ xs) k = gpt_used entries k" for xs
    unfolding gpt_used_def by (rule filter_cong) (simp_all add: nth)
  then have "gpt_disks drv (entries @ xs) k = gpt_disks drv entries k" for xs
    unfolding gpt_disks_def by (auto simp: nth gpt_used_def)
  then have "gpt_loop drv (entries @ xs) 0 k ds = Inr (ds @ gpt_disks drv entries k)" for xs
    using gpt_loop_disks [of 0 k "entries @ xs" drv ds] le sz(3) by (simp add: gpt_disks_def gpt_used_def)
  then show ?thesis using h1(1) h2 hd assms(5) unfolding read_gpt_def Let_def by (simp add: mult.commute)
qed

end

end
