(* ===== verification/Ata.thy ===== *)
theory Ata
  imports Disks
begin

text \<open>
  The driver of ATA disks, \<open>mckrnl/driver/disk/ata.c\<close>. The input and output instructions of the processor are the argument
  \<open>io\<close>; what a drive does with them is stated as the hypothesis \<open>ata_device\<close>, after the protocol for single-sector transfers of the ATA standard.
  A loop that waits for ever stops the machine: \<open>Halted\<close>.
\<close>

section \<open>Definitions\<close>

record 'h ports =
  p_inb :: "u16 \<Rightarrow> 'h \<Rightarrow> u8 \<times> 'h"
  p_inw :: "u16 \<Rightarrow> 'h \<Rightarrow> u16 \<times> 'h"
  p_outb :: "u16 \<Rightarrow> u8 \<Rightarrow> 'h \<Rightarrow> 'h"
  p_outw :: "u16 \<Rightarrow> u16 \<Rightarrow> 'h \<Rightarrow> 'h"

record ata_driver_data_t =
  ata_name :: "u8 list"
  master :: bool
  port_base :: u16

abbreviation DATA_PORT_OFFSET :: u16 where "DATA_PORT_OFFSET \<equiv> 0"
abbreviation ERROR_PORT_OFFSET :: u16 where "ERROR_PORT_OFFSET \<equiv> 1"
abbreviation SECTOR_COUNT_OFFSET :: u16 where "SECTOR_COUNT_OFFSET \<equiv> 2"
abbreviation LBA_LOW_OFFSET :: u16 where "LBA_LOW_OFFSET \<equiv> 3"
abbreviation LBA_MID_OFFSET :: u16 where "LBA_MID_OFFSET \<equiv> 4"
abbreviation LBA_HIGH_OFFSET :: u16 where "LBA_HIGH_OFFSET \<equiv> 5"
abbreviation DEVICE_PORT_OFFSET :: u16 where "DEVICE_PORT_OFFSET \<equiv> 6"
abbreviation COMMAND_PORT_OFFSET :: u16 where "COMMAND_PORT_OFFSET \<equiv> 7"
abbreviation CONTROL_PORT_OFFSET :: u16 where "CONTROL_PORT_OFFSET \<equiv> 0x206"

text \<open>The loop that reads the status while the drive is busy and reports no error.\<close>

partial_function (option) ata_wait :: "'h ports \<Rightarrow> u16 \<Rightarrow> u8 \<Rightarrow> 'h \<Rightarrow> (u8 \<times> 'h) option" where
  "ata_wait io port status h =
     (if status AND 0x80 = 0x80 \<and> status AND 0x01 \<noteq> 0x01
      then ata_wait io port (fst (p_inb io port h)) (snd (p_inb io port h))
      else Some (status, h))"

definition returns :: "'a option \<Rightarrow> 'a res" where
  "returns r = (case r of None \<Rightarrow> Inl Halted | Some x \<Rightarrow> Inr x)"

text \<open>The first reading of the status after a command, and the wait.\<close>

definition ata_status :: "'h ports \<Rightarrow> ata_driver_data_t \<Rightarrow> 'h \<Rightarrow> (u8 \<times> 'h) res" where
  "ata_status io d h =
     (let port = port_base d + COMMAND_PORT_OFFSET; (status, h1) = p_inb io port h in returns (ata_wait io port status h1))"

text \<open>The part that \<open>ata_driver_read28\<close> and \<open>ata_driver_write28\<close> share: the drive, the number of the sector and the command.\<close>

definition ata_command :: "'h ports \<Rightarrow> ata_driver_data_t \<Rightarrow> u32 \<Rightarrow> u8 \<Rightarrow> 'h \<Rightarrow> 'h" where
  "ata_command io d sector cmd h =
     (let b = port_base d;
          h = p_outb io (b + DEVICE_PORT_OFFSET) ((if master d then 0xE0 else 0xF0) OR ucast (drop_bit 24 (sector AND 0x0F000000))) h;
          h = p_outb io (b + ERROR_PORT_OFFSET) 0 h;
          h = p_outb io (b + SECTOR_COUNT_OFFSET) 1 h;
          h = p_outb io (b + LBA_LOW_OFFSET) (ucast (sector AND 0xFF)) h;
          h = p_outb io (b + LBA_MID_OFFSET) (ucast (drop_bit 8 (sector AND 0xFF00))) h;
          h = p_outb io (b + LBA_HIGH_OFFSET) (ucast (drop_bit 16 (sector AND 0xFF0000))) h
      in p_outb io (b + COMMAND_PORT_OFFSET) cmd h)"

text \<open>The loops over the 256 words of a sector; the bytes are in the order in which they stand in the buffer.\<close>

primrec ata_in :: "'h ports \<Rightarrow> u16 \<Rightarrow> nat \<Rightarrow> 'h \<Rightarrow> u8 list \<times> 'h" where
  "ata_in io port 0 h = ([], h)"
| "ata_in io port (Suc n) h =
     (let (wdata, h1) = p_inw io port h; (bs, h2) = ata_in io port n h1
      in (ucast (wdata AND 0xFF) # ucast (drop_bit 8 wdata AND 0xFF) # bs, h2))"

primrec ata_out :: "'h ports \<Rightarrow> u16 \<Rightarrow> u8 list \<Rightarrow> nat \<Rightarrow> nat \<Rightarrow> 'h \<Rightarrow> 'h" where
  "ata_out io port buf i 0 h = h"
| "ata_out io port buf i (Suc n) h =
     ata_out io port buf (i + 2) n (p_outw io port (ucast (buf ! i) OR push_bit 8 (ucast (buf ! (i + 1)))) h)"

text \<open>
  One sector, into or out of the buffer from the place \<open>at\<close> on. A sector number of more than 28 bits and an error of the drive
  leave the buffer, or the drive, as it was, without a report.
\<close>

definition ata_driver_read28 :: "'h ports \<Rightarrow> ata_driver_data_t \<Rightarrow> u32 \<Rightarrow> nat \<Rightarrow> u8 list \<Rightarrow> 'h \<Rightarrow> (u8 list \<times> 'h) res" where
  "ata_driver_read28 io d sector at buf h =
     (if sector AND 0xF0000000 \<noteq> 0 then Inr (buf, h)
      else rbind (ata_status io d (ata_command io d sector 0x20 h)) (\<lambda>(status, h1).
        if status AND 0x01 \<noteq> 0 then Inr (buf, h1)
        else if length buf < at + 512 then Inl OutOfBounds
        else let (bs, h2) = ata_in io (port_base d + DATA_PORT_OFFSET) 256 h1
             in Inr (take at buf @ bs @ drop (at + 512) buf, h2)))"

definition ata_driver_write28 :: "'h ports \<Rightarrow> ata_driver_data_t \<Rightarrow> u32 \<Rightarrow> nat \<Rightarrow> u8 list \<Rightarrow> 'h \<Rightarrow> 'h res" where
  "ata_driver_write28 io d sector at buf h =
     (if sector AND 0xF0000000 \<noteq> 0 then Inr h
      else rbind (ata_status io d (ata_command io d sector 0x30 h)) (\<lambda>(status, h1).
        if status AND 0x01 \<noteq> 0 then Inr h1
        else if length buf < at + 512 then Inl OutOfBounds
        else Inr (ata_out io (port_base d + DATA_PORT_OFFSET) buf at 256 h1)))"

definition ata_driver_flush :: "'h ports \<Rightarrow> ata_driver_data_t \<Rightarrow> 'h \<Rightarrow> 'h res" where
  "ata_driver_flush io d h =
     (let port = port_base d + COMMAND_PORT_OFFSET;
          h1 = p_outb io (port_base d + DEVICE_PORT_OFFSET) (if master d then 0xE0 else 0xF0) h;
          h2 = p_outb io port 0xE7 h1;
          (status, h3) = p_inb io port h2
      in if status = 0 then Inr h3 else rbind (returns (ata_wait io port status h3)) (\<lambda>(_, h4). Inr h4))"

text \<open>The sector number is cut to 32 bits when it is passed on.\<close>

primrec ata_read_loop :: "'h ports \<Rightarrow> ata_driver_data_t \<Rightarrow> u64 \<Rightarrow> nat \<Rightarrow> nat \<Rightarrow> u8 list \<Rightarrow> 'h \<Rightarrow> (u8 list \<times> 'h) res" where
  "ata_read_loop io d sector i 0 buf h = Inr (buf, h)"
| "ata_read_loop io d sector i (Suc n) buf h =
     rbind (ata_driver_read28 io d (ucast (sector + of_nat i)) (512 * i) buf h) (\<lambda>(b, h1). ata_read_loop io d sector (Suc i) n b h1)"

definition ata_driver_read :: "'h ports \<Rightarrow> ata_driver_data_t \<Rightarrow> u64 \<Rightarrow> u32 \<Rightarrow> u8 list \<Rightarrow> 'h \<Rightarrow> (u8 list \<times> 'h) res" where
  "ata_driver_read io d sector count buf h = ata_read_loop io d sector 0 (unat count) buf h"

primrec ata_write_loop :: "'h ports \<Rightarrow> ata_driver_data_t \<Rightarrow> u64 \<Rightarrow> nat \<Rightarrow> nat \<Rightarrow> u8 list \<Rightarrow> 'h \<Rightarrow> 'h res" where
  "ata_write_loop io d sector i 0 buf h = Inr h"
| "ata_write_loop io d sector i (Suc n) buf h =
     rbind (ata_driver_write28 io d (ucast (sector + of_nat i)) (512 * i) buf h) (\<lambda>h1.
     rbind (ata_driver_flush io d h1) (\<lambda>h2. ata_write_loop io d sector (Suc i) n buf h2))"

definition ata_driver_write :: "'h ports \<Rightarrow> ata_driver_data_t \<Rightarrow> u64 \<Rightarrow> u32 \<Rightarrow> u8 list \<Rightarrow> 'h \<Rightarrow> 'h res" where
  "ata_driver_write io d sector count buf h = ata_write_loop io d sector 0 (unat count) buf h"

definition get_ata_driver :: "'h ports \<Rightarrow> ata_driver_data_t \<Rightarrow> 'h disk_driver_t" where
  "get_ata_driver io d =
     \<lparr>dd_flush = ata_driver_flush io d, dd_read = ata_driver_read io d, dd_write = ata_driver_write io d, dd_physical = True\<rparr>"

text \<open>The four drives of the two channels.\<close>

definition ata_pci_found :: "ata_driver_data_t list" where
  "ata_pci_found =
     [\<lparr>ata_name = map (of_nat \<circ> of_char) ''ata0_master'', master = True, port_base = 0x1F0\<rparr>,
      \<lparr>ata_name = map (of_nat \<circ> of_char) ''ata0_slave'', master = False, port_base = 0x1F0\<rparr>,
      \<lparr>ata_name = map (of_nat \<circ> of_char) ''ata1_master'', master = True, port_base = 0x170\<rparr>,
      \<lparr>ata_name = map (of_nat \<circ> of_char) ''ata1_slave'', master = False, port_base = 0x170\<rparr>]"

text \<open>
  The search for a drive. The words of the answer are read and dropped. (They are also stored into a string constant, which
  nothing reads.)
\<close>

definition ata_driver_is_device_present :: "'h ports \<Rightarrow> ata_driver_data_t \<Rightarrow> 'h \<Rightarrow> (bool \<times> 'h) res" where
  "ata_driver_is_device_present io d h =
     (let b = port_base d; port = b + COMMAND_PORT_OFFSET; sel = (if master d then 0xA0 else 0xB0);
          h = p_outb io (b + DEVICE_PORT_OFFSET) sel h;
          h = p_outb io (b + CONTROL_PORT_OFFSET) 0 h;
          h = p_outb io (b + DEVICE_PORT_OFFSET) 0xA0 h;
          (status, h) = p_inb io port h
      in if status = 0xFF then Inr (False, h)
         else
           let h = p_outb io (b + DEVICE_PORT_OFFSET) sel h;
               h = p_outb io (b + SECTOR_COUNT_OFFSET) 0 h;
               h = p_outb io (b + LBA_LOW_OFFSET) 0 h;
               h = p_outb io (b + LBA_MID_OFFSET) 0 h;
               h = p_outb io (b + LBA_HIGH_OFFSET) 0 h;
               h = p_outb io port 0xEC h;
               (status, h) = p_inb io port h
           in if status = 0 then Inr (False, h)
              else rbind (returns (ata_wait io port status h)) (\<lambda>(status, h).
                if status AND 0x01 \<noteq> 0 then Inr (False, h)
                else Inr (True, snd (ata_in io (b + DATA_PORT_OFFSET) 256 h))))"

text \<open>\<open>ata_driver_init\<close>: the partitions are registered before the disk itself.\<close>

definition ata_driver_init ::
  "(nat \<Rightarrow> nat \<Rightarrow> u8) \<Rightarrow> 'h ports \<Rightarrow> ata_driver_data_t \<Rightarrow> 'h disk_driver_t list \<Rightarrow> 'h \<Rightarrow> ('h disk_driver_t list \<times> 'h) res" where
  "ata_driver_init junk io d ds h =
     rbind (read_gpt junk (get_ata_driver io d) ds h) (\<lambda>(_, ds1, h1). Inr (snd (register_disk (get_ata_driver io d) ds1), h1))"

section \<open>The drives\<close>

text \<open>
  What the standard says of a pair of drives on a channel. Registers and commands are ignored while the channel is busy; \<open>a_busy\<close> is the
  number of times the status will be read as busy, whatever it is. A read command offers the 512 bytes of the
  sector in the registers, a write command takes 512 bytes for it, by words with the lower byte first.
\<close>

datatype ata_phase = Ready | DataIn "u8 list" | DataOut "u8 list"

record ata_dev =
  a_device :: u8
  a_low :: u8
  a_mid :: u8
  a_high :: u8
  a_busy :: nat
  a_phase :: ata_phase
  a_disk :: "bool \<Rightarrow> nat \<Rightarrow> u8 list"

definition ata_slave :: "ata_dev \<Rightarrow> bool" where
  "ata_slave D \<longleftrightarrow> a_device D AND 0x10 \<noteq> 0"

definition ata_lba :: "ata_dev \<Rightarrow> nat" where
  "ata_lba D = unat (a_low D) + 2 ^ 8 * unat (a_mid D) + 2 ^ 16 * unat (a_high D) + 2 ^ 24 * unat (a_device D AND 0x0F)"

definition ata_set_reg :: "u16 \<Rightarrow> u8 \<Rightarrow> ata_dev \<Rightarrow> ata_dev" where
  "ata_set_reg r v D =
     (if a_busy D > 0 then D
      else if r = LBA_LOW_OFFSET then D\<lparr>a_low := v\<rparr>
      else if r = LBA_MID_OFFSET then D\<lparr>a_mid := v\<rparr>
      else if r = LBA_HIGH_OFFSET then D\<lparr>a_high := v\<rparr>
      else if r = DEVICE_PORT_OFFSET then D\<lparr>a_device := v\<rparr>
      else D)"

definition ata_start :: "u8 \<Rightarrow> nat \<Rightarrow> ata_dev \<Rightarrow> ata_dev" where
  "ata_start cmd busy D =
     (if a_busy D > 0 then D
      else D\<lparr>a_busy := busy,
             a_phase := (if cmd = 0x20 then DataIn (a_disk D (ata_slave D) (ata_lba D)) else if cmd = 0x30 then DataOut [] else Ready)\<rparr>)"

definition ata_word_in :: "u8 list \<Rightarrow> u16" where
  "ata_word_in bs = ucast (bs ! 0) OR push_bit 8 (ucast (bs ! 1))"

definition ata_store :: "u8 list \<Rightarrow> nat \<Rightarrow> ata_dev \<Rightarrow> ata_dev" where
  "ata_store bs busy D = D\<lparr>a_phase := Ready, a_busy := busy,
     a_disk := (a_disk D)(ata_slave D := (a_disk D (ata_slave D))(ata_lba D := bs))\<rparr>"

definition ata_word_out :: "u16 \<Rightarrow> nat \<Rightarrow> u8 list \<Rightarrow> ata_dev \<Rightarrow> ata_dev" where
  "ata_word_out v busy bs D =
     (let bs' = bs @ [ucast v, ucast (drop_bit 8 v)] in
      if length bs' < 512 then D\<lparr>a_phase := DataOut bs'\<rparr>
      else ata_store bs' busy D)"

definition ata_device :: "'h ports \<Rightarrow> u16 \<Rightarrow> ('h \<Rightarrow> ata_dev) \<Rightarrow> bool" where
  "ata_device io base dev \<longleftrightarrow>
     (\<forall>h v. \<forall>r \<in> {1, 2, 3, 4, 5, 6}. dev (p_outb io (base + r) v h) = ata_set_reg r v (dev h)) \<and>
     (\<forall>h. \<forall>cmd \<in> {0x20, 0x30, 0xE7}. \<exists>busy. dev (p_outb io (base + COMMAND_PORT_OFFSET) cmd h) = ata_start cmd busy (dev h)) \<and>
     (\<forall>h. dev (snd (p_inb io (base + COMMAND_PORT_OFFSET) h)) = (dev h)\<lparr>a_busy := a_busy (dev h) - 1\<rparr> \<and>
        fst (p_inb io (base + COMMAND_PORT_OFFSET) h) AND 0x80 = (if a_busy (dev h) > 0 then 0x80 else 0) \<and>
        fst (p_inb io (base + COMMAND_PORT_OFFSET) h) AND 0x01 = 0) \<and>
     (\<forall>h b0 b1 bs. a_busy (dev h) = 0 \<and> a_phase (dev h) = DataIn (b0 # b1 # bs) \<longrightarrow>
        fst (p_inw io (base + DATA_PORT_OFFSET) h) = ata_word_in [b0, b1] \<and>
        dev (snd (p_inw io (base + DATA_PORT_OFFSET) h)) = (dev h)\<lparr>a_phase := (if bs = [] then Ready else DataIn bs)\<rparr>) \<and>
     (\<forall>h v bs. a_busy (dev h) = 0 \<and> a_phase (dev h) = DataOut bs \<longrightarrow>
        (\<exists>busy. dev (p_outw io (base + DATA_PORT_OFFSET) v h) = ata_word_out v busy bs (dev h)))"

definition ata_ok :: "('h \<Rightarrow> ata_dev) \<Rightarrow> 'h \<Rightarrow> bool" where
  "ata_ok dev h \<longleftrightarrow> a_busy (dev h) = 0 \<and> a_phase (dev h) = Ready \<and> (\<forall>m i. length (a_disk (dev h) m i) = 512)"

definition ata_sec :: "('h \<Rightarrow> ata_dev) \<Rightarrow> ata_driver_data_t \<Rightarrow> 'h \<Rightarrow> nat \<Rightarrow> u8 list" where
  "ata_sec dev d h = a_disk (dev h) (\<not> master d)"

section \<open>Sector numbers in the registers\<close>

lemma field_bits: "k + w \<le> 32 \<Longrightarrow> drop_bit k (s AND push_bit k (mask w)) = take_bit w (drop_bit k s)" for s :: u32
  by (rule bit_word_eqI) (auto simp: bit_simps)

lemma lba_fields:
  fixes s :: u32
  shows "s AND 0xFF = take_bit 8 s" "drop_bit 8 (s AND 0xFF00) = take_bit 8 (drop_bit 8 s)"
    "drop_bit 16 (s AND 0xFF0000) = take_bit 8 (drop_bit 16 s)" "drop_bit 24 (s AND 0x0F000000) = take_bit 4 (drop_bit 24 s)"
  using field_bits [of 0 8 s] field_bits [of 8 8 s] field_bits [of 16 8 s] field_bits [of 24 4 s]
  by (simp_all add: mask_eq_exp_minus_1 push_bit_eq_mult)

lemma high_bits: "s AND 0xF0000000 = 0" if "unat s < 2 ^ 28" for s :: u32
proof -
  have "take_bit 28 s = s" using that by (simp add: word_unat_eq_iff unsigned_take_bit_eq take_bit_nat_eq_self)
  then have "s AND 0x0FFFFFFF = s" by (simp add: take_bit_eq_mask mask_eq_exp_minus_1)
  then have "s AND 0xF0000000 = s AND (0x0FFFFFFF AND 0xF0000000)" by (metis and.assoc)
  then show ?thesis by simp
qed

lemma unat_lba_fields:
  fixes s :: u32
  shows "unat (ucast (take_bit 8 (drop_bit k s)) :: u8) = unat s div 2 ^ k mod 256"
    "unat (ucast (take_bit 4 (drop_bit k s)) :: u8) = unat s div 2 ^ k mod 16"
proof -
  have "unat (drop_bit k s) = unat s div 2 ^ k" by (simp only: unat_drop_bit_eq drop_bit_eq_div [of k "unat s"])
  then show "unat (ucast (take_bit 8 (drop_bit k s)) :: u8) = unat s div 2 ^ k mod 256"
    "unat (ucast (take_bit 4 (drop_bit k s)) :: u8) = unat s div 2 ^ k mod 16"
    by (simp_all add: unsigned_ucast_eq take_bit_eq_mod unat_mod mod_mod_cancel)
qed

lemma device_nibble:
  fixes x :: u32 and sel :: u8
  assumes "sel AND 0x0F = 0"
  shows "(sel OR ucast (take_bit 4 x)) AND 0x0F = (ucast (take_bit 4 x) :: u8)" "(sel OR ucast (take_bit 4 x)) AND 0x10 = sel AND 0x10"
proof -
  have m: "(0x0F :: u8) = mask 4" by (simp add: mask_eq_exp_minus_1)
  have f: "(ucast (take_bit 4 x) :: u8) AND 0x0F = ucast (take_bit 4 x)" unfolding m
    by (rule bit_word_eqI) (auto simp: bit_simps)
  then show "(sel OR ucast (take_bit 4 x)) AND 0x0F = (ucast (take_bit 4 x) :: u8)" using assms by (simp add: bit.conj_disj_distrib2)
  have "(ucast (take_bit 4 x) :: u8) AND 0x10 = ucast (take_bit 4 x) AND (0x0F AND 0x10)" by (simp only: and.assoc [symmetric] f)
  then show "(sel OR ucast (take_bit 4 x)) AND 0x10 = sel AND 0x10" by (simp add: bit.conj_disj_distrib2)
qed

lemma nat_bytes: "n mod 256 + 2 ^ 8 * (n div 2 ^ 8 mod 256) + 2 ^ 16 * (n div 2 ^ 16 mod 256) + 2 ^ 24 * (n div 2 ^ 24 mod 16) = n mod 2 ^ 28" for n :: nat
proof -
  have "n mod 2 ^ 28 = n mod 2 ^ 24 + 2 ^ 24 * (n div 2 ^ 24 mod 16)" using mod_mult2_eq [of n "2 ^ 24" 16] by simp
  moreover have "n mod 2 ^ 24 = n mod 2 ^ 16 + 2 ^ 16 * (n div 2 ^ 16 mod 256)" using mod_mult2_eq [of n "2 ^ 16" 256] by simp
  moreover have "n mod 2 ^ 16 = n mod 2 ^ 8 + 2 ^ 8 * (n div 2 ^ 8 mod 256)" using mod_mult2_eq [of n "2 ^ 8" 256] by simp
  ultimately show ?thesis by simp
qed

section \<open>Transfers\<close>

lemma ata_deviceD:
  assumes "ata_device io base dev"
  shows "r \<in> {1, 2, 3, 4, 5, 6} \<Longrightarrow> dev (p_outb io (base + r) v h) = ata_set_reg r v (dev h)"
    and "cmd \<in> {0x20, 0x30, 0xE7} \<Longrightarrow> \<exists>busy. dev (p_outb io (base + COMMAND_PORT_OFFSET) cmd h) = ata_start cmd busy (dev h)"
    and "dev (snd (p_inb io (base + COMMAND_PORT_OFFSET) h)) = (dev h)\<lparr>a_busy := a_busy (dev h) - 1\<rparr>"
    and "fst (p_inb io (base + COMMAND_PORT_OFFSET) h) AND 0x80 = (if a_busy (dev h) > 0 then 0x80 else 0)"
    and "fst (p_inb io (base + COMMAND_PORT_OFFSET) h) AND 0x01 = 0"
    and "a_busy (dev h) = 0 \<Longrightarrow> a_phase (dev h) = DataIn (b0 # b1 # bs) \<Longrightarrow>
      fst (p_inw io (base + DATA_PORT_OFFSET) h) = ata_word_in [b0, b1] \<and>
      dev (snd (p_inw io (base + DATA_PORT_OFFSET) h)) = (dev h)\<lparr>a_phase := (if bs = [] then Ready else DataIn bs)\<rparr>"
    and "a_busy (dev h) = 0 \<Longrightarrow> a_phase (dev h) = DataOut bs \<Longrightarrow>
      \<exists>busy. dev (p_outw io (base + DATA_PORT_OFFSET) wd h) = ata_word_out wd busy bs (dev h)"
  using assms unfolding ata_device_def by blast+

text \<open>The wait for the drive ends, with the status of a drive that is not busy.\<close>

lemma ata_wait_ends:
  assumes "ata_device io base dev" "status AND 0x80 = 0x80" "status AND 0x01 = 0" "a_busy (dev h) = k"
  shows "\<exists>s h'. ata_wait io (base + COMMAND_PORT_OFFSET) status h = Some (s, h') \<and> s AND 0x01 = 0 \<and> dev h' = (dev h)\<lparr>a_busy := 0\<rparr>"
  using assms(2-4)
proof (induction k arbitrary: status h)
  case 0
  let ?r = "p_inb io (base + COMMAND_PORT_OFFSET) h"
  have "ata_wait io (base + COMMAND_PORT_OFFSET) status h = Some ?r"
    by (subst ata_wait.simps, subst ata_wait.simps) (use 0 ata_deviceD(4,5) [OF assms(1), of h] in simp)
  then show ?case using ata_deviceD(3,5) [OF assms(1), of h] 0 by (intro exI [of _ "fst ?r"] exI [of _ "snd ?r"]) simp
next
  case (Suc k)
  let ?r = "p_inb io (base + COMMAND_PORT_OFFSET) h"
  have "ata_wait io (base + COMMAND_PORT_OFFSET) status h = ata_wait io (base + COMMAND_PORT_OFFSET) (fst ?r) (snd ?r)"
    by (subst ata_wait.simps) (use Suc.prems in simp)
  then show ?case using Suc.IH [of "fst ?r" "snd ?r"] ata_deviceD(3,4,5) [OF assms(1), of h] Suc.prems(3) by simp
qed

lemma ata_status_ends:
  assumes "ata_device io (port_base d) dev"
  obtains s h' where "ata_status io d h = Inr (s, h')" "s AND 0x01 = 0" "dev h' = (dev h)\<lparr>a_busy := 0\<rparr>"
proof -
  let ?p = "port_base d + COMMAND_PORT_OFFSET" let ?r = "p_inb io ?p h"
  have "\<exists>s h'. ata_wait io ?p (fst ?r) (snd ?r) = Some (s, h') \<and> s AND 0x01 = 0 \<and> dev h' = (dev h)\<lparr>a_busy := 0\<rparr>"
  proof (cases "a_busy (dev h)")
    case 0
    then have "ata_wait io ?p (fst ?r) (snd ?r) = Some ?r"
      by (subst ata_wait.simps) (use ata_deviceD(4) [OF assms, of h] in simp)
    then show ?thesis using ata_deviceD(3,5) [OF assms, of h] 0 by (intro exI [of _ "fst ?r"] exI [of _ "snd ?r"]) simp
  next
    case (Suc k)
    then show ?thesis using ata_wait_ends [OF assms, of "fst ?r" "snd ?r" k] ata_deviceD(3,4,5) [OF assms, of h] by simp
  qed
  then show ?thesis using that by (auto simp: ata_status_def Let_def returns_def split_beta)
qed

text \<open>After the output of \<open>ata_command\<close> the registers hold the drive and the number of the sector, and the command was started.\<close>

lemma ata_command_starts:
  assumes "ata_device io (port_base d) dev" "a_busy (dev h) = 0" "unat s < 2 ^ 28" "cmd \<in> {0x20, 0x30}"
  obtains busy D where "dev (ata_command io d s cmd h) = ata_start cmd busy D" "a_busy D = 0" "a_disk D = a_disk (dev h)"
    "ata_slave D \<longleftrightarrow> \<not> master d" "ata_lba D = unat s"
proof -
  note reg = ata_deviceD(1) [OF assms(1)]
  let ?sel = "if master d then 0xE0 else 0xF0 :: u8"
  let ?D = "(dev h)\<lparr>a_device := ?sel OR ucast (take_bit 4 (drop_bit 24 s)), a_low := ucast (take_bit 8 s),
    a_mid := ucast (take_bit 8 (drop_bit 8 s)), a_high := ucast (take_bit 8 (drop_bit 16 s))\<rparr>"
  obtain h' where h': "ata_command io d s cmd h = p_outb io (port_base d + COMMAND_PORT_OFFSET) cmd h'" "dev h' = ?D"
    unfolding ata_command_def lba_fields by (simp add: Let_def reg ata_set_reg_def assms(2))
  obtain busy where "dev (ata_command io d s cmd h) = ata_start cmd busy ?D"
    using ata_deviceD(2) [OF assms(1), of cmd h'] assms(4) h' by auto
  moreover have "?sel AND 0x0F = 0" "?sel AND 0x10 \<noteq> 0 \<longleftrightarrow> \<not> master d" by simp_all
  then have "ata_slave ?D \<longleftrightarrow> \<not> master d" "ata_lba ?D = unat s mod 2 ^ 28"
    using device_nibble [of ?sel "drop_bit 24 s"] nat_bytes [of "unat s"] unat_lba_fields [of 0 s]
    unfolding ata_slave_def ata_lba_def by (simp_all add: unat_lba_fields)
  ultimately show ?thesis using that [of busy ?D] assms(2,3) by simp
qed

lemma ata_word_bytes:
  "ucast (ata_word_in [b0, b1] AND 0xFF) = b0" "ucast (drop_bit 8 (ata_word_in [b0, b1]) AND 0xFF) = b1"
  "ucast (ucast b0 OR push_bit 8 (ucast b1) :: u16) = b0" "ucast (drop_bit 8 (ucast b0 OR push_bit 8 (ucast b1) :: u16)) = b1"
proof -
  have m: "(0xFF :: u16) = mask 8" by (simp add: mask_eq_exp_minus_1)
  show "ucast (ata_word_in [b0, b1] AND 0xFF) = b0" "ucast (drop_bit 8 (ata_word_in [b0, b1]) AND 0xFF) = b1"
    "ucast (ucast b0 OR push_bit 8 (ucast b1) :: u16) = b0" "ucast (drop_bit 8 (ucast b0 OR push_bit 8 (ucast b1) :: u16)) = b1"
    unfolding m ata_word_in_def by (rule bit_word_eqI, auto simp: bit_simps dest: bit_imp_le_length)+
qed

lemma ata_in_sector:
  assumes "ata_device io base dev" "a_busy (dev h) = 0" "a_phase (dev h) = DataIn bs" "length bs = 2 * Suc k"
  obtains h' where "ata_in io (base + DATA_PORT_OFFSET) (Suc k) h = (bs, h')" "dev h' = (dev h)\<lparr>a_phase := Ready\<rparr>"
  using assms(2-4)
proof (induction k arbitrary: bs h thesis)
  case 0
  then obtain b0 b1 where "bs = [b0, b1]" by (auto simp: length_Suc_conv numeral_2_eq_2)
  then show ?case using 0 ata_deviceD(6) [OF assms(1), of h b0 b1 "[]"] ata_word_bytes by (auto simp: split_beta Let_def)
next
  case (Suc k)
  from Suc.prems(4) obtain b0 b1 bs' where b: "bs = b0 # b1 # bs'" "length bs' = 2 * Suc k" by (auto simp: length_Suc_conv numeral_2_eq_2)
  let ?r = "p_inw io (base + DATA_PORT_OFFSET) h"
  have r: "fst ?r = ata_word_in [b0, b1]" "dev (snd ?r) = (dev h)\<lparr>a_phase := DataIn bs'\<rparr>"
    using ata_deviceD(6) [OF assms(1), of h b0 b1 bs'] Suc.prems(2,3) b by auto
  obtain h' where "ata_in io (base + DATA_PORT_OFFSET) (Suc k) (snd ?r) = (bs', h')" "dev h' = (dev h)\<lparr>a_phase := Ready\<rparr>"
    using Suc.IH [of "snd ?r" bs'] r(2) b(2) Suc.prems(2) by auto
  then show ?case using r(1) b(1) ata_word_bytes by (intro Suc.prems(1) [of h']) (simp_all add: split_beta Let_def)
qed

lemma ata_out_sector:
  assumes "ata_device io base dev" "a_busy (dev h) = 0" "a_phase (dev h) = DataOut bs" "length bs + 2 * Suc k = 512" "i + 2 * Suc k \<le> length buf"
  shows "\<exists>busy. dev (ata_out io (base + DATA_PORT_OFFSET) buf i (Suc k) h) = ata_store (bs @ take (2 * Suc k) (drop i buf)) busy (dev h)"
  using assms(2-5)
proof (induction k arbitrary: bs i h)
  case 0
  let ?v = "ucast (buf ! i) OR push_bit 8 (ucast (buf ! (i + 1))) :: u16"
  have "take 2 (drop i buf) = [buf ! i, buf ! (i + 1)]"
    using 0(4) by (simp add: Cons_nth_drop_Suc [symmetric] numeral_2_eq_2)
  then show ?case using 0 ata_deviceD(7) [OF assms(1) 0(1,2), of ?v] ata_word_bytes
    by (auto simp: ata_word_out_def Let_def numeral_2_eq_2)
next
  case (Suc k)
  let ?v = "ucast (buf ! i) OR push_bit 8 (ucast (buf ! (i + 1))) :: u16"
  let ?h = "p_outw io (base + DATA_PORT_OFFSET) ?v h" and ?bs = "bs @ [buf ! i, buf ! (i + 1)]"
  have d: "dev ?h = (dev h)\<lparr>a_phase := DataOut ?bs\<rparr>"
    using ata_deviceD(7) [OF assms(1) Suc.prems(1,2), of ?v] ata_word_bytes Suc.prems(3) by (auto simp: ata_word_out_def Let_def)
  have t: "take (2 * Suc (Suc k)) (drop i buf) = buf ! i # buf ! (i + 1) # take (2 * Suc k) (drop (i + 2) buf)"
    using Suc.prems(4) by (simp add: Cons_nth_drop_Suc [symmetric])
  have p: "a_busy (dev ?h) = 0" "a_phase (dev ?h) = DataOut ?bs" "length ?bs + 2 * Suc k = 512" "(i + 2) + 2 * Suc k \<le> length buf"
    using d Suc.prems(1,3,4) by simp_all
  obtain busy where "dev (ata_out io (base + DATA_PORT_OFFSET) buf (i + 2) (Suc k) ?h) =
      ata_store (?bs @ take (2 * Suc k) (drop (i + 2) buf)) busy (dev ?h)"
    using Suc.IH [OF p] by blast
  then have "dev (ata_out io (base + DATA_PORT_OFFSET) buf i (Suc (Suc k)) h) =
      ata_store (?bs @ take (2 * Suc k) (drop (i + 2) buf)) busy (dev ?h)" by simp
  moreover have "ata_store bs' busy (dev ?h) = ata_store bs' busy (dev h)" for bs'
    unfolding d by (simp add: ata_store_def ata_slave_def ata_lba_def)
  ultimately show ?case using t by (intro exI [of _ busy]) simp
qed

section \<open>The driver is a disk\<close>

lemma ata_read28_sector:
  assumes "ata_device io (port_base d) dev" "ata_ok dev h" "unat s < 2 ^ 28" "at + 512 \<le> length buf"
  obtains h' where "ata_driver_read28 io d s at buf h = Inr (take at buf @ ata_sec dev d h (unat s) @ drop (at + 512) buf, h')"
    "ata_ok dev h'" "a_disk (dev h') = a_disk (dev h)"
proof -
  from assms(2) have b: "a_busy (dev h) = 0" "\<And>m i. length (a_disk (dev h) m i) = 512" by (auto simp: ata_ok_def)
  obtain busy D where D: "dev (ata_command io d s 0x20 h) = ata_start 0x20 busy D" "a_busy D = 0" "a_disk D = a_disk (dev h)"
    "ata_slave D \<longleftrightarrow> \<not> master d" "ata_lba D = unat s"
    by (rule ata_command_starts [OF assms(1) b(1) assms(3), where cmd = "0x20"]) auto
  obtain st h1 where h1: "ata_status io d (ata_command io d s 0x20 h) = Inr (st, h1)" "st AND 0x01 = 0"
    "dev h1 = (dev (ata_command io d s 0x20 h))\<lparr>a_busy := 0\<rparr>"
    by (rule ata_status_ends [OF assms(1)])
  have d1: "a_busy (dev h1) = 0" "a_phase (dev h1) = DataIn (ata_sec dev d h (unat s))" "a_disk (dev h1) = a_disk (dev h)"
    using D by (simp_all add: h1(3) ata_start_def ata_sec_def)
  have "length (ata_sec dev d h (unat s)) = 2 * Suc 255" using b(2) by (simp add: ata_sec_def)
  then obtain h2 where "ata_in io (port_base d + DATA_PORT_OFFSET) (Suc 255) h1 = (ata_sec dev d h (unat s), h2)"
    "dev h2 = (dev h1)\<lparr>a_phase := Ready\<rparr>"
    using ata_in_sector [OF assms(1) d1(1,2)] by blast
  moreover have "Suc 255 = 256" by simp
  ultimately show ?thesis
    using that [of h2] h1(1,2) high_bits [OF assms(3)] assms(4) d1 b(2)
    by (simp add: ata_driver_read28_def ata_ok_def del: ata_in.simps)
qed

lemma ata_write28_sector:
  assumes "ata_device io (port_base d) dev" "ata_ok dev h" "unat s < 2 ^ 28" "at + 512 \<le> length buf"
  obtains h' where "ata_driver_write28 io d s at buf h = Inr h'" "a_phase (dev h') = Ready"
    "a_disk (dev h') = (a_disk (dev h))((\<not> master d) := (ata_sec dev d h)(unat s := take 512 (drop at buf)))"
proof -
  from assms(2) have b: "a_busy (dev h) = 0" by (auto simp: ata_ok_def)
  obtain busy D where D: "dev (ata_command io d s 0x30 h) = ata_start 0x30 busy D" "a_busy D = 0" "a_disk D = a_disk (dev h)"
    "ata_slave D \<longleftrightarrow> \<not> master d" "ata_lba D = unat s"
    by (rule ata_command_starts [OF assms(1) b(1) assms(3), where cmd = "0x30"]) auto
  obtain st h1 where h1: "ata_status io d (ata_command io d s 0x30 h) = Inr (st, h1)" "st AND 0x01 = 0"
    "dev h1 = (dev (ata_command io d s 0x30 h))\<lparr>a_busy := 0\<rparr>"
    by (rule ata_status_ends [OF assms(1)])
  have d1: "a_busy (dev h1) = 0" "a_phase (dev h1) = DataOut []" "a_disk (dev h1) = a_disk (dev h)"
    "ata_slave (dev h1) \<longleftrightarrow> \<not> master d" "ata_lba (dev h1) = unat s"
    using D by (simp_all add: h1(3) ata_start_def ata_slave_def ata_lba_def)
  obtain busy' where "dev (ata_out io (port_base d + DATA_PORT_OFFSET) buf at (Suc 255) h1) =
      ata_store ([] @ take (2 * Suc 255) (drop at buf)) busy' (dev h1)"
    using ata_out_sector [OF assms(1) d1(1,2), of 255 at buf] assms(4) by auto
  moreover have "Suc 255 = 256" by simp
  ultimately have "dev (ata_out io (port_base d + DATA_PORT_OFFSET) buf at 256 h1) = ata_store (take 512 (drop at buf)) busy' (dev h1)"
    by (simp del: ata_out.simps)
  then show ?thesis
    using that [of "ata_out io (port_base d + DATA_PORT_OFFSET) buf at 256 h1"] h1(1,2) high_bits [OF assms(3)] assms(4) d1
    by (simp add: ata_driver_write28_def ata_store_def ata_sec_def del: ata_out.simps)
qed

text \<open>Flushing waits until the drive is ready, whether or not it took the command.\<close>

lemma ata_flush_ready:
  assumes "ata_device io (port_base d) dev" "a_phase (dev h) = Ready"
  obtains h' where "ata_driver_flush io d h = Inr h'" "a_busy (dev h') = 0" "a_phase (dev h') = Ready" "a_disk (dev h') = a_disk (dev h)"
proof -
  let ?p = "port_base d + COMMAND_PORT_OFFSET"
  let ?g = "p_outb io (port_base d + DEVICE_PORT_OFFSET) (if master d then 0xE0 else 0xF0) h" let ?h = "p_outb io ?p 0xE7 ?g"
  obtain busy where "dev ?h = ata_start 0xE7 busy (ata_set_reg DEVICE_PORT_OFFSET (if master d then 0xE0 else 0xF0) (dev h))"
    using ata_deviceD(2) [OF assms(1), where cmd = "0xE7" and h = ?g] ata_deviceD(1) [OF assms(1), where r = 6 and h = h] by auto
  then have d: "a_phase (dev ?h) = Ready" "a_disk (dev ?h) = a_disk (dev h)"
    using assms(2) by (auto simp: ata_start_def ata_set_reg_def)
  show ?thesis
  proof (cases "fst (p_inb io ?p ?h) = 0")
    case True
    then have "a_busy (dev ?h) = 0" using ata_deviceD(4) [OF assms(1), of ?h] by (simp split: if_splits)
    then show ?thesis
      using that [of "snd (p_inb io ?p ?h)"] True ata_deviceD(3) [OF assms(1), of ?h] d
      by (simp add: ata_driver_flush_def Let_def split_beta)
  next
    case False
    obtain s h' where "ata_status io d ?h = Inr (s, h')" "dev h' = (dev ?h)\<lparr>a_busy := 0\<rparr>"
      by (rule ata_status_ends [OF assms(1)])
    then show ?thesis using that [of h'] False d
      by (simp add: ata_driver_flush_def ata_status_def Let_def split_beta)
  qed
qed

lemma write_sectors_0 [simp]: "write_sectors c s 0 b = c"
  by (auto simp: write_sectors_def fun_eq_iff)

lemma write_sectors_Suc: "write_sectors (c(s := take 512 b)) (Suc s) k (drop 512 b) = write_sectors c s (Suc k) b"
proof
  fix i
  consider "i < s" | "i = s" | j where "i = Suc (s + j)" using less_imp_Suc_add by (metis linorder_neqE_nat)
  then show "write_sectors (c(s := take 512 b)) (Suc s) k (drop 512 b) i = write_sectors c s (Suc k) b i"
    by cases (auto simp: write_sectors_def add.commute)
qed

lemma cut_sector: "unat sector + i < 2 ^ 28 \<Longrightarrow> unat (ucast (sector + of_nat i :: u64) :: u32) = unat sector + i"
proof -
  assume "unat sector + i < 2 ^ 28"
  then have "unat (sector + of_nat i) = unat sector + i" by (simp add: unat_word_ariths unat_of_nat take_bit_nat_eq_self)
  then show ?thesis using \<open>unat sector + i < 2 ^ 28\<close> by (simp add: unsigned_ucast_eq take_bit_nat_eq_self)
qed

lemma ata_read_loop_sectors:
  assumes "ata_device io (port_base d) dev"
  shows "ata_ok dev h \<Longrightarrow> unat sector + i + k \<le> 2 ^ 28 \<Longrightarrow> 512 * (i + k) \<le> length buf \<Longrightarrow>
    \<exists>h'. ata_read_loop io d sector i k buf h =
        Inr (take (512 * i) buf @ sectors (ata_sec dev d h) (unat sector + i) k @ drop (512 * (i + k)) buf, h') \<and>
      ata_ok dev h' \<and> a_disk (dev h') = a_disk (dev h)"
proof (induction k arbitrary: i buf h)
  case (Suc k)
  let ?s = "ucast (sector + of_nat i) :: u32" and ?S = "ata_sec dev d h (unat sector + i)"
  have s: "unat ?s = unat sector + i" using Suc.prems(2) by (intro cut_sector) simp
  obtain h1 where h1: "ata_driver_read28 io d ?s (512 * i) buf h = Inr (take (512 * i) buf @ ?S @ drop (512 * i + 512) buf, h1)"
    "ata_ok dev h1" "a_disk (dev h1) = a_disk (dev h)"
    using ata_read28_sector [OF assms Suc.prems(1), of ?s "512 * i" buf] s Suc.prems(2,3) by auto
  let ?b = "take (512 * i) buf @ ?S @ drop (512 * i + 512) buf"
  have l: "length ?S = 512" using Suc.prems(1) by (simp add: ata_ok_def ata_sec_def)
  have b: "take (512 * Suc i) ?b = take (512 * i) buf @ ?S" "drop (512 * (Suc i + k)) ?b = drop (512 * (i + Suc k)) buf"
    "512 * (Suc i + k) \<le> length ?b"
    using l Suc.prems(3) by (simp_all add: min_absorb2 add_ac)
  have e: "ata_sec dev d h1 = ata_sec dev d h" using h1(3) by (simp add: ata_sec_def)
  have "unat sector + Suc i + k \<le> 2 ^ 28" using Suc.prems(2) by simp
  from Suc.IH [OF h1(2) this b(3)] show ?case
    unfolding b(1,2) e h1(3) ata_read_loop.simps h1(1) by (simp add: sectors_Suc)
qed simp

lemma ata_write_loop_sectors:
  assumes "ata_device io (port_base d) dev"
  shows "ata_ok dev h \<Longrightarrow> unat sector + i + k \<le> 2 ^ 28 \<Longrightarrow> 512 * (i + k) \<le> length buf \<Longrightarrow>
    \<exists>h'. ata_write_loop io d sector i k buf h = Inr h' \<and> ata_ok dev h' \<and>
      a_disk (dev h') = (a_disk (dev h))((\<not> master d) := write_sectors (ata_sec dev d h) (unat sector + i) k (drop (512 * i) buf))"
proof (induction k arbitrary: i h)
  case (Suc k)
  let ?s = "ucast (sector + of_nat i) :: u32" and ?c = "ata_sec dev d h" and ?n = "unat sector + i"
  have s: "unat ?s = ?n" using Suc.prems(2) by (intro cut_sector) simp
  obtain h1 where h1: "ata_driver_write28 io d ?s (512 * i) buf h = Inr h1" "a_phase (dev h1) = Ready"
    "a_disk (dev h1) = (a_disk (dev h))((\<not> master d) := ?c(?n := take 512 (drop (512 * i) buf)))"
    using ata_write28_sector [OF assms Suc.prems(1), of ?s "512 * i" buf] s Suc.prems(2,3) by auto
  obtain h2 where h2: "ata_driver_flush io d h1 = Inr h2" "a_busy (dev h2) = 0" "a_phase (dev h2) = Ready" "a_disk (dev h2) = a_disk (dev h1)"
    by (rule ata_flush_ready [OF assms h1(2)])
  have ok: "ata_ok dev h2" using h2 h1(3) Suc.prems(1,3) by (auto simp: ata_ok_def ata_sec_def)
  have w: "write_sectors (ata_sec dev d h2) (unat sector + Suc i) k (drop (512 * Suc i) buf) = write_sectors ?c ?n (Suc k) (drop (512 * i) buf)"
    using write_sectors_Suc [of ?c ?n "drop (512 * i) buf" k] h2(4) h1(3) by (simp add: ata_sec_def add.commute)
  have "unat sector + Suc i + k \<le> 2 ^ 28" "512 * (Suc i + k) \<le> length buf" using Suc.prems(2,3) by simp_all
  from Suc.IH [OF ok this] h1(1,3) h2(1,4) show ?case unfolding w by (auto simp only: ata_write_loop.simps rbind_Inr fun_upd_upd)
qed (simp add: ata_sec_def)

text \<open>The driver on a drive that follows the standard is a disk of \<open>2 ^ 28\<close> sectors.\<close>

lemma ata_block_device:
  assumes "ata_device io (port_base d) dev"
  shows "block_device (get_ata_driver io d) (ata_ok dev) (ata_sec dev d) (2 ^ 28)"
proof
  show "(2 :: nat) ^ 28 < 2 ^ 64" by simp
  show "length (ata_sec dev d h i) = 512" if "ata_ok dev h" for h i using that by (simp add: ata_ok_def ata_sec_def)
next
  fix h and s :: u64 and c :: u32 and b :: "u8 list"
  assume a: "ata_ok dev h" "unat s + unat c \<le> 2 ^ 28" "512 * unat c \<le> length b"
  show "\<exists>h'. dd_read (get_ata_driver io d) s c b h = Inr (sectors (ata_sec dev d h) (unat s) (unat c) @ drop (512 * unat c) b, h') \<and>
      ata_ok dev h' \<and> ata_sec dev d h' = ata_sec dev d h"
    using ata_read_loop_sectors [OF assms a(1), of s 0 "unat c" b] a(2,3) by (auto simp: get_ata_driver_def ata_driver_read_def ata_sec_def)
  show "\<exists>h'. dd_write (get_ata_driver io d) s c b h = Inr h' \<and> ata_ok dev h' \<and>
      ata_sec dev d h' = write_sectors (ata_sec dev d h) (unat s) (unat c) b"
    using ata_write_loop_sectors [OF assms a(1), of s 0 "unat c" b] a(2,3) by (auto simp: get_ata_driver_def ata_driver_write_def ata_sec_def)
qed

text \<open>
  C20. Sectors on an ATA drive. On drives that follow the standard, for any number of times they report to be busy, the driver writes the
  buffer to sectors below \<open>2 ^ 28\<close>, every wait ends, and reading them gives the buffer back; the rest of the buffer that is read into,
  all other sectors and the other drive of the channel keep their contents.
\<close>

theorem ata_write_read:
  assumes "ata_device io (port_base d) dev" "ata_ok dev h" "unat s + unat c \<le> 2 ^ 28" "length b = 512 * unat c" "512 * unat c \<le> length b'"
  shows "\<exists>h1 h2. ata_driver_write io d s c b h = Inr h1 \<and> ata_driver_read io d s c b' h1 = Inr (b @ drop (512 * unat c) b', h2) \<and>
    ata_ok dev h2 \<and> (\<forall>i. i < unat s \<or> unat s + unat c \<le> i \<longrightarrow> ata_sec dev d h2 i = ata_sec dev d h i) \<and>
    a_disk (dev h2) (master d) = a_disk (dev h) (master d)"
proof -
  obtain h1 where h1: "ata_write_loop io d s 0 (unat c) b h = Inr h1" "ata_ok dev h1"
    "a_disk (dev h1) = (a_disk (dev h))((\<not> master d) := write_sectors (ata_sec dev d h) (unat s) (unat c) b)"
    using ata_write_loop_sectors [OF assms(1,2), of s 0 "unat c" b] assms(3,4) by auto
  obtain h2 where h2: "ata_read_loop io d s 0 (unat c) b' h1 = Inr (sectors (ata_sec dev d h1) (unat s) (unat c) @ drop (512 * unat c) b', h2)"
    "ata_ok dev h2" "a_disk (dev h2) = a_disk (dev h1)"
    using ata_read_loop_sectors [OF assms(1) h1(2), of s 0 "unat c" b'] assms(3,5) by auto
  have "sectors (ata_sec dev d h1) (unat s) (unat c) = take (512 * unat c) b"
    by (rule sectors_write) (simp_all add: assms(4) ata_sec_def h1(3) write_sectors_def)
  then show ?thesis using h1 h2 assms(4)
    by (auto simp: ata_driver_write_def ata_driver_read_def ata_sec_def write_sectors_def)
qed

text \<open>A channel at the first port base that does exactly what the standard says, busy three times after a command and twice after a sector.\<close>

definition pio :: "ata_dev ports" where
  "pio = \<lparr>p_inb = \<lambda>p D. if p = 0x1F7 then (if a_busy D > 0 then 0x80 else 0x50, D\<lparr>a_busy := a_busy D - 1\<rparr>) else (0xFF, D),
     p_inw = \<lambda>p D. case a_phase D of
         DataIn (b0 # b1 # bs) \<Rightarrow> (ata_word_in [b0, b1], D\<lparr>a_phase := (if bs = [] then Ready else DataIn bs)\<rparr>)
       | _ \<Rightarrow> (0, D),
     p_outb = \<lambda>p v D. if p = 0x1F7 then ata_start v 3 D else ata_set_reg (p - 0x1F0) v D,
     p_outw = \<lambda>p v D. case a_phase D of DataOut bs \<Rightarrow> ata_word_out v 2 bs D | _ \<Rightarrow> D\<rparr>"

definition blank_drives :: ata_dev where
  "blank_drives = \<lparr>a_device = 0, a_low = 0, a_mid = 0, a_high = 0, a_busy = 0, a_phase = Ready, a_disk = (\<lambda>_ _. replicate 512 0)\<rparr>"

abbreviation ata0_master :: ata_driver_data_t where
  "ata0_master \<equiv> ata_pci_found ! 0"

lemma pio_device: "ata_device pio (port_base ata0_master) (\<lambda>D. D)"
  unfolding ata_device_def pio_def ata_pci_found_def by auto

lemma blank_drives_ok: "ata_ok (\<lambda>D. D) blank_drives"
  by (simp add: ata_ok_def blank_drives_def)

interpretation ata0: block_device "get_ata_driver pio ata0_master" "ata_ok (\<lambda>D. D)" "ata_sec (\<lambda>D. D) ata0_master" "2 ^ 28"
  by (rule ata_block_device [OF pio_device])

interpretation ata0_part: partition "get_ata_driver pio ata0_master" "ata_ok (\<lambda>D. D)" "ata_sec (\<lambda>D. D) ata0_master" "2 ^ 28" 2048
  by unfold_locales simp

theorem ata_write_read_witness:
  "\<exists>h1 h2. ata_driver_write pio ata0_master 5 2 (replicate 1024 7) blank_drives = Inr h1 \<and>
     ata_driver_read pio ata0_master 5 2 (replicate 1025 9) h1 = Inr (replicate 1024 7 @ [9], h2) \<and> a_busy h2 = 0 \<and>
     a_disk h2 False 4 = replicate 512 0 \<and> a_disk h2 True 5 = replicate 512 0"
proof -
  have "length (replicate 1024 (7 :: u8)) = 512 * unat (2 :: u32)" "512 * unat (2 :: u32) \<le> length (replicate 1025 (9 :: u8))"
    "unat (5 :: u64) + unat (2 :: u32) \<le> 2 ^ 28" by simp_all
  from ata_write_read [OF pio_device blank_drives_ok this(3,1,2)]
  obtain h1 h2 where h: "ata_driver_write pio ata0_master 5 2 (replicate 1024 7) blank_drives = Inr h1"
    "ata_driver_read pio ata0_master 5 2 (replicate 1025 9) h1 = Inr (replicate 1024 7 @ drop (512 * unat (2 :: u32)) (replicate 1025 9), h2)"
    "ata_ok (\<lambda>D. D) h2" "\<forall>i. i < unat (5 :: u64) \<or> unat (5 :: u64) + unat (2 :: u32) \<le> i \<longrightarrow> ata_sec (\<lambda>D. D) ata0_master h2 i = ata_sec (\<lambda>D. D) ata0_master blank_drives i"
    "a_disk h2 (master ata0_master) = a_disk blank_drives (master ata0_master)"
    by blast
  moreover have "drop (512 * unat (2 :: u32)) (replicate 1025 (9 :: u8)) = [9]" by simp
  moreover have "ata_sec (\<lambda>D. D) ata0_master h2 4 = ata_sec (\<lambda>D. D) ata0_master blank_drives 4" using h(4) by simp
  ultimately show ?thesis
    by (intro exI [of _ h1] exI [of _ h2]) (simp add: ata_ok_def ata_sec_def ata_pci_found_def blank_drives_def)
qed

section \<open>Partitions of a drive\<close>

context partition
begin

lemma read_virtual:
  assumes "ok h" "unat lba_offset + unat s + unat c \<le> n" "512 * unat c \<le> length b"
  shows "\<exists>h'. dd_read (get_virtual_disk_driver drv lba_offset) s c b h =
    Inr (sectors (sec h) (unat lba_offset + unat s) (unat c) @ drop (512 * unat c) b, h')"
proof -
  have "unat s + unat c \<le> n - unat lba_offset" using assms(2) by simp
  from virt.rd_law [OF assms(1) this assms(3)] show ?thesis unfolding sectors_shift by auto
qed

end

text \<open>
  C29. The partitions of an ATA drive. When the second sector has the header of a partition table with entries of the standard size,
  initialising the driver registers one disk for each entry in use, in their order, and then the drive itself, without changing the drive; a read from the disk
  of a partition through the registry gives the sectors of the drive from the first sector of that partition on.
\<close>

theorem ata_init_partitions:
  assumes dev: "ata_device io (port_base d) dev" "ata_ok dev h"
    and S: "S = ata_sec dev d h" "take 8 (S 1) = EFI_PART" "gpt_entries_size (S 1) = 128"
    and k: "k = unat (gpt_entries_count (S 1))" "128 * k < 2 ^ 32" "lba = unat (gpt_entries_lba (S 1))" "lba + k div 4 + 1 \<le> 2 ^ 28"
    and e: "entries = sectors S lba (k div 4 + 1)"
  shows "\<exists>ds' h'. ata_driver_init junk io d ds h = Inr (ds', h') \<and> ata_ok dev h' \<and> ata_sec dev d h' = S \<and>
    ds' = ds @ gpt_disks (get_ata_driver io d) entries k @ [get_ata_driver io d] \<and>
    (\<forall>j < length (gpt_used entries k). \<forall>s c b. let first = unat (gpt_first_lba entries (gpt_used entries k ! j)) in
       first + unat s + unat c \<le> 2 ^ 28 \<longrightarrow> 512 * unat c \<le> length b \<longrightarrow>
       (\<exists>h''. read_disk ds' (int (length ds + j)) s c b h' = Inr (sectors S (first + unat s) (unat c) @ drop (512 * unat c) b, h'')))"
proof -
  let ?drv = "get_ata_driver io d"
  note blk = ata_block_device [OF dev(1)]
  obtain h' where g: "read_gpt junk ?drv ds h = Inr (True, ds @ gpt_disks ?drv entries k, h')" and h': "ata_ok dev h'" "ata_sec dev d h' = S"
    using block_device.read_gpt_found [OF blk dev(2) _ _ _ k(1) [unfolded S(1)] k(2) k(3) [unfolded S(1)] k(4) e [unfolded S(1)]] S by auto
  let ?ds = "ds @ gpt_disks ?drv entries k @ [?drv]"
  have i: "ata_driver_init junk io d ds h = Inr (?ds, h')" by (simp add: ata_driver_init_def g register_disk_def)
  have r: "\<exists>h''. read_disk ?ds (int (length ds + j)) s c b h' = Inr (sectors S (first + unat s) (unat c) @ drop (512 * unat c) b, h'')"
    if j: "j < length (gpt_used entries k)" "first = unat (gpt_first_lba entries (gpt_used entries k ! j))"
      and l: "first + unat s + unat c \<le> 2 ^ 28" "512 * unat c \<le> length b" for j first b and s :: u64 and c :: u32
  proof -
    let ?off = "gpt_first_lba entries (gpt_used entries k ! j)"
    have "partition ?drv (ata_ok dev) (ata_sec dev d) (2 ^ 28) ?off"
      using blk l(1) j(2) by (simp add: partition_def partition_axioms_def)
    from partition.read_virtual [OF this h'(1) _ l(2), of s] l(1) j(2) h'(2)
    have "\<exists>h''. dd_read (get_virtual_disk_driver ?drv ?off) s c b h' = Inr (sectors S (first + unat s) (unat c) @ drop (512 * unat c) b, h'')"
      by simp
    moreover have "the_disk (int (length ds + j)) ?ds = Inr (get_virtual_disk_driver ?drv ?off)"
      using j(1) by (simp add: the_disk_def nth_append gpt_disks_def nat_add_distrib)
    ultimately show ?thesis by (simp add: read_disk_def)
  qed
  show ?thesis unfolding Let_def
    by (rule exI [of _ ?ds], rule exI [of _ h'], intro conjI allI impI i h' refl r) simp_all
qed

text \<open>A drive with a table of four entries, of which the first and the third are used.\<close>

definition demo_header :: "u8 list" where
  "demo_header = EFI_PART @ replicate 64 0 @ [2, 0, 0, 0, 0, 0, 0, 0] @ [4, 0, 0, 0] @ [128, 0, 0, 0] @ replicate 424 0"

definition demo_entry :: "u8 \<Rightarrow> u8 \<Rightarrow> u8 list" where
  "demo_entry t first = [t, 0, 0, 0] @ replicate 28 0 @ [0, first, 0, 0, 0, 0, 0, 0] @ replicate 88 0"

definition demo_drives :: ata_dev where
  "demo_drives = blank_drives\<lparr>a_disk := \<lambda>m i. if m then replicate 512 0 else if i = 1 then demo_header
     else if i = 2 then demo_entry 1 8 @ demo_entry 0 0 @ demo_entry 2 16 @ demo_entry 0 0
     else if i = 2048 then replicate 512 3 else replicate 512 0\<rparr>"

lemma demo_drives_ok: "ata_ok (\<lambda>D. D) demo_drives"
  by (simp add: ata_ok_def demo_drives_def blank_drives_def demo_header_def demo_entry_def)

lemma demo_table:
  defines "S \<equiv> ata_sec (\<lambda>D. D) ata0_master demo_drives"
  shows "S 1 = demo_header" "sectors S 2 2 = demo_entry 1 8 @ demo_entry 0 0 @ demo_entry 2 16 @ demo_entry 0 0 @ replicate 512 0"
    "sectors S 2048 1 = replicate 512 3"
  by (simp_all add: S_def ata_sec_def demo_drives_def ata_pci_found_def numeral_2_eq_2 sectors_Suc)

lemma demo_fields:
  "take 8 demo_header = EFI_PART" "gpt_entries_size demo_header = 128" "unat (gpt_entries_count demo_header) = 4"
  "unat (gpt_entries_lba demo_header) = 2"
  by code_simp+

lemma demo_used:
  defines "e \<equiv> demo_entry 1 8 @ demo_entry 0 0 @ demo_entry 2 16 @ demo_entry 0 0 @ replicate 512 0"
  shows "gpt_used e 4 = [0, 2]" "unat (gpt_first_lba e 0) = 2048"
  unfolding e_def by code_simp+

theorem ata_init_partitions_witness:
  "\<exists>ds' h' h''. ata_driver_init (\<lambda>_ _. 0) pio ata0_master [] demo_drives = Inr (ds', h') \<and> length ds' = 3 \<and>
     read_disk ds' 0 0 1 (replicate 512 9) h' = Inr (replicate 512 3, h'')"
proof -
  let ?S = "ata_sec (\<lambda>D. D) ata0_master demo_drives" and ?e = "demo_entry 1 8 @ demo_entry 0 0 @ demo_entry 2 16 @ demo_entry 0 0 @ replicate 512 0"
  have "4 div 4 + 1 = (2 :: nat)" by simp
  with demo_table(2) have e: "?e = sectors ?S 2 (4 div 4 + 1)" by (simp only:)
  have s: "take 8 (?S 1) = EFI_PART" "gpt_entries_size (?S 1) = 128" "4 = unat (gpt_entries_count (?S 1))" "2 = unat (gpt_entries_lba (?S 1))"
    unfolding demo_table(1) demo_fields by simp_all
  obtain ds' h' where i: "ata_driver_init (\<lambda>_ _. 0) pio ata0_master [] demo_drives = Inr (ds', h')"
      "ds' = [] @ gpt_disks (get_ata_driver pio ata0_master) ?e 4 @ [get_ata_driver pio ata0_master]"
    and r: "\<forall>j < length (gpt_used ?e 4). \<forall>s c b. let first = unat (gpt_first_lba ?e (gpt_used ?e 4 ! j)) in
       first + unat s + unat c \<le> 2 ^ 28 \<longrightarrow> 512 * unat c \<le> length b \<longrightarrow>
       (\<exists>h''. read_disk ds' (int (length ([] :: ata_dev disk_driver_t list) + j)) s c b h' = Inr (sectors ?S (first + unat s) (unat c) @ drop (512 * unat c) b, h''))"
    using ata_init_partitions [OF pio_device demo_drives_ok refl s(1,2,3) _ s(4) _ e, of "\<lambda>_ _. 0" "[]"] by auto
  have "\<exists>h''. read_disk ds' 0 0 1 (replicate 512 9) h' = Inr (replicate 512 3, h'')"
    using r [rule_format, of 0 0 1 "replicate 512 9"] demo_used demo_table(3) by (simp add: Let_def)
  moreover have "length ds' = 3" using i(2) demo_used by (simp add: gpt_disks_def)
  ultimately show ?thesis using i(1) by blast
qed

end
