(* ===== verification/Nextfs.thy ===== *)
theory Nextfs
  imports Vfs Ata
begin

text \<open>
  The read-only file system of \<open>mckrnl/fs/nextfs.c\<close>: a header in sector 17 of a disk and up to 100 file headers in the four sectors
  behind it, each with the name, the first sector and the number of further sectors of a file. Opening a file reads all of it into
  a buffer. The state holds the registered disks, the hardware, and the buffers of the open files.
\<close>

section \<open>Definitions\<close>

record 'h nextfs_world =
  nw_disks :: "'h disk_driver_t list"
  nw_dev :: 'h
  nw_bufs :: "nat \<Rightarrow> u8 list option"
  nw_next :: nat

text \<open>A read from a disk into a buffer.\<close>

definition nw_read :: "int \<Rightarrow> u64 \<Rightarrow> u32 \<Rightarrow> u8 list \<Rightarrow> 'h nextfs_world \<Rightarrow> (u8 list \<times> 'h nextfs_world) res" where
  "nw_read disk_id sector count buf w =
     rbind (read_disk (nw_disks w) disk_id sector count buf (nw_dev w)) (\<lambda>(b, h). Inr (b, w\<lparr>nw_dev := h\<rparr>))"

text \<open>
  \<open>nextfs_mount_data_t\<close> and the rest of its page, as bytes: the header (512), the file headers (2000), the number of the disk, and zeros. The
  four sectors are read over the number of the disk, which is set afterwards.
\<close>

abbreviation NEXTFS_PAGE :: nat where "NEXTFS_PAGE \<equiv> 4048"

definition nextfs_data :: "nat \<Rightarrow> u8 list \<Rightarrow> u8 list \<Rightarrow> u8 list" where
  "nextfs_data disk_id header files =
     header @ take 2000 files @ put32 (of_nat disk_id) @ drop 2004 files @ replicate 1488 0"

definition nextfs_magic :: "u8 list \<Rightarrow> u16" where
  "nextfs_magic data = get16 data 0"

definition file_header_index :: "u8 list \<Rightarrow> nat" where
  "file_header_index data = unat (get16 data 20)"

text \<open>A string in the page: it ends at the latest with the zeros at the end of the page.\<close>

definition string_at :: "nat \<Rightarrow> u8 list \<Rightarrow> u8 list" where
  "string_at a data = takeWhile (\<lambda>c. c \<noteq> 0) (drop a data)"

definition nextfs_name :: "u8 list \<Rightarrow> u8 list" where
  "nextfs_name data = string_at 2 data"

definition file_header :: "nat \<Rightarrow> nat" where
  "file_header i = 512 + 20 * i"

definition start_sector :: "u8 list \<Rightarrow> nat \<Rightarrow> u16" where
  "start_sector data i = get16 data (file_header i + 16)"

definition file_length :: "u8 list \<Rightarrow> nat \<Rightarrow> u16" where
  "file_length data i = get16 data (file_header i + 18)"

text \<open>The last component of a path, through a buffer of 255 bytes.\<close>

function last_component :: "u8 list \<Rightarrow> u8 list res" where
  "last_component path =
     (if length (fst (cut_until SLASH path)) \<ge> 255 then Inl OutOfBounds
      else if snd (cut_until SLASH path) = [] then Inr (fst (cut_until SLASH path))
      else last_component (snd (cut_until SLASH path)))"
  by auto
termination last_component
proof (relation "measure length", simp)
  fix path :: "u8 list"
  assume "snd (cut_until SLASH path) \<noteq> []"
  then have "path \<noteq> []" by (auto simp: cut_until_def)
  then show "(snd (cut_until SLASH path), path) \<in> measure length" by (simp add: cut_until_shorter)
qed

declare last_component.simps [simp del]

text \<open>The loop over the file headers; past the page they are in other memory.\<close>

primrec nextfs_find :: "u8 list \<Rightarrow> u8 list \<Rightarrow> nat \<Rightarrow> nat \<Rightarrow> nat option res" where
  "nextfs_find data name i 0 = Inr None"
| "nextfs_find data name i (Suc n) =
     (if NEXTFS_PAGE < file_header i + 20 then Inl OutOfBounds
      else if string_at (file_header i) data = name then Inr (Some i)
      else nextfs_find data name (Suc i) n)"

definition nextfs_open ::
  "(nat \<Rightarrow> nat \<Rightarrow> u8) \<Rightarrow> nat \<Rightarrow> u8 list \<Rightarrow> nat \<Rightarrow> u8 list \<Rightarrow> 'h nextfs_world \<Rightarrow> (file_t option \<times> 'h nextfs_world) res" where
  "nextfs_open junk disk_id data mount path w =
     rbind (last_component path) (\<lambda>name.
     rbind (nextfs_find data name 1 (file_header_index data - 1)) (\<lambda>r. case r of
         None \<Rightarrow> Inr (None, w)
       | Some i \<Rightarrow>
           let len = unat (file_length data i) + 1; pages = (512 * len + 0xFFF) div 0x1000; a = nw_next w in
           rbind (nw_read (int disk_id) (ucast (start_sector data i)) (of_nat len) (fresh junk a (4096 * pages)) w) (\<lambda>(b, w1).
           Inr (Some \<lparr>f_mount = mount, f_mode = 0, f_node = a, f_size = of_nat (512 * len)\<rparr>,
                w1\<lparr>nw_bufs := (nw_bufs w1)(a \<mapsto> b), nw_next := Suc a\<rparr>))))"

definition nextfs_close :: "file_t \<Rightarrow> 'h nextfs_world \<Rightarrow> 'h nextfs_world res" where
  "nextfs_close f w = Inr (w\<lparr>nw_bufs := (nw_bufs w)(f_node f := None)\<rparr>)"

text \<open>Reading copies from the buffer without looking at the size of the file; behind the buffer is other memory.\<close>

definition nextfs_read :: "nat \<Rightarrow> u32 \<Rightarrow> u32 \<Rightarrow> 'h nextfs_world \<Rightarrow> u8 list res" where
  "nextfs_read a sz offset w = (case nw_bufs w a of
       None \<Rightarrow> Inl OutOfBounds
     | Some b \<Rightarrow> if length b < unat offset + unat sz then Inl OutOfBounds else Inr (take (unat sz) (drop (unat offset) b)))"

text \<open>
  \<open>nextfs_dir_at\<close>. The name is copied with \<open>strcpy\<close>, which copies a first zero and what follows it, into 256 bytes of zeros. An index below zero gives bytes in
  front of the first file header.
\<close>

definition nextfs_dir_at :: "u8 list \<Rightarrow> int \<Rightarrow> dir_t res" where
  "nextfs_dir_at data idx =
     (if idx + 1 \<ge> int (file_header_index data) then Inr no_dir
      else let a = 512 + 20 * (idx + 1) in
        if a < 0 \<or> int NEXTFS_PAGE \<le> a then Inl OutOfBounds
        else if 256 \<le> length (string_at (nat a + 1) data) then Inl OutOfBounds
        else Inr \<lparr>d_name = string_at (nat a) data, d_idx = idx, d_is_none = False, d_is_dir = False\<rparr>)"

definition nextfs_fns :: "(nat \<Rightarrow> nat \<Rightarrow> u8) \<Rightarrow> nat \<Rightarrow> u8 list \<Rightarrow> 'h nextfs_world vfs_mount_t" where
  "nextfs_fns junk disk_id data =
     \<lparr>m_open = Some (nextfs_open junk disk_id data),
      m_close = Some (\<lambda>j. nextfs_close),
      m_read = Some (\<lambda>j f. nextfs_read (f_node f)),
      m_write = None, m_delete = None, m_mkdir = None, m_touch = None,
      m_dir_at = Some (\<lambda>j idx path w. nextfs_dir_at data idx),
      m_delete_dir = None, m_truncate = None,
      m_name = nextfs_name data\<rparr>"

text \<open>The loop that reads the file headers, sector by sector.\<close>

primrec read_file_headers :: "nat \<Rightarrow> nat \<Rightarrow> nat \<Rightarrow> 'h nextfs_world \<Rightarrow> (u8 list \<times> 'h nextfs_world) res" where
  "read_file_headers disk_id i 0 w = Inr ([], w)"
| "read_file_headers disk_id i (Suc n) w =
     rbind (nw_read (int disk_id) (18 + of_nat i) 1 (replicate 512 0) w) (\<lambda>(b, w1).
     rbind (read_file_headers disk_id (Suc i) n w1) (\<lambda>(bs, w2). Inr (b @ bs, w2)))"

definition nextfs_mount :: "(nat \<Rightarrow> nat \<Rightarrow> u8) \<Rightarrow> nat \<Rightarrow> 'h nextfs_world \<Rightarrow> ('h nextfs_world vfs_mount_t \<times> 'h nextfs_world) res" where
  "nextfs_mount junk disk_id w =
     rbind (nw_read (int disk_id) 17 1 (replicate 512 0) w) (\<lambda>(header, w1).
     rbind (read_file_headers disk_id 0 4 w1) (\<lambda>(files, w2).
     Inr (nextfs_fns junk disk_id (nextfs_data disk_id header files), w2)))"

definition nextfs_scanner ::
  "(nat \<Rightarrow> nat \<Rightarrow> u8) \<Rightarrow> nat \<Rightarrow> 'h nextfs_world \<Rightarrow> ('h nextfs_world vfs_mount_t option \<times> 'h nextfs_world) res" where
  "nextfs_scanner junk disk_id w =
     rbind (nw_read (int disk_id) 17 1 (fresh junk 0 512) w) (\<lambda>(header, w1).
     if nextfs_magic header = 0xF0F0 then rbind (nextfs_mount junk disk_id w1) (\<lambda>(m, w2). Inr (Some m, w2))
     else Inr (None, w1))"

section \<open>Contents of open files\<close>

interpretation nextfs_files: read_store "\<lambda>a w. nw_bufs w a" nextfs_read
  by unfold_locales (simp add: nextfs_read_def)

section \<open>What a disk holds\<close>

text \<open>The file with a number: its name, where it starts and how many sectors it has, in the sectors \<open>F\<close> of the file headers.\<close>

definition nf_name :: "u8 list \<Rightarrow> nat \<Rightarrow> u8 list" where
  "nf_name F i = takeWhile (\<lambda>c. c \<noteq> 0) (take 16 (drop (20 * i) F))"

definition nf_start :: "u8 list \<Rightarrow> nat \<Rightarrow> nat" where
  "nf_start F i = unat (get16 F (20 * i + 16))"

definition nf_sectors :: "u8 list \<Rightarrow> nat \<Rightarrow> nat" where
  "nf_sectors F i = unat (get16 F (20 * i + 18)) + 1"

text \<open>A name with its terminating zero, in its field.\<close>

definition nf_named :: "u8 list \<Rightarrow> nat \<Rightarrow> bool" where
  "nf_named F i \<longleftrightarrow> 0 \<in> set (take 16 (drop (20 * i) F))"

lemma length_nextfs_data: "length H = 512 \<Longrightarrow> length F = 2048 \<Longrightarrow> length (nextfs_data d H F) = NEXTFS_PAGE"
  by (simp add: nextfs_data_def)

lemma nextfs_data_nth:
  "length H = 512 \<Longrightarrow> x < 512 \<Longrightarrow> nextfs_data d H F ! x = H ! x"
  "length H = 512 \<Longrightarrow> length F = 2048 \<Longrightarrow> x < 2000 \<Longrightarrow> nextfs_data d H F ! (512 + x) = F ! x"
  by (simp_all add: nextfs_data_def nth_append)

lemma file_header_index_data: "length H = 512 \<Longrightarrow> file_header_index (nextfs_data d H F) = file_header_index H"
  by (simp add: file_header_index_def get16_def nextfs_data_nth(1))

lemma nextfs_fields:
  assumes "length H = 512" "length F = 2048" "i < 100"
  shows "unat (start_sector (nextfs_data d H F) i) = nf_start F i" "unat (file_length (nextfs_data d H F) i) + 1 = nf_sectors F i"
proof -
  have "nextfs_data d H F ! (512 + 20 * i + x) = F ! (20 * i + x)" if "x < 20" for x
    using nextfs_data_nth(2) [OF assms(1,2), of "20 * i + x" d] that assms(3) by (simp add: add.assoc)
  from this [of 16] this [of 17] this [of 18] this [of 19]
  show "unat (start_sector (nextfs_data d H F) i) = nf_start F i" "unat (file_length (nextfs_data d H F) i) + 1 = nf_sectors F i"
    by (simp_all add: start_sector_def file_length_def nf_start_def nf_sectors_def get16_def file_header_def add.commute)
qed

lemma nextfs_string:
  assumes "length H = 512" "length F = 2048" "i < 100" "nf_named F i"
  shows "string_at (file_header i) (nextfs_data d H F) = nf_name F i"
proof -
  let ?a = "take 16 (drop (20 * i) F)"
  have "drop (20 * i) (take 2000 F) = take (2000 - 20 * i) (drop (20 * i) F)" by (simp add: drop_take)
  also have "\<dots> = ?a @ drop 16 (take (2000 - 20 * i) (drop (20 * i) F))"
    using assms(3) append_take_drop_id [of 16 "take (2000 - 20 * i) (drop (20 * i) F)"] by (simp add: min_absorb1)
  finally obtain r where "drop (20 * i) (take 2000 F) = ?a @ r" by blast
  then have "drop (file_header i) (nextfs_data d H F) = ?a @ r @ put32 (of_nat d) @ drop 2004 F @ replicate 1488 0"
    using assms(1-3) by (simp add: nextfs_data_def file_header_def)
  then show ?thesis using assms(4) takeWhile_append1 [of 0 ?a "\<lambda>c. c \<noteq> 0"]
    by (simp add: string_at_def nf_name_def nf_named_def)
qed

lemma nextfs_find_first:
  assumes "length H = 512" "length F = 2048" "\<forall>j. i0 \<le> j \<and> j < i0 + n \<longrightarrow> j < 100 \<and> nf_named F j"
    "i0 \<le> i" "i < i0 + n" "nf_name F i = name" "\<forall>j. i0 \<le> j \<and> j < i \<longrightarrow> nf_name F j \<noteq> name"
  shows "nextfs_find (nextfs_data d H F) name i0 n = Inr (Some i)"
  using assms(3-)
proof (induction n arbitrary: i0)
  case (Suc n)
  have "i0 < 100" "nf_named F i0" using Suc.prems(1) by auto
  note s = nextfs_string [OF assms(1,2) this, of d]
  show ?case
  proof (cases "i = i0")
    case True
    then show ?thesis using s Suc.prems(4) \<open>i0 < 100\<close> by (simp add: file_header_def)
  next
    case False
    then have "nextfs_find (nextfs_data d H F) name (Suc i0) n = Inr (Some i)" using Suc.prems by (intro Suc.IH) auto
    then show ?thesis using s Suc.prems(2,5) False \<open>i0 < 100\<close> by (simp add: file_header_def)
  qed
qed simp

lemma nextfs_find_none:
  assumes "length H = 512" "length F = 2048" "\<forall>j. i0 \<le> j \<and> j < i0 + n \<longrightarrow> j < 100 \<and> nf_named F j \<and> nf_name F j \<noteq> name"
  shows "nextfs_find (nextfs_data d H F) name i0 n = Inr None"
  using assms(3)
proof (induction n arbitrary: i0)
  case (Suc n)
  have "i0 < 100" "nf_named F i0" "nf_name F i0 \<noteq> name" using Suc.prems by auto
  moreover have "nextfs_find (nextfs_data d H F) name (Suc i0) n = Inr None" using Suc.prems by (intro Suc.IH) auto
  ultimately show ?case using nextfs_string [OF assms(1,2), of i0 d] by (simp add: file_header_def)
qed simp

section \<open>Mounting\<close>

context block_device
begin

lemma nw_read_sectors:
  assumes "d < length (nw_disks w)" "nw_disks w ! d = drv" "ok (nw_dev w)" "unat s + unat c \<le> n" "512 * unat c \<le> length b"
  obtains h where "nw_read (int d) s c b w = Inr (sectors (sec (nw_dev w)) (unat s) (unat c) @ drop (512 * unat c) b, w\<lparr>nw_dev := h\<rparr>)"
    "ok h" "sec h = sec (nw_dev w)"
  using rd_law [OF assms(3-5)] assms(1,2) by (auto simp: nw_read_def read_disk_def the_disk_def)

lemma read_file_headers_sectors:
  assumes "d < length (nw_disks w)" "nw_disks w ! d = drv" "ok (nw_dev w)" "18 + i + k \<le> n" "i + k < 100"
  shows "\<exists>h. read_file_headers d i k w = Inr (sectors (sec (nw_dev w)) (18 + i) k, w\<lparr>nw_dev := h\<rparr>) \<and> ok h \<and> sec h = sec (nw_dev w)"
  using assms
proof (induction k arbitrary: i w)
  case 0
  then show ?case by (intro exI [of _ "nw_dev w"]) simp
next
  case (Suc k)
  have s: "unat (18 + of_nat i :: u64) = 18 + i" using Suc.prems(5) by (simp add: unat_word_ariths unat_of_nat take_bit_nat_eq_self)
  obtain h where h: "nw_read (int d) (18 + of_nat i) 1 (replicate 512 0) w = Inr (sec (nw_dev w) (18 + i), w\<lparr>nw_dev := h\<rparr>)"
    "ok h" "sec h = sec (nw_dev w)"
    using nw_read_sectors [OF Suc.prems(1-3), of "18 + of_nat i" 1 "replicate 512 0"] Suc.prems(4) s by auto
  obtain h' where "read_file_headers d (Suc i) k (w\<lparr>nw_dev := h\<rparr>) = Inr (sectors (sec (nw_dev w)) (18 + Suc i) k, w\<lparr>nw_dev := h'\<rparr>)"
    "ok h'" "sec h' = sec (nw_dev w)"
    using Suc.IH [of "w\<lparr>nw_dev := h\<rparr>" "Suc i"] Suc.prems h(2,3) by auto
  then show ?case using h(1) by (intro exI [of _ h']) (simp add: sectors_Suc)
qed

lemma nextfs_scanned:
  assumes "d < length (nw_disks w)" "nw_disks w ! d = drv" "ok (nw_dev w)" "22 \<le> n" "nextfs_magic (sec (nw_dev w) 17) = 0xF0F0"
  obtains h where "nextfs_scanner junk d w =
      Inr (Some (nextfs_fns junk d (nextfs_data d (sec (nw_dev w) 17) (sectors (sec (nw_dev w)) 18 4))), w\<lparr>nw_dev := h\<rparr>)"
    "ok h" "sec h = sec (nw_dev w)"
proof -
  have r: "\<exists>h. nw_read (int d) 17 1 b w' = Inr (sec (nw_dev w) 17, w\<lparr>nw_dev := h\<rparr>) \<and> ok h \<and> sec h = sec (nw_dev w)"
    if "length b = 512" "w' = w\<lparr>nw_dev := h'\<rparr>" "ok h'" "sec h' = sec (nw_dev w)" for b w' h'
    using nw_read_sectors [of d w' 17 1 b] that assms by auto
  obtain h1 where h1: "nw_read (int d) 17 1 (fresh junk 0 512) w = Inr (sec (nw_dev w) 17, w\<lparr>nw_dev := h1\<rparr>)" "ok h1" "sec h1 = sec (nw_dev w)"
    using r [of "fresh junk 0 512" w "nw_dev w"] assms(3) by auto
  obtain h2 where h2: "nw_read (int d) 17 1 (replicate 512 0) (w\<lparr>nw_dev := h1\<rparr>) = Inr (sec (nw_dev w) 17, w\<lparr>nw_dev := h2\<rparr>)" "ok h2" "sec h2 = sec (nw_dev w)"
    using r [of "replicate 512 0" "w\<lparr>nw_dev := h1\<rparr>" h1] h1(2,3) by auto
  obtain h3 where "read_file_headers d 0 4 (w\<lparr>nw_dev := h2\<rparr>) = Inr (sectors (sec (nw_dev w)) 18 4, w\<lparr>nw_dev := h3\<rparr>)" "ok h3" "sec h3 = sec (nw_dev w)"
    using read_file_headers_sectors [of d "w\<lparr>nw_dev := h2\<rparr>" 0 4] assms(1,2,4) h2(2,3) by auto
  then show ?thesis using that [of h3] h1(1) h2(1) assms(5) by (simp add: nextfs_scanner_def nextfs_mount_def)
qed

end

section \<open>Files\<close>

lemma last_component_cut:
  assumes "component c" "\<forall>c \<in> set cs. component c"
  shows "last_component (c @ path_of cs) = (if cs = [] then Inr c else last_component (hd cs @ path_of (tl cs)))"
proof -
  have "length c < 255" using assms by (simp add: component_def)
  then show ?thesis
    by (subst last_component.simps) (use assms cut_component [OF assms(1), of cs] in \<open>auto simp: component_def split: list.splits\<close>)
qed

lemma last_component_path:
  assumes "\<forall>c \<in> set cs. component c" "component c"
  shows "last_component (path_of (cs @ [c])) = Inr c"
proof -
  have "last_component (c' @ path_of (cs' @ [c])) = Inr c" if "\<forall>c \<in> set (c' # cs'). component c" for c' cs'
    using that
  proof (induction cs' arbitrary: c')
    case Nil
    then show ?case using last_component_cut [of c' "[c]"] assms(2) last_component_cut [OF assms(2), of "[]"] by simp
  next
    case (Cons c'' cs')
    then show ?case using last_component_cut [of c' "c'' # cs' @ [c]"] assms(2) by simp
  qed
  moreover have "last_component (path_of (cs @ [c])) = last_component (drop 1 (path_of (cs @ [c])))"
    using assms cut_until_append(1) [of SLASH "[]" "drop 1 (path_of (cs @ [c]))"]
    by (subst last_component.simps) (cases cs; auto simp: component_def)
  ultimately show ?thesis using assms last_component_cut [OF assms(2), of "[]"] by (cases cs) auto
qed

lemma string_at_tail: "string_at a data = x # xs \<Longrightarrow> string_at (a + 1) data = xs"
proof -
  assume a: "string_at a data = x # xs"
  then obtain r where r: "drop a data = x # r" by (cases "drop a data") (auto simp: string_at_def split: if_splits)
  then have "drop (a + 1) data = r" by (metis Suc_eq_plus1 drop_Suc list.sel(3) tl_drop)
  then show ?thesis using a r by (auto simp: string_at_def split: if_splits)
qed

lemma nextfs_dir_at_file:
  assumes "length H = 512" "length F = 2048" "i < 100" "nf_named F i" "nf_name F i \<noteq> []" "1 \<le> i" "i < file_header_index H"
  shows "nextfs_dir_at (nextfs_data d H F) (int i - 1) = Inr \<lparr>d_name = nf_name F i, d_idx = int i - 1, d_is_none = False, d_is_dir = False\<rparr>"
proof -
  have s: "string_at (file_header i) (nextfs_data d H F) = nf_name F i" by (rule nextfs_string [OF assms(1-4)])
  have "length (nf_name F i) \<le> 16" using length_takeWhile_le [of _ "take 16 (drop (20 * i) F)"] by (simp add: nf_name_def le_trans)
  moreover obtain x xs where x: "nf_name F i = x # xs" using assms(5) by (cases "nf_name F i") auto
  ultimately have "length (string_at (file_header i + 1) (nextfs_data d H F)) < 256" using string_at_tail [OF s [unfolded x]] by simp
  moreover have "512 + 20 * (int i - 1 + 1) = int (file_header i)" by (simp add: file_header_def)
  moreover have "nat (512 + 20 * int i) = 512 + 20 * i" by (simp add: nat_add_distrib nat_mult_distrib)
  ultimately show ?thesis
    using s assms(3,6,7) file_header_index_data [OF assms(1), of d F] by (simp add: nextfs_dir_at_def Let_def file_header_def)
qed

lemma nextfs_open_file:
  assumes blk: "block_device drv ok sec n" and w: "d < length (nw_disks w)" "nw_disks w ! d = drv" "ok (nw_dev w)"
    and S: "S = sec (nw_dev w)" "F = sectors S 18 4" "file_header_index (S 17) \<le> 100" "\<forall>j. 1 \<le> j \<and> j < file_header_index (S 17) \<longrightarrow> nf_named F j"
    and i: "1 \<le> i" "i < file_header_index (S 17)" "\<forall>j. 1 \<le> j \<and> j < i \<longrightarrow> nf_name F j \<noteq> nf_name F i"
    and l: "nf_start F i + nf_sectors F i \<le> n" "last_component path = Inr (nf_name F i)"
  shows "\<exists>b h. nextfs_open junk d (nextfs_data d (S 17) F) mnt path w =
      Inr (Some \<lparr>f_mount = mnt, f_mode = 0, f_node = nw_next w, f_size = of_nat (512 * nf_sectors F i)\<rparr>,
           w\<lparr>nw_dev := h, nw_bufs := (nw_bufs w)(nw_next w \<mapsto> sectors S (nf_start F i) (nf_sectors F i) @ b), nw_next := Suc (nw_next w)\<rparr>) \<and>
      length b < 4096 \<and> ok h \<and> sec h = S"
proof -
  let ?k = "nf_sectors F i" and ?D = "nextfs_data d (S 17) F"
  have len: "length (S x) = 512" for x using block_device.sec_length [OF blk w(3)] S(1) by simp
  then have F: "length F = 2048" using length_sectors [of S 18 4] S(2) by simp
  have i100: "i < 100" using i(2) S(3) by simp
  note fld = nextfs_fields [OF len [of 17] F i100, of d]
  have k: "1 \<le> ?k" "?k \<le> 2 ^ 16" using unsigned_less [of "get16 F (20 * i + 18)", where 'a = nat] by (simp_all add: nf_sectors_def)
  have find: "nextfs_find ?D (nf_name F i) 1 (file_header_index ?D - 1) = Inr (Some i)"
    using S(3,4) i by (intro nextfs_find_first [OF len F]) (auto simp: file_header_index_data [OF len])
  let ?pages = "(512 * ?k + 0xFFF) div 0x1000" let ?b = "fresh junk (nw_next w) (4096 * ?pages)"
  have p: "512 * ?k \<le> 4096 * ?pages" "4096 * ?pages < 512 * ?k + 4096"
    using dividend_less_times_div [of 4096 "512 * ?k + 0xFFF"] times_div_less_eq_dividend [of 4096 "512 * ?k + 0xFFF"] by linarith+
  have u: "unat (ucast (start_sector ?D i) :: u64) = nf_start F i" "unat (of_nat ?k :: u32) = ?k"
    using fld(1) k(2) unsigned_less [of "start_sector ?D i", where 'a = nat] by (simp_all add: unsigned_ucast_eq take_bit_nat_eq_self)
  have c: "unat (ucast (start_sector ?D i) :: u64) + unat (of_nat ?k :: u32) \<le> n" "512 * unat (of_nat ?k :: u32) \<le> length ?b"
    using u l(1) p(1) by simp_all
  obtain h where h: "nw_read (int d) (ucast (start_sector ?D i)) (of_nat ?k) ?b w = Inr (sectors S (nf_start F i) ?k @ drop (512 * ?k) ?b, w\<lparr>nw_dev := h\<rparr>)"
    "ok h" "sec h = S"
    using block_device.nw_read_sectors [OF blk w c] unfolding u S(1) [symmetric] by blast
  then have "nextfs_open junk d ?D mnt path w = Inr (Some \<lparr>f_mount = mnt, f_mode = 0, f_node = nw_next w, f_size = of_nat (512 * ?k)\<rparr>,
      w\<lparr>nw_dev := h, nw_bufs := (nw_bufs w)(nw_next w \<mapsto> sectors S (nf_start F i) ?k @ drop (512 * ?k) ?b), nw_next := Suc (nw_next w)\<rparr>)"
    by (simp only: nextfs_open_def l(2) find rbind_Inr option.case Let_def fld(2) prod.case) simp
  then show ?thesis using h(2,3) p(2) by (intro exI [of _ "drop (512 * ?k) ?b"] exI [of _ h]) simp
qed

text \<open>
  C30. Files of a nextfs disk. On a disk whose sector 17 has the magic number and at most 100 file headers, the scanner mounts the file system without changing the
  disk; through the virtual file system, opening a path whose last component is the name of a file gives a file of
  the size of its sectors, reading all of it gives exactly these sectors, the listing shows its name, and closing it frees its buffer.
\<close>

theorem nextfs_reads_files:
  assumes blk: "block_device drv ok sec n" and w: "d < length (nw_disks w)" "nw_disks w ! d = drv" "ok (nw_dev w)"
    and S: "S = sec (nw_dev w)" "22 \<le> n" "nextfs_magic (S 17) = 0xF0F0" "F = sectors S 18 4" "file_header_index (S 17) \<le> 100"
      "\<forall>j. 1 \<le> j \<and> j < file_header_index (S 17) \<longrightarrow> nf_named F j"
    and i: "1 \<le> i" "i < file_header_index (S 17)" "\<forall>j. 1 \<le> j \<and> j < i \<longrightarrow> nf_name F j \<noteq> nf_name F i" "nf_start F i + nf_sectors F i \<le> n"
    and p: "\<forall>c \<in> set cs. component c" "component (nf_name F i)" "label = nextfs_name (nextfs_data d (S 17) F)" "COLON \<notin> set label"
      "path = label @ COLON # path_of (cs @ [nf_name F i])" "length path < 1024" "\<forall>m \<in> set (vfs_mounts v). m_name m \<noteq> label"
  shows "\<exists>m w1 f w2. nextfs_scanner junk d w = Inr (Some m, w1) \<and> sec (nw_dev w1) = S \<and> m_name m = label \<and>
    vfs_open path flags (vfs_mount m v) w1 = Inr (Some f, w2) \<and> sec (nw_dev w2) = S \<and> f_size f = of_nat (512 * nf_sectors F i) \<and>
    vfs_read f (f_size f) 0 (vfs_mount m v) w2 = Inr (sectors S (nf_start F i) (nf_sectors F i)) \<and>
    vfs_dir_at (int i - 1) (label @ [COLON]) (vfs_mount m v) w2 =
      Inr \<lparr>d_name = nf_name F i, d_idx = int i - 1, d_is_none = False, d_is_dir = False\<rparr> \<and>
    vfs_close f (vfs_mount m v) w2 = Inr (w2\<lparr>nw_bufs := (nw_bufs w2)(f_node f := None)\<rparr>)"
proof -
  let ?D = "nextfs_data d (S 17) F" and ?k = "nf_sectors F i"
  let ?m = "nextfs_fns junk d ?D" let ?v = "vfs_mount ?m v" and ?j = "length (vfs_mounts v)"
  obtain h1 where h1: "nextfs_scanner junk d w = Inr (Some ?m, w\<lparr>nw_dev := h1\<rparr>)" "ok h1" "sec h1 = S"
    using block_device.nextfs_scanned [OF blk w S(2), of junk] S(1,3,4) by metis
  let ?w1 = "w\<lparr>nw_dev := h1\<rparr>" let ?f = "\<lparr>f_mount = ?j, f_mode = 0, f_node = nw_next w, f_size = of_nat (512 * ?k)\<rparr>"
  have w1: "d < length (nw_disks ?w1)" "nw_disks ?w1 ! d = drv" "ok (nw_dev ?w1)" "S = sec (nw_dev ?w1)" using w(1,2) h1(2,3) by simp_all
  obtain b h2 where o: "nextfs_open junk d ?D ?j (path_of (cs @ [nf_name F i])) ?w1 = Inr (Some ?f,
      ?w1\<lparr>nw_dev := h2, nw_bufs := (nw_bufs ?w1)(nw_next ?w1 \<mapsto> sectors S (nf_start F i) ?k @ b), nw_next := Suc (nw_next ?w1)\<rparr>)" "sec h2 = S"
    using nextfs_open_file [OF blk w1 S(4-6) i last_component_path [OF p(1,2)], of junk ?j] by auto
  let ?w2 = "?w1\<lparr>nw_dev := h2, nw_bufs := (nw_bufs ?w1)(nw_next ?w1 \<mapsto> sectors S (nf_start F i) ?k @ b), nw_next := Suc (nw_next ?w1)\<rparr>"
  have len: "length (S x) = 512" for x using block_device.sec_length [OF blk w(3)] S(1) by simp
  have lk: "length (sectors S (nf_start F i) ?k) = 512 * ?k" "length F = 2048" using length_sectors [of S] len S(4) by simp_all
  have k: "512 * ?k < 2 ^ 32" using unsigned_less [of "get16 F (20 * i + 18)", where 'a = nat] by (simp add: nf_sectors_def)
  have mt: "vfs_mounts ?v ! ?j = ?m" "?j < length (vfs_mounts ?v)" "m_name ?m = label" "\<forall>i < ?j. m_name (vfs_mounts ?v ! i) \<noteq> label"
    using p(3,7) by (simp_all add: vfs_mount_def nextfs_fns_def nth_append)
  have rt: "vfs_route (label @ COLON # q) ?v = Inr (Some (?j, q))" if "length (label @ COLON # q) < 1024" for q
    using vfs_route_mount [OF mt(2) _ mt(4) p(4) that] mt(1,3) by simp
  have "vfs_open path flags ?v ?w1 = Inr (Some (?f\<lparr>f_mode := flags\<rparr>), ?w2)"
    using rt [of "path_of (cs @ [nf_name F i])"] p(5,6) o(1) mt(1) by (simp add: vfs_open_def nextfs_fns_def)
  moreover have "vfs_read (?f\<lparr>f_mode := flags\<rparr>) (of_nat (512 * ?k)) 0 ?v ?w2 = Inr (sectors S (nf_start F i) ?k)"
    using mt(1,2) lk k unat_of_nat_u32 [OF k] by (simp add: vfs_read_def mount_of_def nextfs_fns_def nextfs_read_def)
  moreover have "vfs_dir_at (int i - 1) (label @ [COLON]) ?v ?w2 = Inr \<lparr>d_name = nf_name F i, d_idx = int i - 1, d_is_none = False, d_is_dir = False\<rparr>"
    using rt [of "[]"] p(5,6) mt(1) nextfs_dir_at_file [OF len lk(2), of i] i(1,2) S(5,6) p(2)
    by (simp add: vfs_dir_at_def vfs_at_def nextfs_fns_def component_def)
  moreover have "vfs_close (?f\<lparr>f_mode := flags\<rparr>) ?v ?w2 = Inr (?w2\<lparr>nw_bufs := (nw_bufs ?w2)(f_node ?f := None)\<rparr>)"
    using mt(1,2) by (simp add: vfs_close_def mount_of_def nextfs_fns_def nextfs_close_def)
  ultimately show ?thesis
    by (intro exI [of _ ?m] exI [of _ ?w1] exI [of _ "?f\<lparr>f_mode := flags\<rparr>"] exI [of _ ?w2]) (simp add: h1 o(2) mt(3))
qed

text \<open>A disk labelled \<open>nxt\<close> with one file \<open>a\<close> of one sector.\<close>

definition nxt_header :: "u8 list" where
  "nxt_header = [0xF0, 0xF0, 0x6E, 0x78, 0x74, 0] @ replicate 14 0 @ [2, 0] @ replicate 490 0"

definition nxt_files :: "u8 list" where
  "nxt_files = replicate 20 0 @ [0x61] @ replicate 15 0 @ [22, 0, 0, 0] @ replicate 472 0"

definition nxt_drives :: ata_dev where
  "nxt_drives = blank_drives\<lparr>a_disk := \<lambda>m i. if i = 17 then nxt_header else if i = 18 then nxt_files
     else if i = 22 then replicate 512 5 else replicate 512 0\<rparr>"

definition nxt_world :: "ata_dev nextfs_world" where
  "nxt_world = \<lparr>nw_disks = [get_ata_driver pio ata0_master], nw_dev = nxt_drives, nw_bufs = Map.empty, nw_next = 0\<rparr>"

lemma nxt_disk:
  defines "S \<equiv> ata_sec (\<lambda>D. D) ata0_master (nw_dev nxt_world)"
  shows "ata_ok (\<lambda>D. D) (nw_dev nxt_world)" "S 17 = nxt_header" "sectors S 18 4 = nxt_files @ replicate 1536 0" "sectors S 22 1 = replicate 512 5"
proof -
  have "sectors S 18 4 = nxt_files @ replicate 512 0 @ replicate 512 0 @ replicate 512 0"
    by (simp add: S_def ata_sec_def nxt_world_def nxt_drives_def numeral_eq_Suc sectors_Suc)
  then show "sectors S 18 4 = nxt_files @ replicate 1536 0" by (simp add: replicate_add [symmetric])
  show "ata_ok (\<lambda>D. D) (nw_dev nxt_world)" "S 17 = nxt_header" "sectors S 22 1 = replicate 512 5"
    by (simp_all add: S_def ata_ok_def ata_sec_def nxt_world_def nxt_drives_def blank_drives_def nxt_header_def nxt_files_def)
qed

lemma nxt_fields:
  defines "F \<equiv> nxt_files @ replicate 1536 0"
  shows "nextfs_magic nxt_header = 0xF0F0" "file_header_index nxt_header = 2" "nf_named F 1" "nf_name F 1 = [0x61]" "nf_start F 1 = 22"
    "nf_sectors F 1 = 1" "nextfs_name (nextfs_data 0 nxt_header G) = [0x6E, 0x78, 0x74]"
proof -
  show "nextfs_name (nextfs_data 0 nxt_header G) = [0x6E, 0x78, 0x74]"
    by (simp add: nextfs_name_def string_at_def nextfs_data_def nxt_header_def)
qed (unfold F_def, code_simp+)

theorem nextfs_reads_files_witness:
  "\<exists>m w1 f w2. nextfs_scanner (\<lambda>_ _. 0) 0 nxt_world = Inr (Some m, w1) \<and>
     vfs_open [0x6E, 0x78, 0x74, COLON, SLASH, 0x61] 0 (vfs_mount m vfs_boot) w1 = Inr (Some f, w2) \<and> f_size f = 512 \<and>
     vfs_read f (f_size f) 0 (vfs_mount m vfs_boot) w2 = Inr (replicate 512 5)"
proof -
  let ?S = "ata_sec (\<lambda>D. D) ata0_master (nw_dev nxt_world)" and ?F = "nxt_files @ replicate 1536 0" and ?p = "[0x6E, 0x78, 0x74, COLON, SLASH, 0x61] :: u8 list"
  have j: "j = 1" if "1 \<le> j \<and> j < 2" for j :: nat using that by simp
  have S: "nextfs_magic (?S 17) = 0xF0F0" "?F = sectors ?S 18 4" "file_header_index (?S 17) \<le> 100"
    unfolding nxt_disk(2,3) nxt_fields(1,2) by simp_all
  have N: "\<forall>j. 1 \<le> j \<and> j < file_header_index (?S 17) \<longrightarrow> nf_named ?F j"
    unfolding nxt_disk(2) nxt_fields(2) by (intro allI impI, drule j) (simp only: nxt_fields(3))
  have i: "1 < file_header_index (?S 17)" "\<forall>j. 1 \<le> j \<and> j < 1 \<longrightarrow> nf_name ?F j \<noteq> nf_name ?F 1" "nf_start ?F 1 + nf_sectors ?F 1 \<le> 2 ^ 28"
    unfolding nxt_disk(2) nxt_fields by simp_all
  have p: "component (nf_name ?F 1)" "[0x6E, 0x78, 0x74] = nextfs_name (nextfs_data 0 (?S 17) ?F)" "?p = [0x6E, 0x78, 0x74] @ COLON # path_of ([] @ [nf_name ?F 1])"
    unfolding nxt_disk(2) nxt_fields by (simp_all add: component_def)
  have w: "0 < length (nw_disks nxt_world)" "nw_disks nxt_world ! 0 = get_ata_driver pio ata0_master" by (simp_all add: nxt_world_def)
  obtain m w1 f w2 where "nextfs_scanner (\<lambda>_ _. 0) 0 nxt_world = Inr (Some m, w1)" "vfs_open ?p 0 (vfs_mount m vfs_boot) w1 = Inr (Some f, w2)"
    "f_size f = of_nat (512 * nf_sectors ?F 1)" "vfs_read f (f_size f) 0 (vfs_mount m vfs_boot) w2 = Inr (sectors ?S (nf_start ?F 1) (nf_sectors ?F 1))"
    using nextfs_reads_files [OF ata_block_device [OF pio_device] w nxt_disk(1) refl _ S N _ i _ p(1,2) _ p(3), of vfs_boot "\<lambda>_ _. 0" 0]
    by (auto simp: vfs_boot_def)
  then show ?thesis unfolding nxt_fields nxt_disk(4) by auto
qed

end
