(* ===== verification/Devfs.thy ===== *)
theory Devfs
  imports Nextfs
begin

text \<open>
  The device files: \<open>mckrnl/fs/devfs.c\<close>, the files of \<open>mckrnl/devices\<close>, and the C library's use of \<open>dev:disk\<close>,
  \<open>user/libc/buildin/disk_raw.c\<close>. A device works on the memory of the calling task through pointers, also through ones inside the buffer it
  is given, so buffers are addresses here and the state holds the memory, with the disks, and a log of the calls of the terminal driver.
\<close>

section \<open>The file system\<close>

datatype term_call = TermClear u32 | OutputToSerial

record 'h dev_world =
  dw_mem :: mem
  dw_disks :: "'h disk_driver_t list"
  dw_dev :: 'h
  dw_calls :: "term_call list"

record 'w devfs_file_t =
  df_read :: "(file_t \<Rightarrow> u32 \<Rightarrow> u32 \<Rightarrow> u32 \<Rightarrow> 'w \<Rightarrow> 'w res) option"
  df_write :: "(file_t \<Rightarrow> u32 \<Rightarrow> u32 \<Rightarrow> u32 \<Rightarrow> 'w \<Rightarrow> 'w res) option"
  df_prepare :: "file_t \<Rightarrow> file_t"
  df_name :: "u8 list"

text \<open>The loop over the files; the node of an open file is its number.\<close>

primrec devfs_find :: "u8 list \<Rightarrow> nat \<Rightarrow> 'w devfs_file_t list \<Rightarrow> nat option" where
  "devfs_find path i [] = None"
| "devfs_find path i (d # ds) = (if df_name d = path then Some i else devfs_find path (Suc i) ds)"

definition devfs_open :: "nat \<Rightarrow> u8 list \<Rightarrow> 'w devfs_file_t list \<Rightarrow> file_t option" where
  "devfs_open mount path files =
     (let path = (if path \<noteq> [] \<and> hd path = SLASH then tl path else path) in
      map_option (\<lambda>i. df_prepare (files ! i) \<lparr>f_mount = mount, f_mode = 0, f_node = i, f_size = - 1\<rparr>) (devfs_find path 0 files))"

definition dfile :: "file_t \<Rightarrow> 'w devfs_file_t list \<Rightarrow> 'w devfs_file_t res" where
  "dfile f files = (if f_node f < length files then Inr (files ! f_node f) else Inl OutOfBounds)"

definition devfs_read :: "'w devfs_file_t list \<Rightarrow> file_t \<Rightarrow> u32 \<Rightarrow> u32 \<Rightarrow> u32 \<Rightarrow> 'w \<Rightarrow> 'w res" where
  "devfs_read files f buf sz offset w = rbind (dfile f files) (\<lambda>d. rbind (fn (df_read d)) (\<lambda>g. g f buf sz offset w))"

definition devfs_write :: "'w devfs_file_t list \<Rightarrow> file_t \<Rightarrow> u32 \<Rightarrow> u32 \<Rightarrow> u32 \<Rightarrow> 'w \<Rightarrow> 'w res" where
  "devfs_write files f buf sz offset w = rbind (dfile f files) (\<lambda>d. rbind (fn (df_write d)) (\<lambda>g. g f buf sz offset w))"

text \<open>Closing frees the \<open>file_t\<close>, which is not part of this state.\<close>

definition devfs_close :: "file_t \<Rightarrow> 'w \<Rightarrow> 'w res" where
  "devfs_close f w = Inr w"

definition devfs_dir_at :: "'w devfs_file_t list \<Rightarrow> int \<Rightarrow> dir_t res" where
  "devfs_dir_at files idx =
     (if idx \<ge> int (length files) then Inr \<lparr>d_name = [], d_idx = idx, d_is_none = True, d_is_dir = False\<rparr>
      else if idx < 0 then Inl OutOfBounds
      else Inr \<lparr>d_name = df_name (files ! nat idx), d_idx = idx, d_is_none = False, d_is_dir = False\<rparr>)"

definition devfs_name :: "u8 list" where
  "devfs_name = [0x64, 0x65, 0x76]"

definition devfs_register_file :: "'w devfs_file_t \<Rightarrow> 'w devfs_file_t list \<Rightarrow> 'w devfs_file_t list" where
  "devfs_register_file d files = files @ [d]"

section \<open>The device of the disks\<close>

text \<open>The fields of \<open>raw_disk_command_t\<close>; the compiler pads the first to four bytes.\<close>

definition cmd_command :: "mem \<Rightarrow> u32 \<Rightarrow> u8" where
  "cmd_command m a = m a"

definition cmd_disk :: "mem \<Rightarrow> u32 \<Rightarrow> int" where
  "cmd_disk m a = sint (ld32 m (a + 4))"

definition cmd_sector :: "mem \<Rightarrow> u32 \<Rightarrow> u64" where
  "cmd_sector m a = ld64 m (a + 8)"

definition cmd_count :: "mem \<Rightarrow> u32 \<Rightarrow> u32" where
  "cmd_count m a = ld32 m (a + 16)"

definition cmd_buffer :: "mem \<Rightarrow> u32 \<Rightarrow> u32" where
  "cmd_buffer m a = ld32 m (a + 20)"

abbreviation RAW_DISK_COMMAND :: u32 where "RAW_DISK_COMMAND \<equiv> 24"

text \<open>The loop that stores which disks are physical.\<close>

primrec store_physical :: "'h disk_driver_t list \<Rightarrow> u32 \<Rightarrow> nat \<Rightarrow> nat \<Rightarrow> mem \<Rightarrow> mem res" where
  "store_physical ds p i 0 m = Inr m"
| "store_physical ds p i (Suc n) m =
     rbind (is_disk_physical ds (int i)) (\<lambda>b. store_physical ds p (Suc i) n (m(p + of_nat i := of_bool b)))"

definition disk_file_write :: "file_t \<Rightarrow> u32 \<Rightarrow> u32 \<Rightarrow> u32 \<Rightarrow> 'h dev_world \<Rightarrow> 'h dev_world res" where
  "disk_file_write f buf sz offset w =
     (if \<not> (RAW_DISK_COMMAND = sz \<and> offset = 0) then Inl AssertFailed
      else
        let m = dw_mem w; ds = dw_disks w; a = cmd_buffer m buf; len = 512 * unat (cmd_count m buf) in
        if cmd_command m buf = 1 then
          rbind (read_disk ds (cmd_disk m buf) (cmd_sector m buf) (cmd_count m buf) (load_bytes m a len) (dw_dev w)) (\<lambda>(b, h).
          Inr (w\<lparr>dw_mem := store_bytes m a b, dw_dev := h\<rparr>))
        else if cmd_command m buf = 2 then
          rbind (write_disk ds (cmd_disk m buf) (cmd_sector m buf) (cmd_count m buf) (load_bytes m a len) (dw_dev w)) (\<lambda>h.
          Inr (w\<lparr>dw_dev := h\<rparr>))
        else if cmd_command m buf = 3 then
          let m1 = st32 m (buf + 4) (of_nat (length ds)) in
          if cmd_buffer m1 buf = NULL then Inr (w\<lparr>dw_mem := m1\<rparr>)
          else rbind (store_physical ds (cmd_buffer m1 buf) 0 (length ds) m1) (\<lambda>m2. Inr (w\<lparr>dw_mem := m2\<rparr>))
        else Inr w)"

definition disk_file :: "'h dev_world devfs_file_t" where
  "disk_file = \<lparr>df_read = None, df_write = Some disk_file_write, df_prepare = (\<lambda>f. f), df_name = [0x64, 0x69, 0x73, 0x6B]\<rparr>"

section \<open>The other devices\<close>

text \<open>\<open>dev:font\<close>: the boot module with the font. The sum in the test of the bounds wraps around.\<close>

definition font_file_read :: "u32 \<Rightarrow> file_t \<Rightarrow> u32 \<Rightarrow> u32 \<Rightarrow> u32 \<Rightarrow> 'h dev_world \<Rightarrow> 'h dev_world res" where
  "font_file_read mod_start f buf sz offset w =
     (if \<not> offset + sz \<le> f_size f then Inl AssertFailed
      else Inr (w\<lparr>dw_mem := store_bytes (dw_mem w) buf (load_bytes (dw_mem w) (mod_start + offset) (unat sz))\<rparr>))"

definition get_font_file :: "u32 \<Rightarrow> u32 \<Rightarrow> 'h dev_world devfs_file_t" where
  "get_font_file mod_start mod_end =
     \<lparr>df_read = Some (font_file_read mod_start), df_write = None, df_prepare = (\<lambda>f. f\<lparr>f_size := mod_end - mod_start\<rparr>),
      df_name = [0x66, 0x6F, 0x6E, 0x74]\<rparr>"

text \<open>\<open>dev:framebuffer\<close>: the bytes of \<open>fb_info_t\<close>. The offset is not used, and more than the structure is read from the stack.\<close>

record fb_info_t =
  fb_pitch :: u32
  fb_width :: u32
  fb_height :: u32
  fb_bpp :: u8
  fb_addr :: u32

definition fb_bytes :: "u8 list \<Rightarrow> fb_info_t \<Rightarrow> u8 list" where
  "fb_bytes pad i = put32 (fb_pitch i) @ put32 (fb_width i) @ put32 (fb_height i) @ [fb_bpp i] @ pad @ put32 (fb_addr i)"

definition framebuffer_file_read :: "u8 list \<Rightarrow> fb_info_t \<Rightarrow> file_t \<Rightarrow> u32 \<Rightarrow> u32 \<Rightarrow> u32 \<Rightarrow> 'h dev_world \<Rightarrow> 'h dev_world res" where
  "framebuffer_file_read pad info f buf sz offset w =
     (if unat sz > length (fb_bytes pad info) then Inl OutOfBounds
      else Inr (w\<lparr>dw_mem := store_bytes (dw_mem w) buf (take (unat sz) (fb_bytes pad info))\<rparr>))"

definition framebuffer_file :: "u8 list \<Rightarrow> fb_info_t \<Rightarrow> 'h dev_world devfs_file_t" where
  "framebuffer_file pad info =
     \<lparr>df_read = Some (framebuffer_file_read pad info), df_write = None, df_prepare = (\<lambda>f. f\<lparr>f_size := 20\<rparr>),
      df_name = [0x66, 0x72, 0x61, 0x6D, 0x65, 0x62, 0x75, 0x66, 0x66, 0x65, 0x72]\<rparr>"

text \<open>\<open>dev:fst\<close>: commands to the terminal of the calling task.\<close>

definition fst_file_write :: "u32 \<Rightarrow> file_t \<Rightarrow> u32 \<Rightarrow> u32 \<Rightarrow> u32 \<Rightarrow> 'h dev_world \<Rightarrow> 'h dev_world res" where
  "fst_file_write self_term f buf sz offset w =
     Inr (if dw_mem w buf = 0 then w\<lparr>dw_calls := dw_calls w @ [TermClear self_term]\<rparr>
          else if dw_mem w buf = 1 then w\<lparr>dw_calls := dw_calls w @ [OutputToSerial]\<rparr>
          else w)"

definition fst_file :: "u32 \<Rightarrow> 'h dev_world devfs_file_t" where
  "fst_file self_term =
     \<lparr>df_read = None, df_write = Some (fst_file_write self_term), df_prepare = (\<lambda>f. f), df_name = [0x66, 0x73, 0x74]\<rparr>"

text \<open>The files in the order in which the kernel registers them; \<open>emu\<close> and \<open>full\<close>: built with \<open>TEXT_MODE_EMULATION\<close> and \<open>FULL_SCREEN_TERMINAL\<close>.\<close>

definition boot_devices :: "bool \<times> bool \<Rightarrow> u8 list \<Rightarrow> fb_info_t \<Rightarrow> u32 \<Rightarrow> u32 \<times> u32 \<Rightarrow> 'h dev_world devfs_file_t list" where
  "boot_devices = (\<lambda>(emu, full) pad info self_term font.
     let files = devfs_register_file disk_file [];
         files = (if emu then devfs_register_file (framebuffer_file pad info) files else files)
     in if full then devfs_register_file (get_font_file (fst font) (snd font)) (devfs_register_file (fst_file self_term) files) else files)"

section \<open>The C library\<close>

text \<open>A command at the address \<open>loc\<close> on the stack.\<close>

definition put_command :: "u32 \<Rightarrow> u8 \<Rightarrow> u32 \<Rightarrow> u64 \<Rightarrow> u32 \<Rightarrow> u32 \<Rightarrow> mem \<Rightarrow> mem" where
  "put_command loc command disk sector count buffer m =
     st32 (st32 (st32 (st32 (st32 (st32 m loc (ucast command)) (loc + 4) disk)
       (loc + 8) (ucast sector)) (loc + 12) (ucast (drop_bit 32 sector))) (loc + 16) count) (loc + 20) buffer"

text \<open>Opening \<open>dev:disk\<close> and writing the command to it. The test of the descriptor does not notice a file that is not there.\<close>

definition send_command :: "'h dev_world devfs_file_t list \<Rightarrow> u32 \<Rightarrow> 'h dev_world \<Rightarrow> 'h dev_world res" where
  "send_command files cmd w =
     (case devfs_open 0 [0x64, 0x69, 0x73, 0x6B] files of
        None \<Rightarrow> Inl OutOfBounds
      | Some f \<Rightarrow> devfs_write files f cmd RAW_DISK_COMMAND 0 w)"

definition raw_command ::
  "'h dev_world devfs_file_t list \<Rightarrow> u32 \<Rightarrow> u8 \<Rightarrow> u32 \<Rightarrow> u64 \<Rightarrow> u32 \<Rightarrow> u32 \<Rightarrow> 'h dev_world \<Rightarrow> 'h dev_world res" where
  "raw_command files loc command disk sector count buffer w =
     send_command files loc (w\<lparr>dw_mem := put_command loc command disk sector count buffer (dw_mem w)\<rparr>)"

definition read_sector_raw ::
  "'h dev_world devfs_file_t list \<Rightarrow> u32 \<Rightarrow> u32 \<Rightarrow> u64 \<Rightarrow> u32 \<Rightarrow> u32 \<Rightarrow> 'h dev_world \<Rightarrow> 'h dev_world res" where
  "read_sector_raw files loc disk sector count buffer w = raw_command files loc 1 disk sector count buffer w"

definition write_sector_raw ::
  "'h dev_world devfs_file_t list \<Rightarrow> u32 \<Rightarrow> u32 \<Rightarrow> u64 \<Rightarrow> u32 \<Rightarrow> u32 \<Rightarrow> 'h dev_world \<Rightarrow> 'h dev_world res" where
  "write_sector_raw files loc disk sector count buffer w = raw_command files loc 2 disk sector count buffer w"

definition disk_count :: "'h dev_world devfs_file_t list \<Rightarrow> u32 \<Rightarrow> u32 \<Rightarrow> 'h dev_world \<Rightarrow> (int \<times> 'h dev_world) res" where
  "disk_count files loc physical w =
     rbind (raw_command files loc 3 0 0 0 physical w) (\<lambda>w'. Inr (cmd_disk (dw_mem w') loc, w'))"

section \<open>Properties\<close>

lemma aligned4_off: "aligned4 a \<Longrightarrow> aligned4 (a + 4 * of_nat k)"
proof -
  assume "aligned4 a"
  have "unat (a + 4 * of_nat k) mod 4 = (unat a + 4 * k) mod 4"
    by (simp add: unat_word_ariths unat_of_nat take_bit_eq_mod mod_mod_cancel mod_add_right_eq mod_add_left_eq)
  then show ?thesis using \<open>aligned4 a\<close> by (simp only: aligned4_unat) simp
qed

lemma aligned4_fields:
  assumes "aligned4 a"
  shows "aligned4 (a + 4)" "aligned4 (a + 8)" "aligned4 (a + 12)" "aligned4 (a + 16)" "aligned4 (a + 20)"
  using aligned4_off [OF assms, of 1] aligned4_off [OF assms, of 2] aligned4_off [OF assms, of 3] aligned4_off [OF assms, of 4] aligned4_off [OF assms, of 5]
  by simp_all

text \<open>The device finds in the memory what the library put there.\<close>

lemma put_command_fields:
  assumes "aligned4 loc" and m_def: "m = put_command loc command disk sector count buffer m0"
  shows "cmd_command m loc = command" "cmd_disk m loc = sint disk" "cmd_sector m loc = sector" "cmd_count m loc = count" "cmd_buffer m loc = buffer"
proof -
  note al = aligned4_fields [OF assms(1)] assms(1)
  have "ucast (ld32 m loc) = m loc" by (rule bit_word_eqI) (auto simp: ld32_def bit_simps)
  moreover have "ld32 m loc = ucast command" unfolding m_def put_command_def by (simp add: ld32_st32 al)
  moreover have "ucast (ucast command :: u32) = command" by (rule bit_word_eqI) (auto simp: bit_simps dest: bit_imp_le_length)
  ultimately show "cmd_command m loc = command" by (simp add: cmd_command_def)
  show "cmd_disk m loc = sint disk" "cmd_count m loc = count" "cmd_buffer m loc = buffer"
    unfolding m_def put_command_def by (simp_all add: cmd_disk_def cmd_count_def cmd_buffer_def ld32_st32 al)
  have "ld32 m (loc + 8) = ucast sector" "ld32 m (loc + 12) = ucast (drop_bit 32 sector)"
    unfolding m_def put_command_def by (simp_all add: ld32_st32 al)
  moreover have "loc + 8 + 4 = loc + 12" by simp
  ultimately show "cmd_sector m loc = sector" by (simp only: cmd_sector_def ld64_def join_words)
qed

lemma put_command_outside:
  assumes "a \<notin> range_of loc 24"
  shows "put_command loc command disk sector count buffer m a = m a"
proof -
  have "a \<notin> range_of (loc + of_nat k) 4" if "k + 4 \<le> 24" for k using assms range_of_part [OF that, of loc] by blast
  from this [of 0] this [of 4] this [of 8] this [of 12] this [of 16] this [of 20]
  show ?thesis by (simp add: put_command_def st32_def store_bytes_outside)
qed

lemma put_command_load:
  "range_of loc 24 \<inter> range_of p n = {} \<Longrightarrow> load_bytes (put_command loc command disk sector count buffer m) p n = load_bytes m p n"
  by (rule load_bytes_cong) (auto intro: put_command_outside)

text \<open>The device file is found, whatever the other devices are.\<close>

lemma boot_devices_disk: "\<exists>ds. boot_devices cfg pad info t font = disk_file # ds"
  by (cases cfg) (simp add: boot_devices_def Let_def devfs_register_file_def)

lemma send_command_boot:
  fixes w :: "'h dev_world"
  shows "send_command (boot_devices cfg pad info t font) cmd w =
    disk_file_write \<lparr>f_mount = 0, f_mode = 0, f_node = 0, f_size = - 1\<rparr> cmd RAW_DISK_COMMAND 0 w"
proof -
  obtain ds :: "'h dev_world devfs_file_t list" where "boot_devices cfg pad info t font = disk_file # ds" using boot_devices_disk by blast
  then show ?thesis by (simp add: send_command_def devfs_open_def disk_file_def) (simp add: devfs_write_def dfile_def)
qed

lemma write_sector_raw_boot:
  assumes "aligned4 loc" "range_of loc 24 \<inter> range_of src (512 * unat c) = {}"
  shows "write_sector_raw (boot_devices cfg pad info t font) loc disk s c src w =
    rbind (write_disk (dw_disks w) (sint disk) s c (load_bytes (dw_mem w) src (512 * unat c)) (dw_dev w)) (\<lambda>h.
      Inr (w\<lparr>dw_mem := put_command loc 2 disk s c src (dw_mem w), dw_dev := h\<rparr>))"
  by (simp add: write_sector_raw_def raw_command_def send_command_boot disk_file_write_def Let_def
      put_command_fields [OF assms(1) refl] put_command_load [OF assms(2)])

lemma read_sector_raw_boot:
  assumes "aligned4 loc" "range_of loc 24 \<inter> range_of dst (512 * unat c) = {}"
  shows "read_sector_raw (boot_devices cfg pad info t font) loc disk s c dst w =
    rbind (read_disk (dw_disks w) (sint disk) s c (load_bytes (dw_mem w) dst (512 * unat c)) (dw_dev w)) (\<lambda>(b, h).
      Inr (w\<lparr>dw_mem := store_bytes (put_command loc 1 disk s c dst (dw_mem w)) dst b, dw_dev := h\<rparr>))"
  by (simp add: read_sector_raw_def raw_command_def send_command_boot disk_file_write_def Let_def
      put_command_fields [OF assms(1) refl] put_command_load [OF assms(2)])

text \<open>
  C31. Raw access to a disk from a program. Through the device \<open>dev:disk\<close> of the booted kernel, writing sectors from one buffer and reading them into another copies the
  buffer; on the disk only these sectors change, and in the program's memory only the second buffer and the command structures.
\<close>

theorem disk_raw_write_read:
  assumes blk: "block_device drv ok sec n" and w: "the_disk (sint disk) (dw_disks w) = Inr drv" "ok (dw_dev w)"
    and l: "unat s + unat c \<le> n" "512 * unat c \<le> 2 ^ 32" "aligned4 loc"
    and r: "range_of loc 24 \<inter> range_of src (512 * unat c) = {}" "range_of loc 24 \<inter> range_of dst (512 * unat c) = {}"
    and b: "b = load_bytes (dw_mem w) src (512 * unat c)" "files = boot_devices cfg pad info t font"
  shows "\<exists>w1 w2. write_sector_raw files loc disk s c src w = Inr w1 \<and> read_sector_raw files loc disk s c dst w1 = Inr w2 \<and>
    sectors (sec (dw_dev w2)) (unat s) (unat c) = b \<and> load_bytes (dw_mem w2) dst (512 * unat c) = b \<and>
    (\<forall>i. i < unat s \<or> unat s + unat c \<le> i \<longrightarrow> sec (dw_dev w2) i = sec (dw_dev w) i) \<and>
    (\<forall>a. a \<notin> range_of loc 24 \<union> range_of dst (512 * unat c) \<longrightarrow> dw_mem w2 a = dw_mem w a)"
proof -
  have lb: "length b = 512 * unat c" using b(1) by simp
  obtain h1 where h1: "dd_write drv s c b (dw_dev w) = Inr h1" "ok h1" "sec h1 = write_sectors (sec (dw_dev w)) (unat s) (unat c) b"
    using block_device.wr_law [OF blk w(2) l(1), of b] lb by auto
  let ?m1 = "put_command loc 2 disk s c src (dw_mem w)" let ?w1 = "w\<lparr>dw_mem := ?m1, dw_dev := h1\<rparr>"
  have sb: "sectors (sec h1) (unat s) (unat c) = b"
    using sectors_write [of "unat c" b "sec h1" "unat s"] lb by (simp add: h1(3) write_sectors_def)
  obtain h2 where h2: "dd_read drv s c (load_bytes ?m1 dst (512 * unat c)) h1 = Inr (b, h2)" "sec h2 = sec h1"
    using block_device.rd_law [OF blk h1(2) l(1), of "load_bytes ?m1 dst (512 * unat c)"] sb by auto
  let ?m2 = "put_command loc 1 disk s c dst ?m1"
  have "write_sector_raw files loc disk s c src w = Inr ?w1"
    using write_sector_raw_boot [OF l(3) r(1), of cfg pad info t font disk s w] b w(1) h1(1) by (simp add: write_disk_def)
  moreover have "read_sector_raw files loc disk s c dst ?w1 = Inr (?w1\<lparr>dw_mem := store_bytes ?m2 dst b, dw_dev := h2\<rparr>)"
    using read_sector_raw_boot [OF l(3) r(2), of cfg pad info t font disk s ?w1] b(2) w(1) h2(1) by (simp add: read_disk_def)
  moreover have "load_bytes (store_bytes ?m2 dst b) dst (512 * unat c) = b" using load_store_bytes [of b ?m2 dst] lb l(2) by simp
  moreover have "store_bytes ?m2 dst b a = dw_mem w a" if "a \<notin> range_of loc 24 \<union> range_of dst (512 * unat c)" for a
    using that lb by (simp add: store_bytes_outside put_command_outside)
  ultimately show ?thesis using sb h1(3) h2(2)
    by (intro exI [of _ ?w1] exI [of _ "?w1\<lparr>dw_mem := store_bytes ?m2 dst b, dw_dev := h2\<rparr>"]) (auto simp: write_sectors_def)
qed

lemma range_of_unat: "unat p + n \<le> 2 ^ 32 \<Longrightarrow> a \<in> range_of p n \<Longrightarrow> unat p \<le> unat a \<and> unat a < unat p + n"
  by (auto simp: range_of_def unat_word_ariths unat_of_nat take_bit_nat_eq_self)

lemma ranges_apart:
  assumes "unat p + n \<le> unat q" "unat q + k \<le> 2 ^ 32"
  shows "range_of p n \<inter> range_of q k = {}" "range_of q k \<inter> range_of p n = {}"
  using range_of_unat [of p n] range_of_unat [of q k] assms by fastforce+

definition raw_world :: "ata_dev dev_world" where
  "raw_world = \<lparr>dw_mem = (\<lambda>_. 7), dw_disks = [get_ata_driver pio ata0_master], dw_dev = blank_drives, dw_calls = []\<rparr>"

theorem disk_raw_write_read_witness:
  "\<exists>w1 w2. write_sector_raw (boot_devices (False, False) [0, 0, 0] \<lparr>fb_pitch = 0, fb_width = 0, fb_height = 0, fb_bpp = 0, fb_addr = 0\<rparr> 1 (0, 0)) 0x7000 0 3 1 0x1000 raw_world = Inr w1 \<and>
     read_sector_raw (boot_devices (False, False) [0, 0, 0] \<lparr>fb_pitch = 0, fb_width = 0, fb_height = 0, fb_bpp = 0, fb_addr = 0\<rparr> 1 (0, 0)) 0x7000 0 3 1 0x2000 w1 = Inr w2 \<and>
     a_disk (dw_dev w2) False 3 = load_bytes (\<lambda>_. 7) 0x1000 512 \<and> dw_mem w2 0x9000 = 7"
proof -
  let ?c = "1 :: u32"
  have w: "the_disk (sint (0 :: u32)) (dw_disks raw_world) = Inr (get_ata_driver pio ata0_master)" "ata_ok (\<lambda>D. D) (dw_dev raw_world)"
    by (simp_all add: the_disk_def raw_world_def blank_drives_ok)
  have r: "range_of 0x7000 24 \<inter> range_of 0x1000 (512 * unat ?c) = {}" "range_of 0x7000 24 \<inter> range_of 0x2000 (512 * unat ?c) = {}"
    by (rule ranges_apart; simp)+
  have a: "aligned4 (0x7000 :: u32)" "unat (3 :: u64) + unat ?c \<le> 2 ^ 28" "512 * unat ?c \<le> 2 ^ 32" by simp_all
  have o: "(0x9000 :: u32) \<notin> range_of 0x7000 24" "(0x9000 :: u32) \<notin> range_of 0x2000 (512 * unat ?c)"
    using range_of_unat [of "0x7000" 24 "0x9000"] range_of_unat [of "0x2000" "512 * unat ?c" "0x9000"] by auto
  show ?thesis
    using disk_raw_write_read [OF ata_block_device [OF pio_device] w a(2,3,1) r refl refl] o by (simp add: raw_world_def ata_sec_def ata_pci_found_def) blast
qed

text \<open>The number of disks, and which are physical, as the device reports them.\<close>

lemma store_physical_bytes:
  assumes "i + k \<le> length ds" "i + k \<le> 2 ^ 32"
  shows "store_physical ds p i k m = Inr (store_bytes m (p + of_nat i) (map (\<lambda>d. of_bool (dd_physical d)) (take k (drop i ds))))"
  using assms
proof (induction k arbitrary: i m)
  case (Suc k)
  have "drop i ds = ds ! i # drop (Suc i) ds" using Suc.prems(1) by (simp add: Cons_nth_drop_Suc)
  then show ?case
    using Suc.IH [of "Suc i"] Suc.prems by (simp add: is_disk_physical_def the_disk_def add.assoc) (simp add: add.commute)
qed simp

lemma disk_count_reports:
  assumes "aligned4 loc" "length (dw_disks w) < 2 ^ 31" "physical \<noteq> NULL" "range_of loc 24 \<inter> range_of physical (length (dw_disks w)) = {}"
  obtains w' where "disk_count (boot_devices cfg pad info t font) loc physical w = Inr (int (length (dw_disks w)), w')"
    "load_bytes (dw_mem w') physical (length (dw_disks w)) = map (\<lambda>d. of_bool (dd_physical d)) (dw_disks w)" "dw_dev w' = dw_dev w"
proof -
  let ?m = "put_command loc 3 0 0 0 physical (dw_mem w)" and ?n = "length (dw_disks w)" and ?ps = "map (\<lambda>d. of_bool (dd_physical d) :: u8) (dw_disks w)"
  let ?m1 = "st32 ?m (loc + 4) (of_nat ?n)" let ?m2 = "store_bytes ?m1 physical ?ps"
  have buf: "cmd_buffer ?m1 loc = physical"
    using put_command_fields(5) [OF assms(1) refl] aligned4_fields [OF assms(1)] by (simp add: cmd_buffer_def ld32_st32)
  have s: "store_physical (dw_disks w) physical 0 ?n ?m1 = Inr ?m2" using store_physical_bytes [of 0 ?n "dw_disks w"] assms(2) by simp
  have run: "raw_command (boot_devices cfg pad info t font) loc 3 0 0 0 physical w = Inr (w\<lparr>dw_mem := ?m2\<rparr>)"
    using buf s assms(3) by (simp add: raw_command_def send_command_boot disk_file_write_def Let_def put_command_fields [OF assms(1) refl])
  have "range_of (loc + 4) 4 \<subseteq> range_of loc 24" using range_of_part [of 4 4 24 loc] by simp
  then have "ld32 ?m2 (loc + 4) = of_nat ?n" using assms(4) by (subst ld32_store_bytes_outside) auto
  moreover have "sint (of_nat ?n :: u32) = int ?n" using assms(2) by (simp add: signed_of_nat signed_take_bit_int_eq_self)
  ultimately have "cmd_disk ?m2 loc = int ?n" by (simp add: cmd_disk_def)
  then show ?thesis
    using that [of "w\<lparr>dw_mem := ?m2\<rparr>"] run load_store_bytes [of ?ps ?m1 physical] assms(2) by (simp add: disk_count_def)
qed

text \<open>Devices without the operation: the kernel calls through a null pointer.\<close>

lemma devices_null:
  "devfs_read (boot_devices (True, True) pad info t font) \<lparr>f_mount = 0, f_mode = 0, f_node = 0, f_size = sz\<rparr> buf n off w = Inl NullDeref"
  "devfs_write (boot_devices (True, True) pad info t font) \<lparr>f_mount = 0, f_mode = 0, f_node = 1, f_size = sz\<rparr> buf n off w = Inl NullDeref"
  "devfs_read (boot_devices (True, True) pad info t font) \<lparr>f_mount = 0, f_mode = 0, f_node = 2, f_size = sz\<rparr> buf n off w = Inl NullDeref"
  by (simp_all add: devfs_read_def devfs_write_def dfile_def boot_devices_def Let_def devfs_register_file_def disk_file_def framebuffer_file_def fst_file_def)

text \<open>The test of the bounds of \<open>dev:font\<close> lets an offset pass that wraps around: the byte in front of the font is read.\<close>

lemma font_wraps: "font_file_read start f buf 1 (- 1) w = Inr (w\<lparr>dw_mem := (dw_mem w)(buf := dw_mem w (start - 1))\<rparr>)"
  by (simp add: font_file_read_def)

end
